(* ===== verification/Prelude.thy ===== *)
theory Prelude
  imports Main "HOL-Library.Word"
begin

unbundle bit_operations_syntax

text \<open>
  Shared vocabulary of the development: the machine types of the Rust sources, the
  Result type, big-endian integers as the wire formats write them, and the three
  interfaces several components implement.
  \<^item> \<open>result\<close>: Rust's Result, an error on the left; \<open>and_then\<close> is the question-mark operator.
  \<^item> \<open>be_nat\<close>, \<open>nat_of_be\<close>: to\_be\_bytes and from\_be\_bytes, with their round trips.
  \<^item> locale \<open>stream_decoder\<close>: what an incremental decoder (a buffer, a parser of one
    message, a loop) promises; its main consequence is that the way a byte stream is cut
    into chunks does not change the messages.
  \<^item> locale \<open>state_machine\<close>: an operation on a state that keeps an invariant keeps it along
    every sequence of inputs.
  Lemmas of the collection \<open>result_simps\<close> rewrite results, those of \<open>be_simps\<close> byte strings.
\<close>

named_theorems result_simps
named_theorems be_simps

section \<open>Machine types\<close>

type_synonym byte = "8 word"
type_synonym bytes = "byte list"
type_synonym u16 = "16 word"
type_synonym u32 = "32 word"
type_synonym u64 = "64 word"

text \<open>
  usize is \<open>nat\<close>: every value of that type in the modelled code is a length, an index into
  a vector or a sum of those, and Rust vectors are shorter than \<open>2 ^ 63\<close> bytes.
\<close>

type_synonym usize = nat

abbreviation u8_max :: nat where "u8_max \<equiv> 255"
abbreviation u16_max :: nat where "u16_max \<equiv> 65535"
abbreviation u32_max :: nat where "u32_max \<equiv> 4294967295"

section \<open>Result\<close>

type_synonym ('e, 'a) result = "'e + 'a"

definition and_then :: "('e, 'a) result \<Rightarrow> ('a \<Rightarrow> ('e, 'b) result) \<Rightarrow> ('e, 'b) result" where
  "and_then r f = (case r of Inl e \<Rightarrow> Inl e | Inr x \<Rightarrow> f x)"

definition map_err :: "('e \<Rightarrow> 'f) \<Rightarrow> ('e, 'a) result \<Rightarrow> ('f, 'a) result" where
  "map_err f r = (case r of Inl e \<Rightarrow> Inl (f e) | Inr x \<Rightarrow> Inr x)"

lemma and_then_simps [simp, result_simps]:
  "and_then (Inl e) f = Inl e"
  "and_then (Inr x) f = f x"
  by (simp_all add: and_then_def)

lemma map_err_simps [simp, result_simps]:
  "map_err f (Inl e) = Inl (f e)"
  "map_err f (Inr x) = Inr x"
  by (simp_all add: map_err_def)

lemma map_err_Inr_iff [simp, result_simps]: "map_err f r = Inr x \<longleftrightarrow> r = Inr x"
  by (cases r) auto

lemma and_then_Inr_iff [result_simps]:
  "and_then r f = Inr y \<longleftrightarrow> (\<exists>x. r = Inr x \<and> f x = Inr y)"
  by (cases r) auto

lemma and_then_Inl_iff [result_simps]:
  "and_then r f = Inl e \<longleftrightarrow> r = Inl e \<or> (\<exists>x. r = Inr x \<and> f x = Inl e)"
  by (cases r) auto

lemma and_then_assoc: "and_then (and_then r f) g = and_then r (\<lambda>x. and_then (f x) g)"
  by (cases r) auto

section \<open>Big-endian integers\<close>

text \<open>The \<open>n\<close> low bytes of \<open>x\<close>, most significant first; and the value of a byte string.\<close>

fun be_nat :: "nat \<Rightarrow> nat \<Rightarrow> bytes" where
  "be_nat 0 x = []"
| "be_nat (Suc n) x = be_nat n (x div 256) @ [of_nat x]"

definition nat_of_be :: "bytes \<Rightarrow> nat" where
  "nat_of_be bs = foldl (\<lambda>a b. a * 256 + unat b) 0 bs"

lemma nat_of_be_Nil [simp]: "nat_of_be [] = 0"
  by (simp add: nat_of_be_def)

lemma nat_of_be_snoc [simp]: "nat_of_be (bs @ [b]) = nat_of_be bs * 256 + unat b"
  by (simp add: nat_of_be_def)

lemma length_be_nat [simp, be_simps]: "length (be_nat n x) = n"
  by (induction n arbitrary: x) auto

lemma be_nat_unfold:
  "be_nat (numeral k) x = be_nat (pred_numeral k) (x div 256) @ [of_nat x]"
  by (simp only: numeral_eq_Suc be_nat.simps)

lemma unat_of_nat_byte: "unat (of_nat x :: byte) = x mod 256"
  by (simp add: unat_of_nat)

lemma nat_of_be_nat: "nat_of_be (be_nat n x) = x mod 256 ^ n"
proof (induction n arbitrary: x)
  case 0
  then show ?case by simp
next
  case (Suc n)
  have "nat_of_be (be_nat (Suc n) x) = (x div 256) mod 256 ^ n * 256 + x mod 256"
    by (simp add: Suc.IH unat_of_nat_byte)
  also have "\<dots> = x mod (256 * 256 ^ n)"
    by (simp add: mod_mult2_eq)
  finally show ?case by simp
qed

lemma nat_of_be_nat_id [simp, be_simps]: "x < 256 ^ n \<Longrightarrow> nat_of_be (be_nat n x) = x"
  by (simp add: nat_of_be_nat)

lemma nat_of_be_less: "nat_of_be bs < 256 ^ length bs"
proof (induction bs rule: rev_induct)
  case Nil
  then show ?case by simp
next
  case (snoc b bs)
  have "unat b < 256"
    using unsigned_less [of b] by simp
  with snoc show ?case by (simp add: algebra_simps)
qed

lemma be_nat_of_be: "be_nat (length bs) (nat_of_be bs) = bs"
proof (induction bs rule: rev_induct)
  case Nil
  then show ?case by simp
next
  case (snoc b bs)
  have b: "unat b < 256"
    using unsigned_less [of b] by simp
  have "(nat_of_be bs * 256 + unat b) div 256 = nat_of_be bs"
    using b by simp
  moreover have "(of_nat (nat_of_be bs * 256 + unat b) :: byte) = b"
    by (rule word_unat_eq_iff [THEN iffD2]) (simp only: unat_of_nat_byte b, simp add: b)
  ultimately show ?case
    using snoc by simp
qed

text \<open>The four widths the sources use.\<close>

definition u16_to_be :: "u16 \<Rightarrow> bytes" where "u16_to_be w = be_nat 2 (unat w)"
definition u32_to_be :: "u32 \<Rightarrow> bytes" where "u32_to_be w = be_nat 4 (unat w)"
definition u64_to_be :: "u64 \<Rightarrow> bytes" where "u64_to_be w = be_nat 8 (unat w)"
definition u16_from_be :: "bytes \<Rightarrow> u16" where "u16_from_be bs = of_nat (nat_of_be bs)"
definition u32_from_be :: "bytes \<Rightarrow> u32" where "u32_from_be bs = of_nat (nat_of_be bs)"
definition u64_from_be :: "bytes \<Rightarrow> u64" where "u64_from_be bs = of_nat (nat_of_be bs)"

lemma length_to_be [simp, be_simps]:
  "length (u16_to_be a) = 2" "length (u32_to_be b) = 4" "length (u64_to_be c) = 8"
  by (simp_all add: u16_to_be_def u32_to_be_def u64_to_be_def)

lemma unat_bounds:
  fixes a :: u16 and b :: u32 and c :: u64
  shows "unat a < 256 ^ 2" "unat b < 256 ^ 4" "unat c < 256 ^ 8"
  using unsigned_less [of a] unsigned_less [of b] unsigned_less [of c] by simp_all

lemma from_to_be [simp, be_simps]:
  "u16_from_be (u16_to_be a) = a"
  "u32_from_be (u32_to_be b) = b"
  "u64_from_be (u64_to_be c) = c"
  by (simp_all only: u16_from_be_def u16_to_be_def u32_from_be_def u32_to_be_def
      u64_from_be_def u64_to_be_def nat_of_be_nat_id unat_bounds of_nat_unat ucast_id)

lemma to_from_be:
  "length bs = 2 \<Longrightarrow> u16_to_be (u16_from_be bs) = bs"
  "length bs = 4 \<Longrightarrow> u32_to_be (u32_from_be bs) = bs"
  "length bs = 8 \<Longrightarrow> u64_to_be (u64_from_be bs) = bs"
  using nat_of_be_less [of bs] be_nat_of_be [of bs]
  by (simp_all add: u16_from_be_def u16_to_be_def u32_from_be_def u32_to_be_def
      u64_from_be_def u64_to_be_def unat_of_nat)

text \<open>\<open>u8::from(flag)\<close> and single bits of a flag byte.\<close>

definition u8_of_bool :: "bool \<Rightarrow> byte" where
  "u8_of_bool b = (if b then 1 else 0)"

section \<open>Slices\<close>

definition segment :: "'a list \<Rightarrow> nat \<Rightarrow> nat \<Rightarrow> 'a list" where
  "segment xs lo hi = take (hi - lo) (drop lo xs)"

lemma length_segment [simp]: "hi \<le> length xs \<Longrightarrow> length (segment xs lo hi) = hi - lo"
  by (simp add: segment_def)

lemma segment_drop: "segment (drop c xs) lo hi = segment xs (c + lo) (c + hi)"
  by (simp add: segment_def add.commute)

lemma segment_append_left: "hi \<le> length xs \<Longrightarrow> segment (xs @ ys) lo hi = segment xs lo hi"
  by (simp add: segment_def)

lemma segment_append_right:
  "length xs = n \<Longrightarrow> segment (xs @ ys) n (n + m) = take m ys"
  by (simp add: segment_def)

section \<open>Incremental decoders\<close>

text \<open>
  An incremental decoder keeps a buffer. \<open>step\<close> tries to read one message from the front
  of the buffer: an error, nothing yet, or a message with the number of bytes it used.
  \<open>loop\<close> reads messages until \<open>step\<close> has none and gives them with the bytes left.
  The laws say that \<open>step\<close> makes progress, stays within the buffer, and that bytes
  arriving later never change a message, or an error, already there.
\<close>

locale stream_decoder =
  fixes step :: "bytes \<Rightarrow> ('e, ('m \<times> nat) option) result"
    and loop :: "bytes \<Rightarrow> ('e, 'm list \<times> bytes) result"
  assumes loop_unfold: "loop b = (case step b of Inl e \<Rightarrow> Inl e
        | Inr None \<Rightarrow> Inr ([], b)
        | Inr (Some (m, n)) \<Rightarrow>
            and_then (loop (drop n b)) (\<lambda>(ms, rest). Inr (m # ms, rest)))"
    and step_bounds: "step b = Inr (Some (m, n)) \<Longrightarrow> 0 < n \<and> n \<le> length b"
    and step_stable: "step b = Inr (Some (m, n)) \<Longrightarrow> step (b @ c) = Inr (Some (m, n))"
    and step_error_stable: "step b = Inl e \<Longrightarrow> step (b @ c) = Inl e"
begin

lemma loop_cases:
  "step b = Inl e \<Longrightarrow> loop b = Inl e"
  "step b = Inr None \<Longrightarrow> loop b = Inr ([], b)"
  "step b = Inr (Some (m, n)) \<Longrightarrow>
     loop b = and_then (loop (drop n b)) (\<lambda>(ms, rest). Inr (m # ms, rest))"
  by (simp_all add: loop_unfold [of b])

text \<open>Feeding \<open>b\<close> and then \<open>c\<close> reads what feeding \<open>b @ c\<close> at once reads.\<close>

lemma loop_append:
  "loop (b @ c) = and_then (loop b)
     (\<lambda>(ms, rest). and_then (loop (rest @ c)) (\<lambda>(ms', rest'). Inr (ms @ ms', rest')))"
proof (induction b rule: length_induct)
  case (1 b)
  show ?case
  proof (cases "step b")
    case (Inl e)
    then show ?thesis
      using step_error_stable [OF Inl, of c] by (simp add: loop_cases)
  next
    case (Inr r)
    show ?thesis
    proof (cases r)
      case None
      have "(\<lambda>(ms', rest'). Inr (ms', rest')) = (Inr :: _ \<Rightarrow> ('e, 'm list \<times> bytes) result)"
        by auto
      then show ?thesis
        using Inr None by (cases "loop (b @ c)") (auto simp: loop_cases)
    next
      case (Some p)
      obtain m n where p: "p = (m, n)" by (cases p)
      have s: "step b = Inr (Some (m, n))"
        using Inr Some p by simp
      have bound: "0 < n" "n \<le> length b"
        using step_bounds [OF s] by auto
      have IH: "loop (drop n b @ c) = and_then (loop (drop n b))
         (\<lambda>(ms, rest). and_then (loop (rest @ c)) (\<lambda>(ms', rest'). Inr (ms @ ms', rest')))"
        using 1 bound by (simp add: diff_less)
      show ?thesis
        using bound IH
        by (simp add: loop_cases(3) [OF s] loop_cases(3) [OF step_stable [OF s]])
          (cases "loop (drop n b)"; auto simp: and_then_assoc and_then_def split: sum.splits)
    qed
  qed
qed

lemma loop_rest_quiet: "loop b = Inr (ms, rest) \<Longrightarrow> step rest = Inr None"
proof (induction b arbitrary: ms rule: length_induct)
  case (1 b)
  show ?case
  proof (cases "step b")
    case (Inl e)
    then show ?thesis using 1 by (simp add: loop_cases)
  next
    case (Inr r)
    show ?thesis
    proof (cases r)
      case None
      then show ?thesis using 1 Inr by (simp add: loop_cases)
    next
      case (Some p)
      obtain m n where s: "step b = Inr (Some (m, n))"
        using Inr Some by (cases p) simp
      obtain ms' where "loop (drop n b) = Inr (ms', rest)"
        using 1(2) by (auto simp: loop_cases(3) [OF s] and_then_Inr_iff)
      then show ?thesis
        using 1(1) [rule_format, of "drop n b" ms'] step_bounds [OF s] by auto
    qed
  qed
qed

text \<open>Every message of a run was read by one step.\<close>

lemma loop_members: "loop b = Inr (ms, rest) \<Longrightarrow> m \<in> set ms \<Longrightarrow> \<exists>b' n. step b' = Inr (Some (m, n))"
proof (induction b arbitrary: ms rule: length_induct)
  case (1 b)
  show ?case
  proof (cases "step b")
    case (Inl e)
    then show ?thesis using 1 by (simp add: loop_cases)
  next
    case (Inr r)
    show ?thesis
    proof (cases r)
      case None
      then show ?thesis using 1 Inr by (simp add: loop_cases)
    next
      case (Some p)
      obtain m' n where s: "step b = Inr (Some (m', n))"
        using Inr Some by (cases p) simp
      obtain ms' where "loop (drop n b) = Inr (ms', rest)" "ms = m' # ms'"
        using 1(2) by (auto simp: loop_cases(3) [OF s] and_then_Inr_iff)
      then show ?thesis
        using 1(1) [rule_format, of "drop n b" ms'] 1(3) step_bounds [OF s] s by auto
    qed
  qed
qed

text \<open>A decoder whose \<open>step\<close> inverts an encoder reads back any sequence of encodings.\<close>

lemma loop_encoded:
  assumes "\<And>m rest. m \<in> set ms \<Longrightarrow> step (enc m @ rest) = Inr (Some (m, length (enc m)))"
    and "step rest = Inr None"
  shows "loop (concat (map enc ms) @ rest) = Inr (ms, rest)"
  using assms(1)
proof (induction ms)
  case Nil
  then show ?case using assms(2) by (simp add: loop_cases)
next
  case (Cons m ms)
  have "step (enc m @ concat (map enc ms) @ rest) = Inr (Some (m, length (enc m)))"
    using Cons.prems by simp
  then show ?case
    using Cons by (simp add: loop_cases(3))
qed

end

text \<open>
  The sources keep one growing index into the buffer instead of cutting the buffer after
  each message: \<open>iloop b c acc\<close> goes on at index \<open>c\<close> with the messages \<open>acc\<close> read so far.
  Such a loop is a decoder in the sense above.
\<close>

locale indexed_decoder =
  fixes step :: "bytes \<Rightarrow> ('e, ('m \<times> nat) option) result"
    and iloop :: "bytes \<Rightarrow> nat \<Rightarrow> 'm list \<Rightarrow> ('e, 'm list \<times> nat) result"
  assumes iloop_unfold: "c \<le> length b \<Longrightarrow> iloop b c acc = (case step (drop c b) of Inl e \<Rightarrow> Inl e
        | Inr None \<Rightarrow> Inr (acc, c)
        | Inr (Some (m, n)) \<Rightarrow> iloop b (c + n) (acc @ [m]))"
    and bounds: "step b = Inr (Some (m, n)) \<Longrightarrow> 0 < n \<and> n \<le> length b"
    and stable: "step b = Inr (Some (m, n)) \<Longrightarrow> step (b @ d) = Inr (Some (m, n))"
    and error_stable: "step b = Inl e \<Longrightarrow> step (b @ d) = Inl e"
begin

lemma iloop_shift:
  "c \<le> length b \<Longrightarrow>
     iloop b c acc = and_then (iloop (drop c b) 0 []) (\<lambda>(ms, k). Inr (acc @ ms, c + k))"
proof (induction "length b - c" arbitrary: b c acc rule: less_induct)
  case less
  show ?case
  proof (cases "step (drop c b)")
    case (Inl e)
    then show ?thesis
      using less.prems by (simp add: iloop_unfold [of c b acc] iloop_unfold [of 0 "drop c b"])
  next
    case (Inr r)
    show ?thesis
    proof (cases r)
      case None
      then show ?thesis
        using Inr less.prems by (simp add: iloop_unfold [of c b acc] iloop_unfold [of 0 "drop c b"])
    next
      case (Some p)
      obtain m n where s: "step (drop c b) = Inr (Some (m, n))"
        using Inr Some by (cases p) simp
      have n: "0 < n" "n \<le> length b - c"
        using bounds [OF s] by auto
      have l: "iloop b (c + n) (acc @ [m])
          = and_then (iloop (drop (c + n) b) 0 []) (\<lambda>(ms, k). Inr ((acc @ [m]) @ ms, c + n + k))"
        using n less.prems by (intro less.hyps) auto
      have r: "iloop (drop c b) n [m]
          = and_then (iloop (drop n (drop c b)) 0 []) (\<lambda>(ms, k). Inr ([m] @ ms, n + k))"
        using n less.prems by (intro less.hyps) auto
      have d: "drop n (drop c b) = drop (c + n) b"
        by (simp add: add.commute)
      show ?thesis
        using s l r less.prems unfolding d
        by (simp add: iloop_unfold [of c b acc] iloop_unfold [of 0 "drop c b"])
          (cases "iloop (drop (c + n) b) 0 []"; auto)
    qed
  qed
qed

sublocale stream_decoder step "\<lambda>b. and_then (iloop b 0 []) (\<lambda>(ms, k). Inr (ms, drop k b))"
proof (unfold_locales, goal_cases)
  case (1 b)
  show ?case
  proof (cases "step b")
    case (Inl e)
    then show ?thesis by (simp add: iloop_unfold [of 0 b])
  next
    case (Inr r)
    show ?thesis
    proof (cases r)
      case None
      then show ?thesis using Inr by (simp add: iloop_unfold [of 0 b])
    next
      case (Some p)
      obtain m n where s: "step b = Inr (Some (m, n))"
        using Inr Some by (cases p) simp
      have "iloop b n [m] = and_then (iloop (drop n b) 0 []) (\<lambda>(ms, k). Inr ([m] @ ms, n + k))"
        using bounds [OF s] by (intro iloop_shift) simp
      then show ?thesis
        using s by (simp add: iloop_unfold [of 0 b])
          (cases "iloop (drop n b) 0 []"; auto simp: add.commute)
    qed
  qed
qed (use bounds stable error_stable in auto)

end

text \<open>
  The calling convention of the sources: \<open>feed\<close> appends a chunk to the codec's buffer,
  runs the loop and keeps the rest; after an error the appended buffer stays as it is.
  \<open>feed_chunks\<close> is a reader that feeds one chunk after the other and stops at an error.
\<close>

fun feed_chunks :: "('c \<Rightarrow> bytes \<Rightarrow> ('e, 'm list) result \<times> 'c) \<Rightarrow> 'c \<Rightarrow> bytes list
    \<Rightarrow> ('e, 'm list) result \<times> 'c" where
  "feed_chunks feed c [] = (Inr [], c)"
| "feed_chunks feed c (x # xs) =
     (case feed c x of
        (Inl e, c') \<Rightarrow> (Inl e, c')
      | (Inr ms, c') \<Rightarrow>
          (case feed_chunks feed c' xs of
             (Inl e, c'') \<Rightarrow> (Inl e, c'')
           | (Inr ms', c'') \<Rightarrow> (Inr (ms @ ms'), c'')))"

locale chunk_feeder = stream_decoder step loop
  for step :: "bytes \<Rightarrow> ('e, ('m \<times> nat) option) result"
    and loop :: "bytes \<Rightarrow> ('e, 'm list \<times> bytes) result" +
  fixes feed :: "'c \<Rightarrow> bytes \<Rightarrow> ('e, 'm list) result \<times> 'c"
    and codec :: "bytes \<Rightarrow> 'c"
  assumes feed_eq: "feed (codec b) x = (case loop (b @ x) of
        Inl e \<Rightarrow> (Inl e, codec (b @ x)) | Inr (ms, rest) \<Rightarrow> (Inr ms, codec rest))"
begin

lemma chunks_ok:
  "step b = Inr None \<Longrightarrow> loop (b @ concat xs) = Inr (ms, rest) \<Longrightarrow>
     feed_chunks feed (codec b) xs = (Inr ms, codec rest)"
proof (induction xs arbitrary: b ms)
  case Nil
  then show ?case by (simp add: loop_cases)
next
  case (Cons x xs)
  have "loop ((b @ x) @ concat xs) = Inr (ms, rest)"
    using Cons.prems(2) by simp
  then obtain m1 r1 m2 where l: "loop (b @ x) = Inr (m1, r1)" "loop (r1 @ concat xs) = Inr (m2, rest)"
    "ms = m1 @ m2"
    unfolding loop_append [of "b @ x"] by (auto simp: and_then_Inr_iff)
  have "feed_chunks feed (codec r1) xs = (Inr m2, codec rest)"
    using Cons.IH loop_rest_quiet [OF l(1)] l(2) by blast
  then show ?case
    using l by (simp add: feed_eq)
qed

lemma chunks_error:
  "step b = Inr None \<Longrightarrow> loop (b @ concat xs) = Inl e \<Longrightarrow>
     fst (feed_chunks feed (codec b) xs) = Inl e"
proof (induction xs arbitrary: b)
  case Nil
  then show ?case by (simp add: loop_cases)
next
  case (Cons x xs)
  have "loop ((b @ x) @ concat xs) = Inl e"
    using Cons.prems(2) by simp
  then consider "loop (b @ x) = Inl e"
    | m r where "loop (b @ x) = Inr (m, r)" "loop (r @ concat xs) = Inl e"
    unfolding loop_append [of "b @ x"] by (auto simp: and_then_Inl_iff)
  then show ?case
  proof cases
    case 1
    then show ?thesis by (simp add: feed_eq)
  next
    case 2
    then have "fst (feed_chunks feed (codec r) xs) = Inl e"
      using Cons.IH loop_rest_quiet by blast
    then show ?thesis
      using 2(1) by (auto simp: feed_eq split: prod.splits sum.splits)
  qed
qed

text \<open>The messages, or the error, depend on the bytes only and not on the chunks.\<close>

lemma chunks_by_content:
  assumes "step b = Inr None" "concat xs = concat ys"
  shows "fst (feed_chunks feed (codec b) xs) = fst (feed_chunks feed (codec b) ys)"
proof (cases "loop (b @ concat xs)")
  case (Inl e)
  then show ?thesis
    using chunks_error [OF assms(1)] assms(2) by metis
next
  case (Inr p)
  then show ?thesis
    using chunks_ok [OF assms(1)] assms(2) by (metis fst_conv surj_pair)
qed

end

section \<open>State machines\<close>

text \<open>
  \<open>step s i\<close> handles input \<open>i\<close> in state \<open>s\<close>; \<open>run\<close> handles a sequence. The one law is
  that \<open>step\<close> keeps \<open>inv\<close>; then every run does, and so does every prefix of it.
\<close>

fun run_machine :: "('s \<Rightarrow> 'i \<Rightarrow> 's) \<Rightarrow> 's \<Rightarrow> 'i list \<Rightarrow> 's" where
  "run_machine step s [] = s"
| "run_machine step s (i # is) = run_machine step (step s i) is"

lemma run_machine_append [simp]:
  "run_machine step s (xs @ ys) = run_machine step (run_machine step s xs) ys"
  by (induction xs arbitrary: s) auto

locale state_machine =
  fixes step :: "'s \<Rightarrow> 'i \<Rightarrow> 's" and inv :: "'s \<Rightarrow> bool"
  assumes step_inv: "inv s \<Longrightarrow> inv (step s i)"
begin

lemma run_inv: "inv s \<Longrightarrow> inv (run_machine step s is)"
  by (induction "is" arbitrary: s) (auto intro: step_inv)

end

end
