(* ===== verification/Grid.thy ===== *)
theory Grid
  imports Prelude
begin

unbundle bit_operations_syntax

text \<open>
  The terminal grid codec of \<^verbatim>\<open>homie-proto/src/grid.rs\<close>: packed colours, cells, the run-length
  encoding of a row, the binary form of a grid update, and the application of an update to
  the client's cell buffer.
  Shown here: colours survive packing; a row, a list of rows and an update are read back
  from their encoding; bytes after an encoding are not looked at, and a payload cut short
  is refused with \<open>UnexpectedEnd\<close>; the run counter never wraps; applying an update is in
  bounds for every buffer and update, and leaves at each coordinate the cell of the last
  changed row that covers it.
\<close>

section \<open>Colours, styles, cells\<close>

datatype term_color = Default | DefaultInverted | Ansi byte | Rgb byte byte byte

definition color_word :: "u32 \<Rightarrow> byte \<Rightarrow> byte \<Rightarrow> byte \<Rightarrow> u32" where
  "color_word tag red green blue =
     push_bit 24 tag OR push_bit 16 (ucast red) OR push_bit 8 (ucast green) OR ucast blue"

fun packed :: "term_color \<Rightarrow> u32" where
  "packed Default = 0"
| "packed DefaultInverted = push_bit 24 1"
| "packed (Ansi color) = push_bit 24 2 OR ucast color"
| "packed (Rgb red green blue) = color_word 3 red green blue"

definition unpack :: "u32 \<Rightarrow> term_color" where
  "unpack p =
     (if drop_bit 24 p = 0 then Default
      else if drop_bit 24 p = 1 then DefaultInverted
      else if drop_bit 24 p = 2 then Ansi (ucast (p AND 0xff))
      else Rgb (ucast (drop_bit 16 p AND 0xff)) (ucast (drop_bit 8 p AND 0xff)) (ucast (p AND 0xff)))"

type_synonym term_style = u16

definition BOLD :: term_style where "BOLD = push_bit 0 1"
definition UNDERLINE :: term_style where "UNDERLINE = push_bit 1 1"
definition BLINK :: term_style where "BLINK = push_bit 2 1"
definition INVERSE :: term_style where "INVERSE = push_bit 3 1"
definition INVISIBLE :: term_style where "INVISIBLE = push_bit 4 1"
definition DIM :: term_style where "DIM = push_bit 5 1"
definition ITALIC :: term_style where "ITALIC = push_bit 6 1"
definition CROSSED_OUT :: term_style where "CROSSED_OUT = push_bit 7 1"

definition style_contains :: "term_style \<Rightarrow> term_style \<Rightarrow> bool" where
  "style_contains s other = (s AND other = other)"

definition style_bitor :: "term_style \<Rightarrow> term_style \<Rightarrow> term_style" where
  "style_bitor s rhs = s OR rhs"

definition style_bitand :: "term_style \<Rightarrow> term_style \<Rightarrow> term_style" where
  "style_bitand s rhs = s AND rhs"

record grid_cell =
  scalar :: u32
  fg :: term_color
  bg :: term_color
  style :: term_style

definition BLANK :: grid_cell where
  "BLANK = \<lparr>scalar = 32, fg = Default, bg = DefaultInverted, style = 0\<rparr>"

record changed_row =
  row_y :: u16
  row_cells :: "grid_cell list"

record grid_update =
  cols :: u16
  rows :: u16
  cursor_col :: u16
  cursor_row :: u16
  cursor_visible :: bool
  is_full_snapshot :: bool
  changed_rows :: "changed_row list"

section \<open>Reading with a cursor\<close>

datatype grid_codec_error =
    UnexpectedEnd usize usize usize \<comment> \<open>offset, needed, remaining\<close>
  | TooManyRows usize
  | TooManyCells usize
  | DecodedRowTooLong usize

record cursor =
  payload :: bytes
  offset :: usize

definition cursor_at :: "bytes \<Rightarrow> usize \<Rightarrow> cursor" where
  "cursor_at p i = \<lparr>payload = p, offset = i\<rparr>"

definition cursor_take :: "nat \<Rightarrow> cursor \<Rightarrow> (grid_codec_error, bytes \<times> cursor) result" where
  "cursor_take n c =
     (let remaining = length (payload c) - offset c in
      if remaining < n then Inl (UnexpectedEnd (offset c) n remaining)
      else Inr (segment (payload c) (offset c) (offset c + n), c\<lparr>offset := offset c + n\<rparr>))"

definition cursor_u8 :: "cursor \<Rightarrow> (grid_codec_error, byte \<times> cursor) result" where
  "cursor_u8 c = and_then (cursor_take 1 c) (\<lambda>(bs, c'). Inr (bs ! 0, c'))"

definition cursor_u16 :: "cursor \<Rightarrow> (grid_codec_error, u16 \<times> cursor) result" where
  "cursor_u16 c = and_then (cursor_take 2 c) (\<lambda>(bs, c'). Inr (u16_from_be bs, c'))"

definition cursor_u32 :: "cursor \<Rightarrow> (grid_codec_error, u32 \<times> cursor) result" where
  "cursor_u32 c = and_then (cursor_take 4 c) (\<lambda>(bs, c'). Inr (u32_from_be bs, c'))"

section \<open>Rows\<close>

text \<open>The inner loop of append\_row: how far the run of \<open>cell\<close> goes from \<open>next\<close>.\<close>

function run_end :: "grid_cell list \<Rightarrow> grid_cell \<Rightarrow> usize \<Rightarrow> nat \<Rightarrow> usize \<times> nat" where
  "run_end cells cell next repeat =
     (if next < length cells \<and> cells ! next = cell \<and> repeat < u16_max
      then run_end cells cell (next + 1) (repeat + 1) else (next, repeat))"
  by pat_completeness auto
termination
  by (relation "measure (\<lambda>(cells, cell, next, repeat). length cells - next)") auto

declare run_end.simps [simp del]

lemma run_end_mono: "next \<le> fst (run_end cells cell next repeat)"
  by (induction cells cell "next" repeat rule: run_end.induct)
    (subst run_end.simps, auto)

lemma run_end_progress:
  "(next', repeat') = run_end cells cell (Suc index) repeat \<Longrightarrow> index < next'"
  using run_end_mono [of "Suc index" cells cell repeat] by (metis Suc_le_lessD fst_conv)

definition put_run :: "nat \<Rightarrow> grid_cell \<Rightarrow> bytes" where
  "put_run repeat cell =
     u16_to_be (of_nat repeat) @ u32_to_be (scalar cell) @ u32_to_be (packed (fg cell))
     @ u32_to_be (packed (bg cell)) @ u16_to_be (style cell)"

text \<open>The outer loop: \<open>runs\<close> are the bytes written so far, \<open>run_count\<close> the u16 counter.\<close>

function append_runs :: "grid_cell list \<Rightarrow> usize \<Rightarrow> bytes \<Rightarrow> u16 \<Rightarrow> bytes \<times> u16" where
  "append_runs cells index runs run_count =
     (if index < length cells
      then (case run_end cells (cells ! index) (index + 1) 1 of
              (next, repeat) \<Rightarrow>
                append_runs cells next (runs @ put_run repeat (cells ! index)) (run_count + 1))
      else (runs, run_count))"
  by pat_completeness auto
termination
  by (relation "measure (\<lambda>(cells, index, runs, run_count). length cells - index)")
    (auto dest!: run_end_progress)

declare append_runs.simps [simp del]

definition append_row :: "grid_cell list \<Rightarrow> bytes \<Rightarrow> (grid_codec_error, bytes) result" where
  "append_row cells encoded =
     (if length cells > u16_max then Inl (TooManyCells (length cells))
      else (case append_runs cells 0 [] 0 of
              (runs, run_count) \<Rightarrow> Inr (encoded @ u16_to_be run_count @ runs)))"

definition encode_row :: "grid_cell list \<Rightarrow> (grid_codec_error, bytes) result" where
  "encode_row cells = append_row cells []"

fun append_all_rows :: "grid_cell list list \<Rightarrow> bytes \<Rightarrow> (grid_codec_error, bytes) result" where
  "append_all_rows [] encoded = Inr encoded"
| "append_all_rows (r # rs) encoded = and_then (append_row r encoded) (append_all_rows rs)"

definition encode_rows :: "grid_cell list list \<Rightarrow> (grid_codec_error, bytes) result" where
  "encode_rows rs = append_all_rows rs []"

text \<open>The loop over the runs of a row; \<open>resize\<close> appends copies of the new cell.\<close>

fun read_runs :: "nat \<Rightarrow> grid_cell list \<Rightarrow> cursor \<Rightarrow> (grid_codec_error, grid_cell list \<times> cursor) result" where
  "read_runs 0 cells c = Inr (cells, c)"
| "read_runs (Suc n) cells c =
     and_then (cursor_u16 c) (\<lambda>(repeat, c).
     and_then (cursor_u32 c) (\<lambda>(sc, c).
     and_then (cursor_u32 c) (\<lambda>(f, c).
     and_then (cursor_u32 c) (\<lambda>(b, c).
     and_then (cursor_u16 c) (\<lambda>(st, c).
       let new_len = length cells + unat repeat in
       if new_len > u16_max then Inl (DecodedRowTooLong new_len)
       else read_runs n (cells @ replicate (unat repeat)
              \<lparr>scalar = sc, fg = unpack f, bg = unpack b, style = st\<rparr>) c)))))"

definition read_row_from_cursor :: "cursor \<Rightarrow> (grid_codec_error, grid_cell list \<times> cursor) result" where
  "read_row_from_cursor c =
     and_then (cursor_u16 c) (\<lambda>(run_count, c). read_runs (unat run_count) [] c)"

definition read_row :: "bytes \<Rightarrow> usize \<Rightarrow> (grid_codec_error, grid_cell list \<times> usize) result" where
  "read_row p i = and_then (read_row_from_cursor (cursor_at p i)) (\<lambda>(cells, c). Inr (cells, offset c))"

fun decode_rows_from :: "bytes \<Rightarrow> nat \<Rightarrow> usize \<Rightarrow> (grid_codec_error, grid_cell list list) result" where
  "decode_rows_from p 0 i = Inr []"
| "decode_rows_from p (Suc n) i =
     and_then (read_row p i) (\<lambda>(row, i').
     and_then (decode_rows_from p n i') (\<lambda>rs. Inr (row # rs)))"

definition decode_rows :: "bytes \<Rightarrow> nat \<Rightarrow> (grid_codec_error, grid_cell list list) result" where
  "decode_rows p row_count = decode_rows_from p row_count 0"

section \<open>Updates\<close>

fun append_changed :: "changed_row list \<Rightarrow> bytes \<Rightarrow> (grid_codec_error, bytes) result" where
  "append_changed [] encoded = Inr encoded"
| "append_changed (r # rs) encoded =
     and_then (append_row (row_cells r) (encoded @ u16_to_be (row_y r))) (append_changed rs)"

definition grid_flags :: "grid_update \<Rightarrow> byte" where
  "grid_flags u = u8_of_bool (cursor_visible u) OR push_bit 1 (u8_of_bool (is_full_snapshot u))"

definition grid_encode :: "grid_update \<Rightarrow> (grid_codec_error, bytes) result" where
  "grid_encode u =
     (if length (changed_rows u) > u16_max then Inl (TooManyRows (length (changed_rows u)))
      else append_changed (changed_rows u)
        (u16_to_be (cols u) @ u16_to_be (rows u) @ u16_to_be (cursor_col u)
         @ u16_to_be (cursor_row u) @ [grid_flags u]
         @ u16_to_be (of_nat (length (changed_rows u)))))"

fun read_changed :: "nat \<Rightarrow> cursor \<Rightarrow> (grid_codec_error, changed_row list \<times> cursor) result" where
  "read_changed 0 c = Inr ([], c)"
| "read_changed (Suc n) c =
     and_then (cursor_u16 c) (\<lambda>(y, c).
     and_then (read_row_from_cursor c) (\<lambda>(cells, c).
     and_then (read_changed n c) (\<lambda>(rs, c).
       Inr (\<lparr>row_y = y, row_cells = cells\<rparr> # rs, c))))"

definition grid_decode_at :: "cursor \<Rightarrow> (grid_codec_error, grid_update \<times> cursor) result" where
  "grid_decode_at c =
     and_then (cursor_u16 c) (\<lambda>(cs, c).
     and_then (cursor_u16 c) (\<lambda>(rs, c).
     and_then (cursor_u16 c) (\<lambda>(ccol, c).
     and_then (cursor_u16 c) (\<lambda>(crow, c).
     and_then (cursor_u8 c) (\<lambda>(flags, c).
     and_then (cursor_u16 c) (\<lambda>(row_count, c).
     and_then (read_changed (unat row_count) c) (\<lambda>(changed, c).
       Inr (\<lparr>cols = cs, rows = rs, cursor_col = ccol, cursor_row = crow,
             cursor_visible = (flags AND 1 \<noteq> 0), is_full_snapshot = (flags AND 2 \<noteq> 0),
             changed_rows = changed\<rparr>, c))))))))"

definition grid_decode :: "bytes \<Rightarrow> (grid_codec_error, grid_update) result" where
  "grid_decode p = and_then (grid_decode_at (cursor_at p 0)) (\<lambda>(u, c). Inr u)"

text \<open>
  \<open>apply\<close>: slice assignments panic out of bounds, which is \<open>None\<close>. \<open>write_slice\<close> is
  \<open>buffer[start..start + n]\<close> overwritten by \<open>n\<close> cells.
\<close>

definition write_slice :: "grid_cell list \<Rightarrow> usize \<Rightarrow> grid_cell list \<Rightarrow> grid_cell list option" where
  "write_slice buf start xs =
     (if start + length xs \<le> length buf
      then Some (take start buf @ xs @ drop (start + length xs) buf) else None)"

definition apply_row :: "usize \<Rightarrow> usize \<Rightarrow> changed_row \<Rightarrow> grid_cell list \<Rightarrow> grid_cell list option" where
  "apply_row ncols nrows changed buf =
     (if unat (row_y changed) \<ge> nrows then Some buf
      else (let start = unat (row_y changed) * ncols;
                copied = min (length (row_cells changed)) ncols in
            Option.bind (write_slice buf start (take copied (row_cells changed)))
              (\<lambda>buf. write_slice buf (start + copied) (replicate (ncols - copied) BLANK))))"

fun apply_rows :: "usize \<Rightarrow> usize \<Rightarrow> changed_row list \<Rightarrow> grid_cell list \<Rightarrow> grid_cell list option" where
  "apply_rows ncols nrows [] buf = Some buf"
| "apply_rows ncols nrows (r # rs) buf =
     Option.bind (apply_row ncols nrows r buf) (apply_rows ncols nrows rs)"

definition grid_apply :: "grid_update \<Rightarrow> grid_cell list \<Rightarrow> grid_cell list option" where
  "grid_apply u buffer =
     (let ncols = unat (cols u); nrows = unat (rows u); cell_count = ncols * nrows;
          buf = (if is_full_snapshot u \<or> length buffer \<noteq> cell_count
                 then replicate cell_count BLANK else buffer)
      in apply_rows ncols nrows (changed_rows u) buf)"


section \<open>Colours survive packing\<close>

lemma bit_byte_bound: "bit (b :: byte) n \<Longrightarrow> n < 8"
  using bit_imp_le_length by force

lemma ff_mask: "(0xff :: u32) = mask 8"
  by (simp add: mask_eq_exp_minus_1)

lemma color_word_parts:
  "ucast (color_word t r g b AND 0xff) = b"
  "ucast (drop_bit 16 (color_word t r g b) AND 0xff) = r"
  "ucast (drop_bit 8 (color_word t r g b) AND 0xff) = g"
  by (rule bit_word_eqI, auto simp: color_word_def bit_simps ff_mask dest: bit_byte_bound)+

lemma drop_bit_below_tag:
  fixes r g b :: byte
  shows "drop_bit 24 (push_bit 16 (ucast r) :: u32) = 0"
    and "drop_bit 24 (push_bit 8 (ucast g) :: u32) = 0"
    and "drop_bit 24 (ucast b :: u32) = 0"
  by (rule bit_word_eqI, auto simp: bit_simps dest!: bit_byte_bound)+

lemma color_word_tag: "drop_bit 24 (color_word t r g b) = take_bit 8 t"
proof -
  have "drop_bit 24 (push_bit 24 t) = (take_bit 8 t :: u32)"
    by (rule bit_word_eqI) (auto simp: bit_simps dest: bit_imp_le_length)
  then show ?thesis
    by (simp add: color_word_def drop_bit_below_tag)
qed

lemma packed_Ansi: "packed (Ansi c) = color_word 2 0 0 c"
  by (simp add: color_word_def)

lemma unpack_packed [simp]: "unpack (packed c) = c"
proof (cases c)
  case (Ansi x)
  have "drop_bit 24 (color_word 2 0 0 x) = 2"
    by (simp add: color_word_tag)
  then show ?thesis
    using Ansi by (simp add: unpack_def packed_Ansi color_word_parts del: packed.simps)
next
  case (Rgb r g b)
  have "drop_bit 24 (color_word 3 r g b) = 3"
    by (simp add: color_word_tag)
  then show ?thesis
    using Rgb by (simp add: unpack_def color_word_parts)
qed (simp_all add: unpack_def)

section \<open>The cursor\<close>

text \<open>\<open>sees c bs\<close>: the bytes from the cursor on are \<open>bs\<close>.\<close>

definition sees :: "cursor \<Rightarrow> bytes \<Rightarrow> bool" where
  "sees c bs \<longleftrightarrow> offset c \<le> length (payload c) \<and> drop (offset c) (payload c) = bs"

definition advance :: "nat \<Rightarrow> cursor \<Rightarrow> cursor" where
  "advance n c = c\<lparr>offset := offset c + n\<rparr>"

lemma advance_simps [simp]:
  "payload (advance n c) = payload c"
  "offset (advance n c) = offset c + n"
  "advance m (advance n c) = advance (n + m) c"
  "advance 0 c = c"
  by (simp_all add: advance_def)

lemma sees_start [simp]: "sees (cursor_at p 0) p"
  by (simp add: sees_def cursor_at_def)

lemma sees_at: "length pre = n \<Longrightarrow> sees (cursor_at (pre @ bs) n) bs"
  by (simp add: sees_def cursor_at_def)

lemma sees_advance: "sees c (bs @ rest) \<Longrightarrow> length bs = n \<Longrightarrow> sees (advance n c) rest"
proof -
  assume s: "sees c (bs @ rest)" and n: "length bs = n"
  have "drop n (drop (offset c) (payload c)) = rest"
    using s n by (simp add: sees_def)
  moreover have "length (drop (offset c) (payload c)) \<ge> n"
    using s n by (simp add: sees_def)
  ultimately show "sees (advance n c) rest"
    using s by (auto simp: sees_def add.commute)
qed

lemma cursor_take_sees:
  assumes "sees c (bs @ rest)" "length bs = n"
  shows "cursor_take n c = Inr (bs, advance n c)"
proof -
  have d: "drop (offset c) (payload c) = bs @ rest"
    using assms by (simp add: sees_def)
  then have "length (payload c) - offset c = n + length rest"
    using assms(2) by (metis length_append length_drop)
  then show ?thesis
    using d assms(2) by (simp add: cursor_take_def advance_def segment_def)
qed

lemma cursor_u8_sees: "sees c (x # rest) \<Longrightarrow> cursor_u8 c = Inr (x, advance 1 c)"
  using cursor_take_sees [of c "[x]" rest 1] by (simp add: cursor_u8_def)

lemma cursor_read_sees:
  "sees c (x # rest) \<Longrightarrow> cursor_u8 c = Inr (x, advance 1 c)"
  "sees c (u16_to_be a @ rest) \<Longrightarrow> cursor_u16 c = Inr (a, advance 2 c)"
  "sees c (u32_to_be b @ rest) \<Longrightarrow> cursor_u32 c = Inr (b, advance 4 c)"
  by (simp_all add: cursor_u8_sees cursor_u16_def cursor_u32_def cursor_take_sees)

lemma sees_step:
  "sees c (x # rest) \<Longrightarrow> sees (advance 1 c) rest"
  "sees c (u16_to_be a @ rest) \<Longrightarrow> sees (advance 2 c) rest"
  "sees c (u32_to_be b @ rest) \<Longrightarrow> sees (advance 4 c) rest"
  using sees_advance [of c "[x]" rest 1] by (simp_all add: sees_advance)

section \<open>Rows are read back\<close>

definition expand :: "(nat \<times> grid_cell) list \<Rightarrow> grid_cell list" where
  "expand rs = concat (map (\<lambda>(n, c). replicate n c) rs)"

definition run_bytes :: "(nat \<times> grid_cell) list \<Rightarrow> bytes" where
  "run_bytes rs = concat (map (\<lambda>(n, c). put_run n c) rs)"

lemma expand_simps [simp]:
  "expand [] = []" "expand ((n, c) # rs) = replicate n c @ expand rs"
  by (simp_all add: expand_def)

lemma run_bytes_simps [simp]:
  "run_bytes [] = []" "run_bytes ((n, c) # rs) = put_run n c @ run_bytes rs"
  by (simp_all add: run_bytes_def)

lemma cell_eta: "\<lparr>scalar = scalar x, fg = fg x, bg = bg x, style = style x\<rparr> = (x :: grid_cell)"
  by simp

lemma length_put_run [simp]: "length (put_run n c) = 16"
  by (simp add: put_run_def)

lemma length_run_bytes [simp]: "length (run_bytes rs) = 16 * length rs"
  by (induction rs) auto

lemma run_end_replicate:
  assumes "run_end cells cell nxt n = (nxt', n')" "nxt \<le> length cells" "n \<le> u16_max"
  shows "nxt \<le> nxt' \<and> nxt' \<le> length cells \<and> n' = n + (nxt' - nxt) \<and> n' \<le> u16_max
    \<and> drop nxt cells = replicate (nxt' - nxt) cell @ drop nxt' cells"
  using assms
proof (induction cells cell nxt n rule: run_end.induct)
  case (1 cells cell nxt n)
  show ?case
  proof (cases "nxt < length cells \<and> cells ! nxt = cell \<and> n < u16_max")
    case True
    then have r: "run_end cells cell (nxt + 1) (n + 1) = (nxt', n')"
      using "1.prems" by (simp add: run_end.simps [of cells cell nxt n])
    have "drop nxt cells = cell # drop (nxt + 1) cells"
      using True by (metis Cons_nth_drop_Suc Suc_eq_plus1)
    moreover have "nxt' - nxt = Suc (nxt' - (nxt + 1))" if "nxt + 1 \<le> nxt'"
      using that by simp
    ultimately show ?thesis
      using "1.IH" [OF True r] True by auto
  next
    case False
    then show ?thesis
      using "1.prems" by (auto simp: run_end.simps [of cells cell nxt n])
  qed
qed

lemma append_runs_expand:
  assumes "i \<le> length cells"
  shows "\<exists>rs. append_runs cells i acc k = (acc @ run_bytes rs, k + of_nat (length rs))
    \<and> expand rs = drop i cells \<and> (\<forall>(n, c) \<in> set rs. 0 < n \<and> n \<le> u16_max)"
  using assms
proof (induction cells i acc k rule: append_runs.induct)
  case (1 cells i acc k)
  show ?case
  proof (cases "i < length cells")
    case True
    obtain nxt n where r: "run_end cells (cells ! i) (i + 1) 1 = (nxt, n)"
      by fastforce
    have nxt: "i + 1 \<le> nxt" "nxt \<le> length cells" "n = 1 + (nxt - (i + 1))" "n \<le> u16_max"
      "drop (i + 1) cells = replicate (nxt - (i + 1)) (cells ! i) @ drop nxt cells"
      using run_end_replicate [OF r] True by auto
    obtain rs where rs: "append_runs cells nxt (acc @ put_run n (cells ! i)) (k + 1)
        = ((acc @ put_run n (cells ! i)) @ run_bytes rs, k + 1 + of_nat (length rs))"
      "expand rs = drop nxt cells" "\<forall>(n, c) \<in> set rs. 0 < n \<and> n \<le> u16_max"
      using "1.IH" [OF True r [symmetric]] nxt by auto
    have "drop i cells = cells ! i # drop (i + 1) cells"
      using True by (metis Cons_nth_drop_Suc Suc_eq_plus1)
    then have "expand ((n, cells ! i) # rs) = drop i cells"
      using rs(2) nxt by simp
    moreover have "append_runs cells i acc k
        = (acc @ run_bytes ((n, cells ! i) # rs), k + of_nat (length ((n, cells ! i) # rs)))"
      using True r rs(1) by (simp add: append_runs.simps [of cells i acc k])
    ultimately show ?thesis
      using rs(3) nxt by (intro exI [of _ "(n, cells ! i) # rs"]) auto
  next
    case False
    then show ?thesis
      using "1.prems" by (intro exI [of _ "[]"]) (simp add: append_runs.simps [of cells "length cells" acc k])
  qed
qed

lemma length_expand_ge: "\<forall>(n, c) \<in> set rs. 0 < n \<Longrightarrow> length rs \<le> length (expand rs)"
  by (induction rs) (auto simp: expand_def)

text \<open>The encoder of a row writes a counter and so many runs, which expand to the row.\<close>

lemma append_row_shape:
  assumes "length cells \<le> u16_max"
  shows "\<exists>rs. append_row cells enc = Inr (enc @ u16_to_be (of_nat (length rs)) @ run_bytes rs)
    \<and> expand rs = cells \<and> length rs \<le> u16_max \<and> (\<forall>(n, c) \<in> set rs. 0 < n \<and> n \<le> u16_max)"
proof -
  obtain rs where rs: "append_runs cells 0 [] 0 = (run_bytes rs, of_nat (length rs))"
    "expand rs = cells" "\<forall>(n, c) \<in> set rs. 0 < n \<and> n \<le> u16_max"
    using append_runs_expand [of 0 cells "[]" 0] by auto
  have "length rs \<le> u16_max"
    using length_expand_ge [of rs] rs assms by fastforce
  then show ?thesis
    using rs assms by (intro exI [of _ rs]) (simp add: append_row_def)
qed

lemma read_runs_bytes:
  assumes "sees c (run_bytes rs @ rest)" "\<forall>(n, x) \<in> set rs. n \<le> u16_max"
    "length cells + length (expand rs) \<le> u16_max"
  shows "read_runs (length rs) cells c = Inr (cells @ expand rs, advance (16 * length rs) c)"
  using assms
proof (induction rs arbitrary: cells c)
  case Nil
  then show ?case by simp
next
  case (Cons r rs)
  obtain n x where r: "r = (n, x)" by (cases r)
  have n: "unat (of_nat n :: u16) = n"
    using Cons.prems(2) r by (simp add: unat_of_nat)
  note s0 = Cons.prems(1) [unfolded r run_bytes_simps put_run_def append_assoc]
  note s1 = sees_step(2) [OF s0]
  note s2 = sees_step(3) [OF s1]
  note s3 = sees_step(3) [OF s2]
  note s4 = sees_step(3) [OF s3]
  note s5 = sees_step(2) [OF s4]
  note reads = cursor_read_sees(2) [OF s0] cursor_read_sees(3) [OF s1] cursor_read_sees(3) [OF s2]
    cursor_read_sees(3) [OF s3] cursor_read_sees(2) [OF s4]
  have "read_runs (length rs) (cells @ replicate n x) (advance 16 c)
      = Inr ((cells @ replicate n x) @ expand rs, advance (16 * length rs) (advance 16 c))"
    using Cons.IH [of "advance 16 c" "cells @ replicate n x"] s5 Cons.prems(2,3) r by auto
  then show ?case
    using Cons.prems(3) r by (simp add: n reads reads [simplified] cell_eta)
qed

lemma read_row_sees:
  assumes "length cells \<le> u16_max" "append_row cells enc = Inr (enc @ body)" "sees c (body @ rest)"
  shows "read_row_from_cursor c = Inr (cells, advance (length body) c)"
proof -
  obtain rs where rs: "body = u16_to_be (of_nat (length rs)) @ run_bytes rs" "expand rs = cells"
    "length rs \<le> u16_max" "\<forall>(n, x) \<in> set rs. 0 < n \<and> n \<le> u16_max"
    using append_row_shape [OF assms(1), of enc] assms(2) by auto
  note s0 = assms(3) [unfolded rs(1) append_assoc]
  have "read_runs (length rs) [] (advance 2 c)
      = Inr ([] @ expand rs, advance (16 * length rs) (advance 2 c))"
    using rs assms(1) by (intro read_runs_bytes [OF sees_step(2) [OF s0]]) auto
  moreover have "unat (of_nat (length rs) :: u16) = length rs"
    using rs(3) by (simp add: unat_of_nat)
  ultimately show ?thesis
    using rs(1,2) by (simp add: read_row_from_cursor_def cursor_read_sees(2) [OF s0])
qed

lemma append_row_prefix:
  "append_row cells enc = Inr out \<Longrightarrow>
     length cells \<le> u16_max \<and> (\<exists>body. out = enc @ body \<and> (\<forall>enc'. append_row cells enc' = Inr (enc' @ body)))"
  by (auto simp: append_row_def split: if_splits prod.splits)


lemma append_all_rows_prefix:
  "append_all_rows rs enc = Inr out \<Longrightarrow> \<exists>body. out = enc @ body"
proof (induction rs arbitrary: enc)
  case (Cons r rs)
  then obtain b where "append_all_rows rs (enc @ b) = Inr out"
    by (auto simp: and_then_Inr_iff dest!: append_row_prefix)
  then show ?case
    using Cons.IH by fastforce
qed simp

lemma encode_rows_decode_from:
  assumes "append_all_rows rs enc = Inr (enc @ body)" "length pre = i"
  shows "decode_rows_from (pre @ body @ rest) (length rs) i = Inr rs"
  using assms
proof (induction rs arbitrary: enc body pre i)
  case Nil
  then show ?case by simp
next
  case (Cons r rs)
  obtain out where out: "append_row r enc = Inr out" "append_all_rows rs out = Inr (enc @ body)"
    using Cons.prems(1) by (auto simp: and_then_Inr_iff)
  obtain b1 where b1: "length r \<le> u16_max" "out = enc @ b1"
    "append_row r enc = Inr (enc @ b1)"
    using append_row_prefix [OF out(1)] by blast
  obtain b2 where b2: "body = b1 @ b2"
    using append_all_rows_prefix [OF out(2)] b1(2) by auto
  have "read_row_from_cursor (cursor_at (pre @ b1 @ b2 @ rest) i)
      = Inr (r, advance (length b1) (cursor_at (pre @ b1 @ b2 @ rest) i))"
    using read_row_sees [OF b1(1,3)] sees_at [OF Cons.prems(2)] by blast
  then have "read_row (pre @ b1 @ b2 @ rest) i = Inr (r, i + length b1)"
    by (simp add: read_row_def cursor_at_def)
  moreover have "decode_rows_from ((pre @ b1) @ b2 @ rest) (length rs) (i + length b1) = Inr rs"
    using Cons.IH [of out b2 "pre @ b1"] out(2) b1(2) b2 Cons.prems(2) by simp
  ultimately show ?case
    by (simp add: b2)
qed

section \<open>Updates are read back\<close>

lemma grid_flags_bits:
  "grid_flags u AND 1 \<noteq> 0 \<longleftrightarrow> cursor_visible u"
  "grid_flags u AND 2 \<noteq> 0 \<longleftrightarrow> is_full_snapshot u"
  by (cases "cursor_visible u"; cases "is_full_snapshot u";
      simp add: grid_flags_def u8_of_bool_def)+

lemma append_changed_prefix:
  "append_changed rs enc = Inr out \<Longrightarrow> \<exists>body. out = enc @ body"
proof (induction rs arbitrary: enc)
  case (Cons r rs)
  then obtain b where "append_changed rs ((enc @ u16_to_be (row_y r)) @ b) = Inr out"
    by (auto simp: and_then_Inr_iff dest!: append_row_prefix)
  then show ?case
    using Cons.IH by fastforce
qed simp

lemma read_changed_sees:
  assumes "append_changed rs enc = Inr (enc @ body)" "sees c (body @ rest)"
  shows "read_changed (length rs) c = Inr (rs, advance (length body) c)"
  using assms
proof (induction rs arbitrary: enc body c)
  case Nil
  then show ?case by simp
next
  case (Cons r rs)
  obtain out where out: "append_row (row_cells r) (enc @ u16_to_be (row_y r)) = Inr out"
    "append_changed rs out = Inr (enc @ body)"
    using Cons.prems(1) by (auto simp: and_then_Inr_iff)
  obtain b1 where b1: "length (row_cells r) \<le> u16_max" "out = (enc @ u16_to_be (row_y r)) @ b1"
    using append_row_prefix [OF out(1)] by blast
  obtain b2 where "enc @ body = out @ b2"
    using append_changed_prefix [OF out(2)] by blast
  then have b2: "body = u16_to_be (row_y r) @ b1 @ b2" "append_changed rs out = Inr (out @ b2)"
    using out(2) b1(2) by simp_all
  note s0 = Cons.prems(2) [unfolded b2(1) append_assoc]
  note s1 = sees_step(2) [OF s0]
  have r1: "read_row_from_cursor (advance 2 c) = Inr (row_cells r, advance (length b1) (advance 2 c))"
    using read_row_sees [OF b1(1) out(1) [unfolded b1(2)] s1] .
  have "sees (advance (length b1) (advance 2 c)) (b2 @ rest)"
    using sees_advance [OF s1] by blast
  then have "read_changed (length rs) (advance (length b1) (advance 2 c))
      = Inr (rs, advance (length b2) (advance (length b1) (advance 2 c)))"
    using Cons.IH [OF b2(2)] by blast
  then show ?case
    using r1 b2(1) by (simp add: cursor_read_sees(2) [OF s0])
qed

lemma grid_encode_sees:
  assumes "grid_encode u = Inr enc" "sees c (enc @ rest)"
  shows "grid_decode_at c = Inr (u, advance (length enc) c)"
proof -
  let ?h = "u16_to_be (cols u) @ u16_to_be (rows u) @ u16_to_be (cursor_col u)
         @ u16_to_be (cursor_row u) @ [grid_flags u] @ u16_to_be (of_nat (length (changed_rows u)))"
  have e: "append_changed (changed_rows u) ?h = Inr enc"
    and n: "length (changed_rows u) \<le> u16_max"
    using assms(1) by (auto simp: grid_encode_def split: if_splits)
  obtain body where body: "enc = ?h @ body"
    using append_changed_prefix [OF e] by blast
  have k: "unat (of_nat (length (changed_rows u)) :: u16) = length (changed_rows u)"
    using n by (simp add: unat_of_nat)
  note s0 = assms(2) [unfolded body append_assoc append_Cons append_Nil]
  note s1 = sees_step(2) [OF s0]
  note s2 = sees_step(2) [OF s1]
  note s3 = sees_step(2) [OF s2]
  note s4 = sees_step(2) [OF s3]
  note s5 = sees_step(1) [OF s4]
  note s6 = sees_step(2) [OF s5]
  note reads = cursor_read_sees(2) [OF s0] cursor_read_sees(2) [OF s1] cursor_read_sees(2) [OF s2]
    cursor_read_sees(2) [OF s3] cursor_read_sees(1) [OF s4] cursor_read_sees(2) [OF s5]
    read_changed_sees [OF e [unfolded body] s6]
  show ?thesis
    by (simp add: grid_decode_at_def reads [simplified] k body grid_flags_bits)
qed

lemma grid_decode_encode:
  "grid_encode u = Inr enc \<Longrightarrow> grid_decode (enc @ rest) = Inr u"
  using grid_encode_sees [of u enc "cursor_at (enc @ rest) 0" rest]
  by (simp add: grid_decode_def)

section \<open>More bytes do not change what was read\<close>

text \<open>
  \<open>extends r r'\<close>: \<open>r\<close> was read from a payload and \<open>r'\<close> from the same payload with more bytes
  after it. A value, and every error other than running out of bytes, stays.
\<close>

definition more_bytes :: "bytes \<Rightarrow> cursor \<Rightarrow> cursor" where
  "more_bytes q c = c\<lparr>payload := payload c @ q\<rparr>"

definition in_payload :: "cursor \<Rightarrow> bool" where
  "in_payload c \<longleftrightarrow> offset c \<le> length (payload c)"

fun out_of_bytes :: "grid_codec_error \<Rightarrow> bool" where
  "out_of_bytes (UnexpectedEnd i n r) = True"
| "out_of_bytes _ = False"

definition reader_mono :: "(cursor \<Rightarrow> (grid_codec_error, 'a \<times> cursor) result) \<Rightarrow> bool" where
  "reader_mono f \<longleftrightarrow> (\<forall>c q. in_payload c \<longrightarrow>
     (case f c of
        Inr (x, c') \<Rightarrow> f (more_bytes q c) = Inr (x, more_bytes q c') \<and> in_payload c'
          \<and> payload c' = payload c
      | Inl e \<Rightarrow> out_of_bytes e \<or> f (more_bytes q c) = Inl e))"

lemma reader_monoD:
  assumes "reader_mono f" "in_payload c" "f c = Inr (x, c')"
  shows "f (more_bytes q c) = Inr (x, more_bytes q c')" "in_payload c'" "payload c' = payload c"
  using assms(1) [unfolded reader_mono_def, rule_format, OF assms(2), of q] assms(3) by simp_all

lemma reader_mono_error:
  "reader_mono f \<Longrightarrow> in_payload c \<Longrightarrow> f c = Inl e \<Longrightarrow> \<not> out_of_bytes e \<Longrightarrow> f (more_bytes q c) = Inl e"
  by (drule reader_mono_def [THEN iffD1, rule_format, of f c q]) auto

lemma reader_mono_return [intro]: "reader_mono (\<lambda>c. Inr (x, c))"
  by (simp add: reader_mono_def)

lemma reader_mono_fail [intro]: "\<not> out_of_bytes e \<Longrightarrow> reader_mono (\<lambda>c. Inl e)"
  by (simp add: reader_mono_def)

lemma reader_mono_if [intro]:
  "reader_mono f \<Longrightarrow> reader_mono g \<Longrightarrow> reader_mono (\<lambda>c. if b then f c else g c)"
  by (cases b) simp_all

lemma reader_mono_bind [intro]:
  assumes f: "reader_mono f" and g: "\<And>x. reader_mono (g x)"
  shows "reader_mono (\<lambda>c. and_then (f c) (\<lambda>(x, c). g x c))"
  unfolding reader_mono_def
proof (intro allI impI)
  fix c q
  assume c: "in_payload c"
  show "case and_then (f c) (\<lambda>(x, c). g x c) of
      Inr (x, c') \<Rightarrow> and_then (f (more_bytes q c)) (\<lambda>(x, c). g x c) = Inr (x, more_bytes q c')
        \<and> in_payload c' \<and> payload c' = payload c
    | Inl e \<Rightarrow> out_of_bytes e \<or> and_then (f (more_bytes q c)) (\<lambda>(x, c). g x c) = Inl e"
  proof (cases "f c")
    case (Inl e)
    then show ?thesis
      using reader_mono_error [OF f c Inl, of q] by (cases "out_of_bytes e") auto
  next
    case (Inr p)
    obtain x c1 where fc: "f c = Inr (x, c1)"
      using Inr by (cases p) simp
    note fq = reader_monoD(1) [OF f c fc, of q] reader_monoD(2,3) [OF f c fc]
    show ?thesis
    proof (cases "g x c1")
      case (Inl e)
      then show ?thesis
        using reader_mono_error [OF g fq(2) Inl, of q] fc fq(1) by (cases "out_of_bytes e") auto
    next
      case (Inr p')
      obtain y c2 where gc: "g x c1 = Inr (y, c2)"
        using Inr by (cases p') simp
      show ?thesis
        using reader_monoD(1) [OF g fq(2) gc, of q] reader_monoD(2,3) [OF g fq(2) gc] fc fq gc by simp
    qed
  qed
qed

lemma reader_mono_take [intro]: "reader_mono (cursor_take n)"
  by (auto simp: reader_mono_def cursor_take_def more_bytes_def in_payload_def segment_append_left
      Let_def)

lemma reader_mono_take_bind:
  "reader_mono (\<lambda>c. and_then (cursor_take n c) (\<lambda>(bs, c'). Inr (h bs, c')))"
  by (intro reader_mono_bind reader_mono_take reader_mono_return)

lemma reader_mono_ints [intro]:
  "reader_mono cursor_u8" "reader_mono cursor_u16" "reader_mono cursor_u32"
  unfolding cursor_u8_def cursor_u16_def cursor_u32_def by (rule reader_mono_take_bind)+

lemma reader_mono_read_runs [intro]: "reader_mono (read_runs n cells)"
proof (induction n arbitrary: cells)
  case 0
  show ?case by (auto simp: reader_mono_def)
next
  case (Suc n)
  show ?case
    unfolding read_runs.simps Let_def
    by (intro reader_mono_bind reader_mono_ints reader_mono_if reader_mono_fail Suc.IH) simp
qed

lemma reader_mono_read_row [intro]: "reader_mono read_row_from_cursor"
  unfolding read_row_from_cursor_def by (intro reader_mono_bind reader_mono_ints reader_mono_read_runs)

lemma reader_mono_read_changed [intro]: "reader_mono (read_changed n)"
proof (induction n)
  case 0
  show ?case by (auto simp: reader_mono_def)
next
  case (Suc n)
  show ?case
    unfolding read_changed.simps
    by (intro reader_mono_bind reader_mono_ints reader_mono_read_row reader_mono_return Suc.IH)
qed

lemma reader_mono_grid_decode_at: "reader_mono grid_decode_at"
  unfolding grid_decode_at_def
  by (intro reader_mono_bind reader_mono_ints reader_mono_read_changed reader_mono_return)

text \<open>A payload cut anywhere is refused, and the error says that bytes are missing.\<close>

lemma grid_decode_truncated:
  assumes enc: "grid_encode u = Inr enc" and k: "k < length enc"
  shows "\<exists>i n r. grid_decode (take k enc) = Inl (UnexpectedEnd i n r)"
proof -
  let ?c = "cursor_at (take k enc) 0"
  have c: "in_payload ?c" and ext: "more_bytes (drop k enc) ?c = cursor_at enc 0"
    by (simp_all add: in_payload_def cursor_at_def more_bytes_def)
  have whole: "grid_decode_at (cursor_at enc 0) = Inr (u, advance (length enc) (cursor_at enc 0))"
    using grid_encode_sees [OF enc, of _ "[]"] by simp
  show ?thesis
  proof (cases "grid_decode_at ?c")
    case (Inl e)
    then have "out_of_bytes e"
      using reader_mono_error [OF reader_mono_grid_decode_at c Inl, of "drop k enc"] whole ext by auto
    then show ?thesis
      using Inl by (cases e) (auto simp: grid_decode_def)
  next
    case (Inr p)
    then obtain x c' where x: "grid_decode_at ?c = Inr (x, c')"
      by (cases p) simp
    have "more_bytes (drop k enc) c' = advance (length enc) (cursor_at enc 0)"
      using reader_monoD(1) [OF reader_mono_grid_decode_at c x, of "drop k enc"] whole ext by simp
    then have "offset c' = length enc"
      by (simp add: more_bytes_def cursor_at_def advance_def) (metis cursor.select_convs(2) cursor.update_convs(1) cursor.surjective)
    then show ?thesis
      using reader_monoD(2,3) [OF reader_mono_grid_decode_at c x] k
      by (simp add: in_payload_def cursor_at_def)
  qed
qed


section \<open>Applying an update\<close>

text \<open>A row padded with blanks or cut to the width of the grid.\<close>

definition fit_row :: "usize \<Rightarrow> changed_row \<Rightarrow> grid_cell list" where
  "fit_row n r = take (min (length (row_cells r)) n) (row_cells r)
     @ replicate (n - min (length (row_cells r)) n) BLANK"

lemma length_fit_row [simp]: "length (fit_row n r) = n"
  by (simp add: fit_row_def)

lemma nth_fit_row:
  "x < n \<Longrightarrow> fit_row n r ! x = (if x < length (row_cells r) then row_cells r ! x else BLANK)"
  by (auto simp: fit_row_def nth_append)

lemma row_in_bounds: "y < nrows \<Longrightarrow> y * ncols + ncols \<le> ncols * (nrows :: nat)"
  by (metis Suc_leI add.commute mult.commute mult_Suc mult_le_mono1)

lemma apply_row_eq:
  assumes "length buf = ncols * nrows" "unat (row_y r) < nrows"
  shows "apply_row ncols nrows r buf = Some (take (unat (row_y r) * ncols) buf @ fit_row ncols r
    @ drop (unat (row_y r) * ncols + ncols) buf)"
proof -
  let ?s = "unat (row_y r) * ncols" and ?k = "min (length (row_cells r)) ncols"
  have b: "?s + ncols \<le> length buf"
    using row_in_bounds [OF assms(2)] assms(1) by simp
  then have "write_slice buf ?s (take ?k (row_cells r))
      = Some (take ?s buf @ take ?k (row_cells r) @ drop (?s + ?k) buf)"
    by (simp add: write_slice_def)
  moreover have "write_slice (take ?s buf @ take ?k (row_cells r) @ drop (?s + ?k) buf) (?s + ?k)
      (replicate (ncols - ?k) BLANK)
      = Some (take ?s buf @ fit_row ncols r @ drop (?s + ncols) buf)"
    using b by (simp add: write_slice_def fit_row_def min_def add.commute)
  ultimately show ?thesis
    using assms(2) by (simp add: apply_row_def Let_def)
qed

lemma nth_row_region:
  assumes "length buf = ncols * nrows" "r < nrows" "length new = ncols" "y < nrows" "x < ncols"
  shows "(take (r * ncols) buf @ new @ drop (r * ncols + ncols) buf) ! (y * ncols + x)
    = (if y = r then new ! x else buf ! (y * ncols + x))"
proof -
  have b: "r * ncols + ncols \<le> length buf" and ib: "y * ncols + x < length buf"
    using row_in_bounds [OF assms(2), of ncols] row_in_bounds [OF assms(4), of ncols] assms by simp_all
  consider "y = r" | "y < r" | "r < y" by arith
  then show ?thesis
  proof cases
    case 1
    then show ?thesis
      using b assms by (simp add: nth_append)
  next
    case 2
    then have "y * ncols + ncols \<le> r * ncols"
      using row_in_bounds [of y r ncols] by (simp add: mult.commute)
    then show ?thesis
      using 2 assms(5) b by (simp add: nth_append)
  next
    case 3
    then have "r * ncols + ncols \<le> y * ncols"
      using row_in_bounds [of r y ncols] by (simp add: mult.commute)
    then have "\<not> y * ncols + x < r * ncols" "\<not> y * ncols + x - r * ncols < ncols"
      by linarith+
    then show ?thesis
      using 3 assms(3) b ib by (simp add: nth_append)
  qed
qed

lemma apply_row_total:
  assumes "length buf = ncols * nrows"
  obtains buf' where "apply_row ncols nrows r buf = Some buf'" "length buf' = ncols * nrows"
    "\<And>y x. y < nrows \<Longrightarrow> x < ncols \<Longrightarrow>
       buf' ! (y * ncols + x) = (if unat (row_y r) = y then fit_row ncols r ! x else buf ! (y * ncols + x))"
proof (cases "unat (row_y r) < nrows")
  case True
  then show ?thesis
    using that apply_row_eq [OF assms True] nth_row_region [OF assms True, of "fit_row ncols r"]
      row_in_bounds [OF True, of ncols] assms by fastforce
next
  case False
  then show ?thesis
    using that [of buf] assms by (auto simp: apply_row_def)
qed

definition row_for :: "changed_row list \<Rightarrow> nat \<Rightarrow> changed_row option" where
  "row_for rs y = find (\<lambda>r. unat (row_y r) = y) (rev rs)"

lemma find_append: "find P (xs @ ys) = (case find P xs of None \<Rightarrow> find P ys | Some x \<Rightarrow> Some x)"
  by (induction xs) auto

lemma row_for_Cons:
  "row_for (r # rs) y = (case row_for rs y of None \<Rightarrow> if unat (row_y r) = y then Some r else None
     | Some r' \<Rightarrow> Some r')"
  by (simp add: row_for_def find_append split: option.splits)

lemma apply_rows_total:
  assumes "length buf = ncols * nrows"
  shows "\<exists>buf'. apply_rows ncols nrows rs buf = Some buf' \<and> length buf' = ncols * nrows
    \<and> (\<forall>y < nrows. \<forall>x < ncols. buf' ! (y * ncols + x) =
        (case row_for rs y of Some r \<Rightarrow> fit_row ncols r ! x | None \<Rightarrow> buf ! (y * ncols + x)))"
  using assms
proof (induction rs arbitrary: buf)
  case Nil
  then show ?case by (simp add: row_for_def)
next
  case (Cons r rs)
  obtain b1 where b1: "apply_row ncols nrows r buf = Some b1" "length b1 = ncols * nrows"
    "\<And>y x. y < nrows \<Longrightarrow> x < ncols \<Longrightarrow>
       b1 ! (y * ncols + x) = (if unat (row_y r) = y then fit_row ncols r ! x else buf ! (y * ncols + x))"
    using apply_row_total [OF Cons.prems] by metis
  show ?case
    using Cons.IH [OF b1(2)] b1(1,3) by (fastforce simp: row_for_Cons split: option.splits)
qed


lemma grid_apply_cells:
  "\<exists>buf'. grid_apply u buf = Some buf' \<and> length buf' = unat (cols u) * unat (rows u)
    \<and> (\<forall>y < unat (rows u). \<forall>x < unat (cols u). buf' ! (y * unat (cols u) + x) =
        (case row_for (changed_rows u) y of
           Some r \<Rightarrow> (if x < length (row_cells r) then row_cells r ! x else BLANK)
         | None \<Rightarrow> (if is_full_snapshot u \<or> length buf \<noteq> unat (cols u) * unat (rows u) then BLANK
                    else buf ! (y * unat (cols u) + x))))"
proof -
  let ?c = "unat (cols u)" and ?r = "unat (rows u)"
  let ?buf = "if is_full_snapshot u \<or> length buf \<noteq> ?c * ?r then replicate (?c * ?r) BLANK else buf"
  have "length ?buf = ?c * ?r"
    by simp
  from apply_rows_total [OF this, of "changed_rows u"]
  obtain buf' where buf': "grid_apply u buf = Some buf'" "length buf' = ?c * ?r"
    "\<forall>y < ?r. \<forall>x < ?c. buf' ! (y * ?c + x) =
        (case row_for (changed_rows u) y of Some r \<Rightarrow> fit_row ?c r ! x | None \<Rightarrow> ?buf ! (y * ?c + x))"
    unfolding grid_apply_def Let_def by blast
  have "?buf ! (y * ?c + x) = (if is_full_snapshot u \<or> length buf \<noteq> ?c * ?r then BLANK
      else buf ! (y * ?c + x))" if "y < ?r" "x < ?c" for x y
    using row_in_bounds [OF that(1), of ?c] that(2) by simp
  then show ?thesis
    using buf' by (intro exI [of _ buf']) (auto simp: nth_fit_row split: option.split)
qed

text \<open>The same row by row.\<close>

definition row_cells_at :: "usize \<Rightarrow> grid_cell list \<Rightarrow> usize \<Rightarrow> grid_cell list" where
  "row_cells_at n cells y = segment cells (y * n) (y * n + n)"

lemma row_cells_at_facts:
  assumes "length cells = nc * nr" "y < nr"
  shows "length (row_cells_at nc cells y) = nc"
    "x < nc \<Longrightarrow> row_cells_at nc cells y ! x = cells ! (y * nc + x)"
  using row_in_bounds [OF assms(2), of nc] add_leD1 [OF row_in_bounds [OF assms(2), of nc]] assms(1)
  by (simp_all add: row_cells_at_def segment_def)

lemma rows_determine_cells:
  assumes "length a = nc * nr" "length b = nc * nr"
    and "\<And>y. y < nr \<Longrightarrow> row_cells_at nc a y = row_cells_at nc b y"
  shows "a = b"
proof (rule nth_equalityI)
  fix i assume i: "i < length a"
  then have "0 < nc" and y: "i div nc < nr"
    using assms(1) by (auto simp: less_mult_imp_div_less mult.commute intro: gr0I)
  then have "a ! (i div nc * nc + i mod nc) = b ! (i div nc * nc + i mod nc)"
    using row_cells_at_facts(2) [OF assms(1) y, of "i mod nc"] assms(3) [OF y]
      row_cells_at_facts(2) [OF assms(2) y, of "i mod nc"] by simp
  then show "a ! i = b ! i"
    by simp
qed (simp add: assms)

lemma grid_apply_rows:
  obtains buf' where "grid_apply u buf = Some buf'" "length buf' = unat (cols u) * unat (rows u)"
    "\<And>y. y < unat (rows u) \<Longrightarrow> row_cells_at (unat (cols u)) buf' y =
       (case row_for (changed_rows u) y of
          Some r \<Rightarrow> fit_row (unat (cols u)) r
        | None \<Rightarrow> if is_full_snapshot u \<or> length buf \<noteq> unat (cols u) * unat (rows u)
                  then replicate (unat (cols u)) BLANK else row_cells_at (unat (cols u)) buf y)"
proof -
  let ?c = "unat (cols u)" and ?r = "unat (rows u)"
  obtain buf' where b: "grid_apply u buf = Some buf'" "length buf' = ?c * ?r"
    "\<And>y x. y < ?r \<Longrightarrow> x < ?c \<Longrightarrow> buf' ! (y * ?c + x) = (case row_for (changed_rows u) y of
           Some r \<Rightarrow> (if x < length (row_cells r) then row_cells r ! x else BLANK)
         | None \<Rightarrow> (if is_full_snapshot u \<or> length buf \<noteq> ?c * ?r then BLANK else buf ! (y * ?c + x)))"
    using grid_apply_cells [of u buf] by blast
  have "row_cells_at ?c buf' y = (case row_for (changed_rows u) y of Some r \<Rightarrow> fit_row ?c r
      | None \<Rightarrow> if is_full_snapshot u \<or> length buf \<noteq> ?c * ?r then replicate ?c BLANK
                else row_cells_at ?c buf y)" if y: "y < ?r" for y
    by (rule nth_equalityI)
      (use row_cells_at_facts [OF b(2) y] row_cells_at_facts [of buf ?c ?r y] b(3) [OF y] y in
        \<open>auto simp: nth_fit_row split: option.split\<close>)
  then show ?thesis
    using that b(1,2) by blast
qed


section \<open>Properties\<close>

text \<open>
  Claim C22. An encoded grid update decodes to itself, whatever bytes follow it in the payload.
\<close>

theorem grid_roundtrip:
  assumes "grid_encode u = Inr enc"
  shows "grid_decode (enc @ rest) = Inr u"
  using assms by (rule grid_decode_encode)

definition sample_update :: grid_update where
  "sample_update = \<lparr>cols = 3, rows = 2, cursor_col = 1, cursor_row = 0, cursor_visible = True,
     is_full_snapshot = False,
     changed_rows = [\<lparr>row_y = 1, row_cells = [BLANK, BLANK\<lparr>fg := Rgb 1 2 3\<rparr>]\<rparr>]\<rparr>"

definition sample_encoding :: bytes where
  "sample_encoding = [0, 3, 0, 2, 0, 1, 0, 0, 1, 0, 1, 0, 1, 0, 2,
     0, 1, 0, 0, 0, 32, 0, 0, 0, 0, 1, 0, 0, 0, 0, 0,
     0, 1, 0, 0, 0, 32, 3, 1, 2, 3, 1, 0, 0, 0, 0, 0]"

lemma sample_encoding_eq: "grid_encode sample_update = Inr sample_encoding"
  by (simp add: grid_encode_def sample_update_def sample_encoding_def append_row_def
      append_runs.simps run_end.simps put_run_def BLANK_def grid_flags_def u8_of_bool_def
      u16_to_be_def u32_to_be_def be_nat_unfold color_word_def)

theorem grid_roundtrip_witness:
  "grid_encode sample_update = Inr sample_encoding
   \<and> grid_decode (sample_encoding @ [7]) = Inr sample_update"
  using grid_roundtrip [OF sample_encoding_eq, of "[7]"] sample_encoding_eq by simp

text \<open>
  A grid payload that lost its last bytes is never taken for an update: decoding any
  proper prefix of an encoding fails, and the error reports missing bytes.
\<close>

theorem grid_truncation_detected:
  assumes "grid_encode u = Inr enc" "k < length enc"
  shows "\<exists>i n r. grid_decode (take k enc) = Inl (UnexpectedEnd i n r)"
  using assms by (rule grid_decode_truncated)

theorem grid_truncation_detected_witness:
  "\<exists>i n r. grid_decode (take 30 sample_encoding) = Inl (UnexpectedEnd i n r)"
  by (rule grid_truncation_detected [OF sample_encoding_eq]) (simp add: sample_encoding_def)

text \<open>
  Encoding an update fails exactly when it has more than 65535 changed rows or one of
  them more than 65535 cells, and in the second case the error carries the width of the first
  such row.
\<close>

theorem grid_encode_errors:
  "grid_encode u = Inl e \<longleftrightarrow>
     (if length (changed_rows u) > u16_max then e = TooManyRows (length (changed_rows u))
      else \<exists>r. find (\<lambda>r. length (row_cells r) > u16_max) (changed_rows u) = Some r
             \<and> e = TooManyCells (length (row_cells r)))"
proof -
  have "append_changed rs enc = Inl e \<longleftrightarrow> (\<exists>r. find (\<lambda>r. length (row_cells r) > u16_max) rs = Some r
      \<and> e = TooManyCells (length (row_cells r)))" for rs enc
  proof (induction rs arbitrary: enc)
    case (Cons r rs)
    show ?case
    proof (cases "length (row_cells r) > u16_max")
      case True
      then show ?thesis by (auto simp: append_row_def)
    next
      case False
      then obtain out where "append_row (row_cells r) (enc @ u16_to_be (row_y r)) = Inr out"
        using append_row_shape [of "row_cells r"] by fastforce
      then show ?thesis
        using Cons.IH False by simp
    qed
  qed simp
  then show ?thesis
    by (auto simp: grid_encode_def)
qed

text \<open>
  The row codec shared with scrollback reads back any list of rows, each at most
  65535 cells wide, and does not look at bytes after them.
\<close>

theorem rows_roundtrip:
  assumes "\<forall>r \<in> set rs. length r \<le> u16_max"
  shows "\<exists>enc. encode_rows rs = Inr enc \<and> (\<forall>rest. decode_rows (enc @ rest) (length rs) = Inr rs)"
proof -
  have "\<exists>out. append_all_rows rs enc = Inr out" for enc
    using assms
  proof (induction rs arbitrary: enc)
    case (Cons r rs)
    then show ?case
      using append_row_shape [of r enc] by auto
  qed simp
  then obtain enc where "append_all_rows rs [] = Inr ([] @ enc)"
    by auto
  then show ?thesis
    using encode_rows_decode_from [of rs "[]" enc "[]" 0] by (auto simp: encode_rows_def decode_rows_def)
qed

theorem rows_roundtrip_witness:
  "\<exists>enc. encode_rows [[BLANK, BLANK], []] = Inr enc
     \<and> (\<forall>rest. decode_rows (enc @ rest) (length [[BLANK, BLANK], []]) = Inr [[BLANK, BLANK], []])"
  by (rule rows_roundtrip) simp

text \<open>
  Applying an update never indexes outside the buffer, whatever the buffer and the
  update are. Afterwards the buffer has cols times rows cells, and the cell at each coordinate
  is the one of the last changed row with that index (blank to its right end), or else the
  old cell, or a blank when the buffer was reset.
\<close>

theorem grid_apply_shows:
  "\<exists>buf'. grid_apply u buf = Some buf' \<and> length buf' = unat (cols u) * unat (rows u)
    \<and> (\<forall>y < unat (rows u). \<forall>x < unat (cols u). buf' ! (y * unat (cols u) + x) =
        (case row_for (changed_rows u) y of
           Some r \<Rightarrow> (if x < length (row_cells r) then row_cells r ! x else BLANK)
         | None \<Rightarrow> (if is_full_snapshot u \<or> length buf \<noteq> unat (cols u) * unat (rows u) then BLANK
                    else buf ! (y * unat (cols u) + x))))"
  by (rule grid_apply_cells)

theorem grid_apply_shows_witness:
  "\<exists>buf'. grid_apply sample_update [] = Some buf' \<and> length buf' = unat (cols sample_update) * unat (rows sample_update)
    \<and> (\<forall>y < unat (rows sample_update). \<forall>x < unat (cols sample_update). buf' ! (y * unat (cols sample_update) + x) =
        (case row_for (changed_rows sample_update) y of
           Some r \<Rightarrow> (if x < length (row_cells r) then row_cells r ! x else BLANK)
         | None \<Rightarrow> (if is_full_snapshot sample_update \<or> length ([] :: grid_cell list) \<noteq> unat (cols sample_update) * unat (rows sample_update) then BLANK
                    else [] ! (y * unat (cols sample_update) + x))))"
  by (rule grid_apply_shows)

text \<open>
  Every colour survives its four-byte packed form.
\<close>

theorem color_roundtrip: "unpack (packed c) = c"
  by (rule unpack_packed)

end
