(* ===== verification/Frames.thy ===== *)
theory Frames
  imports Grid
begin

unbundle bit_operations_syntax

text \<open>
  The data-channel frames of \<^verbatim>\<open>homie-proto/src/frames.rs\<close>: \<^verbatim>\<open>[type u8][length u32 BE][payload]\<close>,
  the typed constructors and readers of a payload, and the incremental decoder.
  The decoder is an instance of the interface \<open>indexed_decoder\<close>, so any way of cutting a
  stream of encoded frames into chunks gives back exactly those frames.
\<close>

section \<open>Frames\<close>

definition MAX_FRAME_BYTES :: usize where
  "MAX_FRAME_BYTES = 16 * 1024 * 1024"

datatype frame_type =
  Output | Input | Resize | ReplayBegin | ReplayEnd | Ping | Pong | GridFrame | Scroll | Modes

datatype frame_codec_error =
    UnknownFrameType byte
  | FrameTooLarge usize usize \<comment> \<open>length, max\<close>
  | PayloadLengthOverflow usize

fun frame_type_u8 :: "frame_type \<Rightarrow> byte" where
  "frame_type_u8 Output = 1"
| "frame_type_u8 Input = 2"
| "frame_type_u8 Resize = 3"
| "frame_type_u8 ReplayBegin = 4"
| "frame_type_u8 ReplayEnd = 5"
| "frame_type_u8 Ping = 6"
| "frame_type_u8 Pong = 7"
| "frame_type_u8 GridFrame = 8"
| "frame_type_u8 Scroll = 9"
| "frame_type_u8 Modes = 10"

definition frame_type_try_from :: "byte \<Rightarrow> (frame_codec_error, frame_type) result" where
  "frame_type_try_from v =
     (if v = 1 then Inr Output else if v = 2 then Inr Input else if v = 3 then Inr Resize
      else if v = 4 then Inr ReplayBegin else if v = 5 then Inr ReplayEnd
      else if v = 6 then Inr Ping else if v = 7 then Inr Pong else if v = 8 then Inr GridFrame
      else if v = 9 then Inr Scroll else if v = 10 then Inr Modes
      else Inl (UnknownFrameType v))"

record frame =
  frame_type :: frame_type
  frame_payload :: bytes

definition frame_new :: "frame_type \<Rightarrow> bytes \<Rightarrow> frame" where
  "frame_new t p = \<lparr>frame_type = t, frame_payload = p\<rparr>"

subsection \<open>Constructors\<close>

definition frame_output :: "u64 \<Rightarrow> bytes \<Rightarrow> frame" where
  "frame_output off bs = frame_new Output (u64_to_be off @ bs)"

definition frame_input :: "bytes \<Rightarrow> frame" where
  "frame_input bs = frame_new Input bs"

definition frame_resize :: "u16 \<Rightarrow> u16 \<Rightarrow> frame" where
  "frame_resize c r = frame_new Resize (u16_to_be c @ u16_to_be r)"

definition offset_frame :: "frame_type \<Rightarrow> u64 \<Rightarrow> frame" where
  "offset_frame t off = frame_new t (u64_to_be off)"

definition replay_begin :: "u64 \<Rightarrow> frame" where
  "replay_begin off = offset_frame ReplayBegin off"

definition replay_end :: "u64 \<Rightarrow> frame" where
  "replay_end off = offset_frame ReplayEnd off"

definition frame_ping :: frame where "frame_ping = frame_new Ping []"
definition frame_pong :: frame where "frame_pong = frame_new Pong []"

definition frame_grid :: "grid_update \<Rightarrow> (grid_codec_error, frame) result" where
  "frame_grid u = and_then (grid_encode u) (\<lambda>p. Inr (frame_new GridFrame p))"

definition frame_scroll :: "byte \<Rightarrow> u16 \<Rightarrow> u16 \<Rightarrow> u16 \<Rightarrow> frame" where
  "frame_scroll direction lines col row =
     frame_new Scroll ([direction] @ u16_to_be lines @ u16_to_be col @ u16_to_be row)"

definition frame_modes :: "bool \<Rightarrow> bool \<Rightarrow> frame" where
  "frame_modes alt_screen mouse_reporting =
     frame_new Modes [u8_of_bool alt_screen OR push_bit 1 (u8_of_bool mouse_reporting)]"

subsection \<open>Readers\<close>

definition read_u16 :: "bytes \<Rightarrow> usize \<Rightarrow> u16" where
  "read_u16 bs i = u16_from_be (segment bs i (i + 2))"

definition grid_payload :: "frame \<Rightarrow> (grid_codec_error, grid_update option) result" where
  "grid_payload f =
     (if frame_type f \<noteq> GridFrame then Inr None
      else and_then (grid_decode (frame_payload f)) (\<lambda>u. Inr (Some u)))"

definition output_payload :: "frame \<Rightarrow> (u64 \<times> bytes) option" where
  "output_payload f =
     (if frame_type f \<noteq> Output \<or> length (frame_payload f) < 8 then None
      else Some (u64_from_be (take 8 (frame_payload f)), drop 8 (frame_payload f)))"

definition resize_payload :: "frame \<Rightarrow> (u16 \<times> u16) option" where
  "resize_payload f =
     (if frame_type f \<noteq> Resize \<or> length (frame_payload f) < 4 then None
      else Some (read_u16 (frame_payload f) 0, read_u16 (frame_payload f) 2))"

definition offset_payload :: "frame \<Rightarrow> u64 option" where
  "offset_payload f =
     (if \<not> (frame_type f = ReplayBegin \<or> frame_type f = ReplayEnd) \<or> length (frame_payload f) < 8
      then None else Some (u64_from_be (take 8 (frame_payload f))))"

definition scroll_payload :: "frame \<Rightarrow> (byte \<times> u16 \<times> u16 \<times> u16) option" where
  "scroll_payload f =
     (if frame_type f \<noteq> Scroll \<or> length (frame_payload f) < 7 then None
      else Some (frame_payload f ! 0, read_u16 (frame_payload f) 1, read_u16 (frame_payload f) 3,
                 read_u16 (frame_payload f) 5))"

definition modes_payload :: "frame \<Rightarrow> (bool \<times> bool) option" where
  "modes_payload f =
     (if frame_type f \<noteq> Modes then None
      else (case frame_payload f of [] \<Rightarrow> None
            | bits # _ \<Rightarrow> Some (bits AND 1 \<noteq> 0, bits AND 2 \<noteq> 0)))"

section \<open>The codec\<close>

record frame_codec =
  frame_buffer :: bytes

definition frame_codec_new :: frame_codec where
  "frame_codec_new = \<lparr>frame_buffer = []\<rparr>"

definition frame_encode :: "frame \<Rightarrow> (frame_codec_error, bytes) result" where
  "frame_encode f =
     (let n = length (frame_payload f) in
      if n > MAX_FRAME_BYTES then Inl (FrameTooLarge n MAX_FRAME_BYTES)
      else if n > u32_max then Inl (PayloadLengthOverflow n)
      else Inr ([frame_type_u8 (frame_type f)] @ u32_to_be (of_nat n) @ frame_payload f))"

function feed_loop :: "bytes \<Rightarrow> usize \<Rightarrow> frame list \<Rightarrow> (frame_codec_error, frame list \<times> usize) result" where
  "feed_loop buf consumed frames =
     (if length buf - consumed \<ge> 5 then
        (case frame_type_try_from (buf ! consumed) of
           Inl e \<Rightarrow> Inl e
         | Inr t \<Rightarrow>
             (let n = unat (u32_from_be (segment buf (consumed + 1) (consumed + 5))) in
              if n > MAX_FRAME_BYTES then Inl (FrameTooLarge n MAX_FRAME_BYTES)
              else (let frame_end = consumed + 5 + n in
                    if length buf < frame_end then Inr (frames, consumed)
                    else feed_loop buf frame_end
                           (frames @ [frame_new t (segment buf (consumed + 5) frame_end)]))))
      else Inr (frames, consumed))"
  by pat_completeness auto
termination
  by (relation "measure (\<lambda>(buf, consumed, frames). length buf - consumed)") auto

declare feed_loop.simps [simp del]

definition feed :: "frame_codec \<Rightarrow> bytes \<Rightarrow> (frame_codec_error, frame list) result \<times> frame_codec" where
  "feed codec bs =
     (let buf = frame_buffer codec @ bs in
      case feed_loop buf 0 [] of
        Inl e \<Rightarrow> (Inl e, codec\<lparr>frame_buffer := buf\<rparr>)
      | Inr (frames, consumed) \<Rightarrow>
          (Inr frames, codec\<lparr>frame_buffer := if consumed \<noteq> 0 then drop consumed buf else buf\<rparr>))"

definition buffered_len :: "frame_codec \<Rightarrow> usize" where
  "buffered_len codec = length (frame_buffer codec)"

section \<open>The decoder as an interface\<close>

text \<open>One frame from the front of a buffer.\<close>

definition frame_step :: "bytes \<Rightarrow> (frame_codec_error, (frame \<times> nat) option) result" where
  "frame_step b =
     (if length b < 5 then Inr None
      else and_then (frame_type_try_from (b ! 0)) (\<lambda>t.
        let n = unat (u32_from_be (segment b 1 5)) in
        if n > MAX_FRAME_BYTES then Inl (FrameTooLarge n MAX_FRAME_BYTES)
        else if length b < 5 + n then Inr None
        else Inr (Some (frame_new t (segment b 5 (5 + n)), 5 + n))))"

lemma frame_step_append:
  assumes "length b \<ge> 5"
  shows "frame_step (b @ c) = and_then (frame_type_try_from (b ! 0)) (\<lambda>t.
        let n = unat (u32_from_be (segment b 1 5)) in
        if n > MAX_FRAME_BYTES then Inl (FrameTooLarge n MAX_FRAME_BYTES)
        else if length b + length c < 5 + n then Inr None
        else Inr (Some (frame_new t (segment (b @ c) 5 (5 + n)), 5 + n)))"
proof -
  have "(b @ c) ! 0 = b ! 0" and "segment (b @ c) 1 5 = segment b 1 5"
    using assms by (auto simp: nth_append segment_append_left)
  then show ?thesis
    using assms by (cases "frame_type_try_from (b ! 0)") (simp_all add: frame_step_def Let_def)
qed

interpretation fd: indexed_decoder frame_step feed_loop
proof (unfold_locales, goal_cases)
  case (1 c b acc)
  show ?case
    by (auto simp: feed_loop.simps [of b c acc] frame_step_def segment_drop Let_def add.assoc
        split: sum.splits)
next
  case (2 b m n)
  then show ?case
    by (auto simp: frame_step_def Let_def and_then_def split: if_splits sum.splits)
next
  case (3 b m n d)
  then show ?case
    by (cases "length b < 5")
      (auto simp: frame_step_append frame_step_def [of b] Let_def and_then_def segment_append_left
        split: if_splits sum.splits)
next
  case (4 b e d)
  then show ?case
    by (cases "length b < 5")
      (auto simp: frame_step_append frame_step_def [of b] Let_def and_then_def
        split: if_splits sum.splits)
qed

abbreviation frame_loop :: "bytes \<Rightarrow> (frame_codec_error, frame list \<times> bytes) result" where
  "frame_loop b \<equiv> and_then (feed_loop b 0 []) (\<lambda>(ms, k). Inr (ms, drop k b))"

interpretation ff: chunk_feeder frame_step frame_loop feed "\<lambda>b. \<lparr>frame_buffer = b\<rparr>"
  by unfold_locales (auto simp: feed_def Let_def split: sum.splits prod.splits)

section \<open>Encoding and decoding one frame\<close>

lemma frame_type_try_from_u8 [simp]: "frame_type_try_from (frame_type_u8 t) = Inr t"
  by (cases t) (simp_all add: frame_type_try_from_def)

lemma frame_type_try_from_ok: "frame_type_try_from v = Inr t \<Longrightarrow> v = frame_type_u8 t"
  by (auto simp: frame_type_try_from_def split: if_splits)

lemma max_frame_fits: "n \<le> MAX_FRAME_BYTES \<Longrightarrow> unat (of_nat n :: u32) = n"
  by (simp add: MAX_FRAME_BYTES_def unat_of_nat)

lemma frame_encode_ok:
  "length (frame_payload f) \<le> MAX_FRAME_BYTES \<Longrightarrow>
     frame_encode f = Inr ([frame_type_u8 (frame_type f)]
       @ u32_to_be (of_nat (length (frame_payload f))) @ frame_payload f)"
  by (simp add: frame_encode_def Let_def MAX_FRAME_BYTES_def)

lemma frame_encode_bound:
  "frame_encode f = Inr e \<Longrightarrow> length (frame_payload f) \<le> MAX_FRAME_BYTES"
  by (auto simp: frame_encode_def Let_def split: if_splits)

lemma frame_step_encode:
  assumes "frame_encode f = Inr e"
  shows "frame_step (e @ rest) = Inr (Some (f, length e))"
proof -
  let ?p = "frame_payload f"
  have n: "length ?p \<le> MAX_FRAME_BYTES"
    using frame_encode_bound [OF assms] .
  then have e: "e = [frame_type_u8 (frame_type f)] @ u32_to_be (of_nat (length ?p)) @ ?p"
    using assms by (simp add: frame_encode_ok)
  have "segment (e @ rest) 1 5 = u32_to_be (of_nat (length ?p))"
    using segment_append_right [of "[frame_type_u8 (frame_type f)]" 1 _ 4] by (simp add: e)
  moreover have "segment (e @ rest) 5 (5 + length ?p) = ?p"
    using segment_append_right [of "[frame_type_u8 (frame_type f)] @ u32_to_be (of_nat (length ?p))"
        5 "?p @ rest" "length ?p"] by (simp add: e)
  moreover have "(e @ rest) ! 0 = frame_type_u8 (frame_type f)" "length e = 5 + length ?p"
    by (simp_all add: e)
  ultimately show ?thesis
    using n by (simp add: frame_step_def max_frame_fits frame_new_def)
qed

lemma frame_step_Nil [simp]: "frame_step [] = Inr None"
  by (simp add: frame_step_def)

section \<open>Properties\<close>

text \<open>
  Claim C3. Sending frames over a byte stream loses and invents nothing: when every frame of a
  list fits the 16 MiB limit, the concatenation of the encodings, cut into chunks in any way
  at all and fed chunk by chunk to a fresh decoder, yields exactly those frames and leaves an
  empty buffer.
\<close>

theorem frames_stream_roundtrip:
  assumes "\<forall>f \<in> set fs. frame_encode f = Inr (enc f)" "concat chunks = concat (map enc fs)"
  shows "feed_chunks feed frame_codec_new chunks = (Inr fs, frame_codec_new)"
proof -
  have "frame_loop (concat (map enc fs) @ []) = Inr (fs, [])"
    using assms(1) frame_step_encode by (intro fd.loop_encoded) auto
  then show ?thesis
    using ff.chunks_ok [of "[]" chunks fs "[]"] assms(2) by (simp add: frame_codec_new_def)
qed

theorem frames_stream_roundtrip_witness:
  "feed_chunks feed frame_codec_new [[6, 0], [0, 0, 0, 2, 0, 0, 0, 1, 65]]
     = (Inr [frame_ping, frame_input [65]], frame_codec_new)"
proof -
  let ?enc = "\<lambda>f. [frame_type_u8 (frame_type f)] @ u32_to_be (of_nat (length (frame_payload f))) @ frame_payload f"
  show ?thesis
    by (rule frames_stream_roundtrip [where enc = ?enc])
      (simp_all add: frame_ping_def frame_input_def frame_new_def frame_encode_def
        MAX_FRAME_BYTES_def u32_to_be_def be_nat_unfold)
qed

text \<open>
  How the transport cuts the stream is irrelevant for malformed input too: two
  chunkings of the same bytes give a fresh decoder the same frames or the same error.
\<close>

theorem frames_chunking_irrelevant:
  assumes "concat xs = concat ys"
  shows "fst (feed_chunks feed frame_codec_new xs) = fst (feed_chunks feed frame_codec_new ys)"
  using ff.chunks_by_content [of "[]" xs ys] assms by (simp add: frame_codec_new_def)

theorem frames_chunking_irrelevant_witness:
  "fst (feed_chunks feed frame_codec_new [[99], [0, 0, 0, 0]])
     = fst (feed_chunks feed frame_codec_new [[99, 0, 0], [], [0, 0]])"
  by (rule frames_chunking_irrelevant) simp

text \<open>
  The decoder never holds back a complete frame and never buffers more than one
  frame's worth: after a successful feed the buffer is shorter than a header plus the largest
  payload.
\<close>

theorem feed_buffer_bound:
  assumes "feed codec bs = (Inr fs, codec')"
  shows "buffered_len codec' < 5 + MAX_FRAME_BYTES \<and> frame_step (frame_buffer codec') = Inr None"
proof -
  have l: "frame_loop (frame_buffer codec @ bs) = Inr (fs, frame_buffer codec')"
    using assms by (auto simp: feed_def Let_def split: sum.splits prod.splits)
  have q: "frame_step (frame_buffer codec') = Inr None"
    by (rule fd.loop_rest_quiet [OF l])
  moreover have "length (frame_buffer codec') < 5 + MAX_FRAME_BYTES"
  proof (rule ccontr)
    assume "\<not> ?thesis"
    then show False
      using q by (auto simp: frame_step_def Let_def and_then_def split: if_splits sum.splits)
  qed
  ultimately show ?thesis
    by (simp add: buffered_len_def)
qed

lemma feed_example: "feed frame_codec_new [6, 0, 0] = (Inr [], \<lparr>frame_buffer = [6, 0, 0]\<rparr>)"
  by (simp add: feed_def feed_loop.simps frame_codec_new_def)

theorem feed_buffer_bound_witness:
  "buffered_len \<lparr>frame_buffer = [6, 0, 0]\<rparr> < 5 + MAX_FRAME_BYTES
   \<and> frame_step (frame_buffer \<lparr>frame_buffer = [6, 0, 0]\<rparr>) = Inr None"
  by (rule feed_buffer_bound [OF feed_example])

text \<open>
  The typed readers undo the typed constructors, for every argument.
\<close>

theorem frame_payload_roundtrips:
  "output_payload (frame_output off bs) = Some (off, bs)
   \<and> resize_payload (frame_resize c r) = Some (c, r)
   \<and> offset_payload (replay_begin off) = Some off
   \<and> offset_payload (replay_end off) = Some off
   \<and> scroll_payload (frame_scroll d lines col row) = Some (d, lines, col, row)
   \<and> modes_payload (frame_modes alt mouse) = Some (alt, mouse)
   \<and> (case frame_grid u of Inl e \<Rightarrow> grid_encode u = Inl e | Inr f \<Rightarrow> grid_payload f = Inr (Some u))"
proof -
  have seg: "read_u16 (u16_to_be c @ u16_to_be r) 0 = c"
    "read_u16 (u16_to_be c @ u16_to_be r) 2 = r" for c r
    by (simp_all add: read_u16_def segment_def)
  have seg7: "read_u16 (d # u16_to_be a @ u16_to_be b @ u16_to_be e) 1 = a"
    "read_u16 (d # u16_to_be a @ u16_to_be b @ u16_to_be e) 3 = b"
    "read_u16 (d # u16_to_be a @ u16_to_be b @ u16_to_be e) 5 = e" for d a b e
    by (simp_all add: read_u16_def segment_def numeral_eq_Suc)
  have "modes_payload (frame_modes alt mouse) = Some (alt, mouse)"
    by (cases alt; cases mouse; simp add: modes_payload_def frame_modes_def frame_new_def u8_of_bool_def)
  moreover have "case frame_grid u of Inl e \<Rightarrow> grid_encode u = Inl e | Inr f \<Rightarrow> grid_payload f = Inr (Some u)"
    using grid_decode_encode [of u _ "[]"]
    by (cases "grid_encode u") (auto simp: frame_grid_def grid_payload_def frame_new_def)
  ultimately show ?thesis
    by (simp add: output_payload_def frame_output_def resize_payload_def frame_resize_def
        offset_payload_def replay_begin_def replay_end_def offset_frame_def scroll_payload_def
        frame_scroll_def frame_new_def seg seg7 [simplified])
qed

end
