(* ===== verification/Model.thy ===== *)
theory Model
  imports Prelude Complex_Main
begin

text \<open>
  The shared wire model of \<^verbatim>\<open>homie-proto/src/model.rs\<close> as far as the modelled components use
  it, and the text and time types of the Rust standard library they need.
  Shown here: the attention level of a session, by which the application sorts sessions that
  want the user, is decided by the status alone except for idle sessions, where it compares
  the last completed turn with the last look.
\<close>

section \<open>Text and time\<close>

text \<open>
  A Rust string is a sequence of Unicode scalar values. \<open>lit\<close> turns an ASCII literal into
  text. \<open>is_whitespace\<close> is the Unicode property White\_Space that \<open>str::trim\<close> uses.
\<close>

type_synonym str = "nat list"

definition lit :: "string \<Rightarrow> str" where
  "lit s = map of_char s"

definition is_whitespace :: "nat \<Rightarrow> bool" where
  "is_whitespace c \<longleftrightarrow> (9 \<le> c \<and> c \<le> 13) \<or> c = 32 \<or> c = 133 \<or> c = 160 \<or> c = 5760
     \<or> (8192 \<le> c \<and> c \<le> 8202) \<or> c = 8232 \<or> c = 8233 \<or> c = 8239 \<or> c = 8287 \<or> c = 12288"

definition trim_start_matches :: "(nat \<Rightarrow> bool) \<Rightarrow> str \<Rightarrow> str" where
  "trim_start_matches P s = dropWhile P s"

definition trim_end_matches :: "(nat \<Rightarrow> bool) \<Rightarrow> str \<Rightarrow> str" where
  "trim_end_matches P s = rev (dropWhile P (rev s))"

definition trim :: "str \<Rightarrow> str" where
  "trim s = trim_end_matches is_whitespace (trim_start_matches is_whitespace s)"

fun text_contains :: "str \<Rightarrow> str \<Rightarrow> bool" where
  "text_contains needle [] = (needle = [])"
| "text_contains needle (c # s) = (take (length needle) (c # s) = needle \<or> text_contains needle s)"

text \<open>\<open>str::split\<close> on one character: always at least one piece.\<close>

fun split_on :: "nat \<Rightarrow> str \<Rightarrow> str list" where
  "split_on sep [] = [[]]"
| "split_on sep (c # s) =
     (if c = sep then [] # split_on sep s
      else (case split_on sep s of [] \<Rightarrow> [[c]] | p # ps \<Rightarrow> (c # p) # ps))"

text \<open>\<open>str::lines\<close>: no last empty line, and a carriage return before the newline goes too.\<close>

definition text_lines :: "str \<Rightarrow> str list" where
  "text_lines s =
     (let ls = split_on 10 s; ls = (if last ls = [] then butlast ls else ls)
      in map (\<lambda>l. if l \<noteq> [] \<and> last l = 13 then butlast l else l) ls)"

text \<open>\<open>char::is_control\<close> and \<open>char::to_ascii_lowercase\<close>.\<close>

definition is_control :: "nat \<Rightarrow> bool" where
  "is_control c \<longleftrightarrow> c < 32 \<or> 127 \<le> c \<and> c < 160"

definition ascii_lower :: "nat \<Rightarrow> nat" where
  "ascii_lower c = (if 65 \<le> c \<and> c \<le> 90 then c + 32 else c)"

text \<open>\<open>join("\n")\<close>.\<close>

fun join_lines :: "str list \<Rightarrow> str" where
  "join_lines [] = []"
| "join_lines [l] = l"
| "join_lines (l # ls) = l @ 10 # join_lines ls"

text \<open>\<open>Iterator::rposition\<close>.\<close>

fun rposition :: "('a \<Rightarrow> bool) \<Rightarrow> 'a list \<Rightarrow> nat option" where
  "rposition P [] = None"
| "rposition P (x # xs) = (case rposition P xs of Some i \<Rightarrow> Some (i + 1) | None \<Rightarrow> if P x then Some 0 else None)"

lemma split_on_append: "sep \<notin> set xs \<Longrightarrow> split_on sep (xs @ sep # ys) = xs # split_on sep ys"
  by (induction xs) auto

lemma split_on_single: "sep \<notin> set xs \<Longrightarrow> split_on sep xs = [xs]"
  by (induction xs) auto

lemma rposition_Some:
  "rposition P xs = Some i \<Longrightarrow> i < length xs \<and> P (xs ! i) \<and> (\<forall>k. i < k \<and> k < length xs \<longrightarrow> \<not> P (xs ! k))"
  and rposition_None: "rposition P xs = None \<longleftrightarrow> \<not> list_ex P xs"
proof (induction xs arbitrary: i)
  case (Cons x xs)
  {
    case 1
    show ?case
    proof (cases "rposition P xs")
      case None
      then have "\<forall>k < length xs. \<not> P (xs ! k)"
        using Cons.IH(2) by (simp add: list_ex_length)
      then show ?thesis
        using 1 None by (auto simp: nth_Cons split: if_splits nat.splits)
    next
      case (Some k)
      then show ?thesis
        using 1 Cons.IH(1) [OF Some] by (auto simp: nth_Cons split: nat.splits)
    qed
  next
    case 2
    show ?case
      using Cons.IH(2) by (auto split: option.splits)
  }
qed simp_all

lemma rposition_append:
  "P x \<Longrightarrow> list_all (\<lambda>y. \<not> P y) ys \<Longrightarrow> rposition P (xs @ x # ys) = Some (length xs)"
proof (induction xs)
  case Nil
  then have "rposition P ys = None"
    by (auto simp: rposition_None list_ex_iff list_all_iff)
  then show ?case
    using Nil by simp
qed simp

text \<open>
  UTF-8: \<open>str::as_bytes\<close>, so that \<open>str::len\<close> is the length of \<open>utf8\<close>. \<open>dec\<close> is the decimal form that
  format strings give an unsigned integer. \<open>path_is_absolute\<close> is \<open>Path::is_absolute\<close> on Unix, the
  platforms the crates are built for.
\<close>

definition utf8_scalar :: "nat \<Rightarrow> bytes" where
  "utf8_scalar c = map of_nat
     (if c < 128 then [c]
      else if c < 2048 then [192 + c div 64, 128 + c mod 64]
      else if c < 65536 then [224 + c div 4096, 128 + c div 64 mod 64, 128 + c mod 64]
      else [240 + c div 262144, 128 + c div 4096 mod 64, 128 + c div 64 mod 64, 128 + c mod 64])"

definition utf8 :: "str \<Rightarrow> bytes" where
  "utf8 s = concat (map utf8_scalar s)"

fun dec :: "nat \<Rightarrow> str" where
  "dec n = (if n < 10 then [48 + n] else dec (n div 10) @ [48 + n mod 10])"

declare dec.simps [simp del]

definition starts_with :: "str \<Rightarrow> str \<Rightarrow> bool" where
  "starts_with s p \<longleftrightarrow> take (length p) s = p"

definition path_is_absolute :: "str \<Rightarrow> bool" where
  "path_is_absolute s \<longleftrightarrow> starts_with s (lit ''/'')"

text \<open>The scalar values: code points without surrogates.\<close>

definition valid_str :: "str \<Rightarrow> bool" where
  "valid_str s \<longleftrightarrow> (\<forall>c \<in> set s. c < 55296 \<or> (57344 \<le> c \<and> c < 1114112))"

text \<open>
  SystemTime in nanoseconds since the epoch, negative before it; Duration in nanoseconds.
  \<open>elapsed now since\<close> is \<open>now.duration_since(since).unwrap_or_default()\<close>.
\<close>

type_synonym systime = int
type_synonym duration = nat

definition UNIX_EPOCH :: systime where "UNIX_EPOCH = 0"
definition SYSTEM_TIME_MIN :: systime where "SYSTEM_TIME_MIN = - (2 ^ 63) * 10 ^ 9"

definition elapsed :: "systime \<Rightarrow> systime \<Rightarrow> duration" where
  "elapsed now since = nat (now - since)"

definition checked_sub :: "systime \<Rightarrow> duration \<Rightarrow> systime option" where
  "checked_sub t d = (if t - int d < SYSTEM_TIME_MIN then None else Some (t - int d))"

definition from_millis :: "nat \<Rightarrow> duration" where "from_millis n = n * 1000000"
definition from_secs :: "nat \<Rightarrow> duration" where "from_secs n = n * 1000000000"

text \<open>\<open>Duration::saturating_add\<close> stops at the largest duration.\<close>

definition duration_max :: duration where "duration_max = (2 ^ 64 - 1) * 10 ^ 9 + 999999999"

definition duration_add :: "duration \<Rightarrow> duration \<Rightarrow> duration" where
  "duration_add a b = min (a + b) duration_max"

text \<open>
  DateMillis holds an f64; it is the real number that f64 stands for. The rounding of the
  conversion from SystemTime is not modelled.
\<close>

type_synonym date_millis = real

definition date_millis_of :: "systime \<Rightarrow> date_millis" where
  "date_millis_of t = (if t < UNIX_EPOCH then 0 else of_int (t - UNIX_EPOCH) / 1000000)"

section \<open>Sessions\<close>

datatype needs_input_kind = Permission | Question | UnknownKind

datatype risk_hint = Destructive | Network | FileWrite | Neutral | UnknownRisk

datatype needs_input_source =
  ClaudePermissionHook | ClaudeNotificationHook | CodexNotify | ScreenScrape | UnknownSource

record needs_input_detail =
  ni_kind :: needs_input_kind
  ni_source :: needs_input_source
  ni_tool_name :: "str option"
  ni_summary :: str
  ni_prompt_excerpt :: "str option"
  ni_options :: "str list option"
  ni_risk_hint :: risk_hint
  ni_occurred_at :: date_millis

datatype exit_reason =
  ReasonExited | ReasonSignaled | DaemonRestart | External | ReasonArchived | UnknownReason

text \<open>How a process of a pseudo-terminal ended (\<^verbatim>\<open>homie-pty/src/lib.rs\<close>).\<close>

datatype pty_exit = ExitCode int | ExitSignal int

record exit_info =
  exit_reason :: exit_reason
  exit_code :: "int option"
  exit_signal :: "int option"

datatype session_status =
  Starting | Idle | Working | NeedsInput needs_input_kind | Exited exit_info | Unknown

datatype attention_level =
  AttNone | IdleSeen | AttWorking | DoneUnseen | AttNeedsInput | AttUnknown

fun attention_level_i8 :: "attention_level \<Rightarrow> int" where
  "attention_level_i8 AttNone = 0"
| "attention_level_i8 IdleSeen = 1"
| "attention_level_i8 AttWorking = 2"
| "attention_level_i8 DoneUnseen = 3"
| "attention_level_i8 AttNeedsInput = 4"
| "attention_level_i8 AttUnknown = -1"

definition attention_level_of_i64 :: "int \<Rightarrow> attention_level" where
  "attention_level_of_i64 n =
     (if n = 0 then AttNone else if n = 1 then IdleSeen else if n = 2 then AttWorking
      else if n = 3 then DoneUnseen else if n = 4 then AttNeedsInput else AttUnknown)"

text \<open>The part of SessionRecord the attention level reads.\<close>

definition attention :: "session_status \<Rightarrow> date_millis option \<Rightarrow> date_millis option \<Rightarrow> attention_level" where
  "attention status last_turn_completed_at last_seen_at =
     (case status of
        NeedsInput _ \<Rightarrow> AttNeedsInput
      | Working \<Rightarrow> AttWorking
      | Starting \<Rightarrow> AttWorking
      | Idle \<Rightarrow>
          (if (case last_turn_completed_at of None \<Rightarrow> False
               | Some done \<Rightarrow> (case last_seen_at of None \<Rightarrow> True | Some seen \<Rightarrow> done > seen))
           then DoneUnseen else IdleSeen)
      | Exited _ \<Rightarrow> AttNone
      | Unknown \<Rightarrow> AttNone)"

section \<open>Facts about text\<close>

lemma text_contains_iff: "text_contains needle s \<longleftrightarrow> (\<exists>pre post. s = pre @ needle @ post)"
proof (induction s)
  case Nil
  then show ?case by simp
next
  case (Cons c s)
  have "take (length needle) (c # s) = needle \<longleftrightarrow> (\<exists>post. c # s = needle @ post)"
    by (metis append_eq_conv_conj)
  then show ?case
    using Cons.IH by (auto simp: Cons_eq_append_conv)
qed

lemma attention_level_roundtrip: "attention_level_of_i64 (attention_level_i8 a) = a"
  by (cases a) (simp_all add: attention_level_of_i64_def)

lemma elapsed_mono: "now \<le> now' \<Longrightarrow> elapsed now since \<le> elapsed now' since"
  by (simp add: elapsed_def)

lemma elapsed_self [simp]: "elapsed now now = 0"
  by (simp add: elapsed_def)

end
