(* ===== verification/Decimal.thy ===== *)
theory Decimal
  imports Model
begin

text \<open>
  Reading and printing decimal numbers as Rust's \<^verbatim>\<open>str::parse\<close> and format strings do, and cutting a text at its
  blanks: shared by the updater's versions, the process table and the list of ports.
\<close>

fun digits_value :: "nat \<Rightarrow> str \<Rightarrow> nat option" where
  "digits_value acc [] = Some acc"
| "digits_value acc (c # s) = (if 48 \<le> c \<and> c \<le> 57 then digits_value (10 * acc + (c - 48)) s else None)"

text \<open>\<open>str::parse\<close> at a signed type with the bounds \<open>lo\<close> and \<open>hi\<close>: a sign may come first, a digit must come.\<close>

definition parse_int :: "int \<Rightarrow> int \<Rightarrow> str \<Rightarrow> int option" where
  "parse_int lo hi s =
     (let (sign, d) = (case s of [] \<Rightarrow> (1, []) | c # d \<Rightarrow> if c = 43 then (1, d) else if c = 45 then (- 1, d) else (1, s))
      in if d = [] then None
         else Option.bind (digits_value 0 d) (\<lambda>n. let v = sign * int n in if lo \<le> v \<and> v \<le> hi then Some v else None))"

abbreviation parse_i32 :: "str \<Rightarrow> int option" where "parse_i32 \<equiv> parse_int (- (2 ^ 31)) (2 ^ 31 - 1)"
abbreviation parse_i64 :: "str \<Rightarrow> int option" where "parse_i64 \<equiv> parse_int (- (2 ^ 63)) (2 ^ 63 - 1)"

definition int_text :: "int \<Rightarrow> str" where
  "int_text i = (if i < 0 then 45 # dec (nat (- i)) else dec (nat i))"

text \<open>\<open>str::split_whitespace\<close>.\<close>

fun split_space :: "str \<Rightarrow> str list" where
  "split_space [] = [[]]"
| "split_space (c # s) = (if is_whitespace c then [] # split_space s else (case split_space s of w # ws \<Rightarrow> (c # w) # ws | [] \<Rightarrow> [[c]]))"

definition split_whitespace :: "str \<Rightarrow> str list" where
  "split_whitespace s = filter (\<lambda>w. w \<noteq> []) (split_space s)"

section \<open>Printing and parsing\<close>

lemma dec_digits: "c \<in> set (dec n) \<Longrightarrow> 48 \<le> c \<and> c \<le> 57"
proof (induction n arbitrary: c rule: dec.induct)
  case (1 n)
  then show ?case
    by (cases "n < 10") (auto simp: dec.simps [of n])
qed

lemma dec_not_Nil [simp]: "dec n \<noteq> []"
  by (simp add: dec.simps [of n])

lemma digits_value_append:
  "digits_value acc (xs @ ys) = Option.bind (digits_value acc xs) (\<lambda>n. digits_value n ys)"
  by (induction acc xs rule: digits_value.induct) auto

lemma digits_value_dec: "digits_value 0 (dec n) = Some n"
proof (induction n rule: dec.induct)
  case (1 n)
  then show ?case
    by (cases "n < 10") (auto simp: dec.simps [of n] digits_value_append)
qed

lemma int_text_chars: "c \<in> set (int_text i) \<Longrightarrow> c = 45 \<or> 48 \<le> c \<and> c \<le> 57"
  using dec_digits by (fastforce simp: int_text_def split: if_splits)

lemma int_text_not_Nil [simp]: "int_text i \<noteq> []"
  by (simp add: int_text_def)

lemma parse_int_text: "parse_int lo hi (int_text i) = (if lo \<le> i \<and> i \<le> hi then Some i else None)"
proof (cases "i < 0")
  case False
  obtain c d where cd: "dec (nat i) = c # d"
    by (cases "dec (nat i)") auto
  then have "48 \<le> c"
    using dec_digits [of c "nat i"] by simp
  then show ?thesis
    using False cd digits_value_dec [of "nat i"] by (simp add: parse_int_def int_text_def)
qed (simp add: parse_int_def int_text_def digits_value_dec)

lemma split_space_not_Nil [simp]: "split_space s \<noteq> []"
  by (cases s) (auto split: list.split)

lemma split_space_append_blank:
  "is_whitespace b \<Longrightarrow> split_space (s @ b # t) = split_space s @ split_space t"
  by (induction s) (auto split: list.split)

lemma split_space_word:
  "list_all (\<lambda>c. \<not> is_whitespace c) s \<Longrightarrow> split_space s = [s]"
  by (induction s) auto

lemma split_whitespace_Cons:
  assumes "s \<noteq> []" "list_all (\<lambda>c. \<not> is_whitespace c) s" "is_whitespace b"
  shows "split_whitespace (s @ b # t) = s # split_whitespace t"
  using assms by (simp add: split_whitespace_def split_space_append_blank split_space_word)

end
