(* ===== verification/Hex.thy ===== *)
theory Hex
  imports Model
begin

text \<open>
  Hexadecimal text: \<open>hex_encode\<close> is the function that \<^verbatim>\<open>homie-gateway/src/auth.rs\<close> and \<^verbatim>\<open>homie-node/src/config.rs\<close> both have;
  \<open>hex_decode\<close> is the node's, which also reads capital letters.
\<close>

unbundle bit_operations_syntax

definition HEX :: str where "HEX = lit ''0123456789abcdef''"

definition hex_encode :: "bytes \<Rightarrow> str" where
  "hex_encode bs = concat (map (\<lambda>b. [HEX ! unat (drop_bit 4 b), HEX ! unat (b AND 0x0f)]) bs)"

definition hex_digit :: "nat \<Rightarrow> nat option" where
  "hex_digit c =
     (if 48 \<le> c \<and> c \<le> 57 then Some (c - 48)
      else if 97 \<le> c \<and> c \<le> 102 then Some (c - 97 + 10)
      else if 65 \<le> c \<and> c \<le> 70 then Some (c - 65 + 10)
      else None)"

text \<open>\<open>None\<close>: an odd length or a character that is no digit, which are the same error.\<close>

fun hex_decode :: "str \<Rightarrow> bytes option" where
  "hex_decode [] = Some []"
| "hex_decode [_] = None"
| "hex_decode (h # l # s) =
     (case (hex_digit h, hex_digit l, hex_decode s) of
        (Some h, Some l, Some bs) \<Rightarrow> Some (of_nat (16 * h + l) # bs)
      | _ \<Rightarrow> None)"

lemma nibbles:
  "unat (drop_bit 4 (b :: byte)) = unat b div 16" "unat (b AND 0x0f) = unat b mod 16"
proof -
  show "unat (drop_bit 4 b) = unat b div 16"
    unfolding unsigned_drop_bit_eq using unsigned_less [of b, where ?'a = nat]
    by (simp add: drop_bit_eq_div take_bit_eq_mod)
  have "b AND 0x0f = take_bit 4 b"
    by (simp add: take_bit_eq_mask mask_eq_exp_minus_1)
  then have "unat (b AND 0x0f) = take_bit 4 (unat b)"
    by (simp only: unsigned_take_bit_eq)
  then show "unat (b AND 0x0f) = unat b mod 16"
    by (simp add: take_bit_eq_mod)
qed

lemma HEX_inj:
  assumes "m < 16" "n < 16" "HEX ! m = HEX ! n"
  shows "m = n"
proof -
  have "distinct HEX" "length HEX = 16"
    by (simp_all add: HEX_def lit_def)
  then show ?thesis
    using assms by (simp add: nth_eq_iff_index_eq)
qed

lemma hex_encode_inj: "hex_encode xs = hex_encode ys \<Longrightarrow> xs = ys"
proof (induction xs arbitrary: ys)
  case Nil
  then show ?case
    by (cases ys) (auto simp: hex_encode_def)
next
  case (Cons x xs)
  then obtain y ys' where ys: "ys = y # ys'"
    by (cases ys) (auto simp: hex_encode_def)
  then have h: "HEX ! (unat x div 16) = HEX ! (unat y div 16)" "HEX ! (unat x mod 16) = HEX ! (unat y mod 16)"
    "hex_encode xs = hex_encode ys'"
    using Cons.prems by (simp_all add: hex_encode_def nibbles)
  have "unat b div 16 < 16" for b :: byte
    using unsigned_less [of b, where ?'a = nat] by simp
  then have "unat x div 16 = unat y div 16" "unat x mod 16 = unat y mod 16"
    using HEX_inj [OF _ _ h(1)] HEX_inj [OF _ _ h(2)] by simp_all
  then have "unat x = unat y"
    by (metis div_mult_mod_eq)
  then show ?case
    using Cons.IH [OF h(3)] ys by (simp add: word_unat_eq_iff)
qed

lemma hex_digit_HEX: "n < 16 \<Longrightarrow> hex_digit (HEX ! n) = Some n"
proof -
  have "list_all (\<lambda>n. hex_digit (HEX ! n) = Some n) [0..<16]"
    by (simp add: HEX_def lit_def hex_digit_def upt_rec)
  then show "n < 16 \<Longrightarrow> hex_digit (HEX ! n) = Some n"
    by (simp add: list_all_iff)
qed

lemma hex_decode_encode: "hex_decode (hex_encode bs) = Some bs"
proof (induction bs)
  case (Cons b bs)
  have "unat b div 16 < 16"
    using unsigned_less [of b, where ?'a = nat] by simp
  then show ?case
    using Cons by (simp add: hex_encode_def nibbles hex_digit_HEX)
qed (simp add: hex_encode_def)

lemma length_hex_encode: "length (hex_encode bs) = 2 * length bs"
  by (induction bs) (simp_all add: hex_encode_def)

end
