(* ===== verification/Shell_Quote.thy ===== *)
theory Shell_Quote
  imports Model
begin

text \<open>
  Quoting a word for a POSIX shell, which \<^verbatim>\<open>homie-updater/src/install.rs\<close> and
  \<^verbatim>\<open>homie-engine/src/agent.rs\<close> do with the same function, and how the shell cuts a command into words.
\<close>

definition shell_quote :: "str \<Rightarrow> str" where
  "shell_quote v = [39] @ concat (map (\<lambda>c. if c = 39 then [39, 92, 39, 39] else [c]) v) @ [39]"

text \<open>
  The reader of a POSIX shell on the part of its syntax that the crates write: single quotes, a
  backslash outside them, blanks between words, semicolons between commands, and letters, digits and
  a few signs as they are. Everything else is \<open>None\<close>. \<open>cur\<close> is the word under construction.
\<close>

datatype sh_token = ShWord str | ShSemi

definition sh_plain :: "nat \<Rightarrow> bool" where
  "sh_plain c \<longleftrightarrow> 48 \<le> c \<and> c \<le> 57 \<or> 65 \<le> c \<and> c \<le> 90 \<or> 97 \<le> c \<and> c \<le> 122 \<or> c \<in> {45, 46, 47, 95}"

definition sh_cur :: "str option \<Rightarrow> str" where
  "sh_cur cur = (case cur of None \<Rightarrow> [] | Some w \<Rightarrow> w)"

definition sh_flush :: "str option \<Rightarrow> sh_token list" where
  "sh_flush cur = (case cur of None \<Rightarrow> [] | Some w \<Rightarrow> [ShWord w])"

fun sh_tokens :: "str option \<Rightarrow> bool \<Rightarrow> str \<Rightarrow> sh_token list option" where
  "sh_tokens cur quoted [] = (if quoted then None else Some (sh_flush cur))"
| "sh_tokens cur True (c # s) =
     (if c = 39 then sh_tokens cur False s else sh_tokens (Some (sh_cur cur @ [c])) True s)"
| "sh_tokens cur False (c # s) =
     (if c = 39 then sh_tokens (Some (sh_cur cur)) True s
      else if c = 92 then (case s of [] \<Rightarrow> None | d # s \<Rightarrow> sh_tokens (Some (sh_cur cur @ [d])) False s)
      else if c = 32 then map_option (append (sh_flush cur)) (sh_tokens None False s)
      else if c = 59 then map_option (\<lambda>ts. sh_flush cur @ ShSemi # ts) (sh_tokens None False s)
      else if sh_plain c then sh_tokens (Some (sh_cur cur @ [c])) False s
      else None)"

definition sh_read :: "str \<Rightarrow> sh_token list option" where
  "sh_read s = sh_tokens None False s"

lemma sh_cur_simps [simp]: "sh_cur None = []" "sh_cur (Some w) = w"
  by (simp_all add: sh_cur_def)

lemma sh_flush_simps [simp]: "sh_flush None = []" "sh_flush (Some w) = [ShWord w]"
  by (simp_all add: sh_flush_def)

lemma sh_tokens_quoted:
  "sh_tokens (Some w) True (concat (map (\<lambda>c. if c = 39 then [39, 92, 39, 39] else [c]) v) @ 39 # s) =
     sh_tokens (Some (w @ v)) False s"
  by (induction v arbitrary: w) auto

lemma sh_tokens_shell_quote: "sh_tokens cur False (shell_quote v @ s) = sh_tokens (Some (sh_cur cur @ v)) False s"
  by (simp add: shell_quote_def sh_tokens_quoted)

text \<open>
  A quoted word reads back as itself, quotes and blanks included, whatever stands around it.
\<close>

theorem shell_quote_reads_back:
  "sh_read (shell_quote v) = Some [ShWord v]
   \<and> sh_read (shell_quote v @ 32 # rest) = map_option (Cons (ShWord v)) (sh_read rest)"
  using sh_tokens_shell_quote [of None v "[]"]
  by (cases "sh_tokens None False rest") (simp_all add: sh_read_def sh_tokens_shell_quote)

end
