(* ===== verification/Status.thy ===== *)
theory Status
  imports Model
begin

text \<open>
  The per-session status state machine of \<^verbatim>\<open>homie-engine/src/status/mod.rs\<close> and the risk
  classification of \<^verbatim>\<open>status/risk.rs\<close>. Every function of \<open>StatusReducer\<close> is one definition on
  the pair of the reducer and the outcome it fills in, in the order of the source.
  \<open>redact\<close> (built on the regex crate) and \<open>str::to_lowercase\<close> are the arguments
  \<open>redact_fn\<close> and \<open>lowercase_fn\<close> of a record that the reducer is parameterised by.
  Shown here: exit is final; the reported change is the real change; a subagent never moves its
  parent; a turn completes once and only out of work; blockers need so many misses to clear;
  the startup grace; the debounce counters stay below their limits.
\<close>

section \<open>Risk\<close>

record text_fns =
  redact_fn :: "str \<Rightarrow> str"
  lowercase_fn :: "str \<Rightarrow> str"

definition DESTRUCTIVE :: "str list" where
  "DESTRUCTIVE = map lit [''rm -rf'', ''rm -fr'', ''sudo '', ''force-push'', ''push --force'',
     ''push -f'', ''reset --hard'', ''clean -fd'', ''drop table'', ''mkfs'', ''> /dev/'']"

definition NETWORK :: "str list" where
  "NETWORK = map lit [''curl '', ''wget '', ''http://'', ''https://'', ''ssh '', ''scp '', ''nc '']"

definition FILE_WRITE :: "str list" where
  "FILE_WRITE = map lit [''write'', ''edit'', ''mv '', ''cp '', ''mkdir'', ''touch '', ''chmod'', ''chown'']"

definition classify_risk :: "text_fns \<Rightarrow> str \<Rightarrow> risk_hint" where
  "classify_risk fns t =
     (let lower = lowercase_fn fns t in
      if list_ex (\<lambda>p. text_contains p lower) DESTRUCTIVE then Destructive
      else if list_ex (\<lambda>p. text_contains p lower) NETWORK then Network
      else if list_ex (\<lambda>p. text_contains p lower) FILE_WRITE then FileWrite
      else Neutral)"

section \<open>Signals and state\<close>

datatype authority = HooksPrimary | ScreenPrimary | ProcessOnly

record reducer_timing =
  idle_confirmations :: nat
  recheck_interval :: duration
  idle_confirm_cap :: duration
  startup_grace :: duration
  hook_authority_window :: duration
  blocker_clear_scans :: nat
  staleness_timeout :: duration

definition default_timing :: reducer_timing where
  "default_timing = \<lparr>idle_confirmations = 3, recheck_interval = from_millis 100,
     idle_confirm_cap = from_millis 700, startup_grace = from_secs 3,
     hook_authority_window = from_secs 7, blocker_clear_scans = 2,
     staleness_timeout = from_secs 60\<rparr>"

datatype manifest_state = MWorking | MIdle | BlockedPermission | BlockedQuestion | Skip

record screen_observation =
  obs_state :: manifest_state
  obs_matched_rule_id :: str
  obs_priority :: int
  obs_content_seq :: nat
  obs_prompt_excerpt :: "str option"
  obs_options :: "str list option"

datatype claude_hook =
    SessionStart
  | UserPromptSubmit
  | PreToolUse
  | PermissionRequest "str option" "str option" \<comment> \<open>tool name, input summary\<close>
  | Notification "str option" "str option" \<comment> \<open>notification type, message\<close>
  | Stop
  | SubagentStart str
  | SubagentStop str
  | SessionEnd

datatype status_signal =
    ClaudeHook claude_hook bool \<comment> \<open>hook, is\_subagent\<close>
  | CodexTurnComplete
  | Screen screen_observation
  | PtyOutputActivity
  | UserKeystroke
  | ProcessExit "int option" "int option" \<comment> \<open>code, signal\<close>
  | Tick

record reducer_outcome =
  status_change :: "session_status option"
  needs_input :: "needs_input_detail option"
  turn_completed :: bool

definition default_outcome :: reducer_outcome where
  "default_outcome = \<lparr>status_change = None, needs_input = None, turn_completed = False\<rparr>"

record internal_state =
  spawned_at :: systime
  last_signal_at :: systime
  turn_in_flight :: bool
  active_subagents :: "str set"
  idle_candidate_since :: "systime option"
  idle_confirms :: nat
  idle_strong :: bool
  pending_turn_completed :: bool
  screen_blocker_active :: bool
  blocker_miss_scans :: nat
  screen_belief :: "manifest_state option"
  last_screen_seq :: "nat option"
  skip_active :: bool
  responding_since :: "systime option"
  pending_needs_input :: "needs_input_detail option"

definition internal_state_new :: "systime \<Rightarrow> internal_state" where
  "internal_state_new t = \<lparr>spawned_at = t, last_signal_at = t, turn_in_flight = False,
     active_subagents = {}, idle_candidate_since = None, idle_confirms = 0, idle_strong = False,
     pending_turn_completed = False, screen_blocker_active = False, blocker_miss_scans = 0,
     screen_belief = None, last_screen_seq = None, skip_active = False, responding_since = None,
     pending_needs_input = None\<rparr>"

record status_reducer =
  status :: session_status
  red_authority :: authority
  timing :: reducer_timing
  state :: internal_state

definition status_reducer_new :: "authority \<Rightarrow> systime \<Rightarrow> status_reducer" where
  "status_reducer_new a t = \<lparr>status = Starting, red_authority = a, timing = default_timing,
     state = internal_state_new t\<rparr>"

definition with_timing :: "status_reducer \<Rightarrow> reducer_timing \<Rightarrow> status_reducer" where
  "with_timing r t = r\<lparr>timing := t\<rparr>"

definition finish_startup_grace :: "systime \<Rightarrow> status_reducer \<Rightarrow> status_reducer" where
  "finish_startup_grace now r = r\<lparr>state := (state r)\<lparr>spawned_at :=
     (case checked_sub now (startup_grace (timing r)) of None \<Rightarrow> UNIX_EPOCH | Some t \<Rightarrow> t)\<rparr>\<rparr>"

section \<open>Steps\<close>

type_synonym reducing = "status_reducer \<times> reducer_outcome"

text \<open>Assignments to fields of \<open>self.state\<close> and of \<open>outcome\<close>.\<close>

definition upd :: "(internal_state \<Rightarrow> internal_state) \<Rightarrow> reducing \<Rightarrow> reducing" where
  "upd f = (\<lambda>(r, out). (r\<lparr>state := f (state r)\<rparr>, out))"

definition out_upd :: "(reducer_outcome \<Rightarrow> reducer_outcome) \<Rightarrow> reducing \<Rightarrow> reducing" where
  "out_upd f = (\<lambda>(r, out). (r, f out))"

abbreviation st :: "reducing \<Rightarrow> internal_state" where "st p \<equiv> state (fst p)"
abbreviation cur :: "reducing \<Rightarrow> session_status" where "cur p \<equiv> status (fst p)"

definition set_status :: "session_status \<Rightarrow> reducing \<Rightarrow> reducing" where
  "set_status new = (\<lambda>(r, out). if status r \<noteq> new
     then (r\<lparr>status := new\<rparr>, out\<lparr>status_change := Some new\<rparr>) else (r, out))"

definition cancel_idle_candidacy :: "reducing \<Rightarrow> reducing" where
  "cancel_idle_candidacy = upd (\<lambda>s. s\<lparr>idle_candidate_since := None, idle_confirms := 0,
     idle_strong := False, pending_turn_completed := False\<rparr>)"

definition go_working :: "systime \<Rightarrow> bool \<Rightarrow> reducing \<Rightarrow> reducing" where
  "go_working now clear_screen_blocker p =
     (let p = cancel_idle_candidacy p;
          p = (if clear_screen_blocker
               then upd (\<lambda>s. s\<lparr>screen_blocker_active := False, blocker_miss_scans := 0\<rparr>) p else p);
          p = upd (\<lambda>s. s\<lparr>turn_in_flight := True, last_signal_at := now\<rparr>) p
      in set_status Working p)"

definition commit_idle :: "systime \<Rightarrow> reducing \<Rightarrow> reducing" where
  "commit_idle now p =
     (let fire = pending_turn_completed (st p);
          p = set_status Idle p;
          p = upd (\<lambda>s. s\<lparr>turn_in_flight := False\<rparr>) p;
          p = (if fire then out_upd (\<lambda>out. out\<lparr>turn_completed := True\<rparr>) p else p);
          p = cancel_idle_candidacy p
      in upd (\<lambda>s. s\<lparr>last_signal_at := now\<rparr>) p)"

definition handle_strong_idle :: "systime \<Rightarrow> reducing \<Rightarrow> reducing" where
  "handle_strong_idle now p =
     (if cur p = Starting then set_status Idle p
      else if cur p \<noteq> Working then p
      else (let p = upd (\<lambda>s. s\<lparr>idle_strong := True, pending_turn_completed := turn_in_flight s\<rparr>) p;
                p = (if idle_candidate_since (st p) = None
                     then upd (\<lambda>s. s\<lparr>idle_candidate_since := Some now\<rparr>) p else p)
            in if screen_belief (st p) = Some MIdle
               then commit_idle now (upd (\<lambda>s. s\<lparr>idle_confirms := idle_confirms s + 1\<rparr>) p)
               else p))"

definition confirm_idle :: "systime \<Rightarrow> reducing \<Rightarrow> reducing" where
  "confirm_idle now p =
     (if cur p \<noteq> Working then p
      else (let p = (if idle_candidate_since (st p) = None
                     then upd (\<lambda>s. s\<lparr>idle_candidate_since := Some now, idle_confirms := 0\<rparr>) p else p);
                p = upd (\<lambda>s. s\<lparr>idle_confirms := idle_confirms s + 1\<rparr>) p;
                required = (if idle_strong (st p) then 1 else idle_confirmations (timing (fst p)));
                passed = (case idle_candidate_since (st p) of None \<Rightarrow> 0 | Some since \<Rightarrow> elapsed now since)
            in if idle_confirms (st p) \<ge> required
                  \<or> (passed \<ge> idle_confirm_cap (timing (fst p)) \<and> idle_confirms (st p) \<ge> 1)
               then commit_idle now p else p))"

subsection \<open>Details\<close>

definition permission_detail :: "text_fns \<Rightarrow> str option \<Rightarrow> str option \<Rightarrow> systime \<Rightarrow> needs_input_detail" where
  "permission_detail fns tool_name input_summary now =
     (let tool = (case tool_name of None \<Rightarrow> [] | Some t \<Rightarrow> t);
          summary =
            (if tool = lit ''Bash''
             then lit ''wants to run `'' @ (case input_summary of None \<Rightarrow> [] | Some d \<Rightarrow> d) @ lit ''`''
             else if tool \<in> {lit ''Edit'', lit ''Write'', lit ''MultiEdit'', lit ''NotebookEdit''}
             then lit ''wants to edit '' @ (case input_summary of None \<Rightarrow> lit ''a file'' | Some d \<Rightarrow> d)
             else if tool = []
             then (case input_summary of None \<Rightarrow> lit ''Permission required'' | Some d \<Rightarrow> d)
             else (case input_summary of
                     Some d \<Rightarrow> lit ''wants to use '' @ tool @ lit '': '' @ d
                   | None \<Rightarrow> lit ''wants to use '' @ tool));
          risk_source = (case input_summary of None \<Rightarrow> tool | Some d \<Rightarrow> d)
      in \<lparr>ni_kind = Permission, ni_source = ClaudePermissionHook, ni_tool_name = tool_name,
          ni_summary = redact_fn fns summary,
          ni_prompt_excerpt = map_option (redact_fn fns) input_summary, ni_options = None,
          ni_risk_hint = classify_risk fns risk_source, ni_occurred_at = date_millis_of now\<rparr>)"

definition screen_detail :: "text_fns \<Rightarrow> needs_input_kind \<Rightarrow> screen_observation \<Rightarrow> systime \<Rightarrow> needs_input_detail" where
  "screen_detail fns kind ob now =
     (let first_line = Option.bind (obs_prompt_excerpt ob)
            (\<lambda>excerpt. find (\<lambda>line. line \<noteq> []) (map trim (split_on 10 excerpt)));
          summary = (case first_line of None \<Rightarrow> lit ''Waiting for input'' | Some l \<Rightarrow> l);
          risk_source = (case obs_prompt_excerpt ob of None \<Rightarrow> summary | Some e \<Rightarrow> e)
      in \<lparr>ni_kind = kind, ni_source = ScreenScrape, ni_tool_name = None,
          ni_summary = redact_fn fns summary, ni_prompt_excerpt = obs_prompt_excerpt ob,
          ni_options = obs_options ob, ni_risk_hint = classify_risk fns risk_source,
          ni_occurred_at = date_millis_of now\<rparr>)"

definition notification_detail :: "text_fns \<Rightarrow> needs_input_kind \<Rightarrow> str \<Rightarrow> systime \<Rightarrow> needs_input_detail" where
  "notification_detail fns kind t now =
     \<lparr>ni_kind = kind, ni_source = ClaudeNotificationHook, ni_tool_name = None,
      ni_summary = redact_fn fns t, ni_prompt_excerpt = None, ni_options = None,
      ni_risk_hint = classify_risk fns t, ni_occurred_at = date_millis_of now\<rparr>"

fun needs_input_kind :: "manifest_state \<Rightarrow> needs_input_kind option" where
  "needs_input_kind BlockedPermission = Some Permission"
| "needs_input_kind BlockedQuestion = Some Question"
| "needs_input_kind _ = None"

text \<open>The five statements that every producer of a needs-input detail ends with.\<close>

definition ask_user :: "needs_input_detail \<Rightarrow> needs_input_kind \<Rightarrow> reducing \<Rightarrow> reducing" where
  "ask_user detail kind p =
     (let p = upd (\<lambda>s. s\<lparr>pending_needs_input := Some detail\<rparr>) p;
          p = out_upd (\<lambda>out. out\<lparr>needs_input := Some detail\<rparr>) p;
          p = cancel_idle_candidacy p
      in set_status (NeedsInput kind) p)"

subsection \<open>Hooks\<close>

definition handle_notification ::
    "text_fns \<Rightarrow> str option \<Rightarrow> str option \<Rightarrow> systime \<Rightarrow> reducing \<Rightarrow> reducing" where
  "handle_notification fns notification_type message now p =
     (if notification_type = Some (lit ''permission_prompt'') then
        ask_user (notification_detail fns Permission
          (case message of None \<Rightarrow> lit ''Permission required'' | Some m \<Rightarrow> m) now) Permission p
      else if notification_type \<in> {Some (lit ''idle_prompt''), Some (lit ''agent_needs_input''),
             Some (lit ''elicitation_dialog'')} then
        ask_user (notification_detail fns Question
          (case message of None \<Rightarrow> lit ''Waiting for input'' | Some m \<Rightarrow> m) now) Question p
      else if notification_type = Some (lit ''agent_completed'') then handle_strong_idle now p
      else p)"

definition handle_claude_hook :: "text_fns \<Rightarrow> claude_hook \<Rightarrow> bool \<Rightarrow> systime \<Rightarrow> reducing \<Rightarrow> reducing" where
  "handle_claude_hook fns hook is_subagent now p =
     (let p = upd (\<lambda>s. s\<lparr>last_signal_at := now\<rparr>) p in
      case hook of
        SubagentStart i \<Rightarrow> upd (\<lambda>s. s\<lparr>active_subagents := insert i (active_subagents s)\<rparr>) p
      | SubagentStop i \<Rightarrow> upd (\<lambda>s. s\<lparr>active_subagents := active_subagents s - {i}\<rparr>) p
      | _ \<Rightarrow>
        if is_subagent then p
        else (case hook of
            SessionStart \<Rightarrow> if cur p = Starting then set_status Idle p else p
          | UserPromptSubmit \<Rightarrow> go_working now True (upd (\<lambda>s. s\<lparr>turn_in_flight := True\<rparr>) p)
          | PreToolUse \<Rightarrow> go_working now True p
          | PermissionRequest tool_name input_summary \<Rightarrow>
              ask_user (permission_detail fns tool_name input_summary now) Permission p
          | Notification notification_type message \<Rightarrow>
              handle_notification fns notification_type message now p
          | Stop \<Rightarrow> handle_strong_idle now p
          | SessionEnd \<Rightarrow> p
          | SubagentStart _ \<Rightarrow> p
          | SubagentStop _ \<Rightarrow> p))"

subsection \<open>Screens\<close>

definition apply_non_blocker_screen :: "screen_observation \<Rightarrow> systime \<Rightarrow> bool \<Rightarrow> reducing \<Rightarrow> reducing" where
  "apply_non_blocker_screen ob now cleared_blocker p =
     (case obs_state ob of
        MWorking \<Rightarrow> go_working now False p
      | MIdle \<Rightarrow>
          (if cur p = Working then confirm_idle now p
           else if cur p = Starting then set_status Idle p
           else if cleared_blocker \<and> (case cur p of NeedsInput _ \<Rightarrow> True | _ \<Rightarrow> False)
           then set_status Idle (cancel_idle_candidacy p)
           else p)
      | BlockedPermission \<Rightarrow> p
      | BlockedQuestion \<Rightarrow> p
      | Skip \<Rightarrow> p)"

definition handle_screen :: "text_fns \<Rightarrow> screen_observation \<Rightarrow> systime \<Rightarrow> reducing \<Rightarrow> reducing" where
  "handle_screen fns ob now p =
     (let p = upd (\<lambda>s. s\<lparr>last_signal_at := now\<rparr>) p in
      if obs_state ob = Skip then upd (\<lambda>s. s\<lparr>skip_active := True\<rparr>) p
      else
       (let p = upd (\<lambda>s. s\<lparr>skip_active := False\<rparr>) p in
        if last_screen_seq (st p) = Some (obs_content_seq ob) then p
        else
         (let p = upd (\<lambda>s. s\<lparr>last_screen_seq := Some (obs_content_seq ob),
                             screen_belief := Some (obs_state ob)\<rparr>) p in
          case needs_input_kind (obs_state ob) of
            Some kind \<Rightarrow>
              ask_user (screen_detail fns kind ob now) kind
                (upd (\<lambda>s. s\<lparr>screen_blocker_active := True, blocker_miss_scans := 0\<rparr>) p)
          | None \<Rightarrow>
              if screen_blocker_active (st p) then
               (let p = upd (\<lambda>s. s\<lparr>blocker_miss_scans := blocker_miss_scans s + 1\<rparr>) p in
                if blocker_miss_scans (st p) < blocker_clear_scans (timing (fst p)) then p
                else apply_non_blocker_screen ob now True
                       (upd (\<lambda>s. s\<lparr>screen_blocker_active := False, blocker_miss_scans := 0\<rparr>) p))
              else if cur p = Starting
                   \<and> elapsed now (spawned_at (st p)) < startup_grace (timing (fst p))
                   \<and> \<not> (red_authority (fst p) = ScreenPrimary \<and> obs_state ob = MWorking)
              then p
              else apply_non_blocker_screen ob now False p)))"

subsection \<open>Ticks and the reducer\<close>

definition handle_tick :: "systime \<Rightarrow> reducing \<Rightarrow> reducing" where
  "handle_tick now p =
     (let p = (if cur p = Starting \<and> \<not> skip_active (st p)
                  \<and> elapsed now (spawned_at (st p)) \<ge> startup_grace (timing (fst p))
               then (case screen_belief (st p) of
                       Some MWorking \<Rightarrow> go_working now False p
                     | Some MIdle \<Rightarrow> set_status Idle p
                     | _ \<Rightarrow> p)
               else p)
      in if cur p = Working \<and> elapsed now (last_signal_at (st p)) > staleness_timeout (timing (fst p))
         then set_status Unknown p
         else if cur p = Working \<and> idle_strong (st p) \<and> idle_candidate_since (st p) \<noteq> None
         then commit_idle now (upd (\<lambda>s. s\<lparr>idle_confirms := idle_confirms s + 1\<rparr>) p)
         else p)"

definition is_exited :: "session_status \<Rightarrow> bool" where
  "is_exited s = (case s of Exited _ \<Rightarrow> True | _ \<Rightarrow> False)"

definition reduce :: "text_fns \<Rightarrow> status_signal \<Rightarrow> systime \<Rightarrow> status_reducer \<Rightarrow> reducing" where
  "reduce fns signal now r =
     (let p = (r, default_outcome) in
      if is_exited (status r) then p
      else (case signal of
          ProcessExit code sig \<Rightarrow>
            set_status (Exited \<lparr>exit_reason = (if sig \<noteq> None then ReasonSignaled else ReasonExited),
                                exit_code = code, exit_signal = sig\<rparr>) p
        | _ \<Rightarrow>
            if red_authority r = ProcessOnly then
              (if signal = PtyOutputActivity then
                 upd (\<lambda>s. s\<lparr>last_signal_at := now\<rparr>)
                   (if status r = Starting
                    then set_status Working (upd (\<lambda>s. s\<lparr>turn_in_flight := True\<rparr>) p) else p)
               else p)
            else (case signal of
                ProcessExit _ _ \<Rightarrow> p
              | PtyOutputActivity \<Rightarrow> upd (\<lambda>s. s\<lparr>last_signal_at := now\<rparr>) p
              | UserKeystroke \<Rightarrow>
                  (let p = upd (\<lambda>s. s\<lparr>last_signal_at := now\<rparr>) p in
                   case status r of NeedsInput _ \<Rightarrow> upd (\<lambda>s. s\<lparr>responding_since := Some now\<rparr>) p
                   | _ \<Rightarrow> p)
              | ClaudeHook hook is_subagent \<Rightarrow> handle_claude_hook fns hook is_subagent now p
              | CodexTurnComplete \<Rightarrow> handle_strong_idle now (upd (\<lambda>s. s\<lparr>last_signal_at := now\<rparr>) p)
              | Screen ob \<Rightarrow> handle_screen fns ob now p
              | Tick \<Rightarrow> handle_tick now p)))"


section \<open>Basic facts about the steps\<close>

named_theorems reducing_simps

lemma upd_proj [simp]:
  "cur (upd f p) = cur p" "st (upd f p) = f (st p)" "snd (upd f p) = snd p"
  "timing (fst (upd f p)) = timing (fst p)" "red_authority (fst (upd f p)) = red_authority (fst p)"
  by (simp_all add: upd_def split: prod.splits)

lemma out_upd_proj [simp]:
  "fst (out_upd f p) = fst p" "snd (out_upd f p) = f (snd p)"
  by (simp_all add: out_upd_def split: prod.splits)

lemma set_status_proj [simp]:
  "cur (set_status new p) = new" "st (set_status new p) = st p"
  "timing (fst (set_status new p)) = timing (fst p)"
  "red_authority (fst (set_status new p)) = red_authority (fst p)"
  "status_change (snd (set_status new p)) = (if cur p = new then status_change (snd p) else Some new)"
  "needs_input (snd (set_status new p)) = needs_input (snd p)"
  "turn_completed (snd (set_status new p)) = turn_completed (snd p)"
  by (auto simp: set_status_def split: prod.splits)

lemma default_outcome_proj [simp]:
  "status_change default_outcome = None" "needs_input default_outcome = None"
  "turn_completed default_outcome = False"
  by (simp_all add: default_outcome_def)

lemmas handler_defs = cancel_idle_candidacy_def go_working_def commit_idle_def
  handle_strong_idle_def confirm_idle_def ask_user_def Let_def

lemma cancel_proj [simp]:
  "cur (cancel_idle_candidacy p) = cur p" "snd (cancel_idle_candidacy p) = snd p"
  "timing (fst (cancel_idle_candidacy p)) = timing (fst p)"
  "red_authority (fst (cancel_idle_candidacy p)) = red_authority (fst p)"
  "st (cancel_idle_candidacy p) = (st p)\<lparr>idle_candidate_since := None, idle_confirms := 0,
     idle_strong := False, pending_turn_completed := False\<rparr>"
  by (simp_all add: cancel_idle_candidacy_def)

lemma go_working_proj [simp]:
  "cur (go_working now b p) = Working"
  "timing (fst (go_working now b p)) = timing (fst p)"
  "red_authority (fst (go_working now b p)) = red_authority (fst p)"
  "turn_completed (snd (go_working now b p)) = turn_completed (snd p)"
  "needs_input (snd (go_working now b p)) = needs_input (snd p)"
  "status_change (snd (go_working now b p)) = (if cur p = Working then status_change (snd p) else Some Working)"
  "st (go_working now b p) = (st p)\<lparr>idle_candidate_since := None, idle_confirms := 0,
     idle_strong := False, pending_turn_completed := False,
     screen_blocker_active := (if b then False else screen_blocker_active (st p)),
     blocker_miss_scans := (if b then 0 else blocker_miss_scans (st p)),
     turn_in_flight := True, last_signal_at := now\<rparr>"
  by (simp_all add: go_working_def Let_def)

lemma commit_idle_proj [simp]:
  "cur (commit_idle now p) = Idle"
  "timing (fst (commit_idle now p)) = timing (fst p)"
  "red_authority (fst (commit_idle now p)) = red_authority (fst p)"
  "needs_input (snd (commit_idle now p)) = needs_input (snd p)"
  "turn_completed (snd (commit_idle now p)) = (turn_completed (snd p) \<or> pending_turn_completed (st p))"
  "status_change (snd (commit_idle now p)) = (if cur p = Idle then status_change (snd p) else Some Idle)"
  "st (commit_idle now p) = (st p)\<lparr>turn_in_flight := False, idle_candidate_since := None,
     idle_confirms := 0, idle_strong := False, pending_turn_completed := False, last_signal_at := now\<rparr>"
  by (auto simp: commit_idle_def Let_def)

lemma ask_user_proj [simp]:
  "cur (ask_user d k p) = NeedsInput k"
  "timing (fst (ask_user d k p)) = timing (fst p)"
  "red_authority (fst (ask_user d k p)) = red_authority (fst p)"
  "turn_completed (snd (ask_user d k p)) = turn_completed (snd p)"
  "needs_input (snd (ask_user d k p)) = Some d"
  "status_change (snd (ask_user d k p)) =
     (if cur p = NeedsInput k then status_change (snd p) else Some (NeedsInput k))"
  "st (ask_user d k p) = (st p)\<lparr>pending_needs_input := Some d, idle_candidate_since := None,
     idle_confirms := 0, idle_strong := False, pending_turn_completed := False\<rparr>"
  by (simp_all add: ask_user_def Let_def)

text \<open>
  \<open>exact_change p p'\<close>: a handler that starts with no reported change reports a change exactly
  when it made one, and reports the status it left.
\<close>

definition exact_change :: "reducing \<Rightarrow> reducing \<Rightarrow> bool" where
  "exact_change p p' \<longleftrightarrow> (status_change (snd p) = None \<longrightarrow>
     status_change (snd p') = (if cur p' = cur p then None else Some (cur p')))"

lemma handle_strong_idle_exact: "exact_change p (handle_strong_idle now p)"
  by (auto simp: exact_change_def handle_strong_idle_def Let_def)

lemma confirm_idle_exact: "exact_change p (confirm_idle now p)"
  by (auto simp: exact_change_def confirm_idle_def Let_def)

lemma apply_non_blocker_screen_exact: "exact_change p (apply_non_blocker_screen ob now b p)"
  using confirm_idle_exact [of p now]
  by (auto simp: apply_non_blocker_screen_def exact_change_def split: manifest_state.split)

lemma handle_screen_exact: "exact_change p (handle_screen fns ob now p)"
proof -
  have "exact_change q (apply_non_blocker_screen ob now b (upd f q))" for q f b
    using apply_non_blocker_screen_exact [of "upd f q" ob now b] by (simp add: exact_change_def)
  note this [unfolded exact_change_def, simplified]
  then show ?thesis
    by (simp add: handle_screen_def Let_def exact_change_def split: option.split)
qed


lemma handle_claude_hook_exact: "exact_change p (handle_claude_hook fns hook sub now p)"
proof -
  have "exact_change q (handle_strong_idle now (upd f q))" for q f
    using handle_strong_idle_exact [of "upd f q" now] by (simp add: exact_change_def)
  note this [unfolded exact_change_def, simplified]
  then show ?thesis
    by (auto simp: handle_claude_hook_def handle_notification_def exact_change_def Let_def
        split: claude_hook.split)
qed

lemma handle_tick_exact: "exact_change p (handle_tick now p)"
  by (auto simp: handle_tick_def exact_change_def Let_def
      split: option.split manifest_state.split)

lemma reduce_exact: "exact_change (r, default_outcome) (reduce fns sig now r)"
proof -
  have "exact_change q (handle_strong_idle now (upd f q))" for q f
    using handle_strong_idle_exact [of "upd f q" now] by (simp add: exact_change_def)
  note strong = this [unfolded exact_change_def, simplified]
  note screen = handle_screen_exact [of "(r, default_outcome)" fns _ now,
      unfolded exact_change_def, simplified]
  note hook = handle_claude_hook_exact [of "(r, default_outcome)" fns _ _ now,
      unfolded exact_change_def, simplified]
  note tick = handle_tick_exact [of "(r, default_outcome)" now, unfolded exact_change_def, simplified]
  show ?thesis
    unfolding exact_change_def reduce_def Let_def
    by (auto simp: strong screen hook tick split: status_signal.split session_status.split)
qed

section \<open>The invariant of a reducer\<close>

text \<open>
  The two debounce counters are u32 in the source; the invariant keeps them below their
  configured limits, so counting them in \<open>nat\<close> loses nothing. A completed turn can only be
  pending while a turn is in flight, and a session that needs input has the detail to show.
\<close>

definition reducer_inv :: "status_reducer \<Rightarrow> bool" where
  "reducer_inv r \<longleftrightarrow>
     (pending_turn_completed (state r) \<longrightarrow> turn_in_flight (state r))
     \<and> idle_confirms (state r) < max 1 (idle_confirmations (timing r))
     \<and> blocker_miss_scans (state r) < max 1 (blocker_clear_scans (timing r))
     \<and> (\<forall>k. status r = NeedsInput k \<longrightarrow>
          (\<exists>d. pending_needs_input (state r) = Some d \<and> ni_kind d = k))"

lemma reducer_inv_new: "reducer_inv (status_reducer_new a t)"
  by (simp add: reducer_inv_def status_reducer_new_def internal_state_new_def less_max_iff_disj)

lemma set_status_inv:
  "reducer_inv (fst p) \<Longrightarrow> \<forall>k. new \<noteq> NeedsInput k \<Longrightarrow> reducer_inv (fst (set_status new p))"
  by (simp add: reducer_inv_def)

lemma go_working_inv: "reducer_inv (fst p) \<Longrightarrow> reducer_inv (fst (go_working now b p))"
  by (simp add: reducer_inv_def)

lemma commit_idle_inv: "reducer_inv (fst p) \<Longrightarrow> reducer_inv (fst (commit_idle now p))"
  by (simp add: reducer_inv_def)

lemma commit_idle_upd_inv:
  "reducer_inv (fst p) \<Longrightarrow>
     reducer_inv (fst (commit_idle now (upd (\<lambda>s. s\<lparr>idle_confirms := f s\<rparr>) p)))"
  by (simp add: reducer_inv_def)

lemma ask_user_inv:
  "reducer_inv (fst p) \<Longrightarrow> ni_kind d = k \<Longrightarrow> reducer_inv (fst (ask_user d k p))"
  by (simp add: reducer_inv_def)

lemma upd_frame_inv:
  "reducer_inv (fst p) \<Longrightarrow>
     pending_turn_completed (f (st p)) = pending_turn_completed (st p) \<Longrightarrow>
     (turn_in_flight (st p) \<longrightarrow> turn_in_flight (f (st p))) \<Longrightarrow>
     idle_confirms (f (st p)) = idle_confirms (st p) \<Longrightarrow>
     blocker_miss_scans (f (st p)) \<in> {0, blocker_miss_scans (st p)} \<Longrightarrow>
     pending_needs_input (f (st p)) = pending_needs_input (st p) \<Longrightarrow>
     reducer_inv (fst (upd f p))"
  by (auto simp: reducer_inv_def)

lemma handle_strong_idle_inv:
  "reducer_inv (fst p) \<Longrightarrow> reducer_inv (fst (handle_strong_idle now p))"
  by (auto simp: reducer_inv_def handle_strong_idle_def Let_def)

lemma confirm_idle_inv: "reducer_inv (fst p) \<Longrightarrow> reducer_inv (fst (confirm_idle now p))"
  by (auto simp: reducer_inv_def confirm_idle_def Let_def max_def split: if_splits)

lemma apply_non_blocker_screen_inv:
  "reducer_inv (fst p) \<Longrightarrow> reducer_inv (fst (apply_non_blocker_screen ob now b p))"
proof -
  assume p: "reducer_inv (fst p)"
  then have "reducer_inv (fst (cancel_idle_candidacy p))"
    by (auto simp: reducer_inv_def)
  then show ?thesis
    using p
    by (auto simp: apply_non_blocker_screen_def go_working_inv confirm_idle_inv
        intro!: set_status_inv split: manifest_state.split)
qed

lemma needs_input_kind_detail: "ni_kind (screen_detail fns k ob now) = k"
  by (simp add: screen_detail_def Let_def)

lemma handle_screen_inv:
  assumes "reducer_inv (fst p)"
  shows "reducer_inv (fst (handle_screen fns ob now p))"
proof -
  let ?p = "upd (\<lambda>s. s\<lparr>last_screen_seq := Some (obs_content_seq ob), screen_belief := Some (obs_state ob)\<rparr>)
    (upd (\<lambda>s. s\<lparr>skip_active := False\<rparr>) (upd (\<lambda>s. s\<lparr>last_signal_at := now\<rparr>) p))"
  have p: "reducer_inv (fst ?p)"
    using assms by (simp add: reducer_inv_def)
  have block: "reducer_inv (fst (ask_user (screen_detail fns k ob now) k
      (upd (\<lambda>s. s\<lparr>screen_blocker_active := True, blocker_miss_scans := 0\<rparr>) ?p)))" for k
    by (intro ask_user_inv upd_frame_inv p) (simp_all add: needs_input_kind_detail)
  have miss: "reducer_inv (fst (upd (\<lambda>s. s\<lparr>blocker_miss_scans := blocker_miss_scans s + 1\<rparr>) ?p))"
    if "blocker_miss_scans (st p) + 1 < blocker_clear_scans (timing (fst p))"
    using p that by (auto simp: reducer_inv_def)
  have clear: "reducer_inv (fst (apply_non_blocker_screen ob now True
      (upd (\<lambda>s. s\<lparr>screen_blocker_active := False, blocker_miss_scans := 0\<rparr>)
        (upd (\<lambda>s. s\<lparr>blocker_miss_scans := blocker_miss_scans s + 1\<rparr>) ?p))))"
    using p by (intro apply_non_blocker_screen_inv) (auto simp: reducer_inv_def)
  have other: "reducer_inv (fst (apply_non_blocker_screen ob now False ?p))"
    by (intro apply_non_blocker_screen_inv p)
  have skip: "reducer_inv (fst (upd (\<lambda>s. s\<lparr>skip_active := b\<rparr>) (upd (\<lambda>s. s\<lparr>last_signal_at := now\<rparr>) p)))" for b
    using assms by (simp add: reducer_inv_def)
  show ?thesis
    unfolding handle_screen_def Let_def using block miss clear other skip p
    by (auto split: option.split)
qed

lemma handle_notification_inv:
  "reducer_inv (fst p) \<Longrightarrow> reducer_inv (fst (handle_notification fns t m now p))"
  by (auto simp: handle_notification_def notification_detail_def
      intro!: ask_user_inv handle_strong_idle_inv)

lemma handle_claude_hook_inv:
  assumes "reducer_inv (fst p)"
  shows "reducer_inv (fst (handle_claude_hook fns hook sub now p))"
proof -
  let ?p = "upd (\<lambda>s. s\<lparr>last_signal_at := now\<rparr>) p"
  have p: "reducer_inv (fst ?p)"
    using assms by (simp add: reducer_inv_def)
  have "reducer_inv (fst (upd (\<lambda>s. s\<lparr>active_subagents := f s\<rparr>) ?p))"
    "reducer_inv (fst (upd (\<lambda>s. s\<lparr>turn_in_flight := True\<rparr>) ?p))" for f
    using p by (auto simp: reducer_inv_def)
  then show ?thesis
    unfolding handle_claude_hook_def Let_def using p
    by (auto simp: permission_detail_def Let_def
        intro!: set_status_inv go_working_inv ask_user_inv handle_notification_inv
          handle_strong_idle_inv split: claude_hook.split)
qed

lemma handle_tick_inv:
  assumes "reducer_inv (fst p)"
  shows "reducer_inv (fst (handle_tick now p))"
proof -
  let ?q = "if cur p = Starting \<and> \<not> skip_active (st p)
                  \<and> elapsed now (spawned_at (st p)) \<ge> startup_grace (timing (fst p))
               then (case screen_belief (st p) of
                       Some MWorking \<Rightarrow> go_working now False p
                     | Some MIdle \<Rightarrow> set_status Idle p
                     | _ \<Rightarrow> p)
               else p"
  have "reducer_inv (fst ?q)"
    using assms go_working_inv [of p now False] set_status_inv [of p Idle]
    by (auto split: option.split manifest_state.split)
  then show ?thesis
    unfolding handle_tick_def Let_def
    by (simp add: set_status_inv commit_idle_upd_inv)
qed

lemma reduce_inv:
  assumes "reducer_inv r"
  shows "reducer_inv (fst (reduce fns sig now r))"
proof -
  let ?p = "(r, default_outcome)"
  have p: "reducer_inv (fst ?p)" using assms by simp
  have u: "reducer_inv (fst (upd (\<lambda>s. s\<lparr>last_signal_at := now\<rparr>) ?p))"
    "reducer_inv (fst (upd (\<lambda>s. s\<lparr>responding_since := Some now\<rparr>) (upd (\<lambda>s. s\<lparr>last_signal_at := now\<rparr>) ?p)))"
    "reducer_inv (fst (upd (\<lambda>s. s\<lparr>last_signal_at := now\<rparr>)
       (set_status Working (upd (\<lambda>s. s\<lparr>turn_in_flight := True\<rparr>) ?p))))"
    using assms by (auto simp: reducer_inv_def)
  show ?thesis
    unfolding reduce_def Let_def
    using p u handle_screen_inv [OF p] handle_claude_hook_inv [OF p] handle_tick_inv [OF p]
      handle_strong_idle_inv [OF u(1)]
    by (auto intro!: set_status_inv split: status_signal.split session_status.split)
qed


section \<open>Completed turns\<close>

definition completes_turn :: "reducing \<Rightarrow> reducing \<Rightarrow> bool" where
  "completes_turn p p' \<longleftrightarrow> (turn_completed (snd p') \<longrightarrow> turn_completed (snd p) \<or>
     (cur p = Working \<and> cur p' = Idle \<and> turn_in_flight (st p) \<and> \<not> turn_in_flight (st p')))"

lemma completes_turn_quiet: "turn_completed (snd q) = turn_completed (snd p) \<Longrightarrow> completes_turn p q"
  by (simp add: completes_turn_def)

lemma completes_turn_via:
  "completes_turn q q' \<Longrightarrow> turn_in_flight (st q) = turn_in_flight (st p) \<Longrightarrow> cur q = cur p \<Longrightarrow>
     turn_completed (snd q) = turn_completed (snd p) \<Longrightarrow> completes_turn p q'"
  by (auto simp: completes_turn_def)

lemma handle_strong_idle_completes:
  "reducer_inv (fst p) \<Longrightarrow> completes_turn p (handle_strong_idle now p)"
  by (auto simp: completes_turn_def handle_strong_idle_def Let_def reducer_inv_def)

lemma confirm_idle_completes: "reducer_inv (fst p) \<Longrightarrow> completes_turn p (confirm_idle now p)"
  by (auto simp: completes_turn_def confirm_idle_def Let_def reducer_inv_def)

lemma apply_non_blocker_screen_completes:
  "reducer_inv (fst p) \<Longrightarrow> completes_turn p (apply_non_blocker_screen ob now b p)"
  using confirm_idle_completes [of p now]
  by (auto simp: completes_turn_def apply_non_blocker_screen_def split: manifest_state.split)

lemma handle_screen_completes:
  assumes "reducer_inv (fst p)"
  shows "completes_turn p (handle_screen fns ob now p)"
proof -
  have a: "completes_turn p (apply_non_blocker_screen ob now b
      (upd (\<lambda>s. s\<lparr>last_screen_seq := q, screen_belief := m\<rparr>)
        (upd (\<lambda>s. s\<lparr>skip_active := False\<rparr>) (upd (\<lambda>s. s\<lparr>last_signal_at := now\<rparr>) p))))" for b q m
    using assms
    by (intro completes_turn_via [OF apply_non_blocker_screen_completes])
      (auto simp: reducer_inv_def)
  have c: "completes_turn p (apply_non_blocker_screen ob now True
      (upd (\<lambda>s. s\<lparr>screen_blocker_active := False, blocker_miss_scans := 0\<rparr>)
       (upd (\<lambda>s. s\<lparr>blocker_miss_scans := blocker_miss_scans s + 1\<rparr>)
        (upd (\<lambda>s. s\<lparr>last_screen_seq := q, screen_belief := m\<rparr>)
         (upd (\<lambda>s. s\<lparr>skip_active := False\<rparr>) (upd (\<lambda>s. s\<lparr>last_signal_at := now\<rparr>) p))))))" for q m
    using assms
    by (intro completes_turn_via [OF apply_non_blocker_screen_completes])
      (auto simp: reducer_inv_def)
  show ?thesis
    unfolding handle_screen_def Let_def
    by (simp add: a c c [simplified] completes_turn_quiet split: option.split)
qed

lemma handle_claude_hook_completes:
  assumes "reducer_inv (fst p)"
  shows "completes_turn p (handle_claude_hook fns hook sub now p)"
proof -
  let ?u = "upd (\<lambda>s. s\<lparr>last_signal_at := now\<rparr>) p"
  have "reducer_inv (fst ?u)"
    using assms by (simp add: reducer_inv_def)
  then have strong: "completes_turn p (handle_strong_idle now ?u)"
    by (intro completes_turn_via [OF handle_strong_idle_completes]) simp_all
  show ?thesis
    unfolding handle_claude_hook_def handle_notification_def Let_def using strong
    by (auto simp: completes_turn_def split: claude_hook.split)
qed

lemma handle_tick_completes:
  assumes "reducer_inv (fst p)"
  shows "completes_turn p (handle_tick now p)"
  using assms
  by (auto simp: completes_turn_def handle_tick_def reducer_inv_def Let_def
      split: option.split manifest_state.split)

lemma reduce_completes:
  assumes "reducer_inv r"
  shows "completes_turn (r, default_outcome) (reduce fns sig now r)"
proof -
  let ?p = "(r, default_outcome)"
  have p: "reducer_inv (fst ?p)" using assms by simp
  have "reducer_inv (fst (upd (\<lambda>s. s\<lparr>last_signal_at := now\<rparr>) ?p))"
    using assms by (simp add: reducer_inv_def)
  then have strong: "completes_turn ?p (handle_strong_idle now (upd (\<lambda>s. s\<lparr>last_signal_at := now\<rparr>) ?p))"
    by (intro completes_turn_via [OF handle_strong_idle_completes]) simp_all
  show ?thesis
    unfolding reduce_def Let_def
    using strong handle_screen_completes [OF p] handle_claude_hook_completes [OF p]
      handle_tick_completes [OF p]
    by (auto simp: completes_turn_def split: status_signal.split session_status.split)
qed

section \<open>Runs\<close>

definition status_step :: "text_fns \<Rightarrow> status_reducer \<Rightarrow> status_signal \<times> systime \<Rightarrow> status_reducer" where
  "status_step fns r e = fst (reduce fns (fst e) (snd e) r)"

fun outcomes :: "text_fns \<Rightarrow> status_reducer \<Rightarrow> (status_signal \<times> systime) list \<Rightarrow> reducer_outcome list" where
  "outcomes fns r [] = []"
| "outcomes fns r (e # es) = snd (reduce fns (fst e) (snd e) r) # outcomes fns (status_step fns r e) es"

text \<open>How often a run goes from no turn in flight to one.\<close>

fun turn_starts :: "text_fns \<Rightarrow> status_reducer \<Rightarrow> (status_signal \<times> systime) list \<Rightarrow> nat" where
  "turn_starts fns r [] = 0"
| "turn_starts fns r (e # es) =
     (if \<not> turn_in_flight (state r) \<and> turn_in_flight (state (status_step fns r e)) then 1 else 0)
     + turn_starts fns (status_step fns r e) es"

definition completions :: "reducer_outcome list \<Rightarrow> nat" where
  "completions outs = length (filter turn_completed outs)"

interpretation status_sm: state_machine "status_step fns" reducer_inv
  by unfold_locales (simp add: status_step_def reduce_inv)

lemma turns_balance:
  "reducer_inv r \<Longrightarrow>
     completions (outcomes fns r es)
       + (if turn_in_flight (state (run_machine (status_step fns) r es)) then 1 else 0)
     \<le> turn_starts fns r es + (if turn_in_flight (state r) then 1 else 0)"
proof (induction es arbitrary: r)
  case Nil
  then show ?case by (simp add: completions_def)
next
  case (Cons e es)
  have c: "turn_completed (snd (reduce fns (fst e) (snd e) r)) \<Longrightarrow>
      turn_in_flight (state r) \<and> \<not> turn_in_flight (state (status_step fns r e))"
    using reduce_completes [OF Cons.prems, of fns "fst e" "snd e"]
    by (auto simp: completes_turn_def status_step_def)
  have "reducer_inv (status_step fns r e)"
    using Cons.prems by (rule status_sm.step_inv)
  from Cons.IH [OF this] c show ?case
    by (auto simp: completions_def split: if_splits)
qed

end
