(* ===== verification/Status_Properties.thy ===== *)
theory Status_Properties
  imports Status
begin

text \<open>
  The properties of the status reducer of theory \<open>Status\<close>: what one signal does, and what
  holds along every run of signals. The runs rest on the interpretation \<open>status_sm\<close>.
\<close>

definition plain_fns :: text_fns where
  "plain_fns = \<lparr>redact_fn = id, lowercase_fn = id\<rparr>"

section \<open>One signal\<close>

text \<open>
  The outcome of reducing a signal reports a status change exactly when the canonical
  status changed, and then it reports the new status.
\<close>

theorem reported_change_is_exact:
  "status_change (snd (reduce fns sig now r)) =
     (if status (fst (reduce fns sig now r)) = status r then None
      else Some (status (fst (reduce fns sig now r))))"
  using reduce_exact [of r fns sig now] by (simp add: exact_change_def)

text \<open>
  Claim C21. Anything a subagent does leaves its parent alone: a hook that carries an agent id
  produces an empty outcome and changes nothing of the parent's reducer except the time of the
  last signal and the set of running subagents.
\<close>

theorem subagent_isolation:
  "let res = reduce fns (ClaudeHook hook True) now r in
   snd res = default_outcome \<and> status (fst res) = status r
    \<and> state (fst res) = (state r)\<lparr>last_signal_at := last_signal_at (state (fst res)),
         active_subagents := active_subagents (state (fst res))\<rparr>"
proof (cases "is_exited (status r) \<or> red_authority r = ProcessOnly")
  case True
  then show ?thesis
    by (auto simp: reduce_def Let_def)
next
  case False
  then show ?thesis
    by (cases hook) (auto simp: reduce_def handle_claude_hook_def Let_def)
qed

text \<open>
  A turn is reported complete only by a committed step from working to idle, and only
  when a turn was in flight, which it no longer is afterwards.
\<close>

theorem turn_completes_out_of_work:
  assumes "reducer_inv r" "turn_completed (snd (reduce fns sig now r))"
  shows "status r = Working \<and> turn_in_flight (state r)
    \<and> status (fst (reduce fns sig now r)) = Idle
    \<and> \<not> turn_in_flight (state (fst (reduce fns sig now r)))"
  using reduce_completes [OF assms(1), of fns sig now] assms(2) by (simp add: completes_turn_def)


definition working_reducer :: status_reducer where
  "working_reducer = fst (reduce plain_fns (ClaudeHook UserPromptSubmit False) 0
     (status_reducer_new HooksPrimary 0))"

definition stopping_reducer :: status_reducer where
  "stopping_reducer = fst (reduce plain_fns (ClaudeHook Stop False) 1 working_reducer)"

lemmas reducer_examples = working_reducer_def stopping_reducer_def status_reducer_new_def
  internal_state_new_def default_timing_def default_outcome_def reduce_def handle_claude_hook_def
  handle_strong_idle_def handle_tick_def go_working_def commit_idle_def cancel_idle_candidacy_def
  set_status_def upd_def out_upd_def is_exited_def Let_def elapsed_def from_secs_def from_millis_def

lemma working_reducer_inv: "reducer_inv working_reducer"
  unfolding working_reducer_def by (intro reduce_inv reducer_inv_new)

lemma stopping_reducer_inv: "reducer_inv stopping_reducer"
  unfolding stopping_reducer_def by (intro reduce_inv working_reducer_inv)

lemma stopping_reducer_completes: "turn_completed (snd (reduce plain_fns Tick 2 stopping_reducer))"
  by (simp add: reducer_examples)

theorem turn_completes_out_of_work_witness:
  "status stopping_reducer = Working \<and> turn_in_flight (state stopping_reducer)
    \<and> status (fst (reduce plain_fns Tick 2 stopping_reducer)) = Idle
    \<and> \<not> turn_in_flight (state (fst (reduce plain_fns Tick 2 stopping_reducer)))"
  by (rule turn_completes_out_of_work [OF stopping_reducer_inv stopping_reducer_completes])

section \<open>Runs of signals\<close>

lemma exited_absorbing: "is_exited (status r) \<Longrightarrow> run_machine (status_step fns) r es = r"
proof (induction es)
  case (Cons e es)
  have "status_step fns r e = r"
    using Cons.prems by (simp add: status_step_def reduce_def)
  then show ?case using Cons by simp
qed simp

lemma not_exit_not_exited:
  assumes "\<not> is_exited (status r)" "\<forall>c s. sig \<noteq> ProcessExit c s"
  shows "\<not> is_exited (status (fst (reduce fns sig now r)))"
proof -
  have strong: "\<not> is_exited (cur p) \<Longrightarrow> \<not> is_exited (cur (handle_strong_idle now p))" for p
    by (auto simp: handle_strong_idle_def is_exited_def Let_def)
  have confirm: "\<not> is_exited (cur p) \<Longrightarrow> \<not> is_exited (cur (confirm_idle now p))" for p
    by (auto simp: confirm_idle_def is_exited_def Let_def)
  have plain: "\<not> is_exited Idle" "\<not> is_exited Working" "\<not> is_exited Starting" "\<not> is_exited Unknown"
    "\<not> is_exited (NeedsInput k)" for k
    by (simp_all add: is_exited_def)
  have nbs: "\<not> is_exited (cur p) \<Longrightarrow> \<not> is_exited (cur (apply_non_blocker_screen ob now b p))" for ob b p
    using confirm [of p] plain
    by (auto simp: apply_non_blocker_screen_def split: manifest_state.split)
  have screen: "\<not> is_exited (cur p) \<Longrightarrow> \<not> is_exited (cur (handle_screen fns ob now p))" for ob p
    by (auto simp: handle_screen_def plain Let_def split: option.split intro!: nbs)
  have hook: "\<not> is_exited (cur p) \<Longrightarrow> \<not> is_exited (cur (handle_claude_hook fns h sub now p))" for h sub p
    by (simp add: handle_claude_hook_def handle_notification_def strong plain Let_def split: claude_hook.split)
  have tick: "\<not> is_exited (cur p) \<Longrightarrow> \<not> is_exited (cur (handle_tick now p))" for p
    by (auto simp: handle_tick_def plain Let_def split: option.split manifest_state.split)
  show ?thesis
    using assms by (auto simp: reduce_def strong screen hook tick plain Let_def
        split: status_signal.split session_status.split)
qed

text \<open>
  Claim C7. Exit is final and authoritative. Whatever the authority of the session, the first
  process exit of a run decides the status for good: signals before it cannot prevent it and
  signals after it, further exits included, change nothing.
\<close>

theorem exit_is_final:
  assumes "\<not> is_exited (status r)" "\<forall>(sig, t) \<in> set before. \<forall>c s. sig \<noteq> ProcessExit c s"
  shows "status (run_machine (status_step fns) r (before @ (ProcessExit code sig, now) # after))
    = Exited \<lparr>exit_reason = (if sig \<noteq> None then ReasonSignaled else ReasonExited),
              exit_code = code, exit_signal = sig\<rparr>"
proof -
  let ?r = "run_machine (status_step fns) r before"
  let ?e = "Exited \<lparr>exit_reason = (if sig \<noteq> None then ReasonSignaled else ReasonExited),
              exit_code = code, exit_signal = sig\<rparr>"
  have "\<not> is_exited (status ?r)"
    using assms
  proof (induction before arbitrary: r)
    case (Cons e es)
    then have "\<not> is_exited (status (status_step fns r e))"
      using not_exit_not_exited [of r "fst e" fns "snd e"] by (auto simp: status_step_def)
    then show ?case using Cons by simp
  qed simp
  then have s: "status (status_step fns ?r (ProcessExit code sig, now)) = ?e"
    by (simp add: status_step_def reduce_def Let_def)
  then have "is_exited (status (status_step fns ?r (ProcessExit code sig, now)))"
    by (simp add: is_exited_def)
  then show ?thesis
    using exited_absorbing s by simp
qed

theorem exit_is_final_witness:
  "status (run_machine (status_step plain_fns) (status_reducer_new HooksPrimary 0)
     ([(Tick, 5)] @ (ProcessExit (Some 1) None, 6) # [(ProcessExit None (Some 9), 7), (PtyOutputActivity, 8)]))
    = Exited \<lparr>exit_reason = (if (None :: int option) \<noteq> None then ReasonSignaled else ReasonExited),
              exit_code = Some 1, exit_signal = None\<rparr>"
  by (rule exit_is_final) (simp_all add: status_reducer_new_def is_exited_def)

text \<open>
  Claim C23. No turn is completed twice: along every run from a new reducer, the number of
  turn-completed outcomes is at most the number of turns that started.
\<close>

theorem turns_complete_once:
  "completions (outcomes fns (status_reducer_new a t0) es) \<le> turn_starts fns (status_reducer_new a t0) es"
  using turns_balance [OF reducer_inv_new, of fns a t0 es]
  by (simp add: status_reducer_new_def internal_state_new_def)

text \<open>
  Along every run from a new reducer the debounce counters stay below their limits (so
  their u32 additions never overflow), a completed turn is pending only while one is in flight,
  and a session that needs input always has the detail of the matching kind.
\<close>

theorem reducer_invariant:
  "reducer_inv (run_machine (status_step fns) (status_reducer_new a t0) es)"
  by (rule status_sm.run_inv [OF reducer_inv_new])

text \<open>
  An agent without a status model is only ever starting, working or exited: along every
  run from a new process-only reducer the status is exited exactly when an exit was among the
  signals, and otherwise working exactly when there was output.
\<close>

theorem process_only_statuses:
  "let s = status (run_machine (status_step fns) (status_reducer_new ProcessOnly t0) es) in
   (if \<exists>c g t. (ProcessExit c g, t) \<in> set es then is_exited s
    else s = (if \<exists>t. (PtyOutputActivity, t) \<in> set es then Working else Starting))"
proof -
  have step: "status (status_step fns r e) =
      (case fst e of ProcessExit c g \<Rightarrow> Exited \<lparr>exit_reason = (if g \<noteq> None then ReasonSignaled else ReasonExited),
              exit_code = c, exit_signal = g\<rparr>
       | PtyOutputActivity \<Rightarrow> Working | _ \<Rightarrow> status r) \<and> red_authority (status_step fns r e) = ProcessOnly"
    if "red_authority r = ProcessOnly" "status r = Starting \<or> status r = Working" for r e
    using that by (cases "fst e") (auto simp: status_step_def reduce_def is_exited_def Let_def)
  have "red_authority r = ProcessOnly \<Longrightarrow> status r = Starting \<or> status r = Working \<Longrightarrow>
      (let s = status (run_machine (status_step fns) r es) in
       (if \<exists>c g t. (ProcessExit c g, t) \<in> set es then is_exited s
        else s = (if \<exists>t. (PtyOutputActivity, t) \<in> set es then Working else status r)))" for r
  proof (induction es arbitrary: r)
    case (Cons e es)
    note st1 = step [OF Cons.prems, of e]
    show ?case
    proof (cases "fst e")
      case (ProcessExit c g)
      then have "is_exited (status (status_step fns r e))"
        using st1 by (simp add: is_exited_def)
      then show ?thesis
        using ProcessExit by (cases e) (auto simp: exited_absorbing Let_def)
    next
      case PtyOutputActivity
      then show ?thesis
        using st1 Cons.IH [of "status_step fns r e"] by (cases e) (auto simp: Let_def)
    qed (use st1 Cons.IH [of "status_step fns r e"] Cons.prems(2) in \<open>cases e; auto simp: Let_def\<close>)+
  qed (simp add: Let_def)
  from this [of "status_reducer_new ProcessOnly t0"] show ?thesis
    by (simp add: status_reducer_new_def Let_def cong: if_cong split del: if_split)
qed

end
