(* ===== verification/Agent.thy ===== *)
theory Agent
  imports Shell_Quote Status
begin

text \<open>
  How agents are started (\<^verbatim>\<open>homie-engine/src/agent.rs\<close>): the descriptor a manifest carries, the arguments and
  the environment of a local or remote launch, and the arguments that resume a conversation. Which
  files can be run is a parameter, as is the daemon's own search path. Shown: which variables an agent
  gets, and that the command given to a login shell is read as the agent's argument vector followed
  by a fresh shell.
\<close>

section \<open>Descriptors\<close>

datatype status_authority = AuthorityHooks | AuthorityScreen | AuthorityProcess

fun authority_of :: "status_authority \<Rightarrow> authority" where
  "authority_of AuthorityHooks = HooksPrimary"
| "authority_of AuthorityScreen = ScreenPrimary"
| "authority_of AuthorityProcess = ProcessOnly"

record resume_spec =
  resume_style :: str
  resume_token :: "str option"

record injection_spec =
  inj_claude_hooks :: bool
  inj_claude_mcp :: bool
  inj_codex_notify :: bool
  inj_codex_mcp :: bool
  inj_codex_gateway :: bool

record approve_spec =
  approve_text :: "str option"
  approve_submit :: bool

text \<open>\<open>ad_env\<close> is a BTreeMap: its entries in the order of their keys.\<close>

record agent_descriptor =
  ad_display_name :: "str option"
  ad_short_label :: "str option"
  ad_aliases :: "str list"
  ad_first_class :: bool
  ad_status_authority :: "status_authority option"
  ad_binary :: "str option"
  ad_return_to_login_shell :: bool
  ad_session_id_flag :: "str option"
  ad_spawn_args :: "str list"
  ad_injection :: injection_spec
  ad_resume :: "resume_spec option"
  ad_env :: "(str \<times> str) list"
  ad_env_scrub_prefixes :: "str list"
  ad_approve :: "approve_spec option"

definition descriptor_authority :: "agent_descriptor \<Rightarrow> authority" where
  "descriptor_authority d = (case ad_status_authority d of None \<Rightarrow> ProcessOnly | Some a \<Rightarrow> authority_of a)"

section \<open>Launching\<close>

record pty_spec =
  ps_argv :: "str list"
  ps_env :: "(str \<times> str) list"
  ps_cwd :: str
  ps_cols :: u16
  ps_rows :: u16

definition pty_spec_new :: "str list \<Rightarrow> str \<Rightarrow> pty_spec" where
  "pty_spec_new argv cwd = \<lparr>ps_argv = argv, ps_env = [], ps_cwd = cwd, ps_cols = 80, ps_rows = 24\<rparr>"

definition should_scrub :: "agent_descriptor \<Rightarrow> str \<Rightarrow> bool" where
  "should_scrub d key \<longleftrightarrow> list_ex (starts_with key) (ad_env_scrub_prefixes d)"

text \<open>\<open>Path::join\<close>.\<close>

definition path_join :: "str \<Rightarrow> str \<Rightarrow> str" where
  "path_join dir p =
     (if path_is_absolute p then p
      else if dir = [] \<or> last dir = 47 then dir @ p
      else dir @ [47] @ p)"

definition resolve_on_path :: "(str \<Rightarrow> bool) \<Rightarrow> str \<Rightarrow> str \<Rightarrow> str option" where
  "resolve_on_path executable binary path =
     find executable (map (\<lambda>dir. path_join dir binary) (filter (\<lambda>dir. dir \<noteq> []) (split_on 58 path)))"

fun join_blank :: "str list \<Rightarrow> str" where
  "join_blank [] = []"
| "join_blank [w] = w"
| "join_blank (w # ws) = w @ 32 # join_blank ws"

text \<open>The environment of both kinds of launch: scrubbed, colours asserted, then the manifest's own variables.\<close>

definition put_own :: "str \<times> str \<Rightarrow> (str \<times> str) list \<Rightarrow> (str \<times> str) list" where
  "put_own kv env = filter (\<lambda>e. fst e \<noteq> fst kv) env @ [kv]"

definition launch_env :: "agent_descriptor \<Rightarrow> (str \<times> str) list \<Rightarrow> (str \<times> str) list" where
  "launch_env d inherited =
     (let env = filter (\<lambda>e. \<not> should_scrub d (fst e)) inherited;
          env = filter (\<lambda>e. fst e \<noteq> lit ''NO_COLOR'') env;
          env = filter (\<lambda>e. fst e \<noteq> lit ''TERM'' \<and> fst e \<noteq> lit ''COLORTERM'') env;
          env = env @ [(lit ''TERM'', lit ''xterm-256color''), (lit ''COLORTERM'', lit ''truecolor'')]
      in fold put_own (ad_env d) env)"

definition login_shell :: "(str \<times> str) list \<Rightarrow> str" where
  "login_shell env =
     (case find (\<lambda>e. fst e = lit ''SHELL'' \<and> snd e \<noteq> []) (rev env) of Some e \<Rightarrow> snd e | None \<Rightarrow> lit ''/bin/sh'')"

definition login_command :: "str list \<Rightarrow> str \<Rightarrow> str" where
  "login_command argv sh = join_blank (map shell_quote argv) @ lit ''; exec '' @ shell_quote sh @ lit '' -i -l''"

definition spawn_spec :: "(str \<Rightarrow> bool) \<Rightarrow> str option \<Rightarrow> agent_descriptor \<Rightarrow> str \<Rightarrow> (str \<times> str) list \<Rightarrow> str list
    \<Rightarrow> pty_spec option" where
  "spawn_spec executable daemon_path d cwd inherited extra =
     (case ad_binary d of
        None \<Rightarrow> None
      | Some binary \<Rightarrow>
          let spec = (pty_spec_new (binary # extra) cwd)\<lparr>ps_env := launch_env d inherited\<rparr>
          in if ad_return_to_login_shell d then
               let sh = login_shell (ps_env spec)
               in Some (spec\<lparr>ps_argv := [sh, lit ''-i'', lit ''-l'', lit ''-c'', login_command (ps_argv spec) sh]\<rparr>)
             else if 47 \<notin> set binary then
               let path = (case find (\<lambda>e. fst e = lit ''PATH'') (rev (ps_env spec)) of
                    Some e \<Rightarrow> Some (snd e) | None \<Rightarrow> daemon_path)
               in case Option.bind path (resolve_on_path executable binary) of
                    Some resolved \<Rightarrow> Some (spec\<lparr>ps_argv := resolved # extra\<rparr>)
                  | None \<Rightarrow> Some spec
             else Some spec)"

definition remote_spawn_spec :: "agent_descriptor \<Rightarrow> str \<Rightarrow> (str \<times> str) list \<Rightarrow> str list \<Rightarrow> pty_spec option" where
  "remote_spawn_spec d cwd inherited extra =
     (case ad_binary d of
        None \<Rightarrow> None
      | Some binary \<Rightarrow>
          let env = filter (\<lambda>e. \<not> should_scrub d (fst e)) inherited;
              env = filter (\<lambda>e. fst e \<notin> {lit ''NO_COLOR'', lit ''TERM'', lit ''COLORTERM''}) env;
              env = env @ [(lit ''TERM'', lit ''xterm-256color''), (lit ''COLORTERM'', lit ''truecolor'')]
          in Some ((pty_spec_new (binary # extra) cwd)\<lparr>ps_env := fold put_own (ad_env d) env\<rparr>))"

definition resume_args :: "agent_descriptor \<Rightarrow> str option \<Rightarrow> str list option" where
  "resume_args d agent_session_id =
     Option.bind (ad_resume d) (\<lambda>resume.
     Option.bind (resume_token resume) (\<lambda>token.
       if resume_style resume = lit ''flag''
       then Some (case agent_session_id of Some sid \<Rightarrow> [token, sid] | None \<Rightarrow> [token])
       else if resume_style resume = lit ''sessionIDFlag''
       then Option.bind (ad_session_id_flag d) (\<lambda>flag. map_option (\<lambda>sid. [flag, sid]) agent_session_id)
       else None))"

section \<open>What an agent gets\<close>

lemma fold_put_own:
  assumes "distinct (map fst own)"
  shows "set (fold put_own own env) = set own \<union> {e \<in> set env. fst e \<notin> fst ` set own}"
  using assms
proof (induction own arbitrary: env)
  case (Cons kv own)
  then have "fst kv \<notin> fst ` set own" "distinct (map fst own)"
    by simp_all
  moreover have "set (put_own kv env) = insert kv {e \<in> set env. fst e \<noteq> fst kv}"
    by (auto simp: put_own_def)
  ultimately show ?case
    using Cons.IH [of "put_own kv env"] by auto
qed simp

lemma remote_env: "remote_spawn_spec d cwd inherited extra =
    map_option (\<lambda>b. (pty_spec_new (b # extra) cwd)\<lparr>ps_env := launch_env d inherited\<rparr>) (ad_binary d)"
proof -
  have "filter (\<lambda>e. fst e \<notin> {lit ''NO_COLOR'', lit ''TERM'', lit ''COLORTERM''}) env =
      filter (\<lambda>e. fst e \<noteq> lit ''TERM'' \<and> fst e \<noteq> lit ''COLORTERM'') (filter (\<lambda>e. fst e \<noteq> lit ''NO_COLOR'') env)"
    for env :: "(str \<times> str) list"
    by (simp add: conj_commute)
  then show ?thesis
    unfolding remote_spawn_spec_def launch_env_def Let_def by (simp split: option.split)
qed

lemma spawn_env:
  assumes "spawn_spec executable daemon_path d cwd inherited extra = Some spec"
  shows "ps_env spec = launch_env d inherited"
  using assms by (auto simp: spawn_spec_def Let_def pty_spec_new_def split: option.splits if_splits)

text \<open>
  Claim C35. The environment of an agent. A variable of a launch, local or remote, is one the manifest
  sets itself; or, where the manifest is silent, the terminal type or the colour support that the
  engine asserts; or an inherited one under no scrubbed prefix and none of the three colour variables.
  So no identity of the session that started the daemon reaches an agent.
\<close>

theorem launch_environment_exact:
  assumes "distinct (map fst (ad_env d))"
    and "spawn_spec executable daemon_path d cwd inherited extra = Some spec
       \<or> remote_spawn_spec d cwd inherited extra = Some spec"
  shows "(k, v) \<in> set (ps_env spec) \<longleftrightarrow> (k, v) \<in> set (ad_env d) \<or>
    k \<notin> fst ` set (ad_env d) \<and>
      ((k, v) \<in> {(lit ''TERM'', lit ''xterm-256color''), (lit ''COLORTERM'', lit ''truecolor'')} \<or>
       (k, v) \<in> set inherited \<and> k \<notin> {lit ''NO_COLOR'', lit ''TERM'', lit ''COLORTERM''} \<and>
         \<not> list_ex (starts_with k) (ad_env_scrub_prefixes d))"
proof -
  have "ps_env spec = launch_env d inherited"
    using assms(2) spawn_env by (auto simp: remote_env)
  then show ?thesis
    by (auto simp: launch_env_def Let_def fold_put_own [OF assms(1)] should_scrub_def)
qed

lemma sh_tokens_quoted_words:
  assumes "ws \<noteq> []"
  shows "sh_tokens None False (join_blank (map shell_quote ws) @ 59 # s) =
    map_option (\<lambda>ts. map ShWord ws @ ShSemi # ts) (sh_tokens None False s)"
  using assms
proof (induction ws rule: join_blank.induct)
  case (2 w)
  then show ?case
    by (simp add: sh_tokens_shell_quote)
next
  case (3 w v ws)
  have "join_blank (map shell_quote (w # v # ws)) = shell_quote w @ 32 # join_blank (map shell_quote (v # ws))"
    by simp
  then show ?case
    using 3 by (simp add: sh_tokens_shell_quote option.map_comp comp_def)
qed simp

text \<open>
  Claim C36. The login shell. An agent that returns to a login shell is started by that shell with a
  command which the shell reads as the agent's binary and arguments, each one word whatever it
  contains, and then the replacement of the command by a fresh interactive login shell.
\<close>

theorem login_shell_runs_the_agent:
  assumes "ad_binary d = Some binary" "ad_return_to_login_shell d"
  shows "\<exists>spec sh cmd. spawn_spec executable daemon_path d cwd inherited extra = Some spec \<and>
    ps_argv spec = [sh, lit ''-i'', lit ''-l'', lit ''-c'', cmd] \<and> sh \<noteq> [] \<and>
    sh_read cmd = Some (map ShWord (binary # extra)
      @ [ShSemi, ShWord (lit ''exec''), ShWord sh, ShWord (lit ''-i''), ShWord (lit ''-l'')])"
proof -
  let ?sh = "login_shell (launch_env d inherited)"
  have semi: "lit ''; exec '' = 59 # lit '' exec ''"
    by (simp add: lit_def)
  have "snd e \<noteq> []" if "find (\<lambda>e. fst e = lit ''SHELL'' \<and> snd e \<noteq> []) (rev env) = Some e" for e and env :: "(str \<times> str) list"
    using that by (auto simp: find_Some_iff)
  then have "?sh \<noteq> []"
    by (auto simp: login_shell_def lit_def split: option.split)
  moreover have "sh_tokens None False (lit '' exec '' @ shell_quote sh @ lit '' -i -l'') =
      Some [ShWord (lit ''exec''), ShWord sh, ShWord (lit ''-i''), ShWord (lit ''-l'')]" for sh
    by (simp add: lit_def sh_plain_def sh_tokens_shell_quote)
  then have "sh_read (login_command (binary # extra) sh) = Some (map ShWord (binary # extra)
      @ [ShSemi, ShWord (lit ''exec''), ShWord sh, ShWord (lit ''-i''), ShWord (lit ''-l'')])" for sh
    using sh_tokens_quoted_words [of "binary # extra" "lit '' exec '' @ shell_quote sh @ lit '' -i -l''"]
    by (simp add: sh_read_def login_command_def semi del: list.map join_blank.simps)
  ultimately show ?thesis
    using assms by (simp add: spawn_spec_def Let_def pty_spec_new_def)
qed

section \<open>Witnesses\<close>

definition sample_agent :: agent_descriptor where
  "sample_agent = \<lparr>ad_display_name = None, ad_short_label = None, ad_aliases = [], ad_first_class = True,
     ad_status_authority = None, ad_binary = Some (lit ''codex''), ad_return_to_login_shell = True, ad_session_id_flag = None,
     ad_spawn_args = [], ad_injection = \<lparr>inj_claude_hooks = False, inj_claude_mcp = False, inj_codex_notify = True,
     inj_codex_mcp = True, inj_codex_gateway = False\<rparr>, ad_resume = Some \<lparr>resume_style = lit ''flag'', resume_token = Some (lit ''resume'')\<rparr>,
     ad_env = [(lit ''FOO'', lit ''1'')], ad_env_scrub_prefixes = [lit ''CODEX_''], ad_approve = None\<rparr>"

theorem launch_environment_exact_witness:
  "\<exists>spec. remote_spawn_spec sample_agent [] [(lit ''CODEX_ID'', lit ''x''), (lit ''HOME'', lit ''/h'')] [] = Some spec
    \<and> (lit ''CODEX_ID'', lit ''x'') \<notin> set (ps_env spec) \<and> (lit ''HOME'', lit ''/h'') \<in> set (ps_env spec)"
proof -
  let ?in = "[(lit ''CODEX_ID'', lit ''x''), (lit ''HOME'', lit ''/h'')]"
  obtain spec where spec: "remote_spawn_spec sample_agent [] ?in [] = Some spec"
    by (simp add: remote_env sample_agent_def)
  have "distinct (map fst (ad_env sample_agent))"
    by (simp add: sample_agent_def)
  note env = launch_environment_exact [OF this, of undefined None "[]" ?in "[]" spec]
  show ?thesis
    using spec env [of "lit ''CODEX_ID''" "lit ''x''"] env [of "lit ''HOME''" "lit ''/h''"]
    by (simp add: sample_agent_def lit_def starts_with_def)
qed

theorem login_shell_runs_the_agent_witness:
  "\<exists>spec sh cmd. spawn_spec (\<lambda>_. False) None sample_agent [] [] [lit ''it is''] = Some spec \<and>
    ps_argv spec = [sh, lit ''-i'', lit ''-l'', lit ''-c'', cmd] \<and> sh \<noteq> [] \<and>
    sh_read cmd = Some (map ShWord [lit ''codex'', lit ''it is'']
      @ [ShSemi, ShWord (lit ''exec''), ShWord sh, ShWord (lit ''-i''), ShWord (lit ''-l'')])"
  by (rule login_shell_runs_the_agent) (simp_all add: sample_agent_def)

end
