(* ===== verification/Remote_Types.thy ===== *)
theory Remote_Types
  imports Grid Model
begin

text \<open>
  The messages of \<^verbatim>\<open>homie-proto/src/remote_pty.rs\<close>, the protocol between the local engine and the
  holder of a remote terminal, with the checks that both sides run on them before use:
  identifiers, session tokens, terminal dimensions, launch requests, the directory and
  environment requests that name a remote path. A check is a function to
  \<open>remote_codec_error\<close> on the left or unit on the right, in the order of the source's early
  returns. Shown: what exactly each check lets through, in one flat predicate per check.
\<close>

section \<open>Limits and enumerations\<close>

definition PROTOCOL_MAJOR :: u16 where "PROTOCOL_MAJOR = 1"
definition PROTOCOL_MINOR :: u16 where "PROTOCOL_MINOR = 2"
definition MAX_CONTROL_FRAME_BYTES :: usize where "MAX_CONTROL_FRAME_BYTES = 64 * 1024"
definition MAX_ARGUMENTS :: usize where "MAX_ARGUMENTS = 512"
definition MAX_ENVIRONMENT_VARIABLES :: usize where "MAX_ENVIRONMENT_VARIABLES = 4096"
definition MAX_LAUNCH_BYTES :: usize where "MAX_LAUNCH_BYTES = 1024 * 1024"
definition MAX_ENVIRONMENT_VALUE_BYTES :: usize where "MAX_ENVIRONMENT_VALUE_BYTES = 64 * 1024"
definition MAX_TERMINAL_COLS :: u16 where "MAX_TERMINAL_COLS = 4096"
definition MAX_TERMINAL_ROWS :: u16 where "MAX_TERMINAL_ROWS = 4096"
definition MAX_TERMINAL_CELLS :: usize where "MAX_TERMINAL_CELLS = 1000000"

record protocol_version =
  major :: u16
  minor :: u16

definition CURRENT :: protocol_version where
  "CURRENT = \<lparr>major = PROTOCOL_MAJOR, minor = PROTOCOL_MINOR\<rparr>"

datatype remote_role = Controller

datatype remote_capability =
  CapFullSnapshot | IncrementalGrid | CapProcessExit | CapSignal | ControllerLease | Scrollback
  | SessionManagement | EnvironmentCapture | DirectoryList | PersistenceProbe | AtomicActivation
  | AgentEvents | ResourceInspect | PortForward | RebootRecovery | Migration | UnknownCapability

fun wire_name :: "remote_capability \<Rightarrow> str" where
  "wire_name CapFullSnapshot = lit ''full-snapshot''"
| "wire_name IncrementalGrid = lit ''incremental-grid''"
| "wire_name CapProcessExit = lit ''process-exit''"
| "wire_name CapSignal = lit ''signal''"
| "wire_name ControllerLease = lit ''controller-lease''"
| "wire_name Scrollback = lit ''scrollback''"
| "wire_name SessionManagement = lit ''session-management''"
| "wire_name EnvironmentCapture = lit ''environment-capture''"
| "wire_name DirectoryList = lit ''directory-list''"
| "wire_name PersistenceProbe = lit ''persistence-probe''"
| "wire_name AtomicActivation = lit ''atomic-activation''"
| "wire_name AgentEvents = lit ''agent-events''"
| "wire_name ResourceInspect = lit ''resource-inspect''"
| "wire_name PortForward = lit ''port-forward''"
| "wire_name RebootRecovery = lit ''reboot-recovery''"
| "wire_name Migration = lit ''migration''"
| "wire_name UnknownCapability = lit ''unknown''"

definition PHASE_ONE_HOLDER_CAPABILITIES :: "remote_capability list" where
  "PHASE_ONE_HOLDER_CAPABILITIES =
     [CapFullSnapshot, IncrementalGrid, CapProcessExit, CapSignal, ControllerLease, Scrollback]"

definition PHASE_ONE_HELPER_CAPABILITIES :: "remote_capability list" where
  "PHASE_ONE_HELPER_CAPABILITIES =
     [CapFullSnapshot, IncrementalGrid, CapProcessExit, CapSignal, ControllerLease, Scrollback,
      SessionManagement, EnvironmentCapture, DirectoryList, PersistenceProbe, AtomicActivation]"

datatype persistence_capability = NativeDetach | UserSupervisor | NonPersistent

datatype persistence_probe_action = BeginNative | BeginSupervisor | Check | Cleanup

datatype remote_process_state =
  Running u32
| ProcessExited "int option" "int option"

section \<open>Errors\<close>

datatype remote_codec_error =
  UnknownMessageType byte
| RemoteFrameTooLarge usize usize
| ControlFrameTooLarge usize usize
| RemotePayloadLengthOverflow usize
| InvalidControlPayload byte str
| InvalidFullSnapshot str
| InvalidIdentifier str str
| InvalidSessionToken
| InvalidLaunch str
| GridError grid_codec_error

text \<open>
  The text of a \<open>grid_codec_error\<close>, and of the one error of this protocol whose text is put
  into another error.
\<close>

fun grid_error_text :: "grid_codec_error \<Rightarrow> str" where
  "grid_error_text (UnexpectedEnd pos needed remaining) =
     lit ''truncated grid payload at byte '' @ dec pos @ lit '': need '' @ dec needed
       @ lit '' bytes, have '' @ dec remaining"
| "grid_error_text (TooManyRows count) = lit ''row count '' @ dec count @ lit '' does not fit in u16''"
| "grid_error_text (TooManyCells count) = lit ''row cell count '' @ dec count @ lit '' does not fit in u16''"
| "grid_error_text (DecodedRowTooLong count) =
     lit ''decoded row exceeds the u16 grid width ('' @ dec count @ lit '' cells)''"

definition invalid_launch_text :: "str \<Rightarrow> str" where
  "invalid_launch_text detail = lit ''invalid launch request: '' @ detail"

section \<open>Identifiers and tokens\<close>

definition is_ascii_alphanumeric :: "byte \<Rightarrow> bool" where
  "is_ascii_alphanumeric b \<longleftrightarrow> (48 \<le> b \<and> b \<le> 57) \<or> (65 \<le> b \<and> b \<le> 90) \<or> (97 \<le> b \<and> b \<le> 122)"

definition validate_identifier :: "str \<Rightarrow> str \<Rightarrow> (remote_codec_error, unit) result" where
  "validate_identifier field v =
     (if v \<noteq> [] \<and> length (utf8 v) \<le> 128
         \<and> (\<forall>b \<in> set (utf8 v). is_ascii_alphanumeric b \<or> b = 45 \<or> b = 95 \<or> b = 46)
      then Inr () else Inl (InvalidIdentifier field v))"

type_synonym session_token = str

definition session_token_new :: "str \<Rightarrow> (remote_codec_error, session_token) result" where
  "session_token_new v =
     (if length (utf8 v) < 16 \<or> length (utf8 v) > 512 \<or> (\<exists>b \<in> set (utf8 v). b = 0)
      then Inl InvalidSessionToken else Inr v)"

text \<open>\<open>SessionToken::new(token.expose_secret().to_string()).map(|_| ())\<close>.\<close>

definition check_token :: "session_token \<Rightarrow> (remote_codec_error, unit) result" where
  "check_token token = and_then (session_token_new token) (\<lambda>_. Inr ())"

text \<open>\<open>if let Some(v) = &v { validate_identifier(field, v)? }\<close>.\<close>

definition check_optional :: "str \<Rightarrow> str option \<Rightarrow> (remote_codec_error, unit) result" where
  "check_optional field v =
     (case v of None \<Rightarrow> Inr () | Some v \<Rightarrow> validate_identifier field v)"

section \<open>Handshake messages\<close>

record helper_probe =
  hp_protocol :: protocol_version
  hp_build_id :: str
  hp_artifact_sha256 :: str
  hp_target :: str
  hp_os :: str
  hp_arch :: str
  hp_supported :: bool
  hp_holder_available :: bool
  hp_capabilities :: "remote_capability list"

record hello =
  hello_protocol :: protocol_version
  local_build_id :: str
  hello_session_id :: str
  hello_session_token :: session_token
  hello_expected_incarnation :: "str option"
  requested_role :: remote_role
  hello_client_nonce :: str
  required_capabilities :: "remote_capability list"
  last_acknowledged_output_offset :: "u64 option"
  last_acknowledged_grid_sequence :: "u64 option"

definition hello_validate :: "hello \<Rightarrow> (remote_codec_error, unit) result" where
  "hello_validate h =
     and_then (validate_identifier (lit ''local build id'') (local_build_id h)) (\<lambda>_.
     and_then (validate_identifier (lit ''session id'') (hello_session_id h)) (\<lambda>_.
     and_then (check_optional (lit ''expected incarnation'') (hello_expected_incarnation h)) (\<lambda>_.
     and_then (validate_identifier (lit ''client nonce'') (hello_client_nonce h)) (\<lambda>_.
     check_token (hello_session_token h)))))"

record hello_ack =
  ack_protocol :: protocol_version
  ack_holder_build_id :: str
  ack_session_incarnation :: str
  ack_capabilities :: "remote_capability list"
  ack_controller_epoch :: u64
  ack_process_state :: remote_process_state
  ack_output_offset :: u64
  ack_snapshot_sequence :: u64

definition hello_ack_validate :: "hello_ack \<Rightarrow> (remote_codec_error, unit) result" where
  "hello_ack_validate a =
     and_then (validate_identifier (lit ''holder build id'') (ack_holder_build_id a)) (\<lambda>_.
     validate_identifier (lit ''session incarnation'') (ack_session_incarnation a))"

record grid_message =
  gm_sequence :: u64
  gm_alt_screen :: bool
  gm_bracketed_paste :: bool
  gm_mouse_reporting :: bool
  gm_grid :: grid_update

type_synonym full_snapshot = grid_message
type_synonym grid_delta = grid_message

record persistence_probe_request =
  pp_nonce :: str
  pp_action :: persistence_probe_action

definition persistence_probe_validate :: "persistence_probe_request \<Rightarrow> (remote_codec_error, unit) result" where
  "persistence_probe_validate r = validate_identifier (lit ''persistence probe nonce'') (pp_nonce r)"

section \<open>Paths and environments\<close>

record environment_variable =
  ev_name :: str
  ev_value :: str

record environment_capture_request =
  ec_cwd :: "str option"
  ec_timeout_millis :: u64

definition environment_capture_validate ::
    "environment_capture_request \<Rightarrow> (remote_codec_error, unit) result" where
  "environment_capture_validate r =
     (if \<not> (1 \<le> ec_timeout_millis r \<and> ec_timeout_millis r \<le> 10000)
      then Inl (InvalidLaunch (lit ''environment timeout must be between 1 and 10000 ms''))
      else if (case ec_cwd r of None \<Rightarrow> False
          | Some cwd \<Rightarrow>
              \<not> (path_is_absolute cwd \<or> cwd = lit ''~'' \<or> starts_with cwd (lit ''~/''))
              \<or> 0 \<in> set (utf8 cwd)
              \<or> (\<exists>component \<in> set (split_on 47 cwd). component = lit ''..''))
      then Inl (InvalidLaunch
        (lit ''environment cwd must be absolute or home-relative, normalized and NUL-free''))
      else Inr ())"

record environment_capture_result =
  ecr_shell :: str
  ecr_cwd :: str
  ecr_environment :: "environment_variable list"
  ecr_diagnostics :: str
  ecr_diagnostics_truncated :: bool

record directory_list_request =
  dl_path :: str

definition directory_list_validate :: "directory_list_request \<Rightarrow> (remote_codec_error, unit) result" where
  "directory_list_validate r =
     (if dl_path r = []
         \<or> length (utf8 (dl_path r)) > 4096
         \<or> 0 \<in> set (utf8 (dl_path r))
         \<or> \<not> (path_is_absolute (dl_path r) \<or> dl_path r = lit ''~'' \<or> starts_with (dl_path r) (lit ''~/''))
         \<or> (\<exists>component \<in> set (split_on 47 (dl_path r)). component = lit ''.'' \<or> component = lit ''..'')
      then Inl (InvalidLaunch (lit ''directory path must be absolute or home-relative, normalized, NUL-free, and at most 4096 bytes''))
      else Inr ())"

record directory_entry =
  de_name :: str
  de_path :: str

record directory_list_result =
  dlr_path :: str
  dlr_parent :: "str option"
  dlr_entries :: "directory_entry list"
  dlr_truncated :: bool

section \<open>Launching\<close>

record launch_request =
  lr_session_id :: str
  lr_session_token :: session_token
  lr_argv :: "str list"
  lr_cwd :: str
  lr_environment :: "environment_variable list"
  lr_cols :: u16
  lr_rows :: u16
  lr_persistence :: persistence_capability

definition usize_max :: nat where "usize_max = 2 ^ 64 - 1"

definition saturating_add :: "usize \<Rightarrow> usize \<Rightarrow> usize" where
  "saturating_add a b = min (a + b) usize_max"

definition saturating_mul :: "usize \<Rightarrow> usize \<Rightarrow> usize" where
  "saturating_mul a b = min (a * b) usize_max"

definition validate_terminal_dimensions :: "u16 \<Rightarrow> u16 \<Rightarrow> (remote_codec_error, unit) result" where
  "validate_terminal_dimensions c r =
     (if c = 0 \<or> r = 0 \<or> c > MAX_TERMINAL_COLS \<or> r > MAX_TERMINAL_ROWS
         \<or> saturating_mul (unat c) (unat r) > MAX_TERMINAL_CELLS
      then Inl (InvalidLaunch (lit ''terminal dimensions must be non-zero, at most 4096x4096, and at most 1000000 cells''))
      else Inr ())"

text \<open>The two loops that check the arguments and the environment and sum up their bytes.\<close>

fun argument_bytes :: "str list \<Rightarrow> usize \<Rightarrow> (remote_codec_error, usize) result" where
  "argument_bytes [] n = Inr n"
| "argument_bytes (a # as) n =
     (if 0 \<in> set (utf8 a) then Inl (InvalidLaunch (lit ''argv contains a NUL byte''))
      else argument_bytes as (saturating_add n (length (utf8 a))))"

fun environment_bytes :: "environment_variable list \<Rightarrow> usize \<Rightarrow> (remote_codec_error, usize) result" where
  "environment_bytes [] n = Inr n"
| "environment_bytes (v # vs) n =
     (let valid_name = ev_name v \<noteq> [] \<and> \<not> (\<exists>b \<in> set (utf8 (ev_name v)). b = 0 \<or> b = 61) in
      if \<not> valid_name \<or> 0 \<in> set (utf8 (ev_value v))
      then Inl (InvalidLaunch (lit ''environment contains an invalid name or NUL byte''))
      else if length (utf8 (ev_value v)) > MAX_ENVIRONMENT_VALUE_BYTES
      then Inl (InvalidLaunch (lit ''environment value exceeds 65536 bytes''))
      else environment_bytes vs
             (saturating_add n (length (utf8 (ev_name v)) + length (utf8 (ev_value v)))))"

definition launch_validate :: "launch_request \<Rightarrow> (remote_codec_error, unit) result" where
  "launch_validate r =
     and_then (validate_identifier (lit ''session id'') (lr_session_id r)) (\<lambda>_.
     and_then (check_token (lr_session_token r)) (\<lambda>_.
     if lr_argv r = [] \<or> length (lr_argv r) > MAX_ARGUMENTS
     then Inl (InvalidLaunch (lit ''argv must contain 1..=512 entries''))
     else if length (lr_environment r) > MAX_ENVIRONMENT_VARIABLES
     then Inl (InvalidLaunch (lit ''environment exceeds 4096 entries''))
     else if \<not> path_is_absolute (lr_cwd r) \<or> 0 \<in> set (utf8 (lr_cwd r))
     then Inl (InvalidLaunch (lit ''cwd must be an absolute NUL-free path''))
     else
     and_then (validate_terminal_dimensions (lr_cols r) (lr_rows r)) (\<lambda>_.
     and_then (argument_bytes (lr_argv r) (length (utf8 (lr_cwd r)))) (\<lambda>n.
     and_then (environment_bytes (lr_environment r) n) (\<lambda>n.
     if n > MAX_LAUNCH_BYTES
     then Inl (InvalidLaunch (lit ''launch payload exceeds 1048576 bytes''))
     else Inr ())))))"

record launch_result =
  lres_session_id :: str
  lres_session_incarnation :: str
  lres_holder_pid :: u32
  lres_process_pid :: u32
  lres_persistence :: persistence_capability

record session_inspection =
  si_session_id :: str
  si_session_incarnation :: str
  si_holder_build_id :: str
  si_holder_pid :: u32
  si_process_state :: remote_process_state
  si_cols :: u16
  si_rows :: u16
  si_output_offset :: u64
  si_snapshot_sequence :: u64
  si_controller_epoch :: u64
  si_persistence :: persistence_capability

record gc_result =
  removed_sessions :: usize
  retained_sessions :: usize
  removed_helper_builds :: usize
  retained_helper_builds :: usize

record session_selector =
  sel_session_id :: str
  sel_session_token :: session_token
  sel_expected_incarnation :: "str option"

definition session_selector_validate :: "session_selector \<Rightarrow> (remote_codec_error, unit) result" where
  "session_selector_validate s =
     and_then (validate_identifier (lit ''session id'') (sel_session_id s)) (\<lambda>_.
     and_then (check_token (sel_session_token s)) (\<lambda>_.
     check_optional (lit ''expected incarnation'') (sel_expected_incarnation s)))"

section \<open>Control messages\<close>

record process_exit =
  pe_code :: "int option"
  pe_signal :: "int option"

record signal_message =
  sig_controller_epoch :: u64
  sig_signal :: int

record acquire_control =
  ac_client_nonce :: str

record control_granted =
  cg_controller_epoch :: u64

record control_revoked =
  cr_controller_epoch :: u64
  cr_reason :: str

record release_control =
  rc_controller_epoch :: u64

record remote_error =
  re_code :: str
  re_message :: str
  re_fatal :: bool

record scrollback_request =
  sr_request_id :: u64
  sr_first_row :: int
  sr_max_rows :: int

definition KIND_SCROLLBACK_REQUEST :: byte where "KIND_SCROLLBACK_REQUEST = 43"

definition scrollback_request_validate :: "scrollback_request \<Rightarrow> (remote_codec_error, unit) result" where
  "scrollback_request_validate r =
     (if sr_request_id r = 0 \<or> sr_first_row r < 0 \<or> \<not> (0 \<le> sr_max_rows r \<and> sr_max_rows r \<le> 1024)
      then Inl (InvalidControlPayload KIND_SCROLLBACK_REQUEST
             (lit ''scrollback request id/range is invalid''))
      else Inr ())"

record read_scrollback_cells_result =
  rsc_payload :: bytes
  rsc_first_row :: int
  rsc_row_count :: int
  rsc_total_rows :: int
  rsc_live_start_row :: int
  rsc_cols :: int
  rsc_content_seq :: u64

record scrollback_response =
  srs_request_id :: u64
  srs_result :: read_scrollback_cells_result

section \<open>Grids\<close>

fun validate_changed_rows :: "grid_update \<Rightarrow> changed_row list \<Rightarrow> (remote_codec_error, unit) result" where
  "validate_changed_rows g [] = Inr ()"
| "validate_changed_rows g (r # rs) =
     (if row_y r \<ge> rows g \<or> length (row_cells r) \<noteq> unat (cols g)
      then Inl (InvalidFullSnapshot (lit ''changed row is outside the grid or has the wrong width''))
      else validate_changed_rows g rs)"

text \<open>\<open>validate_terminal_dimensions\<close> fails with \<open>InvalidLaunch\<close> only (\<open>dimensions_error\<close> below).\<close>

definition validate_grid_update :: "grid_update \<Rightarrow> (remote_codec_error, unit) result" where
  "validate_grid_update g =
     and_then (map_err (\<lambda>e. case e of
           InvalidLaunch detail \<Rightarrow>
             InvalidFullSnapshot (lit ''grid dimensions are invalid: '' @ invalid_launch_text detail)
         | e \<Rightarrow> e) (validate_terminal_dimensions (cols g) (rows g))) (\<lambda>_.
     if cursor_col g \<ge> cols g \<or> cursor_row g \<ge> rows g
     then Inl (InvalidFullSnapshot (lit ''cursor is outside the terminal grid''))
     else validate_changed_rows g (changed_rows g))"

section \<open>What the checks let through\<close>

lemma check_token_iff: "check_token t = Inr () \<longleftrightarrow> 16 \<le> length (utf8 t) \<and> length (utf8 t) \<le> 512 \<and> 0 \<notin> set (utf8 t)"
  by (auto simp: check_token_def session_token_new_def)

lemma dimensions_error: "validate_terminal_dimensions c r = Inl e \<Longrightarrow> \<exists>d. e = InvalidLaunch d"
  by (auto simp: validate_terminal_dimensions_def split: if_splits)

lemma unit_result_iff:
  fixes x :: "(remote_codec_error, unit) result"
  shows "and_then x f = Inr y \<longleftrightarrow> x = Inr () \<and> f () = Inr y"
  by (cases x) auto

lemma dimensions_iff:
  "validate_terminal_dimensions c r = Inr () \<longleftrightarrow>
     0 < unat c \<and> 0 < unat r \<and> unat c \<le> 4096 \<and> unat r \<le> 4096 \<and> unat c * unat r \<le> MAX_TERMINAL_CELLS"
proof -
  have "unat c * unat r < 2 ^ 16 * 2 ^ 16"
    using unsigned_less [of c] unsigned_less [of r] by (intro mult_strict_mono) auto
  then have "saturating_mul (unat c) (unat r) = unat c * unat r"
    by (simp add: saturating_mul_def usize_max_def)
  then show ?thesis
    by (auto simp: validate_terminal_dimensions_def MAX_TERMINAL_COLS_def MAX_TERMINAL_ROWS_def
        word_less_nat_alt unat_gt_0)
qed

text \<open>A saturating sum of saturated sums is the saturated sum.\<close>

lemma saturating_add_min: "saturating_add (min a usize_max) b = min (a + b) usize_max"
  by (auto simp: saturating_add_def min_def)

lemma argument_bytes_iff:
  "argument_bytes as (min n usize_max) = Inr k \<longleftrightarrow>
     (\<forall>a \<in> set as. 0 \<notin> set (utf8 a)) \<and> k = min (n + sum_list (map (length \<circ> utf8) as)) usize_max"
  by (induction as arbitrary: n) (auto simp: saturating_add_min add.assoc)

definition variable_ok :: "environment_variable \<Rightarrow> bool" where
  "variable_ok v \<longleftrightarrow> ev_name v \<noteq> [] \<and> 0 \<notin> set (utf8 (ev_name v)) \<and> 61 \<notin> set (utf8 (ev_name v))
     \<and> 0 \<notin> set (utf8 (ev_value v)) \<and> length (utf8 (ev_value v)) \<le> MAX_ENVIRONMENT_VALUE_BYTES"

definition variable_size :: "environment_variable \<Rightarrow> nat" where
  "variable_size v = length (utf8 (ev_name v)) + length (utf8 (ev_value v))"

lemma environment_bytes_iff:
  "environment_bytes vs (min n usize_max) = Inr k \<longleftrightarrow>
     (\<forall>v \<in> set vs. variable_ok v) \<and> k = min (n + sum_list (map variable_size vs)) usize_max"
proof (induction vs arbitrary: n)
  case (Cons v vs)
  have "environment_bytes (v # vs) (min n usize_max) = Inr k \<longleftrightarrow>
      variable_ok v \<and> environment_bytes vs (min (n + variable_size v) usize_max) = Inr k"
    by (auto simp: variable_ok_def variable_size_def saturating_add_min Let_def)
  then show ?case
    using Cons by (auto simp: add.assoc)
qed auto

text \<open>What a launch request may be: one flat condition.\<close>

definition launch_ok :: "launch_request \<Rightarrow> bool" where
  "launch_ok r \<longleftrightarrow> validate_identifier (lit ''session id'') (lr_session_id r) = Inr ()
     \<and> 16 \<le> length (utf8 (lr_session_token r)) \<and> length (utf8 (lr_session_token r)) \<le> 512
     \<and> 0 \<notin> set (utf8 (lr_session_token r))
     \<and> 1 \<le> length (lr_argv r) \<and> length (lr_argv r) \<le> MAX_ARGUMENTS
     \<and> length (lr_environment r) \<le> MAX_ENVIRONMENT_VARIABLES
     \<and> path_is_absolute (lr_cwd r) \<and> 0 \<notin> set (utf8 (lr_cwd r))
     \<and> 0 < unat (lr_cols r) \<and> unat (lr_cols r) \<le> 4096 \<and> 0 < unat (lr_rows r) \<and> unat (lr_rows r) \<le> 4096
     \<and> unat (lr_cols r) * unat (lr_rows r) \<le> MAX_TERMINAL_CELLS
     \<and> (\<forall>a \<in> set (lr_argv r). 0 \<notin> set (utf8 a))
     \<and> (\<forall>v \<in> set (lr_environment r). variable_ok v)
     \<and> length (utf8 (lr_cwd r)) + sum_list (map (length \<circ> utf8) (lr_argv r))
         + sum_list (map variable_size (lr_environment r)) \<le> MAX_LAUNCH_BYTES"

lemma argument_bytes_nonempty:
  "as \<noteq> [] \<Longrightarrow> argument_bytes as n = Inr k \<longleftrightarrow>
     (\<forall>a \<in> set as. 0 \<notin> set (utf8 a)) \<and> k = min (n + sum_list (map (length \<circ> utf8) as)) usize_max"
  by (cases as) (auto simp: saturating_add_def argument_bytes_iff add.assoc)

text \<open>
  The launch check lets through exactly the requests within the documented limits:
  well-formed identifier and token, between one and 512 arguments, at most 4096 valid
  variables, an absolute working directory, a terminal of at most a million cells, and no more
  than a mebibyte of text in total. The sums are the true sums, although the code saturates.
\<close>

theorem launch_validate_exact: "launch_validate r = Inr () \<longleftrightarrow> launch_ok r"
proof -
  have small: "MAX_LAUNCH_BYTES < usize_max"
    by (simp add: MAX_LAUNCH_BYTES_def usize_max_def)
  have argv: "lr_argv r = [] \<or> length (lr_argv r) > MAX_ARGUMENTS
      \<longleftrightarrow> \<not> (1 \<le> length (lr_argv r) \<and> length (lr_argv r) \<le> MAX_ARGUMENTS)"
    by (cases "lr_argv r") auto
  have sums: "and_then (argument_bytes (lr_argv r) (length (utf8 (lr_cwd r)))) (\<lambda>n.
        and_then (environment_bytes (lr_environment r) n) (\<lambda>n.
        if n > MAX_LAUNCH_BYTES then Inl e else Inr ())) = Inr ()
      \<longleftrightarrow> (\<forall>a \<in> set (lr_argv r). 0 \<notin> set (utf8 a)) \<and> (\<forall>v \<in> set (lr_environment r). variable_ok v)
        \<and> length (utf8 (lr_cwd r)) + sum_list (map (length \<circ> utf8) (lr_argv r))
         + sum_list (map variable_size (lr_environment r)) \<le> MAX_LAUNCH_BYTES"
    if "1 \<le> length (lr_argv r)" for e
  proof -
    have ne: "lr_argv r \<noteq> []" using that by auto
    show ?thesis
      using small by (auto simp: and_then_Inr_iff argument_bytes_nonempty [OF ne] environment_bytes_iff
          min_le_iff_disj not_less)
  qed
  show ?thesis
    unfolding launch_validate_def launch_ok_def argv
    by (auto simp: unit_result_iff check_token_iff dimensions_iff sums split: if_splits)
qed

section \<open>Text as bytes\<close>

lemma utf8_scalar_high:
  assumes "128 \<le> c" "c < 1114112" "b \<in> set (utf8_scalar c)"
  shows "128 \<le> unat b"
proof -
  obtain k where k: "b = of_nat k" "128 \<le> k" "k < 256"
    using assms unfolding utf8_scalar_def set_map by (force split: if_splits simp del: of_nat_add)
  then show ?thesis
    by (simp add: unat_of_nat)
qed

text \<open>An ASCII byte occurs in the encoding exactly when the character occurs in the text.\<close>

lemma ascii_in_utf8:
  assumes "valid_str s" "unat b < 128"
  shows "b \<in> set (utf8 s) \<longleftrightarrow> unat b \<in> set s"
proof
  assume "b \<in> set (utf8 s)"
  then obtain c where c: "c \<in> set s" "b \<in> set (utf8_scalar c)"
    by (auto simp: utf8_def)
  then have "c < 1114112"
    using assms(1) by (auto simp: valid_str_def)
  then have "c < 128"
    using utf8_scalar_high [of c b] c assms(2) by (cases "c < 128") auto
  then have "unat b = c"
    using c(2) by (auto simp: utf8_scalar_def unat_of_nat)
  then show "unat b \<in> set s" using c by simp
next
  assume s: "unat b \<in> set s"
  have "b \<in> set (utf8_scalar (unat b))"
    using assms(2) by (simp add: utf8_scalar_def)
  then show "b \<in> set (utf8 s)"
    using s by (auto simp: utf8_def)
qed

lemma utf8_ascii: "\<forall>c \<in> set s. c < 128 \<Longrightarrow> utf8 s = map of_nat s"
  by (induction s) (auto simp: utf8_def utf8_scalar_def)

definition identifier_char :: "nat \<Rightarrow> bool" where
  "identifier_char c \<longleftrightarrow> (48 \<le> c \<and> c \<le> 57) \<or> (65 \<le> c \<and> c \<le> 90) \<or> (97 \<le> c \<and> c \<le> 122)
     \<or> c = 45 \<or> c = 95 \<or> c = 46"

text \<open>
  In terms of characters, an identifier is accepted exactly when it has between 1 and
  128 characters, each an ASCII letter or digit, a hyphen, an underscore or a dot. So no
  accepted identifier contains a path separator, a NUL or a non-ASCII character.
\<close>

theorem identifier_chars:
  assumes "valid_str v"
  shows "validate_identifier field v = Inr () \<longleftrightarrow>
     1 \<le> length v \<and> length v \<le> 128 \<and> (\<forall>c \<in> set v. identifier_char c)"
proof -
  let ?ok = "\<lambda>b. is_ascii_alphanumeric b \<or> b = 45 \<or> b = 95 \<or> b = 46"
  have b: "?ok b \<longleftrightarrow> identifier_char (unat b)" for b
    by (auto simp: is_ascii_alphanumeric_def identifier_char_def word_le_nat_alt word_unat_eq_iff)
  have low: "identifier_char c \<Longrightarrow> c < 128" for c
    by (auto simp: identifier_char_def)
  have all: "(\<forall>b \<in> set (utf8 v). ?ok b) \<longleftrightarrow> (\<forall>c \<in> set v. identifier_char c)"
  proof
    assume ok: "\<forall>b \<in> set (utf8 v). ?ok b"
    show "\<forall>c \<in> set v. identifier_char c"
    proof
      fix c assume c: "c \<in> set v"
      then have sub: "set (utf8_scalar c) \<subseteq> set (utf8 v)"
        by (auto simp: utf8_def)
      have "c < 1114112" using assms c by (auto simp: valid_str_def)
      moreover have "hd (utf8_scalar c) \<in> set (utf8_scalar c)"
        by (simp add: utf8_scalar_def)
      ultimately have c128: "c < 128"
      proof -
        let ?h = "hd (utf8_scalar c)"
        assume c: "c < 1114112" and h: "?h \<in> set (utf8_scalar c)"
        have "unat ?h < 128"
          using ok sub h b low by blast
        then show "c < 128"
          using utf8_scalar_high [OF _ c h] by (cases "c < 128") auto
      qed
      then have "of_nat c \<in> set (utf8 v)"
        using sub by (simp add: utf8_scalar_def)
      then show "identifier_char c"
        using ok b [of "of_nat c"] c128 by (auto simp: unat_of_nat)
    qed
  next
    assume ok: "\<forall>c \<in> set v. identifier_char c"
    have "identifier_char (unat (of_nat c :: byte))" if "c \<in> set v" for c
      using ok low [of c] that by (simp add: unat_of_nat)
    then show "\<forall>b \<in> set (utf8 v). ?ok b"
      using utf8_ascii [of v] low ok unfolding b by simp
  qed
  have len: "\<forall>c \<in> set v. identifier_char c \<Longrightarrow> length (utf8 v) = length v"
    using utf8_ascii [of v] low by simp
  show ?thesis
    unfolding validate_identifier_def all
    by (cases "\<forall>c \<in> set v. identifier_char c"; cases v) (use len in auto)
qed

theorem identifier_chars_witness:
  "validate_identifier (lit ''session id'') (lit ''s-1'') = Inr () \<longleftrightarrow>
     1 \<le> length (lit ''s-1'') \<and> length (lit ''s-1'') \<le> 128 \<and> list_all identifier_char (lit ''s-1'')"
  unfolding list_all_iff by (rule identifier_chars) (simp add: valid_str_def lit_def)

section \<open>Paths\<close>

text \<open>
  What a path means, without symbolic links: \<open>resolve\<close> walks the components from a base
  directory; an empty component or a dot stays, two dots go up, anything else goes down.
\<close>

fun resolve :: "str list \<Rightarrow> str list \<Rightarrow> str list" where
  "resolve base [] = base"
| "resolve base (c # cs) =
     (if c = [] \<or> c = lit ''.'' then resolve base cs
      else if c = lit ''..'' then resolve (butlast base) cs
      else resolve (base @ [c]) cs)"

lemma resolve_down: "lit ''..'' \<notin> set cs \<Longrightarrow> \<exists>ext. resolve base cs = base @ ext"
proof (induction cs arbitrary: base)
  case (Cons c cs)
  then show ?case
    using Cons.IH [of base] Cons.IH [of "base @ [c]"] by auto
qed simp

text \<open>
  A remote path that passed a check never climbs: resolved from any base directory, the
  path of an accepted directory request and the working directory of an accepted environment
  request stay below that base.
\<close>

theorem accepted_paths_never_climb:
  assumes "directory_list_validate d = Inr ()" "environment_capture_validate e = Inr ()"
    "ec_cwd e = Some cwd"
  shows "(\<exists>ext. resolve base (split_on 47 (dl_path d)) = base @ ext)
    \<and> (\<exists>ext. resolve base (split_on 47 cwd) = base @ ext)"
  using assms resolve_down
  by (auto simp: directory_list_validate_def environment_capture_validate_def split: if_splits)

theorem accepted_paths_never_climb_witness:
  "(\<exists>ext. resolve [lit ''home''] (split_on 47 (dl_path \<lparr>dl_path = lit ''~/a''\<rparr>)) = [lit ''home''] @ ext)
    \<and> (\<exists>ext. resolve [lit ''home''] (split_on 47 (lit ''/tmp'')) = [lit ''home''] @ ext)"
  by (rule accepted_paths_never_climb
      [of _ "\<lparr>ec_cwd = Some (lit ''/tmp''), ec_timeout_millis = 5\<rparr>"])
    (simp_all add: directory_list_validate_def environment_capture_validate_def lit_def
      utf8_def utf8_scalar_def path_is_absolute_def starts_with_def)

end
