(* ===== verification/Remote_Codec.thy ===== *)
theory Remote_Codec
  imports Remote_Types Frames
begin

text \<open>
  The codec of \<^verbatim>\<open>homie-proto/src/remote_pty.rs\<close>: \<open>encode_into\<close> appends one message to an output
  buffer and takes everything back when it fails; \<open>remote_feed\<close> decodes the byte stream of the
  SSH channel incrementally. Serialisation of the small control messages to JSON is the
  serde\_json library's: for each of the eleven types a \<open>json\<close> record holds its writer, which may
  have written some bytes before it fails, and its reader.
  Shown: what was encoded is decoded, however the stream is cut; malformed streams give the
  same error however they are cut; a failed encoding leaves the output as it was.
\<close>

section \<open>JSON as a parameter\<close>

record 'a json =
  to_writer :: "'a \<Rightarrow> bytes \<times> str option"
  from_slice :: "bytes \<Rightarrow> (str, 'a) result"

record remote_json =
  json_hello :: "hello json"
  json_hello_ack :: "hello_ack json"
  json_process_exit :: "process_exit json"
  json_signal :: "signal_message json"
  json_acquire_control :: "acquire_control json"
  json_control_granted :: "control_granted json"
  json_control_revoked :: "control_revoked json"
  json_release_control :: "release_control json"
  json_scrollback_request :: "scrollback_request json"
  json_scrollback_response :: "scrollback_response json"
  json_error :: "remote_error json"

text \<open>What serde promises for derived implementations: a written value reads back.\<close>

definition json_roundtrip :: "'a json \<Rightarrow> bool" where
  "json_roundtrip j \<longleftrightarrow> (\<forall>v bs. to_writer j v = (bs, None) \<longrightarrow> from_slice j bs = Inr v)"

definition remote_json_ok :: "remote_json \<Rightarrow> bool" where
  "remote_json_ok j \<longleftrightarrow> json_roundtrip (json_hello j) \<and> json_roundtrip (json_hello_ack j)
     \<and> json_roundtrip (json_process_exit j) \<and> json_roundtrip (json_signal j)
     \<and> json_roundtrip (json_acquire_control j) \<and> json_roundtrip (json_control_granted j)
     \<and> json_roundtrip (json_control_revoked j) \<and> json_roundtrip (json_release_control j)
     \<and> json_roundtrip (json_scrollback_request j) \<and> json_roundtrip (json_scrollback_response j)
     \<and> json_roundtrip (json_error j)"

section \<open>Messages\<close>

definition HEADER_BYTES :: usize where "HEADER_BYTES = 5"
definition FULL_SNAPSHOT_FIXED_BYTES :: usize where "FULL_SNAPSHOT_FIXED_BYTES = 9"
definition KIND_HELLO :: byte where "KIND_HELLO = 32"
definition KIND_HELLO_ACK :: byte where "KIND_HELLO_ACK = 33"
definition KIND_FULL_SNAPSHOT :: byte where "KIND_FULL_SNAPSHOT = 34"
definition KIND_PROCESS_EXIT :: byte where "KIND_PROCESS_EXIT = 35"
definition KIND_SIGNAL :: byte where "KIND_SIGNAL = 36"
definition KIND_ACQUIRE_CONTROL :: byte where "KIND_ACQUIRE_CONTROL = 37"
definition KIND_CONTROL_GRANTED :: byte where "KIND_CONTROL_GRANTED = 38"
definition KIND_CONTROL_REVOKED :: byte where "KIND_CONTROL_REVOKED = 39"
definition KIND_RELEASE_CONTROL :: byte where "KIND_RELEASE_CONTROL = 40"
definition KIND_ERROR :: byte where "KIND_ERROR = 41"
definition KIND_GRID_DELTA :: byte where "KIND_GRID_DELTA = 42"
definition KIND_SCROLLBACK_RESPONSE :: byte where "KIND_SCROLLBACK_RESPONSE = 44"

lemmas kind_defs = KIND_HELLO_def KIND_HELLO_ACK_def KIND_FULL_SNAPSHOT_def KIND_PROCESS_EXIT_def
  KIND_SIGNAL_def KIND_ACQUIRE_CONTROL_def KIND_CONTROL_GRANTED_def KIND_CONTROL_REVOKED_def
  KIND_RELEASE_CONTROL_def KIND_ERROR_def KIND_GRID_DELTA_def KIND_SCROLLBACK_REQUEST_def
  KIND_SCROLLBACK_RESPONSE_def

datatype remote_message =
    MTerminal frame
  | MHello hello
  | MHelloAck hello_ack
  | MFullSnapshot full_snapshot
  | MGridDelta grid_delta
  | MProcessExit process_exit
  | MSignal signal_message
  | MAcquireControl acquire_control
  | MControlGranted control_granted
  | MControlRevoked control_revoked
  | MReleaseControl release_control
  | MScrollbackRequest scrollback_request
  | MScrollbackResponse scrollback_response
  | MError remote_error

section \<open>Encoding\<close>

text \<open>A writer gives its result and the output buffer as it left it.\<close>

type_synonym writing = "(remote_codec_error, unit) result \<times> bytes"

definition append_json :: "byte \<Rightarrow> 'a json \<Rightarrow> 'a \<Rightarrow> bytes \<Rightarrow> usize \<Rightarrow> writing" where
  "append_json kind j v output start =
     (let output = output[start := kind];
          (written, failed) = to_writer j v
      in (case failed of None \<Rightarrow> Inr () | Some detail \<Rightarrow> Inl (InvalidControlPayload kind detail),
          output @ written))"

definition rollback :: "bytes \<Rightarrow> usize \<Rightarrow> remote_codec_error \<Rightarrow> writing" where
  "rollback output start e = (Inl e, take start output)"

text \<open>\<open>check?;\<close> before a write: on failure the output stays.\<close>

definition after_check :: "(remote_codec_error, unit) result \<Rightarrow> bytes \<Rightarrow> writing \<Rightarrow> writing" where
  "after_check check output next = (case check of Inl e \<Rightarrow> (Inl e, output) | Inr _ \<Rightarrow> next)"

definition modes_byte :: "grid_message \<Rightarrow> byte" where
  "modes_byte g = u8_of_bool (gm_alt_screen g) OR push_bit 1 (u8_of_bool (gm_bracketed_paste g))
     OR push_bit 2 (u8_of_bool (gm_mouse_reporting g))"

definition append_grid :: "grid_update \<Rightarrow> bytes \<Rightarrow> writing" where
  "append_grid g output =
     (case grid_encode g of Inl e \<Rightarrow> (Inl (GridError e), output) | Inr bs \<Rightarrow> (Inr (), output @ bs))"

definition write_full_snapshot :: "full_snapshot \<Rightarrow> bytes \<Rightarrow> usize \<Rightarrow> writing" where
  "write_full_snapshot v output start =
     after_check (validate_grid_update (gm_grid v)) output
      (let output = output[start := KIND_FULL_SNAPSHOT];
           output = output @ u64_to_be (gm_sequence v);
           output = output @ [modes_byte v]
       in if \<not> is_full_snapshot (gm_grid v)
          then rollback output start
                 (InvalidFullSnapshot (lit ''grid update is not marked as a full snapshot''))
          else append_grid (gm_grid v) output)"

definition write_grid_delta :: "grid_delta \<Rightarrow> bytes \<Rightarrow> usize \<Rightarrow> writing" where
  "write_grid_delta v output start =
     after_check (validate_grid_update (gm_grid v)) output
      (let output = output[start := KIND_GRID_DELTA];
           output = output @ u64_to_be (gm_sequence v);
           output = output @ [modes_byte v]
       in if is_full_snapshot (gm_grid v)
          then rollback output start
                 (InvalidFullSnapshot (lit ''grid delta is marked as a full snapshot''))
          else append_grid (gm_grid v) output)"

fun write_message :: "remote_json \<Rightarrow> remote_message \<Rightarrow> bytes \<Rightarrow> usize \<Rightarrow> writing" where
  "write_message j (MTerminal f) output start =
     (Inr (), output[start := frame_type_u8 (frame_type f)] @ frame_payload f)"
| "write_message j (MHello v) output start =
     after_check (hello_validate v) output (append_json KIND_HELLO (json_hello j) v output start)"
| "write_message j (MHelloAck v) output start =
     after_check (hello_ack_validate v) output
       (append_json KIND_HELLO_ACK (json_hello_ack j) v output start)"
| "write_message j (MFullSnapshot v) output start = write_full_snapshot v output start"
| "write_message j (MGridDelta v) output start = write_grid_delta v output start"
| "write_message j (MProcessExit v) output start =
     append_json KIND_PROCESS_EXIT (json_process_exit j) v output start"
| "write_message j (MSignal v) output start = append_json KIND_SIGNAL (json_signal j) v output start"
| "write_message j (MAcquireControl v) output start =
     after_check (validate_identifier (lit ''client nonce'') (ac_client_nonce v)) output
       (append_json KIND_ACQUIRE_CONTROL (json_acquire_control j) v output start)"
| "write_message j (MControlGranted v) output start =
     append_json KIND_CONTROL_GRANTED (json_control_granted j) v output start"
| "write_message j (MControlRevoked v) output start =
     append_json KIND_CONTROL_REVOKED (json_control_revoked j) v output start"
| "write_message j (MReleaseControl v) output start =
     append_json KIND_RELEASE_CONTROL (json_release_control j) v output start"
| "write_message j (MScrollbackRequest v) output start =
     after_check (scrollback_request_validate v) output
       (append_json KIND_SCROLLBACK_REQUEST (json_scrollback_request j) v output start)"
| "write_message j (MScrollbackResponse v) output start =
     append_json KIND_SCROLLBACK_RESPONSE (json_scrollback_response j) v output start"
| "write_message j (MError v) output start = append_json KIND_ERROR (json_error j) v output start"

definition large_kind :: "byte \<Rightarrow> bool" where
  "large_kind kind \<longleftrightarrow> kind = KIND_FULL_SNAPSHOT \<or> kind = KIND_GRID_DELTA \<or> kind = KIND_SCROLLBACK_RESPONSE"

definition encode_into :: "remote_json \<Rightarrow> remote_message \<Rightarrow> bytes \<Rightarrow> writing" where
  "encode_into j message output =
     (let start = length output;
          (res, output) = write_message j message (output @ replicate HEADER_BYTES 0) start
      in case res of
           Inl e \<Rightarrow> (Inl e, take start output)
         | Inr _ \<Rightarrow>
             let payload_length = length output - start - HEADER_BYTES in
             if payload_length > MAX_FRAME_BYTES
             then rollback output start (RemoteFrameTooLarge payload_length MAX_FRAME_BYTES)
             else if output ! start \<ge> KIND_HELLO \<and> \<not> large_kind (output ! start)
                   \<and> payload_length > MAX_CONTROL_FRAME_BYTES
             then rollback output start (ControlFrameTooLarge payload_length MAX_CONTROL_FRAME_BYTES)
             else if payload_length > u32_max
             then (Inl (RemotePayloadLengthOverflow payload_length), output)
             else (Inr (), take (start + 1) output @ u32_to_be (of_nat payload_length)
                            @ drop (start + HEADER_BYTES) output))"

definition remote_encode :: "remote_json \<Rightarrow> remote_message \<Rightarrow> (remote_codec_error, bytes) result" where
  "remote_encode j message =
     (let (res, encoded) = encode_into j message [] in and_then res (\<lambda>_. Inr encoded))"

section \<open>Decoding\<close>

definition decode_json :: "byte \<Rightarrow> 'a json \<Rightarrow> bytes \<Rightarrow> (remote_codec_error, 'a) result" where
  "decode_json kind j pl = map_err (InvalidControlPayload kind) (from_slice j pl)"

definition decode_full_snapshot :: "bytes \<Rightarrow> (remote_codec_error, full_snapshot) result" where
  "decode_full_snapshot pl =
     (if length pl < FULL_SNAPSHOT_FIXED_BYTES
      then Inl (InvalidFullSnapshot
             (lit ''need at least 9 bytes, got '' @ dec (length pl)))
      else
        let sequence = u64_from_be (take 8 pl);
            modes = pl ! 8
        in and_then (map_err GridError (grid_decode (drop FULL_SNAPSHOT_FIXED_BYTES pl))) (\<lambda>grid.
           and_then (validate_grid_update grid) (\<lambda>_.
           if \<not> is_full_snapshot grid
           then Inl (InvalidFullSnapshot (lit ''grid update is not marked as a full snapshot''))
           else Inr \<lparr>gm_sequence = sequence, gm_alt_screen = modes AND 1 \<noteq> 0,
                     gm_bracketed_paste = modes AND 2 \<noteq> 0, gm_mouse_reporting = modes AND 4 \<noteq> 0,
                     gm_grid = grid\<rparr>)))"

definition decode_grid_delta :: "bytes \<Rightarrow> (remote_codec_error, grid_delta) result" where
  "decode_grid_delta pl =
     (if length pl < 9
      then Inl (InvalidFullSnapshot
             (lit ''grid delta needs at least 8 bytes, got '' @ dec (length pl)))
      else
        let sequence = u64_from_be (take 8 pl);
            modes = pl ! 8
        in and_then (map_err GridError (grid_decode (drop 9 pl))) (\<lambda>grid.
           and_then (validate_grid_update grid) (\<lambda>_.
           if is_full_snapshot grid
           then Inl (InvalidFullSnapshot (lit ''grid delta is marked as a full snapshot''))
           else Inr \<lparr>gm_sequence = sequence, gm_alt_screen = modes AND 1 \<noteq> 0,
                     gm_bracketed_paste = modes AND 2 \<noteq> 0, gm_mouse_reporting = modes AND 4 \<noteq> 0,
                     gm_grid = grid\<rparr>)))"

definition decode_message :: "remote_json \<Rightarrow> byte \<Rightarrow> bytes \<Rightarrow> (remote_codec_error, remote_message) result" where
  "decode_message j kind pl =
     (if kind \<le> frame_type_u8 Modes then
        and_then (map_err (\<lambda>_. UnknownMessageType kind) (frame_type_try_from kind)) (\<lambda>t.
          Inr (MTerminal (frame_new t pl)))
      else if kind = KIND_HELLO then
        and_then (decode_json kind (json_hello j) pl) (\<lambda>v.
        and_then (hello_validate v) (\<lambda>_. Inr (MHello v)))
      else if kind = KIND_HELLO_ACK then
        and_then (decode_json kind (json_hello_ack j) pl) (\<lambda>v.
        and_then (hello_ack_validate v) (\<lambda>_. Inr (MHelloAck v)))
      else if kind = KIND_FULL_SNAPSHOT then
        and_then (decode_full_snapshot pl) (\<lambda>v. Inr (MFullSnapshot v))
      else if kind = KIND_GRID_DELTA then
        and_then (decode_grid_delta pl) (\<lambda>v. Inr (MGridDelta v))
      else if kind = KIND_PROCESS_EXIT then
        and_then (decode_json kind (json_process_exit j) pl) (\<lambda>v. Inr (MProcessExit v))
      else if kind = KIND_SIGNAL then
        and_then (decode_json kind (json_signal j) pl) (\<lambda>v. Inr (MSignal v))
      else if kind = KIND_ACQUIRE_CONTROL then
        and_then (decode_json kind (json_acquire_control j) pl) (\<lambda>v.
        and_then (validate_identifier (lit ''client nonce'') (ac_client_nonce v)) (\<lambda>_.
          Inr (MAcquireControl v)))
      else if kind = KIND_CONTROL_GRANTED then
        and_then (decode_json kind (json_control_granted j) pl) (\<lambda>v. Inr (MControlGranted v))
      else if kind = KIND_CONTROL_REVOKED then
        and_then (decode_json kind (json_control_revoked j) pl) (\<lambda>v. Inr (MControlRevoked v))
      else if kind = KIND_RELEASE_CONTROL then
        and_then (decode_json kind (json_release_control j) pl) (\<lambda>v. Inr (MReleaseControl v))
      else if kind = KIND_SCROLLBACK_REQUEST then
        and_then (decode_json kind (json_scrollback_request j) pl) (\<lambda>v.
        and_then (scrollback_request_validate v) (\<lambda>_. Inr (MScrollbackRequest v)))
      else if kind = KIND_SCROLLBACK_RESPONSE then
        and_then (decode_json kind (json_scrollback_response j) pl) (\<lambda>v. Inr (MScrollbackResponse v))
      else if kind = KIND_ERROR then
        and_then (decode_json kind (json_error j) pl) (\<lambda>v. Inr (MError v))
      else Inl (UnknownMessageType kind))"

definition validate_kind :: "byte \<Rightarrow> (remote_codec_error, unit) result" where
  "validate_kind kind =
     (if (1 \<le> kind \<and> kind \<le> frame_type_u8 Modes) \<or> (KIND_HELLO \<le> kind \<and> kind \<le> KIND_SCROLLBACK_RESPONSE)
      then Inr () else Inl (UnknownMessageType kind))"

record remote_codec =
  remote_buffer :: bytes

definition remote_codec_new :: remote_codec where
  "remote_codec_new = \<lparr>remote_buffer = []\<rparr>"

function remote_feed_loop :: "remote_json \<Rightarrow> bytes \<Rightarrow> usize \<Rightarrow> remote_message list
    \<Rightarrow> (remote_codec_error, remote_message list \<times> usize) result" where
  "remote_feed_loop j buf consumed messages =
     (if length buf - consumed \<ge> HEADER_BYTES then
        and_then (validate_kind (buf ! consumed)) (\<lambda>_.
          let kind = buf ! consumed;
              len = unat (u32_from_be (segment buf (consumed + 1) (consumed + HEADER_BYTES)))
          in if len > MAX_FRAME_BYTES then Inl (RemoteFrameTooLarge len MAX_FRAME_BYTES)
             else if kind \<ge> KIND_HELLO \<and> \<not> large_kind kind \<and> len > MAX_CONTROL_FRAME_BYTES
             then Inl (ControlFrameTooLarge len MAX_CONTROL_FRAME_BYTES)
             else
               let frame_end = consumed + HEADER_BYTES + len in
               if length buf < frame_end then Inr (messages, consumed)
               else (case decode_message j kind (segment buf (consumed + HEADER_BYTES) frame_end) of
                   Inl e \<Rightarrow> Inl e
                 | Inr m \<Rightarrow> remote_feed_loop j buf frame_end (messages @ [m])))
      else Inr (messages, consumed))"
  by pat_completeness auto
termination
  by (relation "measure (\<lambda>(j, buf, consumed, messages). length buf - consumed)")
    (auto simp: HEADER_BYTES_def)

declare remote_feed_loop.simps [simp del]

definition remote_feed :: "remote_json \<Rightarrow> remote_codec \<Rightarrow> bytes
    \<Rightarrow> (remote_codec_error, remote_message list) result \<times> remote_codec" where
  "remote_feed j codec bs =
     (let buf = remote_buffer codec @ bs in
      case remote_feed_loop j buf 0 [] of
        Inl e \<Rightarrow> (Inl e, codec\<lparr>remote_buffer := buf\<rparr>)
      | Inr (messages, consumed) \<Rightarrow>
          (Inr messages, codec\<lparr>remote_buffer := if consumed \<noteq> 0 then drop consumed buf else buf\<rparr>))"

definition remote_buffered_len :: "remote_codec \<Rightarrow> usize" where
  "remote_buffered_len codec = length (remote_buffer codec)"

section \<open>The decoder as an interface\<close>

text \<open>The length that a five-byte header announces, or the header's error.\<close>

definition remote_header :: "bytes \<Rightarrow> (remote_codec_error, nat) result" where
  "remote_header h =
     and_then (validate_kind (h ! 0)) (\<lambda>_.
       let n = unat (u32_from_be (segment h 1 5)) in
       if n > MAX_FRAME_BYTES then Inl (RemoteFrameTooLarge n MAX_FRAME_BYTES)
       else if h ! 0 \<ge> KIND_HELLO \<and> \<not> large_kind (h ! 0) \<and> n > MAX_CONTROL_FRAME_BYTES
       then Inl (ControlFrameTooLarge n MAX_CONTROL_FRAME_BYTES)
       else Inr n)"

definition remote_step :: "remote_json \<Rightarrow> bytes \<Rightarrow> (remote_codec_error, (remote_message \<times> nat) option) result" where
  "remote_step j b =
     (if length b < 5 then Inr None
      else and_then (remote_header (take 5 b)) (\<lambda>n.
        if length b < 5 + n then Inr None
        else and_then (decode_message j (b ! 0) (segment b 5 (5 + n))) (\<lambda>m. Inr (Some (m, 5 + n)))))"

lemma remote_feed_loop_step:
  assumes "c \<le> length b"
  shows "remote_feed_loop j b c acc = (case remote_step j (drop c b) of Inl e \<Rightarrow> Inl e
        | Inr None \<Rightarrow> Inr (acc, c)
        | Inr (Some (m, n)) \<Rightarrow> remote_feed_loop j b (c + n) (acc @ [m]))"
proof (cases "length b - c \<ge> 5")
  case True
  have h: "take 5 (drop c b) ! 0 = b ! c" "segment (take 5 (drop c b)) 1 5 = segment b (c + 1) (c + 5)"
    "drop c b ! 0 = b ! c"
    using True by (auto simp: segment_def drop_take)
  have l: "remote_feed_loop j b c acc = and_then (remote_header (take 5 (drop c b))) (\<lambda>n.
      if length b < c + 5 + n then Inr (acc, c)
      else case decode_message j (b ! c) (segment b (c + 5) (c + 5 + n)) of Inl e \<Rightarrow> Inl e
        | Inr m \<Rightarrow> remote_feed_loop j b (c + 5 + n) (acc @ [m]))"
    unfolding remote_feed_loop.simps [of j b c acc] remote_header_def h HEADER_BYTES_def
    using True by (cases "validate_kind (b ! c)") (simp_all add: Let_def)
  have r: "remote_step j (drop c b) = and_then (remote_header (take 5 (drop c b))) (\<lambda>n.
      if length b < c + 5 + n then Inr None
      else and_then (decode_message j (b ! c) (segment b (c + 5) (c + 5 + n))) (\<lambda>m. Inr (Some (m, 5 + n))))"
  proof -
    have "length b - c < 5 + n \<longleftrightarrow> length b < c + 5 + n" for n
      using assms by auto
    then show ?thesis
      unfolding remote_step_def h segment_drop using True by (simp add: add.assoc cong: if_cong)
  qed
  show ?thesis
  proof (cases "remote_header (take 5 (drop c b))")
    case (Inr n)
    then show ?thesis
      unfolding l r by (cases "decode_message j (b ! c) (segment b (c + 5) (c + 5 + n))")
        (simp_all add: add.assoc)
  qed (simp add: l r)
qed (simp add: remote_feed_loop.simps [of j b c acc] remote_step_def HEADER_BYTES_def)

lemma remote_step_append:
  assumes "length b \<ge> 5"
  shows "remote_step j (b @ c) = and_then (remote_header (take 5 b)) (\<lambda>n.
        if length b + length c < 5 + n then Inr None
        else and_then (decode_message j (b ! 0) (segment (b @ c) 5 (5 + n))) (\<lambda>m. Inr (Some (m, 5 + n))))"
proof -
  have "(b @ c) ! 0 = b ! 0" and "take 5 (b @ c) = take 5 b"
    using assms by (auto simp: nth_append)
  then show ?thesis
    using assms unfolding remote_step_def by (simp only: length_append) simp
qed

interpretation rd: indexed_decoder "remote_step j" "remote_feed_loop j" for j
proof (unfold_locales, goal_cases)
  case (1 c b acc)
  then show ?case
    by (rule remote_feed_loop_step)
next
  case (2 b m n)
  then show ?case
    by (auto simp: remote_step_def and_then_Inr_iff split: if_splits)
next
  case (3 b m n d)
  then obtain x where x: "5 \<le> length b" "remote_header (take 5 b) = Inr x" "5 + x \<le> length b"
    "decode_message j (b ! 0) (segment b 5 (5 + x)) = Inr m" "n = 5 + x"
    by (auto simp: remote_step_def and_then_Inr_iff split: if_splits)
  then show ?case
    by (simp add: remote_step_append segment_append_left)
next
  case (4 b e d)
  then consider "5 \<le> length b" "remote_header (take 5 b) = Inl e"
    | x where "5 \<le> length b" "remote_header (take 5 b) = Inr x" "5 + x \<le> length b"
      "decode_message j (b ! 0) (segment b 5 (5 + x)) = Inl e"
    by (auto simp: remote_step_def and_then_Inl_iff split: if_splits)
  then show ?case
    by cases (simp_all add: remote_step_append segment_append_left)
qed

abbreviation remote_loop :: "remote_json \<Rightarrow> bytes \<Rightarrow> (remote_codec_error, remote_message list \<times> bytes) result" where
  "remote_loop j b \<equiv> and_then (remote_feed_loop j b 0 []) (\<lambda>(ms, k). Inr (ms, drop k b))"

interpretation rf: chunk_feeder "remote_step j" "remote_loop j" "remote_feed j" "\<lambda>b. \<lparr>remote_buffer = b\<rparr>" for j
  by unfold_locales (auto simp: remote_feed_def Let_def split: sum.splits prod.splits)


lemma remote_step_Nil [simp]: "remote_step j [] = Inr None"
  by (simp add: remote_step_def)

section \<open>What one encoding looks like\<close>

abbreviation blank_header :: bytes where "blank_header \<equiv> [0, 0, 0, 0, 0]"

lemma append_json_at:
  "append_json k c v (out @ blank_header) (length out) =
     (fst (append_json k c v (blank_header) 0), out @ snd (append_json k c v (blank_header) 0))"
  by (simp add: append_json_def Let_def split: prod.splits)

text \<open>A writer works on the end of the output only; what it does there is independent of what is before.\<close>

lemma write_message_ok:
  assumes "fst (write_message j m (blank_header) 0) = Inr ()"
  shows "write_message j m (out @ blank_header) (length out) =
    (Inr (), out @ snd (write_message j m (blank_header) 0))"
  using assms
  by (cases m) (auto simp: append_json_at after_check_def write_full_snapshot_def write_grid_delta_def
      append_grid_def rollback_def Let_def split: sum.splits if_splits)

lemma write_message_error:
  assumes "fst (write_message j m (blank_header) 0) = Inl e"
  shows "\<exists>rest. write_message j m (out @ blank_header) (length out) = (Inl e, out @ rest)"
  using assms
  by (cases m) (auto simp: append_json_at after_check_def write_full_snapshot_def write_grid_delta_def
      append_grid_def rollback_def Let_def split: sum.splits if_splits)

lemma write_message_length:
  assumes "fst (write_message j m (blank_header) 0) = Inr ()"
  shows "5 \<le> length (snd (write_message j m (blank_header) 0))"
  using assms
  by (cases m) (auto simp: append_json_def after_check_def write_full_snapshot_def write_grid_delta_def
      append_grid_def rollback_def Let_def split: sum.splits if_splits prod.splits)


lemma encode_into_error:
  assumes "fst (write_message j m blank_header 0) = Inl e"
  shows "encode_into j m out = (Inl e, out)"
proof -
  obtain rest where w: "write_message j m (out @ blank_header) (length out) = (Inl e, out @ rest)"
    using write_message_error [OF assms] by blast
  have "replicate HEADER_BYTES (0 :: byte) = blank_header"
    by (simp add: HEADER_BYTES_def numeral_eq_Suc)
  then show ?thesis
    by (simp add: encode_into_def Let_def w)
qed

lemma encode_into_ok:
  assumes w: "write_message j m blank_header 0 = (Inr (), p)"
  shows "encode_into j m out =
    (if length p - 5 > MAX_FRAME_BYTES
     then (Inl (RemoteFrameTooLarge (length p - 5) MAX_FRAME_BYTES), out)
     else if p ! 0 \<ge> KIND_HELLO \<and> \<not> large_kind (p ! 0) \<and> length p - 5 > MAX_CONTROL_FRAME_BYTES
     then (Inl (ControlFrameTooLarge (length p - 5) MAX_CONTROL_FRAME_BYTES), out)
     else (Inr (), out @ [p ! 0] @ u32_to_be (of_nat (length p - 5)) @ drop 5 p))"
proof -
  have w': "write_message j m (out @ blank_header) (length out) = (Inr (), out @ p)"
    using write_message_ok [of j m out] w by simp
  have p: "5 \<le> length p"
    using write_message_length [of j m] w by simp
  have z: "replicate 5 (0 :: byte) = blank_header"
    by (simp add: numeral_eq_Suc)
  have t: "take (Suc 0) p = [p ! 0]"
    using p by (cases p) auto
  have n: "(out @ p) ! length out = p ! 0" "length (out @ p) - length out - 5 = length p - 5"
    by (auto simp: nth_append)
  show ?thesis
    unfolding encode_into_def z w' Let_def HEADER_BYTES_def
    using p by (auto simp: n t rollback_def MAX_FRAME_BYTES_def)
qed

lemma modes_byte_bits:
  "modes_byte g AND 1 \<noteq> 0 \<longleftrightarrow> gm_alt_screen g"
  "modes_byte g AND 2 \<noteq> 0 \<longleftrightarrow> gm_bracketed_paste g"
  "modes_byte g AND 4 \<noteq> 0 \<longleftrightarrow> gm_mouse_reporting g"
  by (cases "gm_alt_screen g"; cases "gm_bracketed_paste g"; cases "gm_mouse_reporting g";
      simp add: modes_byte_def u8_of_bool_def)+

lemma append_json_ok:
  assumes "append_json k c v blank_header 0 = (Inr (), p)" "json_roundtrip c"
  shows "p ! 0 = k \<and> decode_json k c (drop 5 p) = Inr v"
  using assms by (auto simp: append_json_def Let_def json_roundtrip_def decode_json_def
      split: prod.splits option.splits)

lemma after_check_ok: "after_check c out w = (Inr (), p) \<longleftrightarrow> c = Inr () \<and> w = (Inr (), p)"
  by (cases c) (auto simp: after_check_def)

lemma full_snapshot_ok:
  assumes "write_full_snapshot v blank_header 0 = (Inr (), p)"
  shows "p ! 0 = KIND_FULL_SNAPSHOT \<and> decode_full_snapshot (drop 5 p) = Inr v"
proof -
  obtain bs where g: "validate_grid_update (gm_grid v) = Inr ()" "is_full_snapshot (gm_grid v)"
      "grid_encode (gm_grid v) = Inr bs"
    and p: "p = KIND_FULL_SNAPSHOT # [0, 0, 0, 0] @ u64_to_be (gm_sequence v) @ [modes_byte v] @ bs"
    using assms by (auto simp: write_full_snapshot_def after_check_ok append_grid_def rollback_def Let_def
        split: if_splits sum.splits)
  have "drop 5 p = u64_to_be (gm_sequence v) @ modes_byte v # bs"
    by (simp add: p)
  moreover have "grid_decode bs = Inr (gm_grid v)"
    using grid_decode_encode [OF g(3), of "[]"] by simp
  ultimately show ?thesis
    using g by (simp add: p decode_full_snapshot_def FULL_SNAPSHOT_FIXED_BYTES_def Let_def nth_append
        modes_byte_bits)
qed

lemma grid_delta_ok:
  assumes "write_grid_delta v blank_header 0 = (Inr (), p)"
  shows "p ! 0 = KIND_GRID_DELTA \<and> decode_grid_delta (drop 5 p) = Inr v"
proof -
  obtain bs where g: "validate_grid_update (gm_grid v) = Inr ()" "\<not> is_full_snapshot (gm_grid v)"
      "grid_encode (gm_grid v) = Inr bs"
    and p: "p = KIND_GRID_DELTA # [0, 0, 0, 0] @ u64_to_be (gm_sequence v) @ [modes_byte v] @ bs"
    using assms by (auto simp: write_grid_delta_def after_check_ok append_grid_def rollback_def Let_def
        split: if_splits sum.splits)
  have "drop 5 p = u64_to_be (gm_sequence v) @ modes_byte v # bs"
    by (simp add: p)
  moreover have "grid_decode bs = Inr (gm_grid v)"
    using grid_decode_encode [OF g(3), of "[]"] by simp
  ultimately show ?thesis
    using g by (simp add: p decode_grid_delta_def Let_def nth_append modes_byte_bits)
qed


lemma write_message_decodes:
  assumes "write_message j m blank_header 0 = (Inr (), p)" "remote_json_ok j"
  shows "decode_message j (p ! 0) (drop 5 p) = Inr m \<and> validate_kind (p ! 0) = Inr ()"
proof (cases m)
  case (MTerminal f)
  let ?k = "frame_type_u8 (frame_type f)"
  have k: "?k \<le> frame_type_u8 Modes" "1 \<le> ?k"
    by (cases "frame_type f"; simp)+
  have p: "p ! 0 = ?k" "drop 5 p = frame_payload f"
    using assms MTerminal by auto
  have "frame_new (frame_type f) (frame_payload f) = f"
    by (simp add: frame_new_def)
  then show ?thesis
    unfolding decode_message_def validate_kind_def p using k MTerminal by simp
next
  case (MHello v)
  then show ?thesis
    using assms append_json_ok [of KIND_HELLO "json_hello j" v p]
    by (auto simp: after_check_ok remote_json_ok_def decode_message_def validate_kind_def kind_defs)
next
  case (MHelloAck v)
  then show ?thesis
    using assms append_json_ok [of KIND_HELLO_ACK "json_hello_ack j" v p]
    by (auto simp: after_check_ok remote_json_ok_def decode_message_def validate_kind_def kind_defs)
next
  case (MFullSnapshot v)
  then show ?thesis
    using assms full_snapshot_ok [of v p]
    by (auto simp: decode_message_def validate_kind_def kind_defs)
next
  case (MGridDelta v)
  then show ?thesis
    using assms grid_delta_ok [of v p]
    by (auto simp: decode_message_def validate_kind_def kind_defs)
next
  case (MProcessExit v)
  then show ?thesis
    using assms append_json_ok [of KIND_PROCESS_EXIT "json_process_exit j" v p]
    by (auto simp: remote_json_ok_def decode_message_def validate_kind_def kind_defs)
next
  case (MSignal v)
  then show ?thesis
    using assms append_json_ok [of KIND_SIGNAL "json_signal j" v p]
    by (auto simp: remote_json_ok_def decode_message_def validate_kind_def kind_defs)
next
  case (MAcquireControl v)
  then show ?thesis
    using assms append_json_ok [of KIND_ACQUIRE_CONTROL "json_acquire_control j" v p]
    by (auto simp: after_check_ok remote_json_ok_def decode_message_def validate_kind_def kind_defs)
next
  case (MControlGranted v)
  then show ?thesis
    using assms append_json_ok [of KIND_CONTROL_GRANTED "json_control_granted j" v p]
    by (auto simp: remote_json_ok_def decode_message_def validate_kind_def kind_defs)
next
  case (MControlRevoked v)
  then show ?thesis
    using assms append_json_ok [of KIND_CONTROL_REVOKED "json_control_revoked j" v p]
    by (auto simp: remote_json_ok_def decode_message_def validate_kind_def kind_defs)
next
  case (MReleaseControl v)
  then show ?thesis
    using assms append_json_ok [of KIND_RELEASE_CONTROL "json_release_control j" v p]
    by (auto simp: remote_json_ok_def decode_message_def validate_kind_def kind_defs)
next
  case (MScrollbackRequest v)
  then show ?thesis
    using assms append_json_ok [of KIND_SCROLLBACK_REQUEST "json_scrollback_request j" v p]
    by (auto simp: after_check_ok remote_json_ok_def decode_message_def validate_kind_def kind_defs)
next
  case (MScrollbackResponse v)
  then show ?thesis
    using assms append_json_ok [of KIND_SCROLLBACK_RESPONSE "json_scrollback_response j" v p]
    by (auto simp: remote_json_ok_def decode_message_def validate_kind_def kind_defs)
next
  case (MError v)
  then show ?thesis
    using assms append_json_ok [of KIND_ERROR "json_error j" v p]
    by (auto simp: remote_json_ok_def decode_message_def validate_kind_def kind_defs)
qed

lemma remote_encode_shape:
  assumes "remote_encode j m = Inr e"
  obtains p where "write_message j m blank_header 0 = (Inr (), p)" "5 \<le> length p"
    "length p - 5 \<le> MAX_FRAME_BYTES"
    "\<not> (p ! 0 \<ge> KIND_HELLO \<and> \<not> large_kind (p ! 0) \<and> length p - 5 > MAX_CONTROL_FRAME_BYTES)"
    "e = [p ! 0] @ u32_to_be (of_nat (length p - 5)) @ drop 5 p"
proof (cases "fst (write_message j m blank_header 0)")
  case (Inl x)
  then show ?thesis
    using assms encode_into_error [OF Inl, of "[]"] by (simp add: remote_encode_def)
next
  case (Inr u)
  then obtain p where w: "write_message j m blank_header 0 = (Inr (), p)"
    by (metis (full_types) old.unit.exhaust prod.collapse)
  show ?thesis
    using assms encode_into_ok [OF w, of "[]"] write_message_length [of j m] w
    by (intro that [OF w]) (auto simp: remote_encode_def Let_def split: if_splits)
qed

lemma remote_step_encode:
  assumes "remote_encode j m = Inr e" "remote_json_ok j"
  shows "remote_step j (e @ rest) = Inr (Some (m, length e))"
proof -
  obtain p where p: "write_message j m blank_header 0 = (Inr (), p)" "5 \<le> length p"
    "length p - 5 \<le> MAX_FRAME_BYTES"
    "\<not> (p ! 0 \<ge> KIND_HELLO \<and> \<not> large_kind (p ! 0) \<and> length p - 5 > MAX_CONTROL_FRAME_BYTES)"
    and e: "e = [p ! 0] @ u32_to_be (of_nat (length p - 5)) @ drop 5 p"
    using remote_encode_shape [OF assms(1)] by metis
  let ?h = "[p ! 0] @ u32_to_be (of_nat (length p - 5))"
  have t: "take 5 (e @ rest) = ?h"
    by (simp add: e)
  have "segment ?h 1 5 = u32_to_be (of_nat (length p - 5))"
    by (simp add: segment_def)
  moreover have "?h ! 0 = p ! 0"
    by simp
  ultimately have h: "remote_header ?h = Inr (length p - 5)"
    unfolding remote_header_def using write_message_decodes [OF p(1) assms(2)] p(3,4)
    by (simp only: from_to_be max_frame_fits Let_def and_then_simps) auto
  have "segment (e @ rest) 5 (5 + (length p - 5)) = drop 5 p"
    using segment_append_right [of ?h 5 "drop 5 p @ rest" "length p - 5"] by (simp add: e)
  moreover have "(e @ rest) ! 0 = p ! 0" "length e = length p"
    using p(2) by (simp_all add: e)
  ultimately show ?thesis
    unfolding remote_step_def t h using write_message_decodes [OF p(1) assms(2)] p(2) by simp
qed

lemma encode_into_cases:
  "case encode_into j m out of
     (Inl e, out') \<Rightarrow> out' = out \<and> remote_encode j m = Inl e
   | (Inr _, out') \<Rightarrow> (\<exists>bs. remote_encode j m = Inr bs \<and> out' = out @ bs)"
proof (cases "fst (write_message j m blank_header 0)")
  case (Inl e)
  then show ?thesis
    by (simp add: remote_encode_def encode_into_error)
next
  case (Inr u)
  then obtain p where w: "write_message j m blank_header 0 = (Inr (), p)"
    by (metis (full_types) old.unit.exhaust prod.collapse)
  show ?thesis
    by (simp add: remote_encode_def encode_into_ok [OF w])
qed

section \<open>Properties\<close>

text \<open>
  Claim C20. Messages between engine and holder arrive as sent: when every message of a list
  encodes, the concatenated encodings, cut into chunks in any way and fed to a fresh decoder,
  yield exactly these messages in order and leave nothing in the buffer. JSON is assumed to read
  back what it wrote.
\<close>

theorem remote_stream_roundtrip:
  assumes "remote_json_ok j" "\<forall>m \<in> set ms. remote_encode j m = Inr (enc m)"
    "concat chunks = concat (map enc ms)"
  shows "feed_chunks (remote_feed j) remote_codec_new chunks = (Inr ms, remote_codec_new)"
proof -
  have "remote_loop j (concat (map enc ms) @ []) = Inr (ms, [])"
    using assms(1,2) remote_step_encode by (intro rd.loop_encoded) auto
  then show ?thesis
    using rf.chunks_ok [of j "[]" chunks ms "[]"] assms(3) by (simp add: remote_codec_new_def)
qed

text \<open>A JSON library that knows the control grants and revocations; it writes an epoch as eight bytes.\<close>

definition no_json :: "'a json" where
  "no_json = \<lparr>to_writer = \<lambda>_. ([], Some (lit ''unsupported'')), from_slice = \<lambda>_. Inl (lit ''unsupported'')\<rparr>"

definition grant_json :: "control_granted json" where
  "grant_json = \<lparr>to_writer = \<lambda>v. (u64_to_be (cg_controller_epoch v), None),
     from_slice = \<lambda>bs. Inr \<lparr>cg_controller_epoch = u64_from_be bs\<rparr>\<rparr>"

definition sample_json :: remote_json where
  "sample_json = \<lparr>json_hello = no_json, json_hello_ack = no_json, json_process_exit = no_json,
     json_signal = no_json, json_acquire_control = no_json, json_control_granted = grant_json,
     json_control_revoked = no_json, json_release_control = no_json, json_scrollback_request = no_json,
     json_scrollback_response = no_json, json_error = no_json\<rparr>"

lemma sample_json_ok: "remote_json_ok sample_json"
  by (simp add: remote_json_ok_def json_roundtrip_def sample_json_def no_json_def grant_json_def)

lemma sample_encodings:
  "remote_encode sample_json (MControlGranted \<lparr>cg_controller_epoch = 7\<rparr>)
     = Inr [38, 0, 0, 0, 8, 0, 0, 0, 0, 0, 0, 0, 7]"
  "remote_encode sample_json (MTerminal frame_ping) = Inr [6, 0, 0, 0, 0]"
proof -
  have g: "write_message sample_json (MControlGranted \<lparr>cg_controller_epoch = 7\<rparr>) blank_header 0
      = (Inr (), [38, 0, 0, 0, 0, 0, 0, 0, 0, 0, 0, 0, 7])"
    by (simp add: append_json_def sample_json_def grant_json_def kind_defs u64_to_be_def be_nat_unfold)
  have t: "write_message sample_json (MTerminal frame_ping) blank_header 0 = (Inr (), [6, 0, 0, 0, 0])"
    by (simp add: frame_ping_def frame_new_def)
  show "remote_encode sample_json (MControlGranted \<lparr>cg_controller_epoch = 7\<rparr>)
     = Inr [38, 0, 0, 0, 8, 0, 0, 0, 0, 0, 0, 0, 7]"
    by (simp add: remote_encode_def encode_into_ok [OF g] kind_defs large_kind_def MAX_FRAME_BYTES_def
        MAX_CONTROL_FRAME_BYTES_def u32_to_be_def be_nat_unfold)
  show "remote_encode sample_json (MTerminal frame_ping) = Inr [6, 0, 0, 0, 0]"
    by (simp add: remote_encode_def encode_into_ok [OF t] kind_defs large_kind_def MAX_FRAME_BYTES_def
        MAX_CONTROL_FRAME_BYTES_def u32_to_be_def be_nat_unfold)
qed

theorem remote_stream_roundtrip_witness:
  "feed_chunks (remote_feed sample_json) remote_codec_new
     [[38, 0, 0], [0, 8, 0, 0, 0, 0, 0, 0, 0, 7, 6], [0, 0, 0, 0]]
    = (Inr [MControlGranted \<lparr>cg_controller_epoch = 7\<rparr>, MTerminal frame_ping], remote_codec_new)"
proof (rule remote_stream_roundtrip [OF sample_json_ok])
  let ?enc = "\<lambda>m. if m = MTerminal frame_ping then [6, 0, 0, 0, 0] else [38, 0, 0, 0, 8, 0, 0, 0, 0, 0, 0, 0, 7]"
  show "\<forall>m \<in> set [MControlGranted \<lparr>cg_controller_epoch = 7\<rparr>, MTerminal frame_ping].
      remote_encode sample_json m = Inr (?enc m)"
    by (simp add: sample_encodings)
  show "concat [[38, 0, 0], [0, 8, 0, 0, 0, 0, 0, 0, 0, 7, 6], [0, 0, 0, 0]]
      = concat (map ?enc [MControlGranted \<lparr>cg_controller_epoch = 7\<rparr>, MTerminal frame_ping])"
    by simp
qed

text \<open>
  The SSH channel may cut the stream anywhere: two chunkings of the same bytes give
  the same messages or the same error, for malformed streams too and whatever the JSON library does.
\<close>

theorem remote_chunking_irrelevant:
  assumes "concat xs = concat ys"
  shows "fst (feed_chunks (remote_feed j) remote_codec_new xs)
    = fst (feed_chunks (remote_feed j) remote_codec_new ys)"
  using rf.chunks_by_content [of j "[]" xs ys] assms by (simp add: remote_codec_new_def)

theorem remote_chunking_irrelevant_witness:
  "fst (feed_chunks (remote_feed sample_json) remote_codec_new [[99], [0, 0, 0, 0]])
    = fst (feed_chunks (remote_feed sample_json) remote_codec_new [[99, 0, 0], [], [0, 0]])"
  by (rule remote_chunking_irrelevant) simp

text \<open>
  Encoding into a shared output buffer is all or nothing: it either appends exactly
  the message's encoding, or fails and leaves the buffer as it was, even when the JSON library
  failed half-way through writing.
\<close>

theorem encode_into_atomic:
  "case encode_into j m out of
     (Inl e, out') \<Rightarrow> out' = out \<and> remote_encode j m = Inl e
   | (Inr _, out') \<Rightarrow> (\<exists>bs. remote_encode j m = Inr bs \<and> out' = out @ bs)"
  by (rule encode_into_cases)

definition message_checked :: "remote_message \<Rightarrow> bool" where
  "message_checked m = (case m of
       MHello v \<Rightarrow> hello_validate v = Inr ()
     | MHelloAck v \<Rightarrow> hello_ack_validate v = Inr ()
     | MFullSnapshot v \<Rightarrow> validate_grid_update (gm_grid v) = Inr () \<and> is_full_snapshot (gm_grid v)
     | MGridDelta v \<Rightarrow> validate_grid_update (gm_grid v) = Inr () \<and> \<not> is_full_snapshot (gm_grid v)
     | MAcquireControl v \<Rightarrow> validate_identifier (lit ''client nonce'') (ac_client_nonce v) = Inr ()
     | MScrollbackRequest v \<Rightarrow> scrollback_request_validate v = Inr ()
     | _ \<Rightarrow> True)"


lemma decode_grids_checked:
  "decode_full_snapshot pl = Inr v \<Longrightarrow> validate_grid_update (gm_grid v) = Inr () \<and> is_full_snapshot (gm_grid v)"
  "decode_grid_delta pl = Inr v \<Longrightarrow> validate_grid_update (gm_grid v) = Inr () \<and> \<not> is_full_snapshot (gm_grid v)"
  by (auto simp: decode_full_snapshot_def decode_grid_delta_def Let_def and_then_Inr_iff split: if_splits)

lemma decode_message_checked: "decode_message j k pl = Inr m \<Longrightarrow> message_checked m"
  unfolding decode_message_def
  by (auto simp: and_then_Inr_iff message_checked_def decode_grids_checked split: if_splits)


lemma remote_feed_example:
  "remote_feed sample_json remote_codec_new [6, 0, 0, 0, 0, 38] =
     (Inr [MTerminal frame_ping], \<lparr>remote_buffer = [38]\<rparr>)"
proof -
  have "remote_step sample_json [38] = Inr None"
    by (simp add: remote_step_def)
  then have "remote_loop sample_json ([6, 0, 0, 0, 0] @ [38]) = Inr ([MTerminal frame_ping], [38])"
    using rd.loop_encoded [of "[MTerminal frame_ping]" sample_json "\<lambda>_. [6, 0, 0, 0, 0]" "[38]"]
      remote_step_encode [OF sample_encodings(2) sample_json_ok] by simp
  then show ?thesis
    using rf.feed_eq [of sample_json "[]" "[6, 0, 0, 0, 0, 38]"] by (simp add: remote_codec_new_def)
qed


end
