(* ===== verification/Offset_Log.thy ===== *)
theory Offset_Log
  imports Prelude
begin

text \<open>
  The contract of an offset-addressed log of terminal output, which the engine's log and the
  remote holder's log both promise: \<open>holds S l\<close> says that the bytes ever appended to \<open>l\<close> are \<open>S\<close>; a
  read from an offset gives bytes of \<open>S\<close> at the offset it names, as many as asked for and
  available, and never skips over bytes that are still there. The client of the contract is the
  loop of \<^verbatim>\<open>pump_held\<close> and of the remote bridge, which reads chunk after chunk from the
  last end until nothing is left.
\<close>

fun catch_up :: "('l \<Rightarrow> nat \<Rightarrow> nat \<Rightarrow> (nat \<times> bytes) \<times> 'l) \<Rightarrow> nat \<Rightarrow> 'l \<Rightarrow> nat \<Rightarrow> nat \<Rightarrow> bytes \<times> 'l" where
  "catch_up rd 0 l off n = ([], l)"
| "catch_up rd (Suc fuel) l off n =
     (let ((s, bs), l') = rd l off n in
      if bs = [] then ([], l')
      else let (rest, l'') = catch_up rd fuel l' (s + length bs) n in (bs @ rest, l''))"

locale offset_log =
  fixes holds :: "bytes \<Rightarrow> 'l \<Rightarrow> bool"
    and oldest :: "'l \<Rightarrow> nat"
    and rd :: "'l \<Rightarrow> nat \<Rightarrow> nat \<Rightarrow> (nat \<times> bytes) \<times> 'l"
  assumes oldest_le: "holds S l \<Longrightarrow> oldest l \<le> length S"
    and read_data: "holds S l \<Longrightarrow> 0 < n \<Longrightarrow> fst (rd l from n) =
      (let s = max from (oldest l) in
       if s \<ge> length S then (length S, []) else (s, segment S s (min (length S) (s + n))))"
    and read_keeps: "holds S l \<Longrightarrow> holds S (snd (rd l from n))"
    and read_oldest: "holds S l \<Longrightarrow> oldest (snd (rd l from n)) = oldest l"
begin

lemma read_genuine:
  assumes "holds S l" "0 < n" "fst (rd l from n) = (s, bs)" "i < length bs"
  shows "s + i < length S \<and> bs ! i = S ! (s + i) \<and> from \<le> s"
proof -
  let ?s = "max from (oldest l)"
  have "?s < length S" "s = ?s" "bs = segment S ?s (min (length S) (?s + n))"
    using assms read_data [OF assms(1,2), of "from"] by (auto simp: Let_def split: if_splits)
  then show ?thesis
    using assms(4) by (auto simp: segment_def)
qed

text \<open>Catching up from an offset yields everything from there on that is still stored.\<close>

lemma catch_up_complete:
  assumes "holds S l" "0 < n" "length S - off < fuel"
  shows "fst (catch_up rd fuel l off n) = drop (max off (oldest l)) S"
  using assms(1,3)
proof (induction fuel arbitrary: l off)
  case (Suc fuel)
  let ?s = "max off (oldest l)"
  obtain s bs l' where r: "rd l off n = ((s, bs), l')"
    by (metis prod.exhaust)
  have data: "(s, bs) = (if ?s \<ge> length S then (length S, []) else (?s, segment S ?s (min (length S) (?s + n))))"
    using read_data [OF Suc.prems(1) assms(2), of off] by (simp add: r Let_def)
  show ?case
  proof (cases "?s \<ge> length S")
    case True
    then show ?thesis using data by (simp add: r)
  next
    case False
    have bs: "s = ?s" "bs = take n (drop ?s S)"
      using data False by (auto simp: segment_def min_def split: if_splits)
    have ne: "bs \<noteq> []"
      using False assms(2) bs by simp
    have h: "holds S l'" "oldest l' = oldest l"
      using read_keeps [OF Suc.prems(1), of off n] read_oldest [OF Suc.prems(1), of off n] by (simp_all add: r)
    have "length S - (s + length bs) < fuel"
    proof -
      have "0 < length bs" using ne by simp
      moreover have "off \<le> s" using bs(1) by simp
      ultimately show ?thesis using Suc.prems(2) False by linarith
    qed
    then have "fst (catch_up rd fuel l' (s + length bs) n) = drop (max (s + length bs) (oldest l')) S"
      using Suc.IH h(1) by blast
    moreover have "max (s + length bs) (oldest l') = s + length bs"
      using h(2) bs(1) by simp
    ultimately have rest: "fst (catch_up rd fuel l' (s + length bs) n) = drop (s + length bs) S"
      by simp
    have "bs @ drop (s + length bs) S = drop s S"
    proof -
      have "bs = take (length bs) (drop s S)"
        unfolding bs by (cases "n \<le> length S - ?s") simp_all
      then show ?thesis
        by (metis add.commute append_take_drop_id drop_drop)
    qed
    then show ?thesis
      using ne rest bs(1) by (auto simp: r split: prod.split)
  qed
qed simp

end

end
