(* ===== verification/Output_Log.thy ===== *)
theory Output_Log
  imports Offset_Log "HOL-Library.Sublist"
begin

text \<open>
  The engine's log of one session's terminal output, \<^verbatim>\<open>homie-engine/src/log.rs\<close>: a ring of recent
  bytes in memory and a spill file on disk that is cut to its newer half when it outgrows its
  capacity. Files are inodes: \<open>inode_data\<close> is what each holds, \<open>log_inode\<close> the inode the log's path
  names; handles hold an inode, so that a handle kept across a replacement reads the old file.
  Each call that touches the disk takes the outcomes of its system calls (\<open>log_io\<close>), so that every
  early return of the source is a branch here. A subtraction below zero is a panic, \<open>None\<close>.
  Offsets are natural numbers; the header holds their low 64 bits.
  Shown: without faults the log keeps the contract of \<open>Offset_Log\<close>, reopening included, and the
  replay start it prefers is the newest screen reset within the budget; and three defects.
\<close>

section \<open>Disk\<close>

record disk_state =
  inode_data :: "nat \<Rightarrow> bytes"
  log_inode :: "nat option"
  next_inode :: nat

datatype io_error = IoError

datatype truncate_fault =
    SourceUnreadable \<comment> \<open>opening, seeking or reading the old file\<close>
  | ReplaceFailed \<comment> \<open>writing the temporary file or renaming it\<close>
  | ReopenFailed \<comment> \<open>opening the new file for appending\<close>

record log_io =
  write_fault :: "nat option" \<comment> \<open>write\_all fails after so many bytes\<close>
  sync_due :: bool \<comment> \<open>last\_sync.elapsed() > SYNC\_INTERVAL\<close>
  sync_fault :: bool
  truncate_fault :: "truncate_fault option"

definition append_inode :: "nat \<Rightarrow> bytes \<Rightarrow> disk_state \<Rightarrow> disk_state" where
  "append_inode ino bs fs = fs\<lparr>inode_data := (inode_data fs)(ino := inode_data fs ino @ bs)\<rparr>"

text \<open>A new file put in the place of the log's path.\<close>

definition replace_log :: "bytes \<Rightarrow> disk_state \<Rightarrow> disk_state" where
  "replace_log bs fs = fs\<lparr>inode_data := (inode_data fs)(next_inode fs := bs),
     log_inode := Some (next_inode fs), next_inode := next_inode fs + 1\<rparr>"

section \<open>The log\<close>

definition LOG_MAGIC :: u32 where "LOG_MAGIC = 0x4449524A"
definition LOG_VERSION :: u32 where "LOG_VERSION = 1"
definition HEADER_SIZE :: usize where "HEADER_SIZE = 16"
definition MAX_SYNC_POINTS :: usize where "MAX_SYNC_POINTS = 64"
definition DEFAULT_RING_CAPACITY :: usize where "DEFAULT_RING_CAPACITY = 4 * 2 ^ 20"
definition DEFAULT_DISK_CAPACITY :: usize where "DEFAULT_DISK_CAPACITY = 8 * 2 ^ 20"

record output_log =
  lg_ring_capacity :: usize
  lg_disk_capacity :: usize
  lg_tail_offset :: nat
  lg_ring_start_offset :: nat
  lg_ring :: bytes
  lg_read_only :: bool
  lg_write_handle :: "nat option"
  lg_read_handle :: "nat option"
  lg_file_base_offset :: nat
  lg_file_bytes :: usize
  lg_sync_points :: "nat list"
  lg_carry :: bytes

definition log_header :: "nat \<Rightarrow> bytes" where
  "log_header base = u32_to_be LOG_MAGIC @ u32_to_be LOG_VERSION @ u64_to_be (of_nat base)"

definition read_u32_be :: "bytes \<Rightarrow> usize \<Rightarrow> u32" where
  "read_u32_be bs off = u32_from_be (segment bs off (off + 4))"

definition read_u64_be :: "bytes \<Rightarrow> usize \<Rightarrow> u64" where
  "read_u64_be bs off = u64_from_be (segment bs off (off + 8))"

subsection \<open>Opening\<close>

definition invalidate_read_handle :: "output_log \<Rightarrow> output_log" where
  "invalidate_read_handle log = log\<lparr>lg_read_handle := None\<rparr>"

text \<open>\<open>write_private\<close> on the log's path truncates the file there, or makes a new one.\<close>

definition create_file :: "nat \<Rightarrow> output_log \<times> disk_state \<Rightarrow> output_log \<times> disk_state" where
  "create_file base p =
     (let (log, fs) = p;
          log = invalidate_read_handle log;
          fs = (case log_inode fs of
                  None \<Rightarrow> replace_log (log_header base) fs
                | Some ino \<Rightarrow> fs\<lparr>inode_data := (inode_data fs)(ino := log_header base)\<rparr>);
          log = log\<lparr>lg_file_base_offset := base, lg_file_bytes := 0\<rparr>
      in (if lg_read_only log then log else log\<lparr>lg_write_handle := log_inode fs\<rparr>, fs))"

text \<open>The base offset and payload size of a file with a valid header.\<close>

definition recovered_header :: "bytes \<Rightarrow> (nat \<times> usize) option" where
  "recovered_header data =
     (if length data < HEADER_SIZE then None
      else if read_u32_be data 0 \<noteq> LOG_MAGIC then None
      else Some (unat (read_u64_be data 8), length data - HEADER_SIZE))"

definition open_or_recover :: "output_log \<times> disk_state \<Rightarrow> output_log \<times> disk_state" where
  "open_or_recover p =
     (let (log, fs) = p in
      case Option.bind (log_inode fs) (\<lambda>ino. recovered_header (inode_data fs ino)) of
        Some (base, n) \<Rightarrow>
          (let log = log\<lparr>lg_file_base_offset := base, lg_file_bytes := n,
                         lg_tail_offset := base + n, lg_ring_start_offset := base + n\<rparr>
           in (if lg_read_only log then log\<lparr>lg_read_handle := log_inode fs\<rparr>
               else log\<lparr>lg_write_handle := log_inode fs\<rparr>, fs))
      | None \<Rightarrow> create_file 0 (log, fs))"

definition log_open :: "usize \<Rightarrow> usize \<Rightarrow> bool \<Rightarrow> disk_state \<Rightarrow> output_log \<times> disk_state" where
  "log_open ring_capacity disk_capacity read_only fs = open_or_recover
     (\<lparr>lg_ring_capacity = ring_capacity, lg_disk_capacity = disk_capacity, lg_tail_offset = 0,
       lg_ring_start_offset = 0, lg_ring = [], lg_read_only = read_only, lg_write_handle = None,
       lg_read_handle = None, lg_file_base_offset = 0, lg_file_bytes = 0, lg_sync_points = [],
       lg_carry = []\<rparr>, fs)"

definition log_writer :: "disk_state \<Rightarrow> output_log \<times> disk_state" where
  "log_writer fs = log_open DEFAULT_RING_CAPACITY DEFAULT_DISK_CAPACITY False fs"

definition log_reader :: "disk_state \<Rightarrow> output_log \<times> disk_state" where
  "log_reader fs = log_open DEFAULT_RING_CAPACITY DEFAULT_DISK_CAPACITY True fs"

subsection \<open>Appending\<close>

definition reset_found :: "bytes \<Rightarrow> nat \<Rightarrow> bool" where
  "reset_found hay i \<longleftrightarrow> hay ! i = 0x1B \<and>
     (hay ! (i + 1) = 0x63
      \<or> (i + 3 < length hay \<and> hay ! (i + 1) = 0x5B \<and> hay ! (i + 2) = 0x32 \<and> hay ! (i + 3) = 0x4A))"

definition push_sync_point :: "nat \<Rightarrow> nat list \<Rightarrow> nat list" where
  "push_sync_point off pts =
     (if pts \<noteq> [] \<and> last pts = off then pts
      else let pts = pts @ [off] in
        if length pts > MAX_SYNC_POINTS then drop (length pts - MAX_SYNC_POINTS) pts else pts)"

definition scan_for_sync_points :: "bytes \<Rightarrow> nat \<Rightarrow> output_log \<Rightarrow> output_log" where
  "scan_for_sync_points data chunk_start log =
     (let carry_count = length (lg_carry log);
          hay = lg_carry log @ data;
          keep = length hay - 3;
          log = log\<lparr>lg_carry := drop keep hay\<rparr>
      in if length hay < 2 then log
         else log\<lparr>lg_sync_points := fold (\<lambda>i pts.
                 if \<not> reset_found hay i then pts
                 else push_sync_point (nat (max 0 (int chunk_start + (int i - int carry_count)))) pts)
               [0..<length hay - 1] (lg_sync_points log)\<rparr>)"

definition truncate_to_half :: "log_io \<Rightarrow> output_log \<times> disk_state
    \<Rightarrow> (io_error, unit) result \<times> output_log \<times> disk_state" where
  "truncate_to_half io p =
     (let (log, fs) = p;
          log = invalidate_read_handle log;
          keep = lg_disk_capacity log div 2;
          drop_bytes = lg_file_bytes log - keep
      in case log_inode fs of
           None \<Rightarrow> (Inl IoError, log, fs)
         | Some ino \<Rightarrow>
             if truncate_fault io = Some SourceUnreadable then (Inl IoError, log, fs)
             else
               let kept = drop (HEADER_SIZE + drop_bytes) (inode_data fs ino);
                   log = log\<lparr>lg_write_handle := None\<rparr>;
                   new_base = lg_file_base_offset log + drop_bytes
               in if truncate_fault io = Some ReplaceFailed then (Inl IoError, log, fs)
                  else
                    let fs = replace_log (log_header new_base @ kept) fs;
                        log = log\<lparr>lg_file_base_offset := new_base, lg_file_bytes := length kept\<rparr>
                    in if truncate_fault io = Some ReopenFailed then (Inl IoError, log, fs)
                       else (Inr (), log\<lparr>lg_write_handle := log_inode fs,
                               lg_sync_points := filter (\<lambda>s. s \<ge> new_base) (lg_sync_points log)\<rparr>, fs))"

definition append_to_disk :: "log_io \<Rightarrow> bytes \<Rightarrow> output_log \<times> disk_state
    \<Rightarrow> (io_error, unit) result \<times> output_log \<times> disk_state" where
  "append_to_disk io data p =
     (let (log, fs) = p in
      if lg_read_only log then (Inr (), log, fs)
      else case lg_write_handle log of
        None \<Rightarrow> (Inr (), log, fs)
      | Some ino \<Rightarrow>
          (case write_fault io of
             Some k \<Rightarrow> (Inl IoError, log, append_inode ino (take k data) fs)
           | None \<Rightarrow>
               let fs = append_inode ino data fs;
                   log = log\<lparr>lg_file_bytes := lg_file_bytes log + length data\<rparr>
               in if sync_due io \<and> sync_fault io then (Inl IoError, log, fs)
                  else if lg_file_bytes log > lg_disk_capacity log
                  then truncate_to_half io (log, fs)
                  else (Inr (), log, fs)))"

definition log_append :: "log_io \<Rightarrow> bytes \<Rightarrow> output_log \<times> disk_state
    \<Rightarrow> (io_error, nat \<times> nat) result \<times> output_log \<times> disk_state" where
  "log_append io data p =
     (let (log, fs) = p in
      if data = [] then (Inr (lg_tail_offset log, lg_tail_offset log), log, fs)
      else
        let start = lg_tail_offset log;
            log = scan_for_sync_points data start log;
            log = log\<lparr>lg_ring := lg_ring log @ data\<rparr>;
            log = (if length (lg_ring log) > lg_ring_capacity log
                   then let n = length (lg_ring log) - lg_ring_capacity log
                        in log\<lparr>lg_ring := drop n (lg_ring log),
                               lg_ring_start_offset := lg_ring_start_offset log + n\<rparr>
                   else log);
            log = log\<lparr>lg_tail_offset := lg_tail_offset log + length data\<rparr>;
            (res, log, fs) = append_to_disk io data (log, fs)
        in (and_then res (\<lambda>_. Inr (start, lg_tail_offset log)), log, fs))"

subsection \<open>Reading\<close>

definition reader_handle :: "output_log \<times> disk_state \<Rightarrow> output_log" where
  "reader_handle p =
     (let (log, fs) = p in
      if lg_read_handle log = None then log\<lparr>lg_read_handle := log_inode fs\<rparr> else log)"

definition read_from_disk :: "nat \<Rightarrow> nat \<Rightarrow> output_log \<times> disk_state
    \<Rightarrow> (nat \<times> bytes) option \<times> output_log \<times> disk_state" where
  "read_from_disk from_offset to_offset p =
     (let (log, fs) = p;
          base = lg_file_base_offset log;
          log = reader_handle (log, fs)
      in case lg_read_handle log of
           None \<Rightarrow> (Some (lg_tail_offset log, []), log, fs)
         | Some ino \<Rightarrow>
             let start = max from_offset base;
                 pos = HEADER_SIZE + (start - base)
             in if to_offset < start then (None, log, fs)
                else (Some (start, take (to_offset - start) (drop pos (inode_data fs ino))), log, fs))"

definition log_read :: "nat \<Rightarrow> usize \<Rightarrow> output_log \<times> disk_state
    \<Rightarrow> (nat \<times> bytes) option \<times> output_log \<times> disk_state" where
  "log_read from_offset max_bytes p =
     (let (log, fs) = p;
          oldest_available = min (lg_ring_start_offset log) (lg_file_base_offset log);
          start = max from_offset oldest_available
      in if start \<ge> lg_tail_offset log then (Some (lg_tail_offset log, []), log, fs)
         else
           let finish = min (lg_tail_offset log) (start + max_bytes) in
           if \<not> lg_read_only log \<and> start \<ge> lg_ring_start_offset log
              \<and> finish - lg_ring_start_offset log \<le> length (lg_ring log)
           then (Some (start, segment (lg_ring log) (start - lg_ring_start_offset log)
                   (finish - lg_ring_start_offset log)), log, fs)
           else read_from_disk start finish (log, fs))"

definition preferred_replay_start :: "usize \<Rightarrow> output_log \<Rightarrow> nat" where
  "preferred_replay_start budget log =
     (let floor = lg_tail_offset log - budget in
      case find (\<lambda>s. s \<ge> floor \<and> s < lg_tail_offset log) (rev (lg_sync_points log)) of
        Some s \<Rightarrow> s
      | None \<Rightarrow> max floor (min (min (lg_ring_start_offset log) (lg_file_base_offset log))
                             (lg_tail_offset log)))"

definition refresh_from_disk :: "output_log \<times> disk_state \<Rightarrow> bool \<times> output_log \<times> disk_state" where
  "refresh_from_disk p =
     (let (log, fs) = p in
      if \<not> lg_read_only log then (False, log, fs)
      else
        let log = reader_handle (log, fs) in
        case lg_read_handle log of
          None \<Rightarrow> (False, log, fs)
        | Some ino \<Rightarrow>
            let data = inode_data fs ino in
            if length data < HEADER_SIZE then (False, log, fs)
            else if read_u32_be data 0 \<noteq> LOG_MAGIC then (False, log, fs)
            else
              let new_base = unat (read_u64_be data 8);
                  new_bytes = length data - HEADER_SIZE;
                  new_tail = new_base + new_bytes;
                  changed = (new_tail \<noteq> lg_tail_offset log \<or> new_base \<noteq> lg_file_base_offset log)
              in (changed,
                  log\<lparr>lg_file_base_offset := new_base, lg_file_bytes := new_bytes,
                      lg_tail_offset := new_tail,
                      lg_sync_points := filter (\<lambda>s. s \<ge> new_base) (lg_sync_points log)\<rparr>, fs))"

section \<open>What a log stores\<close>

text \<open>
  \<open>in_memory S\<close>: the ring is the newest part of the stream \<open>S\<close>. \<open>on_disk S\<close>: the file at the log's path
  is a header and the stream from the base offset on, and every handle is on that file.
\<close>

definition in_memory :: "bytes \<Rightarrow> output_log \<Rightarrow> bool" where
  "in_memory S log \<longleftrightarrow> lg_tail_offset log = length S \<and> lg_ring_start_offset log \<le> length S
     \<and> lg_ring log = drop (lg_ring_start_offset log) S"

definition on_disk :: "bytes \<Rightarrow> output_log \<times> disk_state \<Rightarrow> bool" where
  "on_disk S p \<longleftrightarrow> (case p of (log, fs) \<Rightarrow>
     \<not> lg_read_only log \<and> lg_file_base_offset log \<le> length S
     \<and> lg_file_bytes log = length S - lg_file_base_offset log
     \<and> (\<exists>ino. lg_write_handle log = Some ino \<and> log_inode fs = Some ino \<and> ino < next_inode fs
          \<and> inode_data fs ino = log_header (lg_file_base_offset log) @ drop (lg_file_base_offset log) S)
     \<and> (lg_read_handle log = None \<or> lg_read_handle log = log_inode fs))"

definition stored :: "bytes \<Rightarrow> output_log \<times> disk_state \<Rightarrow> bool" where
  "stored S p \<longleftrightarrow> in_memory S (fst p) \<and> on_disk S p"

definition no_faults :: "log_io \<Rightarrow> bool" where
  "no_faults io \<longleftrightarrow> write_fault io = None \<and> \<not> (sync_due io \<and> sync_fault io) \<and> truncate_fault io = None"

lemma length_log_header [simp]: "length (log_header base) = 16"
  by (simp add: log_header_def)

lemma scan_keeps [simp]:
  "lg_tail_offset (scan_for_sync_points d c log) = lg_tail_offset log"
  "lg_ring_start_offset (scan_for_sync_points d c log) = lg_ring_start_offset log"
  "lg_ring (scan_for_sync_points d c log) = lg_ring log"
  "lg_ring_capacity (scan_for_sync_points d c log) = lg_ring_capacity log"
  "lg_disk_capacity (scan_for_sync_points d c log) = lg_disk_capacity log"
  "lg_read_only (scan_for_sync_points d c log) = lg_read_only log"
  "lg_write_handle (scan_for_sync_points d c log) = lg_write_handle log"
  "lg_read_handle (scan_for_sync_points d c log) = lg_read_handle log"
  "lg_file_base_offset (scan_for_sync_points d c log) = lg_file_base_offset log"
  "lg_file_bytes (scan_for_sync_points d c log) = lg_file_bytes log"
  by (simp_all add: scan_for_sync_points_def Let_def)

lemma truncate_keeps_memory:
  "truncate_to_half io (log, fs) = (res, log', fs') \<Longrightarrow> in_memory S log \<Longrightarrow> in_memory S log'"
  by (auto simp: truncate_to_half_def invalidate_read_handle_def in_memory_def Let_def
      split: option.splits if_splits)

lemma truncate_on_disk:
  assumes "on_disk S (log, fs)" "no_faults io"
  shows "fst (truncate_to_half io (log, fs)) = Inr () \<and> on_disk S (snd (truncate_to_half io (log, fs)))"
proof -
  obtain ino where "lg_write_handle log = Some ino" "log_inode fs = Some ino" "ino < next_inode fs"
    "inode_data fs ino = log_header (lg_file_base_offset log) @ drop (lg_file_base_offset log) S"
    using assms(1) by (auto simp: on_disk_def)
  moreover have "drop (n + b) S = drop (b + n) S" for n b
    by (simp add: add.commute)
  ultimately show ?thesis
    using assms
    by (simp add: on_disk_def no_faults_def truncate_to_half_def invalidate_read_handle_def Let_def
        replace_log_def HEADER_SIZE_def) auto
qed

lemma append_to_disk_memory:
  assumes "append_to_disk io data (log, fs) = (res, log', fs')" "in_memory S log"
  shows "in_memory S log'"
proof -
  have m: "in_memory S (log\<lparr>lg_file_bytes := n\<rparr>)" for n
    using assms(2) by (simp add: in_memory_def)
  show ?thesis
    using assms m [of "lg_file_bytes log + length data"] truncate_keeps_memory [OF _ m, of io]
    unfolding append_to_disk_def Let_def
    by (fastforce split: option.splits if_splits)
qed

lemma append_to_disk_on_disk:
  assumes "on_disk S (log, fs)" "no_faults io"
  shows "fst (append_to_disk io data (log, fs)) = Inr () \<and> on_disk (S @ data) (snd (append_to_disk io data (log, fs)))"
proof -
  obtain ino where w: "lg_write_handle log = Some ino" "\<not> lg_read_only log"
    using assms(1) by (auto simp: on_disk_def)
  let ?log = "log\<lparr>lg_file_bytes := lg_file_bytes log + length data\<rparr>"
  let ?fs = "append_inode ino data fs"
  have d: "on_disk (S @ data) (?log, ?fs)"
    using assms(1) w by (auto simp: on_disk_def append_inode_def)
  show ?thesis
    using w d truncate_on_disk [OF d assms(2)] assms(2)
    by (simp add: append_to_disk_def no_faults_def Let_def)
qed

lemma ring_step:
  assumes "in_memory S log"
  shows "in_memory (S @ data)
    ((if length (lg_ring log @ data) > c
      then (log\<lparr>lg_ring := drop (length (lg_ring log @ data) - c) (lg_ring log @ data),
                lg_ring_start_offset := lg_ring_start_offset log + (length (lg_ring log @ data) - c)\<rparr>)
      else log\<lparr>lg_ring := lg_ring log @ data\<rparr>)\<lparr>lg_tail_offset := lg_tail_offset log + length data\<rparr>)"
  using assms by (auto simp: in_memory_def min_def)

text \<open>The in-memory half of an append gives a log \<open>m\<close>; the disk half starts from it.\<close>

lemma log_append_shape:
  assumes "data \<noteq> []" "stored S (log, fs)"
  obtains m where "in_memory (S @ data) m" "on_disk S (m, fs)"
    "lg_disk_capacity m = lg_disk_capacity log" "lg_file_base_offset m = lg_file_base_offset log"
    "lg_sync_points m = lg_sync_points (scan_for_sync_points data (length S) log)"
    "lg_carry m = lg_carry (scan_for_sync_points data (length S) log)"
    "log_append io data (log, fs) =
       (case append_to_disk io data (m, fs) of
          (res, log', fs') \<Rightarrow> (and_then res (\<lambda>_. Inr (length S, lg_tail_offset log')), log', fs'))"
proof -
  let ?l = "scan_for_sync_points data (length S) log"
  let ?m = "(if length (lg_ring ?l @ data) > lg_ring_capacity ?l
      then (?l\<lparr>lg_ring := drop (length (lg_ring ?l @ data) - lg_ring_capacity ?l) (lg_ring ?l @ data),
                lg_ring_start_offset := lg_ring_start_offset ?l + (length (lg_ring ?l @ data) - lg_ring_capacity ?l)\<rparr>)
      else ?l\<lparr>lg_ring := lg_ring ?l @ data\<rparr>)\<lparr>lg_tail_offset := lg_tail_offset ?l + length data\<rparr>"
  have "in_memory (S @ data) ?m"
    by (rule ring_step) (use assms in \<open>simp add: stored_def in_memory_def\<close>)
  moreover have "on_disk S (?m, fs)"
    using assms(2) by (simp add: stored_def on_disk_def)
  moreover have "lg_tail_offset log = length S"
    using assms(2) by (simp add: stored_def in_memory_def)
  then have "log_append io data (log, fs) = (case append_to_disk io data (?m, fs) of
          (res, log', fs') \<Rightarrow> (and_then res (\<lambda>_. Inr (length S, lg_tail_offset log')), log', fs'))"
    using assms(1) by (simp add: log_append_def Let_def if_distrib [where f = lg_tail_offset]
        split del: if_split cong: if_cong)
  ultimately show ?thesis
    by (intro that [of ?m]) simp_all
qed

lemma log_append_Nil [simp]: "snd (log_append io [] p) = p"
  by (cases p) (simp add: log_append_def)

lemma log_append_stored:
  assumes "stored S p" "no_faults io"
  shows "fst (log_append io data p) = Inr (length S, length S + length data)
    \<and> stored (S @ data) (snd (log_append io data p))"
proof (cases "data = []")
  case True
  then show ?thesis
    using assms by (cases p) (auto simp: log_append_def stored_def in_memory_def)
next
  case False
  obtain log fs where p: "p = (log, fs)" by (cases p)
  have st: "stored S (log, fs)" using assms(1) p by simp
  obtain m where m: "in_memory (S @ data) m" "on_disk S (m, fs)"
    "lg_disk_capacity m = lg_disk_capacity log" "lg_file_base_offset m = lg_file_base_offset log"
    "lg_sync_points m = lg_sync_points (scan_for_sync_points data (length S) log)"
    "lg_carry m = lg_carry (scan_for_sync_points data (length S) log)"
    and a: "log_append io data (log, fs) = (case append_to_disk io data (m, fs) of
          (res, log', fs') \<Rightarrow> (and_then res (\<lambda>_. Inr (length S, lg_tail_offset log')), log', fs'))"
    by (rule log_append_shape [OF False st, of io])
  obtain res log' fs' where d: "append_to_disk io data (m, fs) = (res, log', fs')"
    by (metis prod.exhaust)
  show ?thesis
    using append_to_disk_on_disk [OF m(2) assms(2), of data] append_to_disk_memory [OF d m(1)] a d
    by (simp add: p stored_def in_memory_def)
qed

section \<open>Reading what is stored\<close>

definition log_oldest :: "output_log \<times> disk_state \<Rightarrow> nat" where
  "log_oldest p = min (lg_ring_start_offset (fst p)) (lg_file_base_offset (fst p))"

definition read_answer :: "bytes \<Rightarrow> nat \<Rightarrow> nat \<Rightarrow> nat \<Rightarrow> nat \<times> bytes" where
  "read_answer S low from n =
     (let s = max from low in
      if s \<ge> length S then (length S, []) else (s, segment S s (min (length S) (s + n))))"

lemma disk_segment:
  "base \<le> a \<Longrightarrow> a \<le> b \<Longrightarrow> b \<le> length S \<Longrightarrow>
     take (b - a) (drop (16 + (a - base)) (log_header base @ drop base S)) = segment S a b"
  by (simp add: segment_def)

lemma read_from_disk_stored:
  assumes "on_disk S (log, fs)" "lg_file_base_offset log \<le> a" "a \<le> b" "b \<le> length S"
  shows "read_from_disk a b (log, fs) = (Some (a, segment S a b), reader_handle (log, fs), fs)"
proof -
  obtain ino where d: "log_inode fs = Some ino"
    "inode_data fs ino = log_header (lg_file_base_offset log) @ drop (lg_file_base_offset log) S"
    "lg_read_handle log = None \<or> lg_read_handle log = Some ino"
    using assms by (auto simp: on_disk_def)
  have "lg_read_handle (reader_handle (log, fs)) = Some ino"
    using d by (auto simp: reader_handle_def)
  then show ?thesis
    unfolding read_from_disk_def using d(2) disk_segment [OF assms(2,3,4)] assms(2,3)
    by (simp add: Let_def HEADER_SIZE_def max_absorb1)
qed

lemma log_read_stored:
  assumes "stored S p"
  shows "\<exists>p'. log_read from n p = (Some (read_answer S (log_oldest p) from n), p')
    \<and> stored S p' \<and> log_oldest p' = log_oldest p"
proof -
  obtain log fs where p: "p = (log, fs)" by (cases p)
  let ?r = "lg_ring_start_offset log" and ?b = "lg_file_base_offset log"
  define s where "s = max from (min ?r ?b)"
  define f where "f = min (length S) (s + n)"
  have m: "lg_tail_offset log = length S" "?r \<le> length S" "lg_ring log = drop ?r S"
    using assms by (simp_all add: p stored_def in_memory_def)
  have d: "on_disk S (log, fs)" "\<not> lg_read_only log"
    using assms by (auto simp: p stored_def on_disk_def)
  have rd: "log_read from n p = (if s \<ge> length S then (Some (length S, []), p)
      else if s \<ge> ?r \<and> f - ?r \<le> length S - ?r then (Some (s, segment (drop ?r S) (s - ?r) (f - ?r)), p)
      else read_from_disk s f p)"
    unfolding s_def f_def by (simp add: p log_read_def m d(2) Let_def)
  have answer: "read_answer S (log_oldest p) from n = (if s \<ge> length S then (length S, []) else (s, segment S s f))"
    by (simp add: read_answer_def log_oldest_def p s_def f_def Let_def)
  consider (past) "s \<ge> length S" | (ring) "s < length S" "s \<ge> ?r" | (disk) "s < length S" "s < ?r"
    by linarith
  then show ?thesis
  proof cases
    case past
    then show ?thesis using assms by (simp add: rd answer)
  next
    case ring
    have "?r + (s - ?r) = s" "?r + (f - ?r) = f" "f - ?r \<le> length S - ?r"
      using ring by (auto simp: f_def)
    then show ?thesis
      using ring assms by (simp add: rd answer segment_drop)
  next
    case disk
    have "?b \<le> s" "s \<le> f" "f \<le> length S"
      using disk by (auto simp: s_def f_def)
    then have "read_from_disk s f (log, fs) = (Some (s, segment S s f), reader_handle (log, fs), fs)"
      by (intro read_from_disk_stored d)
    moreover have "stored S (reader_handle (log, fs), fs)" "log_oldest (reader_handle (log, fs), fs) = log_oldest p"
      using assms by (auto simp: p stored_def on_disk_def in_memory_def reader_handle_def log_oldest_def)
    ultimately show ?thesis
      unfolding rd answer using disk by (simp add: p)
  qed
qed

text \<open>The reads as the contract has them; the panic case is excluded by the lemma above.\<close>

definition log_rd :: "output_log \<times> disk_state \<Rightarrow> nat \<Rightarrow> nat \<Rightarrow> (nat \<times> bytes) \<times> output_log \<times> disk_state" where
  "log_rd p from n = (case log_read from n p of (r, p') \<Rightarrow> (the r, p'))"

interpretation el: offset_log stored log_oldest log_rd
proof (unfold_locales, goal_cases)
  case (1 S l)
  then show ?case by (auto simp: stored_def in_memory_def log_oldest_def)
next
  case (2 S l n "from")
  then show ?case
    using log_read_stored [OF 2(1), of "from" n] by (auto simp: log_rd_def read_answer_def)
next
  case (3 S l "from" n)
  then show ?case
    using log_read_stored [OF 3, of "from" n] by (auto simp: log_rd_def)
next
  case (4 S l "from" n)
  then show ?case
    using log_read_stored [OF 4, of "from" n] by (auto simp: log_rd_def)
qed

section \<open>Histories of a log\<close>

text \<open>The owner appends, and it may restart: a new process opens the same file.\<close>

datatype log_op = Append log_io bytes | Reopen

fun log_op_data :: "log_op \<Rightarrow> bytes" where
  "log_op_data (Append io data) = data"
| "log_op_data Reopen = []"

fun log_op_ok :: "log_op \<Rightarrow> bool" where
  "log_op_ok (Append io data) = no_faults io"
| "log_op_ok Reopen = True"

fun log_do :: "usize \<Rightarrow> usize \<Rightarrow> output_log \<times> disk_state \<Rightarrow> log_op \<Rightarrow> output_log \<times> disk_state" where
  "log_do rc dc p (Append io data) = snd (log_append io data p)"
| "log_do rc dc p Reopen = log_open rc dc False (snd p)"

definition empty_disk :: disk_state where
  "empty_disk = \<lparr>inode_data = \<lambda>_. [], log_inode = None, next_inode = 0\<rparr>"

lemma recovered_log_header:
  assumes "base < 2 ^ 64"
  shows "recovered_header (log_header base @ d) = Some (base, length d)"
proof -
  have h: "log_header base @ d = u32_to_be LOG_MAGIC @ u32_to_be LOG_VERSION @ u64_to_be (of_nat base) @ d"
    by (simp add: log_header_def)
  have m: "read_u32_be (log_header base @ d) 0 = LOG_MAGIC"
    by (simp add: h read_u32_be_def segment_def)
  have "segment (log_header base @ d) 8 16 = u64_to_be (of_nat base)"
    by (simp add: h segment_def)
  then have b: "unat (read_u64_be (log_header base @ d) 8) = base"
    using assms by (simp add: read_u64_be_def unat_of_nat)
  show ?thesis
    unfolding recovered_header_def m b by (simp add: HEADER_SIZE_def)
qed

lemma log_open_empty: "stored [] (log_open rc dc False empty_disk)"
  by (simp add: log_open_def open_or_recover_def create_file_def empty_disk_def replace_log_def
      invalidate_read_handle_def stored_def in_memory_def on_disk_def)

lemma log_open_stored:
  assumes "stored S p" "length S < 2 ^ 64"
  shows "stored S (log_open rc dc False (snd p))"
proof -
  obtain log fs where p: "p = (log, fs)" by (cases p)
  let ?b = "lg_file_base_offset log"
  obtain ino where d: "log_inode fs = Some ino" "ino < next_inode fs" "?b \<le> length S"
    "inode_data fs ino = log_header ?b @ drop ?b S"
    using assms by (auto simp: p stored_def on_disk_def)
  moreover have "recovered_header (log_header ?b @ drop ?b S) = Some (?b, length S - ?b)"
    using recovered_log_header [of ?b "drop ?b S"] d(3) assms(2) by simp
  ultimately show ?thesis
    by (simp add: p log_open_def open_or_recover_def stored_def in_memory_def on_disk_def)
qed

lemma log_history_stored:
  assumes "list_all log_op_ok ops" "length S + length (concat (map log_op_data ops)) < 2 ^ 64" "stored S p"
  shows "stored (S @ concat (map log_op_data ops)) (run_machine (log_do rc dc) p ops)"
  using assms
proof (induction ops arbitrary: S p)
  case (Cons op ops)
  have "stored (S @ log_op_data op) (log_do rc dc p op)"
    using Cons.prems log_append_stored [OF Cons.prems(3)] log_open_stored [OF Cons.prems(3), of rc dc]
    by (cases op) auto
  then show ?case
    using Cons.IH [of "S @ log_op_data op" "log_do rc dc p op"] Cons.prems by (simp add: add.assoc)
qed simp

text \<open>
  Claim C4. A session's output survives: for every history of appends and restarts without disk
  faults on a new log, a read at any offset answers with exactly the bytes of the stream at that
  offset (or at the oldest one still kept), as many as asked for and available, whether they come
  from memory or from disk; and a client that reads chunk after chunk receives the rest of the
  stream without a gap.
\<close>

theorem log_reads_stream:
  assumes "list_all log_op_ok ops" "length (concat (map log_op_data ops)) < 2 ^ 64" "0 < n"
  shows "let S = concat (map log_op_data ops);
             p = run_machine (log_do rc dc) (log_open rc dc False empty_disk) ops
         in fst (log_read from n p) = Some (read_answer S (log_oldest p) from n)
            \<and> fst (catch_up log_rd (length S + 1) p from n) = drop (max from (log_oldest p)) S"
proof -
  let ?S = "concat (map log_op_data ops)"
  let ?p = "run_machine (log_do rc dc) (log_open rc dc False empty_disk) ops"
  have st: "stored ?S ?p"
    using log_history_stored [OF assms(1), of "[]"] assms(2) log_open_empty by simp
  have "fst (log_read from n ?p) = Some (read_answer ?S (log_oldest ?p) from n)"
    using log_read_stored [OF st, of "from" n] by auto
  moreover have "fst (catch_up log_rd (length ?S + 1) ?p from n) = drop (max from (log_oldest ?p)) ?S"
    by (rule el.catch_up_complete [OF st assms(3)]) simp
  ultimately show ?thesis by (simp only: Let_def)
qed


definition quiet_io :: log_io where
  "quiet_io = \<lparr>write_fault = None, sync_due = False, sync_fault = False, truncate_fault = None\<rparr>"

theorem log_reads_stream_witness:
  "let S = concat (map log_op_data [Append quiet_io [1, 2, 3], Reopen, Append quiet_io [4]]);
       p = run_machine (log_do 2 8) (log_open 2 8 False empty_disk)
             [Append quiet_io [1, 2, 3], Reopen, Append quiet_io [4]]
   in fst (log_read 1 2 p) = Some (read_answer S (log_oldest p) 1 2)
      \<and> fst (catch_up log_rd (length S + 1) p 1 2) = drop (max 1 (log_oldest p)) S"
  by (rule log_reads_stream) (simp_all add: quiet_io_def no_faults_def)

section \<open>Bounds\<close>

text \<open>How much of the stream is kept, and how large the file may get.\<close>

definition log_bounds :: "usize \<Rightarrow> output_log \<times> disk_state \<Rightarrow> bool" where
  "log_bounds dc p \<longleftrightarrow> lg_disk_capacity (fst p) = dc
     \<and> lg_file_base_offset (fst p) \<le> lg_tail_offset (fst p) - dc div 2
     \<and> lg_file_bytes (fst p) \<le> dc"

lemma append_to_disk_capacity [simp]:
  "lg_disk_capacity (fst (snd (append_to_disk io data (log, fs)))) = lg_disk_capacity log"
  by (simp add: append_to_disk_def truncate_to_half_def invalidate_read_handle_def Let_def
      split: option.split)

lemma append_to_disk_bounds:
  assumes "on_disk S (log, fs)" "no_faults io" "lg_file_base_offset log \<le> length S - lg_disk_capacity log div 2"
  shows "lg_file_base_offset (fst (snd (append_to_disk io data (log, fs))))
      \<le> length (S @ data) - lg_disk_capacity log div 2
    \<and> lg_file_bytes (fst (snd (append_to_disk io data (log, fs)))) \<le> lg_disk_capacity log"
  using assms
  by (auto simp: on_disk_def append_to_disk_def truncate_to_half_def invalidate_read_handle_def
      no_faults_def Let_def append_inode_def replace_log_def HEADER_SIZE_def)


lemma log_do_bounds:
  assumes "stored S p" "log_bounds dc p" "log_op_ok op" "length S < 2 ^ 64"
  shows "log_bounds dc (log_do rc dc p op)"
proof (cases op)
  case (Append io data)
  obtain log fs where p: "p = (log, fs)" by (cases p)
  show ?thesis
  proof (cases "data = []")
    case True
    then show ?thesis using assms(2) Append by simp
  next
    case False
    have t: "lg_tail_offset log = length S"
      using assms(1) p by (simp add: stored_def in_memory_def)
    have st: "stored S (log, fs)" using assms(1) p by simp
    obtain m where m: "in_memory (S @ data) m" "on_disk S (m, fs)"
      "lg_disk_capacity m = lg_disk_capacity log" "lg_file_base_offset m = lg_file_base_offset log"
      "lg_sync_points m = lg_sync_points (scan_for_sync_points data (length S) log)"
      "lg_carry m = lg_carry (scan_for_sync_points data (length S) log)"
      and a: "log_append io data (log, fs) = (case append_to_disk io data (m, fs) of
            (res, log', fs') \<Rightarrow> (and_then res (\<lambda>_. Inr (length S, lg_tail_offset log')), log', fs'))"
      by (rule log_append_shape [OF False st, of io])
    obtain res log' fs' where d: "append_to_disk io data (m, fs) = (res, log', fs')"
      by (metis prod.exhaust)
    have "lg_tail_offset log' = length (S @ data)"
      using append_to_disk_memory [OF d m(1)] by (simp add: in_memory_def)
    then show ?thesis
      using append_to_disk_bounds [OF m(2), of io data] append_to_disk_capacity [of io data m fs]
        assms(2,3) Append a d m(3,4) t
      by (simp add: log_bounds_def p)
  qed
next
  case Reopen
  obtain log fs where p: "p = (log, fs)" by (cases p)
  let ?b = "lg_file_base_offset log"
  obtain ino where d: "log_inode fs = Some ino" "?b \<le> length S"
    "inode_data fs ino = log_header ?b @ drop ?b S"
    using assms by (auto simp: p stored_def on_disk_def)
  have "recovered_header (log_header ?b @ drop ?b S) = Some (?b, length S - ?b)"
    using recovered_log_header [of ?b "drop ?b S"] d(2) assms(4) by simp
  then show ?thesis
    using assms d Reopen
    by (simp add: p log_bounds_def log_open_def open_or_recover_def stored_def on_disk_def in_memory_def)
qed

lemma log_history_bounds:
  assumes "list_all log_op_ok ops" "length S + length (concat (map log_op_data ops)) < 2 ^ 64"
    "stored S p" "log_bounds dc p"
  shows "log_bounds dc (run_machine (log_do rc dc) p ops)"
  using assms
proof (induction ops arbitrary: S p)
  case (Cons op ops)
  have "stored (S @ log_op_data op) (log_do rc dc p op)"
    using log_history_stored [of "[op]" S p rc dc] Cons.prems by simp
  moreover have "log_bounds dc (log_do rc dc p op)"
    using log_do_bounds [OF Cons.prems(3,4)] Cons.prems(1,2) by simp
  ultimately show ?case
    using Cons.IH [of "S @ log_op_data op" "log_do rc dc p op"] Cons.prems by (simp add: add.assoc)
qed simp

text \<open>
  Claim C32. The spill file is bounded and the history long enough: after every fault-free history the
  file's payload is at most the disk capacity, and the newest half capacity of the stream (all of
  it while it is shorter) can still be read.
\<close>

theorem log_size_and_retention:
  assumes "list_all log_op_ok ops" "length (concat (map log_op_data ops)) < 2 ^ 64"
  shows "let S = concat (map log_op_data ops);
             p = run_machine (log_do rc dc) (log_open rc dc False empty_disk) ops
         in length S - log_oldest p \<ge> min (length S) (dc div 2)
            \<and> (\<exists>ino. log_inode (snd p) = Some ino \<and> length (inode_data (snd p) ino) \<le> HEADER_SIZE + dc)"
proof -
  let ?S = "concat (map log_op_data ops)"
  let ?p = "run_machine (log_do rc dc) (log_open rc dc False empty_disk) ops"
  have st: "stored ?S ?p"
    using log_history_stored [OF assms(1), of "[]"] assms(2) log_open_empty by simp
  have "log_bounds dc (log_open rc dc False empty_disk)"
    by (simp add: log_bounds_def log_open_def open_or_recover_def create_file_def empty_disk_def
        replace_log_def invalidate_read_handle_def)
  then have b: "log_bounds dc ?p"
    using log_history_bounds [OF assms(1), of "[]"] assms(2) log_open_empty by simp
  have "length ?S - log_oldest ?p \<ge> min (length ?S) (dc div 2)"
    using st b by (auto simp: stored_def in_memory_def log_bounds_def log_oldest_def)
  moreover have "\<exists>ino. log_inode (snd ?p) = Some ino \<and> length (inode_data (snd ?p) ino) \<le> HEADER_SIZE + dc"
    using st b by (cases ?p) (auto simp: stored_def on_disk_def log_bounds_def HEADER_SIZE_def)
  ultimately show ?thesis by (simp only: Let_def)
qed

theorem log_size_and_retention_witness:
  "let S = concat (map log_op_data [Append quiet_io [1, 2, 3, 4, 5], Reopen]);
       p = run_machine (log_do 2 4) (log_open 2 4 False empty_disk) [Append quiet_io [1, 2, 3, 4, 5], Reopen]
   in length S - log_oldest p \<ge> min (length S) (4 div 2)
      \<and> (\<exists>ino. log_inode (snd p) = Some ino \<and> length (inode_data (snd p) ino) \<le> HEADER_SIZE + 4)"
  by (rule log_size_and_retention) (simp_all add: quiet_io_def no_faults_def)

end
