(* ===== verification/Output_Log_Sync.thy ===== *)
theory Output_Log_Sync
  imports Output_Log
begin

text \<open>
  The replay starting points of the engine's log: the screen resets that \<open>scan_for_sync_points\<close>
  finds chunk by chunk are those of the whole stream, although a reset sequence may be split over
  chunks; so \<open>preferred_replay_start\<close> picks the newest reset within its budget. At the end, three
  ways in which the log departs from what its comments say.
\<close>

section \<open>Resets of a stream\<close>

definition resets :: "bytes \<Rightarrow> nat list" where
  "resets T = filter (reset_found T) [0..<length T - 1]"

lemma reset_found_drop: "i + 1 < length T - k \<Longrightarrow> reset_found (drop k T) i = reset_found T (k + i)"
  by (auto simp: reset_found_def add.assoc)

lemma reset_found_append:
  assumes "i + 1 < length T"
  shows "reset_found T i \<Longrightarrow> reset_found (T @ d) i"
    and "i + 3 < length T \<Longrightarrow> reset_found (T @ d) i = reset_found T i"
  using assms by (auto simp: reset_found_def nth_append)

text \<open>The resets of a longer stream: the old ones, and new ones that start in the last three bytes.\<close>

lemma filter_upt_split: "k \<le> n \<Longrightarrow> filter P [0..<n] = filter P [0..<k] @ filter P [k..<n]"
  by (metis filter_append le0 le_add_diff_inverse upt_add_eq_append)

lemma resets_tail:
  assumes "filter (reset_found T) [length T - 3..<length T - 1] \<noteq> []"
  shows "\<exists>N x. filter (reset_found T) [length T - 3..<length T - 1] = [x]
    \<and> filter (reset_found (T @ d)) [length T - 3..<length (T @ d) - 1] = x # N"
proof (cases "length T \<ge> 3")
  case False
  then have two: "length T = 2"
    using assms by (cases "length T < 2") auto
  then have f: "reset_found T 0"
    using assms by (auto split: if_splits)
  have "reset_found (T @ d) 0"
    by (rule reset_found_append(1) [OF _ f]) (simp add: two)
  moreover have "[0..<length (T @ d) - 1] = 0 # [1..<length (T @ d) - 1]"
    using two by (subst upt_conv_Cons) simp_all
  ultimately show ?thesis
    using f two by simp
next
  case True
  define k where "k = length T - 3"
  have k: "length T = k + 3" using True by (simp add: k_def)
  have l: "[k..<length T - 1] = [k, k + 1]"
    using k by (simp add: upt_conv_Cons)
  have l': "[k..<length (T @ d) - 1] = k # (k + 1) # [k + 2..<length (T @ d) - 1]"
  proof -
    have two: "k + 1 < m \<Longrightarrow> [k..<m] = k # (k + 1) # [k + 2..<m]" for m
      by (simp add: upt_conv_Cons)
    show ?thesis by (rule two) (simp add: k)
  qed
  have e: "reset_found T k \<Longrightarrow> \<not> reset_found T (k + 1)"
    "reset_found T (k + 1) \<Longrightarrow> \<not> reset_found (T @ d) k"
    "reset_found T k \<Longrightarrow> reset_found (T @ d) k"
    "reset_found T (k + 1) \<Longrightarrow> reset_found (T @ d) (k + 1)"
    using k by (auto simp: reset_found_def nth_append)
  show ?thesis
    using assms e unfolding k_def [symmetric] l l'
    by (cases "reset_found T k"; cases "reset_found T (k + 1)") auto
qed

lemma resets_append:
  obtains A P N where "resets T = A @ P" "resets (T @ d) = A @ P @ N"
    "filter (reset_found (T @ d)) [length T - 3..<length (T @ d) - 1] = P @ N"
    "length P \<le> 1" "distinct (A @ P @ N)"
proof -
  let ?k = "length T - 3"
  let ?A = "filter (reset_found T) [0..<?k]" and ?P = "filter (reset_found T) [?k..<length T - 1]"
  let ?Q = "filter (reset_found (T @ d)) [?k..<length (T @ d) - 1]"
  have rT: "resets T = ?A @ ?P"
    unfolding resets_def by (rule filter_upt_split) simp
  have "filter (reset_found (T @ d)) [0..<?k] = ?A"
    by (rule filter_cong) (auto simp: reset_found_append(2))
  then have rT': "resets (T @ d) = ?A @ ?Q"
    unfolding resets_def using filter_upt_split [of ?k "length (T @ d) - 1"] by simp
  obtain N where N: "?Q = ?P @ N" "length ?P \<le> 1"
  proof (cases "?P = []")
    case False
    then show ?thesis using resets_tail [OF False, of d] that by fastforce
  qed (use that in simp)
  have "distinct (resets (T @ d))"
    by (simp add: resets_def)
  then have dist: "distinct (?A @ ?P @ N)"
    unfolding rT' N(1) .
  have "resets (T @ d) = ?A @ ?P @ N"
    unfolding rT' N(1) ..
  then show ?thesis
    using that [OF rT _ N dist] by blast
qed

lemma map_plus_zero [simp]: "map ((+) (0 :: nat)) xs = xs"
  by (simp add: map_idI)

section \<open>The scan\<close>

text \<open>
  The first \<open>b\<close> bytes of the stream were there before this process opened the log; it has scanned
  the rest. Its points are a suffix of the resets there, and those it lost are older than the
  file or than the newest 64.
\<close>

definition scanned :: "nat \<Rightarrow> bytes \<Rightarrow> output_log \<Rightarrow> bool" where
  "scanned b S log \<longleftrightarrow> b \<le> length S
     \<and> lg_carry log = drop (length (drop b S) - 3) (drop b S)
     \<and> suffix (lg_sync_points log) (map ((+) b) (resets (drop b S)))"

lemma push_sync_suffix:
  assumes "suffix pts L" "p \<notin> set L"
  shows "suffix (push_sync_point p pts) (L @ [p])"
proof -
  have "set pts \<subseteq> set L"
    using assms(1) by (auto simp: suffix_def)
  then have "\<not> (pts \<noteq> [] \<and> last pts = p)"
    using assms(2) last_in_set by blast
  moreover have "suffix (pts @ [p]) (L @ [p])"
    using assms(1) by (auto simp: suffix_def)
  ultimately show ?thesis
    by (auto simp: push_sync_point_def Let_def intro: suffix_order.trans [OF suffix_drop])
qed

lemma push_sync_known:
  assumes "suffix pts (L @ [p])"
  shows "suffix (push_sync_point p pts) (L @ [p])"
proof (cases "pts = []")
  case True
  then show ?thesis
    by (simp add: push_sync_point_def MAX_SYNC_POINTS_def suffix_def)
next
  case False
  then have "last pts = p"
    using assms by (auto simp: suffix_def) (metis last_append last_snoc)
  then show ?thesis
    using assms False by (simp add: push_sync_point_def)
qed

lemma push_new_points:
  "suffix pts L \<Longrightarrow> distinct (L @ N) \<Longrightarrow> suffix (fold push_sync_point N pts) (L @ N)"
proof (induction N arbitrary: pts L)
  case (Cons n N)
  have "suffix (push_sync_point n pts) (L @ [n])"
    using Cons.prems by (intro push_sync_suffix) auto
  then show ?case
    using Cons.IH [of "push_sync_point n pts" "L @ [n]"] Cons.prems by simp
qed simp

lemma fold_filtered:
  "fold (\<lambda>i pts. if \<not> P i then pts else f (g i) pts) xs pts = fold f (map g (filter P xs)) pts"
  by (induction xs arbitrary: pts) auto

text \<open>The scan pushes the resets that start in the carry or in the chunk.\<close>

lemma scan_points:
  assumes "scanned b S log" "length S = start" "data \<noteq> []"
  shows "lg_sync_points (scan_for_sync_points data start log) =
    fold push_sync_point (map ((+) b)
      (filter (reset_found (drop b S @ data)) [length (drop b S) - 3..<length (drop b S @ data) - 1]))
      (lg_sync_points log)"
proof -
  let ?T = "drop b S"
  define k where "k = length ?T - 3"
  let ?hay = "lg_carry log @ data"
  have b: "b \<le> length S" and c: "lg_carry log = drop k ?T"
    using assms(1) by (simp_all add: scanned_def k_def)
  have hay: "?hay = drop k (?T @ data)"
    by (simp add: c k_def)
  have off: "nat (max 0 (int start + (int i - int (length (lg_carry log))))) = b + (k + i)" for i
    using b assms(2) by (auto simp: c k_def)
  have idx: "[k..<length (?T @ data) - 1] = map ((+) k) [0..<length ?hay - 1]"
  proof -
    have "length ?hay = length (?T @ data) - k"
      by (simp add: hay)
    moreover have "k \<le> length (?T @ data) - 1"
      using assms(3) by (cases data) (auto simp: k_def)
    ultimately have "length (?T @ data) - 1 = (length ?hay - 1) + k"
      using assms(3) by (cases data) auto
    then show ?thesis
      by (simp add: map_add_upt [symmetric] add.commute [of k])
  qed
  have found: "filter (reset_found ?hay) [0..<length ?hay - 1]
      = filter (\<lambda>i. reset_found (?T @ data) (k + i)) [0..<length ?hay - 1]"
  proof (rule filter_cong)
    fix i assume "i \<in> set [0..<length ?hay - 1]"
    then have "i + 1 < length (?T @ data) - k"
      unfolding hay by auto
    then show "reset_found ?hay i = reset_found (?T @ data) (k + i)"
      unfolding hay by (rule reset_found_drop)
  qed simp
  have "map ((+) b) (filter (reset_found (?T @ data)) [k..<length (?T @ data) - 1])
      = map (\<lambda>i. b + (k + i)) (filter (reset_found ?hay) [0..<length ?hay - 1])"
    unfolding idx found filter_map by (simp add: o_def)
  note points = this
  have "lg_sync_points (scan_for_sync_points data start log) =
      fold push_sync_point (map (\<lambda>i. b + (k + i)) (filter (reset_found ?hay) [0..<length ?hay - 1]))
        (lg_sync_points log)"
  proof (cases "length ?hay < 2")
    case True
    then have "[0..<length ?hay - 1] = []" by simp
    then show ?thesis using True by (simp add: scan_for_sync_points_def Let_def)
  next
    case False
    then show ?thesis
      unfolding scan_for_sync_points_def Let_def off
      using fold_filtered [of "reset_found ?hay" push_sync_point "\<lambda>i. b + (k + i)"] by simp
  qed
  then show ?thesis
    unfolding points [symmetric] by (simp only: k_def)
qed

lemma scan_scanned:
  assumes "scanned b S log" "data \<noteq> []"
  shows "scanned b (S @ data) (scan_for_sync_points data (length S) log)"
proof -
  let ?T = "drop b S"
  have b: "b \<le> length S" using assms(1) by (simp add: scanned_def)
  then have T': "drop b (S @ data) = ?T @ data" by simp
  obtain A P N where r: "resets ?T = A @ P" "resets (?T @ data) = A @ P @ N"
    "filter (reset_found (?T @ data)) [length ?T - 3..<length (?T @ data) - 1] = P @ N"
    "length P \<le> 1" "distinct (A @ P @ N)"
    by (rule resets_append)
  let ?m = "map ((+) b)"
  have s: "suffix (lg_sync_points log) (?m (A @ P))"
    using assms(1) r(1) by (simp add: scanned_def)
  have "suffix (fold push_sync_point (?m P) (lg_sync_points log)) (?m (A @ P))"
    using s r(4) push_sync_known [of "lg_sync_points log" "?m A"] by (cases P) auto
  then have "suffix (fold push_sync_point (?m N) (fold push_sync_point (?m P) (lg_sync_points log))) (?m (A @ P) @ ?m N)"
    by (rule push_new_points) (use r(5) in \<open>auto simp: distinct_map\<close>)
  then have "suffix (lg_sync_points (scan_for_sync_points data (length S) log)) (?m (resets (?T @ data)))"
    unfolding scan_points [OF assms(1) refl assms(2)] r(2,3) by simp
  moreover have "lg_carry (scan_for_sync_points data (length S) log) = drop (length (?T @ data) - 3) (?T @ data)"
  proof -
    have last3: "drop (length (drop k X) - 3) (drop k X) = drop (length X - 3) X" if "k \<le> length X - 3" for k and X :: bytes
      using that by (cases "length X \<le> 3") (simp_all add: add.commute)
    have c: "lg_carry log @ data = drop (length ?T - 3) (?T @ data)"
      using assms(1) by (simp add: scanned_def)
    show ?thesis
      unfolding scan_for_sync_points_def Let_def c by (simp only: if_distrib [where f = lg_carry])
        (use last3 [of "length ?T - 3" "?T @ data"] in simp)
  qed
  ultimately show ?thesis
    using b by (simp only: scanned_def T' length_append) simp
qed


text \<open>Which resets may be missing from the points.\<close>

definition complete :: "nat \<Rightarrow> nat list \<Rightarrow> nat list \<Rightarrow> bool" where
  "complete base L pts \<longleftrightarrow> length pts \<le> MAX_SYNC_POINTS
     \<and> (\<forall>r \<in> set L. r \<in> set pts \<or> r < base \<or> length pts = MAX_SYNC_POINTS)"

lemma push_complete: "complete base L pts \<Longrightarrow> complete base (L @ [p]) (push_sync_point p pts)"
  by (auto simp: complete_def push_sync_point_def Let_def MAX_SYNC_POINTS_def)

lemma fold_push_complete: "complete base L pts \<Longrightarrow> complete base (L @ N) (fold push_sync_point N pts)"
proof (induction N arbitrary: L pts)
  case (Cons n N)
  then show ?case
    using Cons.IH [of "L @ [n]" "push_sync_point n pts"] push_complete by simp
qed simp

lemma complete_set: "complete base L pts \<Longrightarrow> set L' = set L \<Longrightarrow> complete base L' pts"
  by (simp add: complete_def)

lemma scan_complete:
  assumes "scanned b S log" "data \<noteq> []" "complete base (map ((+) b) (resets (drop b S))) (lg_sync_points log)"
  shows "complete base (map ((+) b) (resets (drop b (S @ data))))
    (lg_sync_points (scan_for_sync_points data (length S) log))"
proof -
  let ?T = "drop b S"
  have T': "drop b (S @ data) = ?T @ data"
    using assms(1) by (simp add: scanned_def)
  obtain A P N where r: "resets ?T = A @ P" "resets (?T @ data) = A @ P @ N"
    "filter (reset_found (?T @ data)) [length ?T - 3..<length (?T @ data) - 1] = P @ N"
    by (rule resets_append)
  have "complete base (map ((+) b) (A @ P) @ map ((+) b) (P @ N))
      (fold push_sync_point (map ((+) b) (P @ N)) (lg_sync_points log))"
    using fold_push_complete [OF assms(3), of "map ((+) b) (P @ N)"] r(1) by simp
  then show ?thesis
    unfolding scan_points [OF assms(1) refl assms(2)] r(3) T' r(2)
    by (rule complete_set) auto
qed

lemma suffix_filter_ge:
  fixes xs :: "nat list"
  assumes "sorted ys" "suffix xs ys"
  shows "suffix (filter (\<lambda>s. c \<le> s) xs) ys"
proof -
  have "suffix (filter (\<lambda>s. c \<le> s) xs) xs" if "sorted xs" for xs :: "nat list"
    using that
  proof (induction xs)
    case (Cons x xs)
    show ?case
    proof (cases "c \<le> x")
      case True
      then have "filter (\<lambda>s. c \<le> s) xs = xs"
        using Cons.prems by (intro filter_True) auto
      then show ?thesis using True by simp
    qed (use Cons in \<open>simp add: suffix_Cons\<close>)
  qed simp
  moreover have "sorted xs"
    using assms by (auto simp: suffix_def sorted_append)
  ultimately show ?thesis
    using assms(2) suffix_order.trans by blast
qed

lemma complete_filter:
  assumes "sorted L" "suffix pts L" "complete base L pts" "base \<le> base'"
  shows "complete base' L (filter (\<lambda>s. base' \<le> s) pts)"
proof (cases "\<forall>s \<in> set pts. base' \<le> s")
  case True
  then have "filter (\<lambda>s. base' \<le> s) pts = pts" by simp
  then show ?thesis
    using assms(3,4) by (auto simp: complete_def)
next
  case False
  then obtain x where x: "x \<in> set pts" "x < base'" by auto
  have len: "length (filter (\<lambda>s. base' \<le> s) pts) \<le> MAX_SYNC_POINTS"
    using assms(3) length_filter_le [of "\<lambda>s. base' \<le> s" pts] unfolding complete_def by linarith
  obtain A where A: "L = A @ pts"
    using assms(2) by (auto simp: suffix_def)
  have "r < base'" if "r \<in> set A" for r
    using assms(1) A x that by (force simp: sorted_append)
  then show ?thesis
    using len A by (auto simp: complete_def)
qed

lemma sorted_resets: "sorted (map ((+) b) (resets T))"
proof -
  have "sorted (resets T)"
    unfolding resets_def by (intro sorted_wrt_filter) simp
  then show ?thesis
    by (auto simp: sorted_wrt_map intro: sorted_wrt_mono_rel [rotated])
qed

lemma sorted_last: "sorted xs \<Longrightarrow> x \<in> set xs \<Longrightarrow> x \<le> last xs"
  by (induction xs) auto

lemma preferred_last:
  assumes "lg_sync_points log \<noteq> []" "lg_tail_offset log - budget \<le> last (lg_sync_points log)"
    "last (lg_sync_points log) < lg_tail_offset log"
  shows "preferred_replay_start budget log = last (lg_sync_points log)"
proof -
  obtain ys x where "lg_sync_points log = ys @ [x]"
    using assms(1) by (cases "lg_sync_points log" rule: rev_cases) auto
  then show ?thesis
    using assms by (simp add: preferred_replay_start_def)
qed

section \<open>Histories\<close>

definition sync_ok :: "nat \<Rightarrow> bytes \<Rightarrow> output_log \<Rightarrow> bool" where
  "sync_ok b S log \<longleftrightarrow> scanned b S log
     \<and> complete (lg_file_base_offset log) (map ((+) b) (resets (drop b S))) (lg_sync_points log)"

lemma truncate_sync:
  assumes "truncate_to_half io (log, fs) = (Inr (), log', fs')"
  shows "\<exists>c. lg_file_base_offset log \<le> c \<and> lg_carry log' = lg_carry log
    \<and> lg_file_base_offset log' = c \<and> lg_sync_points log' = filter (\<lambda>s. c \<le> s) (lg_sync_points log)"
  using assms by (auto simp: truncate_to_half_def invalidate_read_handle_def Let_def
      split: if_splits option.splits)

lemma append_to_disk_sync:
  assumes "sync_ok b S log" "append_to_disk io data (log, fs) = (Inr (), log', fs')"
  shows "sync_ok b S log'"
proof -
  let ?L = "map ((+) b) (resets (drop b S))"
  consider (plain) "lg_carry log' = lg_carry log" "lg_sync_points log' = lg_sync_points log"
      "lg_file_base_offset log' = lg_file_base_offset log"
    | (cut) n fs2 where "truncate_to_half io (log\<lparr>lg_file_bytes := n\<rparr>, fs2) = (Inr (), log', fs')"
    using assms(2) unfolding append_to_disk_def Let_def by (fastforce split: if_splits option.splits)
  then show ?thesis
  proof cases
    case plain
    then show ?thesis using assms(1) by (simp add: sync_ok_def scanned_def)
  next
    case cut
    then obtain c where c: "lg_file_base_offset log \<le> c" "lg_carry log' = lg_carry log"
      "lg_file_base_offset log' = c" "lg_sync_points log' = filter (\<lambda>s. c \<le> s) (lg_sync_points log)"
      using truncate_sync [OF cut] by auto
    then show ?thesis
      using assms(1) suffix_filter_ge [OF sorted_resets] complete_filter [OF sorted_resets _ _ c(1)]
      by (simp add: sync_ok_def scanned_def)
  qed
qed

lemma log_append_sync:
  assumes "stored S (log, fs)" "no_faults io" "sync_ok b S log"
  shows "sync_ok b (S @ data) (fst (snd (log_append io data (log, fs))))"
proof (cases "data = []")
  case True
  then show ?thesis using assms(3) by simp
next
  case False
  obtain m where m: "in_memory (S @ data) m" "on_disk S (m, fs)"
    "lg_disk_capacity m = lg_disk_capacity log" "lg_file_base_offset m = lg_file_base_offset log"
    "lg_sync_points m = lg_sync_points (scan_for_sync_points data (length S) log)"
    "lg_carry m = lg_carry (scan_for_sync_points data (length S) log)"
    and a: "log_append io data (log, fs) = (case append_to_disk io data (m, fs) of
          (res, log', fs') \<Rightarrow> (and_then res (\<lambda>_. Inr (length S, lg_tail_offset log')), log', fs'))"
    by (rule log_append_shape [OF False assms(1), of io])
  obtain log' fs' where d: "append_to_disk io data (m, fs) = (Inr (), log', fs')"
    using append_to_disk_on_disk [OF m(2) assms(2), of data] by (metis fst_conv prod.exhaust)
  have "sync_ok b (S @ data) m"
    using scan_scanned [OF _ False, of b S log] scan_complete [OF _ False, of b S log] assms(3) m(4,5,6)
    by (simp add: sync_ok_def scanned_def)
  then have "sync_ok b (S @ data) log'"
    using append_to_disk_sync d by blast
  then show ?thesis
    by (simp add: a d)
qed

lemma log_appends_sync:
  assumes "list_all (\<lambda>(io, d). no_faults io) steps" "stored S p" "sync_ok b S (fst p)"
  shows "let p' = run_machine (\<lambda>p (io, d). snd (log_append io d p)) p steps
    in stored (S @ concat (map snd steps)) p' \<and> sync_ok b (S @ concat (map snd steps)) (fst p')"
  using assms
proof (induction steps arbitrary: S p)
  case (Cons x steps)
  obtain io d where x: "x = (io, d)" by (cases x)
  obtain log fs where p: "p = (log, fs)" by (cases p)
  have "stored (S @ d) (snd (log_append io d p))"
    using log_append_stored [OF Cons.prems(2)] Cons.prems(1) x by simp
  moreover have "sync_ok b (S @ d) (fst (snd (log_append io d p)))"
    using log_append_sync [of S log fs io b d] Cons.prems x p by simp
  ultimately show ?case
    using Cons.IH [of "S @ d" "snd (log_append io d p)"] Cons.prems(1) x by simp
qed simp

text \<open>
  Claim C27. A reconnecting client starts where the screen was last cleared: however the output was
  cut into appends, when some reset sequence of the stream (a full reset or an erase of the display)
  lies within the budget and within the file, the preferred replay start is the newest reset of
  the stream.
\<close>

theorem replay_starts_at_newest_reset:
  assumes "list_all (\<lambda>(io, d). no_faults io) steps"
    "r \<in> set (resets (concat (map snd steps)))"
    "length (concat (map snd steps)) - budget \<le> r"
    "lg_file_base_offset (fst (run_machine (\<lambda>p (io, d). snd (log_append io d p))
        (log_open rc dc False empty_disk) steps)) \<le> r"
  shows "preferred_replay_start budget (fst (run_machine (\<lambda>p (io, d). snd (log_append io d p))
        (log_open rc dc False empty_disk) steps)) = last (resets (concat (map snd steps)))"
proof -
  let ?S = "concat (map snd steps)"
  let ?p = "run_machine (\<lambda>p (io, d). snd (log_append io d p)) (log_open rc dc False empty_disk) steps"
  have "sync_ok 0 [] (fst (log_open rc dc False empty_disk))"
    by (simp add: sync_ok_def scanned_def complete_def resets_def log_open_def open_or_recover_def
        create_file_def empty_disk_def invalidate_read_handle_def Let_def)
  then have st: "stored ?S ?p" and sy: "sync_ok 0 ?S (fst ?p)"
    using log_appends_sync [OF assms(1), of "[]" "log_open rc dc False empty_disk" 0] log_open_empty
    by (simp_all add: Let_def)
  have tail: "lg_tail_offset (fst ?p) = length ?S"
    using st by (simp add: stored_def in_memory_def)
  let ?pts = "lg_sync_points (fst ?p)"
  have suf: "suffix ?pts (resets ?S)" and com: "complete (lg_file_base_offset (fst ?p)) (resets ?S) ?pts"
    using sy by (simp_all add: sync_ok_def scanned_def)
  have ne: "?pts \<noteq> []"
    using com assms(2,4) by (auto simp: complete_def MAX_SYNC_POINTS_def)
  then have last: "last ?pts = last (resets ?S)"
    using suf by (auto simp: suffix_def)
  have "r \<le> last (resets ?S)"
    using assms(2) sorted_resets [of 0 ?S] sorted_last [of "resets ?S" r] by simp
  moreover have "last (resets ?S) < length ?S"
  proof -
    have "last (resets ?S) \<in> set (resets ?S)"
      using assms(2) by (intro last_in_set) auto
    moreover have "x < length T" if "x \<in> set (resets T)" for x T
      using that by (auto simp: resets_def)
    ultimately show ?thesis by blast
  qed
  ultimately have "length ?S - budget \<le> last ?pts \<and> last ?pts < length ?S"
    using assms(3) last by simp
  then show ?thesis
    using preferred_last [OF ne] tail last by simp
qed

text \<open>A full reset after three bytes, split over two appends.\<close>

definition split_reset :: "(log_io \<times> bytes) list" where
  "split_reset = [(quiet_io, [97, 98, 99, 0x1B]), (quiet_io, [0x63, 100])]"

lemma split_reset_resets: "resets (concat (map snd split_reset)) = [3]"
proof -
  have "[0..<5 :: nat] = [0, 1, 2, 3, 4]"
    by (simp add: upt_rec)
  then show ?thesis
    by (simp add: split_reset_def resets_def reset_found_def)
qed

lemma split_reset_base:
  "lg_file_base_offset (fst (run_machine (\<lambda>p (io, d). snd (log_append io d p))
        (log_open 9 9 False empty_disk) split_reset)) = 0"
  by (simp add: split_reset_def log_append_def append_to_disk_def quiet_io_def Let_def log_open_def
      open_or_recover_def create_file_def empty_disk_def invalidate_read_handle_def replace_log_def
      append_inode_def)

theorem replay_starts_at_newest_reset_witness:
  "preferred_replay_start 4 (fst (run_machine (\<lambda>p (io, d). snd (log_append io d p))
        (log_open 9 9 False empty_disk) split_reset)) = last (resets (concat (map snd split_reset)))"
  by (rule replay_starts_at_newest_reset [where r = 3])
    (simp_all add: split_reset_resets split_reset_base, simp_all add: split_reset_def quiet_io_def no_faults_def)


section \<open>Where the log departs from its comments\<close>

text \<open>
  A failed disk write corrupts later reads. Whenever a write to disk fails before its first
  byte and a later append succeeds, the file holds the later bytes at the earlier offsets: with a
  ring of two bytes, after \<open>1 2\<close>, the lost \<open>3 4\<close> and \<open>5 6\<close>, reading two bytes at offset 2 answers \<open>5 6\<close>,
  although the stream has \<open>3 4\<close> there, and the append reported the offsets 4 to 6 for \<open>5 6\<close>.
\<close>

theorem failed_write_shifts_the_file:
  "let p1 = snd (log_append quiet_io [1, 2] (log_open 2 64 False empty_disk));
       (r2, p2) = log_append (quiet_io\<lparr>write_fault := Some 0\<rparr>) [3, 4] p1;
       (r3, p3) = log_append quiet_io [5, 6] p2
   in r2 = Inl IoError \<and> r3 = Inr (4, 6) \<and> fst (log_read 2 2 p3) = Some (2, [5, 6])"
  by (simp add: log_append_def append_to_disk_def scan_for_sync_points_def quiet_io_def Let_def
      log_open_def open_or_recover_def create_file_def empty_disk_def invalidate_read_handle_def
      replace_log_def append_inode_def log_read_def read_from_disk_def reader_handle_def HEADER_SIZE_def)

text \<open>
  After a rotation that could not replace the file, the log never writes to disk again and
  does not say so: once a truncation failed while replacing, every later append reports success
  and leaves the disk as it is.
\<close>

theorem failed_rotation_stops_the_disk_silently:
  assumes "truncate_to_half io (log, fs) = (Inl e, log', fs')" "truncate_fault io = Some ReplaceFailed"
    "log_inode fs = Some ino" "\<not> lg_read_only log"
  shows "\<exists>log'' r. log_append io' data (log', fs') = (Inr r, log'', fs')"
proof -
  have "lg_write_handle log' = None"
    using assms by (auto simp: truncate_to_half_def invalidate_read_handle_def Let_def)
  then have "lg_write_handle (scan_for_sync_points d c log') = None" for d c
    by simp
  then show ?thesis
    by (auto simp: log_append_def append_to_disk_def Let_def)
qed

lemma failed_rotation_example:
  "truncate_to_half (quiet_io\<lparr>truncate_fault := Some ReplaceFailed\<rparr>) (log_open 2 64 False empty_disk)
     = (Inl IoError, (fst (log_open 2 64 False empty_disk))\<lparr>lg_write_handle := None\<rparr>,
        snd (log_open 2 64 False empty_disk))"
  by (simp add: truncate_to_half_def quiet_io_def Let_def log_open_def open_or_recover_def
      create_file_def empty_disk_def invalidate_read_handle_def replace_log_def)

theorem failed_rotation_stops_the_disk_silently_witness:
  "\<exists>log'' r. log_append quiet_io [1]
      ((fst (log_open 2 64 False empty_disk))\<lparr>lg_write_handle := None\<rparr>, snd (log_open 2 64 False empty_disk))
     = (Inr r, log'', snd (log_open 2 64 False empty_disk))"
  by (rule failed_rotation_stops_the_disk_silently
      [of "quiet_io\<lparr>truncate_fault := Some ReplaceFailed\<rparr>" "fst (log_open 2 64 False empty_disk)"
        "snd (log_open 2 64 False empty_disk)" IoError _ _ 0])
    (simp_all add: failed_rotation_example,
     simp_all add: log_open_def open_or_recover_def create_file_def empty_disk_def
       invalidate_read_handle_def replace_log_def)

text \<open>
  A reader that fell behind a rotation panics. When the owner's file starts beyond the
  reader's offset plus the size it asks for, and the offset is at or after the end of the file at
  the time the reader opened it, the read subtracts below zero instead of resuming at the oldest
  byte available.
\<close>

theorem lagging_reader_panics:
  assumes "lg_read_only log" "lg_ring_start_offset log \<le> off" "off < lg_tail_offset log"
    "off + n < lg_file_base_offset log" "lg_read_handle log = Some ino"
  shows "fst (log_read off n (log, fs)) = None"
proof -
  have "lg_ring_start_offset log \<le> lg_file_base_offset log"
    using assms(2,4) by linarith
  then have m: "max off (min (lg_ring_start_offset log) (lg_file_base_offset log)) = off"
    using assms(2) by (simp add: min_absorb1 max_absorb1)
  have "min (lg_tail_offset log) (off + n) < lg_file_base_offset log"
    using assms(4) by simp
  then have "fst (read_from_disk off (min (lg_tail_offset log) (off + n)) (log, fs)) = None"
    using assms(4,5) by (simp add: read_from_disk_def reader_handle_def Let_def max_def)
  then show ?thesis
    using assms(1,3) by (simp add: log_read_def m Let_def)
qed

text \<open>The owner writes 6 bytes to a file of at most 4, so that the file starts at offset 4.\<close>

definition rotated_disk :: disk_state where
  "rotated_disk = snd (snd (log_append quiet_io [1, 2, 3, 4, 5, 6] (log_open 2 4 False empty_disk)))"

definition lagging_reader :: output_log where
  "lagging_reader = fst (snd (refresh_from_disk
     (invalidate_read_handle (fst (log_reader (snd (log_open 2 4 False empty_disk)))), rotated_disk)))"

lemma lagging_reader_state:
  "lg_read_only lagging_reader" "lg_ring_start_offset lagging_reader = 0" "lg_tail_offset lagging_reader = 6"
  "lg_file_base_offset lagging_reader = 4" "lg_read_handle lagging_reader = Some 1"
proof -
  have d: "log_inode rotated_disk = Some 1" "inode_data rotated_disk 1 = log_header 4 @ [5, 6]"
    by (simp_all add: rotated_disk_def log_append_def append_to_disk_def truncate_to_half_def quiet_io_def
        Let_def log_open_def open_or_recover_def create_file_def empty_disk_def invalidate_read_handle_def
        replace_log_def append_inode_def HEADER_SIZE_def)
      (simp_all add: eval_nat_numeral)
  have o: "log_inode (snd (log_open 2 4 False empty_disk)) = Some 0"
    "inode_data (snd (log_open 2 4 False empty_disk)) 0 = log_header 0 @ []"
    by (simp_all add: log_open_def open_or_recover_def create_file_def empty_disk_def replace_log_def
        invalidate_read_handle_def)
  define r where "r = fst (log_reader (snd (log_open 2 4 False empty_disk)))"
  have r: "lg_read_only r" "lg_ring_start_offset r = 0"
    using o recovered_log_header [of 0 "[]"]
    by (simp_all add: r_def log_reader_def log_open_def [of _ _ True] open_or_recover_def)
  have h: "recovered_header (log_header 4 @ [5, 6]) = Some (4, 2)"
    using recovered_log_header [of 4 "[5, 6]"] by simp
  then have b: "read_u32_be (log_header 4 @ [5, 6]) 0 = LOG_MAGIC" "unat (read_u64_be (log_header 4 @ [5, 6]) 8) = 4"
    by (simp_all add: recovered_header_def HEADER_SIZE_def split: if_splits)
  have e: "lagging_reader = r\<lparr>lg_read_handle := Some 1, lg_file_base_offset := 4, lg_file_bytes := 2,
      lg_tail_offset := 6, lg_sync_points := filter (\<lambda>s. s \<ge> 4) (lg_sync_points r)\<rparr>"
    unfolding lagging_reader_def r_def [symmetric]
    using r d b by (simp add: refresh_from_disk_def reader_handle_def invalidate_read_handle_def Let_def HEADER_SIZE_def)
  show "lg_read_only lagging_reader" "lg_ring_start_offset lagging_reader = 0" "lg_tail_offset lagging_reader = 6"
    "lg_file_base_offset lagging_reader = 4" "lg_read_handle lagging_reader = Some 1"
    unfolding e using r by simp_all
qed

theorem lagging_reader_panics_witness:
  "fst (log_read 0 3 (lagging_reader, rotated_disk)) = None"
  by (rule lagging_reader_panics [of _ _ _ 1]) (simp_all add: lagging_reader_state)

end
