(* ===== verification/Remote_Log.thy ===== *)
theory Remote_Log
  imports Output_Log
begin

text \<open>
  The remote holder's output log, \<^verbatim>\<open>homie-remote/src/output_log.rs\<close>: a file with a header and the
  newest part of the stream, no ring in memory, reads by a fresh handle on the path, errors
  returned to the caller. The disk and its faults are those of theory \<open>Output_Log\<close>. Shown: it keeps
  the same contract as the engine's log.
\<close>

section \<open>The log\<close>

definition REMOTE_MAGIC :: u32 where "REMOTE_MAGIC = 0x44524C47"
definition REMOTE_VERSION :: u32 where "REMOTE_VERSION = 1"
definition REMOTE_HEADER_BYTES :: usize where "REMOTE_HEADER_BYTES = 16"
definition DISK_CAPACITY :: usize where "DISK_CAPACITY = 32 * 2 ^ 20"

datatype remote_log_error = LogIo | InvalidHeader

record remote_log =
  rl_writer :: nat
  rl_base_offset :: nat
  rl_payload_bytes :: usize

definition write_new :: "nat \<Rightarrow> bytes \<Rightarrow> bytes" where
  "write_new base bs = u32_to_be REMOTE_MAGIC @ u32_to_be REMOTE_VERSION @ u64_to_be (of_nat base) @ bs"

text \<open>Creating a missing file is assumed to succeed; an existing one is read.\<close>

definition remote_log_open :: "disk_state \<Rightarrow> (remote_log_error, remote_log) result \<times> disk_state" where
  "remote_log_open fs =
     (let fs = (if log_inode fs = None then replace_log (write_new 0 []) fs else fs);
          ino = the (log_inode fs);
          data = inode_data fs ino
      in if length data < REMOTE_HEADER_BYTES then (Inl LogIo, fs)
         else if read_u32_be data 0 \<noteq> REMOTE_MAGIC \<or> read_u32_be data 4 \<noteq> REMOTE_VERSION
         then (Inl InvalidHeader, fs)
         else (Inr \<lparr>rl_writer = ino, rl_base_offset = unat (read_u64_be data 8),
                     rl_payload_bytes = length data - REMOTE_HEADER_BYTES\<rparr>, fs))"

definition rl_tail_offset :: "remote_log \<Rightarrow> nat" where
  "rl_tail_offset log = rl_base_offset log + rl_payload_bytes log"

definition remote_truncate_to_half :: "log_io \<Rightarrow> remote_log \<times> disk_state
    \<Rightarrow> (remote_log_error, unit) result \<times> remote_log \<times> disk_state" where
  "remote_truncate_to_half io p =
     (let (log, fs) = p;
          keep = DISK_CAPACITY div 2;
          drop_bytes = rl_payload_bytes log - keep
      in case log_inode fs of
           None \<Rightarrow> (Inl LogIo, log, fs)
         | Some ino \<Rightarrow>
             if truncate_fault io = Some SourceUnreadable then (Inl LogIo, log, fs)
             else
               let kept = drop (REMOTE_HEADER_BYTES + drop_bytes) (inode_data fs ino);
                   new_base = rl_base_offset log + drop_bytes
               in if truncate_fault io = Some ReplaceFailed then (Inl LogIo, log, fs)
                  else
                    let fs = replace_log (write_new new_base kept) fs in
                    if truncate_fault io = Some ReopenFailed then (Inl LogIo, log, fs)
                    else (Inr (), \<lparr>rl_writer = the (log_inode fs), rl_base_offset = new_base,
                                   rl_payload_bytes = length kept\<rparr>, fs))"

definition remote_log_append :: "log_io \<Rightarrow> bytes \<Rightarrow> remote_log \<times> disk_state
    \<Rightarrow> (remote_log_error, nat) result \<times> remote_log \<times> disk_state" where
  "remote_log_append io bs p =
     (let (log, fs) = p;
          start = rl_tail_offset log
      in case write_fault io of
           Some k \<Rightarrow> (Inl LogIo, log, append_inode (rl_writer log) (take k bs) fs)
         | None \<Rightarrow>
             let fs = append_inode (rl_writer log) bs fs;
                 log = log\<lparr>rl_payload_bytes := rl_payload_bytes log + length bs\<rparr>
             in if rl_payload_bytes log > DISK_CAPACITY
                then let (res, log, fs) = remote_truncate_to_half io (log, fs)
                     in (and_then res (\<lambda>_. Inr start), log, fs)
                else (Inr start, log, fs))"

definition remote_log_read :: "nat \<Rightarrow> usize \<Rightarrow> remote_log \<times> disk_state
    \<Rightarrow> (remote_log_error, nat \<times> bytes) result" where
  "remote_log_read requested_offset maximum p =
     (let (log, fs) = p;
          start = max requested_offset (rl_base_offset log);
          tail = rl_tail_offset log
      in if start \<ge> tail \<or> maximum = 0 then Inr (tail, [])
         else
           let count = min (tail - start) maximum in
           case log_inode fs of
             None \<Rightarrow> Inl LogIo
           | Some ino \<Rightarrow>
               let rest = drop (REMOTE_HEADER_BYTES + (start - rl_base_offset log)) (inode_data fs ino)
               in if length rest < count then Inl LogIo else Inr (start, take count rest))"

section \<open>The contract\<close>

definition remote_stored :: "bytes \<Rightarrow> remote_log \<times> disk_state \<Rightarrow> bool" where
  "remote_stored S p \<longleftrightarrow> (case p of (log, fs) \<Rightarrow>
     rl_base_offset log \<le> length S \<and> rl_payload_bytes log = length S - rl_base_offset log
     \<and> log_inode fs = Some (rl_writer log) \<and> rl_writer log < next_inode fs
     \<and> inode_data fs (rl_writer log) = write_new (rl_base_offset log) (drop (rl_base_offset log) S))"

lemma write_new_append: "write_new base bs @ cs = write_new base (bs @ cs)"
  by (simp add: write_new_def)

lemma drop_write_new: "drop (16 + n) (write_new base bs) = drop n bs"
  by (simp add: write_new_def)

lemma length_write_new [simp]: "length (write_new base bs) = 16 + length bs"
  by (simp add: write_new_def)

lemma remote_append_stored:
  assumes "remote_stored S p" "no_faults io"
  shows "fst (remote_log_append io bs p) = Inr (length S) \<and> remote_stored (S @ bs) (snd (remote_log_append io bs p))"
proof -
  obtain log fs where p: "p = (log, fs)" by (cases p)
  let ?log = "log\<lparr>rl_payload_bytes := rl_payload_bytes log + length bs\<rparr>"
  let ?fs = "append_inode (rl_writer log) bs fs"
  have st: "remote_stored (S @ bs) (?log, ?fs)"
    using assms(1) by (auto simp: p remote_stored_def append_inode_def write_new_append)
  have tail: "rl_tail_offset log = length S"
    using assms(1) by (auto simp: p remote_stored_def rl_tail_offset_def)
  have "fst (remote_truncate_to_half io (?log, ?fs)) = Inr ()
      \<and> remote_stored (S @ bs) (snd (remote_truncate_to_half io (?log, ?fs)))"
  proof -
    let ?b = "rl_base_offset log" and ?n = "rl_payload_bytes log + length bs - DISK_CAPACITY div 2"
    have k: "drop (REMOTE_HEADER_BYTES + ?n) (inode_data ?fs (rl_writer log)) = drop (?b + ?n) (S @ bs)"
    proof -
      have "inode_data ?fs (rl_writer log) = write_new ?b (drop ?b (S @ bs))"
        using st by (simp add: remote_stored_def)
      then show ?thesis
        by (simp only: REMOTE_HEADER_BYTES_def drop_write_new drop_drop) (simp only: add.commute)
    qed
    have "log_inode ?fs = Some (rl_writer log)" "?b + ?n \<le> length (S @ bs)"
      using st by (auto simp: remote_stored_def append_inode_def)
    then show ?thesis
      unfolding remote_truncate_to_half_def using k assms(2)
      by (simp add: no_faults_def Let_def remote_stored_def replace_log_def) linarith
  qed
  then show ?thesis
    using st tail assms(2)
    by (cases "remote_truncate_to_half io (?log, ?fs)") (simp add: p remote_log_append_def no_faults_def Let_def)
qed

lemma remote_read_stored:
  assumes "remote_stored S p" "0 < n"
  shows "remote_log_read from n p = Inr (read_answer S (rl_base_offset (fst p)) from n)"
proof -
  obtain log fs where p: "p = (log, fs)" by (cases p)
  define s where "s = max from (rl_base_offset log)"
  have tail: "rl_tail_offset log = length S"
    using assms(1) by (auto simp: p remote_stored_def rl_tail_offset_def)
  have ino: "log_inode fs = Some (rl_writer log)"
    and d: "inode_data fs (rl_writer log) = write_new (rl_base_offset log) (drop (rl_base_offset log) S)"
    using assms(1) by (auto simp: p remote_stored_def)
  have "s - rl_base_offset log + rl_base_offset log = s"
    by (simp add: s_def)
  then have rest: "drop (REMOTE_HEADER_BYTES + (s - rl_base_offset log)) (inode_data fs (rl_writer log)) = drop s S"
    by (simp only: d REMOTE_HEADER_BYTES_def drop_write_new drop_drop)
  have m: "min (length S - s) n = min (length S) (s + n) - s"
    by auto
  show ?thesis
    unfolding remote_log_read_def read_answer_def segment_def
    using assms(2) by (simp add: p tail s_def [symmetric] rest ino m Let_def) linarith
qed

definition remote_rd :: "remote_log \<times> disk_state \<Rightarrow> nat \<Rightarrow> nat \<Rightarrow> (nat \<times> bytes) \<times> remote_log \<times> disk_state" where
  "remote_rd p from n = (case remote_log_read from n p of Inr r \<Rightarrow> (r, p) | Inl _ \<Rightarrow> ((0, []), p))"

interpretation rl: offset_log remote_stored "\<lambda>p. rl_base_offset (fst p)" remote_rd
proof (unfold_locales, goal_cases)
  case (1 S l)
  then show ?case by (auto simp: remote_stored_def)
next
  case (2 S l n "from")
  then show ?case
    by (simp add: remote_rd_def remote_read_stored read_answer_def)
next
  case (3 S l "from" n)
  then show ?case by (auto simp: remote_rd_def split: sum.split)
next
  case (4 S l "from" n)
  then show ?case by (auto simp: remote_rd_def split: sum.split)
qed

section \<open>Histories\<close>

fun remote_log_do :: "remote_log \<times> disk_state \<Rightarrow> log_op \<Rightarrow> remote_log \<times> disk_state" where
  "remote_log_do p (Append io bs) = snd (remote_log_append io bs p)"
| "remote_log_do p Reopen =
     (case remote_log_open (snd p) of (Inr log, fs) \<Rightarrow> (log, fs) | (Inl _, fs) \<Rightarrow> (fst p, fs))"

lemma remote_open_stored:
  assumes "remote_stored S p" "length S < 2 ^ 64"
  shows "\<exists>log. remote_log_open (snd p) = (Inr log, snd p) \<and> remote_stored S (log, snd p)"
proof -
  obtain log fs where p: "p = (log, fs)" by (cases p)
  let ?b = "rl_base_offset log"
  have d: "log_inode fs = Some (rl_writer log)" "?b \<le> length S"
    "inode_data fs (rl_writer log) = write_new ?b (drop ?b S)"
    using assms(1) by (auto simp: p remote_stored_def)
  have "read_u32_be (write_new ?b (drop ?b S)) 0 = REMOTE_MAGIC"
    "read_u32_be (write_new ?b (drop ?b S)) 4 = REMOTE_VERSION"
    by (simp_all add: write_new_def read_u32_be_def segment_def)
  moreover have "segment (write_new ?b (drop ?b S)) 8 16 = u64_to_be (of_nat ?b)"
    by (simp add: write_new_def segment_def)
  then have "unat (read_u64_be (write_new ?b (drop ?b S)) 8) = ?b"
    using assms(2) d(2) by (simp add: read_u64_be_def unat_of_nat)
  ultimately show ?thesis
    using assms(1) d by (simp add: p remote_log_open_def Let_def REMOTE_HEADER_BYTES_def remote_stored_def)
qed

lemma remote_open_new: "\<exists>log fs. remote_log_open empty_disk = (Inr log, fs) \<and> remote_stored [] (log, fs)"
  by (simp add: remote_log_open_def empty_disk_def replace_log_def Let_def REMOTE_HEADER_BYTES_def
      remote_stored_def write_new_def read_u32_be_def read_u64_be_def segment_def)

lemma remote_history_stored:
  assumes "list_all log_op_ok ops" "length S + length (concat (map log_op_data ops)) < 2 ^ 64" "remote_stored S p"
  shows "remote_stored (S @ concat (map log_op_data ops)) (run_machine remote_log_do p ops)"
  using assms
proof (induction ops arbitrary: S p)
  case (Cons op ops)
  have "remote_stored (S @ log_op_data op) (remote_log_do p op)"
    using Cons.prems remote_append_stored [OF Cons.prems(3)] remote_open_stored [OF Cons.prems(3)]
    by (cases op) auto
  then show ?case
    using Cons.IH [of "S @ log_op_data op" "remote_log_do p op"] Cons.prems by (simp add: add.assoc)
qed simp

text \<open>
  The remote holder's log keeps the contract too: for every fault-free history of appends and
  restarts of the holder, a read at any offset succeeds with exactly the bytes of the stream there,
  and a bridge that reads chunk after chunk receives the rest of the stream without a gap.
\<close>

theorem remote_log_reads_stream:
  assumes "remote_log_open empty_disk = (Inr log, fs)" "list_all log_op_ok ops"
    "length (concat (map log_op_data ops)) < 2 ^ 64" "0 < n"
  shows "let S = concat (map log_op_data ops); p = run_machine remote_log_do (log, fs) ops
         in remote_log_read from n p = Inr (read_answer S (rl_base_offset (fst p)) from n)
            \<and> fst (catch_up remote_rd (length S + 1) p from n) = drop (max from (rl_base_offset (fst p))) S"
proof -
  let ?S = "concat (map log_op_data ops)" and ?p = "run_machine remote_log_do (log, fs) ops"
  have st: "remote_stored ?S ?p"
    using remote_history_stored [OF assms(2), of "[]" "(log, fs)"] assms(1,3) remote_open_new by auto
  then have "fst (catch_up remote_rd (length ?S + 1) ?p from n) = drop (max from (rl_base_offset (fst ?p))) ?S"
    using assms(4) by (intro rl.catch_up_complete) auto
  then show ?thesis
    using remote_read_stored [OF st assms(4), of "from"] by (simp only: Let_def)
qed

lemma remote_open_example:
  "remote_log_open empty_disk = (Inr \<lparr>rl_writer = 0, rl_base_offset = 0, rl_payload_bytes = 0\<rparr>,
     replace_log (write_new 0 []) empty_disk)"
  by (simp add: remote_log_open_def empty_disk_def replace_log_def Let_def REMOTE_HEADER_BYTES_def
      write_new_def read_u32_be_def read_u64_be_def segment_def)

theorem remote_log_reads_stream_witness:
  "let S = concat (map log_op_data [Append quiet_io [1, 2, 3], Reopen, Append quiet_io [4]]);
       p = run_machine remote_log_do (\<lparr>rl_writer = 0, rl_base_offset = 0, rl_payload_bytes = 0\<rparr>,
             replace_log (write_new 0 []) empty_disk) [Append quiet_io [1, 2, 3], Reopen, Append quiet_io [4]]
   in remote_log_read 1 2 p = Inr (read_answer S (rl_base_offset (fst p)) 1 2)
      \<and> fst (catch_up remote_rd (length S + 1) p 1 2) = drop (max 1 (rl_base_offset (fst p))) S"
  by (rule remote_log_reads_stream [OF remote_open_example]) (simp_all add: quiet_io_def no_faults_def)

end
