(* ===== verification/Events.thy ===== *)
theory Events
  imports Model "HOL-Library.Sublist"
begin

text \<open>
  The event bus of \<^verbatim>\<open>homie-engine/src/events.rs\<close>: events get consecutive sequence numbers, a bounded
  ring keeps the newest for replay, and each subscriber has a queue of its own that evicts its oldest
  event on overflow and later reports the hole with a marker. Queues live in the bus by subscriber
  id; a publish first takes its number and the list of subscribers under the lock (\<open>publish_begin\<close>)
  and then, without the lock, pushes to one queue after the other. \<open>publish\<close> runs both without
  interruption; \<open>bus_step\<close> interleaves the publishers.
  Sequence numbers and counters are natural numbers: the u64 ones start at one and are only counted
  up. JSON text is the serde\_json library's and a parameter.
\<close>

section \<open>Events and filters\<close>

datatype json_value = Null | JBool bool | JNumber int | JString str | JArray "json_value list"
  | JObject "(str \<times> json_value) list"

fun json_get :: "str \<Rightarrow> json_value \<Rightarrow> json_value option" where
  "json_get key (JObject kvs) = map_of kvs key"
| "json_get key _ = None"

fun as_str :: "json_value \<Rightarrow> str option" where
  "as_str (JString s) = Some s"
| "as_str _ = None"

record json_text =
  to_vec :: "json_value \<Rightarrow> bytes option"
  from_vec :: "bytes \<Rightarrow> json_value option"

definition EVENTS_DROPPED :: str where "EVENTS_DROPPED = lit ''events.dropped''"

record event =
  ev_name :: str
  ev_seq :: nat
  ev_session_id :: "str option"
  ev_params :: json_value

record event_filter =
  f_sessions :: "str set option"
  f_kinds :: "str set option"

definition filter_all :: event_filter where
  "filter_all = \<lparr>f_sessions = None, f_kinds = None\<rparr>"

definition normalize_list :: "str list option \<Rightarrow> str set option" where
  "normalize_list l = (case l of None \<Rightarrow> None | Some xs \<Rightarrow> if set xs = {} then None else Some (set xs))"

definition filter_new :: "str list option \<Rightarrow> str list option \<Rightarrow> event_filter" where
  "filter_new sessions kinds = \<lparr>f_sessions = normalize_list sessions, f_kinds = normalize_list kinds\<rparr>"

definition admits :: "event_filter \<Rightarrow> event \<Rightarrow> bool" where
  "admits f e =
     (if ev_name e = EVENTS_DROPPED then True
      else if (case f_kinds f of Some kinds \<Rightarrow> ev_name e \<notin> kinds | None \<Rightarrow> False) then False
      else (case f_sessions f of
              None \<Rightarrow> True
            | Some sessions \<Rightarrow>
                (case ev_session_id e of Some i \<Rightarrow> i \<in> sessions | None \<Rightarrow> False)))"

section \<open>Subscriber queues\<close>

record queue_state =
  q_queue :: "event list"
  q_filter :: event_filter
  q_capacity :: usize
  q_dropped :: nat
  q_first_dropped_seq :: nat
  q_last_dropped_seq :: nat
  q_closed :: bool

definition queue_new :: "event_filter \<Rightarrow> usize \<Rightarrow> queue_state" where
  "queue_new f c = \<lparr>q_queue = [], q_filter = f, q_capacity = c, q_dropped = 0,
     q_first_dropped_seq = 0, q_last_dropped_seq = 0, q_closed = False\<rparr>"

definition dropped_marker :: "nat \<Rightarrow> nat \<Rightarrow> nat \<Rightarrow> event" where
  "dropped_marker dropped from_seq to_seq =
     \<lparr>ev_name = EVENTS_DROPPED, ev_seq = 0, ev_session_id = None,
      ev_params = JObject [(lit ''dropped'', JNumber (int dropped)), (lit ''fromSeq'', JNumber (int from_seq)),
        (lit ''toSeq'', JNumber (int to_seq))]\<rparr>"

definition push :: "event \<Rightarrow> queue_state \<Rightarrow> queue_state" where
  "push e q =
     (if q_closed q \<or> \<not> admits (q_filter q) e then q
      else
        let q = (if length (q_queue q) \<ge> q_capacity q then
                   (case q_queue q of
                      evicted # rest \<Rightarrow>
                        (let q = q\<lparr>q_queue := rest\<rparr>;
                             q = (if q_dropped q = 0 then q\<lparr>q_first_dropped_seq := ev_seq evicted\<rparr> else q)
                         in q\<lparr>q_last_dropped_seq := ev_seq evicted, q_dropped := q_dropped q + 1\<rparr>)
                    | [] \<Rightarrow> q)
                 else if q_dropped q > 0 then
                   q\<lparr>q_queue := q_queue q @ [dropped_marker (q_dropped q) (q_first_dropped_seq q) (q_last_dropped_seq q)],
                     q_dropped := 0\<rparr>
                 else q)
        in q\<lparr>q_queue := q_queue q @ [e]\<rparr>)"

definition try_recv :: "queue_state \<Rightarrow> event option \<times> queue_state" where
  "try_recv q = (case q_queue q of [] \<Rightarrow> (None, q) | e # rest \<Rightarrow> (Some e, q\<lparr>q_queue := rest\<rparr>))"

section \<open>The bus\<close>

record archived =
  ar_name :: str
  ar_seq :: nat
  ar_session_id :: "str option"
  ar_params :: bytes

definition storage_bytes :: "archived \<Rightarrow> usize" where
  "storage_bytes a = length (utf8 (ar_name a)) + length (ar_params a) + 16"

definition archived_event :: "json_text \<Rightarrow> archived \<Rightarrow> event" where
  "archived_event j a = \<lparr>ev_name = ar_name a, ev_seq = ar_seq a, ev_session_id = ar_session_id a,
     ev_params = (case from_vec j (ar_params a) of Some v \<Rightarrow> v | None \<Rightarrow> Null)\<rparr>"

record event_bus =
  b_next_seq :: nat
  b_ring :: "archived list"
  b_ring_bytes :: usize
  b_queues :: "nat \<Rightarrow> queue_state" \<comment> \<open>the queues, shared with their streams\<close>
  b_subscribers :: "nat list" \<comment> \<open>the ids in the subscriber map\<close>
  b_next_subscriber :: nat
  b_ring_capacity :: usize
  b_ring_byte_capacity :: usize
  b_subscriber_capacity :: usize

definition with_capacities :: "usize \<Rightarrow> usize \<Rightarrow> usize option \<Rightarrow> event_bus" where
  "with_capacities ring_capacity ring_byte_capacity subscriber_capacity =
     \<lparr>b_next_seq = 1, b_ring = [], b_ring_bytes = 0, b_queues = \<lambda>_. queue_new filter_all 1,
      b_subscribers = [], b_next_subscriber = 0, b_ring_capacity = ring_capacity,
      b_ring_byte_capacity = ring_byte_capacity,
      b_subscriber_capacity = max (case subscriber_capacity of
          None \<Rightarrow> max ring_capacity 1 * 2 | Some c \<Rightarrow> c) 1\<rparr>"

definition event_bus_new :: event_bus where
  "event_bus_new = with_capacities 4096 (8 * 2 ^ 20) None"

text \<open>The loop that drops the oldest archived events until both bounds hold.\<close>

fun trim_ring :: "usize \<Rightarrow> usize \<Rightarrow> archived list \<Rightarrow> usize \<Rightarrow> archived list \<times> usize" where
  "trim_ring cap byte_cap ring n =
     (if length ring > cap \<or> n > byte_cap then
        (case ring of
           [] \<Rightarrow> (ring, n)
         | oldest # rest \<Rightarrow> trim_ring cap byte_cap rest (n - storage_bytes oldest))
      else (ring, n))"

declare trim_ring.simps [simp del]

definition archive :: "json_text \<Rightarrow> event \<Rightarrow> event_bus \<Rightarrow> event_bus" where
  "archive j e bus =
     (if b_ring_capacity bus > 0 \<and> b_ring_byte_capacity bus > 0 then
        (case to_vec j (ev_params e) of
           None \<Rightarrow> bus
         | Some encoded \<Rightarrow>
             let a = \<lparr>ar_name = ev_name e, ar_seq = ev_seq e, ar_session_id = ev_session_id e, ar_params = encoded\<rparr>;
                 (ring, n) = trim_ring (b_ring_capacity bus) (b_ring_byte_capacity bus)
                     (b_ring bus @ [a]) (b_ring_bytes bus + storage_bytes a)
             in bus\<lparr>b_ring := ring, b_ring_bytes := n\<rparr>)
      else bus)"

text \<open>Under the lock: number, archive, snapshot of the subscribers.\<close>

definition publish_begin :: "json_text \<Rightarrow> str \<Rightarrow> json_value \<Rightarrow> str option \<Rightarrow> event_bus
    \<Rightarrow> event \<times> nat list \<times> event_bus" where
  "publish_begin j name params session_id bus =
     (let e = \<lparr>ev_name = name, ev_seq = b_next_seq bus, ev_session_id = session_id, ev_params = params\<rparr>;
          bus = bus\<lparr>b_next_seq := b_next_seq bus + 1\<rparr>;
          bus = archive j e bus
      in (e, b_subscribers bus, bus))"

definition push_to :: "event \<Rightarrow> nat \<Rightarrow> event_bus \<Rightarrow> event_bus" where
  "push_to e i bus = bus\<lparr>b_queues := (b_queues bus)(i := push e (b_queues bus i))\<rparr>"

definition publish :: "json_text \<Rightarrow> str \<Rightarrow> json_value \<Rightarrow> str option \<Rightarrow> event_bus \<Rightarrow> event_bus" where
  "publish j name params session_id bus =
     (let (e, ids, bus) = publish_begin j name params session_id bus in fold (push_to e) ids bus)"

definition subscribe :: "json_text \<Rightarrow> nat option \<Rightarrow> event_filter \<Rightarrow> event_bus \<Rightarrow> nat \<times> event_bus" where
  "subscribe j since_seq f bus =
     (let q = queue_new f (b_subscriber_capacity bus);
          q = (case since_seq of
                 None \<Rightarrow> q
               | Some since \<Rightarrow>
                   fold (\<lambda>a. push (archived_event j a)) [a \<leftarrow> b_ring bus. ar_seq a > since] q);
          i = b_next_subscriber bus
      in (i, bus\<lparr>b_next_subscriber := i + 1, b_subscribers := b_subscribers bus @ [i],
                 b_queues := (b_queues bus)(i := q)\<rparr>))"

definition current_seq :: "event_bus \<Rightarrow> nat" where
  "current_seq bus = b_next_seq bus - 1"

definition recv_from :: "nat \<Rightarrow> event_bus \<Rightarrow> event option \<times> event_bus" where
  "recv_from i bus =
     (let (r, q) = try_recv (b_queues bus i) in (r, bus\<lparr>b_queues := (b_queues bus)(i := q)\<rparr>))"

text \<open>Dropping the stream: unsubscribe and close.\<close>

definition drop_stream :: "nat \<Rightarrow> event_bus \<Rightarrow> event_bus" where
  "drop_stream i bus = bus\<lparr>b_subscribers := remove1 i (b_subscribers bus),
     b_queues := (b_queues bus)(i := (b_queues bus i)\<lparr>q_closed := True\<rparr>)\<rparr>"


section \<open>Waiting for a status\<close>

definition satisfies_wait_target :: "session_status \<Rightarrow> str \<Rightarrow> bool" where
  "satisfies_wait_target status target =
     (if target \<in> {lit ''idle'', lit ''done''} then status = Idle
      else if target = lit ''working'' then status = Working
      else if target = lit ''starting'' then status = Starting
      else if target = lit ''unknown'' then status = Unknown
      else if target \<in> {lit ''needsInput'', lit ''needs_input'', lit ''needs-input'', lit ''needs_me'', lit ''blocked''}
      then (case status of NeedsInput _ \<Rightarrow> True | _ \<Rightarrow> False)
      else if target \<in> {lit ''exited'', lit ''dead''}
      then (case status of Exited _ \<Rightarrow> True | _ \<Rightarrow> False)
      else False)"

section \<open>One queue\<close>

text \<open>What one push evicts, and a run of pushes and receives on one queue with everything it evicts.\<close>

definition accepts :: "queue_state \<Rightarrow> event \<Rightarrow> bool" where
  "accepts q e \<longleftrightarrow> \<not> q_closed q \<and> admits (q_filter q) e"

definition evicts :: "queue_state \<Rightarrow> event \<Rightarrow> event list" where
  "evicts q e = (if accepts q e \<and> length (q_queue q) \<ge> q_capacity q then take 1 (q_queue q) else [])"

definition is_marker :: "event \<Rightarrow> bool" where
  "is_marker e \<longleftrightarrow> ev_name e = EVENTS_DROPPED"

lemma is_marker_dropped [simp]: "is_marker (dropped_marker d f t)"
  by (simp add: is_marker_def dropped_marker_def)

lemma push_fields [simp]:
  "q_filter (push e q) = q_filter q" "q_capacity (push e q) = q_capacity q" "q_closed (push e q) = q_closed q"
  by (auto simp: push_def Let_def split: list.split)

lemma push_cases:
  obtains (refused) "\<not> accepts q e" "push e q = q" "evicts q e = []"
  | (evict) v rest where "accepts q e" "q_queue q = v # rest" "length (q_queue q) \<ge> q_capacity q" "evicts q e = [v]"
      "q_queue (push e q) = rest @ [e]" "q_dropped (push e q) = q_dropped q + 1"
  | (mark) "accepts q e" "length (q_queue q) < q_capacity q" "q_dropped q > 0" "evicts q e = []"
      "q_queue (push e q) = q_queue q
         @ [dropped_marker (q_dropped q) (q_first_dropped_seq q) (q_last_dropped_seq q), e]"
      "q_dropped (push e q) = 0"
  | (plain) "accepts q e" "length (q_queue q) < q_capacity q \<or> q_queue q = []" "evicts q e = []"
      "q_queue (push e q) = q_queue q @ [e]" "q_dropped (push e q) = q_dropped q"
proof -
  consider (a) "\<not> accepts q e" | (b) "accepts q e" "length (q_queue q) \<ge> q_capacity q" "q_queue q \<noteq> []"
    | (c) "accepts q e" "length (q_queue q) < q_capacity q" "q_dropped q > 0"
    | (d) "accepts q e" "length (q_queue q) < q_capacity q \<and> q_dropped q = 0 \<or> length (q_queue q) \<ge> q_capacity q \<and> q_queue q = []"
    by (cases "accepts q e"; cases "length (q_queue q) < q_capacity q"; cases "q_queue q = []") auto
  then show ?thesis
  proof cases
    case a
    then show ?thesis
      using refused by (auto simp: push_def accepts_def evicts_def)
  next
    case b
    then obtain v rest where "q_queue q = v # rest"
      by (cases "q_queue q") auto
    with b show ?thesis
      by (intro evict [of v rest]) (auto simp: push_def evicts_def accepts_def Let_def)
  next
    case c
    then show ?thesis
      by (intro mark) (auto simp: push_def evicts_def accepts_def Let_def)
  next
    case d
    then show ?thesis
      by (intro plain) (auto simp: push_def evicts_def accepts_def Let_def)
  qed
qed

datatype queue_op = Push event | Recv

record queue_trace =
  t_queue :: queue_state
  t_pushed :: "event list" \<comment> \<open>accepted so far\<close>
  t_received :: "event list"
  t_evicted :: "event list"

fun queue_do :: "queue_trace \<Rightarrow> queue_op \<Rightarrow> queue_trace" where
  "queue_do t (Push e) =
     t\<lparr>t_queue := push e (t_queue t),
       t_pushed := t_pushed t @ (if accepts (t_queue t) e then [e] else []),
       t_evicted := t_evicted t @ evicts (t_queue t) e\<rparr>"
| "queue_do t Recv =
     (case try_recv (t_queue t) of
        (None, q) \<Rightarrow> t\<lparr>t_queue := q\<rparr>
      | (Some e, q) \<Rightarrow> t\<lparr>t_queue := q, t_received := t_received t @ [e]\<rparr>)"

definition trace_new :: "queue_state \<Rightarrow> queue_trace" where
  "trace_new q = \<lparr>t_queue = q, t_pushed = [], t_received = [], t_evicted = []\<rparr>"

text \<open>The losses a list of events reports.\<close>

fun reported :: "event list \<Rightarrow> nat" where
  "reported [] = 0"
| "reported (e # es) =
     (case ev_params e of JObject ((_, JNumber n) # _) \<Rightarrow> if is_marker e then nat n else 0 | _ \<Rightarrow> 0) + reported es"

lemma reported_append [simp]: "reported (xs @ ys) = reported xs + reported ys"
  by (induction xs) auto

lemma reported_marker [simp]: "reported [dropped_marker d f t] = d"
  by (simp add: dropped_marker_def is_marker_def)

lemma reported_plain: "\<not> is_marker e \<Longrightarrow> reported (e # es) = reported es"
  by (auto split: json_value.split list.split)

abbreviation arrived :: "queue_trace \<Rightarrow> event list" where
  "arrived t \<equiv> t_received t @ q_queue (t_queue t)"

definition trace_ok :: "queue_trace \<Rightarrow> bool" where
  "trace_ok t \<longleftrightarrow> 1 \<le> q_capacity (t_queue t)
     \<and> length (q_queue (t_queue t)) \<le> q_capacity (t_queue t) + 1
     \<and> subseq [e \<leftarrow> arrived t. \<not> is_marker e] (t_pushed t)
     \<and> length (t_pushed t) = length [e \<leftarrow> arrived t. \<not> is_marker e] + length [e \<leftarrow> t_evicted t. \<not> is_marker e]
     \<and> reported (arrived t) + q_dropped (t_queue t) + reported (t_evicted t) = length (t_evicted t)"

lemma subseq_drop_middle: "subseq (xs @ y # zs) ys \<Longrightarrow> subseq (xs @ zs) ys"
  by (meson list_emb_append_mono subseq_Cons' subseq_order.order_refl subseq_order.trans)


fun queue_op_ok :: "queue_op \<Rightarrow> bool" where
  "queue_op_ok (Push e) = (\<not> is_marker e)"
| "queue_op_ok Recv = True"

lemma reported_single: "\<not> is_marker e \<Longrightarrow> reported [e] = 0"
  by (simp add: reported_plain del: reported.simps(2))

lemma reported_Cons: "reported (x # xs) = reported [x] + reported xs"
  by simp

lemma queue_do_push:
  assumes "trace_ok t" "\<not> is_marker e"
  shows "trace_ok (queue_do t (Push e))"
proof (cases rule: push_cases [of "t_queue t" e])
  case refused
  then show ?thesis
    using assms by (simp add: trace_ok_def)
next
  case (evict v rest)
  have "subseq [x \<leftarrow> t_received t @ rest. \<not> is_marker x] (t_pushed t)"
    using assms(1) evict(2) subseq_drop_middle [of "[x \<leftarrow> t_received t. \<not> is_marker x]" v "[x \<leftarrow> rest. \<not> is_marker x]" "t_pushed t"]
    by (auto simp: trace_ok_def split: if_splits)
  then have "subseq ([x \<leftarrow> t_received t @ rest. \<not> is_marker x] @ [e]) (t_pushed t @ [e])"
    by (intro list_emb_append_mono) auto
  then show ?thesis
    using assms evict by (auto simp: trace_ok_def reported_single reported_Cons [of v rest] simp del: reported.simps(2))
next
  case mark
  then have "subseq ([x \<leftarrow> arrived t. \<not> is_marker x] @ [e]) (t_pushed t @ [e])"
    using assms by (intro list_emb_append_mono) (auto simp: trace_ok_def)
  then show ?thesis
    using assms mark reported_Cons [of "dropped_marker (q_dropped (t_queue t)) (q_first_dropped_seq (t_queue t)) (q_last_dropped_seq (t_queue t))" "[e]"]
    by (simp add: trace_ok_def reported_single del: reported.simps(2))
next
  case plain
  then have "subseq ([x \<leftarrow> arrived t. \<not> is_marker x] @ [e]) (t_pushed t @ [e])"
    using assms by (intro list_emb_append_mono) (auto simp: trace_ok_def)
  then show ?thesis
    using assms plain by (auto simp: trace_ok_def reported_single simp del: reported.simps(2))
qed

lemma queue_do_ok:
  assumes "trace_ok t" "queue_op_ok op"
  shows "trace_ok (queue_do t op)"
proof (cases op)
  case (Push e)
  then show ?thesis using assms queue_do_push by simp
next
  case Recv
  then show ?thesis
    using assms(1) by (cases "q_queue (t_queue t)") (auto simp: try_recv_def trace_ok_def simp del: reported.simps(2))
qed

lemma queue_run_ok:
  assumes "trace_ok t" "list_all queue_op_ok ops"
  shows "trace_ok (run_machine queue_do t ops)"
  using assms by (induction ops arbitrary: t) (auto intro: queue_do_ok)

lemma trace_new_ok: "1 \<le> c \<Longrightarrow> trace_ok (trace_new (queue_new f c))"
  by (simp add: trace_ok_def trace_new_def queue_new_def)

lemma queue_run_same:
  "q_capacity (t_queue (run_machine queue_do t ops)) = q_capacity (t_queue t)
   \<and> q_filter (t_queue (run_machine queue_do t ops)) = q_filter (t_queue t)
   \<and> q_closed (t_queue (run_machine queue_do t ops)) = q_closed (t_queue t)"
proof (induction ops arbitrary: t)
  case (Cons op ops)
  have "q_capacity (t_queue (queue_do t op)) = q_capacity (t_queue t)
    \<and> q_filter (t_queue (queue_do t op)) = q_filter (t_queue t)
    \<and> q_closed (t_queue (queue_do t op)) = q_closed (t_queue t)"
    by (cases op) (auto simp: try_recv_def split: list.split)
  then show ?case using Cons by simp
qed simp

lemmas queue_run_fields [simp] =
  queue_run_same [THEN conjunct1] queue_run_same [THEN conjunct2, THEN conjunct1]
  queue_run_same [THEN conjunct2, THEN conjunct2]

lemma admits_all [simp]: "admits filter_all e"
  by (simp add: admits_def filter_all_def)


definition sample_event :: "nat \<Rightarrow> event" where
  "sample_event n = \<lparr>ev_name = lit ''x'', ev_seq = n, ev_session_id = None, ev_params = Null\<rparr>"

lemma sample_event_plain [simp]: "\<not> is_marker (sample_event n)"
  by (simp add: is_marker_def sample_event_def EVENTS_DROPPED_def lit_def)


text \<open>
  A queue never grows beyond one over its capacity, whatever the subscriber does, and the
  newest accepted event is always at its end.
\<close>

theorem queue_is_bounded:
  assumes "1 \<le> c" "list_all queue_op_ok ops" "accepts (t_queue (run_machine queue_do (trace_new (queue_new f c)) ops)) e"
    "\<not> is_marker e"
  shows "let q = push e (t_queue (run_machine queue_do (trace_new (queue_new f c)) ops))
    in length (q_queue q) \<le> c + 1 \<and> last (q_queue q) = e"
proof -
  let ?t = "run_machine queue_do (trace_new (queue_new f c)) ops"
  have ok: "trace_ok ?t"
    by (rule queue_run_ok [OF trace_new_ok [OF assms(1)] assms(2)])
  have c: "q_capacity (t_queue ?t) = c"
    by (simp add: trace_new_def queue_new_def)
  have "length (q_queue (push e (t_queue ?t))) \<le> c + 1"
    using queue_do_push [OF ok assms(4)] c by (simp add: trace_ok_def)
  moreover have "last (q_queue (push e (t_queue ?t))) = e"
    by (rule push_cases [of "t_queue ?t" e]) (use assms(3) in auto)
  ultimately show ?thesis by (simp add: Let_def)
qed

theorem queue_is_bounded_witness:
  "let q = push (sample_event 3) (t_queue (run_machine queue_do (trace_new (queue_new filter_all 1))
       [Push (sample_event 1), Push (sample_event 2), Recv]))
   in length (q_queue q) \<le> 1 + 1 \<and> last (q_queue q) = sample_event 3"
  by (rule queue_is_bounded)
    (simp_all add: accepts_def queue_new_def trace_new_def del: run_machine.simps)

text \<open>
  A marker can itself be evicted, and then the hole it reported is lost: with capacity one, after
  events 1 and 2, a receive, events 3 and 4, two receives and event 5, the subscriber has received or
  queued events 2 to 5 and one marker, which claims one loss from sequence 0 to sequence 0; event 1
  is gone and nothing reports it.
\<close>

theorem evicted_marker_hides_a_hole:
  "arrived (run_machine queue_do (trace_new (queue_new filter_all 1))
     [Push (sample_event 1), Push (sample_event 2), Recv, Push (sample_event 3), Push (sample_event 4),
      Recv, Recv, Push (sample_event 5)])
   = [sample_event 2, sample_event 3, sample_event 4, dropped_marker 1 0 0, sample_event 5]"
  by (simp add: accepts_def admits_def evicts_def filter_all_def queue_new_def trace_new_def try_recv_def
      push_def sample_event_def EVENTS_DROPPED_def lit_def dropped_marker_def Let_def)

end
