(* ===== verification/Event_Bus.thy ===== *)
theory Event_Bus
  imports Events
begin

text \<open>
  The bus of theory \<open>Events\<close> as a whole: the bounds of the replay ring under every interleaving of
  publishers, subscribers and receivers; replay without loss; gapless resumption from a sequence
  number; and an interleaving in which a subscriber sees a later event before an earlier one.
\<close>

section \<open>The ring\<close>

definition ring_size :: "archived list \<Rightarrow> nat" where
  "ring_size ring = sum_list (map storage_bytes ring)"

lemma trim_ring_spec:
  assumes "n = ring_size ring" "trim_ring cap byte_cap ring n = (r, m)"
  shows "suffix r ring \<and> m = ring_size r \<and> length r \<le> cap \<and> m \<le> byte_cap"
  using assms
proof (induction cap byte_cap ring n rule: trim_ring.induct)
  case (1 cap byte_cap ring n)
  show ?case
  proof (cases "length ring > cap \<or> n > byte_cap")
    case True
    then obtain a rest where ring: "ring = a # rest"
      using 1(2) by (cases ring) (auto simp: ring_size_def)
    have "suffix r rest \<and> m = ring_size r \<and> length r \<le> cap \<and> m \<le> byte_cap"
    proof (rule 1(1) [OF True ring])
      show "n - storage_bytes a = ring_size rest"
        using 1(2) ring by (simp add: ring_size_def)
      show "trim_ring cap byte_cap rest (n - storage_bytes a) = (r, m)"
        using 1(3) True ring by (simp add: trim_ring.simps [of cap byte_cap "a # rest"])
    qed
    then show ?thesis by (auto simp: ring suffix_Cons)
  next
    case False
    then show ?thesis
      using 1(2,3) by (auto simp: trim_ring.simps [of cap byte_cap ring])
  qed
qed

definition bus_ok :: "event_bus \<Rightarrow> bool" where
  "bus_ok bus \<longleftrightarrow> b_ring_bytes bus = ring_size (b_ring bus)
     \<and> length (b_ring bus) \<le> b_ring_capacity bus
     \<and> ring_size (b_ring bus) \<le> b_ring_byte_capacity bus
     \<and> sorted_wrt (<) (map ar_seq (b_ring bus))
     \<and> (\<forall>a \<in> set (b_ring bus). ar_seq a < b_next_seq bus)
     \<and> (\<forall>i \<in> set (b_subscribers bus). i < b_next_subscriber bus) \<and> distinct (b_subscribers bus)"

lemma suffix_sorted_wrt: "suffix xs ys \<Longrightarrow> sorted_wrt P ys \<Longrightarrow> sorted_wrt P xs"
  by (auto simp: suffix_def sorted_wrt_append)

lemma archive_ok:
  assumes "bus_ok bus" "ev_seq e = b_next_seq bus"
  shows "bus_ok (archive j e (bus\<lparr>b_next_seq := b_next_seq bus + 1\<rparr>))"
proof (cases "b_ring_capacity bus > 0 \<and> b_ring_byte_capacity bus > 0 \<and> to_vec j (ev_params e) \<noteq> None")
  case False
  then have "archive j e (bus\<lparr>b_next_seq := b_next_seq bus + 1\<rparr>) = bus\<lparr>b_next_seq := b_next_seq bus + 1\<rparr>"
    by (auto simp: archive_def)
  then show ?thesis
    using assms(1) by (auto simp: bus_ok_def)
next
  case True
  then obtain enc where enc: "to_vec j (ev_params e) = Some enc" by auto
  let ?a = "\<lparr>ar_name = ev_name e, ar_seq = ev_seq e, ar_session_id = ev_session_id e, ar_params = enc\<rparr>"
  obtain r m where t: "trim_ring (b_ring_capacity bus) (b_ring_byte_capacity bus) (b_ring bus @ [?a])
      (b_ring_bytes bus + storage_bytes ?a) = (r, m)"
    by (metis prod.exhaust)
  have spec: "suffix r (b_ring bus @ [?a])" "m = ring_size r" "length r \<le> b_ring_capacity bus"
      "m \<le> b_ring_byte_capacity bus"
    using trim_ring_spec [OF _ t] assms(1) by (simp_all add: bus_ok_def ring_size_def)
  have "sorted_wrt (<) (map ar_seq (b_ring bus @ [?a]))"
    using assms by (auto simp: bus_ok_def sorted_wrt_append)
  then have "sorted_wrt (<) (map ar_seq r)"
    using spec(1) suffix_sorted_wrt map_mono_suffix by blast
  moreover have "\<forall>a \<in> set r. ar_seq a < b_next_seq bus + 1"
    using set_mono_suffix [OF spec(1)] assms by (auto simp: bus_ok_def less_Suc_eq)
  ultimately show ?thesis
    using True enc t spec assms(1) by (simp add: archive_def bus_ok_def)
qed

lemma archive_keeps [simp]:
  "b_subscribers (archive j e bus) = b_subscribers bus"
  "b_next_subscriber (archive j e bus) = b_next_subscriber bus"
  "b_queues (archive j e bus) = b_queues bus"
  "b_next_seq (archive j e bus) = b_next_seq bus"
  "b_ring_capacity (archive j e bus) = b_ring_capacity bus"
  "b_ring_byte_capacity (archive j e bus) = b_ring_byte_capacity bus"
  "b_subscriber_capacity (archive j e bus) = b_subscriber_capacity bus"
  by (auto simp: archive_def Let_def split: option.split prod.split)

lemma push_to_keeps [simp]:
  "b_ring (push_to e i bus) = b_ring bus"
  "b_subscribers (push_to e i bus) = b_subscribers bus"
  "b_next_seq (push_to e i bus) = b_next_seq bus"
  "b_subscriber_capacity (push_to e i bus) = b_subscriber_capacity bus"
  "b_ring_capacity (push_to e i bus) = b_ring_capacity bus"
  "bus_ok (push_to e i bus) = bus_ok bus"
  by (simp_all add: push_to_def bus_ok_def)

section \<open>Interleavings\<close>

text \<open>
  A state is the bus and, for every publish under way, its event and the subscribers it has yet to
  push to. Publishers, subscribers and receivers take turns in any order.
\<close>

type_synonym bus_state = "event_bus \<times> (event \<times> nat list) list"

inductive bus_step :: "json_text \<Rightarrow> bus_state \<Rightarrow> bus_state \<Rightarrow> bool" for j where
  step_begin: "publish_begin j name params sid bus = (e, ids, bus') \<Longrightarrow>
     bus_step j (bus, pending) (bus', pending @ [(e, ids)])"
| step_push: "k < length pending \<Longrightarrow> pending ! k = (e, i # ids) \<Longrightarrow>
     bus_step j (bus, pending) (push_to e i bus, pending[k := (e, ids)])"
| step_subscribe: "subscribe j since f bus = (i, bus') \<Longrightarrow> bus_step j (bus, pending) (bus', pending)"
| step_recv: "recv_from i bus = (r, bus') \<Longrightarrow> bus_step j (bus, pending) (bus', pending)"
| step_drop: "bus_step j (bus, pending) (drop_stream i bus, pending)"

definition state_ok :: "bus_state \<Rightarrow> bool" where
  "state_ok s \<longleftrightarrow> (case s of (bus, pending) \<Rightarrow>
     bus_ok bus \<and> distinct (map (ev_seq \<circ> fst) pending)
     \<and> (\<forall>p \<in> set pending. ev_seq (fst p) < b_next_seq bus))"

lemma bus_step_ok: "bus_step j s s' \<Longrightarrow> state_ok s \<Longrightarrow> state_ok s'"
proof (induction rule: bus_step.induct)
  case (step_begin name params sid bus e ids bus' pending)
  have b: "ev_seq e = b_next_seq bus" "bus' = archive j e (bus\<lparr>b_next_seq := b_next_seq bus + 1\<rparr>)"
    using step_begin.hyps by (auto simp: publish_begin_def Let_def)
  have "bus_ok bus'"
    using archive_ok [of bus e j] step_begin.prems b by (simp add: state_ok_def)
  then show ?case
    using step_begin.prems b by (auto simp: state_ok_def less_Suc_eq)
next
  case (step_push k pending e i ids bus)
  have "map (ev_seq \<circ> fst) (pending[k := (e, ids)]) = map (ev_seq \<circ> fst) pending"
    using step_push.hyps by (intro nth_equalityI) (auto simp: nth_list_update)
  moreover have "set (pending[k := (e, ids)]) \<subseteq> insert (e, ids) (set pending)"
    by (rule set_update_subset_insert)
  moreover have "(e, i # ids) \<in> set pending"
    using step_push.hyps nth_mem by fastforce
  ultimately show ?case
    using step_push.prems by (fastforce simp: state_ok_def)
next
  case (step_subscribe since f bus i bus' pending)
  then show ?case
    by (auto simp: state_ok_def subscribe_def Let_def bus_ok_def less_Suc_eq)
next
  case (step_recv i bus r bus' pending)
  then show ?case
    by (auto simp: state_ok_def recv_from_def Let_def bus_ok_def split: prod.splits)
next
  case (step_drop bus pending i)
  then show ?case
    using set_remove1_subset [of i "b_subscribers bus"] by (auto simp: state_ok_def drop_stream_def bus_ok_def)
qed

text \<open>
  Under every interleaving of publishers, subscribers and receivers the replay ring stays
  within its two bounds, its byte count is the sum of its entries, its events are in strictly
  ascending sequence order, and no two publishes under way share a sequence number.
\<close>

theorem ring_ordered_and_bounded:
  assumes "(bus_step j)\<^sup>*\<^sup>* (with_capacities rc bc sc, []) (bus, pending)"
  shows "length (b_ring bus) \<le> b_ring_capacity bus \<and> b_ring_bytes bus \<le> b_ring_byte_capacity bus
    \<and> b_ring_bytes bus = sum_list (map storage_bytes (b_ring bus))
    \<and> sorted_wrt (<) (map ar_seq (b_ring bus)) \<and> distinct (map (ev_seq \<circ> fst) pending)"
proof -
  have "state_ok (bus, pending)"
    using assms
  proof (induction rule: rtranclp_induct)
    case base
    then show ?case by (simp add: state_ok_def bus_ok_def with_capacities_def ring_size_def)
  qed (rule bus_step_ok)
  then show ?thesis
    by (simp add: state_ok_def bus_ok_def ring_size_def)
qed

definition sample_text :: json_text where
  "sample_text = \<lparr>to_vec = \<lambda>v. if v = Null then Some [110] else None, from_vec = \<lambda>_. Some Null\<rparr>"

definition after_one :: event_bus where
  "after_one = publish sample_text (lit ''x'') Null None (with_capacities 2 100 None)"

lemma after_one_reached: "(bus_step sample_text)\<^sup>*\<^sup>* (with_capacities 2 100 None, []) (after_one, [(sample_event 1, [])])"
proof -
  have "publish_begin sample_text (lit ''x'') Null None (with_capacities 2 100 None) = (sample_event 1, [], after_one)"
    by (simp add: after_one_def publish_def publish_begin_def sample_event_def with_capacities_def Let_def)
  from step_begin [OF this, of "[]"] show ?thesis
    by (simp add: r_into_rtranclp)
qed

theorem ring_ordered_and_bounded_witness:
  "length (b_ring after_one) \<le> b_ring_capacity after_one \<and> b_ring_bytes after_one \<le> b_ring_byte_capacity after_one
    \<and> b_ring_bytes after_one = sum_list (map storage_bytes (b_ring after_one))
    \<and> sorted_wrt (<) (map ar_seq (b_ring after_one)) \<and> distinct (map (ev_seq \<circ> fst) [(sample_event 1, [] :: nat list)])"
  by (rule ring_ordered_and_bounded [OF after_one_reached])


section \<open>Replay and resumption\<close>

lemma fold_push_no_overflow:
  assumes "q_dropped q = 0" "\<not> q_closed q" "length (q_queue q) + length es \<le> q_capacity q"
  shows "fold push es q = q\<lparr>q_queue := q_queue q @ [e \<leftarrow> es. admits (q_filter q) e]\<rparr>"
  using assms
proof (induction es arbitrary: q)
  case (Cons e es)
  have "push e q = (if admits (q_filter q) e then q\<lparr>q_queue := q_queue q @ [e]\<rparr> else q)"
    using Cons.prems by (simp add: push_def Let_def)
  then show ?case
    using Cons.IH [of "push e q"] Cons.prems by simp
qed simp

lemma subscribe_queue:
  assumes "bus_ok bus" "b_ring_capacity bus \<le> b_subscriber_capacity bus"
    "subscribe j (Some since) f bus = (i, bus')"
  shows "b_queues bus' i = (queue_new f (b_subscriber_capacity bus))
    \<lparr>q_queue := [e \<leftarrow> map (archived_event j) (b_ring bus). ev_seq e > since \<and> admits f e]\<rparr>"
proof -
  let ?as = "[a \<leftarrow> b_ring bus. ar_seq a > since]"
  have "length ?as \<le> b_subscriber_capacity bus"
    using assms(1,2) length_filter_le [of "\<lambda>a. ar_seq a > since" "b_ring bus"]
    unfolding bus_ok_def by linarith
  then have "fold push (map (archived_event j) ?as) (queue_new f (b_subscriber_capacity bus))
      = (queue_new f (b_subscriber_capacity bus))\<lparr>q_queue := [e \<leftarrow> map (archived_event j) ?as. admits f e]\<rparr>"
    using fold_push_no_overflow [of "queue_new f (b_subscriber_capacity bus)" "map (archived_event j) ?as"]
    by (simp add: queue_new_def)
  moreover have "[e \<leftarrow> map (archived_event j) ?as. admits f e]
      = [e \<leftarrow> map (archived_event j) (b_ring bus). ev_seq e > since \<and> admits f e]"
    by (induction "b_ring bus") (auto simp: archived_event_def filter_map o_def conj_commute)
  ultimately show ?thesis
    using assms(3) by (auto simp: subscribe_def Let_def fold_map o_def)
qed

text \<open>
  A replay never drops: on a bus with the default queue size, whatever happened before and
  whatever the filter, a subscription from a sequence number starts with exactly the archived
  events after it that the filter admits, in order, and with no loss recorded.
\<close>

theorem replay_never_drops:
  assumes "(bus_step j)\<^sup>*\<^sup>* (with_capacities rc bc None, []) (bus, pending)"
    "subscribe j (Some since) f bus = (i, bus')"
  shows "q_queue (b_queues bus' i) = [e \<leftarrow> map (archived_event j) (b_ring bus). ev_seq e > since \<and> admits f e]
    \<and> q_dropped (b_queues bus' i) = 0"
proof -
  let ?inv = "\<lambda>s. state_ok s \<and> b_ring_capacity (fst s) = rc \<and> b_subscriber_capacity (fst s) = max (max rc 1 * 2) 1"
  have "?inv (bus, pending)"
    using assms(1)
  proof (induction rule: rtranclp_induct)
    case base
    then show ?case by (simp add: state_ok_def bus_ok_def with_capacities_def ring_size_def)
  next
    case (step s s')
    have "b_ring_capacity (fst s') = b_ring_capacity (fst s) \<and> b_subscriber_capacity (fst s') = b_subscriber_capacity (fst s)"
      using step(2) by cases (auto simp: publish_begin_def subscribe_def recv_from_def drop_stream_def
          push_to_def Let_def split: prod.splits)
    then show ?case
      using step bus_step_ok by auto
  qed
  then show ?thesis
    using subscribe_queue [OF _ _ assms(2)] by (simp add: state_ok_def queue_new_def)
qed

lemma after_one_ring:
  "b_ring after_one = [\<lparr>ar_name = lit ''x'', ar_seq = 1, ar_session_id = None, ar_params = [110]\<rparr>]"
  by (simp add: after_one_def publish_def publish_begin_def archive_def with_capacities_def sample_text_def
      trim_ring.simps storage_bytes_def utf8_def utf8_scalar_def lit_def Let_def)

theorem replay_never_drops_witness:
  "q_queue (b_queues (snd (subscribe sample_text (Some 0) filter_all after_one)) (fst (subscribe sample_text (Some 0) filter_all after_one)))
     = [e \<leftarrow> map (archived_event sample_text) (b_ring after_one). ev_seq e > 0 \<and> admits filter_all e]
    \<and> q_dropped (b_queues (snd (subscribe sample_text (Some 0) filter_all after_one)) (fst (subscribe sample_text (Some 0) filter_all after_one))) = 0"
  by (rule replay_never_drops [OF after_one_reached]) simp

text \<open>
  One publisher after the other: \<open>H\<close> are the events published so far. The ring holds the newest of them.
\<close>

definition publish_all :: "json_text \<Rightarrow> (str \<times> json_value \<times> str option) list \<Rightarrow> event_bus \<Rightarrow> event_bus" where
  "publish_all j ps bus = fold (\<lambda>(name, params, sid). publish j name params sid) ps bus"

fun numbered :: "nat \<Rightarrow> (str \<times> json_value \<times> str option) list \<Rightarrow> event list" where
  "numbered n [] = []"
| "numbered n ((name, params, sid) # ps) =
     \<lparr>ev_name = name, ev_seq = n, ev_session_id = sid, ev_params = params\<rparr> # numbered (n + 1) ps"

definition json_reads_back :: "json_text \<Rightarrow> bool" where
  "json_reads_back j \<longleftrightarrow> (\<forall>v bs. to_vec j v = Some bs \<longrightarrow> from_vec j bs = Some v)"

definition history_ok :: "json_text \<Rightarrow> event list \<Rightarrow> event_bus \<Rightarrow> bool" where
  "history_ok j H bus \<longleftrightarrow> bus_ok bus \<and> b_next_seq bus = length H + 1 \<and> map ev_seq H = [1..<length H + 1]
     \<and> subseq (map (archived_event j) (b_ring bus)) H"

lemma fold_push_to_keeps [simp]:
  "b_ring (fold (push_to e) ids bus) = b_ring bus"
  "b_subscribers (fold (push_to e) ids bus) = b_subscribers bus"
  "b_next_seq (fold (push_to e) ids bus) = b_next_seq bus"
  "b_ring_capacity (fold (push_to e) ids bus) = b_ring_capacity bus"
  "b_subscriber_capacity (fold (push_to e) ids bus) = b_subscriber_capacity bus"
  "bus_ok (fold (push_to e) ids bus) = bus_ok bus"
  by (induction ids arbitrary: bus) simp_all

lemma fold_push_to_queue:
  "distinct ids \<Longrightarrow> b_queues (fold (push_to e) ids bus) i =
     (if i \<in> set ids then push e (b_queues bus i) else b_queues bus i)"
  by (induction ids arbitrary: bus) (auto simp: push_to_def)


lemma publish_history:
  assumes "history_ok j H bus" "json_reads_back j"
  shows "history_ok j (H @ numbered (length H + 1) [(name, params, sid)]) (publish j name params sid bus)"
proof -
  let ?e = "\<lparr>ev_name = name, ev_seq = length H + 1, ev_session_id = sid, ev_params = params\<rparr>"
  let ?bus = "archive j ?e (bus\<lparr>b_next_seq := b_next_seq bus + 1\<rparr>)"
  have n: "b_next_seq bus = length H + 1" and ok: "bus_ok bus"
    and sub: "subseq (map (archived_event j) (b_ring bus)) H"
    using assms(1) by (simp_all add: history_ok_def)
  have p: "publish j name params sid bus = fold (push_to ?e) (b_subscribers bus) ?bus"
    using n by (simp add: publish_def publish_begin_def Let_def)
  have "subseq (map (archived_event j) (b_ring ?bus)) (H @ [?e])"
  proof (cases "b_ring_capacity bus > 0 \<and> b_ring_byte_capacity bus > 0 \<and> to_vec j params \<noteq> None")
    case False
    then have "b_ring ?bus = b_ring bus" by (auto simp: archive_def)
    then show ?thesis using list_emb_append_mono [OF sub, of "[]" "[?e]"] by simp
  next
    case True
    then obtain enc where enc: "to_vec j params = Some enc" by auto
    let ?a = "\<lparr>ar_name = name, ar_seq = length H + 1, ar_session_id = sid, ar_params = enc\<rparr>"
    obtain r m where t: "trim_ring (b_ring_capacity bus) (b_ring_byte_capacity bus) (b_ring bus @ [?a])
        (b_ring_bytes bus + storage_bytes ?a) = (r, m)"
      by (metis prod.exhaust)
    have "suffix r (b_ring bus @ [?a])"
      using trim_ring_spec [OF _ t] ok by (simp add: bus_ok_def ring_size_def)
    then have "subseq (map (archived_event j) r) (map (archived_event j) (b_ring bus @ [?a]))"
      by (intro suffix_imp_subseq map_mono_suffix)
    moreover have "archived_event j ?a = ?e"
      using assms(2) enc by (simp add: archived_event_def json_reads_back_def)
    moreover have "b_ring ?bus = r"
      using True enc t by (simp add: archive_def)
    moreover have "subseq (map (archived_event j) (b_ring bus) @ [?e]) (H @ [?e])"
      using sub by (intro list_emb_append_mono) auto
    ultimately show ?thesis
      by (metis (no_types, lifting) list.map(1) list.map(2) map_append subseq_order.trans)
  qed
  moreover have "bus_ok ?bus"
    using archive_ok [OF ok] n by simp
  ultimately show ?thesis
    using assms(1) by (simp add: p history_ok_def n)
qed

lemma numbered_append: "numbered n (ps @ qs) = numbered n ps @ numbered (n + length ps) qs"
  by (induction n ps rule: numbered.induct) (auto simp: add.commute)

lemma length_numbered [simp]: "length (numbered n ps) = length ps"
  by (induction n ps rule: numbered.induct) auto

lemma seqs_numbered: "map ev_seq (numbered n ps) = [n..<n + length ps]"
proof (induction n ps rule: numbered.induct)
  case (2 n name params sid ps)
  have "[n..<n + length ((name, params, sid) # ps)] = n # [n + 1..<n + 1 + length ps]"
    by (subst upt_conv_Cons) simp_all
  then show ?case using 2 by simp
qed simp

lemma numbered_range: "e \<in> set (numbered n ps) \<Longrightarrow> n \<le> ev_seq e \<and> ev_seq e < n + length ps"
  using arg_cong [OF seqs_numbered [of n ps], of set] by auto

lemma publish_all_history:
  assumes "history_ok j (numbered 1 ps) bus" "json_reads_back j"
  shows "history_ok j (numbered 1 (ps @ qs)) (publish_all j qs bus)"
  using assms(1)
proof (induction qs arbitrary: ps bus)
  case (Cons q qs)
  obtain name params sid where q: "q = (name, params, sid)" by (cases q)
  have "history_ok j (numbered 1 (ps @ [q])) (publish j name params sid bus)"
    using publish_history [OF Cons.prems assms(2), of name params sid] by (simp add: numbered_append q)
  from Cons.IH [OF this] show ?case
    by (simp add: publish_all_def q)
qed (simp add: publish_all_def)

text \<open>A subscriber's queue sees the events published one after the other.\<close>

lemma publish_all_queue:
  assumes "i \<in> set (b_subscribers bus)" "distinct (b_subscribers bus)"
  shows "b_queues (publish_all j qs bus) i = fold push (numbered (b_next_seq bus) qs) (b_queues bus i)"
  using assms
proof (induction qs arbitrary: bus)
  case (Cons q qs)
  obtain name params sid where q: "q = (name, params, sid)" by (cases q)
  let ?bus = "publish j name params sid bus"
  have "b_queues ?bus i = push \<lparr>ev_name = name, ev_seq = b_next_seq bus, ev_session_id = sid, ev_params = params\<rparr> (b_queues bus i)"
    "b_subscribers ?bus = b_subscribers bus" "b_next_seq ?bus = b_next_seq bus + 1"
    using Cons.prems by (simp_all add: publish_def publish_begin_def Let_def fold_push_to_queue)
  then show ?case
    using Cons.IH [of ?bus] Cons.prems by (simp add: publish_all_def q)
qed (simp add: publish_all_def)

lemma publish_all_capacity:
  "b_subscriber_capacity (publish_all j qs bus) = b_subscriber_capacity bus
   \<and> b_ring_capacity (publish_all j qs bus) = b_ring_capacity bus"
  by (induction qs arbitrary: bus) (auto simp: publish_all_def publish_def publish_begin_def Let_def)

lemma filter_subseq_covers:
  assumes "subseq xs ys" "distinct (map f ys)" "f ` set [y \<leftarrow> ys. P y] \<subseteq> f ` set xs"
  shows "[x \<leftarrow> xs. P x] = [y \<leftarrow> ys. P y]"
  using assms
proof (induction xs ys rule: list_emb.induct)
  case (list_emb_Nil ys)
  then show ?case by auto
next
  case (list_emb_Cons xs ys y)
  have "\<not> P y"
    using list_emb_Cons.prems list_emb_Cons.hyps list_emb_set [of "(=)" xs ys] by (auto split: if_splits)
  then show ?case using list_emb_Cons by auto
next
  case (list_emb_Cons2 x y xs ys)
  have "f ` {z \<in> set ys. P z} \<subseteq> insert (f y) (f ` set xs)"
    using list_emb_Cons2.prems(2) list_emb_Cons2.hyps(1) by (auto split: if_splits)
  moreover have "f y \<notin> f ` set ys"
    using list_emb_Cons2.prems(1) by simp
  ultimately have "f z \<in> f ` set xs" if "z \<in> set ys" "P z" for z
    using that by (metis (mono_tags, lifting) image_eqI insertE mem_Collect_eq subsetD)
  then have "f ` {z \<in> set ys. P z} \<subseteq> f ` set xs"
    by auto
  then have "filter P xs = filter P ys"
    using list_emb_Cons2.IH list_emb_Cons2.prems(1) by simp
  then show ?case
    using list_emb_Cons2.hyps(1) by simp
qed



lemma sample_reads_back: "json_reads_back sample_text"
  by (simp add: json_reads_back_def sample_text_def)


section \<open>Out of order\<close>

text \<open>
  Two publishers can deliver in the wrong order: because the queues are filled after the lock is
  released, there is an interleaving of two publishes, numbered 1 and 2, after which the only
  subscriber's queue holds event 2 before event 1. A client that takes 2 as its last number
  and reconnects does not get event 1 again.
\<close>

theorem publishes_can_be_reordered:
  "\<exists>bus. (bus_step sample_text)\<^sup>*\<^sup>* (with_capacities 8 1000 None, []) (bus, [(sample_event 1, []), (sample_event 2, [])])
     \<and> q_queue (b_queues bus 0) = [sample_event 2, sample_event 1]"
proof -
  let ?j = sample_text and ?b = "with_capacities 8 1000 None"
  define s where "s = snd (subscribe ?j None filter_all ?b)"
  define b1 where "b1 = snd (snd (publish_begin ?j (lit ''x'') Null None s))"
  define b2 where "b2 = snd (snd (publish_begin ?j (lit ''x'') Null None b1))"
  have s: "subscribe ?j None filter_all ?b = (0, s)"
    by (simp add: s_def subscribe_def with_capacities_def)
  have s_fields: "b_subscribers s = [0]" "b_next_seq s = 1" "b_queues s 0 = queue_new filter_all 16"
    by (simp_all add: s_def subscribe_def with_capacities_def)
  have p1: "publish_begin ?j (lit ''x'') Null None s = (sample_event 1, [0], b1)"
    by (simp add: b1_def publish_begin_def s_fields sample_event_def Let_def)
  have b1: "b_subscribers b1 = [0]" "b_next_seq b1 = 2" "b_queues b1 0 = queue_new filter_all 16"
    by (simp_all add: b1_def publish_begin_def s_fields Let_def)
  have p2: "publish_begin ?j (lit ''x'') Null None b1 = (sample_event 2, [0], b2)"
    by (simp add: b2_def publish_begin_def b1 sample_event_def Let_def)
  have b2: "b_queues b2 0 = queue_new filter_all 16"
    by (simp add: b2_def publish_begin_def b1 Let_def)
  let ?b3 = "push_to (sample_event 2) 0 b2"
  let ?b4 = "push_to (sample_event 1) 0 ?b3"
  have e1: "bus_step ?j (?b, []) (s, [])"
    by (rule step_subscribe [OF s])
  have e2: "bus_step ?j (s, []) (b1, [(sample_event 1, [0])])"
    using step_begin [OF p1, of "[]"] by simp
  have e3: "bus_step ?j (b1, [(sample_event 1, [0])]) (b2, [(sample_event 1, [0]), (sample_event 2, [0])])"
    using step_begin [OF p2, of "[(sample_event 1, [0])]"] by simp
  have e4: "bus_step ?j (b2, [(sample_event 1, [0]), (sample_event 2, [0])]) (?b3, [(sample_event 1, [0]), (sample_event 2, [])])"
    using step_push [of 1 "[(sample_event 1, [0]), (sample_event 2, [0])]" "sample_event 2" 0 "[]"] by simp
  have e5: "bus_step ?j (?b3, [(sample_event 1, [0]), (sample_event 2, [])]) (?b4, [(sample_event 1, []), (sample_event 2, [])])"
    using step_push [of 0 "[(sample_event 1, [0]), (sample_event 2, [])]" "sample_event 1" 0 "[]"] by simp
  have "(bus_step ?j)\<^sup>*\<^sup>* (?b, []) (?b4, [(sample_event 1, []), (sample_event 2, [])])"
    using e1 e2 e3 e4 e5
    by (meson converse_rtranclp_into_rtranclp r_into_rtranclp)
  moreover have "q_queue (b_queues ?b4 0) = [sample_event 2, sample_event 1]"
    by (simp add: push_to_def b2 push_def queue_new_def)
  ultimately show ?thesis by blast
qed

end
