(* ===== verification/Byte_Search.thy ===== *)
theory Byte_Search
  imports Prelude "HOL-Library.Sublist"
begin

text \<open>
  Searching byte strings: \<open>find\<close> of \<^verbatim>\<open>homie-engine/src/holder/protocol.rs\<close> and \<open>Iterator::position\<close>,
  with the lemmas the exit marker and the bracketed paste share. A marker whose first byte does not
  occur again in it cannot begin in the bytes before it.
\<close>

definition find_bytes :: "bytes \<Rightarrow> bytes \<Rightarrow> nat option" where
  "find_bytes hay needle =
     List.find (\<lambda>k. take (length needle) (drop k hay) = needle) [0..<length hay + 1 - length needle]"

definition position :: "byte \<Rightarrow> bytes \<Rightarrow> nat option" where
  "position b bs = List.find (\<lambda>i. bs ! i = b) [0..<length bs]"

lemma find_upt_Some:
  "List.find P [0..<n] = Some k \<longleftrightarrow> k < n \<and> P k \<and> (\<forall>i<k. \<not> P i)"
  by (auto simp: find_Some_iff)

lemma find_upt_None: "List.find P [0..<n] = None \<longleftrightarrow> (\<forall>k<n. \<not> P k)"
  by (auto simp: find_None_iff)

lemma position_Some:
  "position x bs = Some e \<longleftrightarrow> e < length bs \<and> bs ! e = x \<and> (\<forall>i<e. bs ! i \<noteq> x)"
  by (auto simp: position_def find_upt_Some)

lemma position_append: "position x bs = Some e \<Longrightarrow> position x (bs @ cs) = Some e"
  by (auto simp: position_Some nth_append)

lemma position_first: "x \<notin> set bs \<Longrightarrow> position x (bs @ x # cs) = Some (length bs)"
  by (auto simp: position_Some nth_append)

lemma prefix_at: "take (length p) (drop k b) = p \<longleftrightarrow> prefix p (drop k b)"
  by (metis append_take_drop_id prefix_def append_eq_conv_conj)

lemma find_bytes_Some:
  "find_bytes b p = Some k \<longleftrightarrow> prefix p (drop k b) \<and> k \<le> length b - length p \<and> length p \<le> length b
     \<and> (\<forall>i<k. \<not> prefix p (drop i b))"
  unfolding find_bytes_def find_upt_Some prefix_at by (auto dest: prefix_length_le)

lemma find_bytes_None:
  assumes "p \<noteq> []"
  shows "find_bytes b p = None \<longleftrightarrow> (\<forall>k. \<not> prefix p (drop k b))"
proof -
  have "k < length b + 1 - length p" if "prefix p (drop k b)" for k
    using prefix_length_le [OF that] assms by (cases p) (auto simp: less_diff_conv)
  then show ?thesis
    unfolding find_bytes_def find_upt_None prefix_at by blast
qed

lemma find_bytes_prefix_free:
  "p \<noteq> [] \<Longrightarrow> find_bytes b p = None \<Longrightarrow> \<not> prefix p (drop k b)"
  by (simp add: find_bytes_None)

lemma marker_not_split:
  assumes marker: "m = x # ms" "x \<notin> set ms"
    and p: "prefix m (drop j (out @ m @ later))" and j: "j < length out"
  shows "prefix m (drop j out)"
proof -
  let ?i = "length out - j"
  have "?i \<ge> length m"
  proof (rule ccontr)
    assume i: "\<not> ?i \<ge> length m"
    obtain zs where "drop j out @ m @ later = m @ zs"
      using p j by (auto simp: prefix_def)
    then have "m ! ?i = (drop j out @ m @ later) ! ?i"
      using i by (simp add: nth_append)
    also have "\<dots> = x"
      using marker(1) by (simp add: nth_append)
    finally have "ms ! (?i - 1) = x"
      using marker(1) j by (simp add: nth_Cons')
    moreover have "?i - 1 < length ms"
      using i j marker(1) by auto
    ultimately show False
      using marker(2) nth_mem by metis
  qed
  then show ?thesis
    using j by (intro prefix_length_prefix [OF p]) auto
qed

lemma find_bytes_marker:
  assumes "m = x # ms" "x \<notin> set ms"
  shows "find_bytes (out @ m @ later) m = (case find_bytes out m of None \<Rightarrow> Some (length out) | Some k \<Rightarrow> Some k)"
proof (cases "find_bytes out m")
  case None
  then have "\<not> prefix m (drop j (out @ m @ later))" if "j < length out" for j
    using marker_not_split [OF assms _ that] assms(1) find_bytes_prefix_free by blast
  then show ?thesis
    using None by (simp add: find_bytes_Some)
next
  case (Some k)
  then have k: "prefix m (drop k out)" "k \<le> length out - length m" "length m \<le> length out"
    "\<forall>i<k. \<not> prefix m (drop i out)"
    by (auto simp: find_bytes_Some)
  have "\<not> prefix m (drop i (out @ m @ later))" if i: "i < k" for i
  proof -
    have "i < length out"
      using i k(2) by linarith
    then show ?thesis
      using marker_not_split [OF assms, of i out later] k(4) i by blast
  qed
  moreover have "prefix m (drop k (out @ m @ later))"
    using k(1,2) by (simp add: prefix_prefix)
  ultimately have "find_bytes (out @ m @ later) m = Some k"
    using k(2,3) by (simp add: find_bytes_Some)
  then show ?thesis
    using Some by simp
qed

end
