(* ===== verification/Holder_Protocol.thy ===== *)
theory Holder_Protocol
  imports Model Byte_Search
begin

text \<open>
  \<^verbatim>\<open>homie-engine/src/holder/protocol.rs\<close>: the requests and responses between engine and session
  holders, and the exit marker, an escape sequence in the output log that tells how the child ended
  and that \<open>drain\<close> takes out of the byte stream again. Base64 and JSON are parameters.
  Shown: \<open>drain\<close> gives the same output and the same status however the log is read in chunks, and a
  marker written after any output that does not itself contain the marker's prefix is removed
  without a trace and its status recovered.
\<close>

section \<open>Requests and responses\<close>

definition MANAGER_PROTOCOL_VERSION :: u32 where "MANAGER_PROTOCOL_VERSION = 1"

record holder_launch_spec =
  hls_session_id :: str
  hls_socket_path :: str
  hls_pid_file_path :: str
  hls_log_file_path :: str
  hls_argv :: "str list"
  hls_cwd :: str
  hls_environment :: "(str \<times> str) list"
  hls_cols :: u16
  hls_rows :: u16
  hls_disk_capacity :: int

definition HOLDER_DISK_CAPACITY :: int where "HOLDER_DISK_CAPACITY = 32 * 2 ^ 20"

record holder_process_sample =
  hps_pid :: int
  hps_start_sec :: int

record holder_stat =
  hs_child_pid :: int
  hs_alive :: bool
  hs_log_offset :: u64
  hs_foreground_pid :: "int option"
  hs_cols :: "u16 option"
  hs_rows :: "u16 option"
  hs_epoch_offset :: "u64 option"

datatype holder_exit_reason = HolderExited | HolderSignaled

record holder_exit_status =
  hes_reason :: holder_exit_reason
  hes_code :: "int option"
  hes_signal :: "int option"

datatype holder_operation = OpWrite | OpResize | OpSignal | OpKillTree | OpStat

record holder_request =
  hr_op :: holder_operation
  hr_data :: "str option"
  hr_cols :: "u16 option"
  hr_rows :: "u16 option"
  hr_sig :: "int option"

definition holder_request_op :: "holder_operation \<Rightarrow> holder_request" where
  "holder_request_op op = \<lparr>hr_op = op, hr_data = None, hr_cols = None, hr_rows = None, hr_sig = None\<rparr>"

record holder_response =
  hresp_ok :: bool
  hresp_error :: "str option"
  hresp_stat :: "holder_stat option"
  hresp_tree :: "holder_process_sample list option"

definition response_success :: holder_response where
  "response_success = \<lparr>hresp_ok = True, hresp_error = None, hresp_stat = None, hresp_tree = None\<rparr>"

definition response_with_stat :: "holder_stat \<Rightarrow> holder_response" where
  "response_with_stat s = response_success\<lparr>hresp_stat := Some s\<rparr>"

definition response_with_tree :: "holder_process_sample list \<Rightarrow> holder_response" where
  "response_with_tree t = response_success\<lparr>hresp_tree := Some t\<rparr>"

definition response_failure :: "str \<Rightarrow> holder_response" where
  "response_failure message =
     \<lparr>hresp_ok = False, hresp_error = Some message, hresp_stat = None, hresp_tree = None\<rparr>"

datatype holder_manager_operation = ManagerPing | ManagerLaunch | ManagerShutdownIfIdle

record holder_manager_request =
  hmr_version :: u32
  hmr_op :: holder_manager_operation
  hmr_spec :: "holder_launch_spec option"

definition manager_ping :: holder_manager_request where
  "manager_ping = \<lparr>hmr_version = MANAGER_PROTOCOL_VERSION, hmr_op = ManagerPing, hmr_spec = None\<rparr>"

definition manager_launch :: "holder_launch_spec \<Rightarrow> holder_manager_request" where
  "manager_launch spec =
     \<lparr>hmr_version = MANAGER_PROTOCOL_VERSION, hmr_op = ManagerLaunch, hmr_spec = Some spec\<rparr>"

definition manager_shutdown_if_idle :: holder_manager_request where
  "manager_shutdown_if_idle =
     \<lparr>hmr_version = MANAGER_PROTOCOL_VERSION, hmr_op = ManagerShutdownIfIdle, hmr_spec = None\<rparr>"

record holder_manager_response =
  hmresp_ok :: bool
  hmresp_error :: "str option"
  hmresp_manager_pid :: "int option"

definition manager_success :: "int \<Rightarrow> holder_manager_response" where
  "manager_success pid = \<lparr>hmresp_ok = True, hmresp_error = None, hmresp_manager_pid = Some pid\<rparr>"

definition manager_failure :: "str \<Rightarrow> holder_manager_response" where
  "manager_failure message =
     \<lparr>hmresp_ok = False, hmresp_error = Some message, hmresp_manager_pid = None\<rparr>"

section \<open>The exit marker\<close>

record marker_fns =
  status_to_vec :: "holder_exit_status \<Rightarrow> bytes option"
  status_from_slice :: "bytes \<Rightarrow> holder_exit_status option"
  base64_encode :: "bytes \<Rightarrow> bytes"
  base64_decode :: "bytes \<Rightarrow> bytes option"

definition PREFIX :: bytes where
  "PREFIX = 0x1B # map of_nat (lit '']777;homie-exit='')"

definition TERMINATOR :: byte where "TERMINATOR = 0x07"

definition marker_encode :: "marker_fns \<Rightarrow> holder_exit_status \<Rightarrow> bytes" where
  "marker_encode fns status =
     (case status_to_vec fns status of
        None \<Rightarrow> []
      | Some payload \<Rightarrow> PREFIX @ base64_encode fns payload @ [TERMINATOR])"

definition longest_suffix_of_prefix :: "bytes \<Rightarrow> nat" where
  "longest_suffix_of_prefix data =
     (let max_length = min (length data) (length PREFIX - 1) in
      case List.find (\<lambda>n. drop (length data - n) data = take n PREFIX) (rev [1..<max_length + 1]) of
        Some n \<Rightarrow> n | None \<Rightarrow> 0)"

definition marker_status :: "marker_fns \<Rightarrow> bytes \<Rightarrow> holder_exit_status option" where
  "marker_status fns pl = Option.bind (base64_decode fns pl) (status_from_slice fns)"

function drain_loop :: "marker_fns \<Rightarrow> bytes \<Rightarrow> bytes \<Rightarrow> holder_exit_status option
    \<Rightarrow> (bytes \<times> holder_exit_status option) \<times> bytes" where
  "drain_loop fns buffer output exit_status =
     (if buffer = [] then ((output, exit_status), buffer)
      else case find_bytes buffer PREFIX of
        Some marker_start \<Rightarrow>
          if marker_start > 0
          then drain_loop fns (drop marker_start buffer) (output @ take marker_start buffer) exit_status
          else (case position TERMINATOR buffer of
              None \<Rightarrow> ((output, exit_status), buffer)
            | Some end_at \<Rightarrow>
                drain_loop fns (drop (end_at + 1) buffer) output
                  (case marker_status fns (segment buffer (length PREFIX) end_at) of
                     Some status \<Rightarrow> Some status | None \<Rightarrow> exit_status))
      | None \<Rightarrow>
          let keep = longest_suffix_of_prefix buffer;
              emit = length buffer - keep
          in ((output @ take emit buffer, exit_status), drop emit buffer))"
  by pat_completeness auto
termination
  by (relation "measure (\<lambda>(fns, buffer, output, exit_status). length buffer)") auto

declare drain_loop.simps [simp del]

definition drain :: "marker_fns \<Rightarrow> bytes \<Rightarrow> (bytes \<times> holder_exit_status option) \<times> bytes" where
  "drain fns buffer = drain_loop fns buffer [] None"

section \<open>Draining byte by byte\<close>

text \<open>
  What the scanner decides at the front of its buffer: a marker, one byte of output, or that it has
  to wait. Outputs of \<open>drain\<close> are runs of such bytes.
\<close>

datatype drained = Out byte | Exit "holder_exit_status option"

definition drain_step :: "marker_fns \<Rightarrow> bytes \<Rightarrow> (unit, (drained \<times> nat) option) result" where
  "drain_step fns b =
     (if prefix PREFIX b then
        (case position TERMINATOR b of
           None \<Rightarrow> Inr None
         | Some e \<Rightarrow> Inr (Some (Exit (marker_status fns (segment b (length PREFIX) e)), e + 1)))
      else if prefix b PREFIX then Inr None
      else Inr (Some (Out (hd b), 1)))"

function scan :: "marker_fns \<Rightarrow> bytes \<Rightarrow> (unit, drained list \<times> bytes) result" where
  "scan fns b =
     (case drain_step fns b of
        Inl e \<Rightarrow> Inl e
      | Inr None \<Rightarrow> Inr ([], b)
      | Inr (Some (m, n)) \<Rightarrow>
          and_then (scan fns (drop n b)) (\<lambda>(ms, rest). Inr (m # ms, rest)))"
  by pat_completeness auto
termination
  by (relation "measure (\<lambda>(fns, b). length b)")
    (auto simp: drain_step_def PREFIX_def split: if_splits option.splits
      elim!: prefixE intro!: diff_less)

declare scan.simps [simp del]

lemma PREFIX_simps [simp]: "PREFIX \<noteq> []" "length PREFIX = 17" "TERMINATOR \<notin> set PREFIX"
  by (simp_all add: PREFIX_def TERMINATOR_def lit_def)

interpretation ds: stream_decoder "drain_step fns" "scan fns" for fns
proof (unfold_locales, goal_cases)
  case (1 b)
  show ?case by (rule scan.simps)
next
  case (2 b m n)
  then show ?case
    by (auto simp: drain_step_def position_Some Suc_le_eq split: if_splits option.splits)
next
  case (3 b m n c)
  have "prefix PREFIX (b @ c) \<Longrightarrow> prefix PREFIX b \<or> prefix b PREFIX"
    by (rule prefix_same_cases [of _ "b @ c"]) auto
  moreover have "\<not> prefix b PREFIX \<Longrightarrow> \<not> prefix (b @ c) PREFIX" "\<not> prefix b PREFIX \<Longrightarrow> b \<noteq> []"
    by (auto dest: append_prefixD)
  moreover have "position TERMINATOR b = Some e \<Longrightarrow>
      segment (b @ c) (length PREFIX) e = segment b (length PREFIX) e" for e
    by (auto simp: position_Some segment_def)
  ultimately show ?case
    using 3 by (auto simp: drain_step_def position_append split: if_splits option.splits)
qed (simp add: drain_step_def split: if_splits option.splits)

text \<open>The output bytes and the last status among what was scanned.\<close>

fun scanned_output :: "drained list \<Rightarrow> bytes" where
  "scanned_output [] = []"
| "scanned_output (Out b # ds) = b # scanned_output ds"
| "scanned_output (Exit st # ds) = scanned_output ds"

fun scanned_status :: "drained list \<Rightarrow> holder_exit_status option \<Rightarrow> holder_exit_status option" where
  "scanned_status [] s = s"
| "scanned_status (Out b # ds) s = scanned_status ds s"
| "scanned_status (Exit st # ds) s = scanned_status ds (case st of Some x \<Rightarrow> Some x | None \<Rightarrow> s)"

lemma scanned_append [simp]:
  "scanned_output (ds @ es) = scanned_output ds @ scanned_output es"
  "scanned_status (ds @ es) s = scanned_status es (scanned_status ds s)"
  "scanned_output (map Out bs) = bs"
  "scanned_status (map Out bs) s = s"
proof -
  show "scanned_output (ds @ es) = scanned_output ds @ scanned_output es"
    by (induction ds rule: scanned_output.induct) auto
  show "scanned_status (ds @ es) s = scanned_status es (scanned_status ds s)"
    by (induction ds s rule: scanned_status.induct) auto
qed (induction bs; simp)+

lemma scan_ok: "\<exists>ds rest. scan fns b = Inr (ds, rest)"
proof (induction b rule: length_induct)
  case (1 b)
  show ?case
  proof (cases "drain_step fns b")
    case (Inl e)
    then show ?thesis by (auto simp: drain_step_def split: if_splits option.splits)
  next
    case (Inr r)
    show ?thesis
    proof (cases r)
      case None
      then show ?thesis using Inr by (simp add: ds.loop_cases)
    next
      case (Some p)
      then obtain m n where s: "drain_step fns b = Inr (Some (m, n))"
        using Inr by (cases p) simp
      have "length (drop n b) < length b"
        using ds.step_bounds [OF s] by auto
      then obtain ds rest where "scan fns (drop n b) = Inr (ds, rest)"
        using 1 by blast
      then show ?thesis using s by (simp add: ds.loop_cases)
    qed
  qed
qed

text \<open>Bytes at which no marker starts or may start come out one by one.\<close>

lemma scan_emit:
  "(\<And>j. j < k \<Longrightarrow> \<not> prefix PREFIX (drop j b) \<and> \<not> prefix (drop j b) PREFIX) \<Longrightarrow>
     scan fns b = and_then (scan fns (drop k b)) (\<lambda>(ds, rest). Inr (map Out (take k b) @ ds, rest))"
proof (induction k arbitrary: b)
  case 0
  then show ?case
    using scan_ok [of fns b] by auto
next
  case (Suc k)
  have b: "\<not> prefix PREFIX b" "\<not> prefix b PREFIX"
    using Suc.prems [of 0] by auto
  then obtain x xs where bx: "b = x # xs"
    by (cases b) auto
  have s: "drain_step fns b = Inr (Some (Out x, 1))"
    using b bx by (simp add: drain_step_def)
  have "scan fns xs = and_then (scan fns (drop k xs)) (\<lambda>(ds, rest). Inr (map Out (take k xs) @ ds, rest))"
    using Suc.prems [of "Suc j" for j] bx by (intro Suc.IH) auto
  then show ?case
    using ds.loop_cases(3) [OF s] scan_ok [of fns "drop k xs"] bx by auto
qed

text \<open>\<open>longest_suffix_of_prefix\<close> finds the longest one.\<close>

lemma find_rev_upt:
  "(case List.find P (rev [1..<m + 1]) of Some n \<Rightarrow> n | None \<Rightarrow> 0) = k \<Longrightarrow>
     k \<le> m \<and> (k = 0 \<or> P k) \<and> (\<forall>i. k < i \<longrightarrow> i \<le> m \<longrightarrow> \<not> P i)"
proof (induction m arbitrary: k)
  case (Suc m)
  show ?case
  proof (cases "P (Suc m)")
    case True
    then show ?thesis using Suc.prems by auto
  next
    case False
    then have "(case List.find P (rev [1..<m + 1]) of Some n \<Rightarrow> n | None \<Rightarrow> 0) = k"
      using Suc.prems by simp
    with Suc.IH False show ?thesis
      by (metis le_SucE le_SucI)
  qed
qed auto

lemma longest_suffix_facts:
  assumes "longest_suffix_of_prefix data = k"
  shows "k \<le> length data" "k < length PREFIX" "drop (length data - k) data = take k PREFIX"
    "k < i \<Longrightarrow> i \<le> length data \<Longrightarrow> i < length PREFIX \<Longrightarrow> drop (length data - i) data \<noteq> take i PREFIX"
  using find_rev_upt [OF assms [unfolded longest_suffix_of_prefix_def Let_def]] by auto


lemma waits_for_marker_start:
  assumes none: "\<forall>k. \<not> prefix PREFIX (drop k b)" and j: "j < length b - longest_suffix_of_prefix b"
  shows "\<not> prefix (drop j b) PREFIX"
proof
  assume p: "prefix (drop j b) PREFIX"
  let ?n = "length b - j"
  have n: "longest_suffix_of_prefix b < ?n" "?n \<le> length b" "?n \<le> length PREFIX"
    using j prefix_length_le [OF p] by auto
  have n: "longest_suffix_of_prefix b < ?n" "?n \<le> length b" "drop j b = take ?n PREFIX" "?n \<le> length PREFIX"
    using n p by (auto simp: prefix_def) (metis append_eq_conv_conj length_drop)
  have "?n \<noteq> length PREFIX"
    using n(3) none by (metis order_refl prefix_order.refl take_all)
  then show False
    using longest_suffix_facts(4) [OF refl n(1,2)] n j by simp
qed

lemma drain_loop_scan:
  "drain_loop fns b out st =
     (case scan fns b of Inr (ds, rest) \<Rightarrow> ((out @ scanned_output ds, scanned_status ds st), rest))"
proof (induction fns b out st rule: drain_loop.induct)
  case (1 fns b out st)
  show ?case
  proof (cases "b = []")
    case True
    then show ?thesis
      by (simp add: drain_loop.simps ds.loop_cases(2) [of fns "[]"] drain_step_def)
  next
    case nonempty: False
    show ?thesis
    proof (cases "find_bytes b PREFIX")
      case None
      let ?e = "length b - longest_suffix_of_prefix b"
      have free: "\<forall>k. \<not> prefix PREFIX (drop k b)"
        using None by (simp add: find_bytes_None)
      have keep: "drop ?e b = take (longest_suffix_of_prefix b) PREFIX"
        using longest_suffix_facts(3) [OF refl] .
      then have "prefix (drop ?e b) PREFIX"
        by (simp add: take_is_prefix)
      then have "scan fns (drop ?e b) = Inr ([], drop ?e b)"
        using free by (intro ds.loop_cases(2)) (auto simp: drain_step_def)
      then have "scan fns b = Inr (map Out (take ?e b), drop ?e b)"
        using scan_emit [of ?e b fns] free waits_for_marker_start by simp
      then show ?thesis
        using nonempty None by (simp add: drain_loop.simps [of fns b] Let_def)
    next
      case (Some k)
      note k = Some [unfolded find_bytes_Some]
      show ?thesis
      proof (cases "k = 0")
        case False
        have "\<not> prefix (drop j b) PREFIX" if "j < k" for j
          using k that by (auto dest!: prefix_length_le)
        then have "scan fns b = and_then (scan fns (drop k b)) (\<lambda>(ds, rest). Inr (map Out (take k b) @ ds, rest))"
          using k by (intro scan_emit) auto
        then show ?thesis
          using "1.IH"(1) [OF nonempty Some] False nonempty Some scan_ok [of fns "drop k b"]
          by (auto simp: drain_loop.simps [of fns b])
      next
        case True
        show ?thesis
        proof (cases "position TERMINATOR b")
          case None
          then show ?thesis
            using True k nonempty Some
            by (simp add: drain_loop.simps [of fns b] drain_step_def ds.loop_cases(2) [of fns b])
        next
          case (Some e)
          have "drain_step fns b = Inr (Some (Exit (marker_status fns (segment b (length PREFIX) e)), e + 1))"
            using True k Some by (simp add: drain_step_def)
          then show ?thesis
            using "1.IH"(2) [OF nonempty \<open>find_bytes b PREFIX = Some k\<close>] True nonempty Some
              \<open>find_bytes b PREFIX = Some k\<close> scan_ok [of fns "drop (e + 1) b"]
            by (auto simp: drain_loop.simps [of fns b] ds.loop_cases(3))
        qed
      qed
    qed
  qed
qed

lemma drain_scan:
  "scan fns b = Inr (ds, rest) \<Longrightarrow> drain fns b = ((scanned_output ds, scanned_status ds None), rest)"
  by (simp add: drain_def drain_loop_scan)


section \<open>The exit marker in the stream\<close>

text \<open>A reader of the log: it appends each chunk to its buffer and drains.\<close>

fun drain_chunks :: "marker_fns \<Rightarrow> bytes \<Rightarrow> bytes list
    \<Rightarrow> (bytes \<times> holder_exit_status option) \<times> bytes" where
  "drain_chunks fns buffer [] = (([], None), buffer)"
| "drain_chunks fns buffer (x # xs) =
     (let ((out, st), buffer) = drain fns (buffer @ x);
          ((outs, st'), buffer) = drain_chunks fns buffer xs
      in ((out @ outs, case st' of None \<Rightarrow> st | Some s \<Rightarrow> Some s), buffer))"

lemma scanned_status_None:
  "scanned_status ds s = (case scanned_status ds None of None \<Rightarrow> s | Some x \<Rightarrow> Some x)"
proof (induction ds s rule: scanned_status.induct)
  case (3 st ds s)
  then show ?case by (cases st) (auto split: option.splits)
qed auto

lemma drain_append:
  assumes "drain fns b = ((o1, s1), r1)" and "drain fns (r1 @ c) = ((o2, s2), r2)"
  shows "drain fns (b @ c) = ((o1 @ o2, case s2 of None \<Rightarrow> s1 | Some s \<Rightarrow> Some s), r2)"
proof -
  obtain ds1 where d1: "scan fns b = Inr (ds1, r1)" "o1 = scanned_output ds1" "s1 = scanned_status ds1 None"
    using scan_ok [of fns b] drain_scan assms(1) by fastforce
  obtain ds2 where d2: "scan fns (r1 @ c) = Inr (ds2, r2)" "o2 = scanned_output ds2"
      "s2 = scanned_status ds2 None"
    using scan_ok [of fns "r1 @ c"] drain_scan assms(2) by fastforce
  have "scan fns (b @ c) = Inr (ds1 @ ds2, r2)"
    using ds.loop_append [of fns b c] d1(1) d2(1) by simp
  then show ?thesis
    using d1 d2 scanned_status_None [of ds2 s1] by (simp add: drain_scan)
qed

lemma drain_rest_quiet:
  assumes "drain fns b = ((out, st), rest)"
  shows "drain fns rest = (([], None), rest)"
proof -
  obtain ds where "scan fns b = Inr (ds, rest)"
    using scan_ok [of fns b] drain_scan assms by fastforce
  then have "scan fns rest = Inr ([], rest)"
    using ds.loop_rest_quiet ds.loop_cases(2) by blast
  then show ?thesis by (simp add: drain_scan)
qed

lemma drain_chunks_concat:
  "drain fns b = (([], None), b) \<Longrightarrow> drain_chunks fns b xs = drain fns (b @ concat xs)"
proof (induction xs arbitrary: b)
  case (Cons x xs)
  obtain o1 s1 r1 where x: "drain fns (b @ x) = ((o1, s1), r1)"
    by (metis surj_pair)
  obtain o2 s2 r2 where xs: "drain fns (r1 @ concat xs) = ((o2, s2), r2)"
    by (metis surj_pair)
  have "drain_chunks fns r1 xs = ((o2, s2), r2)"
    using Cons.IH drain_rest_quiet [OF x] xs by simp
  then show ?case
    using x drain_append [OF x xs] by simp
qed simp

text \<open>
  The output a reader shows, the exit status it finds and the bytes it holds back do not
  depend on how the log is cut into chunks: any two chunkings of the same bytes agree with one
  \<open>drain\<close> of all the bytes.
\<close>

theorem exit_marker_chunking_irrelevant:
  "concat xs = concat ys \<Longrightarrow>
     drain_chunks fns [] xs = drain_chunks fns [] ys \<and> drain_chunks fns [] xs = drain fns (concat ys)"
  by (simp add: drain_chunks_concat drain_def drain_loop.simps)


lemma PREFIX_escape: "PREFIX = 0x1B # tl PREFIX" "0x1B \<notin> set (tl PREFIX)"
  by (simp_all add: PREFIX_def lit_def)

text \<open>
  An exit marker written after output that does not itself contain the marker's prefix
  is taken out of the stream: the output is unchanged, nothing of it stays buffered, the status is
  the one that was written unless a later marker says otherwise, and the reader goes on with the
  bytes after the marker. JSON and base64 are assumed to read back what they write, and base64
  text to have no byte 7.
\<close>

theorem exit_marker_roundtrip:
  assumes json: "status_to_vec fns st = Some pl" "status_from_slice fns pl = Some st"
    and b64: "base64_decode fns (base64_encode fns pl) = Some pl" "TERMINATOR \<notin> set (base64_encode fns pl)"
    and out: "find_bytes out PREFIX = None"
  shows "drain fns (out @ marker_encode fns st @ later) =
    (let ((o2, s2), rest) = drain fns later
     in ((out @ o2, case s2 of None \<Rightarrow> Some st | Some s \<Rightarrow> Some s), rest))"
proof -
  let ?b = "base64_encode fns pl" and ?m = "PREFIX @ base64_encode fns pl @ TERMINATOR # later"
  obtain ds rest where later: "scan fns later = Inr (ds, rest)"
    using scan_ok by blast
  have "position TERMINATOR ((PREFIX @ ?b) @ TERMINATOR # later) = Some (length (PREFIX @ ?b))"
    using b64(2) by (intro position_first) simp
  then have "drain_step fns ?m = Inr (Some (Exit (Some st), length PREFIX + length ?b + 1))"
    using json b64 by (simp add: drain_step_def marker_status_def segment_def del: PREFIX_simps(2))
  then have m: "scan fns ?m = Inr (Exit (Some st) # ds, rest)"
    using later by (simp add: ds.loop_cases(3) del: PREFIX_simps(2))
  have "\<not> prefix PREFIX (drop j (out @ ?m))" if "j < length out" for j
    using marker_not_split [OF PREFIX_escape, of j out "?b @ TERMINATOR # later"] out that
    by (auto simp: find_bytes_None)
  moreover have "\<not> prefix (drop j (out @ ?m)) PREFIX" if "j < length out" for j
    using that by (auto dest!: prefix_length_le)
  ultimately have "\<not> prefix PREFIX (drop j (out @ ?m)) \<and> \<not> prefix (drop j (out @ ?m)) PREFIX"
    if "j < length out" for j
    using that by blast
  then have "scan fns (out @ ?m) = Inr (map Out out @ Exit (Some st) # ds, rest)"
    using scan_emit [of "length out" "out @ ?m" fns] m by simp
  then have "drain fns (out @ ?m) = ((out @ scanned_output ds, scanned_status ds (Some st)), rest)"
    by (simp add: drain_scan)
  then show ?thesis
    using json(1) later by (simp add: marker_encode_def drain_scan scanned_status_None [of ds "Some st"])
qed


text \<open>A concrete status and codec: the status is one byte, base64 the identity.\<close>

definition sample_status :: holder_exit_status where
  "sample_status = \<lparr>hes_reason = HolderExited, hes_code = Some 0, hes_signal = None\<rparr>"

definition sample_fns :: marker_fns where
  "sample_fns =
     \<lparr>status_to_vec = (\<lambda>st. Some [65]),
      status_from_slice = (\<lambda>b. if b = [65] then Some sample_status else None),
      base64_encode = (\<lambda>b. b), base64_decode = Some\<rparr>"

theorem exit_marker_chunking_irrelevant_witness:
  "drain_chunks sample_fns [] [[104, 0x1B], [], [93, 105]] = drain_chunks sample_fns [] [[104], [0x1B, 93], [105]]
     \<and> drain_chunks sample_fns [] [[104, 0x1B], [], [93, 105]] = drain sample_fns [104, 0x1B, 93, 105]"
proof -
  have "concat [[104, 0x1B], [], [93, 105]] = concat [[104 :: byte], [0x1B, 93], [105]]"
    "concat [[104], [0x1B, 93], [105]] = [104 :: byte, 0x1B, 93, 105]"
    by simp_all
  then show ?thesis
    using exit_marker_chunking_irrelevant [of "[[104, 0x1B], [], [93, 105]]" "[[104], [0x1B, 93], [105]]" sample_fns]
    by metis
qed

theorem exit_marker_roundtrip_witness:
  "drain sample_fns ([104, 105] @ marker_encode sample_fns sample_status @ [33]) =
     (([104, 105, 33], Some sample_status), [])"
proof -
  have later: "drain sample_fns [33] = (([33], None), [])"
    by (simp add: drain_def drain_loop.simps find_bytes_def longest_suffix_of_prefix_def PREFIX_def lit_def)
  have hyps: "status_to_vec sample_fns sample_status = Some [65]"
      "status_from_slice sample_fns [65] = Some sample_status"
      "base64_decode sample_fns (base64_encode sample_fns [65]) = Some [65]"
      "TERMINATOR \<notin> set (base64_encode sample_fns [65])" "find_bytes [104, 105] PREFIX = None"
    by (simp_all add: sample_fns_def TERMINATOR_def find_bytes_def)
  show ?thesis
    using exit_marker_roundtrip [OF hyps, of "[33]"] later by simp
qed

end
