(* ===== verification/Process_Tree.thy ===== *)
theory Process_Tree
  imports Holder_Protocol Decimal "HOL-Library.State_Monad" "HOL-Library.Multiset"
begin

text \<open>
  The held child's process tree (\<^verbatim>\<open>homie-engine/src/holder/process_tree.rs\<close>), on Linux: reading
  \<^verbatim>\<open>/proc\<close>, the walk over parents and groups, and signalling the tree. The system is a parameter:
  \<open>os_world\<close> gives the answer to the \<open>n\<close>-th system call, whatever happened in between, so that a statement for
  all worlds covers processes that end, fork, or take over a number between any two calls. The calls
  to \<^verbatim>\<open>kill\<close> are recorded with their place in that order.

  Shown: the walk ends and finds exactly the tree, its texts are read right whatever the process is
  called, and who is signalled.
\<close>

section \<open>The system\<close>

datatype proc_state = Running | Sleeping | DiskSleep | Stopped | Tracing | Zombie | Dead | IdleThread

fun state_char :: "proc_state \<Rightarrow> nat" where
  "state_char Running = 82"
| "state_char Sleeping = 83"
| "state_char DiskSleep = 68"
| "state_char Stopped = 84"
| "state_char Tracing = 116"
| "state_char Zombie = 90"
| "state_char Dead = 88"
| "state_char IdleThread = 73"

text \<open>One line of \<^verbatim>\<open>/proc/<pid>/stat\<close>, as proc(5) has it: number, name in parentheses, state, parent, group, fields 6 to 52.\<close>

record proc_stat =
  ps_comm :: str
  ps_state :: proc_state
  ps_ppid :: int
  ps_pgrp :: int
  ps_field :: "nat \<Rightarrow> int"

definition field_text :: "int \<Rightarrow> str" where
  "field_text i = 32 # int_text i"

definition stat_text :: "int \<Rightarrow> proc_stat \<Rightarrow> str" where
  "stat_text pid p =
     int_text pid @ lit '' ('' @ ps_comm p @ lit '') '' @ [state_char (ps_state p)] @ field_text (ps_ppid p) @ field_text (ps_pgrp p)
     @ concat (map (\<lambda>i. field_text (ps_field p i)) [6..<53]) @ [10]"

datatype kill_answer = Signalled | NoSuchProcess | NotPermitted

record os_world =
  ow_proc :: "nat \<Rightarrow> str list option" \<comment> \<open>the names in /proc\<close>
  ow_stat :: "nat \<Rightarrow> int \<Rightarrow> proc_stat option"
  ow_kill :: "nat \<Rightarrow> int \<Rightarrow> int \<Rightarrow> kill_answer"
  ow_holder_pid :: int
  ow_pid_order :: "int list \<Rightarrow> int list" \<comment> \<open>iterating a HashSet\<close>
  ow_sample_order :: "holder_process_sample list \<Rightarrow> holder_process_sample list"

text \<open>The calls made so far, and of them the signals: when, to whom, which.\<close>

record os_run =
  or_time :: nat
  or_kills :: "(nat \<times> int \<times> int) list"

type_synonym 'a os = "(os_run, 'a) state"

definition SIGKILL :: int where "SIGKILL = 9"
definition SIGTERM :: int where "SIGTERM = 15"
definition SIGCONT :: int where "SIGCONT = 18"
definition SIGSTOP :: int where "SIGSTOP = 19"

definition os_call :: "(nat \<Rightarrow> 'a) \<Rightarrow> 'a os" where
  "os_call f = State (\<lambda>run. (f (or_time run), run\<lparr>or_time := or_time run + 1\<rparr>))"

definition kill :: "os_world \<Rightarrow> int \<Rightarrow> int \<Rightarrow> kill_answer os" where
  "kill w pid sig = State (\<lambda>run. (ow_kill w (or_time run) pid sig,
     run\<lparr>or_time := or_time run + 1, or_kills := or_kills run @ [(or_time run, pid, sig)]\<rparr>))"

section \<open>Observing processes\<close>

record observed =
  ob_pid :: int
  ob_ppid :: int
  ob_pgid :: int
  ob_start_sec :: int
  ob_stopped :: bool

text \<open>\<open>Inl\<close> is the panic of slicing past the end or inside a character.\<close>

definition stat_fields :: "int \<Rightarrow> str \<Rightarrow> (unit, observed option) result" where
  "stat_fields pid txt =
     (case rposition (\<lambda>c. c = 41) txt of
        None \<Rightarrow> Inr None
      | Some i \<Rightarrow>
          if \<not> (i + 1 < length txt \<and> txt ! (i + 1) < 128) then Inl ()
          else Inr (case split_whitespace (drop (i + 2) txt) of
              letter # ppid # pgid # rest \<Rightarrow>
                Option.bind (parse_i32 ppid) (\<lambda>ppid.
                Option.bind (parse_i32 pgid) (\<lambda>pgid.
                Option.bind (if 16 < length rest then parse_i64 (rest ! 16) else None) (\<lambda>start.
                  Some \<lparr>ob_pid = pid, ob_ppid = ppid, ob_pgid = pgid, ob_start_sec = start,
                    ob_stopped = (letter = lit ''T'' \<or> letter = lit ''t'')\<rparr>)))
            | _ \<Rightarrow> None))"

definition observe_at :: "os_world \<Rightarrow> nat \<Rightarrow> int \<Rightarrow> observed option" where
  "observe_at w t pid =
     (case ow_stat w t pid of
        None \<Rightarrow> None
      | Some p \<Rightarrow> (case stat_fields pid (stat_text pid p) of Inl _ \<Rightarrow> None | Inr found \<Rightarrow> found))"

definition observe_process :: "os_world \<Rightarrow> int \<Rightarrow> observed option os" where
  "observe_process w pid = os_call (\<lambda>t. observe_at w t pid)"

fun observe_all :: "os_world \<Rightarrow> int list \<Rightarrow> observed list os" where
  "observe_all w [] = State_Monad.return []"
| "observe_all w (pid # pids) = do {
     found \<leftarrow> observe_process w pid;
     others \<leftarrow> observe_all w pids;
     State_Monad.return (case found of None \<Rightarrow> others | Some p \<Rightarrow> p # others)
   }"

definition snapshot :: "os_world \<Rightarrow> observed list os" where
  "snapshot w = do {
     entries \<leftarrow> os_call (ow_proc w);
     (case entries of
        None \<Rightarrow> State_Monad.return []
      | Some names \<Rightarrow> observe_all w (filter (\<lambda>pid. pid > 1) (List.map_filter parse_i32 names)))
   }"

definition start_at :: "os_world \<Rightarrow> nat \<Rightarrow> int \<Rightarrow> int option" where
  "start_at w t pid = map_option ob_start_sec (observe_at w t pid)"

definition start_time :: "os_world \<Rightarrow> int \<Rightarrow> int option os" where
  "start_time w pid = os_call (\<lambda>t. start_at w t pid)"

section \<open>The walk\<close>

text \<open>\<open>seen\<close> and \<open>groups\<close> are the hash sets; the frontier is kept with the end of the vector first.\<close>

function walk :: "observed list \<Rightarrow> int \<Rightarrow> int list \<Rightarrow> int list \<Rightarrow> int list \<Rightarrow> int list" where
  "walk all holder seen groups [] = seen"
| "walk all holder seen groups (pid # frontier) =
     (if pid \<le> 1 \<or> pid = holder \<or> pid \<in> set seen then walk all holder seen groups frontier
      else
        let seen = pid # seen;
            frontier = rev (map ob_pid (filter (\<lambda>p. ob_ppid p = pid) all)) @ frontier
        in case find (\<lambda>p. ob_pid p = pid) all of
             None \<Rightarrow> walk all holder seen groups frontier
           | Some p \<Rightarrow>
               if ob_pgid p > 1 \<and> ob_pgid p \<notin> set groups
               then walk all holder seen (ob_pgid p # groups)
                 (rev (map ob_pid (filter (\<lambda>m. ob_pgid m = ob_pgid p) all)) @ frontier)
               else walk all holder seen groups frontier)"
  by pat_completeness auto

definition unseen :: "observed list \<Rightarrow> int list \<Rightarrow> int list \<Rightarrow> nat" where
  "unseen all seen frontier = card ((ob_pid ` set all \<union> set frontier) - set seen)"

lemma unseen_less:
  assumes "pid \<notin> set seen" "set frontier' \<subseteq> ob_pid ` set all \<union> set frontier"
  shows "unseen all (pid # seen) frontier' < unseen all seen (pid # frontier)"
  unfolding unseen_def using assms by (intro psubset_card_mono) auto

lemma unseen_le: "unseen all seen frontier \<le> unseen all seen (pid # frontier)"
  unfolding unseen_def by (intro card_mono) auto

termination walk
proof (relation "(\<lambda>(all, holder, seen, groups, frontier). unseen all seen frontier) <*mlex*>
    measure (\<lambda>(all, holder, seen, groups, frontier). length frontier)", goal_cases)
  case 1
  show ?case
    by (intro wf_mlex wf_measure)
next
  case 2
  then show ?case
    using unseen_le by (intro mlex_leq) auto
qed (rule mlex_less, simp only: prod.case, rule unseen_less; auto)+

text \<open>\<open>filter_map\<close> over \<open>start_time\<close>: each process is looked up afresh.\<close>

fun sample_all :: "os_world \<Rightarrow> int list \<Rightarrow> holder_process_sample list os" where
  "sample_all w [] = State_Monad.return []"
| "sample_all w (pid # pids) = do {
     found \<leftarrow> start_time w pid;
     others \<leftarrow> sample_all w pids;
     State_Monad.return (case found of None \<Rightarrow> others | Some start \<Rightarrow> \<lparr>hps_pid = pid, hps_start_sec = start\<rparr> # others)
   }"

definition enumerate_tree :: "os_world \<Rightarrow> int \<Rightarrow> holder_process_sample list os" where
  "enumerate_tree w start =
     (if start \<le> 1 then State_Monad.return []
      else do {
        all \<leftarrow> snapshot w;
        sample_all w (ow_pid_order w (walk all (ow_holder_pid w) [] [] [start]))
      })"

section \<open>Signalling\<close>

text \<open>One round of stopping; whether every process was observed stopped already.\<close>

fun stop_all :: "os_world \<Rightarrow> holder_process_sample list \<Rightarrow> bool os" where
  "stop_all w [] = State_Monad.return True"
| "stop_all w (x # xs) = do {
     found \<leftarrow> observe_process w (hps_pid x);
     (if (case found of None \<Rightarrow> False | Some p \<Rightarrow> \<not> ob_stopped p)
      then do {
        _ \<leftarrow> kill w (hps_pid x) SIGSTOP;
        _ \<leftarrow> stop_all w xs;
        State_Monad.return False
      }
      else stop_all w xs)
   }"

fun stop_rounds :: "os_world \<Rightarrow> int \<Rightarrow> nat \<Rightarrow> holder_process_sample list \<Rightarrow> holder_process_sample list os" where
  "stop_rounds w start 0 tree = State_Monad.return tree"
| "stop_rounds w start (Suc n) tree = do {
     tree \<leftarrow> enumerate_tree w start;
     stopped \<leftarrow> stop_all w tree;
     (if stopped then State_Monad.return tree else stop_rounds w start n tree)
   }"

fun still_same :: "os_world \<Rightarrow> holder_process_sample list \<Rightarrow> holder_process_sample list os" where
  "still_same w [] = State_Monad.return []"
| "still_same w (x # xs) = do {
     now \<leftarrow> start_time w (hps_pid x);
     others \<leftarrow> still_same w xs;
     State_Monad.return (if now = Some (hps_start_sec x) then x # others else others)
   }"

fun kill_each :: "os_world \<Rightarrow> int \<Rightarrow> int list \<Rightarrow> unit os" where
  "kill_each w pid [] = State_Monad.return ()"
| "kill_each w pid (sig # sigs) = do { _ \<leftarrow> kill w pid sig; kill_each w pid sigs }"

text \<open>The signals go to those that still have the start time they were listed with.\<close>

fun kill_same :: "os_world \<Rightarrow> int list \<Rightarrow> holder_process_sample list \<Rightarrow> unit os" where
  "kill_same w sigs [] = State_Monad.return ()"
| "kill_same w sigs (x # xs) = do {
     now \<leftarrow> start_time w (hps_pid x);
     (if now = Some (hps_start_sec x) then kill_each w (hps_pid x) sigs else State_Monad.return ());
     kill_same w sigs xs
   }"

definition signal_group :: "os_world \<Rightarrow> int \<Rightarrow> int \<Rightarrow> unit os" where
  "signal_group w start sig = do {
     answer \<leftarrow> kill w (- start) sig;
     (if answer = NoSuchProcess then do { _ \<leftarrow> kill w start sig; State_Monad.return () } else State_Monad.return ())
   }"

definition tree_signal :: "os_world \<Rightarrow> int \<Rightarrow> int \<Rightarrow> holder_process_sample list os" where
  "tree_signal w start sig =
     (if sig = SIGSTOP then do {
        _ \<leftarrow> kill w start SIGSTOP;
        tree \<leftarrow> stop_rounds w start 6 [];
        still_same w tree
      }
      else do {
        tree \<leftarrow> enumerate_tree w start;
        signal_group w start sig;
        kill_same w [sig] (if sig = SIGCONT then sort_key (\<lambda>x. - hps_start_sec x) tree else tree);
        State_Monad.return tree
      })"

text \<open>\<open>polls\<close>: how often the clock was read before the deadline.\<close>

fun all_gone :: "os_world \<Rightarrow> holder_process_sample list \<Rightarrow> bool os" where
  "all_gone w [] = State_Monad.return True"
| "all_gone w (x # xs) = do {
     now \<leftarrow> start_time w (hps_pid x);
     (if now \<noteq> Some (hps_start_sec x) then all_gone w xs else State_Monad.return False)
   }"

fun wait_gone :: "os_world \<Rightarrow> nat \<Rightarrow> holder_process_sample list \<Rightarrow> bool os" where
  "wait_gone w 0 tree = State_Monad.return False"
| "wait_gone w (Suc polls) tree = do {
     gone \<leftarrow> all_gone w tree;
     (if gone then State_Monad.return True else wait_gone w polls tree)
   }"

definition kill_tree :: "os_world \<Rightarrow> nat \<Rightarrow> int \<Rightarrow> unit os" where
  "kill_tree w polls start = do {
     tree \<leftarrow> enumerate_tree w start;
     _ \<leftarrow> tree_signal w start SIGTERM;
     _ \<leftarrow> tree_signal w start SIGCONT;
     gone \<leftarrow> wait_gone w polls tree;
     (if gone then State_Monad.return ()
      else do {
        others \<leftarrow> enumerate_tree w start;
        signal_group w start SIGKILL;
        kill_same w [SIGKILL, SIGCONT] (ow_sample_order w (remdups (tree @ others)))
      })
   }"

section \<open>The walk finds the tree\<close>

text \<open>Children of a member belong to the tree, and everyone in the group of a member.\<close>

inductive in_tree :: "observed list \<Rightarrow> int \<Rightarrow> int \<Rightarrow> int \<Rightarrow> bool" for all holder start where
  in_tree_start: "start > 1 \<Longrightarrow> start \<noteq> holder \<Longrightarrow> in_tree all holder start start"
| in_tree_child: "in_tree all holder start (ob_ppid x) \<Longrightarrow> x \<in> set all \<Longrightarrow> ob_pid x > 1 \<Longrightarrow> ob_pid x \<noteq> holder \<Longrightarrow>
    in_tree all holder start (ob_pid x)"
| in_tree_group: "in_tree all holder start pid \<Longrightarrow> find (\<lambda>p. ob_pid p = pid) all = Some p \<Longrightarrow> ob_pgid p > 1 \<Longrightarrow>
    x \<in> set all \<Longrightarrow> ob_pgid x = ob_pgid p \<Longrightarrow> ob_pid x > 1 \<Longrightarrow> ob_pid x \<noteq> holder \<Longrightarrow> in_tree all holder start (ob_pid x)"

definition walkable :: "int \<Rightarrow> int \<Rightarrow> bool" where
  "walkable holder pid \<longleftrightarrow> pid > 1 \<and> pid \<noteq> holder"

definition reached :: "int \<Rightarrow> int list \<Rightarrow> int list \<Rightarrow> int \<Rightarrow> bool" where
  "reached holder seen frontier pid \<longleftrightarrow> walkable holder pid \<longrightarrow> pid \<in> set seen \<union> set frontier"

text \<open>Halfway: what is seen and what waits belongs to the tree, and what follows from the seen is seen or waits.\<close>

definition walk_inv :: "observed list \<Rightarrow> int \<Rightarrow> int \<Rightarrow> int list \<Rightarrow> int list \<Rightarrow> int list \<Rightarrow> bool" where
  "walk_inv all holder start seen groups frontier \<longleftrightarrow>
     distinct seen \<and> (\<forall>pid \<in> set seen \<union> set frontier. walkable holder pid \<longrightarrow> in_tree all holder start pid) \<and>
     (\<forall>pid \<in> set seen. walkable holder pid) \<and> reached holder seen frontier start \<and>
     (\<forall>x \<in> set all. ob_ppid x \<in> set seen \<longrightarrow> reached holder seen frontier (ob_pid x)) \<and>
     (\<forall>x \<in> set all. ob_pgid x \<in> set groups \<longrightarrow> reached holder seen frontier (ob_pid x)) \<and>
     (\<forall>pid p. pid \<in> set seen \<and> find (\<lambda>p. ob_pid p = pid) all = Some p \<and> ob_pgid p > 1 \<longrightarrow> ob_pgid p \<in> set groups)"

lemma reached_skip:
  assumes "\<not> walkable holder pid \<or> pid \<in> set seen"
  shows "reached holder seen (pid # frontier) x \<longleftrightarrow> reached holder seen frontier x"
  using assms by (auto simp: reached_def)

lemma reached_mono:
  "reached holder seen frontier x \<Longrightarrow> set seen \<union> set frontier \<subseteq> set seen' \<union> set frontier' \<Longrightarrow> reached holder seen' frontier' x"
  by (auto simp: reached_def)

lemma walk_inv_skip:
  assumes "walk_inv all holder start seen groups (pid # frontier)" "\<not> walkable holder pid \<or> pid \<in> set seen"
  shows "walk_inv all holder start seen groups frontier"
  using assms(1) reached_skip [OF assms(2)] by (auto simp: walk_inv_def)

lemma walk_inv_take:
  assumes inv: "walk_inv all holder start seen groups (pid # frontier)" and pid: "walkable holder pid" "pid \<notin> set seen"
    and old: "set frontier \<subseteq> set frontier'" and groups: "set groups \<subseteq> set groups'"
    and children: "\<And>x. x \<in> set all \<Longrightarrow> ob_ppid x = pid \<Longrightarrow> ob_pid x \<in> set frontier'"
    and members: "\<And>x. x \<in> set all \<Longrightarrow> ob_pgid x \<in> set groups' - set groups \<Longrightarrow> ob_pid x \<in> set frontier'"
    and own: "\<And>p. find (\<lambda>p. ob_pid p = pid) all = Some p \<Longrightarrow> ob_pgid p > 1 \<Longrightarrow> ob_pgid p \<in> set groups'"
    and sound: "\<And>x. x \<in> set frontier' \<Longrightarrow> walkable holder x \<Longrightarrow> x \<in> set frontier \<or> in_tree all holder start x"
  shows "walk_inv all holder start (pid # seen) groups' frontier'"
proof -
  note inv = inv [unfolded walk_inv_def]
  have keep: "reached holder (pid # seen) frontier' x" if "reached holder seen (pid # frontier) x" for x
    using that by (rule reached_mono) (use old in auto)
  have front: "reached holder (pid # seen) frontier' x" if "x \<in> set frontier'" for x
    using that by (auto simp: reached_def)
  show ?thesis
    unfolding walk_inv_def
  proof (intro conjI)
    show "\<forall>x \<in> set (pid # seen) \<union> set frontier'. walkable holder x \<longrightarrow> in_tree all holder start x"
      using inv pid sound by auto
    show "\<forall>x \<in> set all. ob_ppid x \<in> set (pid # seen) \<longrightarrow> reached holder (pid # seen) frontier' (ob_pid x)"
      using inv children keep front by auto
    show "\<forall>x \<in> set all. ob_pgid x \<in> set groups' \<longrightarrow> reached holder (pid # seen) frontier' (ob_pid x)"
      using inv members keep front by blast
    show "\<forall>x p. x \<in> set (pid # seen) \<and> find (\<lambda>p. ob_pid p = x) all = Some p \<and> ob_pgid p > 1 \<longrightarrow> ob_pgid p \<in> set groups'"
      using inv own groups by auto
  qed (use inv pid keep in auto)
qed

lemma walk_keeps_inv:
  "walk_inv all holder start seen groups frontier \<Longrightarrow> \<exists>groups'. walk_inv all holder start (walk all holder seen groups frontier) groups' []"
proof (induction all holder seen groups frontier rule: walk.induct)
  case (2 all holder seen groups pid frontier)
  note IH = "2.IH"
  show ?case
  proof (cases "pid \<le> 1 \<or> pid = holder \<or> pid \<in> set seen")
    case True
    then show ?thesis
      using IH(1) walk_inv_skip [OF "2.prems"] by (auto simp: walkable_def)
  next
    case False
    then have pid: "walkable holder pid" "pid \<notin> set seen" "in_tree all holder start pid"
      using "2.prems" by (auto simp: walkable_def walk_inv_def)
    let ?children = "rev (map ob_pid (filter (\<lambda>p. ob_ppid p = pid) all)) @ frontier"
    have child: "in_tree all holder start (ob_pid x)" if "x \<in> set all" "ob_ppid x = pid" "walkable holder (ob_pid x)" for x
      using in_tree_child [of all holder start x] pid that by (auto simp: walkable_def)
    have children: "walk_inv all holder start (pid # seen) groups ?children"
      if "\<And>p. find (\<lambda>p. ob_pid p = pid) all = Some p \<Longrightarrow> ob_pgid p > 1 \<Longrightarrow> ob_pgid p \<in> set groups"
      using that child by (intro walk_inv_take [OF "2.prems" pid(1,2)]) auto
    show ?thesis
    proof (cases "find (\<lambda>p. ob_pid p = pid) all")
      case None
      then show ?thesis
        using IH(2) [OF False refl refl None children] False by simp
    next
      case (Some p)
      show ?thesis
      proof (cases "ob_pgid p > 1 \<and> ob_pgid p \<notin> set groups")
        case True
        have "in_tree all holder start (ob_pid x)" if "x \<in> set all" "ob_pgid x = ob_pgid p" "walkable holder (ob_pid x)" for x
          using in_tree_group [OF pid(3) Some] True that by (auto simp: walkable_def)
        then have "walk_inv all holder start (pid # seen) (ob_pgid p # groups)
            (rev (map ob_pid (filter (\<lambda>m. ob_pgid m = ob_pgid p) all)) @ ?children)"
          using child Some by (intro walk_inv_take [OF "2.prems" pid(1,2)]) auto
        then show ?thesis
          using IH(3) [OF False refl refl Some True] False Some True by simp
      next
        case no: False
        then show ?thesis
          using IH(4) [OF False refl refl Some no children] False Some by auto
      qed
    qed
  qed
qed auto

lemma walk_tree:
  "distinct (walk all holder [] [] [start])" "set (walk all holder [] [] [start]) = {pid. in_tree all holder start pid}"
proof -
  have "walk_inv all holder start [] [] [start]"
    by (auto simp: walk_inv_def reached_def walkable_def in_tree_start)
  then obtain groups where inv: "walk_inv all holder start (walk all holder [] [] [start]) groups []"
    using walk_keeps_inv by blast
  let ?seen = "walk all holder [] [] [start]"
  have facts: "reached holder ?seen [] start"
    "\<forall>x \<in> set all. ob_ppid x \<in> set ?seen \<longrightarrow> reached holder ?seen [] (ob_pid x)"
    "\<forall>x \<in> set all. ob_pgid x \<in> set groups \<longrightarrow> reached holder ?seen [] (ob_pid x)"
    "\<forall>pid p. pid \<in> set ?seen \<and> find (\<lambda>p. ob_pid p = pid) all = Some p \<and> ob_pgid p > 1 \<longrightarrow> ob_pgid p \<in> set groups"
    using inv unfolding walk_inv_def by blast+
  have "pid \<in> set (walk all holder [] [] [start])" if "in_tree all holder start pid" for pid
    using that
  proof induction
    case in_tree_start
    then show ?case
      using facts(1) by (simp add: reached_def walkable_def)
  next
    case (in_tree_child x)
    then show ?case
      using facts(2) by (simp add: reached_def walkable_def)
  next
    case (in_tree_group pid p x)
    then have "ob_pgid x \<in> set groups"
      using facts(4) by simp
    then show ?case
      using facts(3) in_tree_group by (simp add: reached_def walkable_def)
  qed
  moreover have "\<forall>pid \<in> set (walk all holder [] [] [start]). in_tree all holder start pid"
    using inv unfolding walk_inv_def by blast
  ultimately show "set (walk all holder [] [] [start]) = {pid. in_tree all holder start pid}"
    by blast
  show "distinct (walk all holder [] [] [start])"
    using inv unfolding walk_inv_def by blast
qed

section \<open>Reading a process\<close>

lemma int_text_plain:
  "list_all (\<lambda>c. \<not> is_whitespace c) (int_text i)" "list_all (\<lambda>c. c \<noteq> 41) (int_text i)"
  using int_text_chars by (fastforce simp: list_all_iff is_whitespace_def)+

lemma fields_split:
  assumes "v \<noteq> []" "list_all (\<lambda>c. \<not> is_whitespace c) v"
  shows "split_whitespace (v @ concat (map field_text is) @ [10]) = v # map int_text is"
  using assms
proof (induction "is" arbitrary: v)
  case Nil
  then show ?case
    by (simp add: split_whitespace_Cons is_whitespace_def) (simp add: split_whitespace_def)
next
  case (Cons i "is")
  then show ?case
    using Cons.IH [of "int_text i"] int_text_plain
    by (simp add: field_text_def split_whitespace_Cons is_whitespace_def)
qed

lemma fields_no_parenthesis: "list_all (\<lambda>c. c \<noteq> 41) (concat (map field_text is) @ [10])"
  using int_text_plain(2) by (induction "is") (auto simp: field_text_def)

text \<open>
  Whatever a process is called, also with parentheses and blanks in its name, its line is read to its own
  state, parent, group and start time, and reading never panics.
\<close>

lemma stat_reads_back:
  "stat_fields pid (stat_text pid p) = Inr
     (if - (2 ^ 31) \<le> ps_ppid p \<and> ps_ppid p < 2 ^ 31 \<and> - (2 ^ 31) \<le> ps_pgrp p \<and> ps_pgrp p < 2 ^ 31 \<and> - (2 ^ 63) \<le> ps_field p 22 \<and> ps_field p 22 < 2 ^ 63
      then Some \<lparr>ob_pid = pid, ob_ppid = ps_ppid p, ob_pgid = ps_pgrp p, ob_start_sec = ps_field p 22,
        ob_stopped = (ps_state p \<in> {Stopped, Tracing})\<rparr>
      else None)"
proof -
  define fs where "fs = map (ps_field p) [6..<53]"
  have fs: "16 < length fs" "fs ! 16 = ps_field p 22"
    by (simp_all add: fs_def)
  let ?tail = "concat (map field_text (ps_ppid p # ps_pgrp p # fs)) @ [10]"
  have shape: "stat_text pid p = (int_text pid @ lit '' ('' @ ps_comm p) @ 41 # 32 # state_char (ps_state p) # ?tail"
    by (simp add: stat_text_def lit_def o_def fs_def)
  have letter: "state_char (ps_state p) \<noteq> 41" "\<not> is_whitespace (state_char (ps_state p))"
    "[state_char (ps_state p)] = lit ''T'' \<or> [state_char (ps_state p)] = lit ''t'' \<longleftrightarrow> ps_state p \<in> {Stopped, Tracing}"
    by (cases "ps_state p"; simp add: is_whitespace_def lit_def)+
  have pos: "rposition (\<lambda>c. c = 41) (stat_text pid p) = Some (length (int_text pid @ lit '' ('' @ ps_comm p))"
    unfolding shape using letter(1) fields_no_parenthesis [of "ps_ppid p # ps_pgrp p # fs"] by (intro rposition_append) simp_all
  have split: "split_whitespace (drop (length (int_text pid @ lit '' ('' @ ps_comm p) + 2) (stat_text pid p)) =
      [state_char (ps_state p)] # map int_text (ps_ppid p # ps_pgrp p # fs)"
    unfolding shape using fields_split [of "[state_char (ps_state p)]" "ps_ppid p # ps_pgrp p # fs"] letter(2) by simp
  have next_char: "length (int_text pid @ lit '' ('' @ ps_comm p) + 1 < length (stat_text pid p)"
    "stat_text pid p ! (length (int_text pid @ lit '' ('' @ ps_comm p) + 1) < 128"
    unfolding shape by (simp_all add: nth_append)
  show ?thesis
    unfolding stat_fields_def pos option.case split using next_char letter(3) fs by (simp add: parse_int_text)
qed

section \<open>Calls and signals\<close>

text \<open>A run goes on from \<open>run\<close> to \<open>run'\<close>, and all signals sent on the way satisfy \<open>P\<close>.\<close>

definition sends :: "(nat \<times> int \<times> int \<Rightarrow> bool) \<Rightarrow> os_run \<Rightarrow> os_run \<Rightarrow> bool" where
  "sends P run run' \<longleftrightarrow> or_time run \<le> or_time run' \<and>
     (\<exists>ks. or_kills run' = or_kills run @ ks \<and> (\<forall>k \<in> set ks. or_time run \<le> fst k \<and> fst k < or_time run' \<and> P k))"

abbreviation quiet :: "os_run \<Rightarrow> os_run \<Rightarrow> bool" where
  "quiet \<equiv> sends (\<lambda>_. False)"

lemma quiet_iff: "quiet run run' \<longleftrightarrow> (\<exists>t. or_time run \<le> t \<and> run' = run\<lparr>or_time := t\<rparr>)"
proof -
  have "(\<forall>k \<in> set ks. Q k \<and> False) \<longleftrightarrow> ks = []" for ks :: "(nat \<times> int \<times> int) list" and Q
    by (cases ks) auto
  then have "quiet run run' \<longleftrightarrow> or_time run \<le> or_time run' \<and> or_kills run' = or_kills run"
    unfolding sends_def by (simp add: conj_assoc [symmetric] del: conj_assoc)
  then show ?thesis
    by (cases run; cases run') auto
qed

lemma sends_refl [simp]: "sends P run run"
  by (simp add: sends_def)

lemma sends_trans [trans]:
  assumes "sends P run run1" "sends P run1 run2"
  shows "sends P run run2"
proof -
  obtain ks ks' where "or_kills run1 = or_kills run @ ks" "\<forall>k \<in> set ks. or_time run \<le> fst k \<and> fst k < or_time run1 \<and> P k"
    "or_kills run2 = or_kills run1 @ ks'" "\<forall>k \<in> set ks'. or_time run1 \<le> fst k \<and> fst k < or_time run2 \<and> P k"
    using assms unfolding sends_def by blast
  then show ?thesis
    using assms unfolding sends_def by (intro conjI exI [of _ "ks @ ks'"]) fastforce+
qed

lemma sends_mono: "sends P run run' \<Longrightarrow> (\<And>k. P k \<Longrightarrow> Q k) \<Longrightarrow> sends Q run run'"
  unfolding sends_def by blast

lemma sends_mono_time: "sends P run run' \<Longrightarrow> (\<And>k. or_time run \<le> fst k \<Longrightarrow> P k \<Longrightarrow> Q k) \<Longrightarrow> sends Q run run'"
  unfolding sends_def by blast

lemma quiet_sends: "quiet run run' \<Longrightarrow> sends P run run'"
  by (erule sends_mono) simp

lemma sends_later: "sends P run run' \<Longrightarrow> or_time run \<le> or_time run' \<and> set (or_kills run) \<subseteq> set (or_kills run')"
  by (auto simp: sends_def)

lemma run_os_call [simp]: "run_state (os_call f) run = (f (or_time run), run\<lparr>or_time := or_time run + 1\<rparr>)"
  by (simp add: os_call_def)

lemma run_kill [simp]:
  "run_state (kill w pid sig) run = (ow_kill w (or_time run) pid sig,
     run\<lparr>or_time := or_time run + 1, or_kills := or_kills run @ [(or_time run, pid, sig)]\<rparr>)"
  by (simp add: kill_def)

lemma run_observe_all: "\<exists>all. run_state (observe_all w pids) run = (all, run\<lparr>or_time := or_time run + length pids\<rparr>)"
proof (induction pids arbitrary: run)
  case (Cons pid pids)
  then show ?case
    using Cons [of "run\<lparr>or_time := or_time run + 1\<rparr>"] by (auto simp: observe_process_def)
qed simp

lemma quiet_snapshot: "quiet run (snd (run_state (snapshot w) run))"
proof -
  have "\<exists>t. or_time run \<le> t \<and> snd (run_state (snapshot w) run) = run\<lparr>or_time := t\<rparr>"
  proof (cases "ow_proc w (or_time run)")
    case None
    then show ?thesis
      by (auto simp: snapshot_def intro!: exI [of _ "or_time run + 1"])
  next
    case (Some names)
    then show ?thesis
      using run_observe_all [of w "filter (\<lambda>pid. pid > 1) (List.map_filter parse_i32 names)" "run\<lparr>or_time := or_time run + 1\<rparr>"]
      by (auto simp: snapshot_def intro!: exI [of _ "or_time run + 1 +
        length (filter (\<lambda>pid. pid > 1) (List.map_filter parse_i32 names))"])
  qed
  then show ?thesis
    by (simp add: quiet_iff)
qed

lemma upt_from: "[a..<Suc (a + n)] = a # [Suc a..<Suc (a + n)]"
  by (rule upt_conv_Cons) simp

definition sampled :: "os_world \<Rightarrow> nat \<times> int \<Rightarrow> holder_process_sample option" where
  "sampled w = (\<lambda>(t, pid). map_option (\<lambda>start. \<lparr>hps_pid = pid, hps_start_sec = start\<rparr>) (start_at w t pid))"

lemma run_sample_all:
  "run_state (sample_all w pids) run =
     (List.map_filter (sampled w) (zip [or_time run..<or_time run + length pids] pids), run\<lparr>or_time := or_time run + length pids\<rparr>)"
proof (induction pids arbitrary: run)
  case Nil
  then show ?case
    by (simp add: List.map_filter_def)
next
  case (Cons pid pids)
  show ?case
    using upt_from [of "or_time run" "length pids"]
    by (simp del: upt_Suc add: start_time_def Cons sampled_def List.map_filter_simps split: option.split)
qed

definition place :: "int list \<Rightarrow> int \<Rightarrow> nat" where
  "place pids pid = length (takeWhile (\<lambda>x. x \<noteq> pid) pids)"

lemma zip_places:
  "distinct pids \<Longrightarrow> (t, pid) \<in> set (zip [a..<a + length pids] pids) \<longleftrightarrow> pid \<in> set pids \<and> t = a + place pids pid"
proof (induction pids arbitrary: a)
  case (Cons x pids)
  show ?case
    using Cons.IH [of "Suc a"] Cons.prems upt_from [of a "length pids"] by (auto simp del: upt_Suc simp: place_def)
qed simp

lemma place_less: "pid \<in> set pids \<Longrightarrow> place pids pid < length pids"
  by (induction pids) (auto simp: place_def)

lemma distinct_sampled:
  "distinct pids \<Longrightarrow> distinct (map hps_pid (List.map_filter (sampled w) (zip ts pids)))"
proof (induction ts pids rule: list_induct2')
  case (4 t ts pid pids)
  have "hps_pid ` set (List.map_filter (sampled w) (zip ts pids)) \<subseteq> set pids"
    by (auto simp: List.map_filter_def sampled_def dest: set_zip_rightD)
  then show ?case
    using 4 by (auto simp: List.map_filter_simps sampled_def split: option.split)
qed (simp_all add: List.map_filter_simps)

text \<open>
  Claim C18. The walk ends, and what it lists is exactly the tree: of the processes that the snapshot puts
  under the root, by parentage or as members of the group of one of them, without the holder
  itself, each once, those that still run when they are looked up again, with the start time they have then.
  Listing signals nobody.
\<close>

theorem process_tree_exact:
  assumes "start > 1" and order: "\<And>pids. mset (ow_pid_order w pids) = mset pids"
  shows "case (run_state (snapshot w) run, run_state (enumerate_tree w start) run) of ((all, run1), (tree, run2)) \<Rightarrow>
    distinct (map hps_pid tree) \<and> or_kills run2 = or_kills run \<and>
    (\<exists>looked_up. (\<forall>pid. in_tree all (ow_holder_pid w) start pid \<longrightarrow> or_time run1 \<le> looked_up pid \<and> looked_up pid < or_time run2) \<and>
      set tree = {x. in_tree all (ow_holder_pid w) start (hps_pid x) \<and>
        start_at w (looked_up (hps_pid x)) (hps_pid x) = Some (hps_start_sec x)})"
proof -
  obtain all run1 where snap: "run_state (snapshot w) run = (all, run1)"
    by fastforce
  define pids where "pids = ow_pid_order w (walk all (ow_holder_pid w) [] [] [start])"
  have pids: "distinct pids" "set pids = {pid. in_tree all (ow_holder_pid w) start pid}"
    using walk_tree [of all "ow_holder_pid w" start] order mset_eq_imp_distinct_iff [OF order] mset_eq_setD [OF order]
    unfolding pids_def by simp_all
  define tree where "tree = List.map_filter (sampled w) (zip [or_time run1..<or_time run1 + length pids] pids)"
  have enum: "run_state (enumerate_tree w start) run = (tree, run1\<lparr>or_time := or_time run1 + length pids\<rparr>)"
    using assms(1) snap by (simp add: enumerate_tree_def run_sample_all pids_def tree_def)
  have "x \<in> set tree \<longleftrightarrow> (\<exists>t. (t, hps_pid x) \<in> set (zip [or_time run1..<or_time run1 + length pids] pids) \<and>
      start_at w t (hps_pid x) = Some (hps_start_sec x))" for x
    by (cases x) (force simp: tree_def List.map_filter_def sampled_def)
  then have members: "set tree = {x. hps_pid x \<in> set pids \<and>
      start_at w (or_time run1 + place pids (hps_pid x)) (hps_pid x) = Some (hps_start_sec x)}"
    using zip_places [OF pids(1)] by auto
  have "quiet run run1"
    using quiet_snapshot [of run w] snap by simp
  then have "or_kills run1 = or_kills run"
    by (auto simp: quiet_iff)
  moreover have "distinct (map hps_pid tree)"
    unfolding tree_def using pids(1) by (rule distinct_sampled)
  ultimately show ?thesis
    using place_less members pids(2)
    by (auto simp: snap enum intro!: exI [of _ "\<lambda>pid. or_time run1 + place pids pid"])
qed

lemma quiet_later: "quiet run (run\<lparr>or_time := or_time run + n\<rparr>)"
  by (simp add: sends_def)

lemma quiet_enumerate: "quiet run (snd (run_state (enumerate_tree w start) run))"
proof (cases "start \<le> 1")
  case False
  obtain all run1 where snap: "run_state (snapshot w) run = (all, run1)"
    by fastforce
  then have "quiet run run1"
    using quiet_snapshot [of run w] by simp
  then show ?thesis
    using False snap sends_trans [OF _ quiet_later] by (simp add: enumerate_tree_def run_sample_all)
qed (simp add: enumerate_tree_def)

lemma all_gone_gone:
  assumes "run_state (all_gone w tree) run = (gone, run')"
  shows "quiet run run'" "gone \<Longrightarrow> x \<in> set tree \<Longrightarrow> \<exists>t. or_time run \<le> t \<and> t < or_time run' \<and> start_at w t (hps_pid x) \<noteq> Some (hps_start_sec x)"
  using assms
proof (induction tree arbitrary: run)
  case (Cons y tree)
  {
    case (1 run)
    note step = quiet_later [of run 1]
    show ?case
      using 1 Cons.IH(1) [of "run\<lparr>or_time := or_time run + 1\<rparr>"] step
      by (auto simp: start_time_def intro: sends_trans [OF step] split: if_splits)
  next
    case (2 run)
    let ?next = "run\<lparr>or_time := or_time run + 1\<rparr>"
    have rest: "run_state (all_gone w tree) ?next = (gone, run')" "start_at w (or_time run) (hps_pid y) \<noteq> Some (hps_start_sec y)"
      using 2 by (auto simp: start_time_def split: if_splits)
    have "or_time run < or_time run'"
      using Cons.IH(1) [OF rest(1)] by (simp add: sends_def)
    then show ?case
      using 2 Cons.IH(2) [of ?next] rest by (cases "x = y") (auto intro: Suc_leD)
  }
qed simp_all

lemma wait_gone_gone:
  assumes "run_state (wait_gone w polls tree) run = (gone, run')"
  shows "quiet run run'" "gone \<Longrightarrow> x \<in> set tree \<Longrightarrow> \<exists>t. or_time run \<le> t \<and> t < or_time run' \<and> start_at w t (hps_pid x) \<noteq> Some (hps_start_sec x)"
  using assms
proof (induction polls arbitrary: run)
  case (Suc polls)
  {
    case (1 run)
    obtain found run1 where first: "run_state (all_gone w tree) run = (found, run1)"
      by fastforce
    note gone = all_gone_gone [OF first]
    show ?case
      using 1 first gone(1) Suc.IH(1) [of run1] by (auto intro: sends_trans [OF gone(1)] split: if_splits)
  next
    case (2 run)
    obtain found run1 where first: "run_state (all_gone w tree) run = (found, run1)"
      by fastforce
    note gone = all_gone_gone [OF first]
    show ?case
    proof (cases found)
      case True
      then show ?thesis
        using 2 first gone by auto
    next
      case False
      then have "\<exists>t. or_time run1 \<le> t \<and> t < or_time run' \<and> start_at w t (hps_pid x) \<noteq> Some (hps_start_sec x)"
        using 2 first by (intro Suc.IH(2)) auto
      then show ?thesis
        using sends_later [OF gone(1)] by (meson order_trans)
    qed
  }
qed simp_all

lemma run_kill_each:
  "run_state (kill_each w pid sigs) run = ((), run\<lparr>or_time := or_time run + length sigs,
     or_kills := or_kills run @ map (\<lambda>i. (or_time run + i, pid, sigs ! i)) [0..<length sigs]\<rparr>)"
proof (induction sigs arbitrary: run)
  case (Cons sig sigs)
  have "[0..<length (sig # sigs)] = 0 # map Suc [0..<length sigs]"
    by (simp add: map_Suc_upt upt_conv_Cons del: upt_Suc)
  then show ?case
    using Cons by (simp del: upt_Suc)
qed simp

text \<open>A signal follows on seeing the process with the start time of a listed one; \<open>kill_each\<close> may be at its \<open>i\<close>-th signal.\<close>

definition checked :: "os_world \<Rightarrow> holder_process_sample list \<Rightarrow> int list \<Rightarrow> nat \<times> int \<times> int \<Rightarrow> bool" where
  "checked w xs sigs = (\<lambda>(t, pid, sig). \<exists>x \<in> set xs. \<exists>i < length sigs. hps_pid x = pid \<and> sig = sigs ! i \<and> i < t \<and>
     start_at w (t - Suc i) pid = Some (hps_start_sec x))"

lemma kill_same_sends:
  "sends (checked w xs sigs) run (snd (run_state (kill_same w sigs xs) run))"
proof (induction xs arbitrary: run)
  case (Cons x xs)
  let ?next = "run\<lparr>or_time := or_time run + 1\<rparr>"
  let ?head = "if start_at w (or_time run) (hps_pid x) = Some (hps_start_sec x) then kill_each w (hps_pid x) sigs else State_Monad.return ()"
  have "sends (checked w (x # xs) sigs) run (snd (run_state ?head ?next))"
    by (auto simp: sends_def run_kill_each checked_def)
  also have "sends (checked w (x # xs) sigs) (snd (run_state ?head ?next)) (snd (run_state (kill_same w sigs xs) (snd (run_state ?head ?next))))"
    by (rule sends_mono [OF Cons]) (auto simp: checked_def)
  finally show ?case
    by (simp add: start_time_def case_prod_beta)
qed simp

lemma kill_same_kills:
  "x \<in> set xs \<Longrightarrow> \<exists>t. or_time run \<le> t \<and> t < or_time (snd (run_state (kill_same w sigs xs) run)) \<and>
     (start_at w t (hps_pid x) \<noteq> Some (hps_start_sec x) \<or>
      (\<forall>i < length sigs. (t + 1 + i, hps_pid x, sigs ! i) \<in> set (or_kills (snd (run_state (kill_same w sigs xs) run)))))"
proof (induction xs arbitrary: run)
  case (Cons y xs)
  let ?next = "run\<lparr>or_time := or_time run + 1\<rparr>"
  let ?head = "if start_at w (or_time run) (hps_pid y) = Some (hps_start_sec y) then kill_each w (hps_pid y) sigs else State_Monad.return ()"
  define run1 where "run1 = snd (run_state ?head ?next)"
  define run2 where "run2 = snd (run_state (kill_same w sigs xs) run1)"
  have result: "snd (run_state (kill_same w sigs (y # xs)) run) = run2"
    by (simp add: start_time_def case_prod_beta run1_def run2_def)
  have later: "or_time run1 \<le> or_time run2" "set (or_kills run1) \<subseteq> set (or_kills run2)"
    using sends_later [OF kill_same_sends [of w xs sigs run1]] by (simp_all add: run2_def)
  have time: "or_time run < or_time run1"
    by (simp add: run1_def run_kill_each)
  show ?case
  proof (cases "x = y")
    case True
    have "start_at w (or_time run) (hps_pid y) \<noteq> Some (hps_start_sec y) \<or>
        (\<forall>i < length sigs. (or_time run + 1 + i, hps_pid y, sigs ! i) \<in> set (or_kills run1))"
      by (auto simp: run1_def run_kill_each)
    then show ?thesis
      unfolding result using True time later by (intro exI [of _ "or_time run"]) auto
  next
    case False
    then have "x \<in> set xs"
      using Cons.prems by simp
    then show ?thesis
      unfolding result using Cons.IH [of run1] time unfolding run2_def [symmetric] by (meson less_imp_le order_trans)
  qed
qed simp

section \<open>Who is signalled\<close>

text \<open>
  A signal goes to the root or its group, or to a process that was listed earlier in the operation and that was
  seen with its listed start time at most two calls before.
\<close>

definition lists :: "os_world \<Rightarrow> int \<Rightarrow> nat \<Rightarrow> nat \<Rightarrow> holder_process_sample \<Rightarrow> bool" where
  "lists w start since t x \<longleftrightarrow>
     (\<exists>run. since \<le> or_time run \<and> or_time run \<le> t \<and> x \<in> set (fst (run_state (enumerate_tree w start) run)))"

definition allowed :: "os_world \<Rightarrow> int \<Rightarrow> nat \<Rightarrow> nat \<times> int \<times> int \<Rightarrow> bool" where
  "allowed w start since = (\<lambda>(t, pid, sig). pid = start \<or> pid = - start \<or>
     (\<exists>x i. lists w start since t x \<and> hps_pid x = pid \<and> 0 < i \<and> i \<le> 2 \<and> i \<le> t \<and> start_at w (t - i) pid = Some (hps_start_sec x)))"

lemma lists_later: "lists w start since' t x \<Longrightarrow> since \<le> since' \<Longrightarrow> t \<le> t' \<Longrightarrow> lists w start since t' x"
  unfolding lists_def by (meson le_trans)

lemma allowed_since: "allowed w start since' k \<Longrightarrow> since \<le> since' \<Longrightarrow> allowed w start since k"
  unfolding allowed_def using lists_later [OF _ _ order_refl] by (cases k) (simp, blast)

lemma sends_since:
  assumes "sends (allowed w start (or_time run1)) run1 run2" "sends (allowed w start (or_time run)) run run1"
  shows "sends (allowed w start (or_time run)) run run2"
proof -
  have "or_time run \<le> or_time run1"
    using sends_later [OF assms(2)] by simp
  then have "sends (allowed w start (or_time run)) run1 run2"
    by (rule sends_mono [OF assms(1) allowed_since [rotated]])
  with assms(2) show ?thesis
    by (rule sends_trans)
qed

lemma signal_group_sends: "sends (allowed w start since) run (snd (run_state (signal_group w start sig) run))"
  by (auto simp: signal_group_def sends_def allowed_def)

lemma kill_same_allowed:
  assumes "length sigs \<le> 2"
    and "\<And>x. x \<in> set xs \<Longrightarrow> lists w start since (or_time run) x"
  shows "sends (allowed w start since) run (snd (run_state (kill_same w sigs xs) run))"
proof (rule sends_mono_time [OF kill_same_sends])
  fix k :: "nat \<times> int \<times> int"
  obtain t pid sig where k: "k = (t, pid, sig)"
    by (cases k)
  assume "or_time run \<le> fst k" "checked w xs sigs k"
  then obtain x i where x: "x \<in> set xs" "i < length sigs" "hps_pid x = pid" "i < t"
      "start_at w (t - Suc i) pid = Some (hps_start_sec x)" and "or_time run \<le> t"
    by (auto simp: k checked_def)
  then have "lists w start since t x"
    using lists_later [OF assms(2) [OF x(1)]] by simp
  then show "allowed w start since k"
    unfolding allowed_def k prod.case using x assms(1)
    by (intro disjI2 exI [of _ x] exI [of _ "Suc i"]) simp
qed

lemma tree_signal_sends:
  assumes "sig \<noteq> SIGSTOP"
  shows "sends (allowed w start (or_time run)) run (snd (run_state (tree_signal w start sig) run))"
proof -
  obtain tree run1 where enum: "run_state (enumerate_tree w start) run = (tree, run1)"
    by fastforce
  define run2 where "run2 = snd (run_state (signal_group w start sig) run1)"
  define run3 where "run3 = snd (run_state (kill_same w [sig] (if sig = SIGCONT then sort_key (\<lambda>x. - hps_start_sec x) tree else tree)) run2)"
  have first: "sends (allowed w start (or_time run)) run run1"
    using quiet_sends [OF quiet_enumerate [of run w start]] enum by simp
  have second: "sends (allowed w start (or_time run)) run1 run2"
    unfolding run2_def by (rule signal_group_sends)
  have "or_time run \<le> or_time run2"
    using sends_later [OF first] sends_later [OF second] by simp
  then have "sends (allowed w start (or_time run)) run2 run3"
    unfolding run3_def using enum by (intro kill_same_allowed) (auto simp: lists_def intro!: exI [of _ run] split: if_splits)
  moreover have "snd (run_state (tree_signal w start sig) run) = run3"
    using assms enum by (simp add: tree_signal_def run3_def run2_def case_prod_beta)
  ultimately show ?thesis
    using sends_trans [OF sends_trans [OF first second]] by simp
qed

text \<open>
  Claim C12. Killing a tree is safe and thorough, whatever the processes do meanwhile. Every signal goes to
  the root or its group, or to a process that an enumeration of this operation listed and that was seen again
  with the listed start time at most two calls earlier, so that a process that took over a number is not
  hit; and every process of the first listing is seen to be gone, or is sent SIGKILL in
  the call after it was seen.
\<close>

theorem kill_tree_safe_and_thorough:
  assumes order: "\<And>xs. set (ow_sample_order w xs) = set xs"
  shows "case (run_state (enumerate_tree w start) run, run_state (kill_tree w polls start) run) of ((tree, _), (_, run')) \<Rightarrow>
    (\<exists>ks. or_kills run' = or_kills run @ ks \<and> list_all (allowed w start (or_time run)) ks) \<and>
    list_all (\<lambda>x. \<exists>t. or_time run \<le> t \<and> t < or_time run' \<and>
      (start_at w t (hps_pid x) \<noteq> Some (hps_start_sec x) \<or> (t + 1, hps_pid x, SIGKILL) \<in> set (or_kills run'))) tree"
proof -
  obtain tree run1 where enum: "run_state (enumerate_tree w start) run = (tree, run1)"
    by fastforce
  define run2 where "run2 = snd (run_state (tree_signal w start SIGTERM) run1)"
  define run3 where "run3 = snd (run_state (tree_signal w start SIGCONT) run2)"
  obtain gone run4 where waited: "run_state (wait_gone w polls tree) run3 = (gone, run4)"
    by fastforce
  let ?ok = "sends (allowed w start (or_time run)) run"
  have "?ok run1"
    using quiet_sends [OF quiet_enumerate [of run w start]] enum by simp
  then have "?ok run2"
    unfolding run2_def by (rule sends_since [rotated]) (rule tree_signal_sends, simp add: SIGTERM_def SIGSTOP_def)
  then have ok3: "?ok run3"
    unfolding run3_def by (rule sends_since [rotated]) (rule tree_signal_sends, simp add: SIGCONT_def SIGSTOP_def)
  then have ok4: "?ok run4"
    using wait_gone_gone(1) [OF waited] quiet_sends sends_trans by blast
  show ?thesis
  proof (cases gone)
    case True
    then have "run_state (kill_tree w polls start) run = ((), run4)"
      using enum waited by (simp add: kill_tree_def run3_def run2_def case_prod_beta)
    moreover have "\<exists>t. or_time run \<le> t \<and> t < or_time run4 \<and> start_at w t (hps_pid x) \<noteq> Some (hps_start_sec x)" if "x \<in> set tree" for x
      using wait_gone_gone(2) [OF waited True that] sends_later [OF ok3] by (meson order_trans)
    ultimately show ?thesis
      using ok4 enum by (auto simp: sends_def list_all_iff)
  next
    case False
    obtain others run5 where again: "run_state (enumerate_tree w start) run4 = (others, run5)"
      by fastforce
    define run6 where "run6 = snd (run_state (signal_group w start SIGKILL) run5)"
    let ?all = "ow_sample_order w (remdups (tree @ others))"
    define run7 where "run7 = snd (run_state (kill_same w [SIGKILL, SIGCONT] ?all) run6)"
    have result: "snd (run_state (kill_tree w polls start) run) = run7"
      using False enum waited again
      by (simp add: kill_tree_def run7_def run6_def run3_def run2_def case_prod_beta)
    have ok5: "?ok run5"
      using ok4 quiet_sends [OF quiet_enumerate [of run4 w start]] again sends_trans by force
    then have ok6: "?ok run6"
      unfolding run6_def using signal_group_sends sends_trans by blast
    have before: "or_time run \<le> or_time run4" "or_time run4 \<le> or_time run6" "or_time run \<le> or_time run6"
      using sends_later [OF ok4] sends_later [OF signal_group_sends [of w start 0 run5 SIGKILL]] sends_later [OF ok6]
        sends_later [OF quiet_enumerate [of run4 w start]] again by (simp_all add: run6_def)
    have "sends (allowed w start (or_time run)) run6 run7"
      unfolding run7_def
    proof (rule kill_same_allowed)
      fix x
      assume "x \<in> set ?all"
      then consider "x \<in> set tree" | "x \<in> set others"
        by (auto simp: order)
      then show "lists w start (or_time run) (or_time run6) x"
        unfolding lists_def using before enum again by cases (auto intro: exI [of _ run] exI [of _ run4])
    qed simp
    then have "?ok run7"
      using ok6 sends_trans by blast
    moreover have "\<exists>t. or_time run \<le> t \<and> t < or_time run7 \<and>
        (start_at w t (hps_pid x) \<noteq> Some (hps_start_sec x) \<or> (t + 1, hps_pid x, SIGKILL) \<in> set (or_kills run7))" if "x \<in> set tree" for x
    proof -
      have "x \<in> set ?all"
        using that by (simp add: order)
      then obtain t where "or_time run6 \<le> t" "t < or_time run7" "start_at w t (hps_pid x) \<noteq> Some (hps_start_sec x) \<or>
          (\<forall>i < length [SIGKILL, SIGCONT]. (t + 1 + i, hps_pid x, [SIGKILL, SIGCONT] ! i) \<in> set (or_kills run7))"
        using kill_same_kills [of x ?all run6 w "[SIGKILL, SIGCONT]"] unfolding run7_def [symmetric] by blast
      then show ?thesis
        using before(3) by (intro exI [of _ t]) auto
    qed
    ultimately show ?thesis
      using enum result by (auto simp: sends_def list_all_iff case_prod_beta)
  qed
qed

section \<open>A stranger can be stopped\<close>

text \<open>
  Four processes: a shell 5 with a child 6, a job 7 that left its parent but not the group of 6, and a
  stranger 9. In \<open>recycling_world\<close>, 6 ends after it was listed, and its number goes to a stranger.
\<close>

definition process :: "int \<Rightarrow> int \<Rightarrow> int \<Rightarrow> proc_state \<Rightarrow> proc_stat" where
  "process parent grp start st = \<lparr>ps_comm = lit ''sh'', ps_state = st, ps_ppid = parent, ps_pgrp = grp, ps_field = \<lambda>_. start\<rparr>"

definition family :: "int \<rightharpoonup> proc_stat" where
  "family = [5 \<mapsto> process 1 5 100 Stopped, 6 \<mapsto> process 5 6 110 Stopped, 7 \<mapsto> process 1 6 120 Stopped, 9 \<mapsto> process 1 9 130 Running]"

definition proc_names :: "str list" where
  "proc_names = map int_text [5, 6, 7, 9] @ [lit ''self'']"

definition family_world :: os_world where
  "family_world = \<lparr>ow_proc = \<lambda>_. Some proc_names, ow_stat = \<lambda>_. family,
     ow_kill = \<lambda>_ _ _. Signalled, ow_holder_pid = 4, ow_pid_order = \<lambda>pids. pids, ow_sample_order = \<lambda>xs. xs\<rparr>"

definition recycling_world :: os_world where
  "recycling_world = family_world\<lparr>ow_stat := \<lambda>t. if t < 9 then family else family(6 \<mapsto> process 1 300 500 Running)\<rparr>"

definition fresh_run :: os_run where
  "fresh_run = \<lparr>or_time = 0, or_kills = []\<rparr>"

lemma stat_process:
  "\<bar>parent\<bar> < 2 ^ 31 \<Longrightarrow> \<bar>grp\<bar> < 2 ^ 31 \<Longrightarrow> \<bar>start\<bar> < 2 ^ 63 \<Longrightarrow>
   stat_fields pid (stat_text pid (process parent grp start st)) = Inr (Some \<lparr>ob_pid = pid, ob_ppid = parent, ob_pgid = grp,
     ob_start_sec = start, ob_stopped = (st \<in> {Stopped, Tracing})\<rparr>)"
  by (auto simp: stat_reads_back process_def)

lemma family_names: "List.map_filter (parse_int (- 2147483648) 2147483647) proc_names = [5, 6, 7, 9]"
  by (simp add: proc_names_def List.map_filter_simps parse_int_text) (simp add: parse_int_def lit_def List.map_filter_simps)

lemma worlds:
  "ow_proc family_world t = Some proc_names" "ow_holder_pid family_world = 4" "ow_pid_order family_world pids = pids"
  "ow_stat family_world t = family" "ow_kill family_world t pid sig = Signalled" "ow_sample_order family_world xs = xs"
  "ow_proc recycling_world t = Some proc_names" "ow_holder_pid recycling_world = 4" "ow_pid_order recycling_world pids = pids"
  "ow_stat recycling_world t = (if t < 9 then family else family(6 \<mapsto> process 1 300 500 Running))" "ow_kill recycling_world t pid sig = Signalled"
  by (simp_all add: recycling_world_def family_world_def)

lemmas world_eval = enumerate_tree_def snapshot_def observe_process_def start_time_def start_at_def observe_at_def family_names worlds
  stat_process family_def

lemma family_tree:
  "run_state (enumerate_tree family_world 5) fresh_run =
     ([\<lparr>hps_pid = 7, hps_start_sec = 120\<rparr>, \<lparr>hps_pid = 6, hps_start_sec = 110\<rparr>, \<lparr>hps_pid = 5, hps_start_sec = 100\<rparr>], \<lparr>or_time = 8, or_kills = []\<rparr>)"
  by (simp add: world_eval fresh_run_def)

text \<open>
  Stopping a tree can stop a stranger and leave it stopped. The module promises that a number seen with one start
  time is never signalled once its start time changed, but the stop path does not look at the start
  time: the stranger that took over number 6 is stopped, it is not among the processes reported
  as stopped, and waking the tree does not resume it.
\<close>

theorem stranger_stays_stopped:
  "case run_state (tree_signal recycling_world 5 SIGSTOP) fresh_run of (tree, run) \<Rightarrow>
     (11, 6, SIGSTOP) \<in> set (or_kills run) \<and> start_at recycling_world 8 6 = Some 110 \<and> start_at recycling_world 10 6 = Some 500 \<and>
     6 \<notin> hps_pid ` set tree \<and>
     (case run_state (tree_signal recycling_world 5 SIGCONT) run of (_, run') \<Rightarrow> \<forall>t. (t, 6, SIGCONT) \<notin> set (or_kills run'))"
  by (simp add: tree_signal_def signal_group_def world_eval fresh_run_def SIGSTOP_def SIGCONT_def eval_nat_numeral)

theorem process_tree_exact_witness:
  "distinct (map hps_pid (fst (run_state (enumerate_tree family_world 5) fresh_run))) \<and>
   hps_pid ` set (fst (run_state (enumerate_tree family_world 5) fresh_run)) = {5, 6, 7}"
  using process_tree_exact [of 5 family_world fresh_run] by (simp add: worlds family_tree case_prod_beta insert_commute)

theorem kill_tree_safe_and_thorough_witness:
  "\<exists>t. (t + 1, 7, SIGKILL) \<in> set (or_kills (snd (run_state (kill_tree family_world 3 5) fresh_run)))"
proof -
  have "start_at family_world t 7 = Some 120" for t
    by (simp add: world_eval)
  then show ?thesis
    using kill_tree_safe_and_thorough [where w = family_world and start = 5 and run = fresh_run and polls = 3]
    by (auto simp: worlds family_tree case_prod_beta)
qed

end
