(* ===== verification/Held_Pump.thy ===== *)
theory Held_Pump
  imports Holder_Protocol
begin

text \<open>
  \<^verbatim>\<open>homie-engine/src/session/pump.rs\<close>, \<open>pump_held\<close>: how the daemon follows the output log of a held
  session. Modelled is what happens to the bytes: each chunk read from the log is split at the exit
  marker floor, both parts are drained of markers, and the loop ends with the first honoured exit.
  The screen, the status reducer and the checkpoint file are fed from the result and are not state
  of this model. Shown: only a marker at or above the floor ends the session, and as long as none
  is found the bytes shown are those of the two parts, however the log was read.
\<close>

section \<open>The pump\<close>

record pump_state =
  ps_offset :: nat
  ps_marker_buffer :: bytes
  ps_exit_status :: "holder_exit_status option"

definition pump_chunk :: "marker_fns \<Rightarrow> nat \<Rightarrow> nat \<Rightarrow> bytes \<Rightarrow> pump_state \<Rightarrow> bytes \<times> pump_state" where
  "pump_chunk fns exit_marker_floor start chunk st =
     (let marker_buffer = (if start > ps_offset st \<and> ps_marker_buffer st \<noteq> [] then []
                           else ps_marker_buffer st);
          honored_from = min (exit_marker_floor - start) (length chunk);
          (output, marker_buffer) =
            (if honored_from > 0
             then let ((replayed, _), rest) = drain fns (marker_buffer @ take honored_from chunk)
                  in (replayed, if start + honored_from \<ge> exit_marker_floor then [] else rest)
             else ([], marker_buffer));
          (output, marker_buffer, exit_status) =
            (if honored_from < length chunk
             then let ((live, exit_found), rest) = drain fns (marker_buffer @ drop honored_from chunk)
                  in (output @ live, rest,
                      if exit_found \<noteq> None then exit_found else ps_exit_status st)
             else (output, marker_buffer, ps_exit_status st))
      in (output, \<lparr>ps_offset = start + length chunk, ps_marker_buffer = marker_buffer,
                   ps_exit_status = exit_status\<rparr>))"

text \<open>
  The loop over the log's answers: it stops at the first exit status, and an empty answer changes
  nothing here.
\<close>

fun pump_run :: "marker_fns \<Rightarrow> nat \<Rightarrow> pump_state \<Rightarrow> (nat \<times> bytes) list \<Rightarrow> bytes \<times> pump_state" where
  "pump_run fns exit_marker_floor st [] = ([], st)"
| "pump_run fns exit_marker_floor st ((start, chunk) # reads) =
     (if ps_exit_status st \<noteq> None then ([], st)
      else if chunk = [] then pump_run fns exit_marker_floor st reads
      else let (output, st) = pump_chunk fns exit_marker_floor start chunk st;
               (outputs, st) = pump_run fns exit_marker_floor st reads
           in (output @ outputs, st))"

datatype exit_kind = ExitCode int | ExitSignal int

definition exit_of :: "holder_exit_status \<Rightarrow> exit_kind" where
  "exit_of status =
     (case hes_signal status of
        Some signal \<Rightarrow> ExitSignal signal
      | None \<Rightarrow> ExitCode (case hes_code status of Some code \<Rightarrow> code | None \<Rightarrow> - 1))"

definition pump_exit :: "pump_state \<Rightarrow> exit_kind option" where
  "pump_exit st = map_option exit_of (ps_exit_status st)"

section \<open>Only live markers end a session\<close>

text \<open>Chunks read one after the other, the log not having been rotated past the reader.\<close>

fun reads_from :: "nat \<Rightarrow> bytes list \<Rightarrow> (nat \<times> bytes) list" where
  "reads_from pos [] = []"
| "reads_from pos (x # xs) = (pos, x) # reads_from (pos + length x) xs"

abbreviation following :: "nat \<Rightarrow> bytes \<Rightarrow> pump_state" where
  "following pos buf \<equiv> \<lparr>ps_offset = pos, ps_marker_buffer = buf, ps_exit_status = None\<rparr>"

lemma pump_run_exited [simp]: "ps_exit_status st = Some e \<Longrightarrow> pump_run fns floor_at st reads = ([], st)"
  by (cases reads) auto

lemma pump_chunk_live:
  assumes "floor_at \<le> pos" "x \<noteq> []" "drain fns (buf @ x) = ((out, e), rest)"
  shows "pump_chunk fns floor_at pos x (following pos buf) =
    (out, \<lparr>ps_offset = pos + length x, ps_marker_buffer = rest, ps_exit_status = e\<rparr>)"
  using assms by (auto simp: pump_chunk_def Let_def)

lemma pump_chunk_stale:
  assumes "pos + length x < floor_at" "x \<noteq> []" "drain fns (buf @ x) = ((out, e), rest)"
  shows "pump_chunk fns floor_at pos x (following pos buf) = (out, following (pos + length x) rest)"
  using assms by (auto simp: pump_chunk_def Let_def)

lemma pump_chunk_boundary:
  assumes "pos < floor_at" "floor_at \<le> pos + length x"
    "drain fns (buf @ take (floor_at - pos) x) = ((o1, e1), r1)"
    "drain fns (drop (floor_at - pos) x) = ((o2, e2), r2)"
  shows "pump_chunk fns floor_at pos x (following pos buf) =
    (o1 @ o2, \<lparr>ps_offset = pos + length x, ps_marker_buffer = r2, ps_exit_status = e2\<rparr>)"
  using assms by (auto simp: pump_chunk_def Let_def min_def drain_def drain_loop.simps)

abbreviation drained_bytes :: "marker_fns \<Rightarrow> bytes \<Rightarrow> bytes" where
  "drained_bytes fns b \<equiv> fst (fst (drain fns b))"

abbreviation drained_exit :: "marker_fns \<Rightarrow> bytes \<Rightarrow> holder_exit_status option" where
  "drained_exit fns b \<equiv> snd (fst (drain fns b))"

definition pump_agrees :: "marker_fns \<Rightarrow> bytes \<Rightarrow> bytes \<Rightarrow> bytes \<times> pump_state \<Rightarrow> bool" where
  "pump_agrees fns stale live r \<longleftrightarrow>
     (ps_exit_status (snd r) = None \<longleftrightarrow> drained_exit fns live = None) \<and>
     (ps_exit_status (snd r) = None \<longrightarrow> fst r = drained_bytes fns stale @ drained_bytes fns live)"

lemma drain_Nil [simp]: "drain fns [] = (([], None), [])"
  by (simp add: drain_def drain_loop.simps)

lemma pump_live:
  "floor_at \<le> pos \<Longrightarrow> drain fns buf = (([], None), buf) \<Longrightarrow>
     pump_agrees fns [] (buf @ concat xs) (pump_run fns floor_at (following pos buf) (reads_from pos xs))"
proof (induction xs arbitrary: pos buf)
  case Nil
  then show ?case by (simp add: pump_agrees_def)
next
  case (Cons x xs)
  show ?case
  proof (cases "x = []")
    case True
    then show ?thesis using Cons.IH [OF Cons.prems] by simp
  next
    case False
    obtain out e rest where x: "drain fns (buf @ x) = ((out, e), rest)"
      by (metis surj_pair)
    obtain o2 e2 r2 where xs: "drain fns (rest @ concat xs) = ((o2, e2), r2)"
      by (metis surj_pair)
    note all = drain_append [OF x xs]
    show ?thesis
    proof (cases e)
      case None
      have "pump_agrees fns [] (rest @ concat xs)
          (pump_run fns floor_at (following (pos + length x) rest) (reads_from (pos + length x) xs))"
        using Cons.prems drain_rest_quiet [OF x] by (intro Cons.IH) auto
      then show ?thesis
        using None False x xs all Cons.prems
        by (auto simp: pump_agrees_def pump_chunk_live split: prod.splits option.splits)
    next
      case (Some s)
      then show ?thesis
        using False x all Cons.prems
        by (auto simp: pump_agrees_def pump_chunk_live split: option.splits)
    qed
  qed
qed

lemma pump_stale:
  "pos < floor_at \<Longrightarrow> drain fns buf = (([], None), buf) \<Longrightarrow>
     pump_agrees fns (buf @ take (floor_at - pos) (concat xs)) (drop (floor_at - pos) (concat xs))
       (pump_run fns floor_at (following pos buf) (reads_from pos xs))"
proof (induction xs arbitrary: pos buf)
  case Nil
  then show ?case by (simp add: pump_agrees_def)
next
  case (Cons x xs)
  let ?n = "floor_at - pos"
  show ?case
  proof (cases "x = []")
    case True
    then show ?thesis using Cons.IH [OF Cons.prems] by simp
  next
    case False
    show ?thesis
    proof (cases "pos + length x < floor_at")
      case True
      obtain out e rest where x: "drain fns (buf @ x) = ((out, e), rest)"
        by (metis surj_pair)
      let ?s = "take (floor_at - (pos + length x)) (concat xs)"
      obtain o2 e2 r2 where xs: "drain fns (rest @ ?s) = ((o2, e2), r2)"
        by (metis surj_pair)
      have "pump_agrees fns (rest @ ?s) (drop (floor_at - (pos + length x)) (concat xs))
          (pump_run fns floor_at (following (pos + length x) rest) (reads_from (pos + length x) xs))"
        using True drain_rest_quiet [OF x] by (intro Cons.IH)
      then show ?thesis
        using True False x xs drain_append [OF x xs]
        by (auto simp: pump_agrees_def pump_chunk_stale take_append drop_append split: prod.splits)
    next
      case reached: False
      obtain o1 e1 r1 where s: "drain fns (buf @ take ?n x) = ((o1, e1), r1)"
        by (metis surj_pair)
      obtain o2 e2 r2 where l: "drain fns (drop ?n x) = ((o2, e2), r2)"
        by (metis surj_pair)
      obtain o3 e3 r3 where xs: "drain fns (r2 @ concat xs) = ((o3, e3), r3)"
        by (metis surj_pair)
      have chunk: "pump_chunk fns floor_at pos x (following pos buf) =
          (o1 @ o2, \<lparr>ps_offset = pos + length x, ps_marker_buffer = r2, ps_exit_status = e2\<rparr>)"
        using reached Cons.prems s l by (intro pump_chunk_boundary) auto
      note all = drain_append [OF l xs]
      show ?thesis
      proof (cases e2)
        case None
        have "pump_agrees fns [] (r2 @ concat xs)
            (pump_run fns floor_at (following (pos + length x) r2) (reads_from (pos + length x) xs))"
          using reached drain_rest_quiet [OF l] by (intro pump_live) auto
        then show ?thesis
          using None False reached chunk s l xs all
          by (auto simp: pump_agrees_def split: prod.splits option.splits)
      next
        case (Some e)
        then show ?thesis
          using False reached chunk all by (auto simp: pump_agrees_def split: option.splits)
      qed
    qed
  qed
qed

text \<open>
  Claim C29. The log is followed from an offset, in whatever chunks it is read. The pump ends with
  an exit status exactly when the bytes at or above the exit marker floor hold a complete marker
  that decodes: a marker of an earlier incarnation below the floor is stripped and never believed.
  As long as there is none, the bytes shown are the marker-free bytes below the floor followed by
  those above it.
\<close>

theorem only_live_markers_end_a_session:
  "let (output, st) = pump_run fns exit_marker_floor (following pos []) (reads_from pos xs);
       stale = take (exit_marker_floor - pos) (concat xs);
       live = drop (exit_marker_floor - pos) (concat xs)
   in (pump_exit st = None \<longleftrightarrow> snd (fst (drain fns live)) = None) \<and>
      (pump_exit st = None \<longrightarrow> output = fst (fst (drain fns stale)) @ fst (fst (drain fns live)))"
proof (cases "pos < exit_marker_floor")
  case True
  then show ?thesis
    using pump_stale [of pos exit_marker_floor fns "[]" xs]
    by (auto simp: pump_agrees_def pump_exit_def split: prod.splits)
next
  case False
  then show ?thesis
    using pump_live [of exit_marker_floor pos fns "[]" xs]
    by (auto simp: pump_agrees_def pump_exit_def split: prod.splits)
qed


theorem only_live_markers_end_a_session_witness:
  "let (output, st) = pump_run sample_fns 19 (following 0 [])
         (reads_from 0 [take 5 (marker_encode sample_fns sample_status),
                        drop 5 (marker_encode sample_fns sample_status) @ [33]])
   in pump_exit st = None \<and> output = [33]"
proof -
  have m: "length (marker_encode sample_fns sample_status) = 19"
    by (simp add: marker_encode_def sample_fns_def)
  have live: "drain sample_fns [33] = (([33], None), [])"
    by (simp add: drain_def drain_loop.simps find_bytes_def longest_suffix_of_prefix_def PREFIX_def lit_def)
  have "fst (fst (drain sample_fns (marker_encode sample_fns sample_status))) = []"
    by code_simp
  then show ?thesis
    using only_live_markers_end_a_session [of sample_fns 19 0 "[take 5 (marker_encode sample_fns sample_status),
                        drop 5 (marker_encode sample_fns sample_status) @ [33]]"] m live
    by (auto simp: Let_def simp del: pump_run.simps reads_from.simps split: prod.splits)
qed

end
