(* ===== verification/Detect.thy ===== *)
theory Detect
  imports Agent Events "HOL-Library.List_Lexorder"
begin

text \<open>
  Screen detection (\<^verbatim>\<open>homie-engine/src/detect\<close>): the regions of a screen, the rule predicates and how
  they are read from JSON, and the evaluation of a manifest's rules with its cache of region texts. The
  verdict is the \<open>screen_observation\<close> that the status reducer consumes. Regular expressions and
  lower-casing are code of other packages and parameters, \<open>regex_fns\<close>; a compiled pattern is its text.
  Shown: the evaluation takes the first rule, in file order, of the highest priority that matches,
  a prompt box is the whole bottom-most box without its border, and later catalogs override earlier ones.
\<close>

record regex_fns =
  regex_new :: "str \<Rightarrow> bool" \<comment> \<open>whether the pattern compiles\<close>
  is_match :: "str \<Rightarrow> str \<Rightarrow> bool"
  captures_get :: "str \<Rightarrow> nat \<Rightarrow> str \<Rightarrow> str option"
  replace_all :: "str \<Rightarrow> str \<Rightarrow> str \<Rightarrow> str"
  to_lowercase :: "str \<Rightarrow> str"

section \<open>Redaction\<close>

definition SECRET :: str where
  "SECRET = lit ''(?i)(token|secret|password|api[_-]?key|authorization)'' @ [92] @ lit ''s*[=:]'' @ [92] @ lit ''s*'' @ [92] @ lit ''S+''"

definition ANSI :: str where
  "ANSI = [92] @ lit ''x1b'' @ [92] @ lit ''[[0-9;?]*[a-zA-Z]''"

definition redact :: "regex_fns \<Rightarrow> str \<Rightarrow> str" where
  "redact rx txt =
     (let masked = replace_all rx SECRET (lit ''$1='' @ [8226, 8226, 8226]) txt
      in replace_all rx ANSI [] masked)"

section \<open>Regions\<close>

datatype region_kind = OscTitle | OscProgress | WholeRecent | PromptBoxBody | BottomNonEmptyLines

record screen_snapshot =
  sn_lines :: "str list"
  sn_osc_title :: "str option"
  sn_osc_progress_state :: "int option"
  sn_content_seq :: nat

definition BORDER_CHARS :: str where
  "BORDER_CHARS = [9581, 9582, 9584, 9583, 9474, 9472, 9484, 9488, 9492, 9496, 9475, 9487, 9491, 9495, 9499, 9473,
     9508, 9500, 9516, 9524, 9532]"

definition PROMPT_START_CHARS :: str where
  "PROMPT_START_CHARS = [9581, 9474, 9584, 10095, 8250, 187]"

definition WHOLE_RECENT_LINES :: usize where "WHOLE_RECENT_LINES = 60"

definition is_blank :: "str \<Rightarrow> bool" where
  "is_blank line \<longleftrightarrow> trim line = []"

definition is_border :: "nat \<Rightarrow> bool" where
  "is_border c \<longleftrightarrow> c \<in> set BORDER_CHARS"

definition non_blank :: "str list \<Rightarrow> str list" where
  "non_blank lines = filter (\<lambda>line. \<not> is_blank line) lines"

definition whole_recent :: "str list \<Rightarrow> str list" where
  "whole_recent lines = (let filtered = non_blank lines in drop (length filtered - WHOLE_RECENT_LINES) filtered)"

definition bottom_non_empty :: "str list \<Rightarrow> usize \<Rightarrow> str list" where
  "bottom_non_empty lines n =
     (if n = 0 then [] else let filtered = non_blank lines in drop (length filtered - n) filtered)"

definition is_box_line :: "str \<Rightarrow> bool" where
  "is_box_line line \<longleftrightarrow> list_ex is_border line"

definition strip_box :: "str \<Rightarrow> str option" where
  "strip_box line =
     (let inner = trim_end_matches is_border (trim_start_matches is_border (trim line))
      in if trim inner = [] then None else Some inner)"

text \<open>The two loops that grow the box.\<close>

fun box_start :: "str list \<Rightarrow> nat \<Rightarrow> nat" where
  "box_start lines 0 = 0"
| "box_start lines (Suc i) = (if is_box_line (lines ! i) then box_start lines i else Suc i)"

function box_end :: "str list \<Rightarrow> nat \<Rightarrow> nat" where
  "box_end lines i = (if i + 1 < length lines \<and> is_box_line (lines ! (i + 1)) then box_end lines (i + 1) else i)"
  by pat_completeness auto
termination
  by (relation "measure (\<lambda>(lines, i). length lines - i)") auto

declare box_end.simps [simp del]

definition prompt_box_body :: "str list \<Rightarrow> str list" where
  "prompt_box_body lines =
     (case rposition (\<lambda>line. 9474 \<in> set line) lines of
        Some last_bar \<Rightarrow> List.map_filter strip_box (segment lines (box_start lines last_bar) (box_end lines last_bar + 1))
      | None \<Rightarrow>
          (case rposition (\<lambda>line. case trim line of [] \<Rightarrow> False | c # _ \<Rightarrow> c \<in> set PROMPT_START_CHARS) lines of
             Some index \<Rightarrow> non_blank (drop index lines)
           | None \<Rightarrow> []))"

definition OPTION_REGEX :: str where
  "OPTION_REGEX = lit ''^'' @ [92] @ lit ''s*['' @ [10095] @ lit ''>'' @ [8250, 187] @ lit '']?'' @ [92] @ lit ''s*('' @ [92] @
     lit ''d+)[.)]'' @ [92] @ lit ''s+(.+)$''"

definition numbered_options :: "regex_fns \<Rightarrow> str list \<Rightarrow> str list" where
  "numbered_options rx lines = List.map_filter (\<lambda>line. map_option trim (captures_get rx OPTION_REGEX 2 line)) lines"

definition extract_region :: "region_kind \<Rightarrow> usize \<Rightarrow> screen_snapshot \<Rightarrow> str list" where
  "extract_region region region_lines snapshot =
     (case region of
        OscTitle \<Rightarrow> (case sn_osc_title snapshot of None \<Rightarrow> [] | Some t \<Rightarrow> [t])
      | OscProgress \<Rightarrow> []
      | WholeRecent \<Rightarrow> whole_recent (sn_lines snapshot)
      | BottomNonEmptyLines \<Rightarrow> bottom_non_empty (sn_lines snapshot) region_lines
      | PromptBoxBody \<Rightarrow> prompt_box_body (sn_lines snapshot))"

section \<open>Rules\<close>

datatype status_model = Full | ProcessOnlyModel

record predicate_context =
  pc_text :: str
  pc_text_lower :: str
  pc_lines :: "str list"
  pc_progress_state :: "int option"

datatype predicate =
    Contains str
  | Regex str
  | LineRegex str
  | Progress int
  | AnyOf "predicate list"
  | AllOf "predicate list"
  | Negated predicate

fun predicate_evaluate :: "regex_fns \<Rightarrow> predicate_context \<Rightarrow> predicate \<Rightarrow> bool" where
  "predicate_evaluate rx ctx (Contains needle) = text_contains needle (pc_text_lower ctx)"
| "predicate_evaluate rx ctx (Regex regex) = is_match rx regex (pc_text ctx)"
| "predicate_evaluate rx ctx (LineRegex regex) = list_ex (is_match rx regex) (pc_lines ctx)"
| "predicate_evaluate rx ctx (Progress n) = (pc_progress_state ctx = Some n)"
| "predicate_evaluate rx ctx (AnyOf inner) = list_ex (predicate_evaluate rx ctx) inner"
| "predicate_evaluate rx ctx (AllOf inner) = list_all (predicate_evaluate rx ctx) inner"
| "predicate_evaluate rx ctx (Negated inner) = (\<not> predicate_evaluate rx ctx inner)"

record capture =
  cap_region :: region_kind
  cap_region_lines :: usize
  cap_max_chars :: usize

definition default_region_lines :: usize where "default_region_lines = 5"
definition default_max_chars :: usize where "default_max_chars = 400"

record rule =
  rule_id :: str
  rule_state :: manifest_state
  rule_priority :: int
  rule_region :: region_kind
  rule_region_lines :: usize
  rule_when :: predicate
  rule_flags :: "str list"
  rule_capture :: "capture option"

definition is_blocker :: "rule \<Rightarrow> bool" where
  "is_blocker r \<longleftrightarrow> rule_state r = BlockedPermission \<or> rule_state r = BlockedQuestion"

definition has_flag :: "rule \<Rightarrow> str \<Rightarrow> bool" where
  "has_flag r flag \<longleftrightarrow> list_ex (\<lambda>f. f = flag) (rule_flags r)"

record manifest =
  mf_schema_version :: int
  mf_id :: str
  mf_version :: str
  mf_status_model :: status_model
  mf_agent :: "agent_descriptor option"
  mf_rules :: "rule list"

text \<open>A stable sort by descending priority.\<close>

definition rules_by_priority :: "rule list \<Rightarrow> rule list" where
  "rules_by_priority rs = sort_key (\<lambda>r. - rule_priority r) rs"

subsection \<open>Predicates in JSON\<close>

text \<open>Objects keep the order and the duplicates of the text, as the visitor sees them.\<close>

text \<open>The \<open>progress\<close> object, by a derived reader: other keys are ignored, \<open>state\<close> comes exactly once.\<close>

definition progress_spec :: "json_value \<Rightarrow> int option" where
  "progress_spec v =
     (case v of
        JObject kvs \<Rightarrow> (case filter (\<lambda>kv. fst kv = lit ''state'') kvs of [(_, JNumber n)] \<Rightarrow> Some n | _ \<Rightarrow> None)
      | _ \<Rightarrow> None)"

fun string_value :: "json_value \<Rightarrow> str option" where
  "string_value (JString s) = Some s"
| "string_value _ = None"

definition compile :: "regex_fns \<Rightarrow> str \<Rightarrow> str option" where
  "compile rx pattern = (if regex_new rx pattern then Some pattern else None)"

fun read_predicate :: "regex_fns \<Rightarrow> json_value \<Rightarrow> predicate option"
and visit_map :: "regex_fns \<Rightarrow> predicate option \<Rightarrow> (str \<times> json_value) list \<Rightarrow> predicate option"
and read_predicates :: "regex_fns \<Rightarrow> json_value list \<Rightarrow> predicate list option" where
  "read_predicate rx (JObject kvs) = visit_map rx None kvs"
| "read_predicate rx _ = None"
| "visit_map rx found [] = found"
| "visit_map rx found ((key, v) # kvs) =
     (case
        (if key = lit ''contains'' then map_option (\<lambda>s. Contains (to_lowercase rx s)) (string_value v)
         else if key = lit ''regex'' then map_option Regex (Option.bind (string_value v) (compile rx))
         else if key = lit ''lineRegex'' then map_option LineRegex (Option.bind (string_value v) (compile rx))
         else if key = lit ''progress'' then map_option Progress (progress_spec v)
         else if key = lit ''any'' then (case v of JArray vs \<Rightarrow> map_option AnyOf (read_predicates rx vs) | _ \<Rightarrow> None)
         else if key = lit ''all'' then (case v of JArray vs \<Rightarrow> map_option AllOf (read_predicates rx vs) | _ \<Rightarrow> None)
         else if key = lit ''not'' then map_option Negated (read_predicate rx v)
         else None)
      of None \<Rightarrow> None | Some p \<Rightarrow> visit_map rx (Some p) kvs)"
| "read_predicates rx [] = Some []"
| "read_predicates rx (v # vs) =
     Option.bind (read_predicate rx v) (\<lambda>p. map_option (Cons p) (read_predicates rx vs))"

section \<open>Evaluation\<close>

record manifest_engine =
  me_manifests :: "str \<rightharpoonup> manifest"
  me_raw_agents :: "str \<rightharpoonup> json_value"

definition engine_new :: "manifest list \<Rightarrow> manifest_engine" where
  "engine_new ms = \<lparr>me_manifests = map_of (rev (map (\<lambda>m. (mf_id m, m)) ms)), me_raw_agents = Map.empty\<rparr>"

definition raw_agent :: "manifest_engine \<Rightarrow> str \<Rightarrow> json_value option" where
  "raw_agent engine mid = me_raw_agents engine mid"

text \<open>
  A directory is its JSON files with what reading and decoding each gave: the manifest, and the
  \<open>agent\<close> value of the same text if it has one.
\<close>

type_synonym manifest_dir = "(str \<times> (manifest \<times> json_value option) option) list"

fun load_entries :: "manifest_dir \<Rightarrow> manifest list \<Rightarrow> str list \<Rightarrow> (str \<rightharpoonup> json_value)
    \<Rightarrow> manifest list \<times> str list \<times> (str \<rightharpoonup> json_value)" where
  "load_entries [] manifests failed raw_agents = (manifests, failed, raw_agents)"
| "load_entries ((name, Some (m, agent)) # entries) manifests failed raw_agents =
     load_entries entries (manifests @ [m]) failed
       (case agent of Some raw \<Rightarrow> raw_agents(mf_id m \<mapsto> raw) | None \<Rightarrow> raw_agents)"
| "load_entries ((name, None) # entries) manifests failed raw_agents =
     load_entries entries manifests (failed @ [name]) raw_agents"

definition load_dir :: "manifest_dir \<Rightarrow> manifest_engine \<times> str list" where
  "load_dir entries =
     (let (manifests, failed, raw_agents) = load_entries (sort_key fst entries) [] [] Map.empty
      in ((engine_new manifests)\<lparr>me_raw_agents := raw_agents\<rparr>, failed))"

definition engine_extend :: "manifest_engine \<Rightarrow> manifest_engine \<Rightarrow> manifest_engine" where
  "engine_extend base engine =
     \<lparr>me_manifests = me_manifests base ++ me_manifests engine, me_raw_agents = me_raw_agents base ++ me_raw_agents engine\<rparr>"

fun merge_dirs :: "manifest_engine option \<Rightarrow> str list \<Rightarrow> manifest_dir option list \<Rightarrow> manifest_engine option \<times> str list" where
  "merge_dirs merged failed [] = (merged, failed)"
| "merge_dirs merged failed (None # dirs) = merge_dirs merged failed dirs"
| "merge_dirs merged failed (Some dir # dirs) =
     (case load_dir dir of (engine, more_failed) \<Rightarrow>
        merge_dirs (Some (case merged of None \<Rightarrow> engine | Some base \<Rightarrow> engine_extend base engine)) (failed @ more_failed) dirs)"

text \<open>\<open>None\<close>: a path that is no directory.\<close>

definition load_dirs :: "manifest_dir option list \<Rightarrow> manifest_engine \<times> str list" where
  "load_dirs dirs = (case merge_dirs None [] dirs of (merged, failed) \<Rightarrow>
     (case merged of None \<Rightarrow> engine_new [] | Some e \<Rightarrow> e, failed))"

type_synonym region_cache = "region_kind \<times> usize \<rightharpoonup> str list \<times> str \<times> str"

definition region_entry :: "regex_fns \<Rightarrow> screen_snapshot \<Rightarrow> region_kind \<times> usize \<Rightarrow> str list \<times> str \<times> str" where
  "region_entry rx snapshot key =
     (let lines = extract_region (fst key) (snd key) snapshot; txt = join_lines lines in (lines, txt, to_lowercase rx txt))"

definition entry_context :: "screen_snapshot \<Rightarrow> str list \<times> str \<times> str \<Rightarrow> predicate_context" where
  "entry_context snapshot entry =
     \<lparr>pc_text = fst (snd entry), pc_text_lower = snd (snd entry), pc_lines = fst entry,
      pc_progress_state = sn_osc_progress_state snapshot\<rparr>"

fun find_winner :: "regex_fns \<Rightarrow> screen_snapshot \<Rightarrow> region_cache \<Rightarrow> rule list \<Rightarrow> rule option" where
  "find_winner rx snapshot cache [] = None"
| "find_winner rx snapshot cache (r # rs) =
     (let key = (rule_region r, rule_region_lines r);
          entry = (case cache key of Some e \<Rightarrow> e | None \<Rightarrow> region_entry rx snapshot key)
      in if predicate_evaluate rx (entry_context snapshot entry) (rule_when r) then Some r
         else find_winner rx snapshot (cache(key \<mapsto> entry)) rs)"

definition capture_of :: "rule \<Rightarrow> (region_kind \<times> usize \<times> usize) option" where
  "capture_of r =
     (case rule_capture r of
        Some c \<Rightarrow> Some (cap_region c, cap_region_lines c, cap_max_chars c)
      | None \<Rightarrow> if is_blocker r then Some (PromptBoxBody, 5, 400) else None)"

definition observe :: "regex_fns \<Rightarrow> screen_snapshot \<Rightarrow> rule \<Rightarrow> screen_observation" where
  "observe rx snapshot r =
     (let (excerpt, options) =
        (case capture_of r of
           None \<Rightarrow> (None, None)
         | Some (region, region_lines, max_chars) \<Rightarrow>
             let lines = extract_region region region_lines snapshot;
                 joined = join_lines lines;
                 found = numbered_options rx lines
             in (if joined \<noteq> [] then Some (take max_chars (redact rx joined)) else None,
                 if is_blocker r \<and> found \<noteq> [] then Some found else None))
      in \<lparr>obs_state = rule_state r, obs_matched_rule_id = rule_id r, obs_priority = rule_priority r,
          obs_content_seq = sn_content_seq snapshot, obs_prompt_excerpt = excerpt, obs_options = options\<rparr>)"

definition evaluate :: "regex_fns \<Rightarrow> manifest_engine \<Rightarrow> screen_snapshot \<Rightarrow> str \<Rightarrow> screen_observation option" where
  "evaluate rx engine snapshot manifest_id =
     Option.bind (me_manifests engine manifest_id) (\<lambda>m.
       map_option (observe rx snapshot) (find_winner rx snapshot Map.empty (mf_rules m)))"

section \<open>The winning rule\<close>

definition rule_matches :: "regex_fns \<Rightarrow> screen_snapshot \<Rightarrow> rule \<Rightarrow> bool" where
  "rule_matches rx snapshot r =
     predicate_evaluate rx (entry_context snapshot (region_entry rx snapshot (rule_region r, rule_region_lines r))) (rule_when r)"

text \<open>The cache is transparent: it only ever holds what would be computed.\<close>

lemma find_winner_find:
  assumes "\<And>key e. cache key = Some e \<Longrightarrow> e = region_entry rx snapshot key"
  shows "find_winner rx snapshot cache rs = find (rule_matches rx snapshot) rs"
  using assms
proof (induction rs arbitrary: cache)
  case (Cons r rs)
  let ?key = "(rule_region r, rule_region_lines r)"
  have entry: "(case cache ?key of Some e \<Rightarrow> e | None \<Rightarrow> region_entry rx snapshot ?key) = region_entry rx snapshot ?key"
    using Cons.prems by (auto split: option.split)
  have "find_winner rx snapshot (cache(?key \<mapsto> region_entry rx snapshot ?key)) rs = find (rule_matches rx snapshot) rs"
    using Cons.prems by (intro Cons.IH) (auto split: if_splits)
  then show ?case
    by (simp add: entry Let_def rule_matches_def [of _ _ r])
qed simp

lemma find_filter: "find P xs = (case filter P xs of [] \<Rightarrow> None | x # _ \<Rightarrow> Some x)"
  by (induction xs) auto

lemma find_sort_key:
  assumes "find P (sort_key f xs) = Some w"
  shows "find (\<lambda>y. P y \<and> f y = f w) xs = Some w \<and> (\<forall>y \<in> set xs. P y \<longrightarrow> f w \<le> f y)"
proof -
  obtain rest where w: "sort_key f (filter P xs) = w # rest"
    using assms by (auto simp: find_filter filter_sort split: list.splits)
  then have "sorted (map f (w # rest))"
    by (metis sorted_sort_key)
  moreover have "set (w # rest) = set (filter P xs)"
    using w by (metis set_sort)
  ultimately have least: "\<forall>y \<in> set xs. P y \<longrightarrow> f w \<le> f y"
    by fastforce
  have "filter (\<lambda>y. f y = f w) (filter P xs) = w # filter (\<lambda>y. f y = f w) rest"
    using sort_key_stable [of f "f w" "filter P xs"] w by simp
  then show ?thesis
    using least by (simp add: find_filter conj_commute)
qed

section \<open>Prompt boxes\<close>

lemma box_start_spec:
  assumes "is_box_line (lines ! i)" "s = box_start lines i"
  shows "s \<le> i \<and> (\<forall>k. s \<le> k \<and> k \<le> i \<longrightarrow> is_box_line (lines ! k)) \<and> (s = 0 \<or> \<not> is_box_line (lines ! (s - 1)))"
  using assms
proof (induction i arbitrary: s)
  case (Suc i)
  then show ?case
    by (cases "is_box_line (lines ! i)") (auto simp: le_Suc_eq)
qed auto

lemma box_end_spec:
  assumes "is_box_line (lines ! i)" "e = box_end lines i" "i < length lines"
  shows "i \<le> e \<and> e < length lines \<and> (\<forall>k. i \<le> k \<and> k \<le> e \<longrightarrow> is_box_line (lines ! k)) \<and>
    (e + 1 = length lines \<or> \<not> is_box_line (lines ! (e + 1)))"
  using assms
proof (induction lines i arbitrary: e rule: box_end.induct)
  case (1 lines i)
  show ?case
  proof (cases "i + 1 < length lines \<and> is_box_line (lines ! (i + 1))")
    case True
    then have "e = box_end lines (i + 1)"
      using 1(3) by (simp add: box_end.simps [of lines i])
    then have "i + 1 \<le> e \<and> e < length lines \<and> (\<forall>k. i + 1 \<le> k \<and> k \<le> e \<longrightarrow> is_box_line (lines ! k)) \<and>
        (e + 1 = length lines \<or> \<not> is_box_line (lines ! (e + 1)))"
      using 1(1) True by blast
    then show ?thesis
      using 1(2) by (metis Suc_eq_plus1 Suc_leD le_antisym not_less_eq_eq)
  next
    case False
    then show ?thesis
      using 1(2-) by (auto simp: box_end.simps [of lines i] le_antisym)
  qed
qed

lemma dropWhile_hd: "dropWhile P xs \<noteq> [] \<Longrightarrow> \<not> P (hd (dropWhile P xs))"
  by (induction xs) auto

lemma strip_box_clean:
  assumes "strip_box line = Some inner"
  shows "\<not> is_blank inner \<and> inner \<noteq> [] \<and> \<not> is_border (hd inner) \<and> \<not> is_border (last inner)"
proof -
  define mid where "mid = dropWhile is_border (trim line)"
  have inner: "inner = rev (dropWhile is_border (rev mid))" "trim inner \<noteq> []"
    using assms by (auto simp: strip_box_def mid_def trim_end_matches_def trim_start_matches_def Let_def split: if_splits)
  have "trim [] = []"
    by (simp add: trim_def trim_end_matches_def trim_start_matches_def)
  then have ne: "inner \<noteq> []"
    using inner(2) by metis
  then have "\<not> is_border (last inner)"
    using dropWhile_hd [of is_border "rev mid"] by (simp add: inner(1) last_rev)
  moreover have "\<not> is_border (hd inner)"
  proof -
    obtain ys where "mid = inner @ ys"
      using takeWhile_dropWhile_id [of is_border "rev mid"] inner(1) by (metis rev_append rev_rev_ident)
    then have "hd inner = hd mid" "mid \<noteq> []"
      using ne by auto
    then show ?thesis
      using dropWhile_hd [of is_border "trim line"] by (simp add: mid_def)
  qed
  ultimately show ?thesis
    using inner(2) ne by (simp add: is_blank_def)
qed

section \<open>Properties\<close>

text \<open>
  Claim C37. Which rule decides. With the rules sorted at load, the first match found with the cache of
  region texts is the reference choice over the rules as the file has them: no verdict exactly when
  no rule matches, and otherwise the verdict of the matching rule of the highest priority, the
  earliest in the file among equals.
\<close>

theorem verdict_of_highest_priority:
  assumes "me_manifests engine mid = Some m" "mf_rules m = rules_by_priority file"
  shows "case evaluate rx engine snapshot mid of
      None \<Rightarrow> \<forall>i < length file. \<not> rule_matches rx snapshot (file ! i)
    | Some v \<Rightarrow> \<exists>i < length file. rule_matches rx snapshot (file ! i) \<and> v = observe rx snapshot (file ! i) \<and>
        (\<forall>k < length file. rule_matches rx snapshot (file ! k) \<longrightarrow>
           rule_priority (file ! k) < rule_priority (file ! i) \<or> rule_priority (file ! k) = rule_priority (file ! i) \<and> i \<le> k)"
proof -
  let ?P = "rule_matches rx snapshot"
  have ev: "evaluate rx engine snapshot mid = map_option (observe rx snapshot) (find ?P (rules_by_priority file))"
    using assms find_winner_find [of Map.empty rx snapshot] by (simp add: evaluate_def)
  show ?thesis
  proof (cases "find ?P (rules_by_priority file)")
    case None
    then have "\<forall>r \<in> set file. \<not> ?P r"
      by (auto simp: find_None_iff rules_by_priority_def)
    then show ?thesis
      by (simp add: ev None)
  next
    case (Some w)
    obtain i where i: "i < length file" "?P (file ! i)" "w = file ! i"
      and first: "\<forall>k < i. \<not> (?P (file ! k) \<and> rule_priority (file ! k) = rule_priority w)"
      and least: "\<forall>y \<in> set file. ?P y \<longrightarrow> rule_priority y \<le> rule_priority w"
      using find_sort_key [OF Some [unfolded rules_by_priority_def]] by (auto simp: find_Some_iff)
    have "rule_priority (file ! k) < rule_priority w \<or> rule_priority (file ! k) = rule_priority w \<and> i \<le> k"
      if "k < length file" "?P (file ! k)" for k
      using first least that by (metis le_neq_trans not_le nth_mem order_le_less)
    then show ?thesis
      using i by (auto simp: ev Some)
  qed
qed

text \<open>
  The prompt box. When a screen has a vertical bar, the body is cut from the whole box around
  the lowest bar: the lines from \<open>s\<close> to \<open>e\<close> are all box lines, the lines next to them are not, and no
  bar lies below; and what is returned of them is neither blank nor fringed by border glyphs.
\<close>

theorem prompt_box_is_the_bottom_box:
  assumes "i < length lines" "9474 \<in> set (lines ! i)"
  shows "\<exists>s e. s \<le> e \<and> e < length lines \<and> (\<forall>k. s \<le> k \<and> k \<le> e \<longrightarrow> is_box_line (lines ! k)) \<and>
    (s = 0 \<or> \<not> is_box_line (lines ! (s - 1))) \<and> (e + 1 = length lines \<or> \<not> is_box_line (lines ! (e + 1))) \<and>
    i \<le> e \<and> (\<forall>k. e < k \<and> k < length lines \<longrightarrow> 9474 \<notin> set (lines ! k)) \<and>
    prompt_box_body lines = List.map_filter strip_box (segment lines s (e + 1)) \<and>
    (\<forall>t \<in> set (prompt_box_body lines). \<not> is_blank t \<and> \<not> is_border (hd t) \<and> \<not> is_border (last t))"
proof -
  obtain b where b: "rposition (\<lambda>line. 9474 \<in> set line) lines = Some b"
    using assms rposition_None [of "\<lambda>line. 9474 \<in> set line" lines]
    by (cases "rposition (\<lambda>line. 9474 \<in> set line) lines") (auto simp: list_ex_length)
  have bar: "b < length lines" "9474 \<in> set (lines ! b)" "\<forall>k. b < k \<and> k < length lines \<longrightarrow> 9474 \<notin> set (lines ! k)"
    using rposition_Some [OF b] by auto
  then have box: "is_box_line (lines ! b)"
    by (auto simp: is_box_line_def list_ex_iff is_border_def BORDER_CHARS_def)
  define s e where "s = box_start lines b" and "e = box_end lines b"
  note s = box_start_spec [OF box s_def] and e = box_end_spec [OF box e_def bar(1)]
  have body: "prompt_box_body lines = List.map_filter strip_box (segment lines s (e + 1))"
    by (simp add: prompt_box_body_def b s_def e_def)
  have "\<not> is_blank t \<and> \<not> is_border (hd t) \<and> \<not> is_border (last t)" if "t \<in> set (prompt_box_body lines)" for t
    using that strip_box_clean by (fastforce simp: body map_filter_def)
  moreover have "i \<le> b"
    using bar(3) assms by (metis not_le)
  moreover have "is_box_line (lines ! k)" if "s \<le> k" "k \<le> e" for k
    using s e that by (metis nle_le)
  ultimately show ?thesis
    using s e body bar(3) by (intro exI [of _ s] exI [of _ e]) auto
qed

section \<open>Catalogs\<close>

definition dir_entries :: "manifest_dir \<Rightarrow> (manifest \<times> json_value option) list" where
  "dir_entries d = List.map_filter snd (sort_key fst d)"

definition present :: "manifest_dir option list \<Rightarrow> manifest_dir list" where
  "present dirs = List.map_filter id dirs"

definition catalog :: "manifest_dir option list \<Rightarrow> (manifest \<times> json_value option) list" where
  "catalog dirs = concat (map dir_entries (present dirs))"

definition agents_of :: "(manifest \<times> json_value option) list \<Rightarrow> (str \<times> json_value) list" where
  "agents_of es = List.map_filter (\<lambda>(m, agent). map_option (Pair (mf_id m)) agent) es"

definition engine_of :: "(manifest \<times> json_value option) list \<Rightarrow> manifest_engine" where
  "engine_of es = \<lparr>me_manifests = map_of (rev (map (\<lambda>(m, _). (mf_id m, m)) es)), me_raw_agents = map_of (rev (agents_of es))\<rparr>"

lemma present_simps [simp]:
  "present [] = []" "present (None # dirs) = present dirs" "present (Some d # dirs) = d # present dirs"
  by (simp_all add: present_def)

lemma agents_of_append [simp]: "agents_of (xs @ ys) = agents_of xs @ agents_of ys"
  by (simp add: agents_of_def map_filter_def)

lemma engine_of_append: "engine_of (xs @ ys) = engine_extend (engine_of xs) (engine_of ys)"
  by (simp add: engine_of_def engine_extend_def)

lemma engine_extend_Nil [simp]: "engine_extend (engine_of []) e = e" "engine_extend e (engine_of []) = e"
  by (simp_all add: engine_of_def engine_extend_def agents_of_def)

lemma load_entries_eq:
  "load_entries es ms failed raws =
     (ms @ map fst (List.map_filter snd es), failed @ map fst (filter (\<lambda>e. snd e = None) es),
      raws ++ map_of (rev (agents_of (List.map_filter snd es))))"
proof (induction es ms failed raws rule: load_entries.induct)
  case (2 name m agent entries ms failed raws)
  have c: "List.map_filter snd ((name, Some (m, agent)) # entries) = (m, agent) # List.map_filter snd entries"
    by simp
  have "agents_of ((m, agent) # es) = (case agent of None \<Rightarrow> [] | Some raw \<Rightarrow> [(mf_id m, raw)]) @ agents_of es" for es
    by (simp add: agents_of_def split: option.split)
  then show ?case
    unfolding c load_entries.simps 2 by (cases agent) simp_all
qed (simp_all add: agents_of_def)

lemma load_dir_eq:
  "load_dir d = (engine_of (dir_entries d), map fst (filter (\<lambda>e. snd e = None) (sort_key fst d)))"
  by (simp add: load_dir_def load_entries_eq engine_new_def engine_of_def dir_entries_def Let_def rev_map [symmetric]
      case_prod_unfold comp_def)

lemma merge_dirs_eq:
  "merge_dirs merged failed dirs =
     (if present dirs = [] then merged
      else Some (engine_extend (case merged of None \<Rightarrow> engine_of [] | Some base \<Rightarrow> base) (engine_of (catalog dirs))),
      failed @ concat (map (snd \<circ> load_dir) (present dirs)))"
proof (induction merged failed dirs rule: merge_dirs.induct)
  case (3 merged failed d dirs)
  have assoc: "engine_extend (engine_extend a b) c = engine_extend a (engine_extend b c)" for a b c
    by (simp add: engine_extend_def)
  show ?case
    using 3 [OF load_dir_eq [of d, symmetric]]
    by (cases merged) (simp_all add: load_dir_eq catalog_def engine_of_append assoc)
qed (simp_all add: catalog_def)

lemma map_of_rev_find:
  "map_of (rev (map (\<lambda>x. (f x, g x)) xs)) k = map_option g (find (\<lambda>x. f x = k) (rev xs))"
proof -
  have "map_of (map (\<lambda>x. (f x, g x)) ys) k = map_option g (find (\<lambda>x. f x = k) ys)" for ys
    by (induction ys) auto
  then show ?thesis
    by (simp add: rev_map)
qed

lemma load_dirs_engine: "fst (load_dirs dirs) = engine_of (catalog dirs)"
proof (cases "present dirs = []")
  case True
  then show ?thesis
    by (simp add: load_dirs_def merge_dirs_eq catalog_def engine_new_def engine_of_def agents_of_def)
qed (simp add: load_dirs_def merge_dirs_eq)

lemma find_agents_of:
  "find (\<lambda>a. fst a = k) (rev (agents_of es)) = Option.bind (find (\<lambda>(m, agent). mf_id m = k \<and> agent \<noteq> None) (rev es))
     (\<lambda>(m, agent). map_option (Pair (mf_id m)) agent)"
proof -
  have "find (\<lambda>a. fst a = k) (agents_of xs) = Option.bind (find (\<lambda>(m, agent). mf_id m = k \<and> agent \<noteq> None) xs)
     (\<lambda>(m, agent). map_option (Pair (mf_id m)) agent)" for xs
    by (induction xs) (auto simp: agents_of_def split: option.splits)
  moreover have "rev (agents_of es) = agents_of (rev es)"
    by (simp add: agents_of_def map_filter_def rev_map rev_filter)
  ultimately show ?thesis
    by simp
qed

text \<open>
  Overrides. Looking an agent up after loading several catalogs gives its last manifest, in
  the order of the directories and of the file names within each, whichever directories are
  missing; the descriptor handed to clients is that of its last manifest that has one; a file that
  does not decode takes nothing else with it and is reported.
\<close>

theorem later_catalogs_override:
  "me_manifests (fst (load_dirs dirs)) mid = map_option fst (find (\<lambda>e. mf_id (fst e) = mid) (rev (catalog dirs)))
   \<and> raw_agent (fst (load_dirs dirs)) mid
     = Option.bind (find (\<lambda>(m, agent). mf_id m = mid \<and> agent \<noteq> None) (rev (catalog dirs))) snd
   \<and> set (snd (load_dirs dirs)) = {name. \<exists>d \<in> set (present dirs). (name, None) \<in> set d}"
proof (intro conjI)
  show "me_manifests (fst (load_dirs dirs)) mid = map_option fst (find (\<lambda>e. mf_id (fst e) = mid) (rev (catalog dirs)))"
    by (simp add: load_dirs_engine engine_of_def case_prod_unfold map_of_rev_find)
  have "map_of (rev xs) mid = map_option snd (find (\<lambda>a. fst a = mid) (rev xs))" for xs :: "(str \<times> json_value) list"
    using map_of_rev_find [of fst snd xs] by simp
  then show "raw_agent (fst (load_dirs dirs)) mid
     = Option.bind (find (\<lambda>(m, agent). mf_id m = mid \<and> agent \<noteq> None) (rev (catalog dirs))) snd"
    by (auto simp: raw_agent_def load_dirs_engine engine_of_def find_agents_of option.map_comp comp_def option.map_ident split: Option.bind_split)
  show "set (snd (load_dirs dirs)) = {name. \<exists>d \<in> set (present dirs). (name, None) \<in> set d}"
    by (force simp: load_dirs_def merge_dirs_eq load_dir_eq)
qed

text \<open>
  So an override without an \<open>agent\<close> object leaves clients with the descriptor of the catalog it
  overrides, although the manifest in force has none.
\<close>

theorem overridden_descriptor_survives:
  assumes "mf_id base = mid" "mf_id override = mid"
  shows "me_manifests (fst (load_dirs [Some [(f, Some (base, Some raw))], Some [(g, Some (override, None))]])) mid = Some override
    \<and> raw_agent (fst (load_dirs [Some [(f, Some (base, Some raw))], Some [(g, Some (override, None))]])) mid = Some raw"
  using assms by (simp add: load_dirs_engine raw_agent_def engine_of_def catalog_def dir_entries_def agents_of_def)

section \<open>Predicates in JSON and back\<close>

fun write_predicate :: "predicate \<Rightarrow> json_value" where
  "write_predicate (Contains needle) = JObject [(lit ''contains'', JString needle)]"
| "write_predicate (Regex p) = JObject [(lit ''regex'', JString p)]"
| "write_predicate (LineRegex p) = JObject [(lit ''lineRegex'', JString p)]"
| "write_predicate (Progress n) = JObject [(lit ''progress'', JObject [(lit ''state'', JNumber n)])]"
| "write_predicate (AnyOf ps) = JObject [(lit ''any'', JArray (map write_predicate ps))]"
| "write_predicate (AllOf ps) = JObject [(lit ''all'', JArray (map write_predicate ps))]"
| "write_predicate (Negated p) = JObject [(lit ''not'', write_predicate p)]"

fun loadable :: "regex_fns \<Rightarrow> predicate \<Rightarrow> bool" where
  "loadable rx (Contains needle) = (to_lowercase rx needle = needle)"
| "loadable rx (Regex p) = regex_new rx p"
| "loadable rx (LineRegex p) = regex_new rx p"
| "loadable rx (Progress n) = True"
| "loadable rx (AnyOf ps) = list_all (loadable rx) ps"
| "loadable rx (AllOf ps) = list_all (loadable rx) ps"
| "loadable rx (Negated p) = loadable rx p"

lemmas key_defs = lit_def

lemma read_write_predicate: "loadable rx p \<Longrightarrow> read_predicate rx (write_predicate p) = Some p"
proof (induction p)
  case (AnyOf ps)
  then have "read_predicates rx (map write_predicate ps) = Some ps"
    by (induction ps) auto
  then show ?case
    by (simp add: key_defs)
next
  case (AllOf ps)
  then have "read_predicates rx (map write_predicate ps) = Some ps"
    by (induction ps) auto
  then show ?case
    by (simp add: key_defs)
qed (auto simp: key_defs compile_def progress_spec_def)

lemma case_option_Some: "(case x of None \<Rightarrow> None | Some p \<Rightarrow> f p) = Some q \<Longrightarrow> \<exists>p. f p = Some q"
  by (cases x) auto

lemma visit_map_step:
  assumes "visit_map rx found (kv # kvs) = Some q"
  shows "\<exists>p. visit_map rx (Some p) kvs = Some q"
proof (cases kv)
  case (Pair key v)
  show ?thesis
    by (rule case_option_Some [OF assms [unfolded Pair visit_map.simps]])
qed

lemma visit_map_last:
  "visit_map rx found (kvs @ [(k, v)]) = Some q \<Longrightarrow> visit_map rx None [(k, v)] = Some q"
proof (induction kvs arbitrary: found)
  case Nil
  then show ?case
    by (simp only: append_Nil visit_map.simps)
next
  case (Cons kv kvs)
  then show ?case
    using visit_map_step [of rx found kv "kvs @ [(k, v)]" q] by (metis append_Cons)
qed

text \<open>
  Rules survive storage: a predicate whose patterns compile and whose needles are in lower
  case, written as the JSON object the rule files use, reads back as the same predicate; and of an
  object with several keys only the last counts, the others being dropped without an error.
\<close>

theorem predicate_roundtrip:
  assumes "loadable rx p"
  shows "read_predicate rx (write_predicate p) = Some p
    \<and> (\<forall>kvs k v q. read_predicate rx (JObject (kvs @ [(k, v)])) = Some q \<longrightarrow> read_predicate rx (JObject [(k, v)]) = Some q)"
  using read_write_predicate [OF assms] visit_map_last by (metis read_predicate.simps(1))

section \<open>Examples\<close>

text \<open>Patterns that match everything, and a screen with a prompt in a box.\<close>

definition plain_regex :: regex_fns where
  "plain_regex = \<lparr>regex_new = \<lambda>_. True, is_match = \<lambda>p t. text_contains p t, captures_get = \<lambda>_ _ _. None,
     replace_all = \<lambda>_ _ t. t, to_lowercase = id\<rparr>"

definition boxed_screen :: screen_snapshot where
  "boxed_screen = \<lparr>sn_lines = [[97], [9581, 9472, 9582], [9474, 32, 98, 32, 9474], [9584, 9472, 9583]], sn_osc_title = None,
     sn_osc_progress_state = Some 1, sn_content_seq = 3\<rparr>"

definition sample_rule :: "str \<Rightarrow> int \<Rightarrow> manifest_state \<Rightarrow> rule" where
  "sample_rule name prio mst = \<lparr>rule_id = name, rule_state = mst, rule_priority = prio, rule_region = OscProgress,
     rule_region_lines = 5, rule_when = Negated (Contains [120]), rule_flags = [], rule_capture = None\<rparr>"

definition sample_rules :: "rule list" where
  "sample_rules = [sample_rule [49] 1 MIdle, sample_rule [50] 9 BlockedQuestion, sample_rule [51] 9 MWorking]"

definition sample_manifest :: manifest where
  "sample_manifest = \<lparr>mf_schema_version = 1, mf_id = lit ''m'', mf_version = lit ''1'', mf_status_model = Full, mf_agent = None,
     mf_rules = rules_by_priority sample_rules\<rparr>"

theorem verdict_of_highest_priority_witness:
  "\<exists>v. evaluate plain_regex (engine_new [sample_manifest]) boxed_screen (lit ''m'') = Some v \<and> obs_matched_rule_id v = [50]"
proof -
  have m: "rule_matches plain_regex boxed_screen (sample_rules ! i)" if "i < 3" for i
    using that
    by (auto simp: less_Suc_eq numeral_3_eq_3 sample_rules_def sample_rule_def rule_matches_def region_entry_def
        extract_region_def entry_context_def plain_regex_def)
  have len: "length sample_rules = 3"
    by (simp add: sample_rules_def)
  have "me_manifests (engine_new [sample_manifest]) (lit ''m'') = Some sample_manifest"
    by (simp add: engine_new_def sample_manifest_def)
  note v = verdict_of_highest_priority [of "engine_new [sample_manifest]" "lit ''m''", OF this, of sample_rules plain_regex boxed_screen]
  have all: "\<forall>i < 3. rule_matches plain_regex boxed_screen (sample_rules ! i)"
    using m by blast
  have rules: "mf_rules sample_manifest = rules_by_priority sample_rules"
    by (simp add: sample_manifest_def)
  have "\<not> (\<forall>i < 3. \<not> rule_matches plain_regex boxed_screen (sample_rules ! i))"
    using m [of 0] by fastforce
  then obtain v i where v: "evaluate plain_regex (engine_new [sample_manifest]) boxed_screen (lit ''m'') = Some v" "i < 3"
    "v = observe plain_regex boxed_screen (sample_rules ! i)"
    "\<forall>k < 3. rule_priority (sample_rules ! k) < rule_priority (sample_rules ! i) \<or>
       rule_priority (sample_rules ! k) = rule_priority (sample_rules ! i) \<and> i \<le> k"
    using v [OF rules] all unfolding len
    by (cases "evaluate plain_regex (engine_new [sample_manifest]) boxed_screen (lit ''m'')")
      (simp_all only: option.case, blast+)
  have "i = 1"
    using v(2) v(4) [rule_format, of 1]
    by (auto simp: less_Suc_eq numeral_3_eq_3 sample_rules_def sample_rule_def)
  then have "obs_matched_rule_id v = [50]"
    using v(3) by (simp add: observe_def sample_rules_def sample_rule_def Let_def split: prod.split)
  then show ?thesis
    using v(1) by blast
qed

theorem prompt_box_is_the_bottom_box_witness:
  "prompt_box_body (sn_lines boxed_screen) = [[32, 98, 32]] \<and>
   (\<exists>s e. s \<le> e \<and> e < 4 \<and> prompt_box_body (sn_lines boxed_screen) = List.map_filter strip_box (segment (sn_lines boxed_screen) s (e + 1)))"
proof -
  have "prompt_box_body (sn_lines boxed_screen) = [[32, 98, 32]]"
    by (simp add: boxed_screen_def prompt_box_body_def box_end.simps numeral_2_eq_2 numeral_3_eq_3 is_box_line_def is_border_def
        BORDER_CHARS_def segment_def strip_box_def trim_def trim_end_matches_def trim_start_matches_def is_whitespace_def
        map_filter_simps)
  moreover have "2 < length (sn_lines boxed_screen)" "9474 \<in> set (sn_lines boxed_screen ! 2)" "length (sn_lines boxed_screen) = 4"
    by (simp_all add: boxed_screen_def)
  ultimately show ?thesis
    using prompt_box_is_the_bottom_box [of 2 "sn_lines boxed_screen"] by metis
qed

theorem predicate_roundtrip_witness:
  "read_predicate plain_regex (write_predicate (AllOf [Contains [120], Negated (Progress 3)])) = Some (AllOf [Contains [120], Negated (Progress 3)])"
  using predicate_roundtrip [of plain_regex "AllOf [Contains [120], Negated (Progress 3)]"] by (simp add: plain_regex_def)

end
