(* ===== verification/Session_Record.thy ===== *)
theory Session_Record
  imports Detect Remote_Types
begin

text \<open>
  The record of a session (\<^verbatim>\<open>homie-proto/src/model.rs\<close>) and the folds that bring what a live session shows
  into it (\<^verbatim>\<open>homie-engine/src/registry/persisted.rs\<close>). Which characters are alphanumeric is a parameter.
  Shown: a title taken from a terminal is clean, and repairing the titles of a state file twice is
  repairing them once.
\<close>

section \<open>Records\<close>

record agent_kind =
  kind_id :: str
  kind_command :: "str option"

definition builtin_kind :: "str \<Rightarrow> agent_kind" where
  "builtin_kind k = \<lparr>kind_id = k, kind_command = None\<rparr>"

definition KIND_CLAUDE_CODE :: agent_kind where "KIND_CLAUDE_CODE = builtin_kind (lit ''claude-code'')"
definition KIND_SHELL :: agent_kind where "KIND_SHELL = builtin_kind (lit ''shell'')"

datatype resumability = Live | Resumable | TranscriptMissing | NotResumable | UnknownResumability

datatype title_source = Placeholder | FirstPrompt | AgentProvided | HomieAssigned | UserRename | UnknownTitle

datatype hibernation_reason = HibernatedIdle | MemoryPressure | HibernatedManually | UnknownHibernation

record hibernation_info =
  hib_since :: date_millis
  hib_reason :: hibernation_reason
  hib_tree_pids :: "int list"
  hib_tree_start_times :: "(int \<times> int) list option"

datatype artifact_kind = PullRequest | LinearIssue | Preview | Link | UnknownArtifact

record session_artifact =
  art_kind :: artifact_kind
  art_url :: str
  art_first_seen_at :: date_millis

record port_info =
  port_port :: int
  port_process_name :: str

record pr_check =
  check_name :: str
  check_result :: str
  check_detail :: "str option"
  check_url :: "str option"

record pr_discussion_item =
  item_kind :: str
  item_author :: str
  item_body :: str
  item_state :: "str option"
  item_created_at :: "date_millis option"
  item_url :: "str option"

record pull_request_status =
  pr_url :: str
  pr_number :: int
  pr_title :: "str option"
  pr_author :: "str option"
  pr_body :: "str option"
  pr_base_ref_name :: "str option"
  pr_head_ref_name :: "str option"
  pr_state :: str
  pr_is_draft :: bool
  pr_review_decision :: "str option"
  pr_mergeable :: "str option"
  pr_merge_state_status :: "str option"
  pr_additions :: int
  pr_deletions :: int
  pr_changed_files :: int
  pr_comment_count :: int
  pr_review_count :: int
  pr_resolved_threads :: "int option"
  pr_total_threads :: "int option"
  pr_checks_passed :: int
  pr_checks_failed :: int
  pr_checks_pending :: int
  pr_checks :: "pr_check list option"
  pr_discussion :: "pr_discussion_item list option"
  pr_fetched_at :: date_millis

record session_record =
  sr_id :: str
  sr_kind :: agent_kind
  sr_cwd :: str
  sr_project_id :: str
  sr_worktree_path :: "str option"
  sr_git_branch :: "str option"
  sr_title :: str
  sr_title_source :: title_source
  sr_agent_session_id :: "str option"
  sr_transcript_path :: "str option"
  sr_status :: session_status
  sr_needs_input :: "needs_input_detail option"
  sr_resumability :: resumability
  sr_parent :: "str option"
  sr_created_at :: date_millis
  sr_updated_at :: date_millis
  sr_last_turn_completed_at :: "date_millis option"
  sr_last_seen_at :: "date_millis option"
  sr_pinned :: bool
  sr_archived_at :: "date_millis option"
  sr_host :: "str option"
  sr_remote_persistence :: "persistence_capability option"
  sr_hibernation :: "hibernation_info option"
  sr_memory_bytes :: "nat option"
  sr_artifacts :: "session_artifact list option"
  sr_pull_requests :: "pull_request_status list option"
  sr_listening_ports :: "port_info list option"
  sr_foreground_agent :: "agent_kind option"

text \<open>What a live session shows.\<close>

record session_view =
  sv_id :: str
  sv_status :: session_status
  sv_needs_input :: "needs_input_detail option"
  sv_title :: "str option"
  sv_title_source :: "title_source option"
  sv_tail_offset :: nat
  sv_exited :: bool

section \<open>Folding a view into a record\<close>

definition fold_session_status :: "session_view \<Rightarrow> session_record \<Rightarrow> session_record" where
  "fold_session_status view r = r\<lparr>sr_status := sv_status view, sr_needs_input := sv_needs_input view\<rparr>"

definition title_noise :: "(nat \<Rightarrow> bool) \<Rightarrow> nat \<Rightarrow> bool" where
  "title_noise alnum c \<longleftrightarrow> is_whitespace c \<or> \<not> alnum c \<and> c \<noteq> 95"

definition normalize_agent_title :: "(nat \<Rightarrow> bool) \<Rightarrow> str \<Rightarrow> str option" where
  "normalize_agent_title alnum title =
     Option.bind (find (\<lambda>line. line \<noteq> []) (map trim (text_lines title))) (\<lambda>line.
       let line = trim_start_matches (title_noise alnum) line;
           normalized = trim (take 160 (filter (\<lambda>c. \<not> is_control c) line))
       in if normalized \<noteq> [] then Some normalized else None)"

definition GENERIC_TITLES :: "str list" where
  "GENERIC_TITLES = map lit [''claude'', ''claudecode'', ''codex'', ''cursor'', ''gemini'', ''terminal'', ''shell'']"

definition is_generic_terminal_title :: "(nat \<Rightarrow> bool) \<Rightarrow> str \<Rightarrow> session_record \<Rightarrow> bool" where
  "is_generic_terminal_title alnum title r \<longleftrightarrow>
     (let title = map ascii_lower (trim title);
          compact_title = filter alnum title;
          cwd = map ascii_lower (trim_end_matches (\<lambda>c. c = 47) (sr_cwd r));
          directory = last (split_on 47 cwd)
      in title = cwd \<or> title = directory \<or> compact_title \<in> set GENERIC_TITLES)"

definition terminal_title :: "(nat \<Rightarrow> bool) \<Rightarrow> str \<Rightarrow> session_record \<Rightarrow> str option" where
  "terminal_title alnum title r =
     Option.bind (normalize_agent_title alnum title) (\<lambda>t. if is_generic_terminal_title alnum t r then None else Some t)"

definition fold_session_view :: "(nat \<Rightarrow> bool) \<Rightarrow> session_view \<Rightarrow> session_record \<Rightarrow> session_record" where
  "fold_session_view alnum view r =
     (let r = fold_session_status view r
      in if sr_kind r = KIND_SHELL \<or> sr_title_source r \<in> {AgentProvided, HomieAssigned, UserRename} then r
         else case Option.bind (sv_title view) (\<lambda>t. terminal_title alnum t r) of
           None \<Rightarrow> r
         | Some title \<Rightarrow> r\<lparr>sr_title := title,
             sr_title_source := (case sv_title_source view of Some s \<Rightarrow> s | None \<Rightarrow> AgentProvided)\<rparr>)"

definition repair_persisted_agent_title :: "(nat \<Rightarrow> bool) \<Rightarrow> session_record \<Rightarrow> bool \<times> session_record" where
  "repair_persisted_agent_title alnum r =
     (if sr_title_source r \<noteq> AgentProvided then (False, r)
      else case terminal_title alnum (sr_title r) r of
        Some title \<Rightarrow> if title \<noteq> sr_title r then (True, r\<lparr>sr_title := title\<rparr>) else (False, r)
      | None \<Rightarrow> (True, r\<lparr>sr_title := kind_id (sr_kind r), sr_title_source := Placeholder\<rparr>))"

section \<open>Titles are clean\<close>

text \<open>What Unicode says of the parameter: a letter or digit is neither white space nor a control.\<close>

definition unicode_alnum :: "(nat \<Rightarrow> bool) \<Rightarrow> bool" where
  "unicode_alnum alnum \<longleftrightarrow> (\<forall>c. alnum c \<longrightarrow> \<not> is_whitespace c \<and> \<not> is_control c)"

definition clean_title :: "(nat \<Rightarrow> bool) \<Rightarrow> str \<Rightarrow> bool" where
  "clean_title alnum t \<longleftrightarrow> t \<noteq> [] \<and> length t \<le> 160 \<and> (\<forall>c \<in> set t. \<not> is_control c) \<and>
     (alnum (hd t) \<or> hd t = 95) \<and> \<not> is_whitespace (last t)"

lemma trim_id:
  assumes "s \<noteq> []" "\<not> is_whitespace (hd s)" "\<not> is_whitespace (last s)"
  shows "trim s = s"
proof -
  have "dropWhile is_whitespace s = s"
    using assms by (simp add: dropWhile_eq_self_iff)
  moreover have "dropWhile is_whitespace (rev s) = rev s"
    using assms by (simp add: dropWhile_eq_self_iff hd_rev)
  ultimately show ?thesis
    by (simp add: trim_def trim_start_matches_def trim_end_matches_def)
qed

lemma trim_end_shape:
  "\<exists>ws. s = trim_end_matches P s @ ws \<and> (trim_end_matches P s \<noteq> [] \<longrightarrow> \<not> P (last (trim_end_matches P s)))"
proof -
  have "s = trim_end_matches P s @ rev (takeWhile P (rev s))"
    unfolding trim_end_matches_def by (metis rev_append rev_rev_ident takeWhile_dropWhile_id)
  moreover have "\<not> P (last (trim_end_matches P s))" if "trim_end_matches P s \<noteq> []"
    using that hd_dropWhile [of P "rev s"] by (simp add: trim_end_matches_def last_rev)
  ultimately show ?thesis
    by blast
qed

lemma normalize_clean:
  assumes "unicode_alnum alnum" "normalize_agent_title alnum title = Some t"
  shows "clean_title alnum t"
proof -
  obtain line where line: "t = trim (take 160 (filter (\<lambda>c. \<not> is_control c) (trim_start_matches (title_noise alnum) line)))"
    and t: "t \<noteq> []"
    using assms(2) by (auto simp: normalize_agent_title_def Let_def bind_eq_Some_conv split: if_splits)
  define l where "l = trim_start_matches (title_noise alnum) line"
  define u where "u = take 160 (filter (\<lambda>c. \<not> is_control c) l)"
  have t_u: "t = trim u"
    by (simp add: line l_def u_def)
  then have "l \<noteq> []"
    using t by (auto simp: u_def trim_def trim_start_matches_def trim_end_matches_def)
  then have "\<not> title_noise alnum (hd l)"
    unfolding l_def trim_start_matches_def by (rule hd_dropWhile)
  then have hd_l: "(alnum (hd l) \<or> hd l = 95) \<and> \<not> is_whitespace (hd l) \<and> \<not> is_control (hd l)"
    using assms(1) by (auto simp: title_noise_def unicode_alnum_def is_control_def)
  then have hd_u: "u \<noteq> [] \<and> hd u = hd l"
    using \<open>l \<noteq> []\<close> by (cases l) (auto simp: u_def)
  then have tu: "t = trim_end_matches is_whitespace u"
    using hd_l by (cases u) (auto simp: t_u trim_def trim_start_matches_def)
  obtain ws where ws: "u = t @ ws" "\<not> is_whitespace (last t)"
    using trim_end_shape [of u is_whitespace] t tu by auto
  have "set u \<subseteq> {c. \<not> is_control c}"
    unfolding u_def using set_take_subset [of 160 "filter (\<lambda>c. \<not> is_control c) l"] by auto
  then have "\<forall>c \<in> set t. \<not> is_control c"
    using ws(1) by auto
  moreover have "length u \<le> 160"
    by (simp add: u_def)
  then have "length t \<le> 160"
    using ws(1) by simp
  moreover have "hd t = hd l"
    using hd_u ws(1) t by (metis hd_append2)
  ultimately show ?thesis
    using t hd_l ws(2) by (simp add: clean_title_def)
qed

lemma normalize_of_clean:
  assumes "unicode_alnum alnum" "clean_title alnum t"
  shows "normalize_agent_title alnum t = Some t"
proof -
  have c: "t \<noteq> []" "length t \<le> 160" "\<forall>c \<in> set t. \<not> is_control c" "alnum (hd t) \<or> hd t = 95" "\<not> is_whitespace (last t)"
    using assms(2) by (simp_all add: clean_title_def)
  have "\<not> is_whitespace 95"
    by (simp add: is_whitespace_def)
  then have hd_t: "\<not> is_whitespace (hd t)"
    using assms(1) c(4) unfolding unicode_alnum_def by metis
  have "10 \<notin> set t" "13 \<notin> set t"
    using c(3) by (auto simp: is_control_def)
  moreover then have "last t \<noteq> 13"
    using c(1) by (metis last_in_set)
  ultimately have "text_lines t = [t]"
    using c(1) by (simp add: text_lines_def split_on_single Let_def)
  moreover have "trim t = t"
    using c(1) hd_t c(5) by (rule trim_id)
  moreover have "trim_start_matches (title_noise alnum) t = t"
    using c(1,4) hd_t by (cases t) (auto simp: trim_start_matches_def title_noise_def)
  moreover have "filter (\<lambda>c. \<not> is_control c) t = t"
    using c(3) by (simp add: filter_id_conv)
  ultimately show ?thesis
    using c(1,2) by (simp add: normalize_agent_title_def Let_def)
qed

text \<open>
  Repairing titles. After one repair the title of a record is either not from a terminal or
  clean: not empty, at most 160 characters, without controls, beginning with a letter, a digit or an
  underscore and not ending in a blank; and a second repair changes nothing, so that a restart does
  not rename sessions again.
\<close>

lemma repair_result:
  assumes "unicode_alnum alnum" "repair_persisted_agent_title alnum r = (changed, r')"
  shows "(sr_title_source r' = AgentProvided \<longrightarrow> clean_title alnum (sr_title r') \<and> \<not> is_generic_terminal_title alnum (sr_title r') r')
    \<and> repair_persisted_agent_title alnum r' = (False, r')
    \<and> r' = r\<lparr>sr_title := sr_title r', sr_title_source := sr_title_source r'\<rparr> \<and> (\<not> changed \<longrightarrow> r' = r)"
proof (cases "sr_title_source r = AgentProvided")
  case src: True
  show ?thesis
  proof (cases "terminal_title alnum (sr_title r) r")
    case None
    then have "r' = r\<lparr>sr_title := kind_id (sr_kind r), sr_title_source := Placeholder\<rparr>" "changed"
      using assms(2) src by (simp_all add: repair_persisted_agent_title_def)
    then show ?thesis
      by (simp add: repair_persisted_agent_title_def)
  next
    case (Some t)
    then have n: "normalize_agent_title alnum (sr_title r) = Some t" and g: "\<not> is_generic_terminal_title alnum t r"
      by (auto simp: terminal_title_def bind_eq_Some_conv split: if_splits)
    have r': "r' = r\<lparr>sr_title := t\<rparr>" "\<not> changed \<longrightarrow> r' = r"
      using assms(2) src Some by (auto simp: repair_persisted_agent_title_def split: if_splits)
    have clean: "clean_title alnum t"
      using assms(1) n by (rule normalize_clean)
    have "terminal_title alnum t (r\<lparr>sr_title := t\<rparr>) = Some t"
      using normalize_of_clean [OF assms(1) clean] g by (simp add: terminal_title_def is_generic_terminal_title_def)
    then show ?thesis
      using r' src clean g by (simp add: repair_persisted_agent_title_def is_generic_terminal_title_def)
  qed
next
  case False
  then show ?thesis
    using assms(2) by (auto simp: repair_persisted_agent_title_def)
qed

section \<open>A sample record\<close>

definition sample_session :: "str \<Rightarrow> session_status \<Rightarrow> session_record" where
  "sample_session sid s0 = \<lparr>sr_id = sid, sr_kind = KIND_SHELL, sr_cwd = lit ''/w'', sr_project_id = [], sr_worktree_path = None,
     sr_git_branch = None, sr_title = lit ''t'', sr_title_source = UserRename, sr_agent_session_id = None, sr_transcript_path = None,
     sr_status = s0, sr_needs_input = None, sr_resumability = NotResumable, sr_parent = None, sr_created_at = 0, sr_updated_at = 0,
     sr_last_turn_completed_at = None, sr_last_seen_at = None, sr_pinned = False, sr_archived_at = None, sr_host = None,
     sr_remote_persistence = None, sr_hibernation = None, sr_memory_bytes = None, sr_artifacts = None, sr_pull_requests = None,
     sr_listening_ports = None, sr_foreground_agent = None\<rparr>"

end
