(* ===== verification/Registry.thy ===== *)
theory Registry
  imports Session_Record "HOL-Library.AList"
begin

text \<open>
  The session registry (\<^verbatim>\<open>homie-engine/src/registry.rs\<close> and \<^verbatim>\<open>registry/flusher.rs\<close>): the table of live sessions, the
  records of all sessions, the projects, the stack of closed tabs, and their state file. A HashMap is
  an association list with distinct keys; results that depend on its order are sorted by the source.
  Starting, adopting and ending a process, and the answers of the disk, are inputs; what they do to
  the processes is in \<open>live_session\<close>: \<open>ls_stopped\<close> says whether the process tree is stopped, \<open>ls_written\<close>
  is what its terminal has been given. JSON is a parameter.
\<close>

section \<open>Live sessions\<close>

record live_session =
  ls_view :: session_view
  ls_state_version :: nat
  ls_child_pid :: int
  ls_artifacts :: "session_artifact list"
  ls_deferred :: "bytes option" \<comment> \<open>input queued before the launch\<close>
  ls_hibernated :: bool
  ls_queued_input :: bytes
  ls_written :: bytes
  ls_stopped :: bool

text \<open>\<open>ok\<close>: the transport takes the bytes.\<close>

definition write_raw :: "bool \<Rightarrow> bytes \<Rightarrow> live_session \<Rightarrow> bool \<times> live_session" where
  "write_raw ok bs s =
     (case ls_deferred s of
        Some q \<Rightarrow> (True, s\<lparr>ls_deferred := Some (q @ bs)\<rparr>)
      | None \<Rightarrow>
          if ls_hibernated s then (True, s\<lparr>ls_queued_input := ls_queued_input s @ bs\<rparr>)
          else if ok then (True, s\<lparr>ls_written := ls_written s @ bs\<rparr>)
          else (False, s))"

definition set_hibernated :: "bool \<Rightarrow> bool \<Rightarrow> live_session \<Rightarrow> bool \<times> live_session" where
  "set_hibernated ok hibernated s =
     (let s = s\<lparr>ls_hibernated := hibernated\<rparr>
      in if hibernated then (True, s)
         else let queued = ls_queued_input s; s = s\<lparr>ls_queued_input := []\<rparr>
              in if queued = [] then (True, s) else write_raw ok queued s)"

text \<open>\<open>answer\<close>: the processes signalled with their start times, \<open>None\<close> when the signal could not be sent.\<close>

definition signal_tree :: "(int \<times> int) list option \<Rightarrow> bool \<Rightarrow> live_session \<Rightarrow> (int \<times> int) list option \<times> live_session" where
  "signal_tree answer stop s = (answer, if answer = None then s else s\<lparr>ls_stopped := stop\<rparr>)"

section \<open>The registry\<close>

record state_disk =
  sd_state :: "bytes option"
  sd_temp :: "bytes option"
  sd_corrupt :: "bytes option"

record registry =
  rg_engine :: manifest_engine
  rg_sessions :: "(str \<times> live_session) list"
  rg_records :: "(str \<times> session_record) list"
  rg_projects :: "json_value list"
  rg_recently_closed :: "session_record list"
  rg_dirty :: bool
  rg_last_persist :: "duration option"
  rg_disk :: state_disk

datatype registry_error = NotFound | RegistryIo | InvalidData

definition registry_new :: "manifest_engine \<Rightarrow> state_disk \<Rightarrow> registry" where
  "registry_new engine disk =
     \<lparr>rg_engine = engine, rg_sessions = [], rg_records = [], rg_projects = [], rg_recently_closed = [],
      rg_dirty = False, rg_last_persist = None, rg_disk = disk\<rparr>"

text \<open>\<open>get_mut\<close> followed by an update in place, and \<open>HashMap::insert\<close> and \<open>remove\<close>.\<close>

definition at_key :: "str \<Rightarrow> ('a \<Rightarrow> 'a) \<Rightarrow> (str \<times> 'a) list \<Rightarrow> (str \<times> 'a) list" where
  "at_key k f m = map_ran (\<lambda>k' v. if k' = k then f v else v) m"

definition with_record :: "str \<Rightarrow> (session_record \<Rightarrow> session_record) \<Rightarrow> registry \<Rightarrow> registry" where
  "with_record sid f reg = reg\<lparr>rg_records := at_key sid f (rg_records reg)\<rparr>"

definition with_session :: "str \<Rightarrow> (live_session \<Rightarrow> live_session) \<Rightarrow> registry \<Rightarrow> registry" where
  "with_session sid f reg = reg\<lparr>rg_sessions := at_key sid f (rg_sessions reg)\<rparr>"

definition insert_record :: "session_record \<Rightarrow> registry \<Rightarrow> registry" where
  "insert_record r reg = reg\<lparr>rg_records := AList.update (sr_id r) r (rg_records reg)\<rparr>"

definition insert_session :: "str \<Rightarrow> live_session \<Rightarrow> registry \<Rightarrow> registry" where
  "insert_session sid s reg = reg\<lparr>rg_sessions := AList.update sid s (rg_sessions reg)\<rparr>"

definition drop_session :: "str \<Rightarrow> registry \<Rightarrow> registry" where
  "drop_session sid reg = reg\<lparr>rg_sessions := AList.delete sid (rg_sessions reg)\<rparr>"

definition drop_record :: "str \<Rightarrow> registry \<Rightarrow> registry" where
  "drop_record sid reg = reg\<lparr>rg_records := AList.delete sid (rg_records reg)\<rparr>"

abbreviation session_of :: "registry \<Rightarrow> str \<Rightarrow> live_session option" where
  "session_of reg \<equiv> map_of (rg_sessions reg)"

abbreviation record_of :: "registry \<Rightarrow> str \<Rightarrow> session_record option" where
  "record_of reg \<equiv> map_of (rg_records reg)"

section \<open>Listing\<close>

definition can_reenter :: "registry \<Rightarrow> session_record \<Rightarrow> bool" where
  "can_reenter reg r =
     (case sr_agent_session_id r of
        None \<Rightarrow> False
      | Some sid \<Rightarrow>
          Option.bind (Option.bind (me_manifests (rg_engine reg) (kind_id (sr_kind r))) mf_agent)
            (\<lambda>agent. resume_args agent (Some sid)) \<noteq> None)"

definition fold_live :: "(nat \<Rightarrow> bool) \<Rightarrow> registry \<Rightarrow> session_record \<Rightarrow> session_record" where
  "fold_live alnum reg r =
     (let r = (case session_of reg (sr_id r) of Some s \<Rightarrow> fold_session_view alnum (ls_view s) r | None \<Rightarrow> r)
      in if is_exited (sr_status r) \<and> sr_resumability r = Live
         then r\<lparr>sr_resumability := if can_reenter reg r then Resumable else NotResumable\<rparr>
         else r)"

definition records :: "(nat \<Rightarrow> bool) \<Rightarrow> registry \<Rightarrow> session_record list" where
  "records alnum reg = sort_key sr_id (map (fold_live alnum reg) (map snd (rg_records reg)))"

definition record_shown :: "(nat \<Rightarrow> bool) \<Rightarrow> str \<Rightarrow> registry \<Rightarrow> session_record option" where
  "record_shown alnum sid reg = map_option (fold_live alnum reg) (record_of reg sid)"

fun fold_changed :: "(nat \<Rightarrow> bool) \<Rightarrow> systime \<Rightarrow> (str \<times> nat \<times> session_view) list \<Rightarrow> (str \<times> nat) list \<Rightarrow> registry
    \<Rightarrow> bool \<Rightarrow> (str \<times> session_record) list \<times> (str \<times> nat) list \<times> registry \<times> bool" where
  "fold_changed alnum now [] published reg title_changed = ([], published, reg, title_changed)"
| "fold_changed alnum now ((sid, version, view) # views) published reg title_changed =
     (let published = AList.update sid version published
      in case record_of reg sid of
        None \<Rightarrow> fold_changed alnum now views published reg title_changed
      | Some r \<Rightarrow>
          let r' = fold_session_view alnum view r;
              renamed = (sr_title r, sr_title_source r) \<noteq> (sr_title r', sr_title_source r');
              r' = (if renamed then r'\<lparr>sr_updated_at := date_millis_of now\<rparr> else r');
              (changed, rest) = fold_changed alnum now views published
                (reg\<lparr>rg_records := AList.update sid r' (rg_records reg)\<rparr>) (title_changed \<or> renamed)
          in ((sid, r') # changed, rest))"

definition changed_since :: "(nat \<Rightarrow> bool) \<Rightarrow> systime \<Rightarrow> (str \<times> nat) list \<Rightarrow> registry
    \<Rightarrow> (str \<times> session_record) list \<times> (str \<times> nat) list \<times> registry" where
  "changed_since alnum now published reg =
     (let published = filter (\<lambda>p. session_of reg (fst p) \<noteq> None) published;
          views = List.map_filter (\<lambda>(sid, s).
            if map_of published sid \<noteq> Some (ls_state_version s) then Some (sid, ls_state_version s, ls_view s) else None)
            (rg_sessions reg);
          (changed, published, reg, title_changed) = fold_changed alnum now views published reg False
      in (changed, published, if title_changed then reg\<lparr>rg_dirty := True\<rparr> else reg))"

section \<open>Projects\<close>

definition project_hash :: "bytes \<Rightarrow> u64" where
  "project_hash bs = fold (\<lambda>b hash. (hash XOR ucast b) * 0x1000000001B3) bs 0xcbf29ce484222325"

definition hex12 :: "u64 \<Rightarrow> str" where
  "hex12 w = map (\<lambda>i. lit ''0123456789abcdef'' ! (unat w div 16 ^ i mod 16)) (rev [0..<12])"

definition project_id :: "str \<Rightarrow> str" where
  "project_id rt = lit ''p_'' @ hex12 (project_hash (utf8 rt) AND 0xFFFFFFFFFFFF)"

definition session_project_id :: "str \<Rightarrow> str option \<Rightarrow> str" where
  "session_project_id rt host =
     project_id (case host of None \<Rightarrow> rt | Some h \<Rightarrow> lit ''ssh'' @ [0] @ h @ [0] @ rt)"

text \<open>\<open>Path::file_name\<close>.\<close>

definition file_name :: "str \<Rightarrow> str option" where
  "file_name path =
     (let parts = filter (\<lambda>p. p \<noteq> [] \<and> p \<noteq> lit ''.'') (split_on 47 path)
      in if parts = [] \<or> last parts = lit ''..'' then None else Some (last parts))"

definition project_key :: "json_value \<Rightarrow> str option" where
  "project_key p = Option.bind (json_get (lit ''id'') p) as_str"

definition ensure_session_project :: "str \<Rightarrow> str option \<Rightarrow> registry \<Rightarrow> json_value \<times> registry" where
  "ensure_session_project rt host reg =
     (let pid = session_project_id rt host
      in case find (\<lambda>p. project_key p = Some pid) (rg_projects reg) of
        Some existing \<Rightarrow> (existing, reg)
      | None \<Rightarrow>
          let name = (case file_name rt of Some n \<Rightarrow> n | None \<Rightarrow> rt);
              project = JObject [(lit ''id'', JString pid), (lit ''root'', JString rt), (lit ''name'', JString name)]
          in (project, reg\<lparr>rg_projects := rg_projects reg @ [project]\<rparr>))"

definition add_project :: "str \<Rightarrow> registry \<Rightarrow> json_value \<times> registry" where
  "add_project rt reg = ensure_session_project rt None reg"

section \<open>Operations\<close>

definition spawn :: "str \<Rightarrow> live_session option \<Rightarrow> session_record \<Rightarrow> registry \<Rightarrow> (registry_error, str) result \<times> registry" where
  "spawn sid started r reg =
     (case started of
        None \<Rightarrow> (Inl RegistryIo, reg)
      | Some s \<Rightarrow> (Inr sid, insert_session sid s (reg\<lparr>rg_records := AList.update sid r (rg_records reg)\<rparr>)))"

type_synonym seeded_status = "(session_status \<times> needs_input_detail option) option"

definition seed_status :: "session_record \<Rightarrow> seeded_status" where
  "seed_status r = (if is_exited (sr_status r) then None else Some (sr_status r, sr_needs_input r))"

definition adopt_remote :: "str \<Rightarrow> (seeded_status \<Rightarrow> live_session option) \<Rightarrow> registry \<Rightarrow> (registry_error, str) result \<times> registry" where
  "adopt_remote sid adopt reg =
     (case record_of reg sid of
        None \<Rightarrow> (Inl NotFound, reg)
      | Some r \<Rightarrow>
          (case adopt (seed_status r) of
             None \<Rightarrow> (Inl RegistryIo, reg)
           | Some s \<Rightarrow> (Inr sid, insert_session sid s reg)))"

text \<open>
  A holder found by its socket: the session id, whether it says that the agent lives (\<open>None\<close>: it does
  not answer), and the session that adopting it gives.
\<close>

type_synonym found_holder = "str \<times> bool option \<times> (seeded_status \<Rightarrow> live_session option)"

fun adopt_live_holders :: "found_holder list \<Rightarrow> registry \<Rightarrow> str list \<times> registry" where
  "adopt_live_holders [] reg = ([], reg)"
| "adopt_live_holders ((sid, alive, adopt) # holders) reg =
     (case record_of reg sid of
        None \<Rightarrow> adopt_live_holders holders reg
      | Some r \<Rightarrow>
          if session_of reg sid \<noteq> None \<or> alive \<noteq> Some True then adopt_live_holders holders reg
          else case adopt (seed_status r) of
            None \<Rightarrow> adopt_live_holders holders reg
          | Some s \<Rightarrow>
              let s = (if sr_hibernation r \<noteq> None then snd (set_hibernated True True s) else s);
                  (adopted, reg) = adopt_live_holders holders (insert_session sid s reg)
              in (sid # adopted, reg))"

definition exit_status :: "pty_exit \<Rightarrow> session_status" where
  "exit_status ex =
     (case ex of
        ExitSignal n \<Rightarrow> Exited \<lparr>exit_reason = ReasonSignaled, exit_code = None, exit_signal = Some n\<rparr>
      | ExitCode n \<Rightarrow> Exited \<lparr>exit_reason = ReasonExited, exit_code = Some n, exit_signal = None\<rparr>)"

text \<open>\<open>ended\<close>: how the process ended, \<open>None\<close> when ending it failed.\<close>

definition terminate :: "str \<Rightarrow> pty_exit option \<Rightarrow> registry \<Rightarrow> (registry_error, pty_exit option) result \<times> registry" where
  "terminate sid ended reg =
     (case session_of reg sid of
        None \<Rightarrow> (Inr None, reg)
      | Some s \<Rightarrow>
          let reg = drop_session sid reg
          in case ended of
            None \<Rightarrow> (Inl RegistryIo, reg)
          | Some ex \<Rightarrow> (Inr (Some ex), with_record sid (\<lambda>r. r\<lparr>sr_status := exit_status ex\<rparr>) reg))"

definition forget :: "str \<Rightarrow> registry \<Rightarrow> registry" where
  "forget sid reg = drop_record sid (drop_session sid reg)"

definition remove :: "str \<Rightarrow> pty_exit option \<Rightarrow> registry \<Rightarrow> (registry_error, unit) result \<times> registry" where
  "remove sid ended reg =
     (let reg = (if session_of reg sid \<noteq> None then snd (terminate sid ended reg) else reg)
      in case record_of reg sid of
        None \<Rightarrow> (Inl NotFound, reg)
      | Some r \<Rightarrow>
          let reg = drop_record sid reg;
              stack = rg_recently_closed reg @ [r];
              reg = reg\<lparr>rg_recently_closed := if length stack > 10 then tl stack else stack\<rparr>
          in (Inr (), drop_session sid reg))"

text \<open>The stack as the source pops it: from its end. \<open>there\<close>: the folder still exists.\<close>

fun pop_closed :: "(str \<Rightarrow> bool) \<Rightarrow> session_record list \<Rightarrow> (session_record \<times> session_record list) option" where
  "pop_closed there [] = None"
| "pop_closed there (r # rs) =
     (if sr_host r = None \<and> \<not> there (sr_cwd r) then pop_closed there rs else Some (r, rs))"

definition reopen_last_closed :: "(str \<Rightarrow> bool) \<Rightarrow> registry \<Rightarrow> session_record option \<times> registry" where
  "reopen_last_closed there reg =
     (case pop_closed there (rev (rg_recently_closed reg)) of
        None \<Rightarrow> (None, reg\<lparr>rg_recently_closed := []\<rparr>)
      | Some (r, rest) \<Rightarrow> (Some r, insert_record r (reg\<lparr>rg_recently_closed := rev rest\<rparr>)))"

definition respawn :: "str \<Rightarrow> live_session option \<Rightarrow> systime \<Rightarrow> registry \<Rightarrow> (registry_error, unit) result \<times> registry" where
  "respawn sid started now reg =
     (if record_of reg sid = None then (Inl NotFound, reg)
      else case started of
        None \<Rightarrow> (Inl RegistryIo, reg)
      | Some s \<Rightarrow> (Inr (), with_record sid (\<lambda>r. r\<lparr>sr_status := Starting, sr_needs_input := None, sr_updated_at := date_millis_of now\<rparr>)
            (insert_session sid s reg)))"

definition set_hibernation :: "str \<Rightarrow> hibernation_info option \<Rightarrow> systime \<Rightarrow> registry \<Rightarrow> registry" where
  "set_hibernation sid info now reg =
     with_record sid (\<lambda>r. r\<lparr>sr_hibernation := info, sr_updated_at := date_millis_of now\<rparr>) reg"

definition known_hibernated :: "str \<Rightarrow> registry \<Rightarrow> bool" where
  "known_hibernated sid reg \<longleftrightarrow>
     (case record_of reg sid of Some r \<Rightarrow> sr_hibernation r \<noteq> None | None \<Rightarrow> False) \<or>
     (case session_of reg sid of Some s \<Rightarrow> ls_hibernated s | None \<Rightarrow> False)"

definition ensure_session_awake :: "(int \<times> int) list option \<Rightarrow> bool \<Rightarrow> str \<Rightarrow> systime \<Rightarrow> registry
    \<Rightarrow> (registry_error, unit) result \<times> registry" where
  "ensure_session_awake answer ok sid now reg =
     (let known = known_hibernated sid reg;
          clear = (\<lambda>reg. if known then set_hibernation sid None now reg else reg)
      in case session_of reg sid of
        None \<Rightarrow> (Inr (), clear reg)
      | Some s \<Rightarrow>
          (case signal_tree answer False s of
             (None, s) \<Rightarrow> (Inl RegistryIo, insert_session sid s reg)
           | (Some _, s) \<Rightarrow> (Inr (), clear (insert_session sid (snd (set_hibernated ok False s)) reg))))"

definition wake_session :: "(int \<times> int) list option \<Rightarrow> bool \<Rightarrow> str \<Rightarrow> systime \<Rightarrow> registry
    \<Rightarrow> (registry_error, unit) result \<times> registry" where
  "wake_session answer ok sid now reg =
     (if \<not> known_hibernated sid reg then (Inr (), reg) else ensure_session_awake answer ok sid now reg)"

text \<open>Collecting pairs into a BTreeMap: ordered by key, a later value replaces an earlier one.\<close>

definition collect_btree :: "('k::linorder \<times> 'v) list \<Rightarrow> ('k \<times> 'v) list" where
  "collect_btree kvs = sort_key fst (AList.clearjunk (rev kvs))"

definition hibernate :: "(int \<times> int) list option \<Rightarrow> str \<Rightarrow> hibernation_reason \<Rightarrow> systime \<Rightarrow> registry
    \<Rightarrow> (registry_error, unit) result \<times> registry" where
  "hibernate answer sid reason now reg =
     (case session_of reg sid of
        None \<Rightarrow> (Inl NotFound, reg)
      | Some s \<Rightarrow>
          (case signal_tree answer True s of
             (None, s) \<Rightarrow> (Inl RegistryIo, insert_session sid s reg)
           | (Some tree, s) \<Rightarrow>
               (Inr (), set_hibernation sid
                 (Some \<lparr>hib_since = date_millis_of now, hib_reason = reason, hib_tree_pids = map fst tree,
                        hib_tree_start_times = Some (collect_btree tree)\<rparr>) now
                 (insert_session sid (snd (set_hibernated True True s)) reg))))"

text \<open>Typed input, as the session writes it.\<close>

definition write_session :: "bool \<Rightarrow> str \<Rightarrow> bytes \<Rightarrow> registry \<Rightarrow> registry" where
  "write_session ok sid bs reg = with_session sid (\<lambda>s. snd (write_raw ok bs s)) reg"

record hook_metadata =
  hm_agent_session_id :: "str option"
  hm_transcript_path :: "str option"
  hm_first_prompt_title :: "str option"
  hm_needs_input :: "needs_input_detail option"

text \<open>\<open>ai_title\<close>: the newest title that the transcript at a path carries.\<close>

definition generated_title :: "(nat \<Rightarrow> bool) \<Rightarrow> (str \<Rightarrow> str option) \<Rightarrow> hook_metadata \<Rightarrow> session_record \<Rightarrow> str option" where
  "generated_title alnum ai_title meta r =
     (if sr_kind r = KIND_CLAUDE_CODE \<and> sr_title_source r \<in> {Placeholder, FirstPrompt, UnknownTitle}
      then Option.bind (Option.bind (case hm_transcript_path meta of Some p \<Rightarrow> Some p | None \<Rightarrow> sr_transcript_path r) ai_title)
             (normalize_agent_title alnum)
      else None)"

definition fold_agent_id :: "hook_metadata \<Rightarrow> session_record \<times> bool \<Rightarrow> session_record \<times> bool" where
  "fold_agent_id meta rc =
     (case hm_agent_session_id meta of
        Some aid \<Rightarrow> if sr_agent_session_id (fst rc) \<noteq> Some aid
          then ((fst rc)\<lparr>sr_agent_session_id := Some aid, sr_resumability := Live\<rparr>, True) else rc
      | None \<Rightarrow> rc)"

definition fold_transcript :: "hook_metadata \<Rightarrow> session_record \<times> bool \<Rightarrow> session_record \<times> bool" where
  "fold_transcript meta rc =
     (case hm_transcript_path meta of
        Some p \<Rightarrow> if sr_transcript_path (fst rc) \<noteq> Some p then ((fst rc)\<lparr>sr_transcript_path := Some p\<rparr>, True) else rc
      | None \<Rightarrow> rc)"

definition fold_first_prompt :: "hook_metadata \<Rightarrow> session_record \<times> bool \<Rightarrow> session_record \<times> bool" where
  "fold_first_prompt meta rc =
     (case hm_first_prompt_title meta of
        Some t \<Rightarrow> if sr_title_source (fst rc) = Placeholder
          then ((fst rc)\<lparr>sr_title := t, sr_title_source := FirstPrompt\<rparr>, True) else rc
      | None \<Rightarrow> rc)"

definition fold_generated :: "str option \<Rightarrow> session_record \<times> bool \<Rightarrow> session_record \<times> bool" where
  "fold_generated gen rc =
     (case gen of
        Some t \<Rightarrow> if sr_title (fst rc) \<noteq> t \<or> sr_title_source (fst rc) \<noteq> AgentProvided
          then ((fst rc)\<lparr>sr_title := t, sr_title_source := AgentProvided\<rparr>, True) else rc
      | None \<Rightarrow> rc)"

definition apply_hook_metadata :: "(nat \<Rightarrow> bool) \<Rightarrow> (str \<Rightarrow> str option) \<Rightarrow> str \<Rightarrow> hook_metadata \<Rightarrow> systime \<Rightarrow> registry
    \<Rightarrow> bool \<times> registry" where
  "apply_hook_metadata alnum ai_title sid meta now reg =
     (case record_of reg sid of
        None \<Rightarrow> (False, reg)
      | Some r \<Rightarrow>
          let gen = generated_title alnum ai_title meta r;
              (r', changed) = fold_generated gen (fold_first_prompt meta (fold_transcript meta (fold_agent_id meta (r, False))));
              r' = (if changed then r'\<lparr>sr_updated_at := date_millis_of now\<rparr> else r')
          in (changed, with_record sid (\<lambda>_. r') reg))"

record session_resources_event =
  sre_id :: str
  sre_memory_bytes :: "nat option"
  sre_listening_ports :: "port_info list option"
  sre_artifacts :: "session_artifact list option"

definition or_default :: "'a list option \<Rightarrow> 'a list" where
  "or_default xs = (case xs of None \<Rightarrow> [] | Some xs \<Rightarrow> xs)"

definition apply_resource_sample :: "str \<Rightarrow> nat option \<Rightarrow> port_info list option \<Rightarrow> session_artifact list option \<Rightarrow> registry
    \<Rightarrow> session_resources_event option \<times> registry" where
  "apply_resource_sample sid memory ports artifacts reg =
     (case record_of reg sid of
        None \<Rightarrow> (None, reg)
      | Some r \<Rightarrow>
          let memory_changed = (memory \<noteq> None \<and> sr_memory_bytes r \<noteq> memory);
              r = (if memory_changed then r\<lparr>sr_memory_bytes := memory\<rparr> else r);
              ports_changed = (case ports of None \<Rightarrow> False | Some ps \<Rightarrow> or_default (sr_listening_ports r) \<noteq> ps);
              r = (if ports_changed then r\<lparr>sr_listening_ports := ports\<rparr> else r);
              artifacts_changed = (case artifacts of None \<Rightarrow> False | Some as \<Rightarrow> or_default (sr_artifacts r) \<noteq> as);
              r = (if artifacts_changed then r\<lparr>sr_artifacts := artifacts\<rparr> else r);
              reg = with_record sid (\<lambda>_. r) reg
          in if \<not> (memory_changed \<or> ports_changed \<or> artifacts_changed) then (None, reg)
             else (Some \<lparr>sre_id = sr_id r, sre_memory_bytes = if memory_changed then sr_memory_bytes r else None,
                     sre_listening_ports = if ports_changed then sr_listening_ports r else None,
                     sre_artifacts = if artifacts_changed then sr_artifacts r else None\<rparr>, reg))"

definition materially_same :: "pull_request_status list \<Rightarrow> pull_request_status list \<Rightarrow> bool" where
  "materially_same current statuses \<longleftrightarrow> length current = length statuses \<and>
     list_all (\<lambda>(a, b). a = b\<lparr>pr_fetched_at := pr_fetched_at a\<rparr>) (zip current statuses)"

definition apply_pull_request_statuses :: "str \<Rightarrow> pull_request_status list \<Rightarrow> systime \<Rightarrow> registry \<Rightarrow> bool \<times> registry" where
  "apply_pull_request_statuses sid statuses now reg =
     (case record_of reg sid of
        None \<Rightarrow> (False, reg)
      | Some r \<Rightarrow>
          if materially_same (or_default (sr_pull_requests r)) statuses then (False, reg)
          else (True, with_record sid (\<lambda>r. r\<lparr>sr_pull_requests := if statuses \<noteq> [] then Some statuses else None,
                  sr_updated_at := date_millis_of now\<rparr>) reg))"

definition update_record :: "str \<Rightarrow> (session_record \<Rightarrow> session_record) \<Rightarrow> systime \<Rightarrow> registry \<Rightarrow> registry" where
  "update_record sid mutate now reg = with_record sid (\<lambda>r. (mutate r)\<lparr>sr_updated_at := date_millis_of now\<rparr>) reg"

definition rename :: "str \<Rightarrow> str \<Rightarrow> systime \<Rightarrow> registry \<Rightarrow> (registry_error, unit) result \<times> registry" where
  "rename sid title now reg =
     (if record_of reg sid = None then (Inl NotFound, reg)
      else (Inr (), with_record sid (\<lambda>r. r\<lparr>sr_title := title, sr_title_source := UserRename,
              sr_updated_at := date_millis_of now\<rparr>) reg))"

definition mark_seen :: "str \<Rightarrow> systime \<Rightarrow> registry \<Rightarrow> (registry_error, unit) result \<times> registry" where
  "mark_seen sid now reg =
     (if record_of reg sid = None then (Inl NotFound, reg)
      else (Inr (), with_record sid (\<lambda>r. r\<lparr>sr_last_seen_at := Some (date_millis_of now)\<rparr>) reg))"

definition archive_session :: "str \<Rightarrow> pty_exit option \<Rightarrow> systime \<Rightarrow> registry \<Rightarrow> (registry_error, unit) result \<times> registry" where
  "archive_session sid ended now reg =
     (if record_of reg sid = None then (Inl NotFound, reg)
      else
        let reg = (if session_of reg sid \<noteq> None then snd (terminate sid ended reg) else reg)
        in (Inr (), with_record sid (\<lambda>r. r\<lparr>sr_archived_at := Some (date_millis_of now),
             sr_status := (if is_exited (sr_status r) then sr_status r
               else Exited \<lparr>exit_reason = ReasonArchived, exit_code = None, exit_signal = None\<rparr>),
             sr_needs_input := None\<rparr>) reg))"

definition unarchive :: "str \<Rightarrow> systime \<Rightarrow> registry \<Rightarrow> (registry_error, unit) result \<times> registry" where
  "unarchive sid now reg =
     (case record_of reg sid of
        None \<Rightarrow> (Inl NotFound, reg)
      | Some r \<Rightarrow>
          if sr_archived_at r = None then (Inr (), reg)
          else (Inr (), with_record sid (\<lambda>r. r\<lparr>sr_archived_at := None, sr_updated_at := date_millis_of now\<rparr>) reg))"

definition tracked_agent_session_ids :: "registry \<Rightarrow> str list" where
  "tracked_agent_session_ids reg = List.map_filter sr_agent_session_id (map snd (rg_records reg))"

section \<open>Consistency\<close>

text \<open>Keys are distinct and are the ids of their records, every live session has a record, and the stack is bounded.\<close>

definition table_inv :: "registry \<Rightarrow> bool" where
  "table_inv reg \<longleftrightarrow>
     distinct (map fst (rg_sessions reg)) \<and> distinct (map fst (rg_records reg)) \<and>
     (\<forall>sid r. record_of reg sid = Some r \<longrightarrow> sr_id r = sid) \<and>
     (\<forall>sid. session_of reg sid \<noteq> None \<longrightarrow> record_of reg sid \<noteq> None) \<and>
     length (rg_recently_closed reg) \<le> 10"

text \<open>A stopped process tree is known to be stopped, and input waits only for those that are.\<close>

definition frozen_ok :: "registry \<Rightarrow> str \<Rightarrow> live_session \<Rightarrow> bool" where
  "frozen_ok reg sid s \<longleftrightarrow>
     (ls_stopped s \<longrightarrow> ls_hibernated s \<or> (\<exists>r. record_of reg sid = Some r \<and> sr_hibernation r \<noteq> None)) \<and>
     (ls_queued_input s \<noteq> [] \<longrightarrow> ls_hibernated s)"

definition freeze_inv :: "registry \<Rightarrow> bool" where
  "freeze_inv reg \<longleftrightarrow> (\<forall>sid s. session_of reg sid = Some s \<longrightarrow> frozen_ok reg sid s)"

declare map_of_eq_Some_iff [simp del]

lemma at_key_lookup [simp]: "map_of (at_key k f m) k' = (if k' = k then map_option f (map_of m k') else map_of m k')"
  by (simp add: at_key_def map_ran_conv option.map_ident)

lemma at_key_keys [simp]: "map fst (at_key k f m) = map fst m"
  by (simp add: at_key_def)

lemma registry_sel [simp]:
  "rg_sessions (with_record sid f reg) = rg_sessions reg"
  "rg_records (with_record sid f reg) = at_key sid f (rg_records reg)"
  "rg_recently_closed (with_record sid f reg) = rg_recently_closed reg"
  "rg_sessions (with_session sid g reg) = at_key sid g (rg_sessions reg)"
  "rg_records (with_session sid g reg) = rg_records reg"
  "rg_recently_closed (with_session sid g reg) = rg_recently_closed reg"
  "rg_sessions (insert_session sid s reg) = AList.update sid s (rg_sessions reg)"
  "rg_records (insert_session sid s reg) = rg_records reg"
  "rg_recently_closed (insert_session sid s reg) = rg_recently_closed reg"
  "rg_sessions (drop_session sid reg) = AList.delete sid (rg_sessions reg)"
  "rg_records (drop_session sid reg) = rg_records reg"
  "rg_recently_closed (drop_session sid reg) = rg_recently_closed reg"
  "rg_sessions (drop_record sid reg) = rg_sessions reg"
  "rg_records (drop_record sid reg) = AList.delete sid (rg_records reg)"
  "rg_recently_closed (drop_record sid reg) = rg_recently_closed reg"
  by (simp_all add: with_record_def with_session_def insert_session_def drop_session_def drop_record_def)

lemmas lookup_conv [simp] = AList.update_conv' AList.delete_conv'

lemma table_inv_other [simp]:
  "table_inv (reg\<lparr>rg_projects := ps\<rparr>) = table_inv reg" "table_inv (reg\<lparr>rg_dirty := d\<rparr>) = table_inv reg"
  "table_inv (reg\<lparr>rg_disk := dk\<rparr>) = table_inv reg" "table_inv (reg\<lparr>rg_last_persist := lp\<rparr>) = table_inv reg"
  by (simp_all add: table_inv_def)

lemma freeze_inv_other [simp]:
  "freeze_inv (reg\<lparr>rg_projects := ps\<rparr>) = freeze_inv reg" "freeze_inv (reg\<lparr>rg_dirty := d\<rparr>) = freeze_inv reg"
  "freeze_inv (reg\<lparr>rg_disk := dk\<rparr>) = freeze_inv reg" "freeze_inv (reg\<lparr>rg_last_persist := lp\<rparr>) = freeze_inv reg"
  "freeze_inv (reg\<lparr>rg_recently_closed := rc\<rparr>) = freeze_inv reg"
  by (simp_all add: freeze_inv_def frozen_ok_def)

lemma table_inv_with_record:
  assumes "table_inv reg" "\<And>r. record_of reg sid = Some r \<Longrightarrow> sr_id (f r) = sid"
  shows "table_inv (with_record sid f reg)"
  using assms by (auto simp: table_inv_def)

lemma table_inv_with_session: "table_inv reg \<Longrightarrow> table_inv (with_session sid f reg)"
  by (auto simp: table_inv_def)

lemma table_inv_put_record:
  assumes "table_inv reg" "sr_id r = sid"
  shows "table_inv (reg\<lparr>rg_records := AList.update sid r (rg_records reg)\<rparr>)"
  using assms by (auto simp: table_inv_def intro: AList.distinct_update split: if_splits)

lemma table_inv_insert_session:
  assumes "table_inv reg" "record_of reg sid \<noteq> None"
  shows "table_inv (insert_session sid s reg)"
  using assms by (auto simp: table_inv_def intro: AList.distinct_update split: if_splits)

lemma table_inv_drop_session: "table_inv reg \<Longrightarrow> table_inv (drop_session sid reg)"
  by (auto simp: table_inv_def intro: AList.distinct_delete split: if_splits)

lemma table_inv_drop_record:
  assumes "table_inv reg" "session_of reg sid = None"
  shows "table_inv (drop_record sid reg)"
  using assms by (auto simp: table_inv_def intro: AList.distinct_delete split: if_splits)

lemmas table_intros = table_inv_with_record table_inv_with_session table_inv_put_record table_inv_insert_session
  table_inv_drop_session table_inv_drop_record

lemma freeze_inv_with_record:
  assumes "freeze_inv reg"
    "\<And>r s. record_of reg sid = Some r \<Longrightarrow> session_of reg sid = Some s \<Longrightarrow> ls_stopped s \<Longrightarrow> \<not> ls_hibernated s
       \<Longrightarrow> sr_hibernation r \<noteq> None \<Longrightarrow> sr_hibernation (f r) \<noteq> None"
  shows "freeze_inv (with_record sid f reg)"
  using assms by (fastforce simp: freeze_inv_def frozen_ok_def)

lemma freeze_inv_with_session:
  assumes "freeze_inv reg" "\<And>s. frozen_ok reg sid s \<Longrightarrow> frozen_ok reg sid (f s)"
  shows "freeze_inv (with_session sid f reg)"
  using assms by (auto simp: freeze_inv_def frozen_ok_def)

lemma freeze_inv_put_record:
  assumes "freeze_inv reg" "\<And>s. session_of reg sid = Some s \<Longrightarrow> ls_stopped s \<Longrightarrow> \<not> ls_hibernated s \<Longrightarrow> sr_hibernation r \<noteq> None"
  shows "freeze_inv (reg\<lparr>rg_records := AList.update sid r (rg_records reg)\<rparr>)"
  using assms by (auto simp: freeze_inv_def frozen_ok_def)

lemma freeze_inv_insert_session:
  assumes "freeze_inv reg" "frozen_ok reg sid s"
  shows "freeze_inv (insert_session sid s reg)"
  using assms by (auto simp: freeze_inv_def frozen_ok_def)

lemma freeze_inv_drop_session: "freeze_inv reg \<Longrightarrow> freeze_inv (drop_session sid reg)"
  by (auto simp: freeze_inv_def frozen_ok_def split: if_splits)

lemma freeze_inv_drop_record:
  assumes "freeze_inv reg" "session_of reg sid = None"
  shows "freeze_inv (drop_record sid reg)"
  using assms by (auto simp: freeze_inv_def frozen_ok_def)

lemmas freeze_intros = freeze_inv_with_record freeze_inv_put_record freeze_inv_insert_session
  freeze_inv_drop_session freeze_inv_drop_record

section \<open>Freezing and waking\<close>

lemma write_raw_keeps:
  "ls_stopped (snd (write_raw ok bs s)) = ls_stopped s" "ls_hibernated (snd (write_raw ok bs s)) = ls_hibernated s"
  "ls_queued_input (snd (write_raw ok bs s)) \<noteq> [] \<Longrightarrow> ls_queued_input s \<noteq> [] \<or> ls_hibernated s"
  by (auto simp: write_raw_def split: option.splits if_splits)

lemma freeze_inv_write:
  assumes "freeze_inv reg"
  shows "freeze_inv (write_session ok sid bs reg)"
  unfolding write_session_def using assms
proof (rule freeze_inv_with_session)
  show "frozen_ok reg sid (snd (write_raw ok bs s))" if "frozen_ok reg sid s" for s
    using that write_raw_keeps(3) [of ok bs s] unfolding frozen_ok_def write_raw_keeps(1,2) by blast
qed

lemma freeze_inv_hibernate:
  assumes "freeze_inv reg"
  shows "freeze_inv (snd (hibernate answer sid reason now reg))"
proof (cases "session_of reg sid")
  case (Some s)
  then have "freeze_inv (insert_session sid s reg)"
    using assms by (intro freeze_inv_insert_session) (auto simp: freeze_inv_def)
  moreover have "frozen_ok reg sid (s\<lparr>ls_stopped := True, ls_hibernated := True\<rparr>)"
    by (simp add: frozen_ok_def)
  ultimately show ?thesis
    using Some assms
    by (cases answer) (auto simp: hibernate_def signal_tree_def set_hibernated_def set_hibernation_def
        intro!: freeze_inv_with_record freeze_inv_insert_session)
qed (use assms in \<open>simp add: hibernate_def\<close>)

lemma woken_session:
  "ls_stopped (snd (set_hibernated ok False s)) = ls_stopped s" "\<not> ls_hibernated (snd (set_hibernated ok False s))"
  "ls_queued_input (snd (set_hibernated ok False s)) = []"
  by (auto simp: set_hibernated_def write_raw_def Let_def split: option.split)

lemma freeze_inv_ensure_awake:
  assumes "freeze_inv reg"
  shows "freeze_inv (snd (ensure_session_awake answer ok sid now reg))"
proof (cases "session_of reg sid")
  case None
  then show ?thesis
    using assms by (auto simp: ensure_session_awake_def set_hibernation_def Let_def intro!: freeze_inv_with_record)
next
  case (Some s)
  then have "freeze_inv (insert_session sid s reg)"
    using assms by (intro freeze_inv_insert_session) (auto simp: freeze_inv_def)
  moreover have "frozen_ok reg sid (snd (set_hibernated ok False (s\<lparr>ls_stopped := False\<rparr>)))"
    by (simp add: frozen_ok_def woken_session)
  ultimately show ?thesis
    using Some assms
    by (cases answer) (auto simp: ensure_session_awake_def signal_tree_def set_hibernation_def Let_def woken_session
        intro!: freeze_inv_with_record freeze_inv_insert_session)
qed

lemma table_inv_hibernate: "table_inv reg \<Longrightarrow> table_inv (snd (hibernate answer sid reason now reg))"
  by (auto simp: hibernate_def set_hibernation_def signal_tree_def table_inv_def intro: AList.distinct_update
      split: option.splits if_splits)

lemma table_inv_ensure_awake: "table_inv reg \<Longrightarrow> table_inv (snd (ensure_session_awake answer ok sid now reg))"
  by (auto simp: ensure_session_awake_def set_hibernation_def signal_tree_def table_inv_def Let_def
      intro: AList.distinct_update split: option.splits if_splits)

lemma typed_while_frozen:
  assumes "session_of reg sid = Some s" "ls_hibernated s" "ls_deferred s = None"
  shows "session_of (fold (write_session ok sid) inputs reg) sid = Some (s\<lparr>ls_queued_input := ls_queued_input s @ concat inputs\<rparr>)
    \<and> rg_records (fold (write_session ok sid) inputs reg) = rg_records reg"
  using assms
proof (induction inputs arbitrary: reg s)
  case (Cons bs inputs)
  have "session_of (write_session ok sid bs reg) sid = Some (s\<lparr>ls_queued_input := ls_queued_input s @ bs\<rparr>)"
    using Cons.prems by (simp add: write_session_def write_raw_def)
  then show ?case
    using Cons.IH [of "write_session ok sid bs reg" "s\<lparr>ls_queued_input := ls_queued_input s @ bs\<rparr>"] Cons.prems
    by (simp add: write_session_def)
qed simp

text \<open>
  Claim C34. Input waits for the wake. What is typed into a hibernated session reaches the agent only when
  it is woken, and then all of it in order, behind what was already waiting; the session is running
  and its record says so.
\<close>

theorem input_waits_for_the_wake:
  assumes "session_of reg sid = Some s" "ls_hibernated s" "ls_deferred s = None"
  shows "let typed = fold (write_session ok sid) inputs reg;
             woken = snd (wake_session (Some tree) True sid now typed)
    in map_option ls_written (session_of typed sid) = Some (ls_written s)
     \<and> (\<exists>awake. session_of woken sid = Some awake \<and> \<not> ls_stopped awake \<and> \<not> ls_hibernated awake \<and>
          ls_queued_input awake = [] \<and> ls_written awake = ls_written s @ ls_queued_input s @ concat inputs)
     \<and> Option.bind (record_of woken sid) sr_hibernation = None"
proof -
  define typed where "typed = fold (write_session ok sid) inputs reg"
  define woken where "woken = snd (wake_session (Some tree) True sid now typed)"
  note asleep = typed_while_frozen [OF assms, of ok inputs, folded typed_def]
  have known: "known_hibernated sid typed"
    using asleep assms(2) by (simp add: known_hibernated_def)
  have "\<exists>awake. session_of woken sid = Some awake \<and> \<not> ls_stopped awake \<and> \<not> ls_hibernated awake \<and>
      ls_queued_input awake = [] \<and> ls_written awake = ls_written s @ ls_queued_input s @ concat inputs"
    using asleep assms(3) known unfolding woken_def
    by (auto simp: wake_session_def ensure_session_awake_def signal_tree_def set_hibernated_def set_hibernation_def write_raw_def Let_def)
  moreover have "Option.bind (record_of woken sid) sr_hibernation = None"
    using asleep known unfolding woken_def
    by (cases "record_of reg sid")
      (auto simp: wake_session_def ensure_session_awake_def signal_tree_def set_hibernation_def Let_def)
  ultimately show ?thesis
    using asleep by (simp add: Let_def typed_def [symmetric] woken_def [symmetric])
qed

section \<open>A sample registry\<close>

definition no_engine :: manifest_engine where
  "no_engine = \<lparr>me_manifests = Map.empty, me_raw_agents = Map.empty\<rparr>"

definition empty_state_disk :: state_disk where
  "empty_state_disk = \<lparr>sd_state = None, sd_temp = None, sd_corrupt = None\<rparr>"

definition sleeping_session :: live_session where
  "sleeping_session = \<lparr>ls_view = \<lparr>sv_id = [1], sv_status = Idle, sv_needs_input = None, sv_title = None, sv_title_source = None,
     sv_tail_offset = 0, sv_exited = False\<rparr>, ls_state_version = 0, ls_child_pid = 7, ls_artifacts = [], ls_deferred = None,
     ls_hibernated = True, ls_queued_input = [104], ls_written = [], ls_stopped = True\<rparr>"

definition sleeping_registry :: registry where
  "sleeping_registry = (insert_record (sample_session [1] Idle) (registry_new no_engine empty_state_disk))
     \<lparr>rg_sessions := [([1], sleeping_session)]\<rparr>"

theorem input_waits_for_the_wake_witness:
  "\<exists>awake. session_of (snd (wake_session (Some []) True [1] 0 (fold (write_session True [1]) [[105], [10]] sleeping_registry))) [1] = Some awake
     \<and> ls_written awake = [104, 105, 10]"
proof -
  have s: "session_of sleeping_registry [1] = Some sleeping_session"
    by (simp add: sleeping_registry_def)
  have h: "ls_hibernated sleeping_session" "ls_deferred sleeping_session = None"
    by (simp_all add: sleeping_session_def)
  show ?thesis
    using input_waits_for_the_wake [OF s h, of True "[[105], [10]]" "[]" 0]
    by (auto simp: Let_def sleeping_session_def)
qed

end
