(* ===== verification/Registry_Persist.thy ===== *)
theory Registry_Persist
  imports Registry
begin

text \<open>
  The state file of the registry (\<^verbatim>\<open>homie-engine/src/registry/flusher.rs\<close>, \<^verbatim>\<open>persisted.rs\<close>) and what happens after a
  restart of the engine. Shown: a write is atomic, an unreadable file is set aside and never
  overwritten, a restart brings every record back, a second restart changes nothing, and afterwards
  no local record claims to run without a process.
\<close>

section \<open>Writing and reading the state file\<close>

record persisted_state =
  pst_version :: int
  pst_projects :: "json_value list"
  pst_sessions :: "session_record list"

definition persisted_current :: "session_record list \<Rightarrow> json_value list \<Rightarrow> persisted_state" where
  "persisted_current sessions projects = \<lparr>pst_version = 1, pst_projects = projects, pst_sessions = sessions\<rparr>"

record state_json =
  sj_to_vec :: "persisted_state \<Rightarrow> bytes option"
  sj_from_slice :: "bytes \<Rightarrow> persisted_state option"

definition PERSIST_DEBOUNCE :: duration where "PERSIST_DEBOUNCE = from_millis 500"

definition saved_record :: "registry \<Rightarrow> session_record \<Rightarrow> session_record" where
  "saved_record reg r = (case session_of reg (sr_id r) of Some s \<Rightarrow> fold_session_status (ls_view s) r | None \<Rightarrow> r)"

definition records_for_persistence :: "registry \<Rightarrow> session_record list" where
  "records_for_persistence reg = sort_key sr_id (map (saved_record reg) (map snd (rg_records reg)))"

text \<open>How a write can fail; a failed write leaves some bytes in the temporary file.\<close>

datatype persist_fault = DirFails | WriteFails bytes | RenameFails

definition persist_now :: "state_json \<Rightarrow> persist_fault option \<Rightarrow> duration \<Rightarrow> registry \<Rightarrow> (registry_error, unit) result \<times> registry" where
  "persist_now j fault at_time reg =
     (case sj_to_vec j (persisted_current (records_for_persistence reg) (rg_projects reg)) of
        None \<Rightarrow> (Inl RegistryIo, reg)
      | Some bs \<Rightarrow>
          (case fault of
             Some DirFails \<Rightarrow> (Inl RegistryIo, reg)
           | Some (WriteFails part) \<Rightarrow> (Inl RegistryIo, reg\<lparr>rg_disk := (rg_disk reg)\<lparr>sd_temp := Some part\<rparr>\<rparr>)
           | Some RenameFails \<Rightarrow> (Inl RegistryIo, reg\<lparr>rg_disk := (rg_disk reg)\<lparr>sd_temp := Some bs\<rparr>\<rparr>)
           | None \<Rightarrow> (Inr (), reg\<lparr>rg_disk := (rg_disk reg)\<lparr>sd_state := Some bs, sd_temp := None\<rparr>,
               rg_dirty := False, rg_last_persist := Some at_time\<rparr>)))"

definition persist :: "state_json \<Rightarrow> persist_fault option \<Rightarrow> duration \<Rightarrow> registry \<Rightarrow> (registry_error, unit) result \<times> registry" where
  "persist j fault at_time reg =
     (case rg_last_persist reg of
        Some before \<Rightarrow> if at_time - before < PERSIST_DEBOUNCE then (Inr (), reg\<lparr>rg_dirty := True\<rparr>) else persist_now j fault at_time reg
      | None \<Rightarrow> persist_now j fault at_time reg)"

definition flush_dirty :: "state_json \<Rightarrow> persist_fault option \<Rightarrow> duration \<Rightarrow> registry \<Rightarrow> (registry_error, unit) result \<times> registry" where
  "flush_dirty j fault at_time reg = (if \<not> rg_dirty reg then (Inr (), reg) else persist_now j fault at_time reg)"

definition project_root :: "json_value \<Rightarrow> (str \<times> str) option" where
  "project_root p = Option.bind (Option.bind (json_get (lit ''id'') p) as_str) (\<lambda>pid.
     map_option (Pair pid) (Option.bind (json_get (lit ''root'') p) as_str))"

definition project_roots :: "json_value list \<Rightarrow> str \<rightharpoonup> str" where
  "project_roots ps = map_of (rev (List.map_filter project_root ps))"

text \<open>One record of the file: its repaired title and its location, which decides the project.\<close>

definition location_of :: "(nat \<Rightarrow> bool) \<Rightarrow> (str \<rightharpoonup> str) \<Rightarrow> session_record \<Rightarrow> str \<times> str option" where
  "location_of alnum roots r =
     (let r = snd (repair_persisted_agent_title alnum r)
      in (case roots (sr_project_id r) of Some rt \<Rightarrow> rt | None \<Rightarrow> sr_cwd r, sr_host r))"

definition reload_record :: "(nat \<Rightarrow> bool) \<Rightarrow> (str \<rightharpoonup> str) \<Rightarrow> session_record \<Rightarrow> session_record" where
  "reload_record alnum roots r =
     (let (rt, host) = location_of alnum roots r
      in (snd (repair_persisted_agent_title alnum r))\<lparr>sr_project_id := session_project_id rt host\<rparr>)"

definition load_sessions :: "(nat \<Rightarrow> bool) \<Rightarrow> session_record list \<Rightarrow> registry \<Rightarrow> registry" where
  "load_sessions alnum sessions reg =
     (let roots = project_roots (rg_projects reg);
          locations = map (location_of alnum roots) sessions;
          reg = fold (\<lambda>r. insert_record (reload_record alnum roots r)) sessions reg
      in fold (\<lambda>(rt, host) reg. snd (ensure_session_project rt host reg)) locations reg)"

text \<open>\<open>readable\<close>: the file can be read if it is there; \<open>renamed\<close>: setting it aside succeeds.\<close>

definition load :: "state_json \<Rightarrow> (nat \<Rightarrow> bool) \<Rightarrow> bool \<Rightarrow> bool \<Rightarrow> registry \<Rightarrow> (registry_error, nat) result \<times> registry" where
  "load j alnum readable renamed reg =
     (case sd_state (rg_disk reg) of
        None \<Rightarrow> (Inr 0, reg)
      | Some bs \<Rightarrow>
          if \<not> readable then (Inl RegistryIo, reg)
          else case sj_from_slice j bs of
            Some file \<Rightarrow>
              let reg = load_sessions alnum (pst_sessions file) (reg\<lparr>rg_projects := pst_projects file\<rparr>)
              in (Inr (length (rg_records reg)), reg)
          | None \<Rightarrow>
              (Inl InvalidData, if renamed
                then reg\<lparr>rg_disk := (rg_disk reg)\<lparr>sd_state := None, sd_corrupt := Some bs\<rparr>\<rparr> else reg))"

section \<open>After a restart\<close>

definition orphaned :: "registry \<Rightarrow> str list" where
  "orphaned reg = map sr_id (filter (\<lambda>r. session_of reg (sr_id r) = None)
     (filter (\<lambda>r. \<not> is_exited (sr_status r)) (filter (\<lambda>r. sr_host r = None) (map snd (rg_records reg)))))"

definition restart_exit :: "session_record \<Rightarrow> session_record" where
  "restart_exit r = r\<lparr>sr_status := Exited \<lparr>exit_reason = DaemonRestart, exit_code = None, exit_signal = None\<rparr>,
     sr_needs_input := None\<rparr>"

definition reap_orphans :: "state_json \<Rightarrow> persist_fault option \<Rightarrow> duration \<Rightarrow> registry \<Rightarrow> registry" where
  "reap_orphans j fault at_time reg =
     (if orphaned reg = [] then reg
      else snd (persist j fault at_time (fold (\<lambda>sid. with_record sid restart_exit) (orphaned reg) reg)))"

definition restore :: "state_json \<Rightarrow> found_holder list \<Rightarrow> persist_fault option \<Rightarrow> duration \<Rightarrow> registry \<Rightarrow> str list \<times> registry" where
  "restore j holders fault at_time reg =
     (case adopt_live_holders holders reg of (adopted, reg) \<Rightarrow> (adopted, reap_orphans j fault at_time reg))"

section \<open>The file on the disk\<close>

text \<open>
  Claim C33. The state file is never torn. Whatever step of a write fails, the file holds what it held or
  the complete new state, and it is the new state exactly when the write reports success; a mutation
  whose write was deferred by the debounce is on the disk after the next flush; and a file that does
  not parse is set aside where no later write touches it.
\<close>

theorem state_file_never_torn:
  assumes "sj_to_vec j (persisted_current (records_for_persistence reg) (rg_projects reg)) = Some bs"
  shows "sd_state (rg_disk (snd (persist_now j fault t reg))) =
      (if fst (persist_now j fault t reg) = Inr () then Some bs else sd_state (rg_disk reg))
    \<and> (let flushed = snd (flush_dirty j None t' (snd (persist j None t reg)))
       in sd_state (rg_disk flushed) = Some bs \<and> \<not> rg_dirty flushed)
    \<and> (\<forall>bad. sd_state (rg_disk reg) = Some bad \<and> sj_from_slice j bad = None \<longrightarrow>
        fst (load j alnum True True reg) = Inl InvalidData \<and>
        sd_corrupt (rg_disk (snd (persist j fault t (snd (load j alnum True True reg))))) = Some bad)"
proof -
  have now: "persist_now j None t reg = (Inr (), reg\<lparr>rg_disk := (rg_disk reg)\<lparr>sd_state := Some bs, sd_temp := None\<rparr>,
      rg_dirty := False, rg_last_persist := Some t\<rparr>)" for t
    using assms by (simp add: persist_now_def)
  have same: "records_for_persistence (reg\<lparr>rg_dirty := True\<rparr>) = records_for_persistence reg"
    unfolding records_for_persistence_def saved_record_def by simp
  have deferred: "sd_state (rg_disk (snd (persist_now j None t (reg\<lparr>rg_dirty := True\<rparr>)))) = Some bs
      \<and> \<not> rg_dirty (snd (persist_now j None t (reg\<lparr>rg_dirty := True\<rparr>)))" for t
    using assms by (simp add: persist_now_def same)
  have "let flushed = snd (flush_dirty j None t' (snd (persist j None t reg)))
       in sd_state (rg_disk flushed) = Some bs \<and> \<not> rg_dirty flushed"
    using deferred [of t'] by (auto simp: persist_def flush_dirty_def now Let_def split: option.split)
  moreover have "sd_corrupt (rg_disk (snd (persist j fault t r))) = sd_corrupt (rg_disk r)" for r
    by (auto simp: persist_def persist_now_def split: option.split persist_fault.split)
  ultimately show ?thesis
    using assms by (auto simp: persist_now_def load_def split: option.split persist_fault.split)
qed

section \<open>What a restart brings back\<close>

abbreviation by_id :: "session_record list \<Rightarrow> str \<Rightarrow> session_record option" where
  "by_id rs sid \<equiv> map_of (map (\<lambda>r. (sr_id r, r)) rs) sid"

lemma saved_id [simp]: "sr_id (saved_record reg r) = sr_id r"
  by (simp add: saved_record_def fold_session_status_def split: option.split)

lemma repair_id: "sr_id (snd (repair_persisted_agent_title alnum r)) = sr_id r"
  by (simp add: repair_persisted_agent_title_def split: option.split)

lemma reload_id [simp]: "sr_id (reload_record alnum roots r) = sr_id r"
  by (simp add: reload_record_def repair_id split: prod.split)

lemma by_id_Some: "distinct (map sr_id rs) \<Longrightarrow> by_id rs sid = Some r \<longleftrightarrow> r \<in> set rs \<and> sr_id r = sid"
  by (subst map_of_eq_Some_iff) (auto simp: comp_def)

lemma option_eqI: "(\<And>r. a = Some r \<longleftrightarrow> b = Some r) \<Longrightarrow> a = b"
  by (cases a; cases b) auto

lemma table_keys:
  assumes "table_inv reg"
  shows "rg_records reg = map (\<lambda>r. (sr_id r, r)) (map snd (rg_records reg))"
proof -
  have "sr_id r = k" if "(k, r) \<in> set (rg_records reg)" for k r
    using assms that by (auto simp: table_inv_def map_of_eq_Some_iff)
  then show ?thesis
    by (intro nth_equalityI) (auto simp: prod_eq_iff, metis nth_mem prod.collapse)
qed

lemma by_id_map:
  assumes "\<And>r. sr_id (f r) = sr_id r"
  shows "by_id (map f rs) sid = map_option f (by_id rs sid)"
  using assms by (induction rs) auto

lemma by_id_sort:
  assumes "distinct (map sr_id rs)"
  shows "distinct (map sr_id (sort_key sr_id rs))" "by_id (sort_key sr_id rs) sid = by_id rs sid"
proof -
  show d: "distinct (map sr_id (sort_key sr_id rs))"
    using assms by (simp add: distinct_map)
  have "by_id (sort_key sr_id rs) sid = Some r \<longleftrightarrow> by_id rs sid = Some r" for r
    unfolding by_id_Some [OF d] by_id_Some [OF assms] by simp
  then show "by_id (sort_key sr_id rs) sid = by_id rs sid"
    by (intro option_eqI) simp
qed

lemma saved_ids:
  assumes "table_inv reg"
  shows "distinct (map sr_id (records_for_persistence reg))"
    and "by_id (records_for_persistence reg) sid = map_option (saved_record reg) (record_of reg sid)"
proof -
  let ?rs = "map snd (rg_records reg)"
  have "distinct (map fst (map (\<lambda>r. (sr_id r, r)) ?rs))"
    using assms table_keys [OF assms] unfolding table_inv_def by metis
  then have "distinct (map sr_id (map (saved_record reg) ?rs))"
    by (simp add: comp_def)
  note sorted = by_id_sort [OF this, folded records_for_persistence_def]
  show "distinct (map sr_id (records_for_persistence reg))"
    by (rule sorted(1))
  have "record_of reg sid = by_id ?rs sid"
    using table_keys [OF assms] by simp
  then show "by_id (records_for_persistence reg) sid = map_option (saved_record reg) (record_of reg sid)"
    by (simp add: sorted(2) by_id_map del: map_map)
qed

lemma load_records:
  assumes "distinct (map sr_id rs)"
  shows "record_of (fold (\<lambda>r. insert_record (reload_record alnum roots r)) rs reg) sid =
    (case by_id rs sid of Some r \<Rightarrow> Some (reload_record alnum roots r) | None \<Rightarrow> record_of reg sid)"
  using assms
proof (induction rs arbitrary: reg)
  case (Cons r rs)
  have "by_id rs (sr_id r) = None"
    using Cons.prems by (auto simp: map_of_eq_None_iff)
  then show ?case
    using Cons by (auto simp: insert_record_def split: option.split)
qed simp

lemma ensure_keeps [simp]:
  "rg_records (snd (ensure_session_project rt host reg)) = rg_records reg"
  "rg_sessions (snd (ensure_session_project rt host reg)) = rg_sessions reg"
  "rg_disk (snd (ensure_session_project rt host reg)) = rg_disk reg"
  by (simp_all add: ensure_session_project_def Let_def split: option.split)

lemma ensure_all_keeps [simp]:
  "rg_records (fold (\<lambda>(rt, host) reg. snd (ensure_session_project rt host reg)) ls reg) = rg_records reg"
  "rg_sessions (fold (\<lambda>(rt, host) reg. snd (ensure_session_project rt host reg)) ls reg) = rg_sessions reg"
  by (induction ls arbitrary: reg) (auto simp: case_prod_unfold)

lemma insert_all_keeps [simp]:
  "rg_sessions (fold (\<lambda>r. insert_record (f r)) rs reg) = rg_sessions reg"
  "rg_projects (fold (\<lambda>r. insert_record (f r)) rs reg) = rg_projects reg"
  by (induction rs arbitrary: reg) (simp_all add: insert_record_def)

lemma load_sessions_records:
  assumes "distinct (map sr_id rs)"
  shows "record_of (load_sessions alnum rs reg) sid =
    (case by_id rs sid of Some r \<Rightarrow> Some (reload_record alnum (project_roots (rg_projects reg)) r) | None \<Rightarrow> record_of reg sid)"
  by (simp add: load_sessions_def Let_def load_records [OF assms])

lemma table_inv_load_sessions:
  assumes "table_inv reg"
  shows "table_inv (load_sessions alnum rs reg)"
proof -
  have "table_inv (fold (\<lambda>r. insert_record (f r)) rs reg)" if "table_inv reg" for f :: "session_record \<Rightarrow> session_record" and reg
    using that by (induction rs arbitrary: reg) (auto simp: insert_record_def intro: table_inv_put_record)
  moreover have "table_inv (fold (\<lambda>(rt, host) reg. snd (ensure_session_project rt host reg)) ls reg)" if "table_inv reg" for ls reg
    using that
    by (induction ls arbitrary: reg) (auto simp: ensure_session_project_def Let_def split: option.split)
  ultimately show ?thesis
    using assms by (simp add: load_sessions_def Let_def)
qed

lemma table_inv_new [simp]: "table_inv (registry_new engine disk)"
  by (simp add: table_inv_def registry_new_def)

lemma same_size:
  assumes "table_inv reg" "table_inv reg'" "\<And>sid. record_of reg sid = None \<longleftrightarrow> record_of reg' sid = None"
  shows "length (rg_records reg) = length (rg_records reg')"
proof -
  have "fst ` set (rg_records reg) = fst ` set (rg_records reg')"
    using assms(3) by (auto simp: map_of_eq_None_iff)
  moreover have "length (rg_records reg) = card (fst ` set (rg_records reg))" if "table_inv reg" for reg
    using that by (metis distinct_card length_map list.set_map table_inv_def)
  ultimately show ?thesis
    using assms(1,2) by metis
qed

lemma load_saved:
  assumes "sj_from_slice j bs = Some file" "distinct (map sr_id (pst_sessions file))" "sd_state disk = Some bs"
  shows "\<exists>reg. load j alnum True True (registry_new engine disk) = (Inr (length (rg_records reg)), reg) \<and> table_inv reg \<and> rg_sessions reg = [] \<and>
    reg = load_sessions alnum (pst_sessions file) ((registry_new engine disk)\<lparr>rg_projects := pst_projects file\<rparr>) \<and>
    (\<forall>sid. record_of reg sid = map_option (reload_record alnum (project_roots (pst_projects file))) (by_id (pst_sessions file) sid))"
proof -
  define reg where "reg = load_sessions alnum (pst_sessions file) ((registry_new engine disk)\<lparr>rg_projects := pst_projects file\<rparr>)"
  have "load j alnum True True (registry_new engine disk) = (Inr (length (rg_records reg)), reg)"
    using assms by (simp add: load_def registry_new_def reg_def Let_def)
  moreover have "table_inv reg"
    unfolding reg_def by (intro table_inv_load_sessions) simp
  moreover have "rg_sessions reg = []"
    by (simp add: reg_def load_sessions_def Let_def registry_new_def)
  moreover have "record_of reg sid = map_option (reload_record alnum (project_roots (pst_projects file))) (by_id (pst_sessions file) sid)" for sid
    unfolding reg_def using load_sessions_records [OF assms(2)]
    by (simp add: registry_new_def split: option.split)
  ultimately show ?thesis
    unfolding reg_def by blast
qed

lemma persisted_file:
  assumes "persist_now j None t reg = (Inr (), reg')" "\<And>st bs. sj_to_vec j st = Some bs \<Longrightarrow> sj_from_slice j bs = Some st"
  shows "\<exists>bs. sd_state (rg_disk reg') = Some bs \<and>
    sj_from_slice j bs = Some (persisted_current (records_for_persistence reg) (rg_projects reg))"
  using assms by (auto simp: persist_now_def split: option.splits)

lemma restart_loads:
  assumes "table_inv reg" "\<And>st bs. sj_to_vec j st = Some bs \<Longrightarrow> sj_from_slice j bs = Some st"
    and "persist_now j None t reg = (Inr (), reg')"
  shows "\<exists>again. load j alnum True True (registry_new engine (rg_disk reg')) = (Inr (length (rg_records reg)), again) \<and>
    (\<forall>sid. record_of again sid =
      map_option (\<lambda>r. reload_record alnum (project_roots (rg_projects reg)) (saved_record reg r)) (record_of reg sid))"
proof -
  obtain bs where bs: "sd_state (rg_disk reg') = Some bs"
    "sj_from_slice j bs = Some (persisted_current (records_for_persistence reg) (rg_projects reg))"
    using persisted_file [OF assms(3,2)] by blast
  have "distinct (map sr_id (pst_sessions (persisted_current (records_for_persistence reg) (rg_projects reg))))"
    using saved_ids(1) [OF assms(1)] by (simp add: persisted_current_def)
  then obtain again where again: "load j alnum True True (registry_new engine (rg_disk reg')) = (Inr (length (rg_records again)), again)"
    "table_inv again"
    "\<forall>sid. record_of again sid = map_option (reload_record alnum (project_roots (rg_projects reg))) (by_id (records_for_persistence reg) sid)"
    using load_saved [OF bs(2) _ bs(1), of alnum engine] by (auto simp: persisted_current_def)
  then have lookup: "record_of again sid =
      map_option (\<lambda>r. reload_record alnum (project_roots (rg_projects reg)) (saved_record reg r)) (record_of reg sid)" for sid
    by (simp add: saved_ids(2) [OF assms(1)] option.map_comp comp_def)
  then have "length (rg_records again) = length (rg_records reg)"
    using same_size [OF again(2) assms(1)] by simp
  then show ?thesis
    using again(1) lookup by auto
qed


section \<open>A second restart\<close>

lemma repair_other_project:
  "repair_persisted_agent_title alnum (r\<lparr>sr_project_id := p\<rparr>) =
     map_prod id (\<lambda>r. r\<lparr>sr_project_id := p\<rparr>) (repair_persisted_agent_title alnum r)"
  by (auto simp: repair_persisted_agent_title_def terminal_title_def is_generic_terminal_title_def Let_def
      split: option.split)

lemma repair_twice:
  assumes "unicode_alnum alnum"
  shows "snd (repair_persisted_agent_title alnum (snd (repair_persisted_agent_title alnum r))) = snd (repair_persisted_agent_title alnum r)"
  using repair_result [OF assms, of r "fst (repair_persisted_agent_title alnum r)" "snd (repair_persisted_agent_title alnum r)"] by simp

text \<open>No two locations of a file share a project id, nor does a location with a project of another root.\<close>

definition clash_free :: "(nat \<Rightarrow> bool) \<Rightarrow> persisted_state \<Rightarrow> bool" where
  "clash_free alnum file \<longleftrightarrow>
     (let roots = project_roots (pst_projects file); ls = set (map (location_of alnum roots) (pst_sessions file))
      in \<forall>(rt, host) \<in> ls.
           (\<forall>(rt', host') \<in> ls. session_project_id rt' host' = session_project_id rt host \<longrightarrow> rt' = rt) \<and>
           (\<forall>p \<in> set (pst_projects file). project_key p = Some (session_project_id rt host) \<longrightarrow>
              project_root p = Some (session_project_id rt host, rt)))"

definition made_for :: "(str \<times> str option) set \<Rightarrow> json_value \<Rightarrow> bool" where
  "made_for ls p \<longleftrightarrow> (\<exists>(rt, host) \<in> ls. project_root p = Some (session_project_id rt host, rt))"

lemma made_forD: "made_for ls p \<Longrightarrow> \<exists>rt host. (rt, host) \<in> ls \<and> project_root p = Some (session_project_id rt host, rt)"
  by (auto simp: made_for_def)

lemma ensure_projects:
  "\<exists>new. rg_projects (snd (ensure_session_project rt host reg)) = rg_projects reg @ new \<and> (\<forall>p \<in> set new. made_for {(rt, host)} p) \<and>
     (\<exists>p \<in> set (rg_projects reg @ new). project_key p = Some (session_project_id rt host))"
proof (cases "find (\<lambda>p. project_key p = Some (session_project_id rt host)) (rg_projects reg)")
  case None
  then show ?thesis
    by (auto simp: ensure_session_project_def Let_def made_for_def project_root_def project_key_def lit_def)
next
  case (Some p)
  then have "p \<in> set (rg_projects reg)" "project_key p = Some (session_project_id rt host)"
    by (auto simp: find_Some_iff)
  then show ?thesis
    using Some by (intro exI [of _ "[]"]) (auto simp: ensure_session_project_def Let_def)
qed

lemma ensure_all_projects:
  "\<exists>new. rg_projects (fold (\<lambda>(rt, host) reg. snd (ensure_session_project rt host reg)) ls reg) = rg_projects reg @ new \<and>
     (\<forall>p \<in> set new. made_for (set ls) p) \<and>
     (\<forall>(rt, host) \<in> set ls. \<exists>p \<in> set (rg_projects reg @ new). project_key p = Some (session_project_id rt host))"
proof (induction ls arbitrary: reg)
  case (Cons l ls)
  obtain rt host where l: "l = (rt, host)"
    by fastforce
  obtain new where new: "rg_projects (snd (ensure_session_project rt host reg)) = rg_projects reg @ new"
    "\<forall>p \<in> set new. made_for {(rt, host)} p"
    "\<exists>p \<in> set (rg_projects reg @ new). project_key p = Some (session_project_id rt host)"
    using ensure_projects by blast
  obtain new' where new': "rg_projects (fold (\<lambda>(rt, host) reg. snd (ensure_session_project rt host reg)) ls (snd (ensure_session_project rt host reg)))
      = (rg_projects reg @ new) @ new'" "\<forall>p \<in> set new'. made_for (set ls) p"
    "\<forall>(rt, host) \<in> set ls. \<exists>p \<in> set ((rg_projects reg @ new) @ new'). project_key p = Some (session_project_id rt host)"
    using Cons.IH [of "snd (ensure_session_project rt host reg)"] unfolding new(1) by blast
  have "\<forall>p \<in> set (new @ new'). made_for (set (l # ls)) p"
    using new(2) new'(2) by (auto simp: l made_for_def)
  moreover have "\<forall>(rt, host) \<in> set (l # ls). \<exists>p \<in> set (rg_projects reg @ new @ new'). project_key p = Some (session_project_id rt host)"
    using new(3) new'(3) by (fastforce simp: l)
  ultimately show ?case
    using new'(1) by (intro exI [of _ "new @ new'"]) (simp add: l)
qed simp

lemma map_of_unique:
  assumes "\<exists>v. (k, v) \<in> set kvs" "\<And>v. (k, v) \<in> set kvs \<Longrightarrow> v = w"
  shows "map_of kvs k = Some w"
  using assms by (metis map_of_SomeD not_None_eq weak_map_of_SomeI)

lemma project_root_key: "project_root p = Some (k, rt) \<Longrightarrow> project_key p = Some k"
  by (auto simp: project_root_def project_key_def bind_eq_Some_conv)

lemma project_roots_entries: "(k, rt) \<in> set (rev (List.map_filter project_root ps)) \<longleftrightarrow> (\<exists>p \<in> set ps. project_root p = Some (k, rt))"
  by (force simp: map_filter_def)

text \<open>After loading, the projects know the location of every session.\<close>

lemma loaded_roots:
  assumes "clash_free alnum file" "r \<in> set (pst_sessions file)"
    and "location_of alnum (project_roots (pst_projects file)) r = (rt, host)"
  shows "project_roots (rg_projects (load_sessions alnum (pst_sessions file) (reg\<lparr>rg_projects := pst_projects file\<rparr>)))
    (session_project_id rt host) = Some rt"
proof -
  let ?ls = "map (location_of alnum (project_roots (pst_projects file))) (pst_sessions file)"
  let ?pid = "session_project_id rt host"
  let ?reg = "load_sessions alnum (pst_sessions file) (reg\<lparr>rg_projects := pst_projects file\<rparr>)"
  have l: "(rt, host) \<in> set ?ls"
    using assms(2,3) by (metis image_eqI list.set_map)
  then have free: "\<And>rt' host'. (rt', host') \<in> set ?ls \<Longrightarrow> session_project_id rt' host' = ?pid \<Longrightarrow> rt' = rt"
    "\<And>p. p \<in> set (pst_projects file) \<Longrightarrow> project_key p = Some ?pid \<Longrightarrow> project_root p = Some (?pid, rt)"
    using assms(1) unfolding clash_free_def Let_def by blast+
  obtain new where new: "rg_projects ?reg = pst_projects file @ new" "\<forall>p \<in> set new. made_for (set ?ls) p"
    "\<forall>(rt, host) \<in> set ?ls. \<exists>p \<in> set (pst_projects file @ new). project_key p = Some (session_project_id rt host)"
    using ensure_all_projects [of ?ls "fold (\<lambda>r. insert_record (reload_record alnum (project_roots (pst_projects file)) r))
      (pst_sessions file) (reg\<lparr>rg_projects := pst_projects file\<rparr>)"]
    by (auto simp: load_sessions_def Let_def)
  have root_of: "project_root p = Some (?pid, rt)" if "p \<in> set (rg_projects ?reg)" "project_key p = Some ?pid" for p
  proof (cases "p \<in> set (pst_projects file)")
    case False
    then have "p \<in> set new"
      using that(1) unfolding new(1) by (metis UnE set_append)
    then have "made_for (set ?ls) p"
      using new(2) by (metis (no_types))
    then obtain rt' host' where made: "(rt', host') \<in> set ?ls" "project_root p = Some (session_project_id rt' host', rt')"
      using made_forD by (metis (no_types, lifting))
    then have "session_project_id rt' host' = ?pid"
      using project_root_key that(2) by fastforce
    then show ?thesis
      using made free(1) by metis
  qed (use free(2) that(2) in blast)
  obtain p where "p \<in> set (rg_projects ?reg)" "project_key p = Some ?pid"
    using new(1,3) l by fastforce
  then show ?thesis
    unfolding project_roots_def using root_of project_root_key
    by (intro map_of_unique) (metis project_roots_entries prod.inject option.inject)+
qed

lemma reload_twice:
  assumes "unicode_alnum alnum" "clash_free alnum file" "r \<in> set (pst_sessions file)"
  shows "reload_record alnum
      (project_roots (rg_projects (load_sessions alnum (pst_sessions file) (reg\<lparr>rg_projects := pst_projects file\<rparr>))))
      (reload_record alnum (project_roots (pst_projects file)) r) = reload_record alnum (project_roots (pst_projects file)) r"
proof -
  obtain rt host where l: "location_of alnum (project_roots (pst_projects file)) r = (rt, host)"
    by fastforce
  define r1 where "r1 = reload_record alnum (project_roots (pst_projects file)) r"
  have r1: "r1 = (snd (repair_persisted_agent_title alnum r))\<lparr>sr_project_id := session_project_id rt host\<rparr>"
    by (simp add: r1_def reload_record_def l)
  have host: "sr_host (snd (repair_persisted_agent_title alnum r)) = host"
    using l by (simp add: location_of_def Let_def)
  have fixed: "snd (repair_persisted_agent_title alnum r1) = r1"
    by (simp add: r1 repair_other_project repair_twice [OF assms(1)])
  then show ?thesis
    unfolding r1_def [symmetric]
    by (simp add: reload_record_def location_of_def Let_def fixed) (simp add: r1 loaded_roots [OF assms(2,3) l] host)
qed

text \<open>
  A second restart changes nothing. Writing the state right after it was loaded and loading it
  again gives the same records, so that repairing titles and projects does not drift; the project ids,
  48 bits of a hash, must not clash.
\<close>

theorem second_restart_changes_nothing:
  assumes "unicode_alnum alnum" "\<And>st bs. sj_to_vec j st = Some bs \<Longrightarrow> sj_from_slice j bs = Some st"
    and "sj_from_slice j bs = Some file" "distinct (map sr_id (pst_sessions file))" "clash_free alnum file"
    and "load j alnum True True (registry_new engine \<lparr>sd_state = Some bs, sd_temp = None, sd_corrupt = None\<rparr>) = (res1, reg1)"
    and "persist_now j None t reg1 = (Inr (), reg2)"
  shows "\<exists>reg3. load j alnum True True (registry_new engine (rg_disk reg2)) = (res1, reg3) \<and> record_of reg3 = record_of reg1"
proof -
  let ?new = "registry_new engine \<lparr>sd_state = Some bs, sd_temp = None, sd_corrupt = None\<rparr>"
  have reg1: "table_inv reg1" "rg_sessions reg1 = []" "res1 = Inr (length (rg_records reg1))"
    "reg1 = load_sessions alnum (pst_sessions file) (?new\<lparr>rg_projects := pst_projects file\<rparr>)"
    "\<And>sid. record_of reg1 sid = map_option (reload_record alnum (project_roots (pst_projects file))) (by_id (pst_sessions file) sid)"
    using load_saved [OF assms(3,4), of "\<lparr>sd_state = Some bs, sd_temp = None, sd_corrupt = None\<rparr>" alnum engine] assms(6) by auto
  obtain reg3 where reg3: "load j alnum True True (registry_new engine (rg_disk reg2)) = (Inr (length (rg_records reg1)), reg3)"
    "\<And>sid. record_of reg3 sid = map_option (\<lambda>r. reload_record alnum (project_roots (rg_projects reg1)) (saved_record reg1 r)) (record_of reg1 sid)"
    using restart_loads [OF reg1(1) assms(2,7)] by blast
  have "reload_record alnum (project_roots (rg_projects reg1)) (saved_record reg1 r) = r" if "record_of reg1 sid = Some r" for sid r
  proof -
    have "map_option (reload_record alnum (project_roots (pst_projects file))) (by_id (pst_sessions file) sid) = Some r"
      using that unfolding reg1(5) .
    then obtain r0 where r0: "by_id (pst_sessions file) sid = Some r0" "r = reload_record alnum (project_roots (pst_projects file)) r0"
      unfolding map_option_eq_Some by blast
    then have "r0 \<in> set (pst_sessions file)"
      unfolding by_id_Some [OF assms(4)] by blast
    then show ?thesis
      using r0(2) reload_twice [OF assms(1,5), of r0 ?new] reg1(2,4) by (simp add: saved_record_def)
  qed
  then have "record_of reg3 sid = record_of reg1 sid" for sid
    using reg3(2) [of sid] by (cases "record_of reg1 sid") auto
  then show ?thesis
    using reg3(1) reg1(3) by auto
qed

section \<open>Nothing claims to run that does not\<close>

lemma adopt_Cons:
  obtains (skip) "adopt_live_holders ((k, alive, adopt) # holders) reg = adopt_live_holders holders reg"
  | (adopt) r s where "record_of reg k = Some r" "session_of reg k = None" "sr_hibernation r \<noteq> None \<longrightarrow> ls_hibernated s"
      "\<exists>s0. adopt (seed_status r) = Some s0 \<and> s = (if sr_hibernation r \<noteq> None then snd (set_hibernated True True s0) else s0)"
      "adopt_live_holders ((k, alive, adopt) # holders) reg =
        (k # fst (adopt_live_holders holders (insert_session k s reg)), snd (adopt_live_holders holders (insert_session k s reg)))"
proof (cases "\<exists>r s. record_of reg k = Some r \<and> session_of reg k = None \<and> alive = Some True \<and> adopt (seed_status r) = Some s")
  case True
  then obtain r s where rs: "record_of reg k = Some r" "session_of reg k = None" "alive = Some True" "adopt (seed_status r) = Some s"
    by blast
  define s' where "s' = (if sr_hibernation r \<noteq> None then snd (set_hibernated True True s) else s)"
  have "adopt_live_holders ((k, alive, adopt) # holders) reg =
      (k # fst (adopt_live_holders holders (insert_session k s' reg)), snd (adopt_live_holders holders (insert_session k s' reg)))"
    using rs by (simp add: s'_def Let_def split: prod.split)
  moreover have "sr_hibernation r \<noteq> None \<longrightarrow> ls_hibernated s'"
    by (simp add: s'_def set_hibernated_def)
  ultimately show thesis
    using that(2) [of r s'] rs s'_def by blast
next
  case False
  then have "adopt_live_holders ((k, alive, adopt) # holders) reg = adopt_live_holders holders reg"
    by (auto split: option.split)
  then show thesis
    by (rule that(1))
qed

lemma adopt_keeps:
  "rg_records (snd (adopt_live_holders holders reg)) = rg_records reg
   \<and> (session_of reg sid = Some s \<longrightarrow> session_of (snd (adopt_live_holders holders reg)) sid = Some s)
   \<and> (table_inv reg \<longrightarrow> table_inv (snd (adopt_live_holders holders reg)))"
proof (induction holders arbitrary: reg)
  case (Cons h holders)
  obtain k alive adopt where h: "h = (k, alive, adopt)"
    by (cases h)
  show ?case
    unfolding h
  proof (cases rule: adopt_Cons [of k alive adopt holders reg])
    case skip
    then show "rg_records (snd (adopt_live_holders ((k, alive, adopt) # holders) reg)) = rg_records reg
        \<and> (session_of reg sid = Some s \<longrightarrow> session_of (snd (adopt_live_holders ((k, alive, adopt) # holders) reg)) sid = Some s)
        \<and> (table_inv reg \<longrightarrow> table_inv (snd (adopt_live_holders ((k, alive, adopt) # holders) reg)))"
      using Cons.IH [of reg] by metis
  next
    case (adopt r t)
    then show "rg_records (snd (adopt_live_holders ((k, alive, adopt) # holders) reg)) = rg_records reg
        \<and> (session_of reg sid = Some s \<longrightarrow> session_of (snd (adopt_live_holders ((k, alive, adopt) # holders) reg)) sid = Some s)
        \<and> (table_inv reg \<longrightarrow> table_inv (snd (adopt_live_holders ((k, alive, adopt) # holders) reg)))"
      using Cons.IH [of "insert_session k t reg"] table_inv_insert_session [of reg k t] by (auto simp only: registry_sel lookup_conv snd_conv fun_upd_apply split: if_splits)
  qed
qed simp

lemma adopted_live:
  assumes "sid \<in> set (fst (adopt_live_holders holders reg))"
  shows "\<exists>s r. session_of (snd (adopt_live_holders holders reg)) sid = Some s \<and> record_of reg sid = Some r \<and>
    (sr_hibernation r \<noteq> None \<longrightarrow> ls_hibernated s)"
  using assms
proof (induction holders arbitrary: reg)
  case (Cons h holders)
  obtain k alive adopt where h: "h = (k, alive, adopt)"
    by (cases h)
  show ?case
  proof (cases rule: adopt_Cons [of k alive adopt holders reg])
    case skip
    then show ?thesis
      using Cons h by metis
  next
    case (adopt r t)
    show ?thesis
    proof (cases "sid \<in> set (fst (adopt_live_holders holders (insert_session k t reg)))")
      case True
      then show ?thesis
        using Cons.IH [of "insert_session k t reg"] adopt(5) h by (metis registry_sel(8) snd_conv)
    next
      case False
      then have "sid = k"
        using Cons.prems adopt(5) h by simp
      moreover have "session_of (snd (adopt_live_holders holders (insert_session k t reg))) k = Some t"
        using adopt_keeps [of holders "insert_session k t reg" k t] by simp
      ultimately show ?thesis
        using adopt h by (metis snd_conv)
    qed
  qed
qed simp

lemma persist_keeps:
  "rg_records (snd (persist j fault t reg)) = rg_records reg" "rg_sessions (snd (persist j fault t reg)) = rg_sessions reg"
  by (auto simp: persist_def persist_now_def split: option.split persist_fault.split)

lemma restart_exit_simps [simp]:
  "restart_exit (restart_exit r) = restart_exit r" "is_exited (sr_status (restart_exit r))" "sr_host (restart_exit r) = sr_host r"
  by (simp_all add: restart_exit_def is_exited_def)

lemma with_records_exit:
  "record_of (fold (\<lambda>sid. with_record sid restart_exit) ids reg) sid =
     (if sid \<in> set ids then map_option restart_exit (record_of reg sid) else record_of reg sid)"
  "rg_sessions (fold (\<lambda>sid. with_record sid restart_exit) ids reg) = rg_sessions reg"
  by (induction ids arbitrary: reg) (auto simp: option.map_comp comp_def)

lemma reap_records:
  assumes "table_inv reg"
  shows "record_of (reap_orphans j fault t reg) sid = map_option
      (\<lambda>r. if sr_host r = None \<and> \<not> is_exited (sr_status r) \<and> session_of reg sid = None then restart_exit r else r) (record_of reg sid)"
    and "rg_sessions (reap_orphans j fault t reg) = rg_sessions reg"
proof -
  have "sid \<in> set (orphaned reg) \<longleftrightarrow> (\<exists>r. record_of reg sid = Some r \<and> sr_host r = None \<and> \<not> is_exited (sr_status r) \<and> session_of reg sid = None)"
  proof -
    have mem: "(k, r) \<in> set (rg_records reg) \<longleftrightarrow> record_of reg k = Some r" and key: "record_of reg k = Some r \<Longrightarrow> sr_id r = k" for k r
      using assms by (simp_all add: table_inv_def map_of_eq_Some_iff)
    have "sid \<in> set (orphaned reg) \<longleftrightarrow> (\<exists>k r. (k, r) \<in> set (rg_records reg) \<and> sr_id r = sid \<and>
        sr_host r = None \<and> \<not> is_exited (sr_status r) \<and> session_of reg sid = None)"
      by (force simp: orphaned_def)
    then show ?thesis
      unfolding mem using key by blast
  qed
  then show "record_of (reap_orphans j fault t reg) sid = map_option
      (\<lambda>r. if sr_host r = None \<and> \<not> is_exited (sr_status r) \<and> session_of reg sid = None then restart_exit r else r) (record_of reg sid)"
    by (cases "record_of reg sid") (auto simp: reap_orphans_def persist_keeps with_records_exit)
  show "rg_sessions (reap_orphans j fault t reg) = rg_sessions reg"
    by (simp add: reap_orphans_def persist_keeps with_records_exit)
qed

text \<open>
  Claim C9. After a restart no local record claims a status that only a running process can have: it has
  exited, or it has a live session; the records of remote sessions and of sessions whose holder
  answered are as they were, and a session that was frozen is adopted as frozen.
\<close>

theorem nothing_claims_to_run_unbacked:
  assumes "table_inv reg" "restore j holders fault t reg = (adopted, reg')"
  shows "(\<forall>sid r. record_of reg' sid = Some r \<and> sr_host r = None \<and> session_of reg' sid = None \<longrightarrow> is_exited (sr_status r))
    \<and> (\<forall>sid r. record_of reg sid = Some r \<and> (sr_host r \<noteq> None \<or> session_of reg' sid \<noteq> None) \<longrightarrow> record_of reg' sid = Some r)
    \<and> (\<forall>sid \<in> set adopted. \<exists>s r. session_of reg' sid = Some s \<and> record_of reg sid = Some r \<and> (sr_hibernation r \<noteq> None \<longrightarrow> ls_hibernated s))"
proof -
  define mid where "mid = snd (adopt_live_holders holders reg)"
  have adopted: "adopted = fst (adopt_live_holders holders reg)" and reg': "reg' = reap_orphans j fault t mid"
    using assms(2) by (simp_all add: restore_def mid_def case_prod_unfold)
  have rec: "rg_records mid = rg_records reg"
    using adopt_keeps by (simp add: mid_def)
  have "table_inv mid"
    unfolding mid_def using assms(1) adopt_keeps by blast
  note reaped = reap_records [OF this, of j fault t, folded reg']
  have "is_exited (sr_status r)" if "record_of reg' sid = Some r" "sr_host r = None" "session_of reg' sid = None" for sid r
    using that by (cases "record_of mid sid") (auto simp: reaped split: if_splits)
  moreover have "record_of reg' sid = Some r" if "record_of reg sid = Some r" "sr_host r \<noteq> None \<or> session_of reg' sid \<noteq> None" for sid r
    using that by (auto simp: reaped rec)
  ultimately show ?thesis
    using adopted_live [of _ holders reg] by (auto simp: adopted reaped(2) mid_def)
qed

section \<open>Witnesses\<close>

definition two_files :: "persisted_state \<Rightarrow> persisted_state \<Rightarrow> state_json" where
  "two_files old new = \<lparr>sj_to_vec = (\<lambda>st. if st = new then Some [2] else None),
     sj_from_slice = (\<lambda>bs. if bs = [2] then Some new else if bs = [1] then Some old else None)\<rparr>"

lemma two_files_law: "sj_to_vec (two_files old new) x = Some bs \<Longrightarrow> sj_from_slice (two_files old new) bs = Some x"
  by (auto simp: two_files_def split: if_splits)

definition one_session :: registry where
  "one_session = insert_record (sample_session [1] Working) (registry_new no_engine empty_state_disk)"

definition saved_state :: "registry \<Rightarrow> persisted_state" where
  "saved_state reg = persisted_current (records_for_persistence reg) (rg_projects reg)"

definition saving :: "registry \<Rightarrow> state_json" where
  "saving reg = two_files (saved_state reg) (saved_state reg)"

lemma one_session_inv: "table_inv one_session"
  unfolding one_session_def insert_record_def by (intro table_inv_put_record) auto

lemma saving_writes: "sj_to_vec (saving reg) (persisted_current (records_for_persistence reg) (rg_projects reg)) = Some [2]"
  by (simp add: saving_def two_files_def saved_state_def)

theorem state_file_never_torn_witness:
  "sd_state (rg_disk (snd (persist_now (saving one_session) (Some RenameFails) 0 one_session))) = None
   \<and> sd_state (rg_disk (snd (flush_dirty (saving one_session) None 1 (snd (persist (saving one_session) None 0 one_session))))) = Some [2]"
proof -
  have "fst (persist_now (saving one_session) (Some RenameFails) 0 one_session) \<noteq> Inr ()"
    using saving_writes [of one_session] by (simp add: persist_now_def)
  moreover have "sd_state (rg_disk one_session) = None"
    by (simp add: one_session_def insert_record_def registry_new_def empty_state_disk_def)
  ultimately show ?thesis
    using state_file_never_torn [OF saving_writes [of one_session], of "Some RenameFails" 0 1] by (simp add: Let_def)
qed


theorem second_restart_changes_nothing_witness:
  "\<exists>j reg1 reg2 reg3.
     load j (\<lambda>_. False) True True (registry_new no_engine \<lparr>sd_state = Some [1], sd_temp = None, sd_corrupt = None\<rparr>) = (Inr 1, reg1) \<and>
     persist_now j None 0 reg1 = (Inr (), reg2) \<and>
     load j (\<lambda>_. False) True True (registry_new no_engine (rg_disk reg2)) = (Inr 1, reg3) \<and> record_of reg3 = record_of reg1"
proof -
  define old where "old = persisted_current [sample_session [1] Working] []"
  define new where "new = registry_new no_engine \<lparr>sd_state = Some [1], sd_temp = None, sd_corrupt = None\<rparr>"
  define reg1 where "reg1 = load_sessions (\<lambda>_. False) (pst_sessions old) (new\<lparr>rg_projects := pst_projects old\<rparr>)"
  define j where "j = two_files old (saved_state reg1)"
  define reg2 where "reg2 = snd (persist_now j None 0 reg1)"
  have alnum: "unicode_alnum (\<lambda>_. False)"
    by (simp add: unicode_alnum_def)
  have law: "\<And>st bs. sj_to_vec j st = Some bs \<Longrightarrow> sj_from_slice j bs = Some st"
    unfolding j_def by (rule two_files_law)
  have read: "sj_from_slice j [1] = Some old"
    by (simp add: j_def two_files_def)
  have ids: "distinct (map sr_id (pst_sessions old))"
    by (simp add: old_def persisted_current_def)
  have free: "clash_free (\<lambda>_. False) old"
    by (simp add: clash_free_def old_def persisted_current_def Let_def split: prod.split)
  have one: "length (rg_records reg1) = 1"
    by (simp add: reg1_def load_sessions_def Let_def old_def persisted_current_def insert_record_def new_def registry_new_def split: prod.split)
  have first: "load j (\<lambda>_. False) True True new = (Inr 1, reg1)"
    using read one by (simp add: load_def new_def registry_new_def reg1_def Let_def)
  have saved: "persist_now j None 0 reg1 = (Inr (), reg2)"
    by (simp add: reg2_def persist_now_def j_def two_files_def saved_state_def)
  show ?thesis
    using second_restart_changes_nothing [OF alnum law read ids free first [unfolded new_def] saved] first [unfolded new_def] saved by blast
qed

theorem nothing_claims_to_run_unbacked_witness:
  "\<exists>r. record_of (snd (restore (saving one_session) [] None 0 one_session)) [1] = Some r \<and> is_exited (sr_status r)"
proof -
  let ?reg = "snd (restore (saving one_session) [] None 0 one_session)"
  have r: "restore (saving one_session) [] None 0 one_session = ([], ?reg)"
    by (simp add: restore_def)
  have reg: "?reg = reap_orphans (saving one_session) None 0 one_session"
    by (simp add: restore_def)
  have none: "session_of ?reg [1] = None"
    unfolding reg by (simp add: reap_records(2) [OF one_session_inv]) (simp add: one_session_def insert_record_def registry_new_def)
  obtain r where rec: "record_of ?reg [1] = Some r" "sr_host r = None"
    unfolding reg
    by (simp add: reap_records(1) [OF one_session_inv])
      (simp add: one_session_def insert_record_def registry_new_def sample_session_def is_exited_def)
  then show ?thesis
    using nothing_claims_to_run_unbacked [OF one_session_inv r] none by blast
qed

end
