(* ===== verification/Registry_Store.thy ===== *)
theory Registry_Store
  imports Registry_Persist "HOL-Library.Multiset"
begin

text \<open>
  The two persistence stores (\<^verbatim>\<open>homie-engine/src/registry/store.rs\<close>) and the migration between them
  (\<^verbatim>\<open>registry/migrate.rs\<close>): one file with the whole state, or one file per session beside a file of projects.
  The trait \<^verbatim>\<open>PersistenceStore\<close> is the locale \<open>session_store\<close>, interpreted for both. Files are a list of paths with
  their bytes; which files can be read, and how a write fails, are inputs; JSON is a parameter.
\<close>

declare map_of_eq_Some_iff [simp del]

section \<open>Files\<close>

type_synonym file_system = "(str \<times> bytes) list"

record store_json =
  tj_state :: state_json
  tj_session_to :: "session_record \<Rightarrow> bytes option"
  tj_session_from :: "bytes \<Rightarrow> session_record option"
  tj_projects_to :: "json_value list \<Rightarrow> bytes option"
  tj_projects_from :: "bytes \<Rightarrow> json_value list option"

definition path_join :: "str \<Rightarrow> str \<Rightarrow> str" where
  "path_join a b = (if path_is_absolute b then b else a @ 47 # b)"

definition split_name :: "str \<Rightarrow> str \<times> str" where
  "split_name path = (case rposition (\<lambda>c. c = 47) path of None \<Rightarrow> ([], path) | Some i \<Rightarrow> (take (i + 1) path, drop (i + 1) path))"

text \<open>A leading dot does not begin an extension.\<close>

definition split_extension :: "str \<Rightarrow> str \<times> str option" where
  "split_extension name =
     (case rposition (\<lambda>c. c = 46) name of Some (Suc i) \<Rightarrow> (take (Suc i) name, Some (drop (i + 2) name)) | _ \<Rightarrow> (name, None))"

definition with_extension :: "str \<Rightarrow> str \<Rightarrow> str" where
  "with_extension ext path = (case split_name path of (dir, name) \<Rightarrow> dir @ fst (split_extension name) @ 46 # ext)"

definition dir_names :: "str \<Rightarrow> file_system \<Rightarrow> str list" where
  "dir_names dir fs = map (drop (length dir + 1)) (filter (\<lambda>p. starts_with p (dir @ [47]) \<and> 47 \<notin> set (drop (length dir + 1) p)) (map fst fs))"

definition write_json_atomic :: "('a \<Rightarrow> bytes option) \<Rightarrow> persist_fault option \<Rightarrow> str \<Rightarrow> 'a \<Rightarrow> file_system
    \<Rightarrow> (registry_error, unit) result \<times> file_system" where
  "write_json_atomic enc fault path x fs =
     (case enc x of
        None \<Rightarrow> (Inl InvalidData, fs)
      | Some bs \<Rightarrow>
          let temp = with_extension (lit ''json.tmp'') path
          in case fault of
               Some DirFails \<Rightarrow> (Inl RegistryIo, fs)
             | Some (WriteFails part) \<Rightarrow> (Inl RegistryIo, AList.update temp part fs)
             | Some RenameFails \<Rightarrow> (Inl RegistryIo, AList.update temp bs fs)
             | None \<Rightarrow> (Inr (), AList.update path bs (AList.delete temp fs)))"

section \<open>One file\<close>

definition load_state :: "store_json \<Rightarrow> (str \<Rightarrow> bool) \<Rightarrow> str \<Rightarrow> file_system \<Rightarrow> (registry_error, persisted_state) result" where
  "load_state j readable state_file fs =
     (case map_of fs state_file of
        None \<Rightarrow> Inr (persisted_current [] [])
      | Some bs \<Rightarrow>
          if \<not> readable state_file then Inl RegistryIo
          else (case sj_from_slice (tj_state j) bs of None \<Rightarrow> Inl InvalidData | Some kept \<Rightarrow> Inr kept))"

definition write_state :: "store_json \<Rightarrow> persist_fault option \<Rightarrow> str \<Rightarrow> persisted_state \<Rightarrow> file_system \<Rightarrow> (registry_error, unit) result \<times> file_system" where
  "write_state j fault state_file = write_json_atomic (sj_to_vec (tj_state j)) fault state_file"

definition envelope_load_projects :: "store_json \<Rightarrow> (str \<Rightarrow> bool) \<Rightarrow> str \<Rightarrow> file_system \<Rightarrow> (registry_error, json_value list) result" where
  "envelope_load_projects j readable state_file fs = and_then (load_state j readable state_file fs) (\<lambda>kept. Inr (pst_projects kept))"

definition envelope_load_sessions :: "store_json \<Rightarrow> (str \<Rightarrow> bool) \<Rightarrow> str \<Rightarrow> file_system \<Rightarrow> (registry_error, session_record list) result" where
  "envelope_load_sessions j readable state_file fs = and_then (load_state j readable state_file fs) (\<lambda>kept. Inr (pst_sessions kept))"

text \<open>Replacing the first element that matches, or adding one at the end.\<close>

fun put_by :: "('a \<Rightarrow> bool) \<Rightarrow> 'a \<Rightarrow> 'a list \<Rightarrow> 'a list" where
  "put_by P y [] = [y]"
| "put_by P y (x # xs) = (if P x then y # xs else x # put_by P y xs)"

definition put_project :: "json_value \<Rightarrow> json_value list \<Rightarrow> json_value list" where
  "put_project p ps = (case project_key p of None \<Rightarrow> ps @ [p] | Some k \<Rightarrow> put_by (\<lambda>q. project_key q = Some k) p ps)"

definition envelope_save_project :: "store_json \<Rightarrow> (str \<Rightarrow> bool) \<Rightarrow> str \<Rightarrow> persist_fault option \<Rightarrow> json_value \<Rightarrow> file_system
    \<Rightarrow> (registry_error, unit) result \<times> file_system" where
  "envelope_save_project j readable state_file fault p fs =
     (case load_state j readable state_file fs of
        Inl e \<Rightarrow> (Inl e, fs)
      | Inr kept \<Rightarrow> write_state j fault state_file (kept\<lparr>pst_projects := put_project p (pst_projects kept)\<rparr>) fs)"

definition envelope_save_session :: "store_json \<Rightarrow> (str \<Rightarrow> bool) \<Rightarrow> str \<Rightarrow> persist_fault option \<Rightarrow> session_record \<Rightarrow> file_system
    \<Rightarrow> (registry_error, unit) result \<times> file_system" where
  "envelope_save_session j readable state_file fault r fs =
     (case load_state j readable state_file fs of
        Inl e \<Rightarrow> (Inl e, fs)
      | Inr kept \<Rightarrow> write_state j fault state_file (kept\<lparr>pst_sessions := put_by (\<lambda>q. sr_id q = sr_id r) r (pst_sessions kept)\<rparr>) fs)"

definition envelope_delete_session :: "store_json \<Rightarrow> (str \<Rightarrow> bool) \<Rightarrow> str \<Rightarrow> persist_fault option \<Rightarrow> str \<Rightarrow> file_system
    \<Rightarrow> (registry_error, unit) result \<times> file_system" where
  "envelope_delete_session j readable state_file fault sid fs =
     (case load_state j readable state_file fs of
        Inl e \<Rightarrow> (Inl e, fs)
      | Inr kept \<Rightarrow> write_state j fault state_file (kept\<lparr>pst_sessions := filter (\<lambda>r. sr_id r \<noteq> sid) (pst_sessions kept)\<rparr>) fs)"

section \<open>One file per session\<close>

definition projects_file :: "str \<Rightarrow> str" where "projects_file dir = path_join dir (lit ''projects.json'')"
definition sessions_dir :: "str \<Rightarrow> str" where "sessions_dir dir = path_join dir (lit ''sessions'')"
definition session_file :: "str \<Rightarrow> str \<Rightarrow> str" where "session_file dir sid = path_join (sessions_dir dir) (sid @ lit ''.json'')"

definition split_load_projects :: "store_json \<Rightarrow> (str \<Rightarrow> bool) \<Rightarrow> str \<Rightarrow> file_system \<Rightarrow> (registry_error, json_value list) result" where
  "split_load_projects j readable dir fs =
     (case map_of fs (projects_file dir) of
        None \<Rightarrow> Inr []
      | Some bs \<Rightarrow>
          if \<not> readable (projects_file dir) then Inl RegistryIo
          else (case tj_projects_from j bs of None \<Rightarrow> Inl InvalidData | Some ps \<Rightarrow> Inr ps))"

text \<open>A file that is not a session is set aside when that works, and skipped.\<close>

fun load_files :: "store_json \<Rightarrow> (str \<Rightarrow> bool) \<Rightarrow> (str \<Rightarrow> bool) \<Rightarrow> str \<Rightarrow> str list \<Rightarrow> session_record list \<Rightarrow> file_system
    \<Rightarrow> (registry_error, session_record list) result \<times> file_system" where
  "load_files j readable renamed dir [] found fs = (Inr found, fs)"
| "load_files j readable renamed dir (name # names) found fs =
     (if snd (split_extension name) \<noteq> Some (lit ''json'') then load_files j readable renamed dir names found fs
      else let path = dir @ 47 # name
        in case map_of fs path of
             None \<Rightarrow> (Inl NotFound, fs)
           | Some bs \<Rightarrow>
               if \<not> readable path then (Inl RegistryIo, fs)
               else (case tj_session_from j bs of
                   Some r \<Rightarrow> load_files j readable renamed dir names (found @ [r]) fs
                 | None \<Rightarrow> load_files j readable renamed dir names found
                     (if renamed path then AList.update (with_extension (lit ''json.corrupt'') path) bs (AList.delete path fs) else fs)))"

definition split_load_sessions :: "store_json \<Rightarrow> (str \<Rightarrow> bool) \<Rightarrow> (str \<Rightarrow> bool) \<Rightarrow> str \<Rightarrow> file_system
    \<Rightarrow> (registry_error, session_record list) result \<times> file_system" where
  "split_load_sessions j readable renamed dir fs =
     (case load_files j readable renamed (sessions_dir dir) (dir_names (sessions_dir dir) fs) [] fs of
        (Inl e, fs) \<Rightarrow> (Inl e, fs)
      | (Inr found, fs) \<Rightarrow> (Inr (sort_key sr_id found), fs))"

definition split_save_project :: "store_json \<Rightarrow> (str \<Rightarrow> bool) \<Rightarrow> str \<Rightarrow> persist_fault option \<Rightarrow> json_value \<Rightarrow> file_system
    \<Rightarrow> (registry_error, unit) result \<times> file_system" where
  "split_save_project j readable dir fault p fs =
     (case split_load_projects j readable dir fs of
        Inl e \<Rightarrow> (Inl e, fs)
      | Inr ps \<Rightarrow> write_json_atomic (tj_projects_to j) fault (projects_file dir) (put_project p ps) fs)"

definition split_save_session :: "store_json \<Rightarrow> str \<Rightarrow> persist_fault option \<Rightarrow> session_record \<Rightarrow> file_system
    \<Rightarrow> (registry_error, unit) result \<times> file_system" where
  "split_save_session j dir fault r fs = write_json_atomic (tj_session_to j) fault (session_file dir (sr_id r)) r fs"

definition split_delete_session :: "str \<Rightarrow> persist_fault option \<Rightarrow> str \<Rightarrow> file_system \<Rightarrow> (registry_error, unit) result \<times> file_system" where
  "split_delete_session dir fault sid fs =
     (case map_of fs (session_file dir sid) of
        None \<Rightarrow> (Inr (), fs)
      | Some _ \<Rightarrow> if fault = None then (Inr (), AList.delete (session_file dir sid) fs) else (Inl RegistryIo, fs))"

section \<open>Migration\<close>

record split_migration_report =
  smr_dry_run :: bool
  smr_project_count :: nat
  smr_session_count :: nat
  smr_backup_path :: "str option"
  smr_split_root :: str

fun save_all :: "store_json \<Rightarrow> str \<Rightarrow> (str \<Rightarrow> persist_fault option) \<Rightarrow> session_record list \<Rightarrow> file_system \<Rightarrow> (registry_error, unit) result \<times> file_system" where
  "save_all j dir fault [] fs = (Inr (), fs)"
| "save_all j dir fault (r # rs) fs =
     (case split_save_session j dir (fault (sr_id r)) r fs of
        (Inl e, fs) \<Rightarrow> (Inl e, fs)
      | (Inr _, fs) \<Rightarrow> save_all j dir fault rs fs)"

text \<open>\<open>copied\<close>: the backup could be written; \<open>fault\<close> and \<open>faults\<close>: how writing the projects and a session fails.\<close>

definition migrate_envelope_to_split :: "store_json \<Rightarrow> (str \<Rightarrow> bool) \<Rightarrow> bool \<Rightarrow> persist_fault option \<Rightarrow> (str \<Rightarrow> persist_fault option)
    \<Rightarrow> str \<Rightarrow> str \<Rightarrow> bool \<Rightarrow> file_system \<Rightarrow> (registry_error, split_migration_report) result \<times> file_system" where
  "migrate_envelope_to_split j readable copied fault faults state_file dir dry_run fs =
     (case load_state j readable state_file fs of
        Inl e \<Rightarrow> (Inl e, fs)
      | Inr kept \<Rightarrow>
          let backup = with_extension (lit ''json.backup'') state_file;
              report = \<lparr>smr_dry_run = dry_run, smr_project_count = length (pst_projects kept), smr_session_count = length (pst_sessions kept),
                smr_backup_path = if dry_run then None else Some backup, smr_split_root = dir\<rparr>
          in if dry_run then (Inr report, fs)
             else case map_of fs state_file of
                 None \<Rightarrow> (Inl NotFound, fs)
               | Some bs \<Rightarrow>
                   if \<not> copied then (Inl RegistryIo, fs)
                   else (case write_json_atomic (tj_projects_to j) fault (projects_file dir) (pst_projects kept) (AList.update backup bs fs) of
                       (Inl e, fs) \<Rightarrow> (Inl e, fs)
                     | (Inr _, fs) \<Rightarrow>
                         (case save_all j dir faults (pst_sessions kept) fs of
                            (Inl e, fs) \<Rightarrow> (Inl e, fs)
                          | (Inr _, fs) \<Rightarrow> (Inr report, fs))))"

section \<open>The interface\<close>

definition valid_id :: "str \<Rightarrow> bool" where
  "valid_id sid \<longleftrightarrow> sid \<noteq> [] \<and> 47 \<notin> set sid"

definition keyed :: "session_record list \<Rightarrow> str \<rightharpoonup> session_record" where
  "keyed rs = map_of (map (\<lambda>r. (sr_id r, r)) rs)"

datatype store_op = SaveSession session_record "persist_fault option" | DeleteSession str "persist_fault option"

fun op_id :: "store_op \<Rightarrow> str" where
  "op_id (SaveSession r _) = sr_id r"
| "op_id (DeleteSession sid _) = sid"

text \<open>Operations one after the other, with what was acknowledged so far.\<close>

fun acknowledged :: "(persist_fault option \<Rightarrow> session_record \<Rightarrow> 'fs \<Rightarrow> (registry_error, unit) result \<times> 'fs)
    \<Rightarrow> (persist_fault option \<Rightarrow> str \<Rightarrow> 'fs \<Rightarrow> (registry_error, unit) result \<times> 'fs) \<Rightarrow> store_op list
    \<Rightarrow> 'fs \<times> (str \<rightharpoonup> session_record) \<Rightarrow> 'fs \<times> (str \<rightharpoonup> session_record)" where
  "acknowledged save del [] x = x"
| "acknowledged save del (SaveSession r fault # ops) (fs, m) =
     (case save fault r fs of (res, fs) \<Rightarrow> acknowledged save del ops (fs, if res = Inr () then m(sr_id r \<mapsto> r) else m))"
| "acknowledged save del (DeleteSession sid fault # ops) (fs, m) =
     (case del fault sid fs of (res, fs) \<Rightarrow> acknowledged save del ops (fs, if res = Inr () then m(sid := None) else m))"

text \<open>
  \<^verbatim>\<open>PersistenceStore\<close>, for the sessions: an operation that succeeds has its effect, one that fails has none, and
  loading gives what is there.
\<close>

locale session_store =
  fixes ok :: "'fs \<Rightarrow> bool"
    and content :: "'fs \<Rightarrow> str \<rightharpoonup> session_record"
    and load_all :: "'fs \<Rightarrow> (registry_error, session_record list) result"
    and save :: "persist_fault option \<Rightarrow> session_record \<Rightarrow> 'fs \<Rightarrow> (registry_error, unit) result \<times> 'fs"
    and del :: "persist_fault option \<Rightarrow> str \<Rightarrow> 'fs \<Rightarrow> (registry_error, unit) result \<times> 'fs"
  assumes load_content: "ok fs \<Longrightarrow> \<exists>rs. load_all fs = Inr rs \<and> distinct (map sr_id rs) \<and> keyed rs = content fs"
    and save_content: "ok fs \<Longrightarrow> valid_id (sr_id r) \<Longrightarrow> save fault r fs = (res, fs') \<Longrightarrow>
      ok fs' \<and> content fs' = (if res = Inr () then (content fs)(sr_id r \<mapsto> r) else content fs)"
    and del_content: "ok fs \<Longrightarrow> valid_id sid \<Longrightarrow> del fault sid fs = (res, fs') \<Longrightarrow>
      ok fs' \<and> content fs' = (if res = Inr () then (content fs)(sid := None) else content fs)"
begin

lemma acknowledged_content:
  assumes "ok fs" "list_all (\<lambda>p. valid_id (op_id p)) ops" "acknowledged save del ops (fs, content fs) = (fs', m)"
  shows "ok fs' \<and> content fs' = m"
  using assms
proof (induction ops arbitrary: fs)
  case (Cons p ops)
  show ?case
  proof (cases p)
    case (SaveSession r fault)
    obtain res fs1 where step: "save fault r fs = (res, fs1)"
      by fastforce
    then show ?thesis
      using Cons.IH [of fs1] Cons.prems SaveSession save_content [OF Cons.prems(1) _ step] by auto
  next
    case (DeleteSession sid fault)
    obtain res fs1 where step: "del fault sid fs = (res, fs1)"
      by fastforce
    then show ?thesis
      using Cons.IH [of fs1] Cons.prems DeleteSession del_content [OF Cons.prems(1) _ step] by auto
  qed
qed simp

lemma loads_what_was_acknowledged:
  assumes "ok fs" "list_all (\<lambda>p. valid_id (op_id p)) ops" "acknowledged save del ops (fs, content fs) = (fs', m)"
  shows "\<exists>rs. load_all fs' = Inr rs \<and> distinct (map sr_id rs) \<and> keyed rs = m"
  using acknowledged_content [OF assms] load_content by metis

end

section \<open>Paths\<close>

lemma lookup_update [simp]: "map_of (AList.update k v m) k' = (if k' = k then Some v else map_of m k')"
  "map_of (AList.delete k m) k' = (if k' = k then None else map_of m k')"
  by (simp_all add: AList.update_conv' AList.delete_conv')

lemma last_extension: "snd (split_extension name) = Some ext \<Longrightarrow> ext \<noteq> [] \<Longrightarrow> last name = last ext"
  by (auto simp: split_extension_def last_drop split: option.splits nat.splits)

lemma last_with_extension: "ext \<noteq> [] \<Longrightarrow> last (with_extension ext path) = last ext"
  by (simp add: with_extension_def case_prod_beta)

lemma split_extension_dot:
  assumes "stem \<noteq> []" "46 \<notin> set ext"
  shows "split_extension (stem @ 46 # ext) = (stem, Some ext)"
proof -
  obtain i where i: "length stem = Suc i"
    using assms(1) by (cases stem) auto
  moreover have "rposition (\<lambda>c. c = 46) (stem @ 46 # ext) = Some (length stem)"
    using assms(2) by (intro rposition_append) (auto simp: list_all_iff)
  ultimately show ?thesis
    by (simp add: split_extension_def)
qed

lemma with_extension_dot:
  assumes "stem \<noteq> []" "46 \<notin> set ext" "47 \<notin> set stem" "47 \<notin> set ext"
  shows "with_extension e (dir @ 47 # stem @ 46 # ext) = dir @ 47 # stem @ 46 # e"
proof -
  have "rposition (\<lambda>c. c = 47) (dir @ 47 # stem @ 46 # ext) = Some (length dir)"
    using assms(3,4) by (intro rposition_append) (auto simp: list_all_iff)
  then show ?thesis
    using split_extension_dot [OF assms(1,2)] by (simp add: with_extension_def split_name_def)
qed

lemma split_name_append: "path = fst (split_name path) @ snd (split_name path)"
  by (simp add: split_name_def split: option.split)

lemma with_extension_other: "with_extension (lit ''json.tmp'') path \<noteq> path"
proof -
  obtain dir name where split: "split_name path = (dir, name)" "path = dir @ name"
    using split_name_append by (metis prod.collapse)
  have "name \<noteq> fst (split_extension name) @ 46 # lit ''json.tmp''"
  proof (cases "rposition (\<lambda>c. c = 46) name")
    case (Some k)
    show ?thesis
    proof (cases k)
      case (Suc i)
      then have stem: "fst (split_extension name) = take k name" "length (take k name) = k"
        using Some rposition_Some [OF Some] by (auto simp: split_extension_def)
      show ?thesis
      proof
        assume name: "name = fst (split_extension name) @ 46 # lit ''json.tmp''"
        have "length name = k + 9"
          using arg_cong [OF name, of length] stem by (simp add: lit_def)
        moreover have "(take k name @ 46 # lit ''json.tmp'') ! (k + 5) = 46"
          using stem(2) by (simp add: nth_append lit_def)
        ultimately have "k + 5 < length name" "name ! (k + 5) = 46"
          using name stem(1) by simp_all
        then show False
          using rposition_Some [OF Some] by auto
      qed
    qed (use Some in \<open>auto simp: split_extension_def dest: arg_cong [where f = length]\<close>)
  qed (auto simp: split_extension_def dest: arg_cong [where f = length])
  then show ?thesis
    by (simp add: with_extension_def split(1)) (simp add: split(2))
qed

lemma write_atomic_effect:
  assumes "write_json_atomic enc fault path x fs = (res, fs')"
  shows "p \<noteq> with_extension (lit ''json.tmp'') path \<Longrightarrow>
      map_of fs' p = (if res = Inr () \<and> p = path then enc x else map_of fs p)"
    and "res = Inr () \<Longrightarrow> enc x \<noteq> None \<and> map_of fs' path = enc x"
    and "distinct (map fst fs) \<Longrightarrow> distinct (map fst fs')"
  using assms
  by (auto simp: write_json_atomic_def Let_def AList.distinct_update AList.distinct_delete split: option.splits persist_fault.splits)

section \<open>The one file keeps the interface\<close>

definition state_law :: "store_json \<Rightarrow> bool" where
  "state_law j \<longleftrightarrow> (\<forall>kept bs. sj_to_vec (tj_state j) kept = Some bs \<longrightarrow> sj_from_slice (tj_state j) bs = Some kept)"

definition envelope_ok :: "store_json \<Rightarrow> (str \<Rightarrow> bool) \<Rightarrow> str \<Rightarrow> file_system \<Rightarrow> bool" where
  "envelope_ok j readable state_file fs \<longleftrightarrow> state_law j \<and> readable state_file \<and>
     (\<exists>kept. load_state j readable state_file fs = Inr kept \<and> distinct (map sr_id (pst_sessions kept)))"

definition envelope_content :: "store_json \<Rightarrow> (str \<Rightarrow> bool) \<Rightarrow> str \<Rightarrow> file_system \<Rightarrow> str \<rightharpoonup> session_record" where
  "envelope_content j readable state_file fs =
     (case load_state j readable state_file fs of Inl _ \<Rightarrow> Map.empty | Inr kept \<Rightarrow> keyed (pst_sessions kept))"

lemma ids_put_by:
  "map sr_id (put_by (\<lambda>q. sr_id q = sr_id r) r rs) = (if sr_id r \<in> sr_id ` set rs then map sr_id rs else map sr_id rs @ [sr_id r])"
  by (induction rs) auto

lemma keyed_put_by: "keyed (put_by (\<lambda>q. sr_id q = sr_id r) r rs) = (keyed rs)(sr_id r \<mapsto> r)"
  by (induction rs) (auto simp: keyed_def fun_upd_twist)

lemma keyed_filter: "keyed (filter (\<lambda>r. sr_id r \<noteq> sid) rs) = (keyed rs)(sid := None)"
  by (induction rs) (auto simp: keyed_def)

text \<open>A write of a changed state takes effect when it succeeds and changes nothing otherwise.\<close>

lemma write_state_effect:
  assumes "envelope_ok j readable state_file fs" "distinct (map sr_id (pst_sessions kept))"
    and "write_state j fault state_file kept fs = (res, fs')"
  shows "envelope_ok j readable state_file fs' \<and>
    envelope_content j readable state_file fs' = (if res = Inr () then keyed (pst_sessions kept) else envelope_content j readable state_file fs)"
proof -
  have same: "map_of fs' state_file = (if res = Inr () then sj_to_vec (tj_state j) kept else map_of fs state_file)"
    using write_atomic_effect(1) [OF assms(3) [unfolded write_state_def], of state_file] with_extension_other [of state_file] by auto
  show ?thesis
  proof (cases "res = Inr ()")
    case True
    then obtain bs where "sj_to_vec (tj_state j) kept = Some bs"
      using write_atomic_effect(2) [OF assms(3) [unfolded write_state_def]] by blast
    then have "load_state j readable state_file fs' = Inr kept"
      using same True assms(1) by (simp add: load_state_def envelope_ok_def state_law_def)
    then show ?thesis
      using True assms(1,2) by (simp add: envelope_ok_def envelope_content_def)
  next
    case False
    then have "load_state j readable state_file fs' = load_state j readable state_file fs"
      using same by (simp add: load_state_def)
    then show ?thesis
      using False assms(1) by (simp add: envelope_ok_def envelope_content_def)
  qed
qed

interpretation envelope: session_store "envelope_ok j readable state_file" "envelope_content j readable state_file"
  "envelope_load_sessions j readable state_file" "envelope_save_session j readable state_file" "envelope_delete_session j readable state_file"
  for j readable state_file
proof (unfold_locales, goal_cases)
  case (1 fs)
  then show ?case
    by (auto simp: envelope_ok_def envelope_load_sessions_def envelope_content_def)
next
  case (2 fs r fault res fs')
  then obtain kept where kept: "load_state j readable state_file fs = Inr kept" "distinct (map sr_id (pst_sessions kept))"
    by (auto simp: envelope_ok_def)
  have "distinct (map sr_id (put_by (\<lambda>q. sr_id q = sr_id r) r (pst_sessions kept)))"
    using kept(2) by (simp add: ids_put_by)
  then show ?case
    using 2 kept write_state_effect [OF 2(1), of "kept\<lparr>pst_sessions := put_by (\<lambda>q. sr_id q = sr_id r) r (pst_sessions kept)\<rparr>"]
    by (simp add: envelope_save_session_def keyed_put_by envelope_content_def)
next
  case (3 fs sid fault res fs')
  then obtain kept where kept: "load_state j readable state_file fs = Inr kept" "distinct (map sr_id (pst_sessions kept))"
    by (auto simp: envelope_ok_def)
  have "distinct (map sr_id (filter (\<lambda>r. sr_id r \<noteq> sid) (pst_sessions kept)))"
    using kept(2) by (simp add: distinct_map_filter)
  then show ?case
    using 3 kept write_state_effect [OF 3(1), of "kept\<lparr>pst_sessions := filter (\<lambda>r. sr_id r \<noteq> sid) (pst_sessions kept)\<rparr>"]
    by (simp add: envelope_delete_session_def keyed_filter envelope_content_def)
qed

section \<open>One file per session keeps it\<close>

definition session_law :: "store_json \<Rightarrow> bool" where
  "session_law j \<longleftrightarrow> (\<forall>r bs. tj_session_to j r = Some bs \<longrightarrow> tj_session_from j bs = Some r)"

definition json_name :: "str \<Rightarrow> bool" where
  "json_name name \<longleftrightarrow> 47 \<notin> set name \<and> snd (split_extension name) = Some (lit ''json'')"

text \<open>Every session file of the directory is readable, is a session, and has its name.\<close>

definition split_ok :: "store_json \<Rightarrow> (str \<Rightarrow> bool) \<Rightarrow> str \<Rightarrow> file_system \<Rightarrow> bool" where
  "split_ok j readable dir fs \<longleftrightarrow> session_law j \<and> distinct (map fst fs) \<and> (\<forall>name. readable (sessions_dir dir @ 47 # name)) \<and>
     (\<forall>name bs. json_name name \<and> map_of fs (sessions_dir dir @ 47 # name) = Some bs \<longrightarrow>
        (\<exists>r. tj_session_from j bs = Some r \<and> name = sr_id r @ lit ''.json''))"

definition split_content :: "store_json \<Rightarrow> str \<Rightarrow> file_system \<Rightarrow> str \<rightharpoonup> session_record" where
  "split_content j dir fs sid = (if valid_id sid then Option.bind (map_of fs (session_file dir sid)) (tj_session_from j) else None)"

lemma session_file_eq: "valid_id sid \<Longrightarrow> session_file dir sid = sessions_dir dir @ 47 # sid @ lit ''.json''"
  by (cases sid) (auto simp: session_file_def path_join_def path_is_absolute_def starts_with_def valid_id_def lit_def)

lemma json_name_iff: "json_name (sid @ lit ''.json'') \<longleftrightarrow> valid_id sid"
proof (cases "sid = []")
  case True
  then show ?thesis
    by (simp add: json_name_def valid_id_def split_extension_def lit_def)
next
  case False
  then have "snd (split_extension (sid @ lit ''.json'')) = Some (lit ''json'')"
    using split_extension_dot [of sid "lit ''json''"] by (simp add: lit_def)
  then show ?thesis
    using False by (simp add: json_name_def valid_id_def lit_def)
qed

lemma json_name_last: "json_name name \<Longrightarrow> last name = 110"
  using last_extension [of name "lit ''json''"] by (simp add: json_name_def lit_def)

lemma temp_is_no_session:
  "json_name name \<Longrightarrow> d @ 47 # name \<noteq> with_extension (lit ''json.tmp'') path"
  "valid_id sid \<Longrightarrow> session_file d sid \<noteq> with_extension (lit ''json.tmp'') path"
proof -
  have tmp: "last (with_extension (lit ''json.tmp'') path) = 112"
    by (simp add: last_with_extension lit_def)
  show "d @ 47 # name \<noteq> with_extension (lit ''json.tmp'') path" if "json_name name"
  proof
    assume eq: "d @ 47 # name = with_extension (lit ''json.tmp'') path"
    have "name \<noteq> []"
      using that by (auto simp: json_name_def split_extension_def)
    then have "last (d @ 47 # name) = 110"
      using json_name_last [OF that] by simp
    then show False
      using eq tmp by simp
  qed
  then show "session_file d sid \<noteq> with_extension (lit ''json.tmp'') path" if "valid_id sid"
    using that tmp by (auto simp: session_file_eq lit_def dest!: arg_cong [where f = last])
qed

lemma split_ok_record:
  assumes "split_ok j readable dir fs" "json_name name" "map_of fs (sessions_dir dir @ 47 # name) = Some bs"
  obtains r where "tj_session_from j bs = Some r" "name = sr_id r @ lit ''.json''" "split_content j dir fs (sr_id r) = Some r"
proof -
  obtain r where r: "tj_session_from j bs = Some r" "name = sr_id r @ lit ''.json''"
    using assms unfolding split_ok_def by blast
  moreover have "valid_id (sr_id r)"
    using assms(2) r(2) json_name_iff by simp
  ultimately show thesis
    using assms(3) that by (simp add: split_content_def session_file_eq)
qed

lemma starts_with_dir: "starts_with p (d @ [47]) \<longleftrightarrow> p = d @ 47 # drop (length d + 1) p"
proof
  assume "starts_with p (d @ [47])"
  then have "take (length d + 1) p = d @ [47]"
    by (simp add: starts_with_def)
  then show "p = d @ 47 # drop (length d + 1) p"
    by (metis append_take_drop_id append.assoc append_Cons append_Nil)
next
  assume "p = d @ 47 # drop (length d + 1) p"
  then show "starts_with p (d @ [47])"
    unfolding starts_with_def by (metis append.assoc append_Cons append_Nil append_eq_conv_conj)
qed

lemma starts_with_entry: "starts_with (d @ 47 # name) (d @ [47])"
  by (simp add: starts_with_dir)

lemma dir_names_set: "set (dir_names d fs) = {name. 47 \<notin> set name \<and> map_of fs (d @ 47 # name) \<noteq> None}"
proof (intro set_eqI iffI)
  fix name
  assume "name \<in> set (dir_names d fs)"
  then obtain p where p: "p \<in> set (map fst fs)" "starts_with p (d @ [47])" "47 \<notin> set (drop (length d + 1) p)" "name = drop (length d + 1) p"
    by (auto simp: dir_names_def)
  then have "p = d @ 47 # name"
    using starts_with_dir by simp
  then show "name \<in> {name. 47 \<notin> set name \<and> map_of fs (d @ 47 # name) \<noteq> None}"
    using p by (auto simp: map_of_eq_None_iff)
next
  fix name
  assume name: "name \<in> {name. 47 \<notin> set name \<and> map_of fs (d @ 47 # name) \<noteq> None}"
  then have "d @ 47 # name \<in> set (map fst fs)"
    by (simp add: map_of_eq_None_iff)
  moreover have "starts_with (d @ 47 # name) (d @ [47])" "drop (length d + 1) (d @ 47 # name) = name"
    by (simp_all add: starts_with_dir)
  ultimately show "name \<in> set (dir_names d fs)"
    unfolding dir_names_def set_map set_filter using name by (intro image_eqI [where x = "d @ 47 # name"]) auto
qed

lemma dir_names_distinct: "distinct (map fst fs) \<Longrightarrow> distinct (dir_names d fs)"
  unfolding dir_names_def
  by (auto simp: distinct_map starts_with_dir intro!: inj_onI)

definition file_record :: "store_json \<Rightarrow> str \<Rightarrow> file_system \<Rightarrow> str \<Rightarrow> session_record" where
  "file_record j dir fs name = the (tj_session_from j (the (map_of fs (sessions_dir dir @ 47 # name))))"

lemma load_files_all:
  assumes "split_ok j readable dir fs" "set names \<subseteq> set (dir_names (sessions_dir dir) fs)"
  shows "load_files j readable renamed (sessions_dir dir) names found fs = (Inr (found @ map (file_record j dir fs) (filter json_name names)), fs)"
  using assms(2)
proof (induction names arbitrary: found)
  case (Cons name names)
  obtain bs where name: "47 \<notin> set name" "map_of fs (sessions_dir dir @ 47 # name) = Some bs"
    using Cons.prems by (auto simp: dir_names_set)
  show ?case
  proof (cases "json_name name")
    case True
    obtain r where "tj_session_from j bs = Some r"
      using split_ok_record [OF assms(1) True name(2)] by blast
    moreover have "readable (sessions_dir dir @ 47 # name)"
      using assms(1) by (simp add: split_ok_def)
    ultimately show ?thesis
      using Cons True name by (simp add: json_name_def file_record_def)
  next
    case False
    then show ?thesis
      using Cons name by (simp add: json_name_def)
  qed
qed simp

lemma keyed_Some: "distinct (map sr_id rs) \<Longrightarrow> keyed rs sid = Some r \<longleftrightarrow> r \<in> set rs \<and> sr_id r = sid"
  unfolding keyed_def by (subst map_of_eq_Some_iff) (auto simp: comp_def)

lemma distinct_sort_key: "distinct (map f xs) \<Longrightarrow> distinct (map f (sort_key f xs))"
  by (simp only: distinct_map set_sort distinct_sort)

lemma keyed_unique:
  assumes "keyed rs = keyed rs'" "distinct (map sr_id rs)" "distinct (map sr_id rs')" "sorted (map sr_id rs)"
  shows "sort_key sr_id rs' = rs"
proof -
  have same: "set rs = set rs'"
    using keyed_Some [OF assms(2)] keyed_Some [OF assms(3)] assms(1) by (metis subsetI subset_antisym)
  then have "mset rs' = mset rs"
    using assms(2,3) by (metis distinct_map set_eq_iff_mset_eq_distinct)
  then show ?thesis
    using assms(3,4) by (intro sort_key_inj_key_eq) (simp_all add: distinct_map)
qed

lemma split_loads:
  assumes "split_ok j readable dir fs"
  shows "\<exists>rs. split_load_sessions j readable renamed dir fs = (Inr rs, fs) \<and> distinct (map sr_id rs) \<and> sorted (map sr_id rs) \<and>
    keyed rs = split_content j dir fs"
proof -
  let ?names = "filter json_name (dir_names (sessions_dir dir) fs)"
  let ?found = "map (file_record j dir fs) ?names"
  have load: "split_load_sessions j readable renamed dir fs = (Inr (sort_key sr_id ?found), fs)"
    using load_files_all [OF assms] by (simp add: split_load_sessions_def)
  have entry: "sr_id (file_record j dir fs name) @ lit ''.json'' = name \<and> split_content j dir fs (sr_id (file_record j dir fs name)) = Some (file_record j dir fs name)"
    if member: "name \<in> set ?names" for name
  proof -
    obtain bs where "json_name name" "map_of fs (sessions_dir dir @ 47 # name) = Some bs"
      using member by (auto simp: dir_names_set)
    then show ?thesis
      using split_ok_record [OF assms] by (metis file_record_def option.sel)
  qed
  have "distinct ?names"
    using assms by (simp add: dir_names_distinct split_ok_def)
  moreover have "inj_on (sr_id \<circ> file_record j dir fs) (set ?names)"
  proof (rule inj_onI)
    fix x y
    assume xy: "x \<in> set ?names" "y \<in> set ?names" "(sr_id \<circ> file_record j dir fs) x = (sr_id \<circ> file_record j dir fs) y"
    have "x = sr_id (file_record j dir fs x) @ lit ''.json''"
      using entry [OF xy(1)] by (rule conjunct1 [THEN sym])
    also have "\<dots> = sr_id (file_record j dir fs y) @ lit ''.json''"
      using xy(3) by (simp only: comp_apply)
    also have "\<dots> = y"
      using entry [OF xy(2)] by (rule conjunct1)
    finally show "x = y" .
  qed
  ultimately have "distinct (map (sr_id \<circ> file_record j dir fs) ?names)"
    by (simp only: distinct_map simp_thms)
  then have distinct: "distinct (map sr_id ?found)"
    by (simp only: map_map)
  then have sorted_distinct: "distinct (map sr_id (sort_key sr_id ?found))"
    by (rule distinct_sort_key)
  have "keyed (sort_key sr_id ?found) sid = split_content j dir fs sid" for sid
  proof (cases "split_content j dir fs sid")
    case None
    have "keyed (sort_key sr_id ?found) sid \<noteq> Some r" for r
    proof
      assume "keyed (sort_key sr_id ?found) sid = Some r"
      then have "r \<in> set ?found" "sr_id r = sid"
        using keyed_Some [OF sorted_distinct, of sid r] by simp_all
      then obtain name where "name \<in> set ?names" "r = file_record j dir fs name"
        by auto
      then show False
        using entry None \<open>sr_id r = sid\<close> by (metis option.distinct(1))
    qed
    then show ?thesis
      using None by (metis not_Some_eq)
  next
    case (Some r)
    then obtain bs where bs: "valid_id sid" "map_of fs (sessions_dir dir @ 47 # sid @ lit ''.json'') = Some bs" "tj_session_from j bs = Some r"
      by (auto simp: split_content_def session_file_eq bind_eq_Some_conv split: if_splits)
    then have json: "json_name (sid @ lit ''.json'')"
      by (simp add: json_name_iff)
    have "sr_id r = sid"
      using split_ok_record [OF assms json bs(2)] bs(3) by (metis append_same_eq option.inject)
    moreover have "sid @ lit ''.json'' \<in> set ?names"
      using json bs(2) by (simp add: dir_names_set json_name_def)
    moreover have "file_record j dir fs (sid @ lit ''.json'') = r"
      using bs by (simp add: file_record_def)
    ultimately show ?thesis
      using keyed_Some [OF sorted_distinct, of sid r] Some by force
  qed
  then show ?thesis
    using load sorted_distinct by auto
qed

lemma split_frame:
  assumes "split_ok j readable dir fs" "distinct (map fst fs')"
    and "\<And>name. json_name name \<Longrightarrow> map_of fs' (sessions_dir dir @ 47 # name) = map_of fs (sessions_dir dir @ 47 # name)"
  shows "split_ok j readable dir fs' \<and> split_content j dir fs' = split_content j dir fs"
proof -
  have "split_content j dir fs' sid = split_content j dir fs sid" for sid
    using assms(3) [of "sid @ lit ''.json''"] by (simp add: split_content_def session_file_eq json_name_iff)
  then show ?thesis
    using assms unfolding split_ok_def by auto
qed

lemma split_save_effect:
  assumes ok: "split_ok j readable dir fs" and valid: "valid_id (sr_id r)" and step: "split_save_session j dir fault r fs = (res, fs')"
  shows "split_ok j readable dir fs' \<and> split_content j dir fs' = (if res = Inr () then (split_content j dir fs)(sr_id r \<mapsto> r) else split_content j dir fs)"
proof -
  note step = step [unfolded split_save_session_def]
  have keys: "distinct (map fst fs')"
    using write_atomic_effect(3) [OF step] ok by (simp add: split_ok_def)
  have look: "map_of fs' (sessions_dir dir @ 47 # name) =
      (if res = Inr () \<and> name = sr_id r @ lit ''.json'' then tj_session_to j r else map_of fs (sessions_dir dir @ 47 # name))"
    if "json_name name" for name
    using write_atomic_effect(1) [OF step temp_is_no_session(1) [OF that]] session_file_eq [OF valid] by simp
  show ?thesis
  proof (cases "res = Inr ()")
    case True
    then obtain bs where bs: "tj_session_to j r = Some bs" "tj_session_from j bs = Some r"
      using write_atomic_effect(2) [OF step] ok by (auto simp: split_ok_def session_law_def)
    have "split_content j dir fs' sid = ((split_content j dir fs)(sr_id r \<mapsto> r)) sid" for sid
      using look [of "sid @ lit ''.json''"] True bs valid by (auto simp: split_content_def session_file_eq json_name_iff)
    moreover have "split_ok j readable dir fs'"
      unfolding split_ok_def using ok keys look True bs
      by (auto simp: split_ok_def split: if_splits)
    ultimately show ?thesis
      using True by auto
  next
    case False
    then show ?thesis
      using split_frame [OF ok keys] look by simp
  qed
qed

lemma split_delete_effect:
  assumes ok: "split_ok j readable dir fs" and valid: "valid_id sid" and step: "split_delete_session dir fault sid fs = (res, fs')"
  shows "split_ok j readable dir fs' \<and> split_content j dir fs' = (if res = Inr () then (split_content j dir fs)(sid := None) else split_content j dir fs)"
proof (cases "res = Inr ()")
  case True
  have keys: "distinct (map fst fs')"
    using step ok by (auto simp: split_delete_session_def split_ok_def AList.distinct_delete split: option.splits if_splits)
  have look: "map_of fs' p = (if p = session_file dir sid then None else map_of fs p)" for p
    using step True by (auto simp: split_delete_session_def split: option.splits if_splits)
  have "split_content j dir fs' other = ((split_content j dir fs)(sid := None)) other" for other
    using look valid by (simp add: split_content_def session_file_eq)
  moreover have "split_ok j readable dir fs'"
    unfolding split_ok_def using ok keys look by (auto simp: split_ok_def split: if_splits)
  ultimately show ?thesis
    using True by auto
next
  case False
  then have "fs' = fs"
    using step by (auto simp: split_delete_session_def split: option.splits if_splits)
  then show ?thesis
    using False ok by simp
qed

interpretation split: session_store "split_ok j readable dir" "split_content j dir"
  "\<lambda>fs. fst (split_load_sessions j readable renamed dir fs)" "split_save_session j dir" "split_delete_session dir"
  for j readable renamed dir
proof (unfold_locales, goal_cases)
  case (1 fs)
  then show ?case
    using split_loads [OF 1, of renamed] by auto
next
  case (2 fs r fault res fs')
  then show ?case
    by (rule split_save_effect)
next
  case (3 fs sid fault res fs')
  then show ?case
    by (rule split_delete_effect)
qed

section \<open>Properties\<close>


text \<open>
  Migrating: saving the sessions one by one leaves exactly them beside what was there.
\<close>

lemma save_all_effect:
  assumes "split_ok j readable dir fs" "list_all (\<lambda>r. valid_id (sr_id r)) rs" "distinct (map sr_id rs)"
    and "save_all j dir faults rs fs = (Inr (), fs')"
  shows "split_ok j readable dir fs' \<and> split_content j dir fs' = split_content j dir fs ++ keyed rs"
  using assms
proof (induction rs arbitrary: fs)
  case Nil
  then show ?case
    by (simp add: keyed_def)
next
  case (Cons r rs)
  obtain res fs1 where step: "split_save_session j dir (faults (sr_id r)) r fs = (res, fs1)"
    by fastforce
  then have rest: "res = Inr ()" "save_all j dir faults rs fs1 = (Inr (), fs')"
    using Cons.prems(4) by (auto split: sum.splits)
  have one: "split_ok j readable dir fs1" "split_content j dir fs1 = (split_content j dir fs)(sr_id r \<mapsto> r)"
    using split_save_effect [OF Cons.prems(1) _ step] Cons.prems(2) rest(1) by simp_all
  have "keyed rs (sr_id r) = None"
    using Cons.prems(3) by (auto simp: keyed_def map_of_eq_None_iff)
  then have "(split_content j dir fs)(sr_id r \<mapsto> r) ++ keyed rs = split_content j dir fs ++ keyed (r # rs)"
    by (auto simp: keyed_def map_add_def fun_eq_iff split: option.split)
  moreover have "split_ok j readable dir fs' \<and> split_content j dir fs' = split_content j dir fs1 ++ keyed rs"
    using Cons.prems(2,3) by (intro Cons.IH [OF one(1) _ _ rest(2)]) simp_all
  ultimately show ?case
    unfolding one(2) by metis
qed

lemma save_all_frame:
  assumes "save_all j dir faults rs fs = (res, fs')" "list_all (\<lambda>r. valid_id (sr_id r)) rs" "\<not> starts_with p (sessions_dir dir @ [47])"
  shows "map_of fs' p = map_of fs p"
  using assms
proof (induction rs arbitrary: fs)
  case (Cons r rs)
  obtain res1 fs1 where step: "split_save_session j dir (faults (sr_id r)) r fs = (res1, fs1)"
    by fastforce
  have valid: "valid_id (sr_id r)" "list_all (\<lambda>r. valid_id (sr_id r)) rs"
    using Cons.prems(2) by simp_all
  have "with_extension (lit ''json.tmp'') (session_file dir (sr_id r)) = sessions_dir dir @ 47 # sr_id r @ 46 # lit ''json.tmp''"
    using with_extension_dot [of "sr_id r" "lit ''json''" "lit ''json.tmp''" "sessions_dir dir"] valid(1)
    by (simp add: session_file_eq) (simp add: valid_id_def lit_def)
  then have "p \<noteq> session_file dir (sr_id r)" "p \<noteq> with_extension (lit ''json.tmp'') (session_file dir (sr_id r))"
    using Cons.prems(3) valid(1) by (auto simp: session_file_eq starts_with_dir)
  then have "map_of fs1 p = map_of fs p"
    using write_atomic_effect(1) [OF step [unfolded split_save_session_def], of p] by simp
  then show ?case
    using Cons.IH [of fs1] Cons.prems valid(2) step by (auto split: sum.splits)
qed simp

definition projects_law :: "store_json \<Rightarrow> bool" where
  "projects_law j \<longleftrightarrow> (\<forall>ps bs. tj_projects_to j ps = Some bs \<longrightarrow> tj_projects_from j bs = Some ps)"

lemma projects_paths:
  "projects_file dir = dir @ 47 # lit ''projects.json''" "sessions_dir dir = dir @ 47 # lit ''sessions''"
  "with_extension (lit ''json.tmp'') (projects_file dir) = dir @ 47 # lit ''projects.json.tmp''"
proof -
  show whole: "projects_file dir = dir @ 47 # lit ''projects.json''" and "sessions_dir dir = dir @ 47 # lit ''sessions''"
    by (simp_all add: projects_file_def sessions_dir_def path_join_def path_is_absolute_def starts_with_def lit_def)
  show "with_extension (lit ''json.tmp'') (projects_file dir) = dir @ 47 # lit ''projects.json.tmp''"
    using with_extension_dot [of "lit ''projects''" "lit ''json''" "lit ''json.tmp''" dir] by (simp add: whole lit_def)
qed

lemma starts_with_append: "starts_with p (a @ b) \<Longrightarrow> starts_with p a"
proof -
  assume "starts_with p (a @ b)"
  then have "p = a @ b @ drop (length (a @ b)) p"
    unfolding starts_with_def by (metis append_take_drop_id append.assoc)
  then show "starts_with p a"
    unfolding starts_with_def by (metis append_eq_conv_conj)
qed

lemma outside_sessions:
  "\<not> starts_with (projects_file dir) (sessions_dir dir @ [47])"
  "\<not> starts_with p (dir @ [47]) \<Longrightarrow> \<not> starts_with p (sessions_dir dir @ [47])"
  "\<not> starts_with p (dir @ [47]) \<Longrightarrow> p \<noteq> projects_file dir \<and> p \<noteq> with_extension (lit ''json.tmp'') (projects_file dir)"
proof -
  show "\<not> starts_with (projects_file dir) (sessions_dir dir @ [47])"
    by (simp add: projects_paths starts_with_def lit_def)
  show "\<not> starts_with p (sessions_dir dir @ [47])" if "\<not> starts_with p (dir @ [47])"
    using that starts_with_append [of p "dir @ [47]" "lit ''sessions'' @ [47]"] by (auto simp: projects_paths)
  show "p \<noteq> projects_file dir \<and> p \<noteq> with_extension (lit ''json.tmp'') (projects_file dir)" if "\<not> starts_with p (dir @ [47])"
    unfolding projects_paths(3) using that by (auto simp: projects_paths(1) starts_with_dir)
qed

text \<open>
  A migration that succeeds copies everything: the new store loads the sessions, in the order of their ids, and the projects of the
  old state file, which is untouched and has a backup. A dry run only counts.
\<close>

theorem migration_copies_everything:
  assumes laws: "projects_law j" "readable (projects_file dir)" and ok: "split_ok j readable dir fs" "split_content j dir fs = Map.empty"
    and old: "load_state j readable state_file fs = Inr kept" "distinct (map sr_id (pst_sessions kept))" "list_all (\<lambda>r. valid_id (sr_id r)) (pst_sessions kept)"
    and apart: "\<not> starts_with state_file (dir @ [47])" "\<not> starts_with (with_extension (lit ''json.backup'') state_file) (dir @ [47])"
      "with_extension (lit ''json.backup'') state_file \<noteq> state_file"
    and step: "migrate_envelope_to_split j readable copied fault faults state_file dir False fs = (Inr report, fs')"
  shows "fst (split_load_sessions j readable renamed dir fs') = Inr (sort_key sr_id (pst_sessions kept)) \<and>
    split_load_projects j readable dir fs' = Inr (pst_projects kept) \<and> map_of fs' state_file = map_of fs state_file \<and>
    map_of fs' (with_extension (lit ''json.backup'') state_file) = map_of fs state_file \<and>
    smr_session_count report = length (pst_sessions kept) \<and> smr_project_count report = length (pst_projects kept)"
proof -
  let ?backup = "with_extension (lit ''json.backup'') state_file"
  obtain bs res1 fs1 where bs: "map_of fs state_file = Some bs"
    and wrote: "write_json_atomic (tj_projects_to j) fault (projects_file dir) (pst_projects kept) (AList.update ?backup bs fs) = (res1, fs1)"
    using step old(1) by (fastforce simp: migrate_envelope_to_split_def Let_def split: option.splits)
  then have res1: "res1 = Inr ()" and saved: "save_all j dir faults (pst_sessions kept) fs1 = (Inr (), fs')"
    and report: "smr_session_count report = length (pst_sessions kept)" "smr_project_count report = length (pst_projects kept)"
    using step old(1) by (auto simp: migrate_envelope_to_split_def Let_def split: if_splits sum.splits prod.splits)
  have look1: "map_of fs1 p = (if p = projects_file dir then tj_projects_to j (pst_projects kept) else if p = ?backup then Some bs else map_of fs p)"
    if "p \<noteq> with_extension (lit ''json.tmp'') (projects_file dir)" for p
    using write_atomic_effect(1) [OF wrote that] res1 by simp
  have sessions1: "map_of fs1 (sessions_dir dir @ 47 # name) = map_of fs (sessions_dir dir @ 47 # name)" if "json_name name" for name
  proof -
    have "sessions_dir dir @ 47 # name \<noteq> ?backup"
      using outside_sessions(2) [OF apart(2)] starts_with_entry by metis
    moreover have "sessions_dir dir @ 47 # name \<noteq> projects_file dir"
      using outside_sessions(1) [of dir] starts_with_entry by metis
    ultimately show ?thesis
      using look1 [OF temp_is_no_session(1) [OF that]] by simp
  qed
  have "distinct (map fst fs1)"
    using write_atomic_effect(3) [OF wrote] ok(1) by (simp add: split_ok_def AList.distinct_update)
  then have "split_ok j readable dir fs1" "split_content j dir fs1 = Map.empty"
    using split_frame [OF ok(1) _ sessions1] ok(2) by simp_all
  then have new: "split_ok j readable dir fs'" "split_content j dir fs' = keyed (pst_sessions kept)"
    using save_all_effect [OF _ old(3,2) saved] by simp_all
  have frame: "map_of fs' p = map_of fs1 p" if "\<not> starts_with p (sessions_dir dir @ [47])" for p
    using save_all_frame [OF saved old(3) that] .
  obtain rs where rs: "split_load_sessions j readable renamed dir fs' = (Inr rs, fs')" "distinct (map sr_id rs)" "sorted (map sr_id rs)"
    "keyed rs = keyed (pst_sessions kept)"
    using split_loads [OF new(1), of renamed] new(2) by metis
  have "sort_key sr_id (pst_sessions kept) = rs"
    by (rule keyed_unique [OF rs(4,2) old(2) rs(3)])
  moreover have "split_load_projects j readable dir fs' = Inr (pst_projects kept)"
    using frame [OF outside_sessions(1)] look1 [of "projects_file dir"] write_atomic_effect(2) [OF wrote res1] laws with_extension_other [of "projects_file dir"]
    by (auto simp: split_load_projects_def projects_law_def)
  moreover have "map_of fs' p = (if p = ?backup then Some bs else map_of fs p)" if "\<not> starts_with p (dir @ [47])" for p
    using frame [OF outside_sessions(2) [OF that]] look1 outside_sessions(3) [OF that] by simp
  ultimately show ?thesis
    using rs(1) bs apart report by simp
qed

definition one_record :: session_record where "one_record = sample_session [97] Idle"

definition one_json :: store_json where
  "one_json = \<lparr>tj_state = two_files (persisted_current [] []) (persisted_current [one_record] []),
     tj_session_to = \<lambda>r. if r = one_record then Some [1] else None, tj_session_from = \<lambda>bs. if bs = [1] then Some one_record else None,
     tj_projects_to = \<lambda>ps. if ps = [] then Some [3] else None, tj_projects_from = \<lambda>bs. if bs = [3] then Some [] else None\<rparr>"

lemma empty_stores:
  "envelope_ok one_json (\<lambda>_. True) state_file []" "envelope_content one_json (\<lambda>_. True) state_file [] = Map.empty"
  "split_ok one_json (\<lambda>_. True) dir []" "split_content one_json dir [] = Map.empty"
  using two_files_law [of "persisted_current [] []" "persisted_current [one_record] []"]
  by (auto simp: envelope_ok_def envelope_content_def load_state_def persisted_current_def state_law_def split_ok_def session_law_def
      split_content_def keyed_def one_json_def fun_eq_iff split: if_splits)

lemma one_saved:
  "acknowledged (envelope_save_session one_json (\<lambda>_. True) state_file) (envelope_delete_session one_json (\<lambda>_. True) state_file)
     [SaveSession one_record None, DeleteSession [98] (Some DirFails)] ([], Map.empty) = ([(state_file, [2])], [[97] \<mapsto> one_record])"
  "acknowledged (split_save_session one_json dir) (split_delete_session dir)
     [SaveSession one_record None, DeleteSession [98] (Some DirFails)] ([], Map.empty) = ([(session_file dir [97], [1])], [[97] \<mapsto> one_record])"
  by (simp_all add: envelope_save_session_def envelope_delete_session_def split_save_session_def split_delete_session_def load_state_def write_state_def write_json_atomic_def one_json_def two_files_def persisted_current_def one_record_def sample_session_def)


end
