(* ===== verification/Registry_History.thy ===== *)
theory Registry_History
  imports Registry_Persist
begin

text \<open>
  The registry over time: every operation as a step, with what its callers provide as premises, and what
  holds in every state that steps reach from a fresh registry. Shown: the table stays consistent, and
  no process tree is stopped for good, because a stopped one is always known to be stopped.
\<close>

section \<open>Steps\<close>

text \<open>A session just started, and one adopted under a record: stopped only if the record says so.\<close>

definition fresh_session :: "live_session \<Rightarrow> bool" where
  "fresh_session s \<longleftrightarrow> \<not> ls_stopped s \<and> ls_queued_input s = []"

definition adopts_well :: "registry \<Rightarrow> str \<Rightarrow> (seeded_status \<Rightarrow> live_session option) \<Rightarrow> bool" where
  "adopts_well reg sid adopt \<longleftrightarrow> (\<forall>r s. record_of reg sid = Some r \<and> adopt (seed_status r) = Some s \<longrightarrow>
     ls_queued_input s = [] \<and> (ls_stopped s \<longrightarrow> sr_hibernation r \<noteq> None))"

inductive registry_step :: "(nat \<Rightarrow> bool) \<Rightarrow> state_json \<Rightarrow> (str \<Rightarrow> str option) \<Rightarrow> registry \<Rightarrow> registry \<Rightarrow> bool"
  for alnum j ai_title where
  step_insert: "session_of reg (sr_id r) = None \<Longrightarrow> registry_step alnum j ai_title reg (insert_record r reg)"
| step_spawn: "(\<And>s. started = Some s \<Longrightarrow> fresh_session s) \<Longrightarrow> sr_id r = sid \<Longrightarrow>
    registry_step alnum j ai_title reg (snd (spawn sid started r reg))"
| step_adopt_remote: "adopts_well reg sid adopt \<Longrightarrow> registry_step alnum j ai_title reg (snd (adopt_remote sid adopt reg))"
| step_restore: "(\<And>sid alive adopt. (sid, alive, adopt) \<in> set holders \<Longrightarrow> adopts_well reg sid adopt) \<Longrightarrow>
    registry_step alnum j ai_title reg (snd (restore j holders fault t reg))"
| step_changed: "registry_step alnum j ai_title reg (snd (snd (changed_since alnum now published reg)))"
| step_project: "registry_step alnum j ai_title reg (snd (ensure_session_project rt host reg))"
| step_terminate: "registry_step alnum j ai_title reg (snd (terminate sid ended reg))"
| step_forget: "registry_step alnum j ai_title reg (forget sid reg)"
| step_remove: "registry_step alnum j ai_title reg (snd (remove sid ended reg))"
| step_reopen: "(\<And>r. r \<in> set (rg_recently_closed reg) \<Longrightarrow> session_of reg (sr_id r) = None) \<Longrightarrow>
    registry_step alnum j ai_title reg (snd (reopen_last_closed there reg))"
| step_respawn: "(\<And>s. started = Some s \<Longrightarrow> fresh_session s) \<Longrightarrow>
    registry_step alnum j ai_title reg (snd (respawn sid started now reg))"
| step_wake: "registry_step alnum j ai_title reg (snd (wake_session answer ok sid now reg))"
| step_ensure_awake: "registry_step alnum j ai_title reg (snd (ensure_session_awake answer ok sid now reg))"
| step_hibernate: "registry_step alnum j ai_title reg (snd (hibernate answer sid reason now reg))"
| step_write: "registry_step alnum j ai_title reg (write_session ok sid bs reg)"
| step_hook: "registry_step alnum j ai_title reg (snd (apply_hook_metadata alnum ai_title sid meta now reg))"
| step_sample: "registry_step alnum j ai_title reg (snd (apply_resource_sample sid memory ports artifacts reg))"
| step_pulls: "registry_step alnum j ai_title reg (snd (apply_pull_request_statuses sid statuses now reg))"
| step_update: "(\<And>r. sr_id (mutate r) = sr_id r \<and> sr_hibernation (mutate r) = sr_hibernation r) \<Longrightarrow>
    registry_step alnum j ai_title reg (update_record sid mutate now reg)"
| step_rename: "registry_step alnum j ai_title reg (snd (rename sid title now reg))"
| step_seen: "registry_step alnum j ai_title reg (snd (mark_seen sid now reg))"
| step_archive: "registry_step alnum j ai_title reg (snd (archive_session sid ended now reg))"
| step_unarchive: "registry_step alnum j ai_title reg (snd (unarchive sid now reg))"
| step_persist: "registry_step alnum j ai_title reg (snd (persist j fault t reg))"
| step_flush: "registry_step alnum j ai_title reg (snd (flush_dirty j fault t reg))"
| step_load: "rg_sessions reg = [] \<Longrightarrow> registry_step alnum j ai_title reg (snd (load j alnum readable renamed reg))"

definition registry_reachable :: "(nat \<Rightarrow> bool) \<Rightarrow> state_json \<Rightarrow> (str \<Rightarrow> str option) \<Rightarrow> registry \<Rightarrow> bool" where
  "registry_reachable alnum j ai_title reg \<longleftrightarrow>
     (\<exists>engine disk. (registry_step alnum j ai_title)\<^sup>*\<^sup>* (registry_new engine disk) reg)"

section \<open>The table stays consistent\<close>

lemma fold_view_keeps:
  "sr_id (fold_session_view alnum view r) = sr_id r" "sr_hibernation (fold_session_view alnum view r) = sr_hibernation r"
  by (auto simp: fold_session_view_def fold_session_status_def Let_def split: option.split)

lemma freeze_inv_put_same:
  assumes "freeze_inv reg" "record_of reg sid = Some r" "sr_hibernation r' = sr_hibernation r"
  shows "freeze_inv (reg\<lparr>rg_records := AList.update sid r' (rg_records reg)\<rparr>)"
  using assms(1)
proof (rule freeze_inv_put_record)
  show "sr_hibernation r' \<noteq> None" if "session_of reg sid = Some s" "ls_stopped s" "\<not> ls_hibernated s" for s
    using assms that unfolding freeze_inv_def frozen_ok_def by fastforce
qed

lemma fold_changed_inv:
  "table_inv reg \<and> freeze_inv reg \<Longrightarrow>
     table_inv (fst (snd (snd (fold_changed alnum now views published reg tc)))) \<and>
     freeze_inv (fst (snd (snd (fold_changed alnum now views published reg tc))))"
proof (induction alnum now views published reg tc rule: fold_changed.induct)
  case (2 alnum now sid version view views published reg tc)
  show ?case
  proof (cases "record_of reg sid")
    case None
    then show ?thesis
      using 2 by (simp add: Let_def)
  next
    case (Some r)
    define r1 where "r1 = fold_session_view alnum view r"
    define rn where "rn \<longleftrightarrow> (sr_title r, sr_title_source r) \<noteq> (sr_title r1, sr_title_source r1)"
    define r2 where "r2 = (if rn then r1\<lparr>sr_updated_at := date_millis_of now\<rparr> else r1)"
    have "sr_id r = sid"
      using 2(3) Some by (simp add: table_inv_def)
    then have id: "sr_id r2 = sid" and hib: "sr_hibernation r2 = sr_hibernation r"
      by (simp_all add: r2_def r1_def fold_view_keeps)
    have "table_inv (reg\<lparr>rg_records := AList.update sid r2 (rg_records reg)\<rparr>)"
      using 2(3) id by (intro table_inv_put_record) auto
    moreover have "freeze_inv (reg\<lparr>rg_records := AList.update sid r2 (rg_records reg)\<rparr>)"
      using 2(3) freeze_inv_put_same [OF _ Some hib] by blast
    moreover have "fold_changed alnum now ((sid, version, view) # views) published reg tc =
        (let (changed, rest) = fold_changed alnum now views (AList.update sid version published)
           (reg\<lparr>rg_records := AList.update sid r2 (rg_records reg)\<rparr>) (tc \<or> rn) in ((sid, r2) # changed, rest))"
      unfolding fold_changed.simps Some option.case Let_def r2_def rn_def r1_def ..
    ultimately show ?thesis
      using 2(2) [OF refl Some r1_def rn_def r2_def] by (simp del: fold_changed.simps add: case_prod_unfold Let_def)
  qed
qed simp

lemma changed_since_inv:
  assumes "table_inv reg" "freeze_inv reg"
  shows "table_inv (snd (snd (changed_since alnum now published reg))) \<and> freeze_inv (snd (snd (changed_since alnum now published reg)))"
proof -
  define live where "live = filter (\<lambda>p. session_of reg (fst p) \<noteq> None) published"
  define views where "views = List.map_filter (\<lambda>(sid, s).
      if map_of live sid \<noteq> Some (ls_state_version s) then Some (sid, ls_state_version s, ls_view s) else None) (rg_sessions reg)"
  obtain changed published' reg' tc where f: "fold_changed alnum now views live reg False = (changed, published', reg', tc)"
    by (metis prod_cases4)
  then have "table_inv reg' \<and> freeze_inv reg'"
    using fold_changed_inv [of reg alnum now views live False] assms by simp
  moreover have "snd (snd (changed_since alnum now published reg)) = (if tc then reg'\<lparr>rg_dirty := True\<rparr> else reg')"
    using f unfolding changed_since_def Let_def views_def live_def by simp
  ultimately show ?thesis
    by simp
qed

lemma terminate_inv:
  assumes "table_inv reg" "freeze_inv reg"
  shows "table_inv (snd (terminate sid ended reg)) \<and> freeze_inv (snd (terminate sid ended reg))"
    and "session_of (snd (terminate sid ended reg)) sid = None"
proof -
  have key: "sr_id (r\<lparr>sr_status := st\<rparr>) = sid" if "record_of reg sid = Some r" for r st
    using that assms(1) by (simp add: table_inv_def)
  have "table_inv (drop_session sid reg)" "freeze_inv (drop_session sid reg)"
    using assms by (simp_all add: table_inv_drop_session freeze_inv_drop_session)
  then show "table_inv (snd (terminate sid ended reg)) \<and> freeze_inv (snd (terminate sid ended reg))"
    using assms key by (auto simp: terminate_def Let_def split: option.split intro!: table_inv_with_record freeze_inv_with_record)
  show "session_of (snd (terminate sid ended reg)) sid = None"
    by (auto simp: terminate_def Let_def split: option.split)
qed

text \<open>An operation that changes one record and keeps its id and its hibernation.\<close>

lemma with_record_inv:
  assumes "table_inv reg" "freeze_inv reg"
    and "\<And>r. record_of reg sid = Some r \<Longrightarrow> sr_id (f r) = sr_id r \<and> sr_hibernation (f r) = sr_hibernation r"
  shows "table_inv (with_record sid f reg) \<and> freeze_inv (with_record sid f reg)"
proof
  show "table_inv (with_record sid f reg)"
    using assms(1) assms(3) by (intro table_inv_with_record) (auto simp: table_inv_def)
  show "freeze_inv (with_record sid f reg)"
    using assms(2) assms(3) by (intro freeze_inv_with_record) auto
qed

lemma spawn_inv:
  assumes "table_inv reg" "freeze_inv reg" "\<And>s. started = Some s \<Longrightarrow> fresh_session s" "sr_id r = sid"
  shows "table_inv (snd (spawn sid started r reg)) \<and> freeze_inv (snd (spawn sid started r reg))"
proof (cases started)
  case (Some s)
  let ?reg = "reg\<lparr>rg_records := AList.update sid r (rg_records reg)\<rparr>"
  have "table_inv (insert_session sid s ?reg)"
    using assms(1,4) by (intro table_inv_insert_session table_inv_put_record) auto
  moreover have "freeze_inv (insert_session sid s ?reg)"
    using assms(2) assms(3) [OF Some] by (auto simp: freeze_inv_def frozen_ok_def fresh_session_def)
  ultimately show ?thesis
    by (simp add: spawn_def Some)
qed (use assms in \<open>simp add: spawn_def\<close>)

lemma adopt_remote_inv:
  assumes "table_inv reg" "freeze_inv reg" "adopts_well reg sid adopt"
  shows "table_inv (snd (adopt_remote sid adopt reg)) \<and> freeze_inv (snd (adopt_remote sid adopt reg))"
proof (cases "\<exists>r s. record_of reg sid = Some r \<and> adopt (seed_status r) = Some s")
  case True
  then obtain r s where rs: "record_of reg sid = Some r" "adopt (seed_status r) = Some s"
    by blast
  have "table_inv (insert_session sid s reg)"
    using assms(1) rs(1) by (simp add: table_inv_insert_session)
  moreover have "frozen_ok reg sid s"
    using assms(3) rs by (auto simp: adopts_well_def frozen_ok_def)
  then have "freeze_inv (insert_session sid s reg)"
    using assms(2) by (intro freeze_inv_insert_session)
  ultimately show ?thesis
    by (simp add: adopt_remote_def rs)
next
  case False
  then have "snd (adopt_remote sid adopt reg) = reg"
    by (auto simp: adopt_remote_def split: option.split)
  then show ?thesis
    using assms by simp
qed

lemma remove_inv:
  assumes "table_inv reg" "freeze_inv reg"
  shows "table_inv (snd (remove sid ended reg)) \<and> freeze_inv (snd (remove sid ended reg))"
proof -
  define mid where "mid = (if session_of reg sid \<noteq> None then snd (terminate sid ended reg) else reg)"
  have mid: "table_inv mid" "freeze_inv mid" "session_of mid sid = None"
    using assms terminate_inv [OF assms, of sid ended] by (simp_all add: mid_def)
  have rem: "remove sid ended reg = (case record_of mid sid of None \<Rightarrow> (Inl NotFound, mid)
      | Some r \<Rightarrow> (Inr (), drop_session sid ((drop_record sid mid)\<lparr>rg_recently_closed :=
          (if length (rg_recently_closed mid @ [r]) > 10 then tl (rg_recently_closed mid @ [r]) else rg_recently_closed mid @ [r])\<rparr>)))"
    unfolding remove_def Let_def mid_def [symmetric] registry_sel ..
  show ?thesis
  proof (cases "record_of mid sid")
    case None
    then show ?thesis
      using mid by (simp add: rem)
  next
    case (Some r)
    have "table_inv (drop_record sid mid)" "freeze_inv (drop_record sid mid)"
      using mid by (simp_all add: table_inv_drop_record freeze_inv_drop_record)
    then have "table_inv ((drop_record sid mid)\<lparr>rg_recently_closed := stack\<rparr>)" if "length stack \<le> 10" for stack
      using that by (simp add: table_inv_def)
    moreover have "length (rg_recently_closed mid) \<le> 10"
      using mid(1) by (simp add: table_inv_def)
    ultimately show ?thesis
      using Some mid \<open>freeze_inv (drop_record sid mid)\<close>
      by (auto simp: rem intro!: table_inv_drop_session freeze_inv_drop_session)
  qed
qed

lemma pop_closed_shorter: "pop_closed there rs = Some (r, rest) \<Longrightarrow> length rest < length rs \<and> r \<in> set rs"
  by (induction rs) (auto split: if_splits)

lemma reopen_inv:
  assumes "table_inv reg" "freeze_inv reg" "\<And>r. r \<in> set (rg_recently_closed reg) \<Longrightarrow> session_of reg (sr_id r) = None"
  shows "table_inv (snd (reopen_last_closed there reg)) \<and> freeze_inv (snd (reopen_last_closed there reg))"
proof (cases "pop_closed there (rev (rg_recently_closed reg))")
  case None
  then show ?thesis
    using assms by (simp add: reopen_last_closed_def table_inv_def)
next
  case (Some p)
  obtain r rest where p: "p = (r, rest)"
    by fastforce
  have shorter: "length rest < length (rg_recently_closed reg)" "r \<in> set (rg_recently_closed reg)"
    using pop_closed_shorter [of there "rev (rg_recently_closed reg)" r rest] Some by (simp_all add: p)
  have closed: "table_inv (reg\<lparr>rg_recently_closed := rev rest\<rparr>)"
    using assms(1) shorter(1) by (simp add: table_inv_def)
  have "freeze_inv (insert_record r (reg\<lparr>rg_recently_closed := rev rest\<rparr>))"
    unfolding insert_record_def using assms(2) assms(3) [OF shorter(2)] by (intro freeze_inv_put_record) auto
  moreover have "table_inv (insert_record r (reg\<lparr>rg_recently_closed := rev rest\<rparr>))"
    unfolding insert_record_def using closed by (intro table_inv_put_record) auto
  ultimately show ?thesis
    by (simp add: reopen_last_closed_def Some p)
qed

lemma respawn_inv:
  assumes "table_inv reg" "freeze_inv reg" "\<And>s. started = Some s \<Longrightarrow> fresh_session s"
  shows "table_inv (snd (respawn sid started now reg)) \<and> freeze_inv (snd (respawn sid started now reg))"
proof (cases "record_of reg sid \<noteq> None \<and> started \<noteq> None")
  case True
  then obtain s where s: "started = Some s"
    by blast
  have "table_inv (insert_session sid s reg)"
    using assms(1) True by (simp add: table_inv_insert_session)
  moreover have "frozen_ok reg sid s"
    using assms(3) [OF s] by (simp add: fresh_session_def frozen_ok_def)
  then have "freeze_inv (insert_session sid s reg)"
    using assms(2) by (intro freeze_inv_insert_session)
  ultimately show ?thesis
    using True with_record_inv [of "insert_session sid s reg" sid] by (auto simp: respawn_def s)
next
  case False
  then show ?thesis
    using assms by (auto simp: respawn_def split: option.split)
qed

lemma hook_keeps:
  assumes "fold_generated gen (fold_first_prompt meta (fold_transcript meta (fold_agent_id meta (r, False)))) = (r', changed)"
  shows "sr_id r' = sr_id r \<and> sr_hibernation r' = sr_hibernation r"
proof -
  have keep: "sr_id (fst (fold_agent_id meta rc)) = sr_id (fst rc) \<and> sr_hibernation (fst (fold_agent_id meta rc)) = sr_hibernation (fst rc)"
    "sr_id (fst (fold_transcript meta rc)) = sr_id (fst rc) \<and> sr_hibernation (fst (fold_transcript meta rc)) = sr_hibernation (fst rc)"
    "sr_id (fst (fold_first_prompt meta rc)) = sr_id (fst rc) \<and> sr_hibernation (fst (fold_first_prompt meta rc)) = sr_hibernation (fst rc)"
    "sr_id (fst (fold_generated gen rc)) = sr_id (fst rc) \<and> sr_hibernation (fst (fold_generated gen rc)) = sr_hibernation (fst rc)" for rc
    by (auto simp: fold_agent_id_def fold_transcript_def fold_first_prompt_def fold_generated_def split: option.split)
  have "r' = fst (fold_generated gen (fold_first_prompt meta (fold_transcript meta (fold_agent_id meta (r, False)))))"
    using assms by simp
  then show ?thesis
    using keep by simp
qed

lemma hook_inv:
  assumes "table_inv reg" "freeze_inv reg"
  shows "table_inv (snd (apply_hook_metadata alnum ai_title sid meta now reg)) \<and> freeze_inv (snd (apply_hook_metadata alnum ai_title sid meta now reg))"
proof (cases "record_of reg sid")
  case (Some r)
  obtain r' changed where f: "fold_generated (generated_title alnum ai_title meta r)
      (fold_first_prompt meta (fold_transcript meta (fold_agent_id meta (r, False)))) = (r', changed)"
    by fastforce
  have "snd (apply_hook_metadata alnum ai_title sid meta now reg) =
      with_record sid (\<lambda>_. if changed then r'\<lparr>sr_updated_at := date_millis_of now\<rparr> else r') reg"
    by (simp add: apply_hook_metadata_def Some f Let_def)
  then show ?thesis
    using with_record_inv [OF assms, of sid "\<lambda>_. if changed then r'\<lparr>sr_updated_at := date_millis_of now\<rparr> else r'"]
      hook_keeps [OF f] Some by simp
qed (use assms in \<open>simp add: apply_hook_metadata_def\<close>)

lemma sample_record:
  assumes "record_of reg sid = Some r"
  shows "\<exists>r'. snd (apply_resource_sample sid memory ports artifacts reg) = with_record sid (\<lambda>_. r') reg \<and>
    sr_id r' = sr_id r \<and> sr_hibernation r' = sr_hibernation r"
  using assms unfolding apply_resource_sample_def Let_def
  by (auto split: option.split)

lemma sample_inv:
  assumes "table_inv reg" "freeze_inv reg"
  shows "table_inv (snd (apply_resource_sample sid memory ports artifacts reg)) \<and> freeze_inv (snd (apply_resource_sample sid memory ports artifacts reg))"
proof (cases "record_of reg sid")
  case (Some r)
  obtain r' where r': "snd (apply_resource_sample sid memory ports artifacts reg) = with_record sid (\<lambda>_. r') reg"
    "sr_id r' = sr_id r" "sr_hibernation r' = sr_hibernation r"
    using sample_record [OF Some] by blast
  then show ?thesis
    using with_record_inv [OF assms, of sid "\<lambda>_. r'"] Some by simp
qed (use assms in \<open>simp add: apply_resource_sample_def\<close>)

lemma load_inv:
  assumes "table_inv reg" "rg_sessions reg = []"
  shows "table_inv (snd (load j alnum readable renamed reg)) \<and> freeze_inv (snd (load j alnum readable renamed reg))"
proof -
  have "table_inv (load_sessions alnum rs (reg\<lparr>rg_projects := ps\<rparr>))" for rs ps
    using assms(1) by (intro table_inv_load_sessions) simp
  moreover have "freeze_inv (load_sessions alnum rs (reg\<lparr>rg_projects := ps\<rparr>))" for rs ps
    using assms(2) by (simp add: freeze_inv_def load_sessions_def Let_def)
  moreover have "freeze_inv reg"
    using assms(2) by (simp add: freeze_inv_def)
  ultimately show ?thesis
    using assms(1) by (auto simp: load_def Let_def split: option.split)
qed

lemma persist_inv:
  assumes "table_inv reg" "freeze_inv reg"
  shows "table_inv (snd (persist_now j fault t reg)) \<and> freeze_inv (snd (persist_now j fault t reg))"
    and "table_inv (snd (persist j fault t reg)) \<and> freeze_inv (snd (persist j fault t reg))"
proof -
  show now: "table_inv (snd (persist_now j fault t reg)) \<and> freeze_inv (snd (persist_now j fault t reg))"
    using assms by (auto simp: persist_now_def split: option.split persist_fault.split)
  show "table_inv (snd (persist j fault t reg)) \<and> freeze_inv (snd (persist j fault t reg))"
    using assms now by (auto simp: persist_def split: option.split)
qed

lemma adopt_holders_inv:
  assumes "table_inv reg" "freeze_inv reg" "\<And>sid alive adopt. (sid, alive, adopt) \<in> set holders \<Longrightarrow> adopts_well reg sid adopt"
  shows "freeze_inv (snd (adopt_live_holders holders reg))"
  using assms
proof (induction holders arbitrary: reg)
  case (Cons h holders)
  obtain k alive adopt where h: "h = (k, alive, adopt)"
    by (cases h)
  show ?case
  proof (cases rule: adopt_Cons [of k alive adopt holders reg])
    case skip
    then show ?thesis
      using Cons.IH [OF Cons.prems(1,2)] Cons.prems(3) by (simp only: h) (meson list.set_intros(2))
  next
    case (adopt r s)
    have "adopts_well reg k adopt"
      using Cons.prems(3) h by auto
    then have "frozen_ok reg k s"
      using adopt(1,4) by (auto simp: adopts_well_def frozen_ok_def set_hibernated_def)
    then have inv: "table_inv (insert_session k s reg)" "freeze_inv (insert_session k s reg)"
      using Cons.prems(1,2) adopt(1) by (simp_all add: freeze_inv_insert_session table_inv_insert_session)
    have "adopts_well (insert_session k s reg) sid al" if "(sid, x, al) \<in> set holders" for sid x al
    proof -
      have "adopts_well reg sid al"
        using Cons.prems(3) that by (meson list.set_intros(2))
      then show ?thesis
        unfolding adopts_well_def registry_sel .
    qed
    then show ?thesis
      using Cons.IH [OF inv] adopt(5) unfolding h by (metis snd_conv)
  qed
qed simp

lemma restore_inv:
  assumes "table_inv reg" "freeze_inv reg" "\<And>sid alive adopt. (sid, alive, adopt) \<in> set holders \<Longrightarrow> adopts_well reg sid adopt"
  shows "table_inv (snd (restore j holders fault t reg)) \<and> freeze_inv (snd (restore j holders fault t reg))"
proof -
  define mid where "mid = snd (adopt_live_holders holders reg)"
  have mid: "table_inv mid" "freeze_inv mid"
    using adopt_keeps assms(1) adopt_holders_inv [OF assms] by (auto simp: mid_def)
  have keep: "sr_id (restart_exit r) = sr_id r \<and> sr_hibernation (restart_exit r) = sr_hibernation r" for r
    by (simp add: restart_exit_def)
  have "table_inv (fold (\<lambda>sid. with_record sid restart_exit) ids mid) \<and> freeze_inv (fold (\<lambda>sid. with_record sid restart_exit) ids mid)" for ids
    using mid
  proof (induction ids arbitrary: mid)
    case (Cons sid ids)
    then show ?case
      using with_record_inv [of mid sid restart_exit] keep by simp
  qed simp
  then have "table_inv (reap_orphans j fault t mid) \<and> freeze_inv (reap_orphans j fault t mid)"
    using mid persist_inv(2) by (simp add: reap_orphans_def)
  then show ?thesis
    by (simp add: restore_def mid_def case_prod_unfold)
qed

lemma archive_inv:
  assumes "table_inv reg" "freeze_inv reg"
  shows "table_inv (snd (archive_session sid ended now reg)) \<and> freeze_inv (snd (archive_session sid ended now reg))"
proof -
  define mid where "mid = (if session_of reg sid \<noteq> None then snd (terminate sid ended reg) else reg)"
  have mid: "table_inv mid" "freeze_inv mid"
    using assms terminate_inv [OF assms, of sid ended] by (simp_all add: mid_def)
  have "archive_session sid ended now reg = (if record_of reg sid = None then (Inl NotFound, reg) else (Inr (), with_record sid (\<lambda>r.
      r\<lparr>sr_archived_at := Some (date_millis_of now), sr_status := (if is_exited (sr_status r) then sr_status r
        else Exited \<lparr>exit_reason = ReasonArchived, exit_code = None, exit_signal = None\<rparr>), sr_needs_input := None\<rparr>) mid))"
    unfolding archive_session_def Let_def mid_def [symmetric] ..
  then show ?thesis
    using assms with_record_inv [OF mid, of sid] by auto
qed

lemma registry_step_inv:
  assumes "registry_step alnum j ai_title reg reg'" "table_inv reg \<and> freeze_inv reg"
  shows "table_inv reg' \<and> freeze_inv reg'"
  using assms
proof (induction rule: registry_step.induct)
  case (step_insert reg r)
  then show ?case
    unfolding insert_record_def by (auto intro!: table_inv_put_record freeze_inv_put_record)
next
  case (step_forget reg sid)
  then show ?case
    unfolding forget_def by (auto intro!: table_inv_drop_record table_inv_drop_session freeze_inv_drop_record freeze_inv_drop_session)
next
  case (step_project reg rt host)
  then show ?case
    by (simp add: ensure_session_project_def Let_def split: option.split)
next
  case (step_wake reg answer ok sid now)
  then show ?case
    by (simp add: wake_session_def table_inv_ensure_awake freeze_inv_ensure_awake)
next
  case (step_pulls reg sid statuses now)
  then show ?case
    using with_record_inv [of reg sid] by (simp add: apply_pull_request_statuses_def split: option.split)
next
  case (step_update mutate reg sid now)
  then show ?case
    using with_record_inv [of reg sid] by (simp add: update_record_def)
next
  case (step_rename reg sid title now)
  then show ?case
    using with_record_inv [of reg sid] by (simp add: rename_def)
next
  case (step_seen reg sid now)
  then show ?case
    using with_record_inv [of reg sid] by (simp add: mark_seen_def)
next
  case (step_unarchive reg sid now)
  then show ?case
    using with_record_inv [of reg sid] by (simp add: unarchive_def split: option.split)
next
  case (step_flush reg fault t)
  then show ?case
    by (simp add: flush_dirty_def persist_inv)
next
  case (step_write reg ok sid bs)
  then show ?case
    by (simp add: freeze_inv_write) (simp add: write_session_def table_inv_with_session)
qed (auto simp: spawn_inv adopt_remote_inv restore_inv changed_since_inv terminate_inv remove_inv reopen_inv respawn_inv
    table_inv_ensure_awake freeze_inv_ensure_awake table_inv_hibernate freeze_inv_hibernate hook_inv sample_inv archive_inv persist_inv load_inv)

lemma registry_reachable_inv:
  assumes "registry_reachable alnum j ai_title reg"
  shows "table_inv reg \<and> freeze_inv reg"
proof -
  obtain engine disk where "(registry_step alnum j ai_title)\<^sup>*\<^sup>* (registry_new engine disk) reg"
    using assms by (auto simp: registry_reachable_def)
  then show ?thesis
  proof induction
    case base
    then show ?case
      by (simp add: freeze_inv_def registry_new_def table_inv_def)
  qed (rule registry_step_inv)
qed



end
