(* ===== verification/Governor.thy ===== *)
theory Governor
  imports Registry_History Process_Tree
begin

text \<open>
  The resource governor (\<^verbatim>\<open>homie-engine/src/governor.rs\<close>): one sweep samples the memory of every session's
  process tree, publishes what changed, and freezes idle sessions that are too big, idle for long, or in the way of
  the memory budget. The registry is shared: \<open>gw_between\<close> is what other threads do to it before the
  \<open>n\<close>-th time the sweep takes its lock, so that the sweep works on a list of records that may be out of
  date. The answers of the system (process tables, \<^verbatim>\<open>/proc\<close> texts, lsof, clock, disk) and of the
  attach hub are inputs. Reals stand for f64.
\<close>

section \<open>Configuration\<close>

record governor_config =
  gc_idle_threshold_seconds :: real
  gc_hard_memory_bytes :: u64
  gc_global_budget_fraction :: real
  gc_budget_min_idle_seconds :: real
  gc_hibernated_sample_every :: nat
  gc_port_scan_enabled :: bool
  gc_scan_interval :: duration

definition governor_default :: governor_config where
  "governor_default = \<lparr>gc_idle_threshold_seconds = 900, gc_hard_memory_bytes = 6 * 2 ^ 30, gc_global_budget_fraction = 3 / 4,
     gc_budget_min_idle_seconds = 300, gc_hibernated_sample_every = 5, gc_port_scan_enabled = True,
     gc_scan_interval = from_secs 30\<rparr>"

definition should_scan_ports :: "bool \<Rightarrow> bool \<Rightarrow> nat \<Rightarrow> bool" where
  "should_scan_ports enabled attached tick \<longleftrightarrow> enabled \<and> attached \<and> tick mod 4 = 0"

section \<open>The system\<close>

record gov_world =
  gw_between :: "nat \<Rightarrow> registry \<Rightarrow> registry"
  gw_os :: os_world
  gw_run :: "nat \<Rightarrow> os_run" \<comment> \<open>where the process tree's system calls stand\<close>
  gw_status :: "nat \<Rightarrow> int \<Rightarrow> str option" \<comment> \<open>/proc/pid/status\<close>
  gw_meminfo :: "str option"
  gw_attached :: "nat \<Rightarrow> str \<Rightarrow> bool"
  gw_lsof :: "nat \<Rightarrow> int list \<Rightarrow> str option" \<comment> \<open>None: not started, or not done in time\<close>
  gw_now :: "nat \<Rightarrow> systime"
  gw_signal :: "nat \<Rightarrow> str \<Rightarrow> (int \<times> int) list option"
  gw_alnum :: "nat \<Rightarrow> bool"
  gw_json :: state_json
  gw_fault :: "nat \<Rightarrow> persist_fault option"
  gw_clock :: "nat \<Rightarrow> duration"

datatype gov_effect =
  WakePrMonitor str
| PublishResources session_resources_event
| StopTree str hibernation_reason
| PublishSession session_record

record gov_state =
  gs_registry :: registry
  gs_effects :: "gov_effect list"
  gs_turn :: nat

type_synonym 'a gov = "(gov_state, 'a) state"

definition lock_registry :: "gov_world \<Rightarrow> (registry \<Rightarrow> 'a \<times> registry) \<Rightarrow> 'a gov" where
  "lock_registry w f = State (\<lambda>s. case f (gw_between w (gs_turn s) (gs_registry s)) of
     (x, reg) \<Rightarrow> (x, s\<lparr>gs_registry := reg, gs_turn := gs_turn s + 1\<rparr>))"

definition turn :: "nat gov" where
  "turn = State (\<lambda>s. (gs_turn s, s))"

definition perform :: "gov_effect \<Rightarrow> unit gov" where
  "perform e = State (\<lambda>s. ((), s\<lparr>gs_effects := gs_effects s @ [e]\<rparr>))"

section \<open>Memory\<close>

text \<open>The first line with the label, its first word as kilobytes. The product wraps, as in a release build.\<close>

definition parse_u64 :: "str \<Rightarrow> u64 option" where
  "parse_u64 s =
     (let s = (case s of [] \<Rightarrow> [] | c # d \<Rightarrow> if c = 43 then d else s)
      in if s = [] then None
         else Option.bind (digits_value 0 s) (\<lambda>n. if n < 2 ^ 64 then Some (of_nat n) else None))"

definition kilobytes :: "str \<Rightarrow> str \<Rightarrow> u64 option" where
  "kilobytes label txt =
     Option.bind (find (\<lambda>l. starts_with l label) (text_lines txt)) (\<lambda>l.
       case split_whitespace (drop (length label) l) of
         [] \<Rightarrow> None
       | kb # _ \<Rightarrow> map_option (\<lambda>n. n * 1024) (parse_u64 kb))"

definition footprint_of_pid :: "gov_world \<Rightarrow> nat \<Rightarrow> int \<Rightarrow> u64" where
  "footprint_of_pid w n pid =
     (case Option.bind (gw_status w n pid) (kilobytes (lit ''VmRSS:'')) of None \<Rightarrow> 0 | Some bs \<Rightarrow> bs)"

definition footprint_of :: "gov_world \<Rightarrow> nat \<Rightarrow> int list \<Rightarrow> u64" where
  "footprint_of w n pids = sum_list (map (footprint_of_pid w n) pids)"

definition physical_memory :: "gov_world \<Rightarrow> u64" where
  "physical_memory w =
     (case Option.bind (gw_meminfo w) (kilobytes (lit ''MemTotal:'')) of None \<Rightarrow> 16 * 2 ^ 30 | Some bs \<Rightarrow> bs)"

text \<open>The cast \<open>as u64\<close> saturates.\<close>

definition f64_as_u64 :: "real \<Rightarrow> u64" where
  "f64_as_u64 x = of_int (max 0 (min (2 ^ 64 - 1) \<lfloor>x\<rfloor>))"

section \<open>Ports\<close>

text \<open>\<open>seen\<close> is the BTreeMap, ordered in the end; the first command of a port stays.\<close>

fun lsof_lines :: "str \<Rightarrow> (int \<times> str) list \<Rightarrow> str list \<Rightarrow> (int \<times> str) list" where
  "lsof_lines command seen [] = seen"
| "lsof_lines command seen ([] # ls) = lsof_lines command seen ls"
| "lsof_lines command seen ((c # l) # ls) =
     (if c = 99 then lsof_lines l seen ls
      else if c = 110 then
        (case parse_i64 (last (split_on 58 l)) of
           None \<Rightarrow> lsof_lines command seen ls
         | Some port \<Rightarrow> lsof_lines command (if map_of seen port = None then seen @ [(port, command)] else seen) ls)
      else lsof_lines command seen ls)"

definition parse_lsof :: "str \<Rightarrow> port_info list" where
  "parse_lsof out = map (\<lambda>(port, name). \<lparr>port_port = port, port_process_name = name\<rparr>) (sort_key fst (lsof_lines [] [] (text_lines out)))"

definition listening_ports :: "gov_world \<Rightarrow> nat \<Rightarrow> int list \<Rightarrow> port_info list option" where
  "listening_ports w n pids = (if pids = [] then Some [] else map_option parse_lsof (gw_lsof w n pids))"

section \<open>The sweep\<close>

definition now_millis :: "systime \<Rightarrow> real" where
  "now_millis t = (if t < UNIX_EPOCH then 0 else of_int ((t - UNIX_EPOCH) div 1000000))"

text \<open>The fold from NaN with \<open>f64::max\<close> is the greatest of the dates; the date of the last update is always there.\<close>

definition idle_since :: "session_record \<Rightarrow> bool \<Rightarrow> real option" where
  "idle_since r attached =
     (if sr_hibernation r \<noteq> None \<or> sr_pinned r \<or> attached then None
      else if sr_status r \<noteq> Idle then None
      else Some (fold max (List.map_filter (\<lambda>d. d) [sr_last_turn_completed_at r, sr_last_seen_at r]) (sr_updated_at r)))"

definition apply_sample :: "gov_world \<Rightarrow> str \<Rightarrow> nat option \<Rightarrow> port_info list option \<Rightarrow> session_artifact list option \<Rightarrow> unit gov" where
  "apply_sample w sid memory ports artifacts = do {
     event \<leftarrow> lock_registry w (apply_resource_sample sid memory ports artifacts);
     (case event of
        None \<Rightarrow> State_Monad.return ()
      | Some e \<Rightarrow> do {
          (if sre_artifacts e \<noteq> None then perform (WakePrMonitor sid) else State_Monad.return ());
          perform (PublishResources e)
        })
   }"

text \<open>
  Freezing, under the lock: whether a signal was sent, which is when the session is there, and the record to publish.
\<close>

definition hibernate_locked :: "gov_world \<Rightarrow> nat \<Rightarrow> str \<Rightarrow> hibernation_reason \<Rightarrow> registry \<Rightarrow> (bool \<times> session_record option) \<times> registry" where
  "hibernate_locked w n sid reason reg =
     (case hibernate (gw_signal w n sid) sid reason (gw_now w n) reg of
        (Inl e, reg') \<Rightarrow> ((session_of reg sid \<noteq> None, None), reg')
      | (Inr _, reg') \<Rightarrow>
          let reg'' = snd (persist (gw_json w) (gw_fault w n) (gw_clock w n) reg')
          in ((True, find (\<lambda>r. sr_id r = sid) (records (gw_alnum w) reg'')), reg''))"

definition gov_hibernate :: "gov_world \<Rightarrow> str \<Rightarrow> hibernation_reason \<Rightarrow> unit gov" where
  "gov_hibernate w sid reason = do {
     n \<leftarrow> turn;
     (stopped, shown) \<leftarrow> lock_registry w (hibernate_locked w n sid reason);
     (if stopped then perform (StopTree sid reason) else State_Monad.return ());
     (case shown of None \<Rightarrow> State_Monad.return () | Some r \<Rightarrow> perform (PublishSession r))
   }"

type_synonym candidate = "str \<times> real \<times> u64"

fun scan_records :: "gov_world \<Rightarrow> governor_config \<Rightarrow> nat \<Rightarrow> session_record list \<Rightarrow> u64 \<Rightarrow> candidate list \<Rightarrow> (u64 \<times> candidate list) gov" where
  "scan_records w cfg tick [] used idle = State_Monad.return (used, idle)"
| "scan_records w cfg tick (r # rs) used idle =
     (case sr_hibernation r of
        Some h \<Rightarrow>
          if tick mod gc_hibernated_sample_every cfg = 0
          then do {
            n \<leftarrow> turn;
            let footprint = footprint_of w n (hib_tree_pids h);
            apply_sample w (sr_id r) (Some (unat footprint)) None None;
            scan_records w cfg tick rs (used + footprint) idle
          }
          else scan_records w cfg tick rs (used + of_nat (case sr_memory_bytes r of None \<Rightarrow> 0 | Some m \<Rightarrow> m)) idle
      | None \<Rightarrow> do {
          live \<leftarrow> lock_registry w (\<lambda>reg. (map_option (\<lambda>s. (ls_child_pid s, ls_artifacts s)) (session_of reg (sr_id r)), reg));
          (case live of
             None \<Rightarrow> scan_records w cfg tick rs used idle
           | Some (child_pid, artifacts) \<Rightarrow>
               if child_pid \<le> 1 then scan_records w cfg tick rs used idle
               else do {
                 n \<leftarrow> turn;
                 let pids = map hps_pid (fst (run_state (enumerate_tree (gw_os w) child_pid) (gw_run w n)));
                 let footprint = footprint_of w n pids;
                 let attached = gw_attached w n (sr_id r);
                 apply_sample w (sr_id r) (Some (unat footprint))
                   (if should_scan_ports (gc_port_scan_enabled cfg) attached tick then listening_ports w n pids else None)
                   (if artifacts \<noteq> [] then Some artifacts else None);
                 (case idle_since r attached of
                    None \<Rightarrow> scan_records w cfg tick rs (used + footprint) idle
                  | Some since \<Rightarrow>
                      if footprint > gc_hard_memory_bytes cfg
                      then do {
                        gov_hibernate w (sr_id r) MemoryPressure;
                        scan_records w cfg tick rs (used + footprint) idle
                      }
                      else scan_records w cfg tick rs (used + footprint) (idle @ [(sr_id r, since, footprint)]))
               })
        })"

definition idle_longer :: "real \<Rightarrow> real \<Rightarrow> candidate \<Rightarrow> bool" where
  "idle_longer now_ms seconds c \<longleftrightarrow> (now_ms - fst (snd c)) / 1000 > seconds"

fun idle_pass :: "gov_world \<Rightarrow> governor_config \<Rightarrow> real \<Rightarrow> candidate list \<Rightarrow> unit gov" where
  "idle_pass w cfg now_ms [] = State_Monad.return ()"
| "idle_pass w cfg now_ms (c # cs) = do {
     (if idle_longer now_ms (gc_idle_threshold_seconds cfg) c then gov_hibernate w (fst c) HibernatedIdle else State_Monad.return ());
     idle_pass w cfg now_ms cs
   }"

fun budget_pass :: "gov_world \<Rightarrow> governor_config \<Rightarrow> real \<Rightarrow> u64 \<Rightarrow> candidate list \<Rightarrow> unit gov" where
  "budget_pass w cfg now_ms excess [] = State_Monad.return ()"
| "budget_pass w cfg now_ms excess (c # cs) =
     (if excess = 0 then State_Monad.return ()
      else if idle_longer now_ms (gc_budget_min_idle_seconds cfg) c
      then do {
        gov_hibernate w (fst c) MemoryPressure;
        budget_pass w cfg now_ms (if snd (snd c) \<le> excess then excess - snd (snd c) else 0) cs
      }
      else budget_pass w cfg now_ms excess cs)"

definition sweep :: "gov_world \<Rightarrow> governor_config \<Rightarrow> nat \<Rightarrow> unit gov" where
  "sweep w cfg tick = do {
     listed \<leftarrow> lock_registry w (\<lambda>reg. (records (gw_alnum w) reg, reg));
     (used, idle) \<leftarrow> scan_records w cfg tick listed 0 [];
     n \<leftarrow> turn;
     let now_ms = now_millis (gw_now w n);
     (if gc_idle_threshold_seconds cfg > 0 then idle_pass w cfg now_ms idle else State_Monad.return ());
     let budget = f64_as_u64 (real (unat (physical_memory w)) * gc_global_budget_fraction cfg);
     (if used > budget then budget_pass w cfg now_ms (used - budget) (sort_key (\<lambda>c. fst (snd c)) idle) else State_Monad.return ())
   }"

section \<open>What a sweep does\<close>

definition sound :: "registry \<Rightarrow> bool" where
  "sound reg \<longleftrightarrow> table_inv reg \<and> freeze_inv reg"

text \<open>Going from \<open>s\<close> to \<open>s'\<close>, with effects that all satisfy \<open>P\<close>, and keeping the registry consistent when the other threads do.\<close>

definition acts :: "gov_world \<Rightarrow> (gov_effect \<Rightarrow> bool) \<Rightarrow> gov_state \<Rightarrow> gov_state \<Rightarrow> bool" where
  "acts w P s s' \<longleftrightarrow> gs_turn s \<le> gs_turn s' \<and> (\<exists>es. gs_effects s' = gs_effects s @ es \<and> list_all P es) \<and>
     ((\<forall>n reg. sound reg \<longrightarrow> sound (gw_between w n reg)) \<longrightarrow> sound (gs_registry s) \<longrightarrow> sound (gs_registry s'))"

lemma acts_refl [simp]: "acts w P s s"
  by (simp add: acts_def)

lemma acts_trans [trans]:
  assumes "acts w P s s1" "acts w P s1 s2"
  shows "acts w P s s2"
proof -
  obtain es es' where "gs_effects s1 = gs_effects s @ es" "list_all P es" "gs_effects s2 = gs_effects s1 @ es'" "list_all P es'"
    using assms unfolding acts_def by blast
  then show ?thesis
    using assms unfolding acts_def by (intro conjI exI [of _ "es @ es'"]) auto
qed

lemma acts_turn: "acts w P s s' \<Longrightarrow> gs_turn s \<le> gs_turn s'"
  by (simp add: acts_def)

lemma run_turn [simp]: "run_state turn s = (gs_turn s, s)"
  by (simp add: turn_def)

lemma run_perform [simp]: "run_state (perform e) s = ((), s\<lparr>gs_effects := gs_effects s @ [e]\<rparr>)"
  by (simp add: perform_def)

lemma acts_perform: "list_all P es \<Longrightarrow> acts w P s (s\<lparr>gs_effects := gs_effects s @ es\<rparr>)"
  by (simp add: acts_def)

lemma acts_lock:
  assumes "\<And>reg. sound reg \<Longrightarrow> sound (snd (f reg))"
  shows "acts w P s (snd (run_state (lock_registry w f) s))"
  using assms by (auto simp: acts_def lock_registry_def case_prod_beta)

lemma apply_sample_acts:
  assumes "\<And>e. P (PublishResources e)" "\<And>sid. P (WakePrMonitor sid)"
  shows "acts w P s (snd (run_state (apply_sample w sid memory ports artifacts) s))"
proof -
  obtain event s1 where lock: "run_state (lock_registry w (apply_resource_sample sid memory ports artifacts)) s = (event, s1)"
    by fastforce
  have "acts w P s (snd (run_state (lock_registry w (apply_resource_sample sid memory ports artifacts)) s))"
    by (rule acts_lock) (auto simp: sound_def intro: sample_inv [THEN conjunct1] sample_inv [THEN conjunct2])
  then have first: "acts w P s s1"
    by (simp add: lock)
  show ?thesis
  proof (cases event)
    case None
    then show ?thesis
      using first lock by (simp add: apply_sample_def)
  next
    case (Some e)
    then show ?thesis
      using lock assms by (auto simp: apply_sample_def intro!: acts_perform acts_trans [OF first])
  qed
qed

lemma sound_hibernate_locked: "sound reg \<Longrightarrow> sound (snd (hibernate_locked w n sid reason reg))"
  using freeze_inv_hibernate table_inv_hibernate persist_inv(2)
  by (auto simp: sound_def hibernate_locked_def case_prod_beta Let_def split: sum.split)

lemma gov_hibernate_acts:
  assumes "\<And>r. P (PublishSession r)" "P (StopTree sid reason)"
  shows "acts w P s (snd (run_state (gov_hibernate w sid reason) s))"
proof -
  obtain stopped shown s1 where lock: "run_state (lock_registry w (hibernate_locked w (gs_turn s) sid reason)) s = ((stopped, shown), s1)"
    by (metis surj_pair)
  define s2 where "s2 = (if stopped then s1\<lparr>gs_effects := gs_effects s1 @ [StopTree sid reason]\<rparr> else s1)"
  have "acts w P s (snd (run_state (lock_registry w (hibernate_locked w (gs_turn s) sid reason)) s))"
    by (rule acts_lock) (rule sound_hibernate_locked)
  then have "acts w P s s1"
    by (simp add: lock)
  also have "acts w P s1 s2"
    using assms(2) by (auto simp: s2_def intro: acts_perform)
  also have "acts w P s2 (snd (run_state (case shown of None \<Rightarrow> State_Monad.return () | Some r \<Rightarrow> perform (PublishSession r)) s2))"
    using assms(1) by (auto intro: acts_perform split: option.split)
  finally show ?thesis
    using lock by (simp add: gov_hibernate_def s2_def split: if_splits)
qed

section \<open>Only idle sessions are stopped\<close>

text \<open>A record of the list that says idle, with no client attached when its session was sampled.\<close>

definition idle_in :: "gov_world \<Rightarrow> nat \<Rightarrow> session_record list \<Rightarrow> candidate \<Rightarrow> bool" where
  "idle_in w since listed c \<longleftrightarrow>
     (\<exists>r \<in> set listed. \<exists>n > since. sr_id r = fst c \<and> idle_since r (gw_attached w n (sr_id r)) = Some (fst (snd c)))"

fun stop_allowed :: "gov_world \<Rightarrow> governor_config \<Rightarrow> nat \<Rightarrow> session_record list \<Rightarrow> gov_effect \<Rightarrow> bool" where
  "stop_allowed w cfg since listed (StopTree sid reason) \<longleftrightarrow>
     (\<exists>r \<in> set listed. \<exists>n > since. sr_id r = sid \<and> sr_status r = Idle \<and> \<not> sr_pinned r \<and> sr_hibernation r = None \<and>
        \<not> gw_attached w n sid \<and>
        (reason = MemoryPressure \<or>
         reason = HibernatedIdle \<and> gc_idle_threshold_seconds cfg > 0 \<and>
         (\<exists>m > since. now_millis (gw_now w m) - sr_updated_at r > 1000 * gc_idle_threshold_seconds cfg)))"
| "stop_allowed w cfg since listed e \<longleftrightarrow> True"

lemma idle_since_Some:
  assumes "idle_since r attached = Some t"
  shows "sr_status r = Idle" "\<not> sr_pinned r" "sr_hibernation r = None" "\<not> attached" "sr_updated_at r \<le> t"
  using assms by (auto simp: idle_since_def List.map_filter_simps split: if_splits option.splits)

lemma stop_memory_allowed:
  "idle_in w since listed c \<Longrightarrow> stop_allowed w cfg since listed (StopTree (fst c) MemoryPressure)"
  unfolding idle_in_def stop_allowed.simps using idle_since_Some by metis

lemma scan_acts:
  assumes "set rs \<subseteq> set listed" "since < gs_turn s" "list_all (idle_in w since listed) idle"
    and "run_state (scan_records w cfg tick rs used idle) s = ((used', idle'), s')"
  shows "acts w (stop_allowed w cfg since listed) s s' \<and> list_all (idle_in w since listed) idle'"
  using assms
proof (induction rs arbitrary: s used idle)
  case (Cons r rs)
  let ?acts = "acts w (stop_allowed w cfg since listed)"
  have rs: "set rs \<subseteq> set listed" "r \<in> set listed"
    using Cons.prems(1) by auto
  have goes_on: ?case
    if "?acts s s1" "list_all (idle_in w since listed) idle1" "run_state (scan_records w cfg tick rs used1 idle1) s1 = ((used', idle'), s')"
    for s1 used1 idle1
    using Cons.IH [OF rs(1) _ that(2,3)] acts_turn [OF that(1)] Cons.prems(2) acts_trans [OF that(1)] by force
  have sample: "?acts s1 (snd (run_state (apply_sample w sid memory ports artifacts) s1))" for s1 sid memory ports artifacts
    by (rule apply_sample_acts) simp_all
  show ?case
  proof (cases "sr_hibernation r")
    case (Some h)
    show ?thesis
    proof (cases "tick mod gc_hibernated_sample_every cfg = 0")
      case True
      then show ?thesis
        using Cons.prems(4) Some by (intro goes_on [OF sample Cons.prems(3)]) (simp add: Let_def case_prod_beta)
    next
      case False
      then show ?thesis
        using Cons.prems(4) Some by (intro goes_on [OF acts_refl Cons.prems(3)]) simp
    qed
  next
    case None
    let ?read = "\<lambda>reg. (map_option (\<lambda>x. (ls_child_pid x, ls_artifacts x)) (session_of reg (sr_id r)), reg)"
    obtain live s1 where lock: "run_state (lock_registry w ?read) s = (live, s1)"
      by fastforce
    then have s1: "?acts s s1" "since < gs_turn s1"
      using acts_lock [of ?read w "stop_allowed w cfg since listed" s] Cons.prems(2) by (auto simp: lock_registry_def)
    show ?thesis
    proof (cases "case live of None \<Rightarrow> True | Some (pid, _) \<Rightarrow> pid \<le> 1")
      case True
      then show ?thesis
        using Cons.prems(4) None lock
        by (intro goes_on [OF s1(1) Cons.prems(3)]) (auto split: option.splits)
    next
      case False
      then obtain pid artifacts where live: "live = Some (pid, artifacts)" "\<not> pid \<le> 1"
        by (auto split: option.splits)
      let ?n = "gs_turn s1"
      define pids where "pids = map hps_pid (fst (run_state (enumerate_tree (gw_os w) pid) (gw_run w ?n)))"
      define fp where "fp = footprint_of w ?n pids"
      define attached where "attached = gw_attached w ?n (sr_id r)"
      define s2 where "s2 = snd (run_state (apply_sample w (sr_id r) (Some (unat fp))
        (if should_scan_ports (gc_port_scan_enabled cfg) attached tick then listening_ports w ?n pids else None)
        (if artifacts \<noteq> [] then Some artifacts else None)) s1)"
      have s2: "?acts s s2"
        using acts_trans [OF s1(1) sample] by (simp add: s2_def)
      have rest: "run_state (case idle_since r attached of
            None \<Rightarrow> scan_records w cfg tick rs (used + fp) idle
          | Some t \<Rightarrow> if fp > gc_hard_memory_bytes cfg
              then do { gov_hibernate w (sr_id r) MemoryPressure; scan_records w cfg tick rs (used + fp) idle }
              else scan_records w cfg tick rs (used + fp) (idle @ [(sr_id r, t, fp)])) s2 = ((used', idle'), s')"
        using Cons.prems(4) None lock live unfolding s2_def attached_def fp_def pids_def
        by (simp add: Let_def case_prod_beta cong: option.case_cong if_cong split del: if_split)
      show ?thesis
      proof (cases "idle_since r attached")
        case None
        then show ?thesis
          using rest by (intro goes_on [OF s2 Cons.prems(3)]) simp
      next
        case (Some t)
        have idle: "idle_in w since listed (sr_id r, t, fp)"
          unfolding idle_in_def using Some rs(2) s1(2) by (auto simp: attached_def)
        show ?thesis
        proof (cases "fp > gc_hard_memory_bytes cfg")
          case True
          have "?acts s2 (snd (run_state (gov_hibernate w (sr_id r) MemoryPressure) s2))"
            using stop_memory_allowed [OF idle] by (intro gov_hibernate_acts) simp_all
          then show ?thesis
            using rest Some True by (intro goes_on [OF acts_trans [OF s2] Cons.prems(3)]) (auto simp: case_prod_beta)
        next
          case False
          then show ?thesis
            using rest Some Cons.prems(3) idle by (intro goes_on [OF s2]) simp_all
        qed
      qed
    qed
  qed
qed simp

lemma idle_pass_acts:
  assumes "list_all (idle_in w since listed) cs" "gc_idle_threshold_seconds cfg > 0" "since < m"
  shows "acts w (stop_allowed w cfg since listed) s (snd (run_state (idle_pass w cfg (now_millis (gw_now w m)) cs) s))"
  using assms(1)
proof (induction cs arbitrary: s)
  case (Cons c cs)
  let ?head = "if idle_longer (now_millis (gw_now w m)) (gc_idle_threshold_seconds cfg) c then gov_hibernate w (fst c) HibernatedIdle else State_Monad.return ()"
  have "acts w (stop_allowed w cfg since listed) s (snd (run_state ?head s))"
  proof (cases "idle_longer (now_millis (gw_now w m)) (gc_idle_threshold_seconds cfg) c")
    case True
    obtain r n where r: "r \<in> set listed" "n > since" "sr_id r = fst c" "idle_since r (gw_attached w n (sr_id r)) = Some (fst (snd c))"
      using Cons.prems by (auto simp: idle_in_def)
    note idle = idle_since_Some [OF r(4)]
    have "now_millis (gw_now w m) - sr_updated_at r > 1000 * gc_idle_threshold_seconds cfg"
      using True idle(5) by (simp add: idle_longer_def field_simps)
    then have "stop_allowed w cfg since listed (StopTree (fst c) HibernatedIdle)"
      unfolding stop_allowed.simps using r idle assms(2,3) by metis
    then show ?thesis
      using True gov_hibernate_acts by simp
  qed simp
  from acts_trans [OF this Cons.IH] Cons.prems show ?case
    by (simp add: case_prod_beta)
qed simp

lemma budget_pass_acts:
  assumes "list_all (idle_in w since listed) cs"
  shows "acts w (stop_allowed w cfg since listed) s (snd (run_state (budget_pass w cfg now_ms excess cs) s))"
  using assms
proof (induction cs arbitrary: s excess)
  case (Cons c cs)
  have "acts w (stop_allowed w cfg since listed) s (snd (run_state (gov_hibernate w (fst c) MemoryPressure) s))"
    using Cons.prems stop_memory_allowed by (intro gov_hibernate_acts) simp_all
  then have "acts w (stop_allowed w cfg since listed) s
      (snd (run_state (budget_pass w cfg now_ms excess' cs) (snd (run_state (gov_hibernate w (fst c) MemoryPressure) s))))" for excess'
    by (rule acts_trans [OF _ Cons.IH]) (use Cons.prems in simp)
  moreover have "acts w (stop_allowed w cfg since listed) s (snd (run_state (budget_pass w cfg now_ms excess cs) s))"
    using Cons by simp
  ultimately show ?case
    by (simp add: case_prod_beta)
qed simp

lemma sweep_acts:
  defines "listed w s \<equiv> records (gw_alnum w) (gw_between w (gs_turn s) (gs_registry s))"
  shows "acts w (stop_allowed w cfg (gs_turn s) (listed w s)) s (snd (run_state (sweep w cfg tick) s))"
proof -
  let ?acts = "acts w (stop_allowed w cfg (gs_turn s) (listed w s))"
  let ?read = "\<lambda>reg. (records (gw_alnum w) reg, reg)"
  obtain rs s1 where lock: "run_state (lock_registry w ?read) s = (rs, s1)"
    by fastforce
  then have s1: "rs = listed w s" "gs_turn s < gs_turn s1" "?acts s s1"
    using acts_lock [of ?read w "stop_allowed w cfg (gs_turn s) (listed w s)" s] by (auto simp: lock_registry_def listed_def)
  obtain used idle s2 where scan: "run_state (scan_records w cfg tick rs 0 []) s1 = ((used, idle), s2)"
    by (metis surj_pair)
  have s2: "?acts s1 s2" "list_all (idle_in w (gs_turn s) (listed w s)) idle"
    using scan_acts [OF _ s1(2) _ scan] s1(1) by auto
  define s3 where "s3 = snd (run_state (if gc_idle_threshold_seconds cfg > 0 then idle_pass w cfg (now_millis (gw_now w (gs_turn s2))) idle else State_Monad.return ()) s2)"
  have s3: "?acts s2 s3"
    using idle_pass_acts [OF s2(2)] s1(2) acts_turn [OF s2(1)] by (simp add: s3_def)
  let ?budget = "f64_as_u64 (real (unat (physical_memory w)) * gc_global_budget_fraction cfg)"
  define s4 where "s4 = snd (run_state (if used > ?budget
    then budget_pass w cfg (now_millis (gw_now w (gs_turn s2))) (used - ?budget) (sort_key (\<lambda>c. fst (snd c)) idle) else State_Monad.return ()) s3)"
  have "?acts s3 s4"
    using budget_pass_acts [of w "gs_turn s" "listed w s" "sort_key (\<lambda>c. fst (snd c)) idle"] s2(2)
    by (simp add: s4_def list_all_iff)
  moreover have "snd (run_state (sweep w cfg tick) s) = s4"
    using lock scan unfolding sweep_def s4_def s3_def by (simp add: case_prod_beta Let_def)
  ultimately show ?thesis
    using acts_trans [OF acts_trans [OF acts_trans [OF s1(3) s2(1)] s3]] by simp
qed

text \<open>
  Claim C13. A sweep, whatever other threads do meanwhile, stops only process trees of sessions that the list it took
  at its start shows idle, not pinned and not frozen, and that no client was attached to when they were
  sampled; as idle only when they had not been updated for the threshold.
\<close>

theorem sweep_stops_only_idle:
  "\<exists>es. gs_effects (snd (run_state (sweep w cfg tick) s)) = gs_effects s @ es \<and>
     list_all (stop_allowed w cfg (gs_turn s) (records (gw_alnum w) (gw_between w (gs_turn s) (gs_registry s)))) es"
  using sweep_acts [of w cfg s tick] unfolding acts_def by blast

text \<open>A sweep keeps the registry's tables consistent when the other threads do.\<close>

theorem sweep_keeps_registry_consistent:
  assumes "\<And>n reg. table_inv reg \<and> freeze_inv reg \<Longrightarrow> table_inv (gw_between w n reg) \<and> freeze_inv (gw_between w n reg)"
    and "table_inv (gs_registry s)" "freeze_inv (gs_registry s)"
  shows "table_inv (gs_registry (snd (run_state (sweep w cfg tick) s))) \<and> freeze_inv (gs_registry (snd (run_state (sweep w cfg tick) s)))"
  using sweep_acts [of w cfg s tick] assms unfolding acts_def sound_def by simp

section \<open>The budget\<close>

fun freeze_each :: "gov_world \<Rightarrow> hibernation_reason \<Rightarrow> str list \<Rightarrow> unit gov" where
  "freeze_each w reason [] = State_Monad.return ()"
| "freeze_each w reason (sid # sids) = do { gov_hibernate w sid reason; freeze_each w reason sids }"

abbreviation footprints :: "candidate list \<Rightarrow> nat" where
  "footprints cs \<equiv> sum_list (map (\<lambda>c. unat (snd (snd c))) cs)"

lemma budget_pass_prefix:
  "\<exists>victims spared. filter (idle_longer now_ms (gc_budget_min_idle_seconds cfg)) cs = victims @ spared \<and>
     budget_pass w cfg now_ms excess cs = freeze_each w MemoryPressure (map fst victims) \<and>
     (spared = [] \<or> footprints victims \<ge> unat excess) \<and> (victims = [] \<or> footprints (butlast victims) < unat excess)"
proof (induction cs arbitrary: excess)
  case (Cons c cs)
  let ?old = "idle_longer now_ms (gc_budget_min_idle_seconds cfg)"
  let ?rest = "if snd (snd c) \<le> excess then excess - snd (snd c) else 0"
  consider "excess = 0" | "excess \<noteq> 0" "\<not> ?old c" | "excess \<noteq> 0" "?old c"
    by blast
  then show ?case
  proof cases
    case 1
    then show ?thesis
      by (intro exI [of _ "[]"] exI [of _ "filter ?old (c # cs)"]) simp
  next
    case 2
    then show ?thesis
      using Cons [of excess] by simp
  next
    case 3
    have rest: "unat ?rest = unat excess - unat (snd (snd c))"
      by (auto simp: unat_sub word_le_nat_alt)
    have excess: "0 < unat excess"
      using 3(1) by (simp add: unat_gt_0)
    obtain victims spared where IH: "filter ?old cs = victims @ spared"
      "budget_pass w cfg now_ms ?rest cs = freeze_each w MemoryPressure (map fst victims)"
      "spared = [] \<or> footprints victims \<ge> unat ?rest" "victims = [] \<or> footprints (butlast victims) < unat ?rest"
      using Cons [of ?rest] by blast
    have "filter ?old (c # cs) = (c # victims) @ spared"
      "budget_pass w cfg now_ms excess (c # cs) = freeze_each w MemoryPressure (map fst (c # victims))"
      using 3 IH(1,2) by simp_all
    moreover have "spared = [] \<or> footprints (c # victims) \<ge> unat excess"
      using IH(3) unfolding rest by auto
    moreover have "footprints (butlast (c # victims)) < unat excess"
      using IH(4) excess unfolding rest by auto
    ultimately show ?thesis
      by blast
  qed
qed simp

text \<open>
  Claim C39. Over the budget, the sweep freezes sessions of the longest idle first and no more than it needs: of
  the candidates that are idle long enough, ordered by how long, a first part is frozen; it holds the excess
  unless all are frozen, and without its last session it would not.
\<close>

theorem budget_freezes_just_enough:
  "\<exists>victims spared. filter (idle_longer now_ms (gc_budget_min_idle_seconds cfg)) (sort_key (\<lambda>c. fst (snd c)) idle) = victims @ spared \<and>
     sorted (map (\<lambda>c. fst (snd c)) (victims @ spared)) \<and>
     budget_pass w cfg now_ms excess (sort_key (\<lambda>c. fst (snd c)) idle) = freeze_each w MemoryPressure (map fst victims) \<and>
     (spared = [] \<or> footprints victims \<ge> unat excess) \<and> (victims = [] \<or> footprints (butlast victims) < unat excess)"
proof -
  let ?cs = "sort_key (\<lambda>c. fst (snd c)) idle"
  have "sorted (map (\<lambda>c. fst (snd c)) (filter (idle_longer now_ms (gc_budget_min_idle_seconds cfg)) ?cs))"
    by (rule sorted_filter) simp
  then show ?thesis
    using budget_pass_prefix [of now_ms cfg ?cs w excess] by metis
qed

text \<open>The ports of a tree are listed once each, in order.\<close>

lemma lsof_lines_distinct: "distinct (map fst seen) \<Longrightarrow> distinct (map fst (lsof_lines command seen ls))"
  by (induction command seen ls rule: lsof_lines.induct) (auto simp: map_of_eq_None_iff split: option.split)

theorem ports_once_in_order: "sorted_wrt (<) (map port_port (parse_lsof out))"
proof -
  let ?ports = "sort_key fst (lsof_lines [] [] (text_lines out))"
  have "map port_port (parse_lsof out) = map fst ?ports"
    by (simp add: parse_lsof_def case_prod_beta)
  moreover have "distinct (map fst ?ports)"
    using lsof_lines_distinct [of "[]" "[]" "text_lines out"] by (simp add: distinct_map)
  moreover have "sorted (map fst ?ports)"
    by simp
  ultimately show ?thesis
    by (simp add: strict_sorted_iff)
qed

section \<open>What the sweep does not look at again\<close>

lemma hibernate_locked_stops:
  assumes "session_of reg sid = Some x" "gw_signal w n sid = Some tree"
  shows "fst (fst (hibernate_locked w n sid reason reg))"
    and "\<exists>y. session_of (snd (hibernate_locked w n sid reason reg)) sid = Some y \<and> ls_view y = ls_view x \<and> ls_stopped y"
  using assms
  by (simp_all add: hibernate_locked_def hibernate_def signal_tree_def set_hibernated_def set_hibernation_def Let_def persist_keeps)

lemma sample_sessions: "rg_sessions (snd (apply_resource_sample sid memory ports artifacts reg)) = rg_sessions reg"
  by (simp add: apply_resource_sample_def Let_def split: option.split)

text \<open>One idle session with the tree of \<open>family_world\<close>; before the lock is taken for the fourth time its agent starts to work.\<close>

definition quiet_session :: live_session where
  "quiet_session = sleeping_session\<lparr>ls_child_pid := 5, ls_hibernated := False, ls_queued_input := [], ls_stopped := False\<rparr>"

definition quiet_registry :: registry where
  "quiet_registry = sleeping_registry\<lparr>rg_sessions := [([1], quiet_session)]\<rparr>"

definition starts_working :: "registry \<Rightarrow> registry" where
  "starts_working = with_session [1] (\<lambda>s. s\<lparr>ls_view := (ls_view s)\<lparr>sv_status := Working\<rparr>\<rparr>)"

definition busy_world :: gov_world where
  "busy_world = \<lparr>gw_between = \<lambda>n reg. if n = 3 then starts_working reg else reg, gw_os = family_world, gw_run = \<lambda>_. fresh_run,
     gw_status = \<lambda>_ _. None, gw_meminfo = None, gw_attached = \<lambda>_ _. False, gw_lsof = \<lambda>_ _. None, gw_now = \<lambda>_. 10 ^ 15,
     gw_signal = \<lambda>_ _. Some [(5, 100)], gw_alnum = \<lambda>_. True, gw_json = \<lparr>sj_to_vec = \<lambda>_. None, sj_from_slice = \<lambda>_. None\<rparr>,
     gw_fault = \<lambda>_. None, gw_clock = \<lambda>_. 0\<rparr>"

text \<open>
  A session that is at work can be stopped: the sweep decides on the list it took at its start and does not look again before
  it sends the signal, while the source says that a working session is never frozen. Here the agent
  starts to work while the sweep runs, and its tree is stopped.
\<close>

theorem working_session_stopped:
  "case run_state (sweep busy_world governor_default 1) \<lparr>gs_registry = quiet_registry, gs_effects = [], gs_turn = 0\<rparr> of (_, s) \<Rightarrow>
     StopTree [1] HibernatedIdle \<in> set (gs_effects s) \<and>
     (\<exists>x. session_of (gs_registry s) [1] = Some x \<and> sv_status (ls_view x) = Working \<and> ls_stopped x)"
proof -
  let ?s = "\<lambda>reg es n. \<lparr>gs_registry = reg, gs_effects = es, gs_turn = n\<rparr>"
  define sampled_registry where "sampled_registry = snd (apply_resource_sample [1] (Some 0) None None quiet_registry)"
  define event where "event = \<lparr>sre_id = [1], sre_memory_bytes = Some 0, sre_listening_ports = None, sre_artifacts = None\<rparr>"
  have world: "gw_between busy_world n reg = (if n = 3 then starts_working reg else reg)" "gw_os busy_world = family_world"
    "gw_run busy_world n = fresh_run" "gw_attached busy_world n sid = False" "gw_now busy_world n = 10 ^ 15"
    "gw_signal busy_world n sid = Some [(5, 100)]" "physical_memory busy_world = 16 * 2 ^ 30" for n reg sid
    by (simp_all add: busy_world_def physical_memory_def)
  have footprint: "footprint_of busy_world n pids = 0" for n pids
    by (induction pids) (simp_all add: busy_world_def footprint_of_def footprint_of_pid_def)
  have listed: "records alnum quiet_registry = [sample_session [1] Idle]" for alnum
    by (simp add: records_def quiet_registry_def sleeping_registry_def insert_record_def registry_new_def fold_live_def Let_def quiet_session_def
        sleeping_session_def fold_session_view_def fold_session_status_def sample_session_def)
  have sample: "apply_resource_sample [1] (Some 0) None None quiet_registry = (Some event, sampled_registry)"
    by (simp add: sampled_registry_def apply_resource_sample_def quiet_registry_def sleeping_registry_def insert_record_def registry_new_def
        event_def sample_session_def)
  have live: "session_of quiet_registry [1] = Some quiet_session" "ls_child_pid quiet_session = 5" "ls_artifacts quiet_session = []"
    by (simp_all add: quiet_registry_def quiet_session_def sleeping_session_def)
  have scan: "run_state (scan_records busy_world governor_default 1 [sample_session [1] Idle] 0 []) (?s quiet_registry [] 1) =
      ((0, [([1], 0, 0)]), ?s sampled_registry [PublishResources event] 3)"
    using live sample
    by (simp add: sample_session_def lock_registry_def world footprint family_tree apply_sample_def should_scan_ports_def idle_since_def
        governor_default_def Let_def event_def List.map_filter_simps)
  have "session_of (starts_working sampled_registry) [1] = Some (quiet_session\<lparr>ls_view := (ls_view quiet_session)\<lparr>sv_status := Working\<rparr>\<rparr>)"
    using live sample_sessions by (simp add: starts_working_def sampled_registry_def)
  note stops = hibernate_locked_stops [OF this, of busy_world 3 "[(5, 100)]" HibernatedIdle, OF world(6)]
  obtain shown reg where locked: "hibernate_locked busy_world 3 [1] HibernatedIdle (starts_working sampled_registry) = ((True, shown), reg)"
    using stops(1) by (metis prod.collapse)
  have "idle_longer (now_millis (10 ^ 15)) 900 ([1], 0, 0)" "\<not> f64_as_u64 (real (unat (16 * 2 ^ 30 :: u64)) * (3 / 4)) < 0"
    by (simp_all add: idle_longer_def now_millis_def UNIX_EPOCH_def)
  then show ?thesis
    using stops(2) scan locked
    by (auto simp: sweep_def lock_registry_def world listed governor_default_def Let_def gov_hibernate_def split: option.split)
qed

end
