(* ===== verification/Grid_Mirror.thy ===== *)
theory Grid_Mirror
  imports Remote_Types
begin

text \<open>
  The receiver's copy of a remote terminal (\<^verbatim>\<open>homie-terminal-state/src/mirror.rs\<close>). A full snapshot is a
  new baseline; after it only deltas with consecutive sequence numbers and the same size are taken.
  Shown: the mirror never panics and stays well shaped, errors leave it alone, its own full update
  restores it elsewhere, and whatever a channel loses, repeats or reorders, the mirror shows the
  sender's screen of the sequence number it stands at.
\<close>

section \<open>The mirror\<close>

record grid_mirror =
  mir_cells :: "grid_cell list"
  mir_cols :: u16
  mir_rows :: u16
  mir_cursor_col :: u16
  mir_cursor_row :: u16
  mir_cursor_visible :: bool
  mir_sequence :: "u64 option"
  mir_alt_screen :: bool
  mir_bracketed_paste :: bool
  mir_mouse_reporting :: bool

definition mirror_new :: grid_mirror where
  "mirror_new = \<lparr>mir_cells = [], mir_cols = 0, mir_rows = 0, mir_cursor_col = 0, mir_cursor_row = 0,
     mir_cursor_visible = False, mir_sequence = None, mir_alt_screen = False,
     mir_bracketed_paste = False, mir_mouse_reporting = False\<rparr>"

datatype mirror_error =
    SnapshotRequired
  | SequenceGap u64 u64 \<comment> \<open>expected, actual\<close>
  | SequenceOverflow
  | InvalidGrid string

definition validate_grid :: "grid_update \<Rightarrow> (mirror_error, unit) result" where
  "validate_grid u =
     (if cols u = 0 \<or> rows u = 0 then Inl (InvalidGrid ''dimensions must be non-zero'')
      else if cursor_col u \<ge> cols u \<or> cursor_row u \<ge> rows u
      then Inl (InvalidGrid ''cursor is outside the grid'')
      else if list_ex (\<lambda>r. row_y r \<ge> rows u \<or> length (row_cells r) \<noteq> unat (cols u)) (changed_rows u)
      then Inl (InvalidGrid ''changed row is outside the grid or has the wrong width'')
      else Inr ())"

definition update_metadata :: "grid_update \<Rightarrow> grid_mirror \<Rightarrow> grid_mirror" where
  "update_metadata u m = m\<lparr>mir_cols := cols u, mir_rows := rows u, mir_cursor_col := cursor_col u,
     mir_cursor_row := cursor_row u, mir_cursor_visible := cursor_visible u\<rparr>"

text \<open>
  Sequence numbers are \<open>u64\<close>; \<open>- 1\<close> is the largest, where \<open>checked_add\<close> fails.
  The result of both operations is the answer and the mirror afterwards; \<open>None\<close> is the panic of an
  index out of range while the cells are patched. The message carries the sequence number and modes.
\<close>

definition accept :: "grid_message \<Rightarrow> grid_mirror \<Rightarrow> ((mirror_error, unit) result \<times> grid_mirror) option" where
  "accept g m =
     (case validate_grid (gm_grid g) of
        Inl e \<Rightarrow> Some (Inl e, m)
      | Inr _ \<Rightarrow> map_option (\<lambda>cells. (Inr (), (update_metadata (gm_grid g) (m\<lparr>mir_cells := cells\<rparr>))
          \<lparr>mir_sequence := Some (gm_sequence g), mir_alt_screen := gm_alt_screen g,
           mir_bracketed_paste := gm_bracketed_paste g, mir_mouse_reporting := gm_mouse_reporting g\<rparr>))
          (grid_apply (gm_grid g) (mir_cells m)))"

definition mirror_apply_snapshot :: "full_snapshot \<Rightarrow> grid_mirror
    \<Rightarrow> ((mirror_error, unit) result \<times> grid_mirror) option" where
  "mirror_apply_snapshot g m =
     (if \<not> is_full_snapshot (gm_grid g) then Some (Inl SnapshotRequired, m) else accept g m)"

definition mirror_apply_delta :: "grid_delta \<Rightarrow> grid_mirror
    \<Rightarrow> ((mirror_error, unit) result \<times> grid_mirror) option" where
  "mirror_apply_delta g m =
     (case mir_sequence m of
        None \<Rightarrow> Some (Inl SnapshotRequired, m)
      | Some previous \<Rightarrow>
          if previous = - 1 then Some (Inl SequenceOverflow, m)
          else if gm_sequence g \<noteq> previous + 1
          then Some (Inl (SequenceGap (previous + 1) (gm_sequence g)), m)
          else if is_full_snapshot (gm_grid g) \<or> cols (gm_grid g) \<noteq> mir_cols m \<or> rows (gm_grid g) \<noteq> mir_rows m
          then Some (Inl SnapshotRequired, m)
          else accept g m)"

definition full_update :: "grid_mirror \<Rightarrow> grid_update option" where
  "full_update m =
     (let nc = unat (mir_cols m); nr = unat (mir_rows m) in
      if mir_sequence m = None \<or> length (mir_cells m) \<noteq> nc * nr then None
      else Some \<lparr>cols = mir_cols m, rows = mir_rows m, cursor_col = mir_cursor_col m,
        cursor_row = mir_cursor_row m, cursor_visible = mir_cursor_visible m, is_full_snapshot = True,
        changed_rows = map (\<lambda>row. \<lparr>row_y = of_nat row,
          row_cells = segment (mir_cells m) (row * nc) ((row + 1) * nc)\<rparr>) [0..<nr]\<rparr>)"

section \<open>Valid updates\<close>

lemma unat_u16_less: "unat (w :: u16) < 65536"
  using unsigned_less [of w, where ?'a = nat] by simp

lemma unat_of_nat_u16: "k < 65536 \<Longrightarrow> unat (of_nat k :: u16) = k"
  by (simp add: unsigned_of_nat take_bit_nat_eq_self)

definition valid_grid :: "grid_update \<Rightarrow> bool" where
  "valid_grid u \<longleftrightarrow> 0 < cols u \<and> 0 < rows u \<and> cursor_col u < cols u \<and> cursor_row u < rows u \<and>
     (\<forall>r \<in> set (changed_rows u). row_y r < rows u \<and> length (row_cells r) = unat (cols u))"

lemma validate_grid_ok: "validate_grid u = Inr x \<longleftrightarrow> valid_grid u"
proof -
  have "list_ex (\<lambda>r. row_y r \<ge> rows u \<or> length (row_cells r) \<noteq> unat (cols u)) (changed_rows u) \<longleftrightarrow>
      \<not> (\<forall>r \<in> set (changed_rows u). row_y r < rows u \<and> length (row_cells r) = unat (cols u))"
    unfolding list_ex_iff not_less [symmetric] by blast
  then show ?thesis
    by (auto simp: validate_grid_def valid_grid_def word_gt_0 not_le)
qed

lemma row_for_in: "row_for rs y = Some r \<Longrightarrow> r \<in> set rs \<and> unat (row_y r) = y"
  unfolding row_for_def find_Some_iff by (metis nth_mem set_rev)

lemma fit_row_valid: "length (row_cells r) = n \<Longrightarrow> fit_row n r = row_cells r"
  by (simp add: fit_row_def)

text \<open>What an accepted message does to the rows.\<close>

definition row_after :: "grid_update \<Rightarrow> (nat \<Rightarrow> grid_cell list) \<Rightarrow> nat \<Rightarrow> grid_cell list" where
  "row_after u old y =
     (case row_for (changed_rows u) y of
        Some r \<Rightarrow> row_cells r
      | None \<Rightarrow> if is_full_snapshot u then replicate (unat (cols u)) BLANK else old y)"

abbreviation mirror_row :: "grid_mirror \<Rightarrow> nat \<Rightarrow> grid_cell list" where
  "mirror_row m \<equiv> row_cells_at (unat (mir_cols m)) (mir_cells m)"

definition mirror_of :: "grid_message \<Rightarrow> grid_cell list \<Rightarrow> grid_mirror" where
  "mirror_of g cells = \<lparr>mir_cells = cells, mir_cols = cols (gm_grid g), mir_rows = rows (gm_grid g),
     mir_cursor_col = cursor_col (gm_grid g), mir_cursor_row = cursor_row (gm_grid g),
     mir_cursor_visible = cursor_visible (gm_grid g), mir_sequence = Some (gm_sequence g),
     mir_alt_screen = gm_alt_screen g, mir_bracketed_paste = gm_bracketed_paste g,
     mir_mouse_reporting = gm_mouse_reporting g\<rparr>"

lemma accept_ok:
  assumes "valid_grid (gm_grid g)"
    and "is_full_snapshot (gm_grid g) \<or> length (mir_cells m) = unat (cols (gm_grid g)) * unat (rows (gm_grid g))"
  obtains cells where "accept g m = Some (Inr (), mirror_of g cells)"
    "length cells = unat (cols (gm_grid g)) * unat (rows (gm_grid g))"
    "\<And>y. y < unat (rows (gm_grid g)) \<Longrightarrow> row_cells_at (unat (cols (gm_grid g))) cells y
       = row_after (gm_grid g) (row_cells_at (unat (cols (gm_grid g))) (mir_cells m)) y"
proof -
  let ?u = "gm_grid g"
  obtain cells where c: "grid_apply ?u (mir_cells m) = Some cells"
    "length cells = unat (cols ?u) * unat (rows ?u)"
    "\<And>y. y < unat (rows ?u) \<Longrightarrow> row_cells_at (unat (cols ?u)) cells y =
       (case row_for (changed_rows ?u) y of
          Some r \<Rightarrow> fit_row (unat (cols ?u)) r
        | None \<Rightarrow> if is_full_snapshot ?u \<or> length (mir_cells m) \<noteq> unat (cols ?u) * unat (rows ?u)
                  then replicate (unat (cols ?u)) BLANK
                  else row_cells_at (unat (cols ?u)) (mir_cells m) y)"
    using grid_apply_rows [of ?u "mir_cells m"] by metis
  have "row_cells_at (unat (cols ?u)) cells y = row_after ?u (row_cells_at (unat (cols ?u)) (mir_cells m)) y"
    if "y < unat (rows ?u)" for y
    using c(3) [OF that] assms
    by (auto simp: row_after_def valid_grid_def fit_row_valid dest!: row_for_in split: option.splits)
  moreover have "validate_grid ?u = Inr ()"
    using assms(1) by (simp add: validate_grid_ok)
  then have "accept g m = Some (Inr (), mirror_of g cells)"
    using c(1) by (simp add: accept_def update_metadata_def mirror_of_def)
  ultimately show ?thesis
    using that c(2) by blast
qed

section \<open>The invariant\<close>

definition mirror_inv :: "grid_mirror \<Rightarrow> bool" where
  "mirror_inv m \<longleftrightarrow> mir_sequence m = None \<and> mir_cells m = [] \<or>
     mir_sequence m \<noteq> None \<and> length (mir_cells m) = unat (mir_cols m) * unat (mir_rows m) \<and>
     mir_cursor_col m < mir_cols m \<and> mir_cursor_row m < mir_rows m"

datatype mirror_op = Snapshot full_snapshot | Delta grid_delta

fun mirror_apply :: "mirror_op \<Rightarrow> grid_mirror \<Rightarrow> ((mirror_error, unit) result \<times> grid_mirror) option" where
  "mirror_apply (Snapshot g) m = mirror_apply_snapshot g m"
| "mirror_apply (Delta g) m = mirror_apply_delta g m"

definition mirror_step :: "grid_mirror \<Rightarrow> mirror_op \<Rightarrow> grid_mirror" where
  "mirror_step m i = (case mirror_apply i m of Some (_, m') \<Rightarrow> m' | None \<Rightarrow> m)"

fun op_message :: "mirror_op \<Rightarrow> grid_message" where
  "op_message (Snapshot g) = g"
| "op_message (Delta g) = g"

text \<open>The messages a mirror takes.\<close>

fun takes :: "grid_mirror \<Rightarrow> mirror_op \<Rightarrow> bool" where
  "takes m (Snapshot g) \<longleftrightarrow> is_full_snapshot (gm_grid g) \<and> valid_grid (gm_grid g)"
| "takes m (Delta g) \<longleftrightarrow> \<not> is_full_snapshot (gm_grid g) \<and> valid_grid (gm_grid g) \<and>
     cols (gm_grid g) = mir_cols m \<and> rows (gm_grid g) = mir_rows m \<and>
     (\<exists>previous. mir_sequence m = Some previous \<and> previous \<noteq> - 1 \<and> gm_sequence g = previous + 1)"

lemma accept_invalid:
  "\<not> valid_grid (gm_grid g) \<Longrightarrow> \<exists>e. accept g m = Some (Inl e, m)"
  using validate_grid_ok [of "gm_grid g" "()"]
  by (cases "validate_grid (gm_grid g)") (auto simp: accept_def)

lemma refused:
  assumes "\<not> takes m i"
  shows "\<exists>e. mirror_apply i m = Some (Inl e, m)"
  using assms accept_invalid [of _ m]
  by (cases i) (auto simp: mirror_apply_snapshot_def mirror_apply_delta_def split: option.splits)

lemma taken:
  assumes "takes m i" "mirror_inv m"
  shows "mirror_apply i m = accept (op_message i) m" "valid_grid (gm_grid (op_message i))"
    "is_full_snapshot (gm_grid (op_message i)) \<or>
      length (mir_cells m) = unat (cols (gm_grid (op_message i))) * unat (rows (gm_grid (op_message i)))"
  using assms
  by (cases i; auto simp: mirror_apply_snapshot_def mirror_apply_delta_def mirror_inv_def)+

lemma mirror_step_taken:
  assumes "takes m i" "mirror_inv m" and g: "g = op_message i"
  obtains cells where "mirror_apply i m = Some (Inr (), mirror_of g cells)"
    "mirror_step m i = mirror_of g cells"
    "length cells = unat (cols (gm_grid g)) * unat (rows (gm_grid g))"
    "\<And>y. y < unat (rows (gm_grid g)) \<Longrightarrow> row_cells_at (unat (cols (gm_grid g))) cells y
       = row_after (gm_grid g) (row_cells_at (unat (cols (gm_grid g))) (mir_cells m)) y"
proof (rule accept_ok [OF taken(2,3) [OF assms(1,2)]], unfold g [symmetric])
  fix cells
  assume a: "accept g m = Some (Inr (), mirror_of g cells)"
    and rest: "length cells = unat (cols (gm_grid g)) * unat (rows (gm_grid g))"
    "\<And>y. y < unat (rows (gm_grid g)) \<Longrightarrow> row_cells_at (unat (cols (gm_grid g))) cells y
       = row_after (gm_grid g) (row_cells_at (unat (cols (gm_grid g))) (mir_cells m)) y"
  have "mirror_apply i m = Some (Inr (), mirror_of g cells)"
    using taken(1) [OF assms(1,2)] a g by simp
  then show thesis
    using that rest by (simp add: mirror_step_def)
qed

lemma mirror_step_inv:
  assumes "mirror_inv m"
  shows "mirror_inv (mirror_step m i)"
proof (cases "takes m i")
  case True
  obtain cells where "mirror_step m i = mirror_of (op_message i) cells"
    "length cells = unat (cols (gm_grid (op_message i))) * unat (rows (gm_grid (op_message i)))"
    using mirror_step_taken [OF True assms refl] by metis
  then show ?thesis
    using taken(2) [OF True assms] by (simp add: mirror_inv_def mirror_of_def valid_grid_def)
next
  case False
  then show ?thesis
    using refused [OF False] assms by (auto simp: mirror_step_def)
qed

interpretation mirror: state_machine mirror_step mirror_inv
  by unfold_locales (rule mirror_step_inv)

lemma mirror_new_inv: "mirror_inv mirror_new"
  by (simp add: mirror_inv_def mirror_new_def)

section \<open>A sender and a lossy channel\<close>

text \<open>
  The sender's screen of each sequence number is \<open>S\<close>. A message is genuine when it describes that
  screen: a snapshot by itself, a delta on top of the screen before it, if that has the same size.
\<close>

definition genuine :: "(u64 \<Rightarrow> grid_mirror) \<Rightarrow> mirror_op \<Rightarrow> bool" where
  "genuine S i \<longleftrightarrow>
     (let g = op_message i; n = gm_sequence g; u = gm_grid g in
      S n = mirror_of g (mir_cells (S n)) \<and> length (mir_cells (S n)) = unat (cols u) * unat (rows u) \<and>
      (case i of
         Snapshot _ \<Rightarrow> \<forall>y < unat (rows u). row_after u (\<lambda>_. []) y = mirror_row (S n) y
       | Delta _ \<Rightarrow> mir_cols (S (n - 1)) = cols u \<longrightarrow> mir_rows (S (n - 1)) = rows u \<longrightarrow>
           (\<forall>y < unat (rows u). row_after u (mirror_row (S (n - 1))) y = mirror_row (S n) y)))"

definition on_screen :: "(u64 \<Rightarrow> grid_mirror) \<Rightarrow> grid_mirror \<Rightarrow> bool" where
  "on_screen S m \<longleftrightarrow> mirror_inv m \<and> (\<forall>n. mir_sequence m = Some n \<longrightarrow> m = S n)"

lemma row_after_full: "is_full_snapshot u \<Longrightarrow> row_after u f y = row_after u h y"
  by (simp add: row_after_def split: option.split)

lemma genuine_rows:
  assumes "genuine S i" "on_screen S m" "takes m i" and g: "g = op_message i"
    and y: "y < unat (rows (gm_grid g))"
  shows "row_after (gm_grid g) (row_cells_at (unat (cols (gm_grid g))) (mir_cells m)) y
    = row_cells_at (unat (cols (gm_grid g))) (mir_cells (S (gm_sequence g))) y"
proof -
  have c: "mir_cols (S (gm_sequence g)) = cols (gm_grid g)"
    using assms(1) unfolding genuine_def mirror_of_def Let_def g
    by (metis grid_mirror.select_convs(2))
  show ?thesis
  proof (cases i)
    case (Snapshot g')
    then have "is_full_snapshot (gm_grid g)"
      "row_after (gm_grid g) (\<lambda>_. []) y = mirror_row (S (gm_sequence g)) y"
      using assms(1,3) g y by (simp_all add: genuine_def Let_def)
    then show ?thesis
      using c row_after_full [of "gm_grid g"] by metis
  next
    case (Delta g')
    then obtain p where p: "mir_sequence m = Some p" "gm_sequence g = p + 1"
      "cols (gm_grid g) = mir_cols m" "rows (gm_grid g) = mir_rows m"
      using assms(3) g by auto
    then have "m = S p"
      using assms(2) by (simp add: on_screen_def)
    then show ?thesis
      using assms(1) Delta p y c by (simp add: genuine_def g Let_def)
  qed
qed

lemma genuine_step:
  assumes "genuine S i" "on_screen S m"
  shows "on_screen S (mirror_step m i)"
proof (cases "takes m i")
  case True
  let ?g = "op_message i"
  have inv: "mirror_inv m"
    using assms(2) by (simp add: on_screen_def)
  obtain cells where c: "mirror_step m i = mirror_of ?g cells"
    "length cells = unat (cols (gm_grid ?g)) * unat (rows (gm_grid ?g))"
    "\<And>y. y < unat (rows (gm_grid ?g)) \<Longrightarrow> row_cells_at (unat (cols (gm_grid ?g))) cells y
       = row_after (gm_grid ?g) (row_cells_at (unat (cols (gm_grid ?g))) (mir_cells m)) y"
    using mirror_step_taken [OF True inv refl] by metis
  have S: "S (gm_sequence ?g) = mirror_of ?g (mir_cells (S (gm_sequence ?g)))"
    "length (mir_cells (S (gm_sequence ?g))) = unat (cols (gm_grid ?g)) * unat (rows (gm_grid ?g))"
    using assms(1) unfolding genuine_def Let_def by blast+
  have "cells = mir_cells (S (gm_sequence ?g))"
    by (rule rows_determine_cells [OF c(2) S(2)]) (simp add: c(3) genuine_rows [OF assms True refl])
  then have "mirror_step m i = S (gm_sequence ?g)"
    using c(1) S(1) by simp
  moreover have "mir_sequence (mirror_step m i) = Some (gm_sequence ?g)"
    by (simp add: c(1) mirror_of_def)
  ultimately show ?thesis
    using mirror_step_inv [OF inv, of i] by (simp add: on_screen_def)
next
  case False
  then show ?thesis
    using refused [OF False] assms(2) by (auto simp: mirror_step_def)
qed

lemma genuine_run:
  assumes "list_all (genuine S) is" "on_screen S m"
  shows "on_screen S (run_machine mirror_step m is)"
  using assms by (induction "is" arbitrary: m) (simp_all add: genuine_step)

lemma full_update_rows:
  assumes "full_update m = Some u" "y < unat (rows u)"
  shows "row_for (changed_rows u) y = Some \<lparr>row_y = of_nat y, row_cells = mirror_row m y\<rparr>"
proof -
  let ?nr = "unat (mir_rows m)"
  have u: "rows u = mir_rows m" "changed_rows u = map (\<lambda>row. \<lparr>row_y = of_nat row, row_cells = mirror_row m row\<rparr>) [0..<?nr]"
    using assms(1) by (auto simp: full_update_def Let_def row_cells_at_def add.commute split: if_splits)
  have y: "y < ?nr"
    using assms(2) by (simp add: u)
  have un: "unat (of_nat k :: u16) = k" if "k < ?nr" for k
    using that unat_u16_less [of "mir_rows m"] by (simp add: unat_of_nat_u16)
  obtain r where r: "row_for (changed_rows u) y = Some r"
    using y un [OF y] by (cases "row_for (changed_rows u) y") (force simp: row_for_def find_None_iff u)+
  then show ?thesis
    using row_for_in [OF r] un by (auto simp: u)
qed

lemma full_update_valid:
  assumes "full_update m = Some u" "length (mir_cells m) = unat (mir_cols m) * unat (mir_rows m)"
    "mir_cursor_col m < mir_cols m" "mir_cursor_row m < mir_rows m"
  shows "valid_grid u"
proof -
  have "(of_nat k :: u16) < mir_rows m" if "k < unat (mir_rows m)" for k
    using that unat_u16_less [of "mir_rows m"] by (simp add: word_less_nat_alt unat_of_nat_u16)
  moreover have "length (segment (mir_cells m) (k * unat (mir_cols m)) ((k + 1) * unat (mir_cols m))) = unat (mir_cols m)"
    if "k < unat (mir_rows m)" for k
    using row_cells_at_facts(1) [OF assms(2) that] by (simp add: row_cells_at_def add.commute)
  ultimately show ?thesis
    using assms by (auto simp: full_update_def valid_grid_def Let_def word_gt_0 split: if_splits)
qed

section \<open>Properties\<close>

text \<open>
  Claim C19. The channel between holder and engine may lose, repeat and reorder messages, whole
  sessions of them. If every message was written for the sender's screen of its sequence number,
  then whenever the mirror stands at a sequence number it is, cell for cell, cursor and modes
  included, the sender's screen of that number; and no message makes it panic.
\<close>

theorem mirror_shows_its_sequence:
  assumes "list_all (genuine S) is" and "m = run_machine mirror_step mirror_new is"
  shows "(mir_sequence m = Some n \<longrightarrow> m = S n) \<and> mirror_apply i m \<noteq> None"
proof -
  have on: "on_screen S m"
    unfolding assms(2)
    by (rule genuine_run [OF assms(1)]) (simp add: on_screen_def mirror_new_inv, simp add: mirror_new_def)
  then have "mirror_apply i m \<noteq> None"
    using refused [of m i] mirror_step_taken [of m i, OF _ _ refl]
    by (auto simp: on_screen_def) (metis option.distinct(1))
  then show ?thesis
    using on by (simp add: on_screen_def)
qed

definition letter :: "u64 \<Rightarrow> grid_cell" where
  "letter n = BLANK\<lparr>scalar := 97 + ucast n\<rparr>"

definition letter_message :: "bool \<Rightarrow> u64 \<Rightarrow> grid_message" where
  "letter_message full n = \<lparr>gm_sequence = n, gm_alt_screen = False, gm_bracketed_paste = True,
     gm_mouse_reporting = False, gm_grid = \<lparr>cols = 1, rows = 1, cursor_col = 0, cursor_row = 0,
       cursor_visible = True, is_full_snapshot = full, changed_rows = [\<lparr>row_y = 0, row_cells = [letter n]\<rparr>]\<rparr>\<rparr>"

definition letter_screen :: "u64 \<Rightarrow> grid_mirror" where
  "letter_screen n = mirror_of (letter_message True n) [letter n]"

definition lossy :: "mirror_op list" where
  "lossy = [Delta (letter_message False 6), Snapshot (letter_message True 7), Delta (letter_message False 8),
     Delta (letter_message False 8), Delta (letter_message False 10)]"

lemmas mirror_eval = mirror_step_def mirror_apply_snapshot_def mirror_apply_delta_def accept_def
  validate_grid_def update_metadata_def grid_apply_def apply_row_def write_slice_def mirror_new_def

theorem mirror_shows_its_sequence_witness:
  "mir_sequence (run_machine mirror_step mirror_new lossy) = Some 8 \<and>
   run_machine mirror_step mirror_new lossy = letter_screen 8"
proof -
  have "list_all (genuine letter_screen) lossy"
    by (simp add: lossy_def genuine_def letter_screen_def mirror_of_def letter_message_def row_after_def
        row_for_def row_cells_at_def segment_def)
  moreover have "mir_sequence (run_machine mirror_step mirror_new lossy) = Some 8"
    by (simp add: lossy_def letter_message_def mirror_eval)
  ultimately show ?thesis
    using mirror_shows_its_sequence [of letter_screen lossy _ 8] by simp
qed

text \<open>
  Whatever messages a mirror has seen, once it has a screen its full update carries that
  screen: applied as a snapshot to any other mirror it succeeds and makes it the same, with the
  sequence number and modes of the message.
\<close>

theorem full_update_restores:
  assumes "m = run_machine mirror_step mirror_new is" and "mir_sequence m \<noteq> None"
  shows "\<exists>u. full_update m = Some u \<and> mirror_apply_snapshot \<lparr>gm_sequence = s, gm_alt_screen = a,
      gm_bracketed_paste = b, gm_mouse_reporting = r, gm_grid = u\<rparr> m'
    = Some (Inr (), m\<lparr>mir_sequence := Some s, mir_alt_screen := a, mir_bracketed_paste := b,
        mir_mouse_reporting := r\<rparr>)"
proof -
  have "mirror_inv m"
    unfolding assms(1) by (rule mirror.run_inv [OF mirror_new_inv])
  then have m: "length (mir_cells m) = unat (mir_cols m) * unat (mir_rows m)"
    "mir_cursor_col m < mir_cols m" "mir_cursor_row m < mir_rows m"
    using assms(2) by (auto simp: mirror_inv_def)
  obtain u where u: "full_update m = Some u" and f: "is_full_snapshot u" "cols u = mir_cols m" "rows u = mir_rows m"
    "cursor_col u = mir_cursor_col m" "cursor_row u = mir_cursor_row m" "cursor_visible u = mir_cursor_visible m"
    using m(1) assms(2) by (auto simp: full_update_def Let_def)
  define g where "g = \<lparr>gm_sequence = s, gm_alt_screen = a, gm_bracketed_paste = b, gm_mouse_reporting = r, gm_grid = u\<rparr>"
  have v: "valid_grid u"
    using full_update_valid [OF u m] .
  obtain cells where c: "accept g m' = Some (Inr (), mirror_of g cells)"
    "length cells = unat (cols u) * unat (rows u)"
    "\<And>y. y < unat (rows u) \<Longrightarrow> row_cells_at (unat (cols u)) cells y
       = row_after u (row_cells_at (unat (cols u)) (mir_cells m')) y"
    using accept_ok [of g m'] v f(1) by (auto simp: g_def)
  have "cells = mir_cells m"
    using c(2,3) full_update_rows [OF u]
    by (intro rows_determine_cells [OF _ m(1)]) (simp_all add: f row_after_def)
  then have "mirror_apply_snapshot g m' = Some (Inr (), m\<lparr>mir_sequence := Some s, mir_alt_screen := a,
      mir_bracketed_paste := b, mir_mouse_reporting := r\<rparr>)"
    using c(1) f by (simp add: mirror_apply_snapshot_def g_def mirror_of_def)
  then show ?thesis
    using u unfolding g_def by blast
qed

theorem full_update_restores_witness:
  "\<exists>u. full_update (run_machine mirror_step mirror_new lossy) = Some u \<and>
     mirror_apply_snapshot \<lparr>gm_sequence = 3, gm_alt_screen = True, gm_bracketed_paste = False,
       gm_mouse_reporting = False, gm_grid = u\<rparr> mirror_new
     = Some (Inr (), (letter_screen 8)\<lparr>mir_sequence := Some 3, mir_alt_screen := True,
         mir_bracketed_paste := False, mir_mouse_reporting := False\<rparr>)"
proof -
  have "run_machine mirror_step mirror_new lossy = letter_screen 8"
    by (simp add: lossy_def letter_screen_def mirror_of_def letter_message_def mirror_eval)
  moreover have "mir_sequence (letter_screen 8) \<noteq> None"
    by (simp add: letter_screen_def mirror_of_def)
  ultimately show ?thesis
    using full_update_restores [OF refl, of lossy 3 True False False mirror_new] by simp
qed

end
