(* ===== verification/Screen_Diff.thy ===== *)
theory Screen_Diff
  imports Grid_Mirror
begin

text \<open>
  The sender's side of the screen stream: which rows \<open>HeadlessScreen\<close> puts into a grid update
  (\<^verbatim>\<open>homie-terminal-state/src/screen.rs\<close>, \<open>grid_update\<close>, \<open>full_snapshot\<close>, \<open>resize\<close>). The emulator itself is
  another package: \<open>term_view\<close> is what the code reads from it, and it may show anything at any
  time. Diffs are taken against a baseline that only \<open>grid_update\<close> moves; a full snapshot does not.
  Shown: what a receiver sees after a snapshot and any number of deltas, exactly. It is the sender's
  screen if the snapshot was taken of the baseline, and can be an old row otherwise.
\<close>

section \<open>The screen\<close>

text \<open>
  What is read from the emulator: the cell of a line and a column in wire form, lines above the screen
  being negative, the number of lines above, the cursor and the modes.
\<close>

record term_view =
  tv_cell :: "int \<Rightarrow> usize \<Rightarrow> grid_cell"
  tv_history_size :: usize
  tv_cursor_column :: usize
  tv_cursor_line :: int
  tv_show_cursor :: bool
  tv_alt_screen :: bool
  tv_bracketed_paste :: bool
  tv_mouse_mode :: bool
  tv_sgr_mouse :: bool

record headless_screen =
  hs_term :: term_view
  hs_cols :: usize
  hs_rows :: usize
  hs_content_seq :: u64
  hs_last_cells :: "grid_cell list"
  hs_last_grid_cols :: usize
  hs_last_grid_rows :: usize

definition screen_new :: "term_view \<Rightarrow> usize \<Rightarrow> usize \<Rightarrow> headless_screen" where
  "screen_new v nc nr = \<lparr>hs_term = v, hs_cols = max nc 1, hs_rows = max nr 1, hs_content_seq = 0, hs_last_cells = [],
     hs_last_grid_cols = 0, hs_last_grid_rows = 0\<rparr>"

text \<open>
  Output and resizing leave the emulator with a new view; output also counts the screen's contents
  up when they changed, which is left open here.
\<close>

definition screen_feed :: "term_view \<Rightarrow> u64 \<Rightarrow> headless_screen \<Rightarrow> headless_screen" where
  "screen_feed v sq s = s\<lparr>hs_term := v, hs_content_seq := sq\<rparr>"

definition screen_resize :: "term_view \<Rightarrow> usize \<Rightarrow> usize \<Rightarrow> headless_screen \<Rightarrow> headless_screen" where
  "screen_resize v nc nr s = s\<lparr>hs_cols := max nc 1, hs_rows := max nr 1, hs_term := v\<rparr>"

definition view_row :: "term_view \<Rightarrow> usize \<Rightarrow> usize \<Rightarrow> grid_cell list" where
  "view_row v nc y = map (tv_cell v (int y)) [0..<nc]"

text \<open>
  The loop over the rows: a row that differs from the baseline, or every row when forced, is
  copied to the baseline and added. \<open>None\<close> is an index out of range.
\<close>

fun diff_rows :: "bool \<Rightarrow> usize \<Rightarrow> term_view \<Rightarrow> usize list \<Rightarrow> grid_cell list
    \<Rightarrow> (changed_row list \<times> grid_cell list) option" where
  "diff_rows force nc v [] base = Some ([], base)"
| "diff_rows force nc v (y # ys) base =
     (let row = view_row v nc y in
      if \<not> force \<and> segment base (y * nc) (y * nc + nc) = row then diff_rows force nc v ys base
      else Option.bind (write_slice base (y * nc) row) (\<lambda>base.
        map_option (\<lambda>(changed, base). (\<lparr>row_y = of_nat y, row_cells = row\<rparr> # changed, base))
          (diff_rows force nc v ys base)))"

definition update_of :: "headless_screen \<Rightarrow> bool \<Rightarrow> changed_row list \<Rightarrow> grid_update" where
  "update_of s full changed = \<lparr>cols = of_nat (hs_cols s), rows = of_nat (hs_rows s),
     cursor_col = of_nat (tv_cursor_column (hs_term s)),
     cursor_row = of_nat (nat (tv_cursor_line (hs_term s))),
     cursor_visible = tv_show_cursor (hs_term s), is_full_snapshot = full, changed_rows = changed\<rparr>"

definition screen_grid_update :: "bool \<Rightarrow> headless_screen \<Rightarrow> (grid_update \<times> headless_screen) option" where
  "screen_grid_update full s =
     (let geometry_changed = (hs_last_grid_cols s \<noteq> hs_cols s \<or> hs_last_grid_rows s \<noteq> hs_rows s);
          force_full = (full \<or> geometry_changed);
          s = (if geometry_changed
               then s\<lparr>hs_last_cells := replicate (hs_cols s * hs_rows s) BLANK,
                      hs_last_grid_cols := hs_cols s, hs_last_grid_rows := hs_rows s\<rparr> else s)
      in map_option (\<lambda>(changed, base). (update_of s force_full changed, s\<lparr>hs_last_cells := base\<rparr>))
           (diff_rows force_full (hs_cols s) (hs_term s) [0..<hs_rows s] (hs_last_cells s)))"

definition screen_full_snapshot :: "headless_screen \<Rightarrow> grid_update" where
  "screen_full_snapshot s = update_of s True
     (map (\<lambda>y. \<lparr>row_y = of_nat y, row_cells = view_row (hs_term s) (hs_cols s) y\<rparr>) [0..<hs_rows s])"

subsection \<open>Scrollback and the mouse wheel\<close>

definition history_row :: "headless_screen \<Rightarrow> usize \<Rightarrow> grid_cell list" where
  "history_row s index = map (tv_cell (hs_term s) (int index - int (tv_history_size (hs_term s)))) [0..<hs_cols s]"

definition scrollback_cells :: "int \<Rightarrow> int \<Rightarrow> headless_screen \<Rightarrow> read_scrollback_cells_result" where
  "scrollback_cells first_row max_rows s =
     (let history = tv_history_size (hs_term s);
          tot = history + hs_rows s;
          start = nat (min (max first_row 0) (int tot));
          end_at = min (start + nat (max max_rows 0)) tot;
          rs = map (history_row s) [start..<end_at]
      in \<lparr>rsc_payload = (case encode_rows rs of Inr p \<Rightarrow> p | Inl _ \<Rightarrow> []), rsc_first_row = int start,
          rsc_row_count = int (length rs), rsc_total_rows = int tot, rsc_live_start_row = int history,
          rsc_cols = int (hs_cols s), rsc_content_seq = hs_content_seq s\<rparr>)"

definition mouse_wheel :: "bool \<Rightarrow> usize \<Rightarrow> usize \<Rightarrow> usize \<Rightarrow> headless_screen \<Rightarrow> bytes" where
  "mouse_wheel up n col row s =
     (if \<not> tv_mouse_mode (hs_term s) \<or> n = 0 then []
      else let x = min col (hs_cols s - 1); y = min row (hs_rows s - 1); button = (if up then 64 else 65 :: nat)
        in concat (replicate n
             (if tv_sgr_mouse (hs_term s)
              then [0x1B] @ utf8 (lit ''[<'' @ dec button @ lit '';'' @ dec (x + 1) @ lit '';'' @ dec (y + 1) @ lit ''M'')
              else [0x1B] @ utf8 (lit ''[M'') @
                   [of_nat (32 + button), of_nat (min (32 + x + 1) 255), of_nat (min (32 + y + 1) 255)])))"

section \<open>The diff\<close>

lemma length_view_row [simp]: "length (view_row v nc y) = nc"
  by (simp add: view_row_def)

lemma write_row:
  assumes "length base = nc * nr" "y < nr" "length row = nc"
  obtains base' where "write_slice base (y * nc) row = Some base'" "length base' = nc * nr"
    "\<And>z. z < nr \<Longrightarrow> row_cells_at nc base' z = (if z = y then row else row_cells_at nc base z)"
proof -
  let ?b = "take (y * nc) base @ row @ drop (y * nc + nc) base"
  have b: "y * nc + nc \<le> length base"
    using row_in_bounds [OF assms(2), of nc] assms(1) by simp
  then have len: "length ?b = nc * nr"
    using assms by simp
  have "row_cells_at nc ?b z = (if z = y then row else row_cells_at nc base z)" if "z < nr" for z
    by (rule nth_equalityI)
      (use row_cells_at_facts [OF len that] row_cells_at_facts [OF assms(1) that]
        nth_row_region [OF assms(1,2,3) that] assms(3) in auto)
  then show ?thesis
    using that [of ?b] len b assms(3) by (simp add: write_slice_def)
qed

lemma diff_rows_spec:
  assumes "length base = nc * nr" "distinct ys" "\<forall>y \<in> set ys. y < nr" "nr < 65536"
  shows "\<exists>changed base'. diff_rows force nc v ys base = Some (changed, base') \<and> length base' = nc * nr \<and>
    (\<forall>y < nr. row_cells_at nc base' y = (if y \<in> set ys then view_row v nc y else row_cells_at nc base y)) \<and>
    (\<forall>y < nr. row_for changed y = (if y \<in> set ys \<and> (force \<or> row_cells_at nc base y \<noteq> view_row v nc y)
       then Some \<lparr>row_y = of_nat y, row_cells = view_row v nc y\<rparr> else None)) \<and>
    (\<forall>r \<in> set changed. unat (row_y r) < nr \<and> length (row_cells r) = nc)"
  using assms(1-3)
proof (induction ys arbitrary: base)
  case Nil
  then show ?case
    by (simp add: row_for_def)
next
  case (Cons y ys)
  then have y: "y < nr" "y \<notin> set ys" and un: "unat (of_nat y :: u16) = y"
    using assms(4) by (simp_all add: unat_of_nat_u16)
  show ?case
  proof (cases "\<not> force \<and> row_cells_at nc base y = view_row v nc y")
    case True
    then have "diff_rows force nc v (y # ys) base = diff_rows force nc v ys base"
      by (simp add: row_cells_at_def)
    then show ?thesis
      using Cons.IH [of base] Cons.prems True by (fastforce simp: y)
  next
    case False
    obtain b1 where b1: "write_slice base (y * nc) (view_row v nc y) = Some b1" "length b1 = nc * nr"
      "\<And>z. z < nr \<Longrightarrow> row_cells_at nc b1 z = (if z = y then view_row v nc y else row_cells_at nc base z)"
      using write_row [OF Cons.prems(1) y(1), of "view_row v nc y"] by auto
    obtain changed base' where d: "diff_rows force nc v ys b1 = Some (changed, base')" "length base' = nc * nr"
      "\<forall>z < nr. row_cells_at nc base' z = (if z \<in> set ys then view_row v nc z else row_cells_at nc b1 z)"
      "\<forall>z < nr. row_for changed z = (if z \<in> set ys \<and> (force \<or> row_cells_at nc b1 z \<noteq> view_row v nc z)
         then Some \<lparr>row_y = of_nat z, row_cells = view_row v nc z\<rparr> else None)"
      "\<forall>r \<in> set changed. unat (row_y r) < nr \<and> length (row_cells r) = nc"
      using Cons.IH [OF b1(2)] Cons.prems by auto
    have "diff_rows force nc v (y # ys) base
        = Some (\<lparr>row_y = of_nat y, row_cells = view_row v nc y\<rparr> # changed, base')"
      using False b1(1) d(1) by (auto simp: row_cells_at_def Let_def)
    moreover have "row_for (\<lparr>row_y = of_nat y, row_cells = view_row v nc y\<rparr> # changed) z =
        (if z \<in> set (y # ys) \<and> (force \<or> row_cells_at nc base z \<noteq> view_row v nc z)
         then Some \<lparr>row_y = of_nat z, row_cells = view_row v nc z\<rparr> else None)" if "z < nr" for z
      using d(4) that False y(2) un b1(3) [OF that] by (auto simp: row_for_Cons)
    ultimately show ?thesis
      using d(2,3,5) b1(3) y(1) un by auto
  qed
qed

section \<open>A snapshot and the deltas after it\<close>

text \<open>
  One emission of the remote holder (\<^verbatim>\<open>homie-remote/src/holder.rs\<close>, \<open>emit_grid_delta\<close>): the diff, numbered, as
  a full snapshot or a delta. The sequence number saturates.
\<close>

definition next_sequence :: "u64 \<Rightarrow> u64" where
  "next_sequence n = (if n = - 1 then n else n + 1)"

definition message_of :: "u64 \<Rightarrow> headless_screen \<Rightarrow> grid_update \<Rightarrow> grid_message" where
  "message_of n s u = \<lparr>gm_sequence = n, gm_alt_screen = tv_alt_screen (hs_term s),
     gm_bracketed_paste = tv_bracketed_paste (hs_term s), gm_mouse_reporting = tv_mouse_mode (hs_term s),
     gm_grid = u\<rparr>"

definition grid_emission :: "u64 \<times> headless_screen \<Rightarrow> (mirror_op \<times> u64 \<times> headless_screen) option" where
  "grid_emission = (\<lambda>(n, s).
     map_option (\<lambda>(u, s).
       let n = next_sequence n; g = message_of n s u in
       (if is_full_snapshot u then Snapshot g else Delta g, n, s)) (screen_grid_update False s))"

definition snapshot_message :: "u64 \<Rightarrow> headless_screen \<Rightarrow> full_snapshot" where
  "snapshot_message n s = message_of n s (screen_full_snapshot s)"

text \<open>
  The screen shows one view after another, each is emitted and given to the mirror. \<open>None\<close> is a panic
  or a refused message.
\<close>

fun grid_stream :: "term_view list \<Rightarrow> (u64 \<times> headless_screen) \<times> grid_mirror
    \<Rightarrow> ((u64 \<times> headless_screen) \<times> grid_mirror) option" where
  "grid_stream [] st = Some st"
| "grid_stream (v # vs) ((n, s), m) =
     Option.bind (grid_emission (n, screen_feed v (hs_content_seq s) s)) (\<lambda>(i, h).
     Option.bind (mirror_apply i m) (\<lambda>(r, m).
     case r of Inl _ \<Rightarrow> None | Inr _ \<Rightarrow> grid_stream vs (h, m)))"

text \<open>A size that fits the wire, and a cursor on the screen.\<close>

definition fits :: "headless_screen \<Rightarrow> bool" where
  "fits s \<longleftrightarrow> 0 < hs_cols s \<and> hs_cols s < 65536 \<and> 0 < hs_rows s \<and> hs_rows s < 65536"

definition cursor_inside :: "headless_screen \<Rightarrow> term_view \<Rightarrow> bool" where
  "cursor_inside s v \<longleftrightarrow> tv_cursor_column v < hs_cols s \<and> tv_cursor_line v < int (hs_rows s)"

text \<open>The baseline has the size of the screen: a grid update was taken at this size.\<close>

definition based :: "headless_screen \<Rightarrow> bool" where
  "based s \<longleftrightarrow> hs_last_grid_cols s = hs_cols s \<and> hs_last_grid_rows s = hs_rows s \<and>
     length (hs_last_cells s) = hs_cols s * hs_rows s"

abbreviation base_row :: "headless_screen \<Rightarrow> nat \<Rightarrow> grid_cell list" where
  "base_row s \<equiv> row_cells_at (hs_cols s) (hs_last_cells s)"

text \<open>The mirror stands at the sender's number and has its size.\<close>

definition follows :: "u64 \<Rightarrow> headless_screen \<Rightarrow> grid_mirror \<Rightarrow> bool" where
  "follows n s m \<longleftrightarrow> mirror_inv m \<and> mir_sequence m = Some n \<and>
     mir_cols m = of_nat (hs_cols s) \<and> mir_rows m = of_nat (hs_rows s)"

definition meta_of :: "term_view \<Rightarrow> grid_mirror \<Rightarrow> bool" where
  "meta_of v m \<longleftrightarrow> mir_cursor_col m = of_nat (tv_cursor_column v) \<and>
     mir_cursor_row m = of_nat (nat (tv_cursor_line v)) \<and> mir_cursor_visible m = tv_show_cursor v \<and>
     mir_alt_screen m = tv_alt_screen v \<and> mir_bracketed_paste m = tv_bracketed_paste v \<and>
     mir_mouse_reporting m = tv_mouse_mode v"

lemma fits_unat:
  assumes "fits s"
  shows "unat (of_nat (hs_cols s) :: u16) = hs_cols s" "unat (of_nat (hs_rows s) :: u16) = hs_rows s"
  using assms by (simp_all add: fits_def unat_of_nat_u16)

lemma update_of_valid:
  assumes "fits s" "cursor_inside s (hs_term s)"
    and "\<forall>r \<in> set changed. unat (row_y r) < hs_rows s \<and> length (row_cells r) = hs_cols s"
  shows "valid_grid (update_of s full changed)"
  using assms fits_unat [OF assms(1)]
  by (auto simp: valid_grid_def update_of_def cursor_inside_def fits_def word_less_nat_alt unat_of_nat_u16)

text \<open>A delta, for a mirror that follows.\<close>

lemma emission_step:
  assumes "fits s" "based s" "cursor_inside s v" "follows n s m" "n \<noteq> - 1"
  obtains s' m' where "grid_stream [v] ((n, s), m) = Some ((n + 1, s'), m')"
    "hs_cols s' = hs_cols s" "hs_rows s' = hs_rows s" "based s'" "follows (n + 1) s' m'" "meta_of v m'"
    "\<And>y. y < hs_rows s \<Longrightarrow> base_row s' y = view_row v (hs_cols s) y"
    "\<And>y. y < hs_rows s \<Longrightarrow> mirror_row m' y =
       (if base_row s y = view_row v (hs_cols s) y then mirror_row m y else view_row v (hs_cols s) y)"
proof -
  let ?nc = "hs_cols s" and ?nr = "hs_rows s"
  obtain changed base' where d: "diff_rows False ?nc v [0..<?nr] (hs_last_cells s) = Some (changed, base')"
    "length base' = ?nc * ?nr" "\<forall>y < ?nr. row_cells_at ?nc base' y = view_row v ?nc y"
    "\<forall>y < ?nr. row_for changed y = (if base_row s y \<noteq> view_row v ?nc y
       then Some \<lparr>row_y = of_nat y, row_cells = view_row v ?nc y\<rparr> else None)"
    "\<forall>r \<in> set changed. unat (row_y r) < ?nr \<and> length (row_cells r) = ?nc"
    using diff_rows_spec [of "hs_last_cells s" ?nc ?nr "[0..<?nr]" False v] assms(1,2)
    by (auto simp: based_def fits_def)
  define s' where "s' = s\<lparr>hs_term := v, hs_last_cells := base'\<rparr>"
  define g where "g = message_of (n + 1) s' (update_of s' False changed)"
  have e: "grid_emission (n, screen_feed v (hs_content_seq s) s) = Some (Delta g, n + 1, s')"
    using assms(2,5) d(1)
    by (simp add: grid_emission_def screen_grid_update_def screen_feed_def based_def next_sequence_def Let_def
        update_of_def g_def s'_def)
  have "valid_grid (update_of s' False changed)"
    using assms(1,3) d(5) by (intro update_of_valid) (auto simp: s'_def fits_def cursor_inside_def)
  then have t: "takes m (Delta g)"
    using assms(4,5) by (auto simp: g_def message_of_def update_of_def follows_def s'_def)
  have inv: "mirror_inv m"
    using assms(4) by (simp add: follows_def)
  have gg: "cols (gm_grid g) = of_nat ?nc" "rows (gm_grid g) = of_nat ?nr" "changed_rows (gm_grid g) = changed"
    "\<not> is_full_snapshot (gm_grid g)"
    by (simp_all add: g_def message_of_def update_of_def s'_def)
  obtain cells where c: "mirror_apply (Delta g) m = Some (Inr (), mirror_of g cells)"
    "mirror_step m (Delta g) = mirror_of g cells" "length cells = ?nc * ?nr"
    "\<And>y. y < ?nr \<Longrightarrow> row_cells_at ?nc cells y = row_after (gm_grid g) (row_cells_at ?nc (mir_cells m)) y"
    using mirror_step_taken [OF t inv refl] by (auto simp: gg fits_unat [OF assms(1)])
  show ?thesis
  proof
    show "grid_stream [v] ((n, s), m) = Some ((n + 1, s'), mirror_of g cells)"
      using e c(1) by simp
    show "follows (n + 1) s' (mirror_of g cells)"
      using mirror_step_inv [OF inv, of "Delta g"] c(2)
      by (simp add: follows_def mirror_of_def g_def message_of_def update_of_def s'_def)
    show "meta_of v (mirror_of g cells)"
      by (simp add: meta_of_def mirror_of_def g_def message_of_def update_of_def s'_def)
    show "mirror_row (mirror_of g cells) y =
       (if base_row s y = view_row v ?nc y then mirror_row m y else view_row v ?nc y)" if "y < ?nr" for y
      using c(4) [OF that] d(4) that assms(4)
      by (simp add: mirror_of_def gg fits_unat [OF assms(1)] row_after_def follows_def)
  qed (use assms(2) d in \<open>auto simp: s'_def based_def\<close>)
qed

lemma grid_stream_Cons:
  assumes "grid_stream [v] st = Some st'"
  shows "grid_stream (v # vs) st = grid_stream vs st'"
proof -
  obtain n s m where "st = ((n, s), m)"
    by (metis surj_pair)
  then show ?thesis
    using assms by (auto simp: bind_eq_Some_conv split: sum.splits) (metis old.unit.exhaust sum.exhaust)
qed

lemma below_last: "unat (n :: u64) + Suc k < 2 ^ 64 \<Longrightarrow> n \<noteq> - 1 \<and> unat (n + 1) = unat n + 1"
  using unsigned_minus_1_eq_mask [where ?'a = nat and ?'b = 64]
  by (auto simp: unat_word_ariths mask_eq_exp_minus_1)

lemma grid_stream_rows:
  assumes "fits s" "based s" "follows n s m" "unat n + length vs < 2 ^ 64" "list_all (cursor_inside s) vs"
  shows "\<exists>s' m'. grid_stream vs ((n, s), m) = Some ((n + of_nat (length vs), s'), m') \<and>
    (vs \<noteq> [] \<longrightarrow> meta_of (last vs) m') \<and>
    (\<forall>y < hs_rows s. mirror_row m' y =
       (if list_all (\<lambda>v. view_row v (hs_cols s) y = base_row s y) vs then mirror_row m y
        else view_row (last vs) (hs_cols s) y))"
  using assms
proof (induction vs arbitrary: n s m)
  case Nil
  then show ?case by simp
next
  case (Cons v vs)
  have n: "n \<noteq> - 1" "unat (n + 1) = unat n + 1"
    using below_last [of n "length vs"] Cons.prems(4) by simp_all
  obtain s1 m1 where e: "grid_stream [v] ((n, s), m) = Some ((n + 1, s1), m1)"
    "hs_cols s1 = hs_cols s" "hs_rows s1 = hs_rows s" "based s1" "follows (n + 1) s1 m1" "meta_of v m1"
    "\<And>y. y < hs_rows s \<Longrightarrow> base_row s1 y = view_row v (hs_cols s) y"
    "\<And>y. y < hs_rows s \<Longrightarrow> mirror_row m1 y =
       (if base_row s y = view_row v (hs_cols s) y then mirror_row m y else view_row v (hs_cols s) y)"
    using emission_step [of s v n m] Cons.prems n(1) by (metis list.pred_inject(2))
  have "fits s1" "list_all (cursor_inside s1) vs" "unat (n + 1) + length vs < 2 ^ 64"
    using Cons.prems e(2,3) n(2) by (simp_all add: fits_def cursor_inside_def list_all_iff)
  then obtain s' m' where r: "grid_stream vs ((n + 1, s1), m1) = Some ((n + 1 + of_nat (length vs), s'), m')"
    "vs \<noteq> [] \<longrightarrow> meta_of (last vs) m'"
    "\<forall>y < hs_rows s. mirror_row m' y =
       (if list_all (\<lambda>w. view_row w (hs_cols s) y = base_row s1 y) vs then mirror_row m1 y
        else view_row (last vs) (hs_cols s) y)"
    using Cons.IH [OF _ e(4,5)] e(2,3) by auto
  have "mirror_row m' y = (if list_all (\<lambda>w. view_row w (hs_cols s) y = base_row s y) (v # vs)
      then mirror_row m y else view_row (last (v # vs)) (hs_cols s) y)" if y: "y < hs_rows s" for y
  proof -
    have "view_row (last vs) (hs_cols s) y = base_row s1 y"
      if "vs \<noteq> []" "list_all (\<lambda>w. view_row w (hs_cols s) y = base_row s1 y) vs"
      using that by (simp add: list_all_iff)
    then show ?thesis
      using r(3) y e(7,8) [OF y] by auto
  qed
  moreover have "grid_stream (v # vs) ((n, s), m) = Some ((n + of_nat (length (v # vs)), s'), m')"
    using grid_stream_Cons [OF e(1), of vs] r(1) by (simp add: add.assoc)
  moreover have "meta_of (last (v # vs)) m'"
    using r(1,2) e(6) by (cases "vs = []") auto
  ultimately show ?case
    by blast
qed

lemma snapshot_applies:
  assumes "fits s" "cursor_inside s (hs_term s)" "mirror_inv m"
  obtains m' where "mirror_apply (Snapshot (snapshot_message n s)) m = Some (Inr (), m')"
    "follows n s m'" "meta_of (hs_term s) m'"
    "\<And>y. y < hs_rows s \<Longrightarrow> mirror_row m' y = view_row (hs_term s) (hs_cols s) y"
proof -
  let ?nc = "hs_cols s" and ?nr = "hs_rows s" and ?v = "hs_term s"
  define changed where "changed = map (\<lambda>y. \<lparr>row_y = of_nat y, row_cells = view_row ?v ?nc y\<rparr> :: changed_row) [0..<?nr]"
  define g where "g = snapshot_message n s"
  have g: "gm_grid g = update_of s True changed"
    by (simp add: g_def snapshot_message_def message_of_def screen_full_snapshot_def changed_def)
  have un: "unat (of_nat y :: u16) = y" if "y < ?nr" for y
    using that assms(1) by (simp add: fits_def unat_of_nat_u16)
  have "valid_grid (update_of s True changed)"
    using assms(1,2) un by (intro update_of_valid) (auto simp: changed_def)
  then have t: "takes m (Snapshot g)"
    by (simp add: g) (simp add: update_of_def)
  have gg: "cols (gm_grid g) = of_nat ?nc" "rows (gm_grid g) = of_nat ?nr"
    by (simp_all add: g update_of_def)
  obtain cells where c: "mirror_apply (Snapshot g) m = Some (Inr (), mirror_of g cells)"
    "mirror_step m (Snapshot g) = mirror_of g cells" "length cells = ?nc * ?nr"
    "\<And>y. y < ?nr \<Longrightarrow> row_cells_at ?nc cells y = row_after (gm_grid g) (row_cells_at ?nc (mir_cells m)) y"
    using mirror_step_taken [OF t assms(3) refl] by (auto simp: gg fits_unat [OF assms(1)])
  have row: "row_for changed y = Some \<lparr>row_y = of_nat y, row_cells = view_row ?v ?nc y\<rparr>" if y: "y < ?nr" for y
  proof -
    obtain r where r: "row_for changed y = Some r"
      using y un [OF y] by (cases "row_for changed y") (force simp: row_for_def find_None_iff changed_def)+
    then show ?thesis
      using row_for_in [OF r] un by (auto simp: changed_def)
  qed
  show ?thesis
  proof
    show "mirror_apply (Snapshot (snapshot_message n s)) m = Some (Inr (), mirror_of g cells)"
      using c(1) by (simp add: g_def)
    show "follows n s (mirror_of g cells)"
      using mirror_step_inv [OF assms(3), of "Snapshot g"] c(2)
      by (simp add: follows_def mirror_of_def gg) (simp add: g_def snapshot_message_def message_of_def)
    show "meta_of (hs_term s) (mirror_of g cells)"
      by (simp add: meta_of_def mirror_of_def g update_of_def) (simp add: g_def snapshot_message_def message_of_def)
    show "mirror_row (mirror_of g cells) y = view_row ?v ?nc y" if "y < ?nr" for y
      using c(4) [OF that] row [OF that]
      by (simp add: mirror_of_def gg fits_unat [OF assms(1)] row_after_def g update_of_def)
  qed
qed

lemma snapshot_then_stream:
  assumes "fits s" "based s" "cursor_inside s (hs_term s)" "mirror_inv m"
    and "unat n + length vs < 2 ^ 64" "list_all (cursor_inside s) vs"
    and "mirror_apply (Snapshot (snapshot_message n s)) m = Some (r, m0)"
  shows "r = Inr ()" and "\<exists>st m'. grid_stream vs ((n, s), m0) = Some (st, m') \<and>
    meta_of (last (hs_term s # vs)) m' \<and>
    (\<forall>y < hs_rows s. mirror_row m' y =
       (if list_all (\<lambda>v. view_row v (hs_cols s) y = base_row s y) vs then view_row (hs_term s) (hs_cols s) y
        else view_row (last vs) (hs_cols s) y))"
proof -
  obtain m1 where m1: "mirror_apply (Snapshot (snapshot_message n s)) m = Some (Inr (), m1)"
    "follows n s m1" "meta_of (hs_term s) m1"
    "\<And>y. y < hs_rows s \<Longrightarrow> mirror_row m1 y = view_row (hs_term s) (hs_cols s) y"
    using snapshot_applies [OF assms(1,3,4)] by metis
  then show "r = Inr ()"
    using assms(7) by simp
  have "m1 = m0"
    using m1(1) assms(7) by simp
  obtain s' m' where "grid_stream vs ((n, s), m0) = Some ((n + of_nat (length vs), s'), m')"
    "vs \<noteq> [] \<longrightarrow> meta_of (last vs) m'"
    "\<forall>y < hs_rows s. mirror_row m' y =
       (if list_all (\<lambda>v. view_row v (hs_cols s) y = base_row s y) vs then mirror_row m0 y
        else view_row (last vs) (hs_cols s) y)"
    using grid_stream_rows [OF assms(1,2) m1(2) assms(5,6)] \<open>m1 = m0\<close> by blast
  then show "\<exists>st m'. grid_stream vs ((n, s), m0) = Some (st, m') \<and>
    meta_of (last (hs_term s # vs)) m' \<and>
    (\<forall>y < hs_rows s. mirror_row m' y =
       (if list_all (\<lambda>v. view_row v (hs_cols s) y = base_row s y) vs then view_row (hs_term s) (hs_cols s) y
        else view_row (last vs) (hs_cols s) y))"
    using m1(3,4) \<open>m1 = m0\<close> by (cases "vs = []") auto
qed

section \<open>Properties\<close>

text \<open>
  Claim C26. When a snapshot is taken while the baseline is the screen, as right after a grid update,
  the receiver follows the sender: it takes the snapshot and every delta after it, none of them
  panics, and after each the mirror shows the rows, the cursor and the modes of the sender's screen.
\<close>

theorem synced_stream_is_exact:
  assumes "fits s" "based s" "cursor_inside s (hs_term s)" "mirror_inv m"
    and "unat n + length vs < 2 ^ 64" "list_all (cursor_inside s) vs"
    and "mirror_apply (Snapshot (snapshot_message n s)) m = Some (r, m0)"
    and synced: "\<And>y. y < hs_rows s \<Longrightarrow> base_row s y = view_row (hs_term s) (hs_cols s) y"
  shows "\<exists>st m'. grid_stream vs ((n, s), m0) = Some (st, m') \<and> meta_of (last (hs_term s # vs)) m' \<and>
    (\<forall>y < hs_rows s. mirror_row m' y = view_row (last (hs_term s # vs)) (hs_cols s) y)"
proof -
  obtain st m' where "grid_stream vs ((n, s), m0) = Some (st, m')" "meta_of (last (hs_term s # vs)) m'"
    and rows: "\<forall>y < hs_rows s. mirror_row m' y =
       (if list_all (\<lambda>v. view_row v (hs_cols s) y = base_row s y) vs then view_row (hs_term s) (hs_cols s) y
        else view_row (last vs) (hs_cols s) y)"
    using snapshot_then_stream(2) [OF assms(1-7)] by blast
  moreover have "mirror_row m' y = view_row (last (hs_term s # vs)) (hs_cols s) y" if "y < hs_rows s" for y
    using rows synced [OF that] that by (cases "vs = []") (auto simp: list_all_iff)
  ultimately show ?thesis
    by blast
qed

definition letter_view :: "u64 \<Rightarrow> term_view" where
  "letter_view n = \<lparr>tv_cell = (\<lambda>_ _. letter n), tv_history_size = 0, tv_cursor_column = 0, tv_cursor_line = 0, tv_show_cursor = True,
     tv_alt_screen = False, tv_bracketed_paste = True, tv_mouse_mode = False, tv_sgr_mouse = False\<rparr>"

definition letter_headless :: "u64 \<Rightarrow> u64 \<Rightarrow> headless_screen" where
  "letter_headless base n = \<lparr>hs_term = letter_view n, hs_cols = 1, hs_rows = 1, hs_content_seq = 0, hs_last_cells = [letter base],
     hs_last_grid_cols = 1, hs_last_grid_rows = 1\<rparr>"

lemma letter_snapshot:
  "mirror_apply (Snapshot (snapshot_message 4 (letter_headless base n))) mirror_new
   = Some (Inr (), mirror_of (letter_message True 4) [letter n])"
  by (simp add: snapshot_message_def message_of_def screen_full_snapshot_def update_of_def letter_headless_def
      letter_view_def view_row_def mirror_of_def letter_message_def mirror_eval)

lemma letter_facts:
  "fits (letter_headless b n)" "based (letter_headless b n)" "cursor_inside (letter_headless b n) (letter_view k)"
  "hs_term (letter_headless b n) = letter_view n" "hs_rows (letter_headless b n) = 1"
  "view_row (letter_view k) (hs_cols (letter_headless b n)) 0 = [letter k]" "base_row (letter_headless b n) 0 = [letter b]"
  by (simp_all add: fits_def based_def cursor_inside_def letter_headless_def letter_view_def view_row_def
      row_cells_at_def segment_def)

theorem synced_stream_is_exact_witness:
  "\<exists>st m'. grid_stream [letter_view 2, letter_view 1] ((4, letter_headless 1 1), mirror_of (letter_message True 4) [letter 1])
     = Some (st, m') \<and> mirror_row m' 0 = [letter 1]"
  using synced_stream_is_exact [of "letter_headless 1 1" mirror_new 4 "[letter_view 2, letter_view 1]", OF _ _ _ _ _ _ letter_snapshot]
  by (auto simp: letter_facts mirror_new_inv)

text \<open>
  When a snapshot is taken of a screen that has moved on from the baseline, as on every
  reattach after output, a row can stay wrong. If a row of the snapshot differs from the baseline and
  then goes back to it, no delta mentions the row: however many deltas follow, all of them
  accepted, the mirror keeps the row of the snapshot while the sender's screen shows another.
\<close>

theorem reattached_row_stays_old:
  assumes "fits s" "based s" "cursor_inside s (hs_term s)" "mirror_inv m"
    and "unat n + length vs < 2 ^ 64" "list_all (cursor_inside s) vs" "vs \<noteq> []"
    and "mirror_apply (Snapshot (snapshot_message n s)) m = Some (r, m0)"
    and "y < hs_rows s" "base_row s y \<noteq> view_row (hs_term s) (hs_cols s) y"
    and "list_all (\<lambda>v. view_row v (hs_cols s) y = base_row s y) vs"
  shows "\<exists>st m'. grid_stream vs ((n, s), m0) = Some (st, m') \<and>
    mirror_row m' y = view_row (hs_term s) (hs_cols s) y \<and>
    mirror_row m' y \<noteq> view_row (last vs) (hs_cols s) y"
proof -
  have "view_row (last vs) (hs_cols s) y = base_row s y"
    using assms(7,11) by (simp add: list_all_iff)
  then show ?thesis
    using snapshot_then_stream(2) [OF assms(1-6,8)] assms(9-11) by metis
qed

theorem reattached_row_stays_old_witness:
  "\<exists>st m'. grid_stream [letter_view 1] ((4, letter_headless 1 2), mirror_of (letter_message True 4) [letter 2])
     = Some (st, m') \<and> mirror_row m' 0 = [letter 2] \<and> mirror_row m' 0 \<noteq> [letter 1]"
proof -
  have "letter 1 \<noteq> letter 2"
    by (simp add: letter_def BLANK_def)
  then show ?thesis
    using reattached_row_stays_old [of "letter_headless 1 2" mirror_new 4 "[letter_view 1]", OF _ _ _ _ _ _ _ letter_snapshot, of 0]
    by (simp add: letter_facts mirror_new_inv)
qed

end
