(* ===== verification/Remote_Holder.thy ===== *)
theory Remote_Holder
  imports Screen_Diff Remote_Codec Remote_Log
begin

text \<open>
  The remote holder's event handlers (\<^verbatim>\<open>homie-remote/src/holder.rs\<close>): connections and their outbound buffer,
  the handshake and the controller lease, the messages of a controller, replay of the output log,
  terminal output, grid updates, reseeding a slow client and the agent's exit. One function is one
  handler; the event loop that calls them is a step relation in \<^theory_text>\<open>Holder_History\<close>, and
  launching a holder is not modelled. Answers of the operating
  system (how much a write took, whether a file was written) are inputs, in \<open>holder_env\<close>.
\<close>

section \<open>Connections\<close>

definition DIFF_COALESCE :: duration where "DIFF_COALESCE = from_millis 16"
definition INTERACTIVE_GRID_BUDGET :: nat where "INTERACTIVE_GRID_BUDGET = 2"
definition MAX_OUTBOUND_BYTES :: usize where "MAX_OUTBOUND_BYTES = 20 * 2 ^ 20"
definition MAX_PENDING_INPUT_BYTES :: usize where "MAX_PENDING_INPUT_BYTES = 2 ^ 20"
definition REPLAY_BUDGET_BYTES :: usize where "REPLAY_BUDGET_BYTES = 4 * 2 ^ 20"
definition PERSIST_OFFSET_INTERVAL :: nat where "PERSIST_OFFSET_INTERVAL = 2 ^ 20"

datatype holder_error =
    InvalidData string
  | PermissionDenied string
  | Unsupported
  | InputQueueFull
  | ControllerReleased
  | WriteZero
  | PeerLost
  | SystemError
  | EncodingError remote_codec_error
  | LogError remote_log_error
  | Panicked

text \<open>
  A connection. \<open>cn_written\<close> is the bytes the socket has taken; the code does not keep them.
\<close>

record connection =
  cn_codec :: remote_codec
  cn_epoch :: "u64 option"
  cn_outbound :: bytes
  cn_sent :: usize
  cn_written :: bytes

definition connection_new :: connection where
  "connection_new = \<lparr>cn_codec = remote_codec_new, cn_epoch = None, cn_outbound = [], cn_sent = 0, cn_written = []\<rparr>"

text \<open>The \<open>?\<close> operator on a state: stop at an error, with the state reached.\<close>

definition attempt :: "('e, 'a) result \<times> 's \<Rightarrow> ('a \<Rightarrow> 's \<Rightarrow> ('e, 'b) result \<times> 's) \<Rightarrow> ('e, 'b) result \<times> 's" where
  "attempt p k = (case p of (Inl e, s) \<Rightarrow> (Inl e, s) | (Inr a, s) \<Rightarrow> k a s)"

definition connection_queue :: "remote_json \<Rightarrow> remote_message \<Rightarrow> connection
    \<Rightarrow> (holder_error, unit) result \<times> connection" where
  "connection_queue j message c =
     (let (res, outbound) = encode_into j message (cn_outbound c)
      in (map_err EncodingError res, c\<lparr>cn_outbound := outbound\<rparr>))"

definition queue_error :: "remote_json \<Rightarrow> str \<Rightarrow> str \<Rightarrow> bool \<Rightarrow> connection
    \<Rightarrow> (holder_error, unit) result \<times> connection" where
  "queue_error j code message fatal = connection_queue j (MError \<lparr>re_code = code, re_message = message, re_fatal = fatal\<rparr>)"

text \<open>What a write to a socket or a pseudo-terminal can answer.\<close>

datatype write_result = Wrote nat | WouldBlock | Interrupted | PeerGone | WriteFailed

fun connection_flush :: "write_result list \<Rightarrow> connection \<Rightarrow> (holder_error, unit) result \<times> connection" where
  "connection_flush [] c =
     (if cn_sent c < length (cn_outbound c) then (Inr (), c) else (Inr (), c\<lparr>cn_outbound := [], cn_sent := 0\<rparr>))"
| "connection_flush (a # as) c =
     (if cn_sent c < length (cn_outbound c) then
        (case a of
           Wrote n \<Rightarrow>
             let k = min n (length (cn_outbound c) - cn_sent c) in
             if k = 0 then (Inl WriteZero, c)
             else connection_flush as (c\<lparr>cn_sent := cn_sent c + k,
               cn_written := cn_written c @ take k (drop (cn_sent c) (cn_outbound c))\<rparr>)
         | WouldBlock \<Rightarrow> (Inr (), c)
         | Interrupted \<Rightarrow> connection_flush as c
         | PeerGone \<Rightarrow> (Inl PeerLost, c)
         | WriteFailed \<Rightarrow> (Inl SystemError, c))
      else (Inr (), c\<lparr>cn_outbound := [], cn_sent := 0\<rparr>))"

record pending_bytes =
  pb_bytes :: bytes
  pb_consumed :: usize

definition pending_push :: "bytes \<Rightarrow> pending_bytes \<Rightarrow> pending_bytes" where
  "pending_push bs p =
     (let p = (if pb_consumed p = length (pb_bytes p) then p\<lparr>pb_bytes := [], pb_consumed := 0\<rparr> else p)
      in p\<lparr>pb_bytes := pb_bytes p @ bs\<rparr>)"

definition pending_consume :: "usize \<Rightarrow> pending_bytes \<Rightarrow> pending_bytes" where
  "pending_consume count p =
     (let p = p\<lparr>pb_consumed := pb_consumed p + count\<rparr>
      in if pb_consumed p = length (pb_bytes p) then p\<lparr>pb_bytes := [], pb_consumed := 0\<rparr> else p)"

definition pending_remaining :: "pending_bytes \<Rightarrow> bytes" where
  "pending_remaining p = drop (pb_consumed p) (pb_bytes p)"

definition pending_len :: "pending_bytes \<Rightarrow> usize" where
  "pending_len p = length (pb_bytes p) - pb_consumed p"

section \<open>The holder\<close>

record session_state =
  ss_session_id :: str
  ss_session_incarnation :: str
  ss_process_state :: remote_process_state
  ss_cols :: u16
  ss_rows :: u16
  ss_output_offset :: u64
  ss_snapshot_sequence :: u64
  ss_controller_epoch :: u64

text \<open>What reached the agent: bytes, sizes and signals, newest last.\<close>

datatype pty_effect = PtyBytes bytes | PtySize u16 u16 | PtySignal int

record holder =
  ho_pty :: "pty_effect list"
  ho_screen :: headless_screen
  ho_log :: "remote_log \<times> disk_state"
  ho_state :: session_state
  ho_connection :: "connection option"
  ho_pending_connection :: "connection option"
  ho_pending_input :: pending_bytes
  ho_dirty_since :: "duration option"
  ho_interactive_grid_budget :: nat
  ho_last_persisted_offset :: nat

record holder_env =
  he_json :: remote_json
  he_build_id :: str
  he_authenticate :: "session_token \<Rightarrow> bool option" \<comment> \<open>\<open>None\<close>: the file cannot be read\<close>
  he_state_written :: bool
  he_pty_resized :: "u16 \<Rightarrow> u16 \<Rightarrow> term_view option" \<comment> \<open>\<open>None\<close>: the call failed\<close>
  he_signals :: "int list"
  he_signalled :: bool
  he_pty_writes :: "write_result list"

definition write_state :: "holder_env \<Rightarrow> (holder_error, unit) result" where
  "write_state env = (if he_state_written env then Inr () else Inl SystemError)"

definition bump_sequence :: "holder \<Rightarrow> holder" where
  "bump_sequence h = h\<lparr>ho_state := (ho_state h)\<lparr>ss_snapshot_sequence := next_sequence (ss_snapshot_sequence (ho_state h))\<rparr>\<rparr>"

definition queue_snapshot :: "holder_env \<Rightarrow> holder \<Rightarrow> connection \<Rightarrow> (holder_error, unit) result \<times> connection" where
  "queue_snapshot env h =
     connection_queue (he_json env) (MFullSnapshot (snapshot_message (ss_snapshot_sequence (ho_state h)) (ho_screen h)))"

definition holder_queue :: "holder_env \<Rightarrow> remote_message \<Rightarrow> holder \<Rightarrow> (holder_error, unit) result \<times> holder" where
  "holder_queue env message h =
     (case ho_connection h of
        None \<Rightarrow> (Inr (), h)
      | Some c \<Rightarrow>
          let h = h\<lparr>ho_connection := None\<rparr> in
          case connection_queue (he_json env) message c of
            (Inl e, _) \<Rightarrow> (Inl e, h)
          | (Inr _, c) \<Rightarrow>
              if length (cn_outbound c) > MAX_OUTBOUND_BYTES then
                if cn_sent c \<noteq> 0 then (Inr (), h)
                else
                  case queue_error (he_json env) (lit ''slow_client_reseed'')
                      (lit ''incremental output was discarded; applying a fresh terminal snapshot'') False
                      (c\<lparr>cn_outbound := [], cn_sent := 0\<rparr>) of
                    (Inl e, _) \<Rightarrow> (Inl e, h)
                  | (Inr _, c) \<Rightarrow>
                      let h = bump_sequence h in
                      case queue_snapshot env h c of
                        (Inl e, _) \<Rightarrow> (Inl e, h)
                      | (Inr _, c) \<Rightarrow> (Inr (), h\<lparr>ho_connection := Some c\<rparr>)
              else (Inr (), h\<lparr>ho_connection := Some c\<rparr>))"

definition attached :: "holder \<Rightarrow> bool" where
  "attached h \<longleftrightarrow> (case ho_connection h of None \<Rightarrow> False | Some c \<Rightarrow> cn_epoch c \<noteq> None)"

definition emit_grid_delta :: "holder_env \<Rightarrow> holder \<Rightarrow> (holder_error, unit) result \<times> holder" where
  "emit_grid_delta env h =
     (let h = h\<lparr>ho_interactive_grid_budget := ho_interactive_grid_budget h - 1, ho_dirty_since := None\<rparr> in
      if \<not> attached h then (Inr (), h)
      else case grid_emission (ss_snapshot_sequence (ho_state h), ho_screen h) of
        None \<Rightarrow> (Inl Panicked, h)
      | Some (i, n, s) \<Rightarrow>
          let h = h\<lparr>ho_screen := s, ho_state := (ho_state h)\<lparr>ss_snapshot_sequence := n\<rparr>\<rparr> in
          holder_queue env (case i of Snapshot g \<Rightarrow> MFullSnapshot g | Delta g \<Rightarrow> MGridDelta g) h)"

subsection \<open>Input\<close>

fun flush_input :: "write_result list \<Rightarrow> holder \<Rightarrow> (holder_error, unit) result \<times> holder" where
  "flush_input [] h = (Inr (), h)"
| "flush_input (a # as) h =
     (if pending_len (ho_pending_input h) = 0 then (Inr (), h)
      else case a of
        Wrote n \<Rightarrow>
          let k = min n (pending_len (ho_pending_input h)) in
          if k = 0 then (Inl WriteZero, h)
          else flush_input as (h\<lparr>ho_pty := ho_pty h @ [PtyBytes (take k (pending_remaining (ho_pending_input h)))],
                 ho_pending_input := pending_consume k (ho_pending_input h)\<rparr>)
      | WouldBlock \<Rightarrow> (Inr (), h)
      | Interrupted \<Rightarrow> flush_input as h
      | _ \<Rightarrow> (Inl SystemError, h))"

definition write_input :: "holder_env \<Rightarrow> bytes \<Rightarrow> holder \<Rightarrow> (holder_error, unit) result \<times> holder" where
  "write_input env bs h =
     (if bs = [] then (Inr (), h)
      else if pending_len (ho_pending_input h) + length bs > MAX_PENDING_INPUT_BYTES then (Inl InputQueueFull, h)
      else flush_input (he_pty_writes env) (h\<lparr>ho_pending_input := pending_push bs (ho_pending_input h),
             ho_interactive_grid_budget := INTERACTIVE_GRID_BUDGET\<rparr>))"

subsection \<open>Replay\<close>

lemma remote_log_read_progress:
  "remote_log_read off n p = Inr (actual, bs) \<Longrightarrow> off \<le> actual \<or> bs = []"
  by (auto simp: remote_log_read_def Let_def split: prod.splits if_splits option.splits)

function replay_loop :: "remote_json \<Rightarrow> remote_log \<times> disk_state \<Rightarrow> nat \<Rightarrow> nat \<Rightarrow> connection
    \<Rightarrow> (holder_error, unit) result \<times> connection" where
  "replay_loop j lg tail off c =
     (if off < tail then
        (case remote_log_read off (64 * 1024) lg of
           Inl e \<Rightarrow> (Inl (LogError e), c)
         | Inr (actual, bs) \<Rightarrow>
             if bs = [] then (Inr (), c)
             else case connection_queue j (MTerminal (frame_output (of_nat actual) bs)) c of
               (Inl e, c) \<Rightarrow> (Inl e, c)
             | (Inr _, c) \<Rightarrow> replay_loop j lg tail (actual + length bs) c)
      else (Inr (), c))"
  by pat_completeness auto
termination
  by (relation "measure (\<lambda>(j, lg, tail, off, c). tail - off)")
    (auto dest!: remote_log_read_progress, metis diff_less_mono2 less_add_same_cancel1 le_eq_less_or_eq length_greater_0_conv order.strict_trans)

declare replay_loop.simps [simp del]

definition queue_replay :: "holder_env \<Rightarrow> u64 option \<Rightarrow> holder \<Rightarrow> connection
    \<Rightarrow> (holder_error, unit) result \<times> connection" where
  "queue_replay env acknowledged h c =
     (let tail = rl_tail_offset (fst (ho_log h));
          requested = (case acknowledged of Some a \<Rightarrow> unat a | None \<Rightarrow> tail)
      in if requested \<ge> tail then (Inr (), c)
         else let start = max requested (tail - REPLAY_BUDGET_BYTES) in
           attempt (connection_queue (he_json env) (MTerminal (replay_begin (of_nat start))) c) (\<lambda>_ c.
           attempt (replay_loop (he_json env) (ho_log h) tail start c) (\<lambda>_ c.
           connection_queue (he_json env) (MTerminal (replay_end (of_nat tail))) c)))"

subsection \<open>The handshake\<close>

definition holder_check :: "holder_env \<Rightarrow> hello \<Rightarrow> holder \<Rightarrow> (holder_error, unit) result" where
  "holder_check env hl h =
     (if major (hello_protocol hl) \<noteq> PROTOCOL_MAJOR then Inl (InvalidData ''protocol major does not match'')
      else if hello_session_id hl \<noteq> ss_session_id (ho_state h) \<or>
          (case hello_expected_incarnation hl of None \<Rightarrow> False
           | Some expected \<Rightarrow> expected \<noteq> ss_session_incarnation (ho_state h))
      then Inl (PermissionDenied ''session identity or incarnation does not match'')
      else case he_authenticate env (hello_session_token hl) of
        None \<Rightarrow> Inl SystemError
      | Some False \<Rightarrow> Inl (PermissionDenied ''session authentication failed'')
      | Some True \<Rightarrow>
          if list_all (\<lambda>cap. cap \<in> set PHASE_ONE_HOLDER_CAPABILITIES) (required_capabilities hl)
          then Inr () else Inl Unsupported)"

definition queue_on :: "holder_env \<Rightarrow> remote_message \<Rightarrow> connection \<times> holder \<Rightarrow> (holder_error, unit) result \<times> connection \<times> holder" where
  "queue_on env message p = (case connection_queue (he_json env) message (fst p) of (r, c) \<Rightarrow> (r, c, snd p))"

definition handshake :: "holder_env \<Rightarrow> hello \<Rightarrow> connection \<times> holder
    \<Rightarrow> (holder_error, unit) result \<times> connection \<times> holder" where
  "handshake env hl p =
     attempt (holder_check env hl (snd p), p) (\<lambda>_ (c, h).
     let epoch = next_sequence (ss_controller_epoch (ho_state h));
         h = h\<lparr>ho_state := (ho_state h)\<lparr>ss_controller_epoch := epoch\<rparr>\<rparr>;
         c = c\<lparr>cn_epoch := Some epoch\<rparr> in
     attempt (queue_on env (MHelloAck \<lparr>ack_protocol = CURRENT, ack_holder_build_id = he_build_id env,
         ack_session_incarnation = ss_session_incarnation (ho_state h),
         ack_capabilities = PHASE_ONE_HOLDER_CAPABILITIES, ack_controller_epoch = epoch,
         ack_process_state = ss_process_state (ho_state h), ack_output_offset = ss_output_offset (ho_state h),
         ack_snapshot_sequence = ss_snapshot_sequence (ho_state h)\<rparr>) (c, h)) (\<lambda>_ (c, h).
     attempt (case queue_replay env (last_acknowledged_output_offset hl) h c of (r, c) \<Rightarrow> (r, c, h)) (\<lambda>_ (c, h).
     let h = bump_sequence h in
     attempt (case queue_snapshot env h c of (r, c) \<Rightarrow> (r, c, h)) (\<lambda>_ (c, h).
     attempt (queue_on env (MControlGranted \<lparr>cg_controller_epoch = epoch\<rparr>) (c, h)) (\<lambda>_ (c, h).
     (write_state env, c, h))))))"

subsection \<open>Messages of a controller\<close>

text \<open>\<open>he_signals\<close>: the numbers of SIGINT, SIGTERM, SIGKILL, SIGSTOP, SIGCONT, SIGHUP and SIGQUIT.\<close>

definition allowed_signal :: "holder_env \<Rightarrow> int \<Rightarrow> bool" where
  "allowed_signal env sg \<longleftrightarrow> sg \<in> set (he_signals env)"

definition handle_resize :: "holder_env \<Rightarrow> frame \<Rightarrow> connection \<times> holder
    \<Rightarrow> (holder_error, unit) result \<times> connection \<times> holder" where
  "handle_resize env f = (\<lambda>(c, h).
     case resize_payload f of
       None \<Rightarrow> (Inl (InvalidData ''Resize payload must contain exactly two u16 values''), c, h)
     | Some (nc, nr) \<Rightarrow>
         if length (frame_payload f) \<noteq> 4 \<or> validate_terminal_dimensions nc nr \<noteq> Inr ()
         then (Inl (InvalidData ''Resize dimensions are invalid''), c, h)
         else case he_pty_resized env nc nr of
           None \<Rightarrow> (Inl SystemError, c, h)
         | Some v \<Rightarrow>
             let h = bump_sequence (h\<lparr>ho_pty := ho_pty h @ [PtySize nc nr],
                   ho_screen := screen_resize v (unat nc) (unat nr) (ho_screen h),
                   ho_state := (ho_state h)\<lparr>ss_cols := nc, ss_rows := nr\<rparr>\<rparr>)
             in attempt (write_state env, c, h) (\<lambda>_ (c, h).
                  case queue_snapshot env h c of (r, c) \<Rightarrow> (r, c, h)))"

definition handle_frame :: "holder_env \<Rightarrow> frame \<Rightarrow> connection \<times> holder
    \<Rightarrow> (holder_error, unit) result \<times> connection \<times> holder" where
  "handle_frame env f = (\<lambda>(c, h).
     case frame_type f of
       Input \<Rightarrow> (case write_input env (frame_payload f) h of (r, h) \<Rightarrow> (r, c, h))
     | Resize \<Rightarrow> handle_resize env f (c, h)
     | Ping \<Rightarrow> queue_on env (MTerminal frame_pong) (c, h)
     | Scroll \<Rightarrow>
         (case scroll_payload f of
            None \<Rightarrow> (Inl (InvalidData ''Scroll payload is invalid''), c, h)
          | Some (direction, n, col, row) \<Rightarrow>
              (case write_input env (mouse_wheel (direction = 0) (unat n) (unat col) (unat row) (ho_screen h)) h of
                 (r, h) \<Rightarrow> (r, c, h)))
     | _ \<Rightarrow> (Inl (InvalidData ''terminal frame is not valid from a controller''), c, h))"

definition handle_message :: "holder_env \<Rightarrow> remote_message \<Rightarrow> connection \<times> holder
    \<Rightarrow> (holder_error, unit) result \<times> connection \<times> holder" where
  "handle_message env message = (\<lambda>(c, h).
     case cn_epoch c of
       None \<Rightarrow> (case message of
           MHello hl \<Rightarrow> handshake env hl (c, h)
         | _ \<Rightarrow> (Inl (InvalidData ''Hello must be the first attach message''), c, h))
     | Some epoch \<Rightarrow>
         if epoch \<noteq> ss_controller_epoch (ho_state h)
         then (Inl (PermissionDenied ''controller epoch was revoked''), c, h)
         else case message of
           MTerminal f \<Rightarrow> handle_frame env f (c, h)
         | MSignal sg \<Rightarrow>
             if sig_controller_epoch sg \<noteq> epoch \<or> \<not> allowed_signal env (sig_signal sg)
             then (Inl (PermissionDenied ''signal or controller epoch is invalid''), c, h)
             else if he_signalled env then (Inr (), c, h\<lparr>ho_pty := ho_pty h @ [PtySignal (sig_signal sg)]\<rparr>)
             else (Inl SystemError, c, h)
         | MAcquireControl _ \<Rightarrow> queue_on env (MControlGranted \<lparr>cg_controller_epoch = epoch\<rparr>) (c, h)
         | MScrollbackRequest r \<Rightarrow>
             queue_on env (MScrollbackResponse \<lparr>srs_request_id = sr_request_id r,
               srs_result = scrollback_cells (sr_first_row r) (sr_max_rows r) (ho_screen h)\<rparr>) (c, h)
         | MReleaseControl r \<Rightarrow>
             if rc_controller_epoch r \<noteq> epoch
             then (Inl (PermissionDenied ''release uses a stale controller epoch''), c, h)
             else (Inl ControllerReleased, c, h)
         | _ \<Rightarrow> (Inl (InvalidData ''message is not valid from a controller''), c, h))"

text \<open>
  Reading from a connection: the messages of each chunk until the socket has no more, the peer is
  gone, or something is refused. The flag says that the connection is closed; a refusal is then
  answered with a fatal error on the socket, which is not kept.
\<close>

fun handle_messages :: "holder_env \<Rightarrow> remote_message list \<Rightarrow> connection \<times> holder \<Rightarrow> bool \<times> connection \<times> holder" where
  "handle_messages env [] p = (False, p)"
| "handle_messages env (m # ms) p =
     (case handle_message env m p of
        (Inl _, p) \<Rightarrow> (True, p)
      | (Inr _, p) \<Rightarrow> handle_messages env ms p)"

datatype read_result = Data bytes | EndOfFile | ReadBlocked | ReadInterrupted | ReadFailed

fun read_messages :: "holder_env \<Rightarrow> read_result list \<Rightarrow> connection \<times> holder \<Rightarrow> bool \<times> connection \<times> holder" where
  "read_messages env [] p = (False, p)"
| "read_messages env (r # rs) p =
     (case r of
        Data bs \<Rightarrow>
          (case remote_feed (he_json env) (cn_codec (fst p)) bs of
             (Inl _, codec) \<Rightarrow> (True, (fst p)\<lparr>cn_codec := codec\<rparr>, snd p)
           | (Inr ms, codec) \<Rightarrow>
               (case handle_messages env ms ((fst p)\<lparr>cn_codec := codec\<rparr>, snd p) of
                  (True, p) \<Rightarrow> (True, p)
                | (False, p) \<Rightarrow> read_messages env rs p))
      | EndOfFile \<Rightarrow> (True, p)
      | ReadBlocked \<Rightarrow> (False, p)
      | ReadInterrupted \<Rightarrow> read_messages env rs p
      | ReadFailed \<Rightarrow> (True, p))"

definition accept_connection :: "holder \<Rightarrow> holder" where
  "accept_connection h = h\<lparr>ho_pending_connection := Some connection_new\<rparr>"

definition read_connection :: "holder_env \<Rightarrow> read_result list \<Rightarrow> holder \<Rightarrow> holder" where
  "read_connection env rs h =
     (case ho_connection h of
        None \<Rightarrow> h
      | Some c \<Rightarrow>
          (case read_messages env rs (c, h\<lparr>ho_connection := None\<rparr>) of
             (gone, c, h) \<Rightarrow> if gone then h else h\<lparr>ho_connection := Some c\<rparr>))"

text \<open>The connection replaced is told so and dropped; whether the last write reaches it is not kept.\<close>

definition read_pending_connection :: "holder_env \<Rightarrow> read_result list \<Rightarrow> holder \<Rightarrow> holder" where
  "read_pending_connection env rs h =
     (case ho_pending_connection h of
        None \<Rightarrow> h
      | Some c \<Rightarrow>
          (case read_messages env rs (c, h\<lparr>ho_pending_connection := None\<rparr>) of
             (gone, c, h) \<Rightarrow>
               if gone then h
               else if cn_epoch c \<noteq> None then h\<lparr>ho_connection := Some c\<rparr>
               else h\<lparr>ho_pending_connection := Some c\<rparr>))"

definition flush_connection :: "write_result list \<Rightarrow> holder \<Rightarrow> (holder_error, unit) result \<times> holder" where
  "flush_connection as h =
     (case ho_connection h of
        None \<Rightarrow> (Inr (), h)
      | Some c \<Rightarrow>
          (case connection_flush as c of
             (Inl PeerLost, _) \<Rightarrow> (Inr (), h\<lparr>ho_connection := None\<rparr>)
           | (r, c) \<Rightarrow> (r, h\<lparr>ho_connection := Some c\<rparr>)))"

text \<open>One chunk of terminal output, read at a time, with the view the emulator then has.\<close>

definition pty_output :: "holder_env \<Rightarrow> log_io \<Rightarrow> bytes \<Rightarrow> term_view \<Rightarrow> u64 \<Rightarrow> duration \<Rightarrow> holder
    \<Rightarrow> (holder_error, unit) result \<times> holder" where
  "pty_output env io bs v sq now h =
     (case remote_log_append io bs (ho_log h) of
        (Inl e, lg) \<Rightarrow> (Inl (LogError e), h\<lparr>ho_log := lg\<rparr>)
      | (Inr off, lg) \<Rightarrow>
          let tail = rl_tail_offset (fst lg);
              h = h\<lparr>ho_log := lg, ho_state := (ho_state h)\<lparr>ss_output_offset := of_nat tail\<rparr>,
                    ho_screen := screen_feed v sq (ho_screen h),
                    ho_dirty_since := (case ho_dirty_since h of None \<Rightarrow> Some now | Some t \<Rightarrow> Some t)\<rparr>
          in attempt (if attached h then holder_queue env (MTerminal (frame_output (of_nat off) bs)) h else (Inr (), h))
               (\<lambda>_ h. if tail - ho_last_persisted_offset h \<ge> PERSIST_OFFSET_INTERVAL
                      then attempt (write_state env, h) (\<lambda>_ h. (Inr (), h\<lparr>ho_last_persisted_offset := tail\<rparr>))
                      else (Inr (), h)))"

definition grid_due :: "duration \<Rightarrow> holder \<Rightarrow> bool" where
  "grid_due now h \<longleftrightarrow> (case ho_dirty_since h of None \<Rightarrow> False
     | Some since \<Rightarrow> ho_interactive_grid_budget h > 0 \<or> now - since \<ge> DIFF_COALESCE)"

text \<open>The agent's exit; \<open>None\<close> when the guard or the wait failed.\<close>

definition record_exit :: "holder_env \<Rightarrow> pty_exit option \<Rightarrow> bool \<Rightarrow> holder \<Rightarrow> (holder_error, unit) result \<times> holder" where
  "record_exit env waited flushed h =
     (case waited of
        None \<Rightarrow> (Inl SystemError, h)
      | Some exit \<Rightarrow>
          let (state, message) = (case exit of
                ExitCode code \<Rightarrow> (ProcessExited (Some code) None, \<lparr>pe_code = Some code, pe_signal = None\<rparr>)
              | ExitSignal sg \<Rightarrow> (ProcessExited None (Some sg), \<lparr>pe_code = None, pe_signal = Some sg\<rparr>));
              h = h\<lparr>ho_state := (ho_state h)\<lparr>ss_process_state := state,
                    ss_output_offset := of_nat (rl_tail_offset (fst (ho_log h)))\<rparr>\<rparr>
          in attempt (if flushed then Inr () else Inl (LogError LogIo), h) (\<lambda>_ h.
             attempt (write_state env, h) (\<lambda>_ h. holder_queue env (MProcessExit message) h)))"

end
