(* ===== verification/Holder_Stream.thy ===== *)
theory Holder_Stream
  imports Remote_Holder
begin

text \<open>
  What a controller receives from the remote holder. The invariant says of both connections that what
  the socket has taken, with what is queued, is a sequence of whole messages, also when a slow client
  is reseeded, and of the current controller that its mirror takes every grid message and follows the
  screen without a gap. Every operation of the holder keeps it.
\<close>

section \<open>Bytes on the wire\<close>

definition encodes :: "remote_json \<Rightarrow> remote_message list \<Rightarrow> bytes \<Rightarrow> bool" where
  "encodes j ms bs \<longleftrightarrow> (\<exists>es. list_all2 (\<lambda>m e. remote_encode j m = Inr e) ms es \<and> bs = concat es)"

text \<open>The messages the socket has taken whole, and those in the outbound buffer.\<close>

definition wire :: "remote_json \<Rightarrow> remote_message list \<Rightarrow> remote_message list \<Rightarrow> connection \<Rightarrow> bool" where
  "wire j taken queued c \<longleftrightarrow> encodes j queued (cn_outbound c) \<and> cn_sent c \<le> length (cn_outbound c) \<and>
     (\<exists>bs. encodes j taken bs \<and> cn_written c = bs @ take (cn_sent c) (cn_outbound c))"

lemma encodes_Nil [simp]: "encodes j [] []"
  by (simp add: encodes_def)

lemma encodes_append: "encodes j ms bs \<Longrightarrow> encodes j ns cs \<Longrightarrow> encodes j (ms @ ns) (bs @ cs)"
  by (auto simp: encodes_def intro!: list_all2_appendI concat_append [symmetric])

lemma encodes_snoc: "encodes j ms bs \<Longrightarrow> remote_encode j m = Inr e \<Longrightarrow> encodes j (ms @ [m]) (bs @ e)"
  by (rule encodes_append) (auto simp: encodes_def intro!: exI [of _ "[e]"])

lemma wire_new: "wire j [] [] connection_new"
  by (simp add: wire_def connection_new_def)

lemma connection_queue_cases:
  obtains e where "connection_queue j m c = (Inl e, c)"
  | bs where "remote_encode j m = Inr bs" "connection_queue j m c = (Inr (), c\<lparr>cn_outbound := cn_outbound c @ bs\<rparr>)"
proof (cases "encode_into j m (cn_outbound c)")
  case (Pair r outbound)
  then show ?thesis
    using that encode_into_cases [where j = j and m = m and out = "cn_outbound c"]
    by (cases r) (auto simp: connection_queue_def)
qed

lemma queue_wire:
  assumes "connection_queue j m c = (Inr u, c')" "wire j ts qs c"
  shows "wire j ts (qs @ [m]) c'"
  using assms
  by (cases rule: connection_queue_cases [of j m c])
    (auto simp: wire_def intro!: encodes_snoc exI)

lemma wire_flushed:
  assumes "wire j ts qs c" "\<not> cn_sent c < length (cn_outbound c)"
  shows "wire j (ts @ qs) [] (c\<lparr>cn_outbound := [], cn_sent := 0\<rparr>)"
  using assms encodes_append by (fastforce simp: wire_def)

lemma flush_wire:
  assumes "connection_flush as c = (r, c')" "wire j ts qs c"
  shows "\<exists>ts' qs'. wire j ts' qs' c' \<and> ts' @ qs' = ts @ qs"
  using assms
proof (induction "as" c arbitrary: r c' rule: connection_flush.induct)
  case (1 c)
  then show ?case
    using wire_flushed [of j ts qs c] by (auto split: if_splits)
next
  case (2 a "as" c)
  show ?case
  proof (cases "cn_sent c < length (cn_outbound c)")
    case False
    then show ?thesis
      using 2(3,4) wire_flushed [of j ts qs c] by auto
  next
    case True
    show ?thesis
    proof (cases a)
      case (Wrote n)
      define k where "k = min n (length (cn_outbound c) - cn_sent c)"
      show ?thesis
      proof (cases "k = 0")
        case True
        then show ?thesis
          using 2(3,4) Wrote \<open>cn_sent c < length (cn_outbound c)\<close> by (auto simp: k_def)
      next
        case False
        have "wire j ts qs (c\<lparr>cn_sent := cn_sent c + k, cn_written := cn_written c @ take k (drop (cn_sent c) (cn_outbound c))\<rparr>)"
          using 2(4) True by (auto simp: wire_def k_def take_add)
        then show ?thesis
          using 2(1) [OF True Wrote k_def False] 2(3) True False Wrote
          by (auto simp: k_def Let_def split: if_splits)
      qed
    qed (use 2 True in auto)
  qed
qed

lemma flush_epoch: "connection_flush as c = (r, c') \<Longrightarrow> cn_epoch c' = cn_epoch c"
  by (induction "as" c arbitrary: r c' rule: connection_flush.induct)
    (auto simp: Let_def split: if_splits write_result.splits)

section \<open>Grid messages on a connection\<close>

fun grid_op :: "remote_message \<Rightarrow> mirror_op option" where
  "grid_op (MFullSnapshot g) = Some (Snapshot g)"
| "grid_op (MGridDelta g) = Some (Delta g)"
| "grid_op _ = None"

text \<open>A mirror that is given the grid messages; \<open>None\<close> when it refuses one.\<close>

fun shown :: "remote_message list \<Rightarrow> grid_mirror \<Rightarrow> grid_mirror option" where
  "shown [] m = Some m"
| "shown (x # xs) m =
     (case grid_op x of
        None \<Rightarrow> shown xs m
      | Some i \<Rightarrow> (case mirror_apply i m of Some (Inr _, m) \<Rightarrow> shown xs m | _ \<Rightarrow> None))"

lemma shown_append: "shown (xs @ ys) m = Option.bind (shown xs m) (shown ys)"
  by (induction xs arbitrary: m) (auto split: option.splits sum.splits)

lemma shown_inv: "shown xs m = Some m' \<Longrightarrow> mirror_inv m \<Longrightarrow> mirror_inv m'"
proof (induction xs arbitrary: m)
  case (Cons x xs)
  then show ?case
    using mirror_step_inv [of m] by (fastforce simp: mirror_step_def split: option.splits sum.splits)
qed simp

lemma shown_other: "grid_op x = None \<Longrightarrow> shown (xs @ [x]) m = shown xs m"
  by (cases "shown xs m") (simp_all add: shown_append)

text \<open>A snapshot is always taken, a delta by a mirror that follows.\<close>

definition screen_ok :: "headless_screen \<Rightarrow> bool" where
  "screen_ok s \<longleftrightarrow> fits s \<and> cursor_inside s (hs_term s) \<and>
     length (hs_last_cells s) = hs_last_grid_cols s * hs_last_grid_rows s"

lemma shown_snapshot:
  assumes "screen_ok s" "shown xs mirror_new = Some m"
  obtains m' where "shown (xs @ [MFullSnapshot (snapshot_message n s)]) mirror_new = Some m'" "follows n s m'"
proof -
  have "mirror_inv m"
    using shown_inv [OF assms(2) mirror_new_inv] .
  then obtain m' where "mirror_apply (Snapshot (snapshot_message n s)) m = Some (Inr (), m')" "follows n s m'"
    using snapshot_applies [of s m n] assms(1) by (auto simp: screen_ok_def)
  then show ?thesis
    using that assms(2) by (simp add: shown_append)
qed

definition emitted :: "mirror_op \<Rightarrow> remote_message" where
  "emitted i = (case i of Snapshot g \<Rightarrow> MFullSnapshot g | Delta g \<Rightarrow> MGridDelta g)"

lemma grid_op_emitted [simp]: "grid_op (emitted i) = Some i"
  by (simp add: emitted_def split: mirror_op.split)

text \<open>At a size the baseline does not have, the emission is the full screen.\<close>

lemma emission_full:
  assumes "screen_ok s" "hs_last_grid_cols s \<noteq> hs_cols s \<or> hs_last_grid_rows s \<noteq> hs_rows s"
  obtains u s' where "grid_emission (n, s) = Some (Snapshot (message_of (next_sequence n) s' u), next_sequence n, s')"
    "screen_ok s'" "hs_cols s' = hs_cols s" "hs_rows s' = hs_rows s" "cols u = of_nat (hs_cols s)"
    "rows u = of_nat (hs_rows s)" "is_full_snapshot u" "valid_grid u"
proof -
  let ?nc = "hs_cols s" and ?nr = "hs_rows s"
  define s0 where "s0 = s\<lparr>hs_last_cells := replicate (?nc * ?nr) BLANK, hs_last_grid_cols := ?nc, hs_last_grid_rows := ?nr\<rparr>"
  have fits: "fits s"
    using assms(1) by (simp add: screen_ok_def)
  obtain changed base' where d: "diff_rows True ?nc (hs_term s) [0..<?nr] (replicate (?nc * ?nr) BLANK) = Some (changed, base')"
    "length base' = ?nc * ?nr" "\<forall>r \<in> set changed. unat (row_y r) < ?nr \<and> length (row_cells r) = ?nc"
    using diff_rows_spec [of "replicate (?nc * ?nr) BLANK" ?nc ?nr "[0..<?nr]" True "hs_term s"] fits
    by (auto simp: fits_def)
  define s' where "s' = s0\<lparr>hs_last_cells := base'\<rparr>"
  have "screen_grid_update False s = Some (update_of s0 True changed, s')"
    using assms(2) d(1) unfolding screen_grid_update_def Let_def s'_def s0_def by auto
  then have e: "grid_emission (n, s) = Some (Snapshot (message_of (next_sequence n) s' (update_of s0 True changed)),
      next_sequence n, s')"
    by (simp add: grid_emission_def Let_def) (simp add: update_of_def)
  have "valid_grid (update_of s0 True changed)"
    using assms(1) d(3) by (intro update_of_valid) (auto simp: s0_def screen_ok_def fits_def cursor_inside_def)
  then show ?thesis
    using that [OF e] assms(1) d(2)
    by (auto simp: s'_def s0_def screen_ok_def fits_def cursor_inside_def update_of_def)
qed

lemma emission_total:
  assumes "screen_ok s"
  obtains i s' where "grid_emission (n, s) = Some (i, next_sequence n, s')" "screen_ok s'"
    "hs_cols s' = hs_cols s" "hs_rows s' = hs_rows s"
proof (cases "hs_last_grid_cols s = hs_cols s \<and> hs_last_grid_rows s = hs_rows s")
  case True
  let ?nc = "hs_cols s" and ?nr = "hs_rows s"
  obtain changed base' where d: "diff_rows False ?nc (hs_term s) [0..<?nr] (hs_last_cells s) = Some (changed, base')"
    "length base' = ?nc * ?nr"
    using diff_rows_spec [of "hs_last_cells s" ?nc ?nr "[0..<?nr]" False "hs_term s"] assms True
    by (auto simp: screen_ok_def fits_def)
  then have "screen_grid_update False s = Some (update_of s False changed, s\<lparr>hs_last_cells := base'\<rparr>)"
    using True by (simp add: screen_grid_update_def)
  then show ?thesis
    using that assms d(2) True
    by (auto simp: grid_emission_def Let_def update_of_def screen_ok_def fits_def cursor_inside_def)
next
  case False
  then show ?thesis
    using emission_full [OF assms] that by (metis (no_types, lifting))
qed

lemma emission_taken:
  assumes "screen_ok s" "follows n s m" "n \<noteq> - 1" "grid_emission (n, s) = Some (i, n', s')"
  obtains m' where "mirror_apply i m = Some (Inr (), m')" "follows n' s' m'"
proof (cases "hs_last_grid_cols s = hs_cols s \<and> hs_last_grid_rows s = hs_rows s")
  case True
  then have "based s"
    using assms(1) by (simp add: based_def screen_ok_def)
  moreover have "fits s" "cursor_inside s (hs_term s)"
    using assms(1) by (simp_all add: screen_ok_def)
  ultimately obtain s1 m1 where e: "grid_stream [hs_term s] ((n, s), m) = Some ((n + 1, s1), m1)" "follows (n + 1) s1 m1"
    using emission_step assms(2,3) by metis
  have "screen_feed (hs_term s) (hs_content_seq s) s = s"
    by (simp add: screen_feed_def)
  then show ?thesis
    using e assms(4) that
    by (auto simp: bind_eq_Some_conv split: sum.splits) (metis old.unit.exhaust sum.exhaust)
next
  case False
  then obtain u where u: "i = Snapshot (message_of n' s' u)" "n' = next_sequence n" "hs_cols s' = hs_cols s"
    "hs_rows s' = hs_rows s" "cols u = of_nat (hs_cols s)" "rows u = of_nat (hs_rows s)" "is_full_snapshot u" "valid_grid u"
    using emission_full [OF assms(1), of n] assms(4) by auto
  have inv: "mirror_inv m"
    using assms(2) by (simp add: follows_def)
  have "takes m i"
    using u by (simp add: message_of_def)
  then obtain cells where "mirror_apply i m = Some (Inr (), mirror_of (op_message i) cells)"
    "mirror_step m i = mirror_of (op_message i) cells"
    using mirror_step_taken [OF _ inv refl] by metis
  then show ?thesis
    using that mirror_step_inv [OF inv, of i] u by (simp add: follows_def mirror_of_def message_of_def)
qed

section \<open>The invariant\<close>

abbreviation seq_of :: "holder \<Rightarrow> u64" where
  "seq_of h \<equiv> ss_snapshot_sequence (ho_state h)"

abbreviation epoch_of :: "holder \<Rightarrow> u64" where
  "epoch_of h \<equiv> ss_controller_epoch (ho_state h)"

text \<open>Both counters saturate; at their end nothing is promised.\<close>

definition saturated :: "holder \<Rightarrow> bool" where
  "saturated h \<longleftrightarrow> seq_of h = - 1 \<or> epoch_of h = - 1"

text \<open>The grid messages of a connection are taken, and leave a mirror that follows the screen.\<close>

definition live :: "remote_json \<Rightarrow> connection \<Rightarrow> holder \<Rightarrow> bool" where
  "live j c h \<longleftrightarrow> (\<exists>ts qs m. wire j ts qs c \<and> shown (ts @ qs) mirror_new = Some m \<and> follows (seq_of h) (ho_screen h) m)"

definition slot_ok :: "remote_json \<Rightarrow> connection \<Rightarrow> holder \<Rightarrow> bool" where
  "slot_ok j c h \<longleftrightarrow> (\<exists>ts qs. wire j ts qs c) \<and>
     (case cn_epoch c of
        None \<Rightarrow> cn_outbound c = [] \<and> cn_written c = []
      | Some e \<Rightarrow> e \<le> epoch_of h \<and> (saturated h \<or> (e = epoch_of h \<longrightarrow> live j c h)))"

definition holder_inv :: "remote_json \<Rightarrow> holder \<Rightarrow> bool" where
  "holder_inv j h \<longleftrightarrow> screen_ok (ho_screen h) \<and>
     (\<forall>c. ho_connection h = Some c \<longrightarrow> slot_ok j c h \<and> cn_epoch c \<noteq> None) \<and>
     (\<forall>c. ho_pending_connection h = Some c \<longrightarrow> slot_ok j c h \<and> cn_epoch c = None)"

lemma succ_u64:
  assumes "(n :: u64) \<noteq> - 1"
  shows "unat (n + 1) = unat n + 1"
proof -
  have "unat n \<noteq> unat (- 1 :: u64)"
    using assms by (simp only: word_unat_eq_iff not_False_eq_True)
  then have "unat n + 1 < 2 ^ 64"
    using unsigned_less [of n, where ?'a = nat] unsigned_minus_1_eq_mask [where ?'a = nat and ?'b = 64]
    by (simp add: mask_eq_exp_minus_1)
  then show ?thesis
    by (simp add: unat_word_ariths)
qed

lemma next_sequence_mono: "n \<le> next_sequence n" "n \<noteq> - 1 \<Longrightarrow> n < next_sequence n"
  by (auto simp: next_sequence_def word_le_nat_alt word_less_nat_alt succ_u64)

lemma follows_frame: "hs_cols s' = hs_cols s \<Longrightarrow> hs_rows s' = hs_rows s \<Longrightarrow> follows n s' m = follows n s m"
  by (simp add: follows_def)

lemma slot_frame:
  assumes "slot_ok j c h" "epoch_of h' = epoch_of h" "seq_of h' = seq_of h"
    "hs_cols (ho_screen h') = hs_cols (ho_screen h)" "hs_rows (ho_screen h') = hs_rows (ho_screen h)"
  shows "slot_ok j c h'"
  using assms follows_frame [OF assms(4,5)]
  by (auto simp: slot_ok_def saturated_def live_def split: option.splits)

lemma slot_stale:
  assumes "slot_ok j c h" "cn_epoch c = Some e" "e \<noteq> epoch_of h'" "epoch_of h \<le> epoch_of h'"
  shows "slot_ok j c h'"
  using assms by (auto simp: slot_ok_def)

lemma queue_frame:
  "connection_queue j x c = (r, c') \<Longrightarrow> cn_epoch c' = cn_epoch c \<and> cn_sent c' = cn_sent c \<and>
     cn_written c' = cn_written c \<and> cn_codec c' = cn_codec c"
  by (cases rule: connection_queue_cases [of j x c]) auto

text \<open>A message on its way to a connection, to be shown on top of what it has.\<close>

definition queueable :: "remote_json \<Rightarrow> remote_message \<Rightarrow> connection \<Rightarrow> holder \<Rightarrow> bool" where
  "queueable j x c h \<longleftrightarrow> (\<exists>ts qs. wire j ts qs c) \<and>
     (\<exists>e. cn_epoch c = Some e \<and> e \<le> epoch_of h \<and>
       (saturated h \<or> (e = epoch_of h \<longrightarrow> (\<exists>ts qs m. wire j ts qs c \<and>
          shown (ts @ qs @ [x]) mirror_new = Some m \<and> follows (seq_of h) (ho_screen h) m))))"

lemma queueable_other:
  assumes "slot_ok j c h" "cn_epoch c \<noteq> None" "grid_op x = None"
  shows "queueable j x c h"
  using assms shown_other [OF assms(3), of "_ @ _", unfolded append_assoc]
  by (auto simp: queueable_def slot_ok_def live_def)

lemma queue_slot:
  assumes "queueable j x c h" "connection_queue j x c = (Inr u, c')"
  shows "slot_ok j c' h" "cn_epoch c' = cn_epoch c"
proof -
  show ep: "cn_epoch c' = cn_epoch c"
    using queue_frame [OF assms(2)] by simp
  have w: "\<exists>ts qs. wire j ts qs c'"
    using assms(1) queue_wire [OF assms(2)] by (auto simp: queueable_def)
  have "live j c' h" if now: "cn_epoch c = Some (epoch_of h)" "\<not> saturated h"
  proof -
    obtain ts qs m where "wire j ts qs c" "shown (ts @ qs @ [x]) mirror_new = Some m" "follows (seq_of h) (ho_screen h) m"
      using assms(1) now by (auto simp: queueable_def)
    then show ?thesis
      using queue_wire [OF assms(2)] by (auto simp: live_def)
  qed
  then have "saturated h \<or> cn_epoch c \<noteq> Some (epoch_of h) \<or> live j c' h"
    by blast
  then show "slot_ok j c' h"
    using w assms(1) ep by (auto simp: slot_ok_def queueable_def)
qed

lemma bump_simps [simp]:
  "seq_of (bump_sequence h) = next_sequence (seq_of h)" "epoch_of (bump_sequence h) = epoch_of h"
  "ho_screen (bump_sequence h) = ho_screen h" "ho_connection (bump_sequence h) = ho_connection h"
  "ho_pending_connection (bump_sequence h) = ho_pending_connection h" "ho_pty (bump_sequence h) = ho_pty h"
  "ho_pending_input (bump_sequence h) = ho_pending_input h"
  by (simp_all add: bump_sequence_def)

lemma saturated_bump: "saturated h \<Longrightarrow> saturated (bump_sequence h)"
  by (auto simp: saturated_def next_sequence_def)

text \<open>A fresh snapshot makes a connection follow, whatever it had before.\<close>

lemma snapshot_slot:
  assumes "screen_ok (ho_screen h)" "\<exists>ts qs. wire j ts qs c" "cn_epoch c = Some e" "e \<le> epoch_of h"
    and "saturated h \<or> (e = epoch_of h \<longrightarrow> (\<exists>ts qs m. wire j ts qs c \<and> shown (ts @ qs) mirror_new = Some m))"
    and "he_json env = j" "queue_snapshot env h c = (Inr u, c')"
  shows "slot_ok j c' h" "cn_epoch c' = cn_epoch c"
proof -
  let ?x = "MFullSnapshot (snapshot_message (seq_of h) (ho_screen h))"
  have q: "connection_queue j ?x c = (Inr u, c')"
    using assms(6,7) by (simp add: queue_snapshot_def)
  have "\<exists>ts qs m. wire j ts qs c \<and> shown (ts @ qs @ [?x]) mirror_new = Some m \<and> follows (seq_of h) (ho_screen h) m"
    if "wire j ts qs c" "shown (ts @ qs) mirror_new = Some m" for ts qs m
    using shown_snapshot [OF assms(1) that(2)] that(1) by (metis append_assoc)
  then have "queueable j ?x c h"
    using assms(2-5) unfolding queueable_def by blast
  then show "slot_ok j c' h" "cn_epoch c' = cn_epoch c"
    using queue_slot [OF _ q] by simp_all
qed

lemma shown_prefix: "shown (xs @ ys) m = Some m' \<Longrightarrow> \<exists>m1. shown xs m = Some m1"
  by (cases "shown xs m") (simp_all add: shown_append)

text \<open>Clearing the outbound buffer drops whole messages when none of its bytes was sent.\<close>

lemma wire_cleared:
  assumes "wire j ts qs c" "cn_sent c = 0"
  shows "wire j ts [] (c\<lparr>cn_outbound := [], cn_sent := 0\<rparr>)"
  using assms by (auto simp: wire_def)

lemma holder_queue_inv:
  assumes "screen_ok (ho_screen h)" "he_json env = j" "\<And>c. ho_connection h = Some c \<Longrightarrow> queueable j x c h"
    and "holder_queue env x h = (Inr u, h')"
  shows "(\<forall>c. ho_connection h' = Some c \<longrightarrow> slot_ok j c h' \<and> cn_epoch c \<noteq> None) \<and>
    ho_screen h' = ho_screen h \<and> epoch_of h' = epoch_of h \<and> ho_pending_connection h' = ho_pending_connection h \<and>
    ho_pty h' = ho_pty h"
proof (cases "ho_connection h")
  case None
  then show ?thesis
    using assms(4) by (simp add: holder_queue_def)
next
  case (Some c)
  have qa: "queueable j x c h"
    using assms(3) Some by simp
  obtain c1 where c1: "connection_queue j x c = (Inr (), c1)"
    using assms(2,4) Some by (cases rule: connection_queue_cases [of j x c]) (auto simp: holder_queue_def)
  have ep: "cn_epoch c1 = cn_epoch c"
    using queue_frame [OF c1] by simp
  let ?h0 = "h\<lparr>ho_connection := None\<rparr>"
  show ?thesis
  proof (cases "length (cn_outbound c1) > MAX_OUTBOUND_BYTES")
    case False
    then have "h' = h\<lparr>ho_connection := Some c1\<rparr>"
      using assms(2,4) Some c1 by (simp add: holder_queue_def)
    then show ?thesis
      using queue_slot [OF qa c1] qa slot_frame [of j c1 h h'] by (auto simp: queueable_def)
  next
    case over: True
    show ?thesis
    proof (cases "cn_sent c1 = 0")
      case False
      then show ?thesis
        using assms(2,4) Some c1 over by (auto simp: holder_queue_def)
    next
      case True
      define c2 where "c2 = c1\<lparr>cn_outbound := [], cn_sent := 0\<rparr>"
      define er where "er = MError \<lparr>re_code = lit ''slow_client_reseed'',
        re_message = lit ''incremental output was discarded; applying a fresh terminal snapshot'', re_fatal = False\<rparr>"
      have res: "holder_queue env x h = (case connection_queue j er c2 of (Inl e, _) \<Rightarrow> (Inl e, ?h0)
          | (Inr _, c) \<Rightarrow> (case queue_snapshot env (bump_sequence ?h0) c of
               (Inl e, _) \<Rightarrow> (Inl e, bump_sequence ?h0)
             | (Inr _, c) \<Rightarrow> (Inr (), (bump_sequence ?h0)\<lparr>ho_connection := Some c\<rparr>)))"
        unfolding holder_queue_def queue_error_def c2_def er_def Let_def using assms(2) Some c1 over True by simp
      then obtain c3 c4 where c3: "connection_queue j er c2 = (Inr (), c3)"
        and c4: "queue_snapshot env (bump_sequence ?h0) c3 = (Inr (), c4)" "h' = (bump_sequence ?h0)\<lparr>ho_connection := Some c4\<rparr>"
        using assms(4) by (auto split: prod.splits sum.splits)
      have clear: "wire j ts [er] c3" if "wire j ts qs c" for ts qs
        using queue_wire [OF c3, of ts "[]"] wire_cleared [OF queue_wire [OF c1 that] True] by (simp add: c2_def)
      obtain e where e: "cn_epoch c = Some e" "e \<le> epoch_of h"
        using qa by (auto simp: queueable_def)
      have e3: "cn_epoch c3 = Some e"
        using queue_frame [OF c3] ep e(1) by (simp add: c2_def)
      have sh: "saturated (bump_sequence ?h0) \<or> (e = epoch_of (bump_sequence ?h0) \<longrightarrow>
          (\<exists>ts qs m. wire j ts qs c3 \<and> shown (ts @ qs) mirror_new = Some m))"
      proof (cases "saturated h \<or> e \<noteq> epoch_of h")
        case True
        then show ?thesis
          using saturated_bump [of ?h0] by (auto simp: saturated_def)
      next
        case False
        then obtain ts qs m where "wire j ts qs c" "shown (ts @ qs @ [x]) mirror_new = Some m"
          using qa e by (auto simp: queueable_def)
        then show ?thesis
          using clear shown_prefix [of ts "qs @ [x]"] shown_other [of er ts] by (metis er_def grid_op.simps(14))
      qed
      have "\<exists>ts qs. wire j ts qs c3"
        using clear qa by (auto simp: queueable_def)
      then have "slot_ok j c4 (bump_sequence ?h0)" "cn_epoch c4 = Some e"
        using snapshot_slot [of "bump_sequence ?h0" j c3 e env "()" c4] assms(1,2) e e3 sh c4(1) by simp_all
      then show ?thesis
        using c4(2) slot_frame [of j c4 "bump_sequence ?h0" h'] by simp
    qed
  qed
qed

section \<open>Every event keeps the invariant\<close>

lemma slot_pending: "cn_epoch c = None \<Longrightarrow> slot_ok j c h \<Longrightarrow> slot_ok j c h'"
  by (simp add: slot_ok_def)

lemma holder_inv_frame:
  assumes "holder_inv j h" "epoch_of h' = epoch_of h" "seq_of h' = seq_of h" "screen_ok (ho_screen h')"
    "hs_cols (ho_screen h') = hs_cols (ho_screen h)" "hs_rows (ho_screen h') = hs_rows (ho_screen h)"
    "ho_connection h' = ho_connection h" "ho_pending_connection h' = ho_pending_connection h"
  shows "holder_inv j h'"
  using assms slot_frame [OF _ assms(2,3,5,6)] by (auto simp: holder_inv_def)

lemma emission_queueable:
  assumes "slot_ok j c h" "cn_epoch c \<noteq> None" "screen_ok (ho_screen h)"
    and "grid_emission (seq_of h, ho_screen h) = Some (i, n, s)"
    and h': "seq_of h' = n" "ho_screen h' = s" "epoch_of h' = epoch_of h"
  shows "queueable j (emitted i) c h'"
proof -
  have n: "n = next_sequence (seq_of h)"
    using emission_total [OF assms(3), of "seq_of h"] assms(4) by auto
  obtain e where e: "cn_epoch c = Some e" "e \<le> epoch_of h" "\<exists>ts qs. wire j ts qs c"
    using assms(1,2) by (auto simp: slot_ok_def)
  have "\<exists>ts qs m. wire j ts qs c \<and> shown (ts @ qs @ [emitted i]) mirror_new = Some m \<and> follows n s m"
    if now: "e = epoch_of h" "\<not> saturated h'"
  proof -
    have "\<not> saturated h"
      using now(2) h' n by (auto simp: saturated_def next_sequence_def split: if_splits)
    then obtain ts qs m where l: "wire j ts qs c" "shown (ts @ qs) mirror_new = Some m" "follows (seq_of h) (ho_screen h) m"
      and ns: "seq_of h \<noteq> - 1"
      using assms(1) e now(1) by (auto simp: slot_ok_def live_def saturated_def)
    obtain m' where "mirror_apply i m = Some (Inr (), m')" "follows n s m'"
      using emission_taken [OF assms(3) l(3) ns assms(4)] by blast
    then have "shown (ts @ qs @ [emitted i]) mirror_new = Some m'" "follows n s m'"
      using shown_append [of "ts @ qs" "[emitted i]"] l(2) by simp_all
    then show ?thesis
      using l(1) by blast
  qed
  then show ?thesis
    using e h' by (auto simp: queueable_def)
qed

lemma emit_inv:
  assumes "holder_inv j h" "he_json env = j" "emit_grid_delta env h = (Inr u, h')"
  shows "holder_inv j h'"
proof -
  define h0 where "h0 = h\<lparr>ho_interactive_grid_budget := ho_interactive_grid_budget h - 1, ho_dirty_since := None\<rparr>"
  have inv0: "holder_inv j h0"
    using assms(1) by (intro holder_inv_frame [OF assms(1)]) (simp_all add: h0_def holder_inv_def)
  show ?thesis
  proof (cases "attached h0")
    case False
    then show ?thesis
      using assms(3) inv0 by (simp add: emit_grid_delta_def h0_def)
  next
    case True
    then obtain c where c: "ho_connection h0 = Some c" "cn_epoch c \<noteq> None"
      by (auto simp: attached_def split: option.splits)
    have ok: "screen_ok (ho_screen h0)" "slot_ok j c h0"
      using inv0 c(1) by (auto simp: holder_inv_def)
    obtain i s where e: "grid_emission (seq_of h0, ho_screen h0) = Some (i, next_sequence (seq_of h0), s)" "screen_ok s"
      "hs_cols s = hs_cols (ho_screen h0)" "hs_rows s = hs_rows (ho_screen h0)"
      using emission_total [OF ok(1)] by metis
    define h1 where "h1 = h0\<lparr>ho_screen := s, ho_state := (ho_state h0)\<lparr>ss_snapshot_sequence := next_sequence (seq_of h0)\<rparr>\<rparr>"
    have q: "queueable j (emitted i) c h1"
      by (rule emission_queueable [OF ok(2) c(2) ok(1) e(1)]) (simp_all add: h1_def)
    have "holder_queue env (emitted i) h1 = (Inr u, h')"
      using assms(3) True e(1)
      unfolding emit_grid_delta_def Let_def h0_def [symmetric] h1_def emitted_def by simp
    then have "(\<forall>c. ho_connection h' = Some c \<longrightarrow> slot_ok j c h' \<and> cn_epoch c \<noteq> None) \<and>
      ho_screen h' = s \<and> epoch_of h' = epoch_of h \<and> ho_pending_connection h' = ho_pending_connection h"
      using holder_queue_inv [of h1 env j "emitted i" u h'] q e(2) c(1) assms(2) by (simp add: h1_def h0_def)
    then show ?thesis
      using assms(1) e(2) slot_pending by (auto simp: holder_inv_def)
  qed
qed

lemma flush_inv:
  assumes "holder_inv j h" "flush_connection as h = (Inr u, h')"
  shows "holder_inv j h'"
proof (cases "ho_connection h")
  case None
  then show ?thesis
    using assms by (simp add: flush_connection_def)
next
  case (Some c)
  obtain r c' where f: "connection_flush as c = (r, c')"
    by fastforce
  have slot: "slot_ok j c h" "cn_epoch c \<noteq> None"
    using assms(1) Some by (auto simp: holder_inv_def)
  have "live j c' h" if "live j c h"
    using that flush_wire [OF f] unfolding live_def by metis
  moreover have "\<exists>ts qs. wire j ts qs c'"
    using slot(1) flush_wire [OF f] unfolding slot_ok_def by metis
  ultimately have "slot_ok j c' h"
    using slot flush_epoch [OF f] by (auto simp: slot_ok_def)
  then have "slot_ok j c' (h\<lparr>ho_connection := Some c'\<rparr>)"
    by (rule slot_frame) simp_all
  moreover have "h' = h\<lparr>ho_connection := Some c'\<rparr> \<or> h' = h\<lparr>ho_connection := None\<rparr>"
    using assms(2) Some f by (auto simp: flush_connection_def split: sum.splits holder_error.splits)
  ultimately show ?thesis
    using assms(1) slot(2) flush_epoch [OF f] slot_pending by (auto simp: holder_inv_def)
qed

lemma feed_ok: "screen_ok s \<Longrightarrow> cursor_inside s v \<Longrightarrow> screen_ok (screen_feed v sq s)"
  by (simp add: screen_ok_def screen_feed_def fits_def cursor_inside_def)

lemma queue_other_inv:
  assumes "holder_inv j h" "he_json env = j" "grid_op x = None" "holder_queue env x h = (Inr u, h')"
  shows "holder_inv j h'"
proof -
  have "queueable j x c h" if "ho_connection h = Some c" for c
    using assms(1,3) that queueable_other [of j c h x] by (simp add: holder_inv_def)
  then have "(\<forall>c. ho_connection h' = Some c \<longrightarrow> slot_ok j c h' \<and> cn_epoch c \<noteq> None) \<and>
      ho_screen h' = ho_screen h \<and> epoch_of h' = epoch_of h \<and> ho_pending_connection h' = ho_pending_connection h"
    using holder_queue_inv [of h env j x u h'] assms by (simp add: holder_inv_def)
  then show ?thesis
    using assms(1) slot_pending by (auto simp: holder_inv_def)
qed

lemma pty_output_inv:
  assumes "holder_inv j h" "he_json env = j" "cursor_inside (ho_screen h) v"
    and "pty_output env io bs v sq now h = (Inr u, h')"
  shows "holder_inv j h'"
proof -
  obtain off lg where a: "remote_log_append io bs (ho_log h) = (Inr off, lg)"
    using assms(4) by (cases "remote_log_append io bs (ho_log h)") (auto simp: pty_output_def split: sum.splits)
  define h1 where "h1 = h\<lparr>ho_log := lg, ho_state := (ho_state h)\<lparr>ss_output_offset := of_nat (rl_tail_offset (fst lg))\<rparr>,
      ho_screen := screen_feed v sq (ho_screen h),
      ho_dirty_since := (case ho_dirty_since h of None \<Rightarrow> Some now | Some t \<Rightarrow> Some t)\<rparr>"
  have inv1: "holder_inv j h1"
    using assms(1,3) by (intro holder_inv_frame [OF assms(1)])
      (simp_all add: h1_def feed_ok holder_inv_def, simp_all add: screen_feed_def)
  let ?x = "MTerminal (frame_output (of_nat off) bs)"
  obtain h2 u2 where h2: "(if attached h1 then holder_queue env ?x h1 else (Inr (), h1)) = (Inr u2, h2)"
    and h': "h' = h2 \<or> h' = h2\<lparr>ho_last_persisted_offset := rl_tail_offset (fst lg)\<rparr>"
    using assms(4) a
    by (auto simp: pty_output_def h1_def [symmetric] Let_def attempt_def split: prod.splits sum.splits if_splits)
  have "holder_inv j h2"
    using h2 inv1 queue_other_inv [OF inv1 assms(2), of ?x] by (auto split: if_splits)
  then show ?thesis
    using h' holder_inv_frame [of j h2 h'] by (auto simp: holder_inv_def)
qed

lemma record_exit_inv:
  assumes "holder_inv j h" "he_json env = j" "record_exit env waited flushed h = (Inr u, h')"
  shows "holder_inv j h'"
proof -
  obtain st msg where "holder_queue env (MProcessExit msg) (h\<lparr>ho_state := (ho_state h)\<lparr>ss_process_state := st,
      ss_output_offset := of_nat (rl_tail_offset (fst (ho_log h)))\<rparr>\<rparr>) = (Inr u, h')" (is "holder_queue _ _ ?h = _")
    using assms(3)
    by (auto simp: record_exit_def Let_def attempt_def split: option.splits pty_exit.splits prod.splits sum.splits if_splits)
  moreover have "holder_inv j ?h"
    using assms(1) by (intro holder_inv_frame [OF assms(1)]) (simp_all add: holder_inv_def)
  ultimately show ?thesis
    using queue_other_inv [OF _ assms(2), of ?h "MProcessExit msg"] by simp
qed

subsection \<open>Messages of a connection\<close>

text \<open>What a message from connection \<open>c\<close> may do to the holder.\<close>

definition message_effect :: "connection \<Rightarrow> holder \<Rightarrow> holder \<Rightarrow> bool" where
  "message_effect c h h' \<longleftrightarrow> ho_connection h' = ho_connection h \<and> ho_pending_connection h' = ho_pending_connection h \<and>
     (screen_ok (ho_screen h) \<longrightarrow> screen_ok (ho_screen h')) \<and> (saturated h \<longrightarrow> saturated h') \<and>
     (epoch_of h' = epoch_of h \<and> seq_of h' = seq_of h \<and> hs_cols (ho_screen h') = hs_cols (ho_screen h) \<and>
        hs_rows (ho_screen h') = hs_rows (ho_screen h) \<or>
      cn_epoch c = Some (epoch_of h) \<and> epoch_of h' = epoch_of h \<or>
      cn_epoch c = None \<and> epoch_of h' = next_sequence (epoch_of h))"

text \<open>Two connections are not controllers at once.\<close>

definition rival :: "connection \<Rightarrow> connection \<Rightarrow> holder \<Rightarrow> bool" where
  "rival c c0 h \<longleftrightarrow> saturated h \<or> cn_epoch c = None \<or> cn_epoch c0 \<noteq> Some (epoch_of h)"

lemma message_effect_refl [intro]: "message_effect c h h"
  by (simp add: message_effect_def)

lemma other_slot:
  assumes "message_effect c h h'" "slot_ok j c0 h" "cn_epoch c0 \<noteq> None" "rival c c0 h"
    and "cn_epoch c' = None \<or> cn_epoch c \<noteq> None \<or> epoch_of h' = next_sequence (epoch_of h)"
  shows "slot_ok j c0 h' \<and> rival c' c0 h'"
proof -
  obtain e0 where e0: "cn_epoch c0 = Some e0" "e0 \<le> epoch_of h"
    using assms(2,3) by (auto simp: slot_ok_def)
  have sat: "saturated h \<longrightarrow> saturated h'"
    using assms(1) by (simp add: message_effect_def)
  have mono: "epoch_of h \<le> epoch_of h'"
    using assms(1) next_sequence_mono(1) [of "epoch_of h"] by (auto simp: message_effect_def)
  consider (sat) "saturated h" | (same) "\<not> saturated h" "epoch_of h' = epoch_of h" "seq_of h' = seq_of h"
      "hs_cols (ho_screen h') = hs_cols (ho_screen h)" "hs_rows (ho_screen h') = hs_rows (ho_screen h)"
    | (ctl) "\<not> saturated h" "cn_epoch c = Some (epoch_of h)" "epoch_of h' = epoch_of h"
    | (new) "\<not> saturated h" "cn_epoch c = None" "epoch_of h' = next_sequence (epoch_of h)"
    using assms(1) unfolding message_effect_def by (cases "saturated h") auto
  then show ?thesis
  proof cases
    case sat
    then have "saturated h'"
      using assms(1) by (simp add: message_effect_def)
    then show ?thesis
      using assms(2) e0 mono by (auto simp: slot_ok_def rival_def)
  next
    case same
    have ne: "epoch_of h < next_sequence (epoch_of h)"
      using same(1) next_sequence_mono(2) by (simp add: saturated_def)
    then have "slot_ok j c0 h'"
      using slot_frame [OF assms(2) same(2-5)] by simp
    moreover have "rival c' c0 h'"
      using assms(4,5) same(1,2) ne by (auto simp: rival_def)
    ultimately show ?thesis
      by simp
  next
    case ctl
    then have "cn_epoch c0 \<noteq> Some (epoch_of h')"
      using assms(4) by (simp add: rival_def)
    then show ?thesis
      using slot_stale [OF assms(2) e0(1)] e0(1) ctl(3) by (simp add: rival_def)
  next
    case new
    then have "epoch_of h < epoch_of h'"
      using next_sequence_mono(2) [of "epoch_of h"] by (simp add: saturated_def)
    then have "e0 \<noteq> epoch_of h'"
      using e0(2) by auto
    then show ?thesis
      using slot_stale [OF assms(2) e0(1) _ mono] e0(1) by (simp add: rival_def)
  qed
qed

lemma flush_input_frame:
  "flush_input as h = (r, h') \<Longrightarrow> ho_screen h' = ho_screen h \<and> ho_state h' = ho_state h \<and>
     ho_connection h' = ho_connection h \<and> ho_pending_connection h' = ho_pending_connection h"
  by (induction "as" h arbitrary: r h' rule: flush_input.induct)
    (auto simp: Let_def split: if_splits write_result.splits)

lemma write_input_frame:
  "write_input env bs h = (r, h') \<Longrightarrow> ho_screen h' = ho_screen h \<and> ho_state h' = ho_state h \<and>
     ho_connection h' = ho_connection h \<and> ho_pending_connection h' = ho_pending_connection h"
  by (auto simp: write_input_def split: if_splits dest!: flush_input_frame)

lemma write_input_effect: "write_input env bs h = (r, h') \<Longrightarrow> message_effect c h h'"
  by (drule write_input_frame) (simp add: message_effect_def saturated_def)

text \<open>The emulator keeps its cursor on the screen when it is resized.\<close>

definition env_ok :: "holder_env \<Rightarrow> bool" where
  "env_ok env \<longleftrightarrow> (\<forall>nc nr v. he_pty_resized env nc nr = Some v \<longrightarrow>
     tv_cursor_column v < unat nc \<and> tv_cursor_line v < int (unat nr))"

lemma resize_ok:
  assumes "screen_ok s" "validate_terminal_dimensions nc nr = Inr ()"
    and "tv_cursor_column v < unat nc" "tv_cursor_line v < int (unat nr)"
  shows "screen_ok (screen_resize v (unat nc) (unat nr) s)"
proof -
  have "0 < unat nc" "0 < unat nr"
    using assms(2) by (auto simp: validate_terminal_dimensions_def unat_gt_0 split: if_splits)
  then show ?thesis
    using assms unat_u16_less [of nc] unat_u16_less [of nr]
    by (simp add: screen_ok_def screen_resize_def fits_def cursor_inside_def)
qed

lemma resize_result:
  assumes "handle_resize env f (c, h) = (r, c', h')" "env_ok env" "screen_ok (ho_screen h)"
  obtains (refused) e where "r = Inl e" "c' = c" "h' = h"
  | (resized) h1 where "h' = bump_sequence h1" "screen_ok (ho_screen h1)" "epoch_of h1 = epoch_of h"
      "seq_of h1 = seq_of h" "ho_connection h1 = ho_connection h" "ho_pending_connection h1 = ho_pending_connection h"
      "r = Inr () \<Longrightarrow> queue_snapshot env h' c = (Inr (), c')" "cn_epoch c' = cn_epoch c"
proof -
  consider (bad) e where "r = Inl e" "c' = c" "h' = h"
    | (good) nc nr v where "validate_terminal_dimensions nc nr = Inr ()" "he_pty_resized env nc nr = Some v"
      "attempt (write_state env, c, bump_sequence (h\<lparr>ho_pty := ho_pty h @ [PtySize nc nr],
                   ho_screen := screen_resize v (unat nc) (unat nr) (ho_screen h),
                   ho_state := (ho_state h)\<lparr>ss_cols := nc, ss_rows := nr\<rparr>\<rparr>)) (\<lambda>_ (c, h).
                  case queue_snapshot env h c of (r, c) \<Rightarrow> (r, c, h)) = (r, c', h')"
    using assms(1) unfolding handle_resize_def Let_def
    by (auto split: option.splits prod.splits if_splits)
  then show ?thesis
  proof cases
    case bad
    then show ?thesis by (rule refused)
  next
    case good
    define h1 where "h1 = h\<lparr>ho_pty := ho_pty h @ [PtySize nc nr],
                   ho_screen := screen_resize v (unat nc) (unat nr) (ho_screen h),
                   ho_state := (ho_state h)\<lparr>ss_cols := nc, ss_rows := nr\<rparr>\<rparr>"
    have "screen_ok (ho_screen h1)"
      using assms(2,3) good(1,2) resize_ok by (simp add: h1_def env_ok_def)
    moreover have "h' = bump_sequence h1" "r = Inr () \<Longrightarrow> queue_snapshot env h' c = (Inr (), c')" "cn_epoch c' = cn_epoch c"
      using good(3) queue_frame [of "he_json env" _ c] unfolding h1_def [symmetric]
      by (auto simp: attempt_def write_state_def queue_snapshot_def split: prod.splits sum.splits if_splits)
    ultimately show ?thesis
      using resized [of h1] by (simp add: h1_def)
  qed
qed

subsection \<open>The handshake\<close>

text \<open>A connection with messages queued, none of them of the grid, and nothing sent.\<close>

definition quiet :: "remote_json \<Rightarrow> connection \<Rightarrow> bool" where
  "quiet j c \<longleftrightarrow> (\<exists>qs. wire j [] qs c \<and> list_all (\<lambda>x. grid_op x = None) qs)"

lemma shown_quiet: "list_all (\<lambda>x. grid_op x = None) qs \<Longrightarrow> shown qs m = Some m"
  by (induction qs) auto

lemma quiet_queue:
  assumes "connection_queue j x c = (Inr u, c')" "quiet j c" "grid_op x = None"
  shows "quiet j c'"
proof -
  obtain qs where "wire j [] qs c" "list_all (\<lambda>x. grid_op x = None) qs"
    using assms(2) by (auto simp: quiet_def)
  then show ?thesis
    using queue_wire [OF assms(1)] assms(3) unfolding quiet_def by (intro exI [of _ "qs @ [x]"]) auto
qed

lemma replay_loop_quiet:
  "replay_loop j lg tail off c = (r, c') \<Longrightarrow> cn_epoch c' = cn_epoch c \<and> (r = Inr u \<longrightarrow> quiet j c \<longrightarrow> quiet j c')"
proof (induction j lg tail off c arbitrary: r c' rule: replay_loop.induct)
  case (1 j lg tail off c)
  show ?case
  proof (cases "off < tail")
    case False
    then show ?thesis
      using 1(2) by (simp add: replay_loop.simps)
  next
    case True
    show ?thesis
    proof (cases "remote_log_read off (64 * 1024) lg")
      case (Inl e)
      then show ?thesis
        using 1(2) True by (simp add: replay_loop.simps)
    next
      case (Inr p)
      obtain actual bs where p: "p = (actual, bs)"
        by fastforce
      let ?x = "MTerminal (frame_output (of_nat actual) bs)"
      obtain r1 c1 where q: "connection_queue j ?x c = (r1, c1)"
        by fastforce
      have ep: "cn_epoch c1 = cn_epoch c"
        using queue_frame [OF q] by simp
      show ?thesis
      proof (cases "bs = []")
        case True
        then show ?thesis
          using 1(2) \<open>off < tail\<close> Inr p by (simp add: replay_loop.simps)
      next
        case False
        have loop: "replay_loop j lg tail off c = (case r1 of Inl e \<Rightarrow> (Inl e, c1)
            | Inr _ \<Rightarrow> replay_loop j lg tail (actual + length bs) c1)"
          using True Inr p False q by (subst replay_loop.simps) (simp split: sum.splits)
        show ?thesis
        proof (cases r1)
          case (Inl e)
          then show ?thesis
            using 1(2) loop ep by auto
        next
          case (Inr u1)
          then have "replay_loop j lg tail (actual + length bs) c1 = (r, c')"
            using 1(2) loop by simp
          then show ?thesis
            using 1(1) [OF True \<open>remote_log_read off (64 * 1024) lg = Inr p\<close> p [symmetric] False q [symmetric] Inr]
              ep quiet_queue [of j ?x c u1 c1] q Inr by auto
        qed
      qed
    qed
  qed
qed

lemma queue_replay_quiet:
  assumes "queue_replay env a h c = (Inr u, c')" "quiet (he_json env) c"
  shows "quiet (he_json env) c'" "cn_epoch c' = cn_epoch c"
  using assms replay_loop_quiet [where j = "he_json env"] quiet_queue [where j = "he_json env"] queue_frame
  by (auto simp: queue_replay_def Let_def attempt_def split: if_splits prod.splits sum.splits)

text \<open>The steps of a handshake after its checks.\<close>

definition granted :: "holder \<Rightarrow> holder" where
  "granted h = h\<lparr>ho_state := (ho_state h)\<lparr>ss_controller_epoch := next_sequence (epoch_of h)\<rparr>\<rparr>"

lemma granted_simps [simp]:
  "epoch_of (granted h) = next_sequence (epoch_of h)" "seq_of (granted h) = seq_of h"
  "ho_screen (granted h) = ho_screen h" "ho_connection (granted h) = ho_connection h"
  "ho_pending_connection (granted h) = ho_pending_connection h"
  by (simp_all add: granted_def)

lemma saturated_granted: "saturated h \<Longrightarrow> saturated (granted h)"
  by (auto simp: saturated_def next_sequence_def)

lemma handshake_result:
  assumes "handshake env hl (c, h) = (r, c', h')"
  obtains (refused) e where "holder_check env hl h = Inl e" "r = Inl e" "c' = c" "h' = h"
  | (failed) e where "holder_check env hl h = Inr ()" "r = Inl e" "h' \<in> {granted h, bump_sequence (granted h)}"
  | (accepted) c1 c2 c3 x y where "holder_check env hl h = Inr ()" "r = Inr ()" "h' = bump_sequence (granted h)"
      "connection_queue (he_json env) x (c\<lparr>cn_epoch := Some (epoch_of (granted h))\<rparr>) = (Inr (), c1)" "grid_op x = None"
      "queue_replay env (last_acknowledged_output_offset hl) (granted h) c1 = (Inr (), c2)"
      "queue_snapshot env h' c2 = (Inr (), c3)" "connection_queue (he_json env) y c3 = (Inr (), c')" "grid_op y = None"
proof (cases "holder_check env hl h")
  case (Inl e)
  then show ?thesis
    using assms by (intro refused [of e]) (simp_all add: handshake_def attempt_def)
next
  case (Inr u)
  let ?h1 = "granted h" and ?h2 = "bump_sequence (granted h)" and ?j = "he_json env"
  define ack where "ack = MHelloAck \<lparr>ack_protocol = CURRENT, ack_holder_build_id = he_build_id env,
         ack_session_incarnation = ss_session_incarnation (ho_state ?h1),
         ack_capabilities = PHASE_ONE_HOLDER_CAPABILITIES, ack_controller_epoch = epoch_of ?h1,
         ack_process_state = ss_process_state (ho_state ?h1), ack_output_offset = ss_output_offset (ho_state ?h1),
         ack_snapshot_sequence = seq_of ?h1\<rparr>"
  define ok where "ok = MControlGranted \<lparr>cg_controller_epoch = epoch_of ?h1\<rparr>"
  obtain r1 c1 where q1: "connection_queue ?j ack (c\<lparr>cn_epoch := Some (epoch_of ?h1)\<rparr>) = (r1, c1)" by fastforce
  obtain r2 c2 where q2: "queue_replay env (last_acknowledged_output_offset hl) ?h1 c1 = (r2, c2)" by fastforce
  obtain r3 c3 where q3: "queue_snapshot env ?h2 c2 = (r3, c3)" by fastforce
  obtain r4 c4 where q4: "connection_queue ?j ok c3 = (r4, c4)" by fastforce
  have "handshake env hl (c, h) =
      (case r1 of Inl e \<Rightarrow> (Inl e, c1, ?h1) | Inr _ \<Rightarrow>
       case r2 of Inl e \<Rightarrow> (Inl e, c2, ?h1) | Inr _ \<Rightarrow>
       case r3 of Inl e \<Rightarrow> (Inl e, c3, ?h2) | Inr _ \<Rightarrow>
       case r4 of Inl e \<Rightarrow> (Inl e, c4, ?h2) | Inr _ \<Rightarrow> (write_state env, c4, ?h2))"
    using Inr q1 q2 q3 q4
    by (simp add: handshake_def attempt_def queue_on_def Let_def granted_def ack_def ok_def split: sum.splits)
  note res = this [unfolded assms]
  show ?thesis
  proof (cases r)
    case (Inl e)
    then have "h' \<in> {?h1, ?h2}"
      using res by (auto simp: write_state_def split: sum.splits if_splits)
    then show ?thesis
      using failed [of e] Inl \<open>holder_check env hl h = Inr u\<close> by simp
  next
    case (Inr v)
    then have rs: "r1 = Inr ()" "r2 = Inr ()" "r3 = Inr ()" "r4 = Inr ()" "c' = c4" "h' = ?h2"
      using res by (cases r1; cases r2; cases r3; cases r4; simp)+
    show ?thesis
      by (rule accepted [of ack c1 c2 c3 ok])
        (use q1 q2 q3 q4 rs Inr \<open>holder_check env hl h = Inr u\<close> in \<open>simp_all add: ack_def ok_def\<close>)
  qed
qed

lemma handshake_effect:
  assumes "handshake env hl (c, h) = (r, c', h')" "cn_epoch c = None"
  shows "message_effect c h h'"
  using assms saturated_granted saturated_bump
  by (cases rule: handshake_result [OF assms(1)]) (auto simp: message_effect_def)

lemma handshake_slot:
  assumes "handshake env hl (c, h) = (Inr u, c', h')" "cn_epoch c = None" "slot_ok (he_json env) c h"
    "screen_ok (ho_screen h)"
  shows "slot_ok (he_json env) c' h' \<and> cn_epoch c' \<noteq> None \<and> epoch_of h' = next_sequence (epoch_of h)"
proof -
  let ?j = "he_json env"
  obtain c1 c2 c3 x y where a: "h' = bump_sequence (granted h)"
    "connection_queue ?j x (c\<lparr>cn_epoch := Some (epoch_of (granted h))\<rparr>) = (Inr (), c1)" "grid_op x = None"
    "queue_replay env (last_acknowledged_output_offset hl) (granted h) c1 = (Inr (), c2)"
    "queue_snapshot env h' c2 = (Inr (), c3)" "connection_queue ?j y c3 = (Inr (), c')" "grid_op y = None"
    using assms(1) by (cases rule: handshake_result [OF assms(1)]) auto
  have "wire ?j [] [] (c\<lparr>cn_epoch := Some (epoch_of (granted h))\<rparr>)"
    using assms(2,3) by (auto simp: slot_ok_def wire_def)
  then have "quiet ?j (c\<lparr>cn_epoch := Some (epoch_of (granted h))\<rparr>)"
    by (auto simp: quiet_def)
  then have q2: "quiet ?j c2" and e2: "cn_epoch c2 = Some (epoch_of h')"
    using queue_replay_quiet [OF a(4)] quiet_queue [OF a(2) _ a(3)] queue_frame [OF a(2)] a(1) by simp_all
  obtain qs where qs: "wire ?j [] qs c2" "list_all (\<lambda>x. grid_op x = None) qs"
    using q2 by (auto simp: quiet_def)
  then have "\<exists>ts qs m. wire ?j ts qs c2 \<and> shown (ts @ qs) mirror_new = Some m"
    using shown_quiet [OF qs(2)] by (metis append_Nil)
  then have "slot_ok ?j c3 h'" "cn_epoch c3 = Some (epoch_of h')"
    using snapshot_slot [of h' ?j c2 "epoch_of h'" env "()" c3] a(1,5) e2 qs(1) assms(4) by auto
  then show ?thesis
    using queue_slot [OF queueable_other [OF _ _ a(7)] a(6)] a(1) by simp
qed

subsection \<open>Any message\<close>

definition kept :: "holder_env \<Rightarrow> connection \<times> holder \<Rightarrow> (holder_error, unit) result \<times> connection \<times> holder \<Rightarrow> bool" where
  "kept env p q \<longleftrightarrow> (case (p, q) of ((c, h), (r, c', h')) \<Rightarrow> message_effect c h h' \<and>
     (r = Inr () \<longrightarrow> slot_ok (he_json env) c' h' \<and>
       (cn_epoch c' = None \<or> cn_epoch c \<noteq> None \<or> epoch_of h' = next_sequence (epoch_of h))))"

lemma kept_refusal: "kept env (c, h) (Inl e, c, h)"
  by (auto simp: kept_def)

lemma kept_queue:
  assumes "slot_ok (he_json env) c h" "cn_epoch c \<noteq> None" "grid_op x = None"
  shows "kept env (c, h) (queue_on env x (c, h))"
proof -
  obtain r c' where q: "connection_queue (he_json env) x c = (r, c')"
    by fastforce
  show ?thesis
    using queue_slot(1) [OF queueable_other [OF assms]] q assms(2)
    by (cases r) (auto simp: queue_on_def kept_def)
qed

lemma kept_input:
  assumes "slot_ok (he_json env) c h" "cn_epoch c \<noteq> None"
  shows "kept env (c, h) (case write_input env bs h of (r, h') \<Rightarrow> (r, c, h'))"
proof -
  obtain r h' where w: "write_input env bs h = (r, h')"
    by fastforce
  then have "slot_ok (he_json env) c h'"
    using slot_frame [OF assms(1), of h'] write_input_frame [OF w] by simp
  then show ?thesis
    using write_input_effect [OF w] assms(2) w by (simp add: kept_def)
qed

lemma kept_resize:
  assumes "env_ok env" "screen_ok (ho_screen h)" "slot_ok (he_json env) c h" "cn_epoch c = Some (epoch_of h)"
  shows "kept env (c, h) (handle_resize env f (c, h))"
proof -
  obtain r c' h' where q: "handle_resize env f (c, h) = (r, c', h')"
    using prod_cases3 by blast
  show ?thesis
  proof (cases rule: resize_result [OF q assms(1,2)])
    case (1 e)
    then show ?thesis
      using q kept_refusal by simp
  next
    case (2 h1)
    have e: "message_effect c h h'"
      using 2(1-6) assms(4) saturated_bump [of h1] by (auto simp: message_effect_def saturated_def)
    have "slot_ok (he_json env) c' h'" if "r = Inr ()"
    proof (rule snapshot_slot(1) [OF _ _ _ _ _ refl 2(7) [OF that]])
      show "\<exists>ts qs. wire (he_json env) ts qs c"
        using assms(3) by (simp add: slot_ok_def)
      show "cn_epoch c = Some (epoch_of h)" "epoch_of h \<le> epoch_of h'" "screen_ok (ho_screen h')"
        using assms(4) 2(1-3) by simp_all
      show "saturated h' \<or> (epoch_of h = epoch_of h' \<longrightarrow>
          (\<exists>ts qs m. wire (he_json env) ts qs c \<and> shown (ts @ qs) mirror_new = Some m))"
        using assms(3,4) e by (auto simp: slot_ok_def live_def message_effect_def)
    qed
    then show ?thesis
      using e q assms(4) by (simp add: kept_def)
  qed
qed

lemma kept_frame:
  assumes "env_ok env" "screen_ok (ho_screen h)" "slot_ok (he_json env) c h" "cn_epoch c = Some (epoch_of h)"
  shows "kept env (c, h) (handle_frame env f (c, h))"
  using kept_resize [OF assms] kept_input [OF assms(3)] kept_queue [OF assms(3)] kept_refusal assms(4)
  by (cases "frame_type f") (auto simp: handle_frame_def split: option.splits)

lemma kept_message:
  assumes "env_ok env" "screen_ok (ho_screen h)" "slot_ok (he_json env) c h"
  shows "kept env (c, h) (handle_message env x (c, h))"
proof (cases "cn_epoch c")
  case None
  obtain r c' h' where q: "handle_message env x (c, h) = (r, c', h')"
    using prod_cases3 by blast
  show ?thesis
  proof (cases "\<exists>hl. x = MHello hl")
    case True
    then obtain hl where "handshake env hl (c, h) = (r, c', h')"
      using None q by (auto simp: handle_message_def)
    then show ?thesis
      using handshake_effect [of env hl c h r c' h'] handshake_slot [of env hl c h "()" c' h'] assms(2,3) None q
      by (cases r) (auto simp: kept_def)
  next
    case False
    then show ?thesis
      using None kept_refusal by (cases x) (auto simp: handle_message_def)
  qed
next
  case (Some e)
  show ?thesis
  proof (cases "e = epoch_of h")
    case False
    then show ?thesis
      using Some kept_refusal by (simp add: handle_message_def)
  next
    case True
    have "kept env (c, h) (Inr (), c, h\<lparr>ho_pty := fx\<rparr>)" for fx
      using assms(3) slot_frame [OF assms(3), of "h\<lparr>ho_pty := fx\<rparr>"] Some
      by (simp add: kept_def message_effect_def saturated_def)
    then show ?thesis
      using Some True kept_refusal kept_frame [OF assms] kept_queue [OF assms(3)]
      by (cases x) (simp_all add: handle_message_def)
  qed
qed

text \<open>A connection keeps the epoch it was given.\<close>

lemma queue_epoch: "cn_epoch (snd (connection_queue j x c)) = cn_epoch c"
  by (cases rule: connection_queue_cases [of j x c]) simp_all

lemma handle_message_epoch:
  assumes "handle_message env x (c, h) = (r, c', h')" "cn_epoch c \<noteq> None"
  shows "cn_epoch c' = cn_epoch c"
proof -
  obtain e where e: "cn_epoch c = Some e"
    using assms(2) by blast
  have q: "cn_epoch (fst (snd (queue_on env y (c, h)))) = cn_epoch c" for y
    by (simp add: queue_on_def case_prod_beta queue_epoch)
  have s: "cn_epoch (fst (snd (handle_resize env f (c, h)))) = cn_epoch c" for f
    by (simp add: handle_resize_def Let_def attempt_def write_state_def queue_snapshot_def case_prod_beta
        queue_epoch split: option.split)
  have "cn_epoch (fst (snd (handle_frame env f (c, h)))) = cn_epoch c" for f
    using q s by (auto simp: handle_frame_def split: frame_type.splits option.splits prod.splits)
  then have "cn_epoch (fst (snd (handle_message env x (c, h)))) = cn_epoch c"
    using e q by (auto simp: handle_message_def split: remote_message.splits)
  then show ?thesis
    using assms(1) by simp
qed

lemma handle_messages_epoch:
  "handle_messages env xs p = (gone, c', h') \<Longrightarrow> cn_epoch (fst p) \<noteq> None \<Longrightarrow> cn_epoch c' = cn_epoch (fst p)"
proof (induction xs arbitrary: p)
  case (Cons x xs)
  obtain c h where p: "p = (c, h)"
    by fastforce
  obtain r c1 h1 where m: "handle_message env x (c, h) = (r, c1, h1)"
    using prod_cases3 by blast
  show ?case
    using Cons handle_message_epoch [OF m] p m by (cases r) auto
qed simp

lemma read_messages_epoch:
  "read_messages env rs p = (gone, c', h') \<Longrightarrow> cn_epoch (fst p) \<noteq> None \<Longrightarrow> cn_epoch c' = cn_epoch (fst p)"
proof (induction rs arbitrary: p)
  case (Cons r rs)
  then show ?case
    by (auto split: read_result.splits prod.splits sum.splits bool.splits dest!: handle_messages_epoch)
qed simp

text \<open>A connection being read, next to the holder it was taken from.\<close>

definition reading :: "holder_env \<Rightarrow> connection \<times> holder \<Rightarrow> bool" where
  "reading env p \<longleftrightarrow> (case p of (c, h) \<Rightarrow> holder_inv (he_json env) h \<and> slot_ok (he_json env) c h \<and>
     (\<forall>c0. ho_connection h = Some c0 \<longrightarrow> rival c c0 h))"

lemma effect_inv:
  assumes "holder_inv j h" "message_effect c h h'" "\<forall>c0. ho_connection h = Some c0 \<longrightarrow> rival c c0 h"
    and "cn_epoch c' = None \<or> cn_epoch c \<noteq> None \<or> epoch_of h' = next_sequence (epoch_of h)"
  shows "holder_inv j h'" "\<forall>c0. ho_connection h' = Some c0 \<longrightarrow> rival c' c0 h'"
proof -
  have eq: "ho_connection h' = ho_connection h" "ho_pending_connection h' = ho_pending_connection h"
    "screen_ok (ho_screen h')"
    using assms(1,2) by (auto simp: message_effect_def holder_inv_def)
  have "slot_ok j c0 h' \<and> rival c' c0 h'" if "ho_connection h = Some c0" for c0
    using other_slot [OF assms(2) _ _ _ assms(4), of j c0] assms(1,3) that by (simp add: holder_inv_def)
  then show "holder_inv j h'" "\<forall>c0. ho_connection h' = Some c0 \<longrightarrow> rival c' c0 h'"
    using eq assms(1) slot_pending by (auto simp: holder_inv_def)
qed

lemma reading_message:
  assumes "env_ok env" "reading env (c, h)" "handle_message env x (c, h) = (r, c', h')"
  shows "holder_inv (he_json env) h'" "r = Inr () \<Longrightarrow> reading env (c', h')"
proof -
  have k: "message_effect c h h'" and ok: "r = Inr () \<Longrightarrow> slot_ok (he_json env) c' h' \<and>
      (cn_epoch c' = None \<or> cn_epoch c \<noteq> None \<or> epoch_of h' = next_sequence (epoch_of h))"
    using kept_message [of env h c x] assms by (auto simp: kept_def reading_def holder_inv_def)
  have r: "holder_inv (he_json env) h" "\<forall>c0. ho_connection h = Some c0 \<longrightarrow> rival c c0 h"
    using assms(2) by (auto simp: reading_def)
  show "holder_inv (he_json env) h'"
    using effect_inv(1) [OF r(1) k r(2), of connection_new] by (simp add: connection_new_def)
  show "reading env (c', h')" if "r = Inr ()"
    using effect_inv [OF r(1) k r(2), of c'] ok [OF that] by (simp add: reading_def)
qed

lemma reading_messages:
  assumes "env_ok env" "reading env p" "handle_messages env xs p = (gone, c', h')"
  shows "holder_inv (he_json env) h' \<and> (\<not> gone \<longrightarrow> reading env (c', h'))"
  using assms(2,3)
proof (induction xs arbitrary: p)
  case Nil
  then show ?case
    by (auto simp: reading_def)
next
  case (Cons x xs)
  obtain c h where p: "p = (c, h)"
    by fastforce
  obtain r c1 h1 where m: "handle_message env x (c, h) = (r, c1, h1)"
    using prod_cases3 by blast
  show ?case
  proof (cases r)
    case (Inl e)
    then show ?thesis
      using Cons.prems reading_message(1) [OF assms(1) _ m] m p by auto
  next
    case (Inr u)
    then have "reading env (c1, h1)" "handle_messages env xs (c1, h1) = (gone, c', h')"
      using Cons.prems reading_message(2) [OF assms(1) _ m] m p by auto
    then show ?thesis
      by (rule Cons.IH)
  qed
qed

lemma wire_codec [simp]: "wire j ts qs (c\<lparr>cn_codec := k\<rparr>) = wire j ts qs c"
  by (simp add: wire_def)

lemma slot_codec: "slot_ok j (c\<lparr>cn_codec := k\<rparr>) h = slot_ok j c h"
  by (simp add: slot_ok_def live_def split: option.split)

lemma reading_codec: "reading env (c\<lparr>cn_codec := k\<rparr>, h) = reading env (c, h)"
  by (simp add: reading_def slot_codec rival_def)

lemma read_messages_inv:
  assumes "env_ok env" "reading env p" "read_messages env rs p = (gone, c', h')"
  shows "holder_inv (he_json env) h' \<and> (\<not> gone \<longrightarrow> reading env (c', h'))"
  using assms(2,3)
proof (induction rs arbitrary: p)
  case Nil
  then show ?case
    by (auto simp: reading_def)
next
  case (Cons r rs)
  obtain c h where p: "p = (c, h)"
    by fastforce
  have inv: "holder_inv (he_json env) h"
    using Cons.prems(1) by (simp add: reading_def p)
  show ?case
  proof (cases r)
    case (Data bs)
    obtain ms codec where f: "remote_feed (he_json env) (cn_codec c) bs = (ms, codec)"
      by fastforce
    show ?thesis
    proof (cases ms)
      case (Inl e)
      then show ?thesis
        using Cons.prems(2) p Data f inv by auto
    next
      case (Inr xs)
      obtain gone1 c1 h1 where m: "handle_messages env xs (c\<lparr>cn_codec := codec\<rparr>, h) = (gone1, c1, h1)"
        using prod_cases3 by blast
      have "reading env (c\<lparr>cn_codec := codec\<rparr>, h)"
        using Cons.prems(1) by (simp add: p reading_codec)
      then have "holder_inv (he_json env) h1 \<and> (\<not> gone1 \<longrightarrow> reading env (c1, h1))"
        using reading_messages [OF assms(1) _ m] by simp
      then show ?thesis
        using Cons.IH [of "(c1, h1)"] Cons.prems(2) p Data f Inr m by (cases gone1) auto
    qed
  qed (use Cons inv p in auto)
qed

lemma read_connection_inv:
  assumes "env_ok env" "holder_inv (he_json env) h"
  shows "holder_inv (he_json env) (read_connection env rs h)"
proof (cases "ho_connection h")
  case None
  then show ?thesis
    using assms by (simp add: read_connection_def)
next
  case (Some c)
  let ?h0 = "h\<lparr>ho_connection := None\<rparr>"
  obtain gone c' h' where m: "read_messages env rs (c, ?h0) = (gone, c', h')"
    using prod_cases3 by blast
  have "slot_ok (he_json env) c ?h0"
    using assms(2) Some slot_frame [of "he_json env" c h ?h0] by (simp add: holder_inv_def)
  moreover have "holder_inv (he_json env) ?h0"
    using assms(2) slot_pending by (auto simp: holder_inv_def)
  ultimately have r: "holder_inv (he_json env) h' \<and> (\<not> gone \<longrightarrow> reading env (c', h'))"
    by (intro read_messages_inv [OF assms(1) _ m]) (simp add: reading_def)
  have "cn_epoch c \<noteq> None"
    using assms(2) Some by (simp add: holder_inv_def)
  then have ep: "cn_epoch c' \<noteq> None"
    using read_messages_epoch [OF m] by simp
  have "slot_ok (he_json env) c' (h'\<lparr>ho_connection := Some c'\<rparr>)" if "\<not> gone"
    using slot_frame [of "he_json env" c' h' "h'\<lparr>ho_connection := Some c'\<rparr>"] r that by (simp add: reading_def)
  then show ?thesis
    using Some m r ep slot_pending by (auto simp: read_connection_def holder_inv_def)
qed

lemma read_pending_inv:
  assumes "env_ok env" "holder_inv (he_json env) h"
  shows "holder_inv (he_json env) (read_pending_connection env rs h)"
proof (cases "ho_pending_connection h")
  case None
  then show ?thesis
    using assms by (simp add: read_pending_connection_def)
next
  case (Some c)
  let ?h0 = "h\<lparr>ho_pending_connection := None\<rparr>"
  obtain gone c' h' where m: "read_messages env rs (c, ?h0) = (gone, c', h')"
    using prod_cases3 by blast
  have "slot_ok (he_json env) c ?h0" "cn_epoch c = None"
    using assms(2) Some slot_frame [of "he_json env" c h ?h0] by (simp_all add: holder_inv_def)
  moreover have "holder_inv (he_json env) ?h0"
    using assms(2) slot_frame [of "he_json env" _ h ?h0] by (simp add: holder_inv_def)
  ultimately have r: "holder_inv (he_json env) h' \<and> (\<not> gone \<longrightarrow> reading env (c', h'))"
    by (intro read_messages_inv [OF assms(1) _ m]) (simp add: reading_def rival_def)
  then have ok: "slot_ok (he_json env) c' h1" if "\<not> gone" "epoch_of h1 = epoch_of h'" "seq_of h1 = seq_of h'"
      "ho_screen h1 = ho_screen h'" for h1
    using that slot_frame [of "he_json env" c' h' h1] by (simp add: reading_def)
  have "holder_inv (he_json env) (h'\<lparr>ho_connection := Some c'\<rparr>)" if "\<not> gone" "cn_epoch c' \<noteq> None"
    using r ok [OF that(1), of "h'\<lparr>ho_connection := Some c'\<rparr>"] that slot_pending by (auto simp: holder_inv_def)
  moreover have "holder_inv (he_json env) (h'\<lparr>ho_pending_connection := Some c'\<rparr>)" if "\<not> gone" "cn_epoch c' = None"
    using r ok [OF that(1), of "h'\<lparr>ho_pending_connection := Some c'\<rparr>"] that
      slot_frame [of "he_json env" _ h' "h'\<lparr>ho_pending_connection := Some c'\<rparr>"] by (simp add: holder_inv_def)
  ultimately show ?thesis
    using Some m r by (auto simp: read_pending_connection_def)
qed

lemma accept_inv:
  assumes "holder_inv j h"
  shows "holder_inv j (accept_connection h)"
proof -
  have "slot_ok j connection_new (accept_connection h)"
    using wire_new by (auto simp: slot_ok_def connection_new_def)
  then show ?thesis
    using assms slot_frame [of j _ h "accept_connection h"]
    by (auto simp: holder_inv_def accept_connection_def) (auto simp: connection_new_def)
qed

end
