(* ===== verification/Holder_History.thy ===== *)
theory Holder_History
  imports Holder_Stream
begin

text \<open>
  Histories of the remote holder: the loop of \<open>Holder::run\<close> as a step relation over sockets that become
  ready, terminal output and timers. The invariant of \<^theory_text>\<open>Holder_Stream\<close> holds along every
  history, whatever the peers and the operating system do.
\<close>

section \<open>Histories\<close>

definition session_state_new :: "str \<Rightarrow> str \<Rightarrow> u32 \<Rightarrow> u16 \<Rightarrow> u16 \<Rightarrow> session_state" where
  "session_state_new session_id incarnation pid nc nr = \<lparr>ss_session_id = session_id, ss_session_incarnation = incarnation,
     ss_process_state = Running pid, ss_cols = nc, ss_rows = nr, ss_output_offset = 0, ss_snapshot_sequence = 0,
     ss_controller_epoch = 0\<rparr>"

definition holder_new :: "term_view \<Rightarrow> remote_log \<times> disk_state \<Rightarrow> session_state \<Rightarrow> holder" where
  "holder_new v lg st = \<lparr>ho_pty = [], ho_screen = screen_new v (unat (ss_cols st)) (unat (ss_rows st)), ho_log = lg,
     ho_state = st\<lparr>ss_output_offset := of_nat (rl_tail_offset (fst lg))\<rparr>, ho_connection = None,
     ho_pending_connection = None, ho_pending_input = \<lparr>pb_bytes = [], pb_consumed = 0\<rparr>, ho_dirty_since = None,
     ho_interactive_grid_budget = 0, ho_last_persisted_offset = 0\<rparr>"

inductive holder_step :: "remote_json \<Rightarrow> holder \<Rightarrow> holder \<Rightarrow> bool" for j where
  accept: "holder_step j h (accept_connection h)"
| pending: "env_ok env \<Longrightarrow> he_json env = j \<Longrightarrow> holder_step j h (read_pending_connection env rs h)"
| controller: "env_ok env \<Longrightarrow> he_json env = j \<Longrightarrow> holder_step j h (read_connection env rs h)"
| flush: "flush_connection as h = (Inr (), h') \<Longrightarrow> holder_step j h h'"
| input: "flush_input as h = (Inr (), h') \<Longrightarrow> holder_step j h h'"
| out: "he_json env = j \<Longrightarrow> cursor_inside (ho_screen h) v \<Longrightarrow>
    pty_output env io bs v sq now h = (Inr (), h') \<Longrightarrow> holder_step j h h'"
| exited: "he_json env = j \<Longrightarrow> record_exit env waited flushed h = (Inr (), h') \<Longrightarrow> holder_step j h h'"
| grid: "he_json env = j \<Longrightarrow> grid_due now h \<Longrightarrow> emit_grid_delta env h = (Inr (), h') \<Longrightarrow> holder_step j h h'"

inductive reachable :: "remote_json \<Rightarrow> holder \<Rightarrow> bool" for j where
  start: "validate_terminal_dimensions nc nr = Inr () \<Longrightarrow> tv_cursor_column v < unat nc \<Longrightarrow>
    tv_cursor_line v < int (unat nr) \<Longrightarrow> reachable j (holder_new v lg (session_state_new sid inc pid nc nr))"
| step: "reachable j h \<Longrightarrow> holder_step j h h' \<Longrightarrow> reachable j h'"

lemma holder_new_inv:
  assumes "validate_terminal_dimensions nc nr = Inr ()" "tv_cursor_column v < unat nc" "tv_cursor_line v < int (unat nr)"
  shows "holder_inv j (holder_new v lg (session_state_new sid inc pid nc nr))"
proof -
  have "0 < unat nc" "0 < unat nr"
    using assms(1) by (auto simp: validate_terminal_dimensions_def unat_gt_0 split: if_splits)
  then show ?thesis
    using assms unat_u16_less [of nc] unat_u16_less [of nr]
    by (simp add: holder_inv_def holder_new_def session_state_new_def screen_ok_def screen_new_def fits_def cursor_inside_def)
qed

lemma holder_step_inv:
  assumes "holder_step j h h'" "holder_inv j h"
  shows "holder_inv j h'"
  using assms(1)
proof cases
  case accept
  then show ?thesis
    using accept_inv [OF assms(2)] by simp
next
  case (pending env rs)
  then show ?thesis
    using read_pending_inv [of env h] assms(2) by simp
next
  case (controller env rs)
  then show ?thesis
    using read_connection_inv [of env h] assms(2) by simp
next
  case (flush "as")
  then show ?thesis
    by (rule flush_inv [OF assms(2)])
next
  case (input "as")
  then show ?thesis
    using assms(2) holder_inv_frame [OF assms(2), of h'] flush_input_frame [OF input]
    by (simp add: holder_inv_def)
next
  case (out env v io bs sq now)
  then show ?thesis
    using pty_output_inv [OF assms(2)] by blast
next
  case (exited env waited flushed)
  then show ?thesis
    using record_exit_inv [OF assms(2)] by blast
next
  case (grid env now)
  then show ?thesis
    using emit_inv [OF assms(2)] by blast
qed

lemma reachable_inv: "reachable j h \<Longrightarrow> holder_inv j h"
  by (induction rule: reachable.induct) (auto intro: holder_new_inv holder_step_inv)

section \<open>Who controls\<close>

lemma stale_messages:
  assumes "cn_epoch (fst p) = Some e" "e \<noteq> epoch_of (snd p)"
  shows "snd (snd (handle_messages env xs p)) = snd p \<and>
    (xs = [] \<longrightarrow> fst (snd (handle_messages env xs p)) = fst p \<and> \<not> fst (handle_messages env xs p)) \<and>
    (xs \<noteq> [] \<longrightarrow> fst (handle_messages env xs p))"
  using assms by (cases xs; cases p) (auto simp: handle_message_def)

lemma stale_reads:
  assumes "cn_epoch (fst p) = Some e" "e \<noteq> epoch_of (snd p)"
  shows "snd (snd (read_messages env rs p)) = snd p"
  using assms
proof (induction rs arbitrary: p)
  case (Cons r rs)
  show ?case
  proof (cases r)
    case (Data bs)
    obtain ms codec where f: "remote_feed (he_json env) (cn_codec (fst p)) bs = (ms, codec)"
      by fastforce
    show ?thesis
    proof (cases ms)
      case (Inl e)
      then show ?thesis
        using Data f by simp
    next
      case (Inr xs)
      let ?p = "((fst p)\<lparr>cn_codec := codec\<rparr>, snd p)"
      obtain gone1 c1 h1 where m: "handle_messages env xs ?p = (gone1, c1, h1)"
        using prod_cases3 by blast
      have "h1 = snd p" "\<not> gone1 \<Longrightarrow> c1 = fst ?p"
        using stale_messages [of ?p e env xs] Cons.prems m by auto
      then show ?thesis
        using Data f Inr m Cons.IH [of "(c1, h1)"] Cons.prems by (cases gone1) auto
    qed
  qed (use Cons in auto)
qed simp

lemma unauthenticated_messages:
  assumes "cn_epoch (fst p) = None" "\<And>t. he_authenticate env t \<noteq> Some True"
  shows "snd (snd (handle_messages env xs p)) = snd p \<and> cn_epoch (fst (snd (handle_messages env xs p))) = None"
proof (cases xs)
  case (Cons x xs')
  obtain c h where p: "p = (c, h)"
    by fastforce
  have "holder_check env hl h \<noteq> Inr ()" for hl
    using assms(2) by (auto simp: holder_check_def split: option.split bool.split)
  then have "\<exists>e. handle_message env x (c, h) = (Inl e, c, h)"
    using assms(1) p
    by (cases x) (auto simp: handle_message_def handshake_def attempt_def split: sum.split)
  then show ?thesis
    using Cons p assms(1) by auto
qed (use assms in auto)

lemma unauthenticated_reads:
  assumes "cn_epoch (fst p) = None" "\<And>t. he_authenticate env t \<noteq> Some True"
  shows "snd (snd (read_messages env rs p)) = snd p \<and> cn_epoch (fst (snd (read_messages env rs p))) = None"
  using assms(1)
proof (induction rs arbitrary: p)
  case (Cons r rs)
  show ?case
  proof (cases r)
    case (Data bs)
    obtain ms codec where f: "remote_feed (he_json env) (cn_codec (fst p)) bs = (ms, codec)"
      by fastforce
    show ?thesis
    proof (cases ms)
      case (Inl e)
      then show ?thesis
        using Data f Cons.prems by simp
    next
      case (Inr xs)
      let ?p = "((fst p)\<lparr>cn_codec := codec\<rparr>, snd p)"
      obtain gone1 c1 h1 where m: "handle_messages env xs ?p = (gone1, c1, h1)"
        using prod_cases3 by blast
      have "h1 = snd p" "cn_epoch c1 = None"
        using unauthenticated_messages [of ?p env xs] assms(2) Cons.prems m by auto
      then show ?thesis
        using Data f Inr m Cons.IH [of "(c1, h1)"] by (cases gone1) auto
    qed
  qed (use Cons in auto)
qed (use assms in auto)

section \<open>A history\<close>

text \<open>A holder with a one-cell screen, and a peer that says hello.\<close>

definition hello_here :: hello where
  "hello_here = \<lparr>hello_protocol = CURRENT, local_build_id = lit ''b'', hello_session_id = lit ''s'',
     hello_session_token = lit ''0123456789abcdef'', hello_expected_incarnation = None, requested_role = Controller,
     hello_client_nonce = lit ''n'', required_capabilities = [], last_acknowledged_output_offset = None,
     last_acknowledged_grid_sequence = None\<rparr>"

definition ack_here :: hello_ack where
  "ack_here = \<lparr>ack_protocol = CURRENT, ack_holder_build_id = lit ''h'', ack_session_incarnation = lit ''i'',
     ack_capabilities = PHASE_ONE_HOLDER_CAPABILITIES, ack_controller_epoch = 1, ack_process_state = Running 7,
     ack_output_offset = 0, ack_snapshot_sequence = 0\<rparr>"

definition only_json :: "'a \<Rightarrow> 'a json" where
  "only_json x = \<lparr>to_writer = \<lambda>v. if v = x then ([], None) else ([], Some (lit ''unsupported'')), from_slice = \<lambda>_. Inr x\<rparr>"

definition json_here :: remote_json where
  "json_here = sample_json\<lparr>json_hello := only_json hello_here, json_hello_ack := only_json ack_here\<rparr>"

definition env_here :: "bool \<Rightarrow> holder_env" where
  "env_here knows = \<lparr>he_json = json_here, he_build_id = lit ''h'', he_authenticate = \<lambda>_. Some knows, he_state_written = True,
     he_pty_resized = \<lambda>_ _. None, he_signals = [], he_signalled = False, he_pty_writes = []\<rparr>"

definition log_here :: "remote_log \<times> disk_state" where
  "log_here = (\<lparr>rl_writer = 0, rl_base_offset = 0, rl_payload_bytes = 0\<rparr>, replace_log (write_new 0 []) empty_disk)"

definition holder_here :: holder where
  "holder_here = holder_new (letter_view 1) log_here (session_state_new (lit ''s'') (lit ''i'') 7 1 1)"

lemma json_here_ok: "remote_json_ok json_here"
  using sample_json_ok by (auto simp: remote_json_ok_def json_here_def json_roundtrip_def only_json_def split: if_splits)

lemma names_here:
  "validate_identifier f (lit ''b'') = Inr ()" "validate_identifier f (lit ''s'') = Inr ()" "validate_identifier f (lit ''n'') = Inr ()"
  "validate_identifier f (lit ''h'') = Inr ()" "validate_identifier f (lit ''i'') = Inr ()"
  "session_token_new (lit ''0123456789abcdef'') = Inr (lit ''0123456789abcdef'')"
  by (simp_all add: validate_identifier_def session_token_new_def lit_def utf8_def utf8_scalar_def is_ascii_alphanumeric_def)

lemmas encoding_eval = remote_encode_def encode_into_ok kind_defs large_kind_def MAX_FRAME_BYTES_def
  MAX_CONTROL_FRAME_BYTES_def u32_to_be_def be_nat_unfold append_json_def json_here_def only_json_def after_check_def

lemma hello_encoding: "remote_encode json_here (MHello hello_here) = Inr [32, 0, 0, 0, 0]"
proof -
  have "write_message json_here (MHello hello_here) blank_header 0 = (Inr (), [32, 0, 0, 0, 0])"
    by (simp add: encoding_eval hello_validate_def hello_here_def names_here check_token_def check_optional_def and_then_def)
  then show ?thesis
    by (simp add: encoding_eval)
qed

lemma ack_encoding: "remote_encode json_here (MHelloAck ack_here) = Inr [33, 0, 0, 0, 0]"
proof -
  have "write_message json_here (MHelloAck ack_here) blank_header 0 = (Inr (), [33, 0, 0, 0, 0])"
    by (simp add: encoding_eval hello_ack_validate_def ack_here_def names_here and_then_def)
  then show ?thesis
    by (simp add: encoding_eval)
qed

lemma grant_encoding: "\<exists>bs. remote_encode json_here (MControlGranted g) = Inr bs"
proof -
  have "\<exists>p. write_message json_here (MControlGranted g) blank_header 0 = (Inr (), p) \<and> length p = 13 \<and> p ! 0 = KIND_CONTROL_GRANTED"
    by (simp add: encoding_eval sample_json_def grant_json_def u64_to_be_def)
  then show ?thesis
    by (auto simp: encoding_eval)
qed

lemma one_cell_row: "append_row [c] enc = Inr (enc @ u16_to_be 1 @ put_run 1 c)"
proof -
  have "run_end [c] c 1 1 = (1, 1)"
    by (simp add: run_end.simps)
  then show ?thesis
    by (simp add: append_row_def append_runs.simps [of _ 0] append_runs.simps [of _ "Suc 0"])
qed

lemma snapshot_encoding: "\<exists>bs. remote_encode json_here (MFullSnapshot (snapshot_message n (ho_screen holder_here))) = Inr bs"
proof -
  have "\<exists>p. write_message json_here (MFullSnapshot (snapshot_message n (ho_screen holder_here))) blank_header 0 = (Inr (), p)
      \<and> length p \<le> 100 \<and> p ! 0 = KIND_FULL_SNAPSHOT"
    by (simp add: write_full_snapshot_def snapshot_message_def message_of_def screen_full_snapshot_def update_of_def
        holder_here_def holder_new_def session_state_new_def screen_new_def letter_view_def view_row_def Let_def
        after_check_def append_grid_def grid_encode_def one_cell_row and_then_def validate_grid_update_def
        validate_terminal_dimensions_def MAX_TERMINAL_COLS_def MAX_TERMINAL_ROWS_def
        MAX_TERMINAL_CELLS_def saturating_mul_def put_run_def)
  then show ?thesis
    by (auto simp: encoding_eval)
qed

lemma feed_hello: "remote_feed json_here remote_codec_new [32, 0, 0, 0, 0] = (Inr [MHello hello_here], remote_codec_new)"
proof -
  have "remote_step json_here [] = Inr None"
    by (simp add: remote_step_def)
  then have "remote_loop json_here ([32, 0, 0, 0, 0] @ []) = Inr ([MHello hello_here], [])"
    using rd.loop_encoded [of "[MHello hello_here]" json_here "\<lambda>_. [32, 0, 0, 0, 0]" "[]"]
      remote_step_encode [OF hello_encoding json_here_ok] by simp
  then show ?thesis
    using rf.feed_eq [of json_here "[]" "[32, 0, 0, 0, 0]"] by (simp add: remote_codec_new_def)
qed

definition attached_here :: holder where
  "attached_here = read_pending_connection (env_here True) [Data [32, 0, 0, 0, 0]] (accept_connection holder_here)"

lemma queue_here:
  assumes "remote_encode j m = Inr bs"
  shows "connection_queue j m c = (Inr (), c\<lparr>cn_outbound := cn_outbound c @ bs\<rparr>)"
  using assms encode_into_cases [where j = j and m = m and out = "cn_outbound c"]
  by (auto simp: connection_queue_def split: prod.splits sum.splits)

lemma handshake_here:
  "\<exists>c h. handshake (env_here True) hello_here (connection_new, holder_here) = (Inr (), c, h) \<and>
     cn_epoch c = Some 1 \<and> epoch_of h = 1 \<and> seq_of h = 1"
proof -
  obtain gb sb where "remote_encode json_here (MControlGranted \<lparr>cg_controller_epoch = 1\<rparr>) = Inr gb"
    and "remote_encode json_here (MFullSnapshot (snapshot_message 1 (ho_screen holder_here))) = Inr sb"
    using grant_encoding snapshot_encoding by blast
  then have q: "connection_queue json_here (MControlGranted \<lparr>cg_controller_epoch = 1\<rparr>) c = (Inr (), c\<lparr>cn_outbound := cn_outbound c @ gb\<rparr>)"
    "connection_queue json_here (MFullSnapshot (snapshot_message 1 (ho_screen holder_here))) c = (Inr (), c\<lparr>cn_outbound := cn_outbound c @ sb\<rparr>)"
    "connection_queue json_here (MHelloAck ack_here) c = (Inr (), c\<lparr>cn_outbound := cn_outbound c @ [33, 0, 0, 0, 0]\<rparr>)" for c
    using queue_here ack_encoding by blast+
  have state: "ho_state holder_here = session_state_new (lit ''s'') (lit ''i'') 7 1 1"
    by (simp add: holder_here_def holder_new_def session_state_new_def rl_tail_offset_def log_here_def)
  have ok: "holder_check (env_here True) hello_here holder_here = Inr ()"
    by (simp add: holder_check_def hello_here_def env_here_def state session_state_new_def CURRENT_def)
  have ack: "\<lparr>ack_protocol = CURRENT, ack_holder_build_id = lit ''h'', ack_session_incarnation = lit ''i'',
     ack_capabilities = PHASE_ONE_HOLDER_CAPABILITIES, ack_controller_epoch = 1, ack_process_state = Running 7,
     ack_output_offset = 0, ack_snapshot_sequence = 0\<rparr> = ack_here"
    by (simp add: ack_here_def)
  show ?thesis
    using ok
    by (simp add: handshake_def attempt_def queue_on_def queue_replay_def queue_snapshot_def write_state_def
        bump_sequence_def next_sequence_def state session_state_new_def env_here_def ack q) (simp add: hello_here_def q)
qed

lemma attached_here_facts:
  "\<exists>c. ho_connection attached_here = Some c \<and> cn_epoch c = Some 1" "epoch_of attached_here = 1" "seq_of attached_here = 1"
proof -
  have c: "connection_new\<lparr>cn_codec := remote_codec_new\<rparr> = connection_new" "cn_codec connection_new = remote_codec_new"
    "cn_epoch connection_new = None"
    by (simp_all add: connection_new_def)
  have h: "(accept_connection holder_here)\<lparr>ho_pending_connection := None\<rparr> = holder_here"
    "ho_pending_connection (accept_connection holder_here) = Some connection_new"
    by (simp_all add: accept_connection_def holder_here_def holder_new_def)
  have "he_json (env_here True) = json_here"
    by (simp add: env_here_def)
  then have "(\<exists>c. ho_connection attached_here = Some c \<and> cn_epoch c = Some 1) \<and> epoch_of attached_here = 1 \<and> seq_of attached_here = 1"
    using handshake_here by (auto simp: attached_here_def read_pending_connection_def h c feed_hello handle_message_def)
  then show "\<exists>c. ho_connection attached_here = Some c \<and> cn_epoch c = Some 1" "epoch_of attached_here = 1" "seq_of attached_here = 1"
    by blast+
qed

lemma attached_here_reachable: "reachable json_here attached_here"
proof -
  have "env_ok (env_here True)" "he_json (env_here True) = json_here"
    by (simp_all add: env_ok_def env_here_def)
  moreover have "reachable json_here holder_here"
    unfolding holder_here_def
    by (rule reachable.start) (simp_all add: letter_view_def validate_terminal_dimensions_def MAX_TERMINAL_COLS_def
        MAX_TERMINAL_ROWS_def MAX_TERMINAL_CELLS_def saturating_mul_def)
  ultimately show ?thesis
    unfolding attached_here_def by (blast intro: reachable.step holder_step.accept holder_step.pending)
qed

section \<open>What the controller receives, and who controls\<close>



text \<open>
  Claim C6. Only the current controller acts on the agent. In every state of the holder: a connection
  whose epoch is no longer current, whatever it sends, changes nothing but its own slot; and a new
  connection that cannot authenticate, whatever it sends, changes nothing but the pending slot. In
  particular neither writes to the terminal, resizes it, signals the agent or takes the control away.
\<close>

theorem only_the_controller_acts:
  assumes "reachable j h"
  shows "(\<forall>c e env rs. ho_connection h = Some c \<and> cn_epoch c = Some e \<and> e \<noteq> epoch_of h \<longrightarrow>
      (\<exists>slot. read_connection env rs h = h\<lparr>ho_connection := slot\<rparr>)) \<and>
    (\<forall>env rs. (\<forall>t. he_authenticate env t \<noteq> Some True) \<longrightarrow>
      (\<exists>slot. read_pending_connection env rs h = h\<lparr>ho_pending_connection := slot\<rparr>))"
proof (intro conjI allI impI)
  fix c e env rs
  assume a: "ho_connection h = Some c \<and> cn_epoch c = Some e \<and> e \<noteq> epoch_of h"
  obtain gone c1 h1 where r: "read_messages env rs (c, h\<lparr>ho_connection := None\<rparr>) = (gone, c1, h1)"
    using prod_cases3 by blast
  then have "h1 = h\<lparr>ho_connection := None\<rparr>"
    using stale_reads [of "(c, h\<lparr>ho_connection := None\<rparr>)" e env rs] a by simp
  then have "read_connection env rs h = h\<lparr>ho_connection := if gone then None else Some c1\<rparr>"
    using r a by (simp add: read_connection_def)
  then show "\<exists>slot. read_connection env rs h = h\<lparr>ho_connection := slot\<rparr>" ..
next
  fix env :: holder_env and rs
  assume a: "\<forall>t. he_authenticate env t \<noteq> Some True"
  show "\<exists>slot. read_pending_connection env rs h = h\<lparr>ho_pending_connection := slot\<rparr>"
  proof (cases "ho_pending_connection h")
    case None
    then have "read_pending_connection env rs h = h\<lparr>ho_pending_connection := None\<rparr>"
      by (simp add: read_pending_connection_def)
    then show ?thesis ..
  next
    case (Some c)
    obtain gone c1 h1 where r: "read_messages env rs (c, h\<lparr>ho_pending_connection := None\<rparr>) = (gone, c1, h1)"
      using prod_cases3 by blast
    have "cn_epoch c = None"
      using reachable_inv [OF assms] Some by (simp add: holder_inv_def)
    then have "h1 = h\<lparr>ho_pending_connection := None\<rparr>" "cn_epoch c1 = None"
      using unauthenticated_reads [of "(c, h\<lparr>ho_pending_connection := None\<rparr>)" env rs] a r by auto
    then have "read_pending_connection env rs h = h\<lparr>ho_pending_connection := if gone then None else Some c1\<rparr>"
      using r Some by (simp add: read_pending_connection_def)
    then show ?thesis ..
  qed
qed

theorem only_the_controller_acts_witness:
  "\<exists>slot. read_pending_connection (env_here False) [Data [32, 0, 0, 0, 0]] (accept_connection attached_here)
     = (accept_connection attached_here)\<lparr>ho_pending_connection := slot\<rparr>"
  using only_the_controller_acts [OF reachable.step [OF attached_here_reachable holder_step.accept]]
  by (simp add: env_here_def)

section \<open>Replay\<close>

text \<open>Output frames for consecutive pieces of the stream.\<close>

fun outputs :: "nat \<Rightarrow> bytes list \<Rightarrow> remote_message list" where
  "outputs n [] = []"
| "outputs n (x # xs) = MTerminal (frame_output (of_nat n) x) # outputs (n + length x) xs"

lemma terminal_encodes:
  assumes "length (frame_payload f) \<le> MAX_FRAME_BYTES"
  shows "\<exists>bs. remote_encode j (MTerminal f) = Inr bs"
proof -
  have "write_message j (MTerminal f) blank_header 0 = (Inr (), [frame_type_u8 (frame_type f), 0, 0, 0, 0] @ frame_payload f)"
    by simp
  moreover have "\<not> frame_type_u8 (frame_type f) \<ge> KIND_HELLO"
    by (cases "frame_type f") (simp_all add: kind_defs word_le_nat_alt)
  ultimately show ?thesis
    using assms by (simp add: remote_encode_def encode_into_ok)
qed

lemma replay_loop_sends:
  assumes "remote_stored S lg"
  shows "\<exists>pieces bs. replay_loop j lg (length S) off c = (Inr (), c\<lparr>cn_outbound := cn_outbound c @ bs\<rparr>) \<and>
    encodes j (outputs (max off (rl_base_offset (fst lg))) pieces) bs \<and>
    concat pieces = drop (max off (rl_base_offset (fst lg))) S"
proof (induction "length S - off" arbitrary: off c rule: less_induct)
  case less
  define s where "s = max off (rl_base_offset (fst lg))"
  define x where "x = segment S s (min (length S) (s + 64 * 1024))"
  have base: "rl_base_offset (fst lg) \<le> length S"
    using assms by (auto simp: remote_stored_def)
  show ?case
  proof (cases "s < length S")
    case True
    then have x: "x \<noteq> []" "length x \<le> 64 * 1024"
      by (auto simp: x_def segment_def)
    have "x = take (length x) (drop s S)"
      by (simp add: x_def segment_def)
    then have split: "drop s S = x @ drop (s + length x) S"
      by (metis append_take_drop_id drop_drop add.commute)
    obtain e where e: "remote_encode j (MTerminal (frame_output (of_nat s) x)) = Inr e"
      using terminal_encodes [of "frame_output (of_nat s) x" j] x(2)
      by (auto simp: frame_output_def frame_new_def MAX_FRAME_BYTES_def)
    let ?c = "c\<lparr>cn_outbound := cn_outbound c @ e\<rparr>"
    have "off \<le> s" "off < length S"
      using True by (auto simp: s_def)
    have "remote_log_read off (64 * 1024) lg = Inr (s, x)"
      using remote_read_stored [OF assms, of "64 * 1024" off] True
      by (simp add: read_answer_def Let_def x_def flip: s_def)
    then have step: "replay_loop j lg (length S) off c = replay_loop j lg (length S) (s + length x) ?c"
      using queue_here [OF e] x(1) \<open>off < length S\<close> by (simp add: replay_loop.simps [of j lg _ off])
    have "max (s + length x) (rl_base_offset (fst lg)) = s + length x"
      by (simp add: s_def)
    moreover have "length S - (s + length x) < length S - off"
      using \<open>off \<le> s\<close> \<open>off < length S\<close> x(1) by (cases x) auto
    ultimately obtain pieces bs where "replay_loop j lg (length S) (s + length x) ?c = (Inr (), ?c\<lparr>cn_outbound := cn_outbound ?c @ bs\<rparr>)"
      "encodes j (outputs (s + length x) pieces) bs" "concat pieces = drop (s + length x) S"
      using less [of "s + length x" ?c] by auto
    then show ?thesis
      using step split encodes_append [of j "[MTerminal (frame_output (of_nat s) x)]" e] e
      unfolding s_def [symmetric]
      by (intro exI [of _ "x # pieces"] exI [of _ "e @ bs"]) (auto simp: encodes_def)
  next
    case False
    then have "off < length S \<Longrightarrow> s = length S"
      using base by (auto simp: s_def)
    then have "replay_loop j lg (length S) off c = (Inr (), c)"
      using remote_read_stored [OF assms, of "64 * 1024" off]
      by (auto simp: replay_loop.simps [of j lg _ off] read_answer_def Let_def s_def [symmetric] segment_def)
    then show ?thesis
      using False unfolding s_def [symmetric] by (intro exI [of _ "[]"] exI [of _ "[]"]) auto
  qed
qed

text \<open>
  Claim C25. A controller that comes back receives the output it has missed. For every acknowledged offset
  below the end of the stream the replay loop ends, and queues a begin marker, output frames with
  consecutive offsets whose bytes are exactly the stream from there to its end, and an end marker
  with the stream's length; it starts at the acknowledged offset, except that it skips to the last
  4 MiB of the stream and to what the log still has.
\<close>

theorem replay_fills_the_gap:
  assumes "remote_stored S (ho_log h)" "unat a < length S"
  shows "\<exists>pieces bs. let start = max (unat a) (length S - REPLAY_BUDGET_BYTES);
       from = max start (rl_base_offset (fst (ho_log h)))
     in queue_replay env (Some a) h c = (Inr (), c\<lparr>cn_outbound := cn_outbound c @ bs\<rparr>) \<and>
       encodes (he_json env) (MTerminal (replay_begin (of_nat start)) # outputs from pieces
         @ [MTerminal (replay_end (of_nat (length S)))]) bs \<and>
       concat pieces = drop from S"
proof -
  let ?start = "max (unat a) (length S - REPLAY_BUDGET_BYTES)" and ?j = "he_json env"
  have tail: "rl_tail_offset (fst (ho_log h)) = length S"
    using assms(1) by (auto simp: remote_stored_def rl_tail_offset_def)
  obtain b where b: "remote_encode ?j (MTerminal (replay_begin (of_nat ?start))) = Inr b"
    using terminal_encodes by (fastforce simp: replay_begin_def offset_frame_def frame_new_def MAX_FRAME_BYTES_def)
  obtain e where e: "remote_encode ?j (MTerminal (replay_end (of_nat (length S)))) = Inr e"
    using terminal_encodes by (fastforce simp: replay_end_def offset_frame_def frame_new_def MAX_FRAME_BYTES_def)
  obtain pieces bs where r: "replay_loop ?j (ho_log h) (length S) ?start (c\<lparr>cn_outbound := cn_outbound c @ b\<rparr>)
      = (Inr (), c\<lparr>cn_outbound := cn_outbound c @ b @ bs\<rparr>)"
    "encodes ?j (outputs (max ?start (rl_base_offset (fst (ho_log h)))) pieces) bs"
    "concat pieces = drop (max ?start (rl_base_offset (fst (ho_log h)))) S"
    using replay_loop_sends [OF assms(1), of ?j ?start "c\<lparr>cn_outbound := cn_outbound c @ b\<rparr>"] by auto
  have "queue_replay env (Some a) h c = (Inr (), c\<lparr>cn_outbound := cn_outbound c @ b @ bs @ e\<rparr>)"
    using assms(2) r(1) by (simp add: queue_replay_def tail Let_def attempt_def queue_here [OF b] queue_here [OF e])
  moreover have "encodes ?j (MTerminal (replay_begin (of_nat ?start)) # outputs (max ?start (rl_base_offset (fst (ho_log h)))) pieces
      @ [MTerminal (replay_end (of_nat (length S)))]) (b @ bs @ e)"
    using encodes_append [OF encodes_snoc [OF encodes_Nil b] encodes_snoc [OF r(2) e]] by simp
  ultimately show ?thesis
    using r(3) unfolding Let_def by blast
qed

definition holder_with_output :: holder where
  "holder_with_output = holder_here\<lparr>ho_log := (\<lparr>rl_writer = 0, rl_base_offset = 0, rl_payload_bytes = 3\<rparr>,
     replace_log (write_new 0 [104, 105, 10]) empty_disk)\<rparr>"

theorem replay_fills_the_gap_witness:
  "\<exists>pieces bs. queue_replay (env_here True) (Some 1) holder_with_output connection_new
       = (Inr (), connection_new\<lparr>cn_outbound := bs\<rparr>) \<and>
     encodes json_here (MTerminal (replay_begin 1) # outputs 1 pieces @ [MTerminal (replay_end 3)]) bs \<and>
     concat pieces = [105, 10]"
proof -
  have "remote_stored [104, 105, 10] (ho_log holder_with_output)"
    by (simp add: remote_stored_def holder_with_output_def replace_log_def empty_disk_def)
  from replay_fills_the_gap [OF this, of 1 "env_here True" connection_new] show ?thesis
    by (simp add: REPLAY_BUDGET_BYTES_def holder_with_output_def env_here_def connection_new_def)
qed

end
