(* ===== verification/Term_Buffer.thy ===== *)
theory Term_Buffer
  imports Grid
begin

text \<open>
  \<^verbatim>\<open>homie-term/src/buffer.rs\<close>: the terminal widget's copy of the screen, patched by grid updates,
  with a generation number per row; and the part of \<^verbatim>\<open>homie-term/src/element.rs\<close> that keeps a
  cache of prepared rows and repaints only rows whose generation moved. Shown: a patched buffer
  holds what the protocol's own \<open>apply\<close> gives (with one exception, which is a finding), no slice is
  out of bounds, and the row cache never shows stale cells.
\<close>

section \<open>The buffer\<close>

record cursor_state =
  cs_col :: u16
  cs_row :: u16
  cs_visible :: bool

record apply_summary =
  as_changed :: bool
  as_size_changed :: bool
  as_cursor_changed :: bool
  as_dirty_row_count :: usize
  as_generation :: u64

record changed_render_row =
  crr_row :: usize
  crr_generation :: u64
  crr_cells :: "grid_cell list"

record render_damage_snapshot =
  rds_cols :: u16
  rds_rows :: u16
  rds_cursor :: cursor_state
  rds_changed_rows :: "changed_render_row list"

record grid_buffer =
  gb_cols :: u16
  gb_rows :: u16
  gb_cells :: "grid_cell list"
  gb_cursor :: cursor_state
  gb_generation :: u64
  gb_row_generations :: "u64 list"
  gb_dirty_rows :: "bool list"

text \<open>\<open>Vec::resize\<close>.\<close>

definition resize :: "usize \<Rightarrow> 'a \<Rightarrow> 'a list \<Rightarrow> 'a list" where
  "resize n x xs = take n xs @ replicate (n - length xs) x"

definition buffer_new :: "u16 \<Rightarrow> u16 \<Rightarrow> grid_buffer" where
  "buffer_new cs rs =
     \<lparr>gb_cols = cs, gb_rows = rs, gb_cells = replicate (unat cs * unat rs) BLANK,
      gb_cursor = \<lparr>cs_col = 0, cs_row = 0, cs_visible = False\<rparr>, gb_generation = 0,
      gb_row_generations = replicate (unat rs) 0, gb_dirty_rows = replicate (unat rs) True\<rparr>"

definition is_blank :: "grid_buffer \<Rightarrow> bool" where
  "is_blank b = list_all (\<lambda>cell. scalar cell = 0 \<or> scalar cell = 32) (gb_cells b)"

text \<open>
  The slice is in bounds for every buffer of the invariant \<open>gb_wf\<close> below, so \<open>None\<close> is only the
  source's \<open>None\<close>.
\<close>

definition buffer_row :: "grid_buffer \<Rightarrow> usize \<Rightarrow> grid_cell list option" where
  "buffer_row b row =
     (if row \<ge> unat (gb_rows b) then None
      else let ncols = unat (gb_cols b); start = row * ncols
           in Some (segment (gb_cells b) start (start + ncols)))"

text \<open>\<open>char::from_u32\<close> refuses surrogates and values above the last code point.\<close>

definition char_from_u32 :: "u32 \<Rightarrow> nat option" where
  "char_from_u32 w =
     (let n = unat w in if n < 0xD800 \<or> 0xDFFF < n \<and> n \<le> 0x10FFFF then Some n else None)"

definition cell_text_char :: "u32 \<Rightarrow> nat" where
  "cell_text_char w =
     (case char_from_u32 w of
        Some ch \<Rightarrow> if ch \<noteq> 10 \<and> ch \<noteq> 13 then ch else 32
      | None \<Rightarrow> 32)"

definition row_text_with_columns :: "grid_buffer \<Rightarrow> usize \<Rightarrow> (nat list \<times> usize list) option" where
  "row_text_with_columns b row =
     map_option (\<lambda>cells.
       let kept = filter (\<lambda>(column, cell). scalar cell \<noteq> 0) (enumerate 0 cells)
       in (map (\<lambda>(column, cell). cell_text_char (scalar cell)) kept, map fst kept))
     (buffer_row b row)"

definition row_generation :: "grid_buffer \<Rightarrow> usize \<Rightarrow> u64 option" where
  "row_generation b row =
     (if row < length (gb_row_generations b) then Some (gb_row_generations b ! row) else None)"

definition dirty_rows :: "grid_buffer \<Rightarrow> usize list" where
  "dirty_rows b = map fst (filter snd (enumerate 0 (gb_dirty_rows b)))"

definition clear_dirty :: "grid_buffer \<Rightarrow> grid_buffer" where
  "clear_dirty b = b\<lparr>gb_dirty_rows := replicate (length (gb_dirty_rows b)) False\<rparr>"

text \<open>The loop of \<open>snapshot_damage\<close> over the known generations, which it updates in place.\<close>

fun damage_rows :: "grid_buffer \<Rightarrow> usize \<Rightarrow> bool \<Rightarrow> usize \<Rightarrow> u64 list
    \<Rightarrow> changed_render_row list \<times> u64 list" where
  "damage_rows b col_count force row [] = ([], [])"
| "damage_rows b col_count force row (known # ks) =
     (let gen = (case row_generation b row of Some g \<Rightarrow> g | None \<Rightarrow> 0);
          (changed, ks) = damage_rows b col_count force (row + 1) ks
      in if force \<or> known \<noteq> gen
         then (\<lparr>crr_row = row, crr_generation = gen,
                crr_cells = (case buffer_row b row of None \<Rightarrow> [] | Some cells \<Rightarrow> take col_count cells)\<rparr>
               # changed, gen # ks)
         else (changed, known # ks))"

definition snapshot_damage :: "grid_buffer \<Rightarrow> u64 list \<Rightarrow> usize \<Rightarrow> usize \<Rightarrow> bool
    \<Rightarrow> render_damage_snapshot \<times> u64 list" where
  "snapshot_damage b known_generations visible_rows visible_cols force =
     (let row_count = min visible_rows (unat (gb_rows b));
          col_count = min visible_cols (unat (gb_cols b));
          known_generations = resize row_count (- 1) known_generations;
          (changed, known_generations) = damage_rows b col_count force 0 known_generations
      in (\<lparr>rds_cols = gb_cols b, rds_rows = gb_rows b, rds_cursor = gb_cursor b,
           rds_changed_rows = changed\<rparr>, known_generations))"

section \<open>Applying an update\<close>

text \<open>One changed row; an index or slice out of bounds panics, which is \<open>None\<close>.\<close>

definition patch_row :: "usize \<Rightarrow> usize \<Rightarrow> changed_row \<Rightarrow> grid_cell list \<times> bool list \<times> bool
    \<Rightarrow> (grid_cell list \<times> bool list \<times> bool) option" where
  "patch_row new_cols new_rows changed_row st =
     (let (cells, dirty, changed) = st; row = unat (row_y changed_row) in
      if row \<ge> new_rows then Some st
      else let start = row * new_cols; end_at = start + new_cols in
        if end_at > length cells then None
        else let target = segment cells start end_at;
                 copied = min (length (row_cells changed_row)) new_cols;
                 differs = (take copied target \<noteq> take copied (row_cells changed_row)
                   \<or> list_ex (\<lambda>cell. cell \<noteq> BLANK) (drop copied target))
             in if \<not> differs then Some st
                else if row \<ge> length dirty then None
                else Some (take start cells @ take copied (row_cells changed_row)
                             @ replicate (new_cols - copied) BLANK @ drop end_at cells,
                           dirty[row := True], True))"

fun patch_rows :: "usize \<Rightarrow> usize \<Rightarrow> changed_row list \<Rightarrow> grid_cell list \<times> bool list \<times> bool
    \<Rightarrow> (grid_cell list \<times> bool list \<times> bool) option" where
  "patch_rows new_cols new_rows [] st = Some st"
| "patch_rows new_cols new_rows (r # rs) st =
     Option.bind (patch_row new_cols new_rows r st) (patch_rows new_cols new_rows rs)"

definition mark_dirty_row :: "usize \<Rightarrow> bool list \<Rightarrow> bool list" where
  "mark_dirty_row row dirty = dirty[row := True]"

text \<open>The dirty rows take the new generation; an index past the generations panics.\<close>

definition stamp_rows :: "u64 \<Rightarrow> bool list \<Rightarrow> u64 list \<Rightarrow> u64 list option" where
  "stamp_rows g dirty gens =
     (if list_ex id (drop (length gens) dirty) then None
      else Some (map (\<lambda>(row, old). if row < length dirty \<and> dirty ! row then g else old)
                   (enumerate 0 gens)))"

text \<open>The three stages of \<open>apply\<close>: seed the storage, patch the rows, then cursor and generations.\<close>

definition reseed :: "grid_update \<Rightarrow> bool \<Rightarrow> grid_buffer \<Rightarrow> grid_buffer" where
  "reseed u replace b =
     (let new_cols = unat (cols u); new_rows = unat (rows u) in
      if replace
      then b\<lparr>gb_cols := cols u, gb_rows := rows u,
             gb_cells := resize (new_cols * new_rows) BLANK [],
             gb_row_generations := resize new_rows 0 (gb_row_generations b),
             gb_dirty_rows := resize new_rows True []\<rparr>
      else let dirty = replicate (length (gb_dirty_rows b)) False in
           if length dirty \<noteq> new_rows
           then b\<lparr>gb_dirty_rows := resize new_rows False dirty,
                  gb_row_generations := resize new_rows 0 (gb_row_generations b)\<rparr>
           else b\<lparr>gb_dirty_rows := dirty\<rparr>)"

definition finish_apply :: "grid_update \<Rightarrow> bool \<Rightarrow> grid_buffer \<Rightarrow> grid_cell list \<times> bool list \<times> bool
    \<Rightarrow> (apply_summary \<times> grid_buffer) option" where
  "finish_apply u size_changed b patched =
     (let (cells, dirty, changed) = patched;
          new_cursor = \<lparr>cs_col = cursor_col u, cs_row = cursor_row u, cs_visible = cursor_visible u\<rparr>;
          cursor_changed = (gb_cursor b \<noteq> new_cursor);
          dirty = (if cursor_changed
                   then mark_dirty_row (unat (cs_row new_cursor))
                          (mark_dirty_row (unat (cs_row (gb_cursor b))) dirty)
                   else dirty);
          changed = (changed \<or> cursor_changed);
          gen = (if changed then gb_generation b + 1 else gb_generation b)
      in map_option (\<lambda>row_gens.
           let b = b\<lparr>gb_cells := cells, gb_dirty_rows := dirty, gb_cursor := new_cursor,
                     gb_generation := gen, gb_row_generations := row_gens\<rparr>
           in (\<lparr>as_changed = changed, as_size_changed = size_changed,
                as_cursor_changed = cursor_changed,
                as_dirty_row_count = length (dirty_rows b), as_generation = gen\<rparr>, b))
         (if changed then stamp_rows gen dirty (gb_row_generations b)
          else Some (gb_row_generations b)))"

definition buffer_apply :: "grid_update \<Rightarrow> grid_buffer \<Rightarrow> (apply_summary \<times> grid_buffer) option" where
  "buffer_apply u b =
     (let size_changed = (gb_cols b \<noteq> cols u \<or> gb_rows b \<noteq> rows u);
          replace = (is_full_snapshot u \<or> size_changed);
          b = reseed u replace b
      in Option.bind
           (patch_rows (unat (cols u)) (unat (rows u)) (changed_rows u)
              (gb_cells b, gb_dirty_rows b, replace))
           (finish_apply u size_changed b))"

section \<open>The row cache of the widget\<close>

text \<open>
  \<open>prepaint\<close> of \<^verbatim>\<open>element.rs\<close>. The shaped rows come from \<open>prepare\<close>, which stands for
  \<open>prepare_row\<close> (text shaping of the user interface library); \<open>ctx\<close> stands for the members of
  \<open>RowRenderContext\<close> other than the visible size, and \<open>fit_rows\<close> and \<open>fit_cols\<close> for the rows and
  columns that fit the element's bounds. The result says whether the frame is painted from the cache.
\<close>

record ('c, 'r) render_shared =
  rs_buffer :: grid_buffer
  rs_row_cache :: "'r option list"
  rs_render_generations :: "u64 list"
  rs_render_context :: "('c \<times> usize \<times> usize) option"

definition prepaint :: "('c \<Rightarrow> usize \<Rightarrow> grid_cell list \<Rightarrow> 'r) \<Rightarrow> bool \<Rightarrow> bool \<Rightarrow> 'c \<Rightarrow> usize \<Rightarrow> usize
    \<Rightarrow> ('c, 'r) render_shared \<Rightarrow> bool \<times> ('c, 'r) render_shared" where
  "prepaint prepare suspended scrolled ctx fit_rows fit_cols sh =
     (if suspended
      then (False, sh\<lparr>rs_row_cache := [], rs_render_generations := [], rs_render_context := None\<rparr>)
      else if gb_cells (rs_buffer sh) = [] then (False, sh)
      else let visible_rows = min (unat (gb_rows (rs_buffer sh))) fit_rows;
               visible_cols = min (unat (gb_cols (rs_buffer sh))) fit_cols in
        if scrolled then (False, sh\<lparr>rs_render_context := None\<rparr>)
        else let context = (ctx, visible_cols, visible_rows);
                 force = (rs_render_context sh \<noteq> Some context
                   \<or> length (rs_row_cache sh) < visible_rows
                   \<or> list_ex (\<lambda>r. r = None) (take visible_rows (rs_row_cache sh)));
                 (damage, gens) = snapshot_damage (rs_buffer sh) (rs_render_generations sh)
                   visible_rows visible_cols force;
                 cache = resize visible_rows None (take visible_rows (rs_row_cache sh));
                 cache = foldl (\<lambda>cache r. cache[crr_row r := Some (prepare ctx (crr_row r) (crr_cells r))])
                           cache (rds_changed_rows damage)
             in (True, sh\<lparr>rs_row_cache := cache, rs_render_generations := gens,
                          rs_render_context := Some context\<rparr>))"


section \<open>A patched buffer\<close>

definition gb_wf :: "grid_buffer \<Rightarrow> bool" where
  "gb_wf b \<longleftrightarrow> length (gb_cells b) = unat (gb_cols b) * unat (gb_rows b)
     \<and> length (gb_row_generations b) = unat (gb_rows b) \<and> length (gb_dirty_rows b) = unat (gb_rows b)"

lemma length_resize [simp]: "length (resize n x xs) = n"
  by (simp add: resize_def)

lemma resize_same [simp]: "length xs = n \<Longrightarrow> resize n x xs = xs"
  by (simp add: resize_def)

lemma resize_Nil [simp]: "resize n x [] = replicate n x"
  by (simp add: resize_def)

lemma nth_resize: "i < n \<Longrightarrow> resize n x xs ! i = (if i < length xs then xs ! i else x)"
  by (auto simp: resize_def nth_append min_def)

lemma buffer_new_wf: "gb_wf (buffer_new cs rs)"
  by (simp add: gb_wf_def buffer_new_def)

lemma row_not_differing:
  assumes "length target = n" "k = min (length xs) n" "take k target = take k xs"
    "\<not> list_ex (\<lambda>c. c \<noteq> BLANK) (drop k target)"
  shows "target = take k xs @ replicate (n - k) BLANK"
proof -
  have "drop k target = replicate (length (drop k target)) BLANK"
    using assms(4) by (intro replicate_eqI) (auto simp: list_ex_iff)
  then show ?thesis
    using assms append_take_drop_id [of k target] by simp
qed

text \<open>
  Patching a row gives the cells the protocol's \<open>apply_row\<close> gives, and a row whose cells changed is
  marked dirty.
\<close>

lemma patch_row_spec:
  assumes len: "length cells = nc * nr" "length dirty = nr"
  obtains cells' dirty' changed' where
    "patch_row nc nr r (cells, dirty, changed) = Some (cells', dirty', changed')"
    "apply_row nc nr r cells = Some cells'" "length cells' = nc * nr" "length dirty' = nr"
    "\<And>y. y < nr \<Longrightarrow> dirty ! y \<Longrightarrow> dirty' ! y" "changed \<Longrightarrow> changed'"
    "\<And>y. y < nr \<Longrightarrow> dirty' ! y \<Longrightarrow> dirty ! y \<or> changed'"
    "\<And>y. y < nr \<Longrightarrow> row_cells_at nc cells' y \<noteq> row_cells_at nc cells y \<Longrightarrow> dirty' ! y"
proof (cases "unat (row_y r) < nr")
  case False
  then show ?thesis
    using that [of cells dirty changed] len by (simp add: patch_row_def apply_row_def)
next
  case True
  let ?y = "unat (row_y r)" let ?s = "?y * nc"
  let ?k = "min (length (row_cells r)) nc" let ?t = "segment cells ?s (?s + nc)"
  let ?new = "take ?k (row_cells r) @ replicate (nc - ?k) BLANK"
  let ?cells = "take ?s cells @ ?new @ drop (?s + nc) cells"
  have b: "?s + nc \<le> length cells"
    using row_in_bounds [OF True] len(1) by simp
  have ap: "apply_row nc nr r cells = Some ?cells"
    using apply_row_eq [OF len(1) True] by (simp add: fit_row_def)
  have lt: "length ?t = nc" "length ?new = nc" "length ?cells = nc * nr"
    using b len by auto
  show ?thesis
  proof (cases "take ?k ?t \<noteq> take ?k (row_cells r) \<or> list_ex (\<lambda>c. c \<noteq> BLANK) (drop ?k ?t)")
    case False
    then have "?t = ?new"
      using row_not_differing [of ?t nc ?k "row_cells r"] lt by simp
    then have "?cells = take ?s cells @ ?t @ drop (?s + nc) cells"
      by simp
    also have "\<dots> = cells"
      by (simp add: segment_def add.commute drop_drop [symmetric] del: drop_drop)
    finally have "?cells = cells" .
    then show ?thesis
      using that [of cells dirty changed] False True b len ap
      by (simp add: patch_row_def Let_def)
  next
    case differs: True
    have other: "row_cells_at nc ?cells y = row_cells_at nc cells y" if "y < nr" "y \<noteq> ?y" for y
      using nth_row_region [OF len(1) True lt(2) that(1)] that(2)
        row_cells_at_facts [OF lt(3) that(1)] row_cells_at_facts [OF len(1) that(1)]
      by (intro nth_equalityI) auto
    have "patch_row nc nr r (cells, dirty, changed) = Some (?cells, dirty[?y := True], True)"
      using True b len differs by (auto simp: patch_row_def Let_def)
    then show ?thesis
      using ap lt(3) len(2) other True
      by (intro that [of ?cells "dirty[?y := True]" True]) (auto simp: nth_list_update)
  qed
qed

lemma patch_rows_spec:
  assumes "length cells = nc * nr" "length dirty = nr"
  shows "\<exists>cells' dirty' changed'.
    patch_rows nc nr rs (cells, dirty, changed) = Some (cells', dirty', changed')
    \<and> apply_rows nc nr rs cells = Some cells' \<and> length cells' = nc * nr \<and> length dirty' = nr
    \<and> (\<forall>y < nr. dirty ! y \<longrightarrow> dirty' ! y) \<and> (changed \<longrightarrow> changed')
    \<and> (\<forall>y < nr. dirty' ! y \<longrightarrow> dirty ! y \<or> changed')
    \<and> (\<forall>y < nr. row_cells_at nc cells' y \<noteq> row_cells_at nc cells y \<longrightarrow> dirty' ! y)"
  using assms
proof (induction rs arbitrary: cells dirty changed)
  case Nil
  then show ?case by simp
next
  case (Cons r rs)
  obtain c1 d1 ch1 where 1: "patch_row nc nr r (cells, dirty, changed) = Some (c1, d1, ch1)"
    "apply_row nc nr r cells = Some c1" "length c1 = nc * nr" "length d1 = nr"
    "\<And>y. y < nr \<Longrightarrow> dirty ! y \<Longrightarrow> d1 ! y" "changed \<Longrightarrow> ch1"
    "\<And>y. y < nr \<Longrightarrow> d1 ! y \<Longrightarrow> dirty ! y \<or> ch1"
    "\<And>y. y < nr \<Longrightarrow> row_cells_at nc c1 y \<noteq> row_cells_at nc cells y \<Longrightarrow> d1 ! y"
    by (rule patch_row_spec [OF Cons.prems, of r changed]) blast
  obtain c2 d2 ch2 where 2: "patch_rows nc nr rs (c1, d1, ch1) = Some (c2, d2, ch2)"
    "apply_rows nc nr rs c1 = Some c2" "length c2 = nc * nr" "length d2 = nr"
    "\<forall>y < nr. d1 ! y \<longrightarrow> d2 ! y" "ch1 \<longrightarrow> ch2" "\<forall>y < nr. d2 ! y \<longrightarrow> d1 ! y \<or> ch2"
    "\<forall>y < nr. row_cells_at nc c2 y \<noteq> row_cells_at nc c1 y \<longrightarrow> d2 ! y"
    using Cons.IH [OF 1(3,4), of ch1] by blast
  have rows: "\<forall>y < nr. row_cells_at nc c2 y \<noteq> row_cells_at nc cells y \<longrightarrow> d2 ! y"
  proof (intro allI impI)
    fix y assume y: "y < nr" "row_cells_at nc c2 y \<noteq> row_cells_at nc cells y"
    then have "row_cells_at nc c2 y \<noteq> row_cells_at nc c1 y \<or> row_cells_at nc c1 y \<noteq> row_cells_at nc cells y"
      by metis
    then show "d2 ! y" using 1(8) 2(5,8) y(1) by blast
  qed
  have "patch_rows nc nr (r # rs) (cells, dirty, changed) = Some (c2, d2, ch2)"
    "apply_rows nc nr (r # rs) cells = Some c2"
    using 1(1,2) 2(1,2) by simp_all
  moreover have "\<forall>y < nr. dirty ! y \<longrightarrow> d2 ! y" "changed \<longrightarrow> ch2" "\<forall>y < nr. d2 ! y \<longrightarrow> dirty ! y \<or> ch2"
    using 1(5-7) 2(5-7) by blast+
  ultimately show ?case
    using 2(3,4) rows by blast
qed


lemma mark_dirty_row_simps [simp]:
  "length (mark_dirty_row r d) = length d"
  "y < length d \<Longrightarrow> mark_dirty_row r d ! y \<longleftrightarrow> y = r \<or> d ! y"
  by (cases "r = y"; simp add: mark_dirty_row_def)+

lemma stamp_rows_eq:
  assumes "length dirty = length gens"
  shows "stamp_rows g dirty gens = Some (map2 (\<lambda>d old. if d then g else old) dirty gens)"
  using assms by (auto simp: stamp_rows_def intro!: nth_equalityI simp: nth_enumerate_eq)

text \<open>
  Applying an update to a well-formed buffer never panics, and every row is either stamped with the
  new generation or untouched, cells and generation.
\<close>

definition seeded :: "grid_update \<Rightarrow> grid_buffer \<Rightarrow> grid_cell list" where
  "seeded u b = (if is_full_snapshot u \<or> gb_cols b \<noteq> cols u \<or> gb_rows b \<noteq> rows u
                 then replicate (unat (cols u) * unat (rows u)) BLANK else gb_cells b)"

lemma reseed_spec:
  assumes "gb_wf b" "\<not> rep \<Longrightarrow> gb_cols b = cols u \<and> gb_rows b = rows u"
  shows "reseed u rep b = b\<lparr>gb_cols := cols u, gb_rows := rows u,
      gb_cells := if rep then replicate (unat (cols u) * unat (rows u)) BLANK else gb_cells b,
      gb_row_generations := if rep then resize (unat (rows u)) 0 (gb_row_generations b)
                            else gb_row_generations b,
      gb_dirty_rows := replicate (unat (rows u)) rep\<rparr>"
  using assms by (auto simp: reseed_def gb_wf_def Let_def)

lemma finish_apply_spec:
  assumes "length dirty = length (gb_row_generations b)"
  obtains sm b' where "finish_apply u sz b (cells, dirty, changed) = Some (sm, b')"
    "gb_cols b' = gb_cols b" "gb_rows b' = gb_rows b" "gb_cells b' = cells"
    "length (gb_dirty_rows b') = length dirty"
    "length (gb_row_generations b') = length (gb_row_generations b)"
    "gb_generation b' = gb_generation b \<or> gb_generation b' = gb_generation b + 1"
    "\<And>y. y < length dirty \<Longrightarrow>
       gb_row_generations b' ! y = gb_generation b + 1 \<and> gb_generation b' = gb_generation b + 1
       \<or> \<not> (dirty ! y \<and> changed) \<and> gb_row_generations b' ! y = gb_row_generations b ! y"
proof -
  let ?cur = "\<lparr>cs_col = cursor_col u, cs_row = cursor_row u, cs_visible = cursor_visible u\<rparr>"
  let ?cc = "gb_cursor b \<noteq> ?cur"
  define d where "d = (if ?cc then mark_dirty_row (unat (cs_row ?cur))
      (mark_dirty_row (unat (cs_row (gb_cursor b))) dirty) else dirty)"
  define g where "g = (if changed \<or> ?cc then gb_generation b + 1 else gb_generation b)"
  define rg where "rg = (if changed \<or> ?cc then map2 (\<lambda>x old. if x then g else old) d (gb_row_generations b)
      else gb_row_generations b)"
  define b' where "b' = b\<lparr>gb_cells := cells, gb_dirty_rows := d, gb_cursor := ?cur, gb_generation := g,
      gb_row_generations := rg\<rparr>"
  have d: "length d = length (gb_row_generations b)" "\<And>y. y < length dirty \<Longrightarrow> dirty ! y \<Longrightarrow> d ! y"
    using assms by (auto simp: d_def)
  have "\<exists>sm. finish_apply u sz b (cells, dirty, changed) = Some (sm, b')"
    using stamp_rows_eq [OF d(1)] unfolding finish_apply_def d_def
    by (auto simp: Let_def b'_def rg_def g_def d_def)
  then obtain sm where "finish_apply u sz b (cells, dirty, changed) = Some (sm, b')" ..
  then show ?thesis
    using assms d by (intro that [of sm b']) (auto simp: b'_def rg_def g_def)
qed

lemma buffer_apply_spec:
  assumes wf: "gb_wf b"
  obtains sm b' where "buffer_apply u b = Some (sm, b')" "gb_wf b'"
    "gb_cols b' = cols u" "gb_rows b' = rows u"
    "apply_rows (unat (cols u)) (unat (rows u)) (changed_rows u) (seeded u b) = Some (gb_cells b')"
    "gb_generation b' = gb_generation b \<or> gb_generation b' = gb_generation b + 1"
    "\<And>y. y < unat (gb_rows b') \<Longrightarrow>
       gb_row_generations b' ! y = gb_generation b + 1 \<and> gb_generation b' = gb_generation b + 1
       \<or> gb_cols b = cols u \<and> gb_rows b = rows u
         \<and> gb_row_generations b' ! y = gb_row_generations b ! y
         \<and> row_cells_at (unat (cols u)) (gb_cells b') y = row_cells_at (unat (cols u)) (gb_cells b) y"
proof -
  let ?nc = "unat (cols u)" and ?nr = "unat (rows u)"
  define size where "size \<longleftrightarrow> gb_cols b \<noteq> cols u \<or> gb_rows b \<noteq> rows u"
  define rep where "rep \<longleftrightarrow> is_full_snapshot u \<or> size"
  have kept: "gb_cols b = cols u \<and> gb_rows b = rows u" if "\<not> rep"
    using that by (simp add: rep_def size_def)
  have seed: "seeded u b = (if rep then replicate (unat (cols u) * unat (rows u)) BLANK else gb_cells b)"
    by (auto simp: seeded_def rep_def size_def)
  let ?b = "reseed u rep b"
  have b: "gb_cells ?b = seeded u b" "gb_dirty_rows ?b = replicate ?nr rep"
    "length (gb_row_generations ?b) = ?nr" "gb_cols ?b = cols u" "gb_rows ?b = rows u"
    "gb_generation ?b = gb_generation b"
    "\<not> rep \<Longrightarrow> gb_row_generations ?b = gb_row_generations b"
    using wf kept by (auto simp: reseed_spec [OF wf kept] seed gb_wf_def)
  have len: "length (seeded u b) = ?nc * ?nr" "length (replicate ?nr rep) = ?nr"
    using wf kept by (auto simp: seed gb_wf_def)
  obtain cells dirty changed where p: "patch_rows ?nc ?nr (changed_rows u) (seeded u b, replicate ?nr rep, rep)
      = Some (cells, dirty, changed)"
    "apply_rows ?nc ?nr (changed_rows u) (seeded u b) = Some cells" "length cells = ?nc * ?nr"
    "length dirty = ?nr" "\<forall>y < ?nr. replicate ?nr rep ! y \<longrightarrow> dirty ! y" "rep \<longrightarrow> changed"
    "\<forall>y < ?nr. dirty ! y \<longrightarrow> replicate ?nr rep ! y \<or> changed"
    "\<forall>y < ?nr. row_cells_at ?nc cells y \<noteq> row_cells_at ?nc (seeded u b) y \<longrightarrow> dirty ! y"
    using patch_rows_spec [OF len, of "changed_rows u" rep] by blast
  have ld: "length dirty = length (gb_row_generations ?b)"
    using p(4) b(3) by simp
  obtain sm b' where f: "finish_apply u size ?b (cells, dirty, changed) = Some (sm, b')"
    "gb_cols b' = gb_cols ?b" "gb_rows b' = gb_rows ?b" "gb_cells b' = cells"
    "length (gb_dirty_rows b') = length dirty"
    "length (gb_row_generations b') = length (gb_row_generations ?b)"
    "gb_generation b' = gb_generation ?b \<or> gb_generation b' = gb_generation ?b + 1"
    "\<And>y. y < length dirty \<Longrightarrow>
       gb_row_generations b' ! y = gb_generation ?b + 1 \<and> gb_generation b' = gb_generation ?b + 1
       \<or> \<not> (dirty ! y \<and> changed) \<and> gb_row_generations b' ! y = gb_row_generations ?b ! y"
    by (rule finish_apply_spec [OF ld, of u size cells changed]) blast
  have same: "gb_cols b = cols u \<and> gb_rows b = rows u
      \<and> gb_row_generations b' ! y = gb_row_generations b ! y
      \<and> row_cells_at ?nc (gb_cells b') y = row_cells_at ?nc (gb_cells b) y"
    if y: "y < ?nr" "\<not> (dirty ! y \<and> changed)" "gb_row_generations b' ! y = gb_row_generations ?b ! y" for y
  proof -
    have nr: "\<not> rep" and nd: "\<not> dirty ! y"
      using p(5-7) y by auto
    then have "row_cells_at ?nc cells y = row_cells_at ?nc (gb_cells b) y"
      using p(8) y(1) nr by (auto simp: seed)
    then show ?thesis
      using nr kept y(3) b(7) f(4) by simp
  qed
  show ?thesis
  proof (rule that)
    show "buffer_apply u b = Some (sm, b')"
      using p(1) f(1) b(1,2)
      unfolding buffer_apply_def Let_def size_def [symmetric] rep_def [symmetric] by simp
    show "gb_wf b'"
      using f(2-6) p(3,4) b(3-5) by (simp add: gb_wf_def)
    fix y assume "y < unat (gb_rows b')"
    then have "y < ?nr" "y < length dirty"
      using f(3) b(5) p(4) by simp_all
    with f(8) [of y] same [of y] b(6)
    show "gb_row_generations b' ! y = gb_generation b + 1 \<and> gb_generation b' = gb_generation b + 1
       \<or> gb_cols b = cols u \<and> gb_rows b = rows u
         \<and> gb_row_generations b' ! y = gb_row_generations b ! y
         \<and> row_cells_at ?nc (gb_cells b') y = row_cells_at ?nc (gb_cells b) y"
      by auto
  qed (use f(2-4,7) p(2) b(4-6) in auto)
qed


section \<open>The row cache is never stale\<close>

text \<open>What can happen to the widget: an update from the daemon, or a frame.\<close>

datatype 'c render_op =
    Damage grid_update
  | Frame bool bool 'c usize usize \<comment> \<open>suspended, scrolled, context, rows and columns that fit\<close>

fun render_step :: "('c \<Rightarrow> usize \<Rightarrow> grid_cell list \<Rightarrow> 'r) \<Rightarrow> 'c render_op \<Rightarrow> ('c, 'r) render_shared
    \<Rightarrow> ('c, 'r) render_shared option" where
  "render_step prepare (Damage u) sh =
     map_option (\<lambda>(_, b). sh\<lparr>rs_buffer := b\<rparr>) (buffer_apply u (rs_buffer sh))"
| "render_step prepare (Frame suspended scrolled ctx fit_rows fit_cols) sh =
     Some (snd (prepaint prepare suspended scrolled ctx fit_rows fit_cols sh))"

fun render_run :: "('c \<Rightarrow> usize \<Rightarrow> grid_cell list \<Rightarrow> 'r) \<Rightarrow> 'c render_op list \<Rightarrow> ('c, 'r) render_shared
    \<Rightarrow> ('c, 'r) render_shared option" where
  "render_run prepare [] sh = Some sh"
| "render_run prepare (p # ps) sh = Option.bind (render_step prepare p sh) (render_run prepare ps)"

definition render_init :: "u16 \<Rightarrow> u16 \<Rightarrow> ('c, 'r) render_shared" where
  "render_init cs rs = \<lparr>rs_buffer = buffer_new cs rs, rs_row_cache = [], rs_render_generations = [],
     rs_render_context = None\<rparr>"

abbreviation shown_row :: "grid_buffer \<Rightarrow> usize \<Rightarrow> grid_cell list" where
  "shown_row b i \<equiv> row_cells_at (unat (gb_cols b)) (gb_cells b) i"

definition cached_rows_match :: "('c \<Rightarrow> usize \<Rightarrow> grid_cell list \<Rightarrow> 'r) \<Rightarrow> ('c, 'r) render_shared \<Rightarrow> bool" where
  "cached_rows_match prepare sh \<longleftrightarrow>
     (case rs_render_context sh of
        None \<Rightarrow> True
      | Some (c, vc, vr) \<Rightarrow>
          length (rs_render_generations sh) = vr \<and> length (rs_row_cache sh) = vr \<and>
          (\<forall>i < vr. i < unat (gb_rows (rs_buffer sh)) \<longrightarrow>
             rs_render_generations sh ! i = gb_row_generations (rs_buffer sh) ! i \<longrightarrow>
             rs_row_cache sh ! i = Some (prepare c i (take vc (shown_row (rs_buffer sh) i)))))"

definition render_inv :: "('c \<Rightarrow> usize \<Rightarrow> grid_cell list \<Rightarrow> 'r) \<Rightarrow> nat \<Rightarrow> ('c, 'r) render_shared \<Rightarrow> bool" where
  "render_inv prepare budget sh \<longleftrightarrow>
     gb_wf (rs_buffer sh) \<and> unat (gb_generation (rs_buffer sh)) + budget < 2 ^ 64 - 1 \<and>
     (\<forall>g \<in> set (gb_row_generations (rs_buffer sh)). unat g \<le> unat (gb_generation (rs_buffer sh))) \<and>
     (\<forall>g \<in> set (rs_render_generations sh). g = - 1 \<or> unat g \<le> unat (gb_generation (rs_buffer sh))) \<and>
     cached_rows_match prepare sh"

lemma next_generation:
  fixes g :: u64
  assumes "unat g + 1 < 2 ^ 64 - 1"
  shows "unat (g + 1) = unat g + 1" "g + 1 \<noteq> - 1"
proof -
  show u: "unat (g + 1) = unat g + 1"
    using assms by (simp add: unat_word_ariths)
  have "unat (- 1 :: u64) = 2 ^ 64 - 1"
    by (simp add: unsigned_minus_1_eq_mask mask_eq_exp_minus_1)
  then show "g + 1 \<noteq> - 1"
    using u assms by (metis less_irrefl)
qed

lemma damage_keeps_inv:
  assumes inv: "render_inv prepare (Suc n) sh"
  obtains sh' where "render_step prepare (Damage u) sh = Some sh'" "render_inv prepare n sh'"
proof -
  let ?b = "rs_buffer sh" let ?g = "gb_generation ?b"
  have wf: "gb_wf ?b" and g: "unat ?g + 1 < 2 ^ 64 - 1"
    using inv by (auto simp: render_inv_def)
  note ng = next_generation [OF g]
  obtain sm b' where b': "buffer_apply u ?b = Some (sm, b')" "gb_wf b'" "gb_cols b' = cols u" "gb_rows b' = rows u"
    "gb_generation b' = ?g \<or> gb_generation b' = ?g + 1"
    and row: "\<And>y. y < unat (gb_rows b') \<Longrightarrow>
       gb_row_generations b' ! y = ?g + 1 \<and> gb_generation b' = ?g + 1
       \<or> gb_cols ?b = cols u \<and> gb_rows ?b = rows u
         \<and> gb_row_generations b' ! y = gb_row_generations ?b ! y
         \<and> row_cells_at (unat (cols u)) (gb_cells b') y = row_cells_at (unat (cols u)) (gb_cells ?b) y"
    by (rule buffer_apply_spec [OF wf, of u]) blast
  have le: "unat ?g \<le> unat (gb_generation b')" "unat (gb_generation b') + n < 2 ^ 64 - 1"
    using b'(5) ng(1) inv by (auto simp: render_inv_def)
  have gens: "unat h \<le> unat (gb_generation b')" if h: "h \<in> set (gb_row_generations b')" for h
  proof -
    obtain y where y: "y < unat (gb_rows b')" "h = gb_row_generations b' ! y"
      using h b'(2) by (auto simp: gb_wf_def in_set_conv_nth)
    then have "h = gb_generation b' \<or> h \<in> set (gb_row_generations ?b)"
      using row [OF y(1)] wf b'(4) by (auto simp: gb_wf_def)
    then show ?thesis
      using inv le(1) by (auto simp: render_inv_def dest: order_trans)
  qed
  have known: "h = - 1 \<or> unat h \<le> unat ?g" if "h \<in> set (rs_render_generations sh)" for h
    using inv that by (auto simp: render_inv_def)
  have "cached_rows_match prepare (sh\<lparr>rs_buffer := b'\<rparr>)"
  proof (cases "rs_render_context sh")
    case (Some p)
    obtain c vc vr where p: "p = (c, vc, vr)" by (cases p)
    have l: "length (rs_render_generations sh) = vr" "length (rs_row_cache sh) = vr"
      and old: "\<And>i. i < vr \<Longrightarrow> i < unat (gb_rows ?b) \<Longrightarrow>
        rs_render_generations sh ! i = gb_row_generations ?b ! i \<Longrightarrow>
        rs_row_cache sh ! i = Some (prepare c i (take vc (shown_row ?b i)))"
      using inv Some p by (auto simp: render_inv_def cached_rows_match_def)
    have "rs_row_cache sh ! i = Some (prepare c i (take vc (shown_row b' i)))"
      if i: "i < vr" "i < unat (gb_rows b')" "rs_render_generations sh ! i = gb_row_generations b' ! i" for i
    proof -
      have "rs_render_generations sh ! i \<noteq> ?g + 1"
        using known [of "rs_render_generations sh ! i"] ng i(1) l(1) by auto
      then show ?thesis
        using row [OF i(2)] i old [OF i(1)] b'(3,4) by auto
    qed
    then show ?thesis
      using Some p l by (simp add: cached_rows_match_def)
  qed (simp add: cached_rows_match_def)
  then have "render_inv prepare n (sh\<lparr>rs_buffer := b'\<rparr>)"
    using b'(2) le gens known by (auto simp: render_inv_def dest: order_trans)
  then show ?thesis
    using that b'(1) by simp
qed


abbreviation gen_of :: "grid_buffer \<Rightarrow> usize \<Rightarrow> u64" where
  "gen_of b i \<equiv> (case row_generation b i of Some g \<Rightarrow> g | None \<Rightarrow> 0)"

definition damaged :: "grid_buffer \<Rightarrow> usize \<Rightarrow> usize \<Rightarrow> changed_render_row" where
  "damaged b col_count i = \<lparr>crr_row = i, crr_generation = gen_of b i,
     crr_cells = (case buffer_row b i of None \<Rightarrow> [] | Some cells \<Rightarrow> take col_count cells)\<rparr>"

lemma damage_rows_eq:
  "damage_rows b col_count force row ks =
     (map (damaged b col_count)
        (filter (\<lambda>i. force \<or> ks ! (i - row) \<noteq> gen_of b i) [row..<row + length ks]),
      map (gen_of b) [row..<row + length ks])"
proof (induction ks arbitrary: row)
  case (Cons k ks)
  define js where "js = [row + 1..<row + 1 + length ks]"
  have all: "[row..<row + length (k # ks)] = row # js"
    using upt_conv_Cons [of row "row + length (k # ks)"] by (simp add: js_def)
  have "filter (\<lambda>i. force \<or> (k # ks) ! (i - row) \<noteq> gen_of b i) js
      = filter (\<lambda>i. force \<or> ks ! (i - (row + 1)) \<noteq> gen_of b i) js"
    by (rule filter_cong) (auto simp: nth_Cons' js_def)
  then show ?case
    unfolding all damage_rows.simps Cons.IH [of "row + 1", folded js_def]
    by (auto simp: Let_def damaged_def [of b col_count row])
qed simp

lemma foldl_cache:
  "length (foldl (\<lambda>cache r. cache[crr_row r := Some (f r)]) cache (map (damaged b n) is)) = length cache"
  "i < length cache \<Longrightarrow>
     foldl (\<lambda>cache r. cache[crr_row r := Some (f r)]) cache (map (damaged b n) is) ! i =
       (if i \<in> set is then Some (f (damaged b n i)) else cache ! i)"
proof -
  have row [simp]: "crr_row (damaged b n j) = j" for j
    by (simp add: damaged_def)
  show "length (foldl (\<lambda>cache r. cache[crr_row r := Some (f r)]) cache (map (damaged b n) is)) = length cache"
    by (induction "is" arbitrary: cache) auto
  show "i < length cache \<Longrightarrow>
     foldl (\<lambda>cache r. cache[crr_row r := Some (f r)]) cache (map (damaged b n) is) ! i =
       (if i \<in> set is then Some (f (damaged b n i)) else cache ! i)"
    by (induction "is" arbitrary: cache) (auto simp: nth_list_update)
qed

text \<open>After a live frame the cache holds the prepared cells of every visible row.\<close>

lemma live_frame:
  assumes inv: "render_inv prepare n sh" and nonempty: "gb_cells (rs_buffer sh) \<noteq> []"
    and fr: "prepaint prepare False False ctx fit_rows fit_cols sh = (painted, sh')"
  shows "painted" "rs_buffer sh' = rs_buffer sh"
    "rs_row_cache sh' = map (\<lambda>i. Some (prepare ctx i
        (take (min (unat (gb_cols (rs_buffer sh))) fit_cols) (shown_row (rs_buffer sh) i))))
      [0..<min (unat (gb_rows (rs_buffer sh))) fit_rows]"
    "render_inv prepare n sh'"
proof -
  let ?b = "rs_buffer sh"
  define vr where "vr = min (unat (gb_rows ?b)) fit_rows"
  define vc where "vc = min (unat (gb_cols ?b)) fit_cols"
  define force where "force \<longleftrightarrow> rs_render_context sh \<noteq> Some (ctx, vc, vr)
      \<or> length (rs_row_cache sh) < vr \<or> list_ex (\<lambda>r. r = None) (take vr (rs_row_cache sh))"
  define ks where "ks = resize vr (- 1) (rs_render_generations sh)"
  define rows_sent where "rows_sent = filter (\<lambda>i. force \<or> ks ! i \<noteq> gen_of ?b i) [0..<vr]"
  define cache where "cache = foldl (\<lambda>cache r. cache[crr_row r := Some (prepare ctx (crr_row r) (crr_cells r))])
      (resize vr None (take vr (rs_row_cache sh))) (map (damaged ?b vc) rows_sent)"
  have wf: "gb_wf ?b" using inv by (simp add: render_inv_def)
  have bounds: "vr \<le> unat (gb_rows ?b)" "vc \<le> unat (gb_cols ?b)"
    by (simp_all add: vr_def vc_def)
  have snap: "snapshot_damage ?b (rs_render_generations sh) vr vc force =
      (\<lparr>rds_cols = gb_cols ?b, rds_rows = gb_rows ?b, rds_cursor = gb_cursor ?b,
        rds_changed_rows = map (damaged ?b vc) rows_sent\<rparr>, map (gen_of ?b) [0..<vr])"
    using bounds
    by (simp add: snapshot_damage_def Let_def min_absorb1 damage_rows_eq flip: ks_def)
      (simp add: ks_def rows_sent_def)
  have sh': "painted" "sh' = sh\<lparr>rs_row_cache := cache, rs_render_generations := map (gen_of ?b) [0..<vr],
      rs_render_context := Some (ctx, vc, vr)\<rparr>"
    using fr [unfolded prepaint_def Let_def vr_def [symmetric] vc_def [symmetric] force_def [symmetric] snap]
      nonempty by (simp_all add: cache_def)
  have row: "buffer_row ?b i = Some (shown_row ?b i)" if "i < vr" for i
    using that bounds by (simp add: buffer_row_def row_cells_at_def Let_def)
  have gen: "gen_of ?b i = gb_row_generations ?b ! i" if "i < vr" for i
    using that bounds wf by (simp add: row_generation_def gb_wf_def)
  have cached: "cache ! i = Some (prepare ctx i (take vc (shown_row ?b i)))" if i: "i < vr" for i
  proof (cases "i \<in> set rows_sent")
    case True
    then show ?thesis
      using i row [OF i] by (simp add: cache_def foldl_cache) (simp add: damaged_def)
  next
    case False
    then have nf: "\<not> force" "ks ! i = gb_row_generations ?b ! i"
      using i gen [OF i] by (auto simp: rows_sent_def)
    then have ctx: "rs_render_context sh = Some (ctx, vc, vr)"
      by (simp add: force_def)
    then have "length (rs_render_generations sh) = vr" "length (rs_row_cache sh) = vr"
      using inv by (simp_all add: render_inv_def cached_rows_match_def)
    then show ?thesis
      using nf(2) ctx inv False i bounds
      by (simp add: cache_def foldl_cache ks_def render_inv_def cached_rows_match_def)
  qed
  have lc: "length cache = vr"
    by (simp add: cache_def foldl_cache)
  show "painted" "rs_buffer sh' = ?b"
    by (simp_all add: sh')
  show "rs_row_cache sh' = map (\<lambda>i. Some (prepare ctx i
        (take (min (unat (gb_cols ?b)) fit_cols) (shown_row ?b i)))) [0..<min (unat (gb_rows ?b)) fit_rows]"
    using lc cached by (simp add: sh' flip: vr_def vc_def) (rule nth_equalityI; simp)
  have "cached_rows_match prepare sh'"
    using lc cached by (simp add: sh' cached_rows_match_def)
  moreover have "gen_of ?b i \<in> set (gb_row_generations ?b)" if "i < vr" for i
    using gen [OF that] that bounds wf by (simp add: gb_wf_def)
  ultimately show "render_inv prepare n sh'"
    using inv by (auto simp: render_inv_def sh')
qed


lemma render_inv_mono: "render_inv prepare (Suc n) sh \<Longrightarrow> render_inv prepare n sh"
  by (simp add: render_inv_def)

lemma prepaint_quiet:
  "suspended \<Longrightarrow> prepaint prepare suspended scrolled ctx fit_rows fit_cols sh =
     (False, sh\<lparr>rs_row_cache := [], rs_render_generations := [], rs_render_context := None\<rparr>)"
  "\<not> suspended \<Longrightarrow> gb_cells (rs_buffer sh) = [] \<Longrightarrow>
     prepaint prepare suspended scrolled ctx fit_rows fit_cols sh = (False, sh)"
  "\<not> suspended \<Longrightarrow> gb_cells (rs_buffer sh) \<noteq> [] \<Longrightarrow> scrolled \<Longrightarrow>
     prepaint prepare suspended scrolled ctx fit_rows fit_cols sh = (False, sh\<lparr>rs_render_context := None\<rparr>)"
  by (simp_all add: prepaint_def)

lemma frame_keeps_inv:
  assumes "render_inv prepare n sh"
  shows "render_inv prepare n (snd (prepaint prepare suspended scrolled ctx fit_rows fit_cols sh))"
proof (cases "suspended \<or> gb_cells (rs_buffer sh) = [] \<or> scrolled")
  case True
  then consider suspended | "\<not> suspended" "gb_cells (rs_buffer sh) = []"
    | "\<not> suspended" "gb_cells (rs_buffer sh) \<noteq> []" scrolled
    by blast
  then show ?thesis
    using assms by cases (simp_all add: prepaint_quiet render_inv_def cached_rows_match_def)
next
  case False
  then show ?thesis
    using live_frame(4) [OF assms] by (cases "prepaint prepare False False ctx fit_rows fit_cols sh") auto
qed

lemma run_keeps_inv:
  "render_inv prepare (length ops) sh \<Longrightarrow>
     \<exists>sh'. render_run prepare ops sh = Some sh' \<and> render_inv prepare 0 sh'"
proof (induction ops arbitrary: sh)
  case (Cons p ps)
  show ?case
  proof (cases p)
    case (Damage u)
    obtain sh1 where "render_step prepare (Damage u) sh = Some sh1" "render_inv prepare (length ps) sh1"
      using damage_keeps_inv Cons.prems by (metis length_Cons)
    then show ?thesis
      using Cons.IH Damage by (simp del: render_step.simps)
  next
    case (Frame su sc ctx fr fc)
    have "render_inv prepare (length ps) (snd (prepaint prepare su sc ctx fr fc sh))"
      using frame_keeps_inv Cons.prems render_inv_mono by (metis length_Cons)
    then show ?thesis
      using Cons.IH Frame by simp
  qed
qed simp

lemma render_init_inv: "n < 2 ^ 64 - 1 \<Longrightarrow> render_inv prepare n (render_init cs rs)"
  by (simp add: render_inv_def render_init_def buffer_new_wf cached_rows_match_def)
    (simp add: buffer_new_def)

section \<open>Properties\<close>

text \<open>
  Claim C28. The row cache of the terminal widget never shows stale cells. Whatever updates arrive and
  whatever frames are drawn between them, suspended, scrolled back or live, at changing sizes and in
  changing contexts: no index is out of bounds, and after a live frame the cache holds, for every
  visible row, the row prepared from the cells the buffer holds now. The generations must not wrap,
  so there are fewer than \<open>2 ^ 64 - 1\<close> steps.
\<close>

theorem row_cache_never_stale:
  assumes "length ops < 2 ^ 64 - 1"
  shows "\<exists>sh. render_run prepare ops (render_init cs rs) = Some sh \<and>
    (let b = rs_buffer sh; (painted, sh') = prepaint prepare False False ctx fit_rows fit_cols sh
     in gb_cells b = [] \<or>
        painted \<and> rs_row_cache sh' =
          map (\<lambda>i. Some (prepare ctx i (take (min (unat (gb_cols b)) fit_cols) (the (buffer_row b i)))))
            [0..<min (unat (gb_rows b)) fit_rows])"
proof -
  obtain sh where sh: "render_run prepare ops (render_init cs rs) = Some sh" "render_inv prepare 0 sh"
    using run_keeps_inv render_init_inv [OF assms] by blast
  obtain painted sh' where p: "prepaint prepare False False ctx fit_rows fit_cols sh = (painted, sh')"
    by (metis surj_pair)
  have "the (buffer_row (rs_buffer sh) i) = shown_row (rs_buffer sh) i" if "i < unat (gb_rows (rs_buffer sh))" for i
    using that by (simp add: buffer_row_def row_cells_at_def Let_def)
  then show ?thesis
    using sh(1) live_frame [OF sh(2) _ p] p by (auto simp: Let_def)
qed

definition one_cell :: "u16 \<Rightarrow> u32 \<Rightarrow> grid_update" where
  "one_cell y ch = \<lparr>cols = 2, rows = 2, cursor_col = 0, cursor_row = 0, cursor_visible = True,
     is_full_snapshot = False, changed_rows = [\<lparr>row_y = y, row_cells = [BLANK\<lparr>scalar := ch\<rparr>]\<rparr>]\<rparr>"

theorem row_cache_never_stale_witness:
  "\<exists>sh. render_run (\<lambda>c i cells. cells) [Damage (one_cell 0 97), Frame False False () 9 9, Damage (one_cell 1 98)]
      (render_init 2 2) = Some sh \<and>
    (let b = rs_buffer sh; (painted, sh') = prepaint (\<lambda>c i cells. cells) False False () 9 9 sh
     in gb_cells b = [] \<or>
        painted \<and> rs_row_cache sh' =
          map (\<lambda>i. Some (take (min (unat (gb_cols b)) 9) (the (buffer_row b i))))
            [0..<min (unat (gb_rows b)) 9])"
  by (rule row_cache_never_stale) simp

text \<open>
  Patching the widget's buffer never panics and keeps it well formed, and the cells it then
  holds are those the protocol's own \<open>GridUpdate::apply\<close> puts into the same cells, unless a diff
  changes the shape of the grid and keeps the number of its cells.
\<close>

theorem buffer_apply_follows_protocol:
  assumes "gb_wf b"
    and "is_full_snapshot u \<or> gb_cols b = cols u \<and> gb_rows b = rows u
      \<or> unat (gb_cols b) * unat (gb_rows b) \<noteq> unat (cols u) * unat (rows u)"
  shows "\<exists>sm b'. buffer_apply u b = Some (sm, b') \<and> gb_wf b' \<and> gb_cols b' = cols u \<and> gb_rows b' = rows u
    \<and> grid_apply u (gb_cells b) = Some (gb_cells b')"
proof -
  obtain sm b' where b': "buffer_apply u b = Some (sm, b')" "gb_wf b'" "gb_cols b' = cols u" "gb_rows b' = rows u"
    "apply_rows (unat (cols u)) (unat (rows u)) (changed_rows u) (seeded u b) = Some (gb_cells b')"
    by (rule buffer_apply_spec [OF assms(1), of u]) blast
  have "grid_apply u (gb_cells b) = apply_rows (unat (cols u)) (unat (rows u)) (changed_rows u) (seeded u b)"
    using assms by (auto simp: grid_apply_def seeded_def Let_def gb_wf_def)
  then show ?thesis
    using b' by auto
qed

theorem buffer_apply_follows_protocol_witness:
  "\<exists>sm b'. buffer_apply (one_cell 1 98) (buffer_new 2 2) = Some (sm, b') \<and> gb_wf b'
    \<and> gb_cols b' = cols (one_cell 1 98) \<and> gb_rows b' = rows (one_cell 1 98)
    \<and> grid_apply (one_cell 1 98) (gb_cells (buffer_new 2 2)) = Some (gb_cells b')"
  by (rule buffer_apply_follows_protocol) (rule buffer_new_wf, simp add: buffer_new_def one_cell_def)

lemma replicate_2: "replicate 2 x = [x, x]"
  by (simp add: numeral_2_eq_2)

text \<open>
  The exception is real: a diff that turns a one by two grid into a two by one grid blanks the
  widget's buffer and leaves the old cells in the protocol's.
\<close>

theorem reshaping_diff_diverges:
  "\<exists>b u sm b'. gb_wf b \<and> buffer_apply u b = Some (sm, b') \<and> grid_apply u (gb_cells b) = Some (gb_cells b)
     \<and> gb_cells b' \<noteq> gb_cells b"
proof -
  let ?b = "(buffer_new 2 1)\<lparr>gb_cells := [BLANK\<lparr>scalar := 97\<rparr>, BLANK]\<rparr>"
  let ?u = "(one_cell 0 0)\<lparr>cols := 1, rows := 2, changed_rows := []\<rparr>"
  have "gb_wf ?b"
    by (simp add: gb_wf_def buffer_new_def)
  moreover have "grid_apply ?u (gb_cells ?b) = Some (gb_cells ?b)"
    by (simp add: grid_apply_def one_cell_def)
  moreover obtain sm b' where b': "buffer_apply ?u ?b = Some (sm, b')"
    "apply_rows (unat (cols ?u)) (unat (rows ?u)) (changed_rows ?u) (seeded ?u ?b) = Some (gb_cells b')"
    by (rule buffer_apply_spec [OF \<open>gb_wf ?b\<close>, of ?u]) blast
  moreover have "gb_cells b' \<noteq> gb_cells ?b"
    using b'(2) by (auto simp: seeded_def one_cell_def buffer_new_def BLANK_def replicate_2)
  ultimately show ?thesis
    by blast
qed

end
