(* ===== verification/Term_Scrollback.thy ===== *)
theory Term_Scrollback
  imports Term_Buffer Complex_Main
begin

text \<open>
  \<^verbatim>\<open>homie-term/src/scrollback.rs\<close>: the window onto history and live grid. Rows have absolute numbers;
  history rows are fetched in ranges, one request at a time, and cached by number; while scrolled
  back the view is pinned to an absolute row. Shown: the invariant of the viewport along every
  sequence of operations, that new output does not move the rows being read, and that an answer
  which covers the window completes it and ends the fetching.
\<close>

section \<open>Machine arithmetic\<close>

text \<open>
  An \<open>i64\<close> is an \<open>int\<close>; the saturating operations are written out. The two plain subtractions of the
  source are differences of rows in a range whose ends are in order.
\<close>

definition i64_min :: int where "i64_min = - (2 ^ 63)"
definition i64_max :: int where "i64_max = 2 ^ 63 - 1"

definition i64_sat :: "int \<Rightarrow> int" where
  "i64_sat x = max i64_min (min i64_max x)"

definition saturating_add :: "int \<Rightarrow> int \<Rightarrow> int" where
  "saturating_add a b = i64_sat (a + b)"

definition saturating_sub :: "int \<Rightarrow> int \<Rightarrow> int" where
  "saturating_sub a b = i64_sat (a - b)"

text \<open>\<open>i64::try_from(n).unwrap_or(i64::MAX)\<close>.\<close>

definition i64_of_usize :: "usize \<Rightarrow> int" where
  "i64_of_usize n = min i64_max (int n)"

definition clamp :: "int \<Rightarrow> int \<Rightarrow> int \<Rightarrow> int" where
  "clamp x lo hi = (if x < lo then lo else if x > hi then hi else x)"

text \<open>
  Single precision numbers are the rationals they denote; a product is rounded to 24 significant
  bits, halves to even. The source's factors are finite and their products in the normal range.
\<close>

definition two_to :: "int \<Rightarrow> rat" where
  "two_to e = (if e \<ge> 0 then 2 ^ nat e else 1 / 2 ^ nat (- e))"

fun bit_count :: "nat \<Rightarrow> nat" where
  "bit_count n = (if n = 0 then 0 else Suc (bit_count (n div 2)))"

declare bit_count.simps [simp del]

definition f32_exponent :: "rat \<Rightarrow> int" where
  "f32_exponent q =
     (let (a, b) = quotient_of q; e = int (bit_count (nat a)) - int (bit_count (nat b))
      in if two_to e \<le> q then e else e - 1)"

definition round_half_even :: "rat \<Rightarrow> int" where
  "round_half_even q =
     (let f = \<lfloor>q\<rfloor>; d = q - of_int f
      in if d < 1 / 2 then f else if d > 1 / 2 then f + 1 else if even f then f else f + 1)"

definition f32_round :: "rat \<Rightarrow> rat" where
  "f32_round q =
     (if q \<le> 0 then 0
      else let u = two_to (f32_exponent q - 23) in of_int (round_half_even (q / u)) * u)"

text \<open>\<open>f32::round\<close>, halves away from zero, on numbers that are not negative.\<close>

definition f32_round_int :: "rat \<Rightarrow> int" where
  "f32_round_int q = \<lfloor>q + 1 / 2\<rfloor>"

section \<open>The row cache\<close>

text \<open>A \<open>BTreeMap\<close> is its list of entries in key order.\<close>

type_synonym row_map = "(int \<times> grid_cell list) list"

fun bt_insert :: "int \<Rightarrow> 'v \<Rightarrow> (int \<times> 'v) list \<Rightarrow> (int \<times> 'v) list" where
  "bt_insert k v [] = [(k, v)]"
| "bt_insert k v ((k', v') # m) =
     (if k < k' then (k, v) # (k', v') # m
      else if k = k' then (k, v) # m
      else (k', v') # bt_insert k v m)"

section \<open>The viewport\<close>

definition MAX_SCROLLBACK_CACHE_ROWS :: nat where "MAX_SCROLLBACK_CACHE_ROWS = 512"

type_synonym row_range = "int \<times> int" \<comment> \<open>start, exclusive end\<close>

record scrollback_request =
  sr_first_row :: int
  sr_max_rows :: int

datatype scrollback_apply_error =
    NegativeRowCount int
  | RowCountMismatch usize usize \<comment> \<open>declared, decoded\<close>
  | Codec grid_codec_error

record read_scrollback_cells_result =
  rsc_payload :: bytes
  rsc_first_row :: int
  rsc_row_count :: int
  rsc_total_rows :: int
  rsc_live_start_row :: int
  rsc_cols :: int
  rsc_content_seq :: u64

record scrollback_viewport =
  vp_view_offset :: int
  vp_anchor :: "int option"
  vp_live_start_row :: int
  vp_total_rows :: int
  vp_geometry_known :: bool
  vp_cache_seq :: "u64 option"
  vp_cache :: row_map
  vp_in_flight :: "row_range option"
  vp_queued :: "row_range option"

definition viewport_default :: scrollback_viewport where
  "viewport_default = \<lparr>vp_view_offset = 0, vp_anchor = None, vp_live_start_row = 0, vp_total_rows = 0,
     vp_geometry_known = False, vp_cache_seq = None, vp_cache = [], vp_in_flight = None, vp_queued = None\<rparr>"

definition request_range :: "scrollback_request \<Rightarrow> row_range" where
  "request_range r = (sr_first_row r, saturating_add (sr_first_row r) (sr_max_rows r))"

definition cached_row :: "scrollback_viewport \<Rightarrow> int \<Rightarrow> grid_cell list option" where
  "cached_row v row = map_of (vp_cache v) row"

definition max_offset :: "scrollback_viewport \<Rightarrow> usize \<Rightarrow> int" where
  "max_offset v visible_rows =
     (if vp_geometry_known v then max (vp_live_start_row v) 0
      else max (saturating_add (vp_view_offset v) (i64_of_usize visible_rows)) 0)"

definition merge_range :: "row_range option \<Rightarrow> row_range \<Rightarrow> row_range option" where
  "merge_range target incoming =
     (if fst incoming \<ge> snd incoming then target
      else case target of
        Some existing \<Rightarrow> Some (min (fst existing) (fst incoming), max (snd existing) (snd incoming))
      | None \<Rightarrow> Some incoming)"

definition sync_anchor :: "scrollback_viewport \<Rightarrow> scrollback_viewport" where
  "sync_anchor v = v\<lparr>vp_anchor :=
     (if vp_view_offset v > 0 then Some (saturating_sub (vp_live_start_row v) (vp_view_offset v)) else None)\<rparr>"

definition queue_missing_window :: "usize \<Rightarrow> scrollback_viewport \<Rightarrow> scrollback_viewport" where
  "queue_missing_window visible_rows v =
     (if vp_view_offset v \<le> 0 \<or> visible_rows = 0 then v
      else let visible = i64_of_usize visible_rows;
               top = saturating_sub (vp_live_start_row v) (vp_view_offset v);
               needed_end = min (vp_live_start_row v) (saturating_add top visible)
           in if top \<ge> needed_end \<or> list_all (\<lambda>row. cached_row v row \<noteq> None) [top..needed_end - 1] then v
              else let request = (max (saturating_sub top visible) 0, saturating_add needed_end visible)
                   in if vp_in_flight v = Some request \<or> vp_queued v = Some request then v
                      else v\<lparr>vp_queued := merge_range (vp_queued v) request\<rparr>)"

definition set_view_offset :: "int \<Rightarrow> usize \<Rightarrow> scrollback_viewport \<Rightarrow> bool \<times> scrollback_viewport" where
  "set_view_offset off visible_rows v =
     (let clamped = clamp off 0 (max_offset v visible_rows) in
      if clamped = vp_view_offset v then (False, v)
      else (True, queue_missing_window visible_rows (sync_anchor (v\<lparr>vp_view_offset := clamped\<rparr>))))"

definition scroll_by :: "int \<Rightarrow> usize \<Rightarrow> scrollback_viewport \<Rightarrow> bool \<times> scrollback_viewport" where
  "scroll_by lines visible_rows v =
     set_view_offset (saturating_add (vp_view_offset v) lines) visible_rows v"

definition scroll_to_live :: "usize \<Rightarrow> scrollback_viewport \<Rightarrow> bool \<times> scrollback_viewport" where
  "scroll_to_live visible_rows v = set_view_offset 0 visible_rows v"

definition anchor_row :: "rat \<Rightarrow> usize \<Rightarrow> int" where
  "anchor_row anchor visible_rows =
     f32_round_int (f32_round (max 0 (min 1 anchor) * f32_round (of_nat visible_rows)))"

definition scroll_to_absolute :: "int \<Rightarrow> rat \<Rightarrow> usize \<Rightarrow> scrollback_viewport \<Rightarrow> bool \<times> scrollback_viewport" where
  "scroll_to_absolute row anchor visible_rows v =
     set_view_offset
       (saturating_sub (saturating_add (vp_live_start_row v) (anchor_row anchor visible_rows)) row)
       visible_rows v"

definition absolute_row :: "scrollback_viewport \<Rightarrow> usize \<Rightarrow> int" where
  "absolute_row v window_row =
     saturating_add (saturating_sub (vp_live_start_row v) (vp_view_offset v)) (i64_of_usize window_row)"

definition window_row_for_absolute :: "scrollback_viewport \<Rightarrow> int \<Rightarrow> int option" where
  "window_row_for_absolute v row =
     (let d = row - absolute_row v 0 in if i64_min \<le> d \<and> d \<le> i64_max then Some d else None)"

definition normalized_row :: "grid_cell list \<Rightarrow> usize \<Rightarrow> grid_cell list" where
  "normalized_row source ncols =
     (let copied = min (length source) ncols in take copied source @ replicate (ncols - copied) BLANK)"

definition row_at_absolute :: "scrollback_viewport \<Rightarrow> grid_buffer \<Rightarrow> int \<Rightarrow> grid_cell list" where
  "row_at_absolute v buffer row =
     (let source = (if row \<ge> vp_live_start_row v then buffer_row buffer (nat (row - vp_live_start_row v))
                    else cached_row v row)
      in normalized_row (case source of Some cells \<Rightarrow> cells | None \<Rightarrow> []) (unat (gb_cols buffer)))"

definition window_row :: "scrollback_viewport \<Rightarrow> grid_buffer \<Rightarrow> usize \<Rightarrow> grid_cell list" where
  "window_row v buffer row =
     (if vp_view_offset v = 0
      then normalized_row (case buffer_row buffer row of Some cells \<Rightarrow> cells | None \<Rightarrow> []) (unat (gb_cols buffer))
      else row_at_absolute v buffer (absolute_row v row))"

definition compose :: "scrollback_viewport \<Rightarrow> grid_buffer \<Rightarrow> usize \<Rightarrow> grid_cell list list" where
  "compose v buffer visible_rows = map (window_row v buffer) [0..<visible_rows]"

definition begin_fetch :: "usize \<Rightarrow> scrollback_viewport \<Rightarrow> scrollback_request option \<times> scrollback_viewport" where
  "begin_fetch visible_rows v =
     (let v = queue_missing_window visible_rows v in
      if vp_in_flight v \<noteq> None then (None, v)
      else case vp_queued v of
        None \<Rightarrow> (None, v)
      | Some rg \<Rightarrow>
          let v = v\<lparr>vp_queued := None\<rparr> in
          if fst rg \<ge> snd rg then (None, v)
          else (Some \<lparr>sr_first_row = fst rg, sr_max_rows = snd rg - fst rg\<rparr>,
                v\<lparr>vp_in_flight := Some rg\<rparr>))"

definition fail_fetch :: "scrollback_viewport \<Rightarrow> scrollback_viewport" where
  "fail_fetch v =
     (case vp_in_flight v of
        Some rg \<Rightarrow> v\<lparr>vp_in_flight := None, vp_queued := merge_range (vp_queued v) rg\<rparr>
      | None \<Rightarrow> v)"

text \<open>The loop that drops the entries farthest from the top of the window.\<close>

function cap_rows :: "int \<Rightarrow> row_map \<Rightarrow> row_map" where
  "cap_rows anchor m =
     (if length m \<le> MAX_SCROLLBACK_CACHE_ROWS \<or> m = [] then m
      else if \<bar>fst (hd m) - anchor\<bar> \<ge> \<bar>fst (last m) - anchor\<bar> then cap_rows anchor (tl m)
      else cap_rows anchor (butlast m))"
  by pat_completeness auto
termination
  by (relation "measure (\<lambda>(anchor, m). length m)") auto

declare cap_rows.simps [simp del]

definition cap_cache_near_viewport :: "scrollback_viewport \<Rightarrow> scrollback_viewport" where
  "cap_cache_near_viewport v = v\<lparr>vp_cache :=
     cap_rows (saturating_sub (vp_live_start_row v) (vp_view_offset v)) (vp_cache v)\<rparr>"

definition insert_rows :: "int \<Rightarrow> grid_cell list list \<Rightarrow> row_map \<Rightarrow> row_map" where
  "insert_rows first_row rs m =
     foldl (\<lambda>m (index, row). bt_insert (saturating_add first_row (i64_of_usize index)) row m) m
       (enumerate 0 rs)"

definition apply_history :: "grid_cell list list \<Rightarrow> int \<Rightarrow> int \<Rightarrow> int \<Rightarrow> u64 \<Rightarrow> usize
    \<Rightarrow> scrollback_viewport \<Rightarrow> scrollback_viewport" where
  "apply_history rs first_row live_start_row total_rows content_seq visible_rows v =
     (let v = (if vp_cache_seq v \<noteq> Some content_seq
               then v\<lparr>vp_cache := [], vp_cache_seq := Some content_seq\<rparr> else v);
          v = v\<lparr>vp_cache := insert_rows first_row rs (vp_cache v),
                vp_live_start_row := live_start_row, vp_total_rows := max total_rows 0,
                vp_geometry_known := True\<rparr>;
          v = (case vp_anchor v of
                 Some a \<Rightarrow> v\<lparr>vp_view_offset := saturating_sub live_start_row a\<rparr>
               | None \<Rightarrow> v);
          v = v\<lparr>vp_view_offset := clamp (vp_view_offset v) 0 (max_offset v visible_rows)\<rparr>;
          v = cap_cache_near_viewport (sync_anchor v)
      in queue_missing_window visible_rows (v\<lparr>vp_queued := None\<rparr>))"

definition apply_geometry :: "int \<Rightarrow> int \<Rightarrow> u64 \<Rightarrow> usize \<Rightarrow> scrollback_viewport \<Rightarrow> scrollback_viewport" where
  "apply_geometry live_start_row total_rows content_seq visible_rows v =
     apply_history [] live_start_row live_start_row total_rows content_seq visible_rows v"

definition complete_fetch :: "read_scrollback_cells_result \<Rightarrow> usize \<Rightarrow> scrollback_viewport
    \<Rightarrow> (scrollback_apply_error, unit) result \<times> scrollback_viewport" where
  "complete_fetch r visible_rows v =
     (let v = v\<lparr>vp_in_flight := None\<rparr> in
      if rsc_row_count r < 0 then (Inl (NegativeRowCount (rsc_row_count r)), v)
      else let row_count = nat (rsc_row_count r) in
        case decode_rows (rsc_payload r) row_count of
          Inl e \<Rightarrow> (Inl (Codec e), v)
        | Inr decoded \<Rightarrow>
            if length decoded \<noteq> row_count then (Inl (RowCountMismatch row_count (length decoded)), v)
            else (Inr (), apply_history decoded (rsc_first_row r) (rsc_live_start_row r)
                    (rsc_total_rows r) (rsc_content_seq r) visible_rows v))"

definition enter_alt_screen :: "scrollback_viewport \<Rightarrow> bool \<times> scrollback_viewport" where
  "enter_alt_screen v =
     (if vp_view_offset v = 0 then (False, v)
      else (True, v\<lparr>vp_view_offset := 0, vp_anchor := None, vp_queued := None\<rparr>))"


section \<open>The cache as a map\<close>

abbreviation in_key_order :: "(int \<times> 'v) list \<Rightarrow> bool" where
  "in_key_order m \<equiv> sorted_wrt (<) (map fst m)"

lemma bt_insert_keys: "set (map fst (bt_insert k v m)) = insert k (set (map fst m))"
  by (induction k v m rule: bt_insert.induct) auto

lemma bt_insert_ordered: "in_key_order m \<Longrightarrow> in_key_order (bt_insert k v m)"
proof (induction k v m rule: bt_insert.induct)
  case (2 k v k' v' m)
  then show ?case
    using bt_insert_keys [of k v m] by (auto simp flip: set_map)
qed simp

lemma bt_insert_lookup: "in_key_order m \<Longrightarrow> map_of (bt_insert k v m) = (map_of m)(k \<mapsto> v)"
  by (induction k v m rule: bt_insert.induct) (auto simp: fun_eq_iff)

lemma insert_rows_simps:
  "insert_rows f [] m = m"
  "insert_rows f (rs @ [r]) m = bt_insert (saturating_add f (i64_of_usize (length rs))) r (insert_rows f rs m)"
  by (simp_all add: insert_rows_def enumerate_append_eq)

lemma insert_rows_ordered: "in_key_order m \<Longrightarrow> in_key_order (insert_rows f rs m)"
  by (induction rs rule: rev_induct) (simp_all add: insert_rows_simps bt_insert_ordered)

lemma insert_rows_lookup:
  "in_key_order m \<Longrightarrow> 0 \<le> f \<Longrightarrow> f + int (length rs) \<le> i64_max + 1 \<Longrightarrow>
     map_of (insert_rows f rs m) k =
       (if f \<le> k \<and> k < f + int (length rs) then Some (rs ! nat (k - f)) else map_of m k)"
proof (induction rs rule: rev_induct)
  case (snoc r rs)
  have "saturating_add f (i64_of_usize (length rs)) = f + int (length rs)"
    using snoc.prems by (auto simp: saturating_add_def i64_of_usize_def i64_sat_def i64_min_def i64_max_def)
  then show ?case
    using snoc by (auto simp: insert_rows_simps bt_insert_lookup insert_rows_ordered nth_append)
qed (auto simp: insert_rows_simps)

lemma ordered_drop_ends:
  assumes "in_key_order m" "m \<noteq> []"
  shows "in_key_order (tl m)" "in_key_order (butlast m)"
    "k \<noteq> fst (hd m) \<Longrightarrow> map_of (tl m) k = map_of m k"
    "k \<noteq> fst (last m) \<Longrightarrow> map_of (butlast m) k = map_of m k"
proof -
  obtain p n where m: "m = p # n" using assms(2) by (cases m) auto
  show "in_key_order (tl m)" using assms m by simp
  show "k \<noteq> fst (hd m) \<Longrightarrow> map_of (tl m) k = map_of m k"
    using m by (cases p) simp
  have l: "m = butlast m @ [last m]" using assms(2) by simp
  have "in_key_order (butlast m @ [last m])" using assms l by simp
  then show "in_key_order (butlast m)" by (simp add: sorted_wrt_append)
  have "map_of m k = map_of (butlast m @ [last m]) k"
    using l by simp
  moreover obtain a b where "last m = (a, b)" by fastforce
  ultimately show "k \<noteq> fst (last m) \<Longrightarrow> map_of (butlast m) k = map_of m k"
    by (simp add: map_add_def split: option.splits)
qed

lemma cap_rows_basic:
  "in_key_order m \<Longrightarrow> in_key_order (cap_rows a m) \<and> length (cap_rows a m) \<le> MAX_SCROLLBACK_CACHE_ROWS"
proof (induction a m rule: cap_rows.induct)
  case (1 a m)
  show ?case
  proof (cases "length m \<le> MAX_SCROLLBACK_CACHE_ROWS \<or> m = []")
    case True
    then show ?thesis using "1.prems" by (auto simp: cap_rows.simps [of a m])
  next
    case False
    then show ?thesis
      using "1.IH" ordered_drop_ends [of m] "1.prems" by (simp add: cap_rows.simps [of a m])
  qed
qed

text \<open>Rows of a window of up to 256 rows survive the capping: whatever is dropped is farther away.\<close>

lemma near_rows_not_farthest:
  assumes ord: "in_key_order m" and big: "\<not> length m \<le> MAX_SCROLLBACK_CACHE_ROWS"
    and k: "k \<in> set (map fst m)" "a \<le> k" "k < a + 256"
  shows "\<bar>fst (hd m) - a\<bar> \<ge> \<bar>fst (last m) - a\<bar> \<Longrightarrow> k \<noteq> fst (hd m)"
    "\<not> \<bar>fst (hd m) - a\<bar> \<ge> \<bar>fst (last m) - a\<bar> \<Longrightarrow> k \<noteq> fst (last m)"
proof -
  let ?ks = "map fst m"
  have dist: "distinct ?ks"
    using ord by (simp add: strict_sorted_iff)
  have ne: "?ks \<noteq> []" using k by auto
  have within: "hd ?ks \<le> x \<and> x \<le> last ?ks" if x: "x \<in> set ?ks" for x
  proof -
    obtain i where i: "i < length ?ks" "x = ?ks ! i"
      using x unfolding in_set_conv_nth by blast
    have "sorted ?ks" using ord by (simp add: strict_sorted_iff)
    then have "?ks ! 0 \<le> ?ks ! i" "?ks ! i \<le> ?ks ! (length ?ks - 1)"
      using i(1) by (auto intro!: sorted_nth_mono simp del: nth_map length_map)
    then show ?thesis
      unfolding i(2) hd_conv_nth [OF ne] last_conv_nth [OF ne] by simp
  qed
  have hl: "hd ?ks = fst (hd m)" "last ?ks = fst (last m)"
    using ne by (simp_all add: hd_map last_map)
  have card: "card (set ?ks) = length m"
    using dist by (metis distinct_card length_map)
  show "k \<noteq> fst (hd m)" if far: "\<bar>fst (hd m) - a\<bar> \<ge> \<bar>fst (last m) - a\<bar>"
  proof
    assume "k = fst (hd m)"
    then have "set ?ks \<subseteq> {k}"
      using within k hl far by fastforce
    then have "card (set ?ks) \<le> 1"
      using card_mono [of "{k}" "set ?ks"] by simp
    then show False
      using card big by (simp add: MAX_SCROLLBACK_CACHE_ROWS_def)
  qed
  show "k \<noteq> fst (last m)" if far: "\<not> \<bar>fst (hd m) - a\<bar> \<ge> \<bar>fst (last m) - a\<bar>"
  proof
    assume "k = fst (last m)"
    then have "set ?ks \<subseteq> {2 * a - k + 1..k}"
      using within k hl far by fastforce
    then have "card (set ?ks) \<le> nat (2 * (k - a))"
      using card_mono [of "{2 * a - k + 1..k}" "set ?ks"] by simp
    then show False
      using card big k by (simp add: MAX_SCROLLBACK_CACHE_ROWS_def)
  qed
qed

lemma cap_rows_keeps_near:
  "in_key_order m \<Longrightarrow> a \<le> k \<Longrightarrow> k < a + 256 \<Longrightarrow> map_of (cap_rows a m) k = map_of m k"
proof (induction a m rule: cap_rows.induct)
  case (1 a m)
  show ?case
  proof (cases "length m \<le> MAX_SCROLLBACK_CACHE_ROWS \<or> m = []")
    case True
    then show ?thesis by (auto simp: cap_rows.simps [of a m])
  next
    case False
    note near = near_rows_not_farthest [OF "1.prems"(1) _ _ "1.prems"(2,3)]
    have "fst (hd m) \<in> set (map fst m)" "fst (last m) \<in> set (map fst m)"
      using False by auto
    then have "\<bar>fst (hd m) - a\<bar> \<ge> \<bar>fst (last m) - a\<bar> \<Longrightarrow> k \<noteq> fst (hd m)"
      "\<not> \<bar>fst (hd m) - a\<bar> \<ge> \<bar>fst (last m) - a\<bar> \<Longrightarrow> k \<noteq> fst (last m)"
      using near False by metis+
    then show ?thesis
      using "1.IH" "1.prems" False ordered_drop_ends [of m] by (auto simp: cap_rows.simps [of a m])
  qed
qed


section \<open>The invariant\<close>

fun range_ok :: "row_range option \<Rightarrow> bool" where
  "range_ok None = True"
| "range_ok (Some (a, b)) = (a < b)"

definition vp_inv :: "scrollback_viewport \<Rightarrow> bool" where
  "vp_inv v \<longleftrightarrow>
     0 \<le> vp_view_offset v \<and>
     (vp_geometry_known v \<longrightarrow> vp_view_offset v \<le> max (vp_live_start_row v) 0) \<and>
     vp_anchor v = (if vp_view_offset v > 0
                    then Some (saturating_sub (vp_live_start_row v) (vp_view_offset v)) else None) \<and>
     in_key_order (vp_cache v) \<and> length (vp_cache v) \<le> MAX_SCROLLBACK_CACHE_ROWS \<and>
     range_ok (vp_in_flight v) \<and> range_ok (vp_queued v)"

datatype viewport_op =
    SetOffset int usize
  | ScrollBy int usize
  | ToLive usize
  | ToAbsolute int rat usize
  | BeginFetch usize
  | CompleteFetch read_scrollback_cells_result usize
  | FailFetch
  | Geometry int int u64 usize
  | AltScreen

fun viewport_step :: "scrollback_viewport \<Rightarrow> viewport_op \<Rightarrow> scrollback_viewport" where
  "viewport_step v (SetOffset off n) = snd (set_view_offset off n v)"
| "viewport_step v (ScrollBy lines n) = snd (scroll_by lines n v)"
| "viewport_step v (ToLive n) = snd (scroll_to_live n v)"
| "viewport_step v (ToAbsolute row anchor n) = snd (scroll_to_absolute row anchor n v)"
| "viewport_step v (BeginFetch n) = snd (begin_fetch n v)"
| "viewport_step v (CompleteFetch r n) = snd (complete_fetch r n v)"
| "viewport_step v FailFetch = fail_fetch v"
| "viewport_step v (Geometry live tot sq n) = apply_geometry live tot sq n v"
| "viewport_step v AltScreen = snd (enter_alt_screen v)"

lemma merge_range_ok: "range_ok t \<Longrightarrow> range_ok (merge_range t r)"
  by (cases t; cases r) (auto simp: merge_range_def)

text \<open>Queueing changes nothing but the queue.\<close>

lemma queue_missing_cases:
  obtains "queue_missing_window n v = v"
  | r where "queue_missing_window n v = v\<lparr>vp_queued := merge_range (vp_queued v) r\<rparr>"
proof -
  have "queue_missing_window n v = v
      \<or> (\<exists>r. queue_missing_window n v = v\<lparr>vp_queued := merge_range (vp_queued v) r\<rparr>)"
    unfolding queue_missing_window_def Let_def by auto
  then show thesis
    using that by blast
qed

lemma queue_missing_keeps:
  "vp_view_offset (queue_missing_window n v) = vp_view_offset v"
  "vp_live_start_row (queue_missing_window n v) = vp_live_start_row v"
  "vp_cache (queue_missing_window n v) = vp_cache v"
  "vp_in_flight (queue_missing_window n v) = vp_in_flight v"
  "vp_inv v \<Longrightarrow> vp_inv (queue_missing_window n v)"
  by (cases rule: queue_missing_cases [of n v]; simp add: vp_inv_def merge_range_ok)+

lemma max_offset_nonneg: "0 \<le> max_offset v n"
  by (simp add: max_offset_def)

lemma clamp_bounds: "lo \<le> hi \<Longrightarrow> lo \<le> clamp x lo hi \<and> clamp x lo hi \<le> hi"
  by (simp add: clamp_def)

lemma set_view_offset_inv: "vp_inv v \<Longrightarrow> vp_inv (snd (set_view_offset off n v))"
proof -
  assume v: "vp_inv v"
  let ?c = "clamp off 0 (max_offset v n)"
  have "0 \<le> ?c" "?c \<le> max_offset v n"
    using clamp_bounds [OF max_offset_nonneg] by auto
  then have "vp_inv (sync_anchor (v\<lparr>vp_view_offset := ?c\<rparr>))"
    using v by (auto simp: vp_inv_def sync_anchor_def max_offset_def)
  then show ?thesis
    using v queue_missing_keeps(5) by (simp add: set_view_offset_def Let_def)
qed

definition history_applied :: "grid_cell list list \<Rightarrow> int \<Rightarrow> int \<Rightarrow> int \<Rightarrow> u64 \<Rightarrow> scrollback_viewport
    \<Rightarrow> scrollback_viewport" where
  "history_applied rs first_row live tot sq v =
     (let off = clamp (case vp_anchor v of Some a \<Rightarrow> saturating_sub live a | None \<Rightarrow> vp_view_offset v)
                  0 (max live 0);
          top = saturating_sub live off
      in v\<lparr>vp_view_offset := off, vp_anchor := (if off > 0 then Some top else None),
           vp_live_start_row := live, vp_total_rows := max tot 0, vp_geometry_known := True,
           vp_cache_seq := Some sq,
           vp_cache := cap_rows top (insert_rows first_row rs
             (if vp_cache_seq v = Some sq then vp_cache v else [])),
           vp_queued := None\<rparr>)"

lemma apply_history_eq:
  "apply_history rs first_row live tot sq n v =
     queue_missing_window n (history_applied rs first_row live tot sq v)"
  by (cases "vp_anchor v"; cases "vp_cache_seq v = Some sq")
    (auto simp: apply_history_def history_applied_def Let_def sync_anchor_def
      cap_cache_near_viewport_def max_offset_def
      intro!: arg_cong [of _ _ "queue_missing_window n"] scrollback_viewport.equality)

lemma history_applied_inv:
  assumes "vp_inv v"
  shows "vp_inv (history_applied rs first_row live tot sq v)"
proof -
  define off where "off = clamp (case vp_anchor v of Some a \<Rightarrow> saturating_sub live a | None \<Rightarrow> vp_view_offset v)
      0 (max live 0)"
  let ?m = "insert_rows first_row rs (if vp_cache_seq v = Some sq then vp_cache v else [])"
  have "0 \<le> off" "off \<le> max live 0"
    using clamp_bounds [of 0 "max live 0"] by (auto simp: off_def)
  moreover have "in_key_order ?m"
    using assms by (intro insert_rows_ordered) (simp add: vp_inv_def)
  moreover have "range_ok (vp_in_flight v)"
    using assms by (simp add: vp_inv_def)
  ultimately show ?thesis
    using cap_rows_basic [of ?m "saturating_sub live off"]
    unfolding history_applied_def Let_def off_def [symmetric] by (simp add: vp_inv_def)
qed

lemma begin_fetch_inv:
  assumes "vp_inv v"
  shows "vp_inv (snd (begin_fetch n v))"
proof -
  have "vp_inv (queue_missing_window n v)"
    using assms by (rule queue_missing_keeps(5))
  then show ?thesis
    by (auto simp: begin_fetch_def Let_def vp_inv_def split: option.splits)
qed

lemma viewport_step_inv:
  assumes "vp_inv v"
  shows "vp_inv (viewport_step v i)"
proof (cases i)
  case (CompleteFetch r n)
  have idle: "vp_inv (v\<lparr>vp_in_flight := None\<rparr>)"
    using assms by (simp add: vp_inv_def)
  then show ?thesis
    using queue_missing_keeps(5) [OF history_applied_inv [OF idle]] CompleteFetch
    by (auto simp: complete_fetch_def Let_def apply_history_eq split: sum.splits)
next
  case (Geometry live tot sq n)
  then show ?thesis
    using queue_missing_keeps(5) [OF history_applied_inv [OF assms]]
    by (simp add: apply_geometry_def apply_history_eq)
next
  case FailFetch
  then show ?thesis
    using assms by (auto simp: fail_fetch_def vp_inv_def merge_range_ok split: option.splits)
next
  case AltScreen
  then show ?thesis
    using assms by (auto simp: enter_alt_screen_def vp_inv_def)
qed (use assms set_view_offset_inv begin_fetch_inv in
    \<open>auto simp: scroll_by_def scroll_to_live_def scroll_to_absolute_def\<close>)

interpretation vp: state_machine viewport_step vp_inv
  by unfold_locales (rule viewport_step_inv)


section \<open>A covering answer\<close>

lemma i64_sat_id: "- (2 ^ 63) \<le> x \<Longrightarrow> x < 2 ^ 63 \<Longrightarrow> i64_sat x = x"
  by (simp add: i64_sat_def i64_min_def i64_max_def)

lemma i64_sat_idem [simp]: "i64_sat (i64_sat x) = i64_sat x"
  by (simp add: i64_sat_def i64_min_def i64_max_def)

lemma i64_of_small [simp]: "n \<le> 256 \<Longrightarrow> i64_of_usize n = int n"
  by (simp add: i64_of_usize_def i64_max_def)

lemma absolute_row_0: "absolute_row v 0 = saturating_sub (vp_live_start_row v) (vp_view_offset v)"
  by (simp add: absolute_row_def saturating_add_def saturating_sub_def)

text \<open>The state after the answer, for a view pinned at \<open>tp\<close>.\<close>

lemma history_applied_pinned:
  assumes "vp_anchor v = Some tp" "0 \<le> tp" "tp \<le> live" "live \<le> 2 ^ 62"
    and h: "h = history_applied rs first_row live tot sq v"
  shows "vp_view_offset h = live - tp" "vp_live_start_row h = live" "vp_queued h = None"
    "vp_in_flight h = vp_in_flight v"
    "vp_cache h = cap_rows tp (insert_rows first_row rs (if vp_cache_seq v = Some sq then vp_cache v else []))"
proof -
  have "saturating_sub live tp = live - tp"
    using assms(2-4) by (simp add: saturating_sub_def i64_sat_id)
  then have off: "clamp (saturating_sub live tp) 0 (max live 0) = live - tp"
    using assms(2,3) by (simp add: clamp_def)
  have "saturating_sub live (live - tp) = tp"
    using assms(2-4) by (simp add: saturating_sub_def i64_sat_id)
  then show "vp_view_offset h = live - tp" "vp_live_start_row h = live" "vp_queued h = None"
    "vp_in_flight h = vp_in_flight v"
    "vp_cache h = cap_rows tp (insert_rows first_row rs (if vp_cache_seq v = Some sq then vp_cache v else []))"
    using off assms(1) by (simp_all add: h history_applied_def Let_def)
qed

lemma cached_after_answer:
  assumes "in_key_order m" "0 \<le> first_row" "first_row + int (length rs) \<le> 2 ^ 62"
    and "tp \<le> k" "k < tp + 256" "first_row \<le> k" "k < first_row + int (length rs)"
  shows "map_of (cap_rows tp (insert_rows first_row rs m)) k = Some (rs ! nat (k - first_row))"
  using assms cap_rows_keeps_near [OF insert_rows_ordered [OF assms(1)], of tp k first_row rs]
    insert_rows_lookup [OF assms(1,2), of rs k] by (simp add: i64_max_def)

lemma complete_window_not_queued:
  assumes "0 < n" "n \<le> 256" "tp = live - off" "0 \<le> tp" "0 \<le> off" "live \<le> 2 ^ 62"
    and "vp_view_offset v = off" "vp_live_start_row v = live"
    and "\<And>k. tp \<le> k \<Longrightarrow> k < min live (tp + int n) \<Longrightarrow> cached_row v k \<noteq> None"
  shows "queue_missing_window n v = v"
proof -
  have "saturating_sub live off = tp" "saturating_add tp (int n) = tp + int n"
    using assms(1-6) by (simp_all add: saturating_sub_def saturating_add_def i64_sat_id)
  then show ?thesis
    using assms by (auto simp: queue_missing_window_def Let_def list_all_iff)
qed

lemma window_row_pinned:
  assumes "vp_view_offset v = live - tp" "vp_live_start_row v = live" "0 \<le> tp" "tp \<le> live"
    "live \<le> 2 ^ 62" "i < 256"
  shows "window_row v b i = normalized_row
    (case (if tp + int i < live then cached_row v (tp + int i) else buffer_row b (nat (tp + int i - live))) of
       Some cells \<Rightarrow> cells | None \<Rightarrow> []) (unat (gb_cols b))"
proof -
  have "absolute_row v i = tp + int i"
    using assms by (simp add: absolute_row_def saturating_sub_def saturating_add_def i64_sat_id)
  then show ?thesis
    using assms by (auto simp: window_row_def row_at_absolute_def Let_def)
qed

section \<open>Properties\<close>

text \<open>
  Along every sequence of scrolling, fetching, failing and geometry changes the viewport
  stays consistent: the offset is never negative and, once the geometry is known, never beyond the
  retained history; the anchor is the row at the top of the window exactly while scrolled back; the
  cache is in key order and has at most 512 rows; queued and requested ranges are not empty.
\<close>

theorem viewport_always_consistent: "vp_inv (run_machine viewport_step viewport_default ops)"
  by (rule vp.run_inv) (simp add: vp_inv_def viewport_default_def)

text \<open>
  Reading back in history. While scrolled back, an answer whose rows cover the part of the
  window that is history completes the view, however much output has arrived meanwhile: the row at
  the top of the window does not move, the window then shows exactly the answered rows followed by
  the live grid, and nothing more is requested. The window has at most 256 rows, so that the cache
  keeps all of it, and row numbers are below \<open>2 ^ 62\<close>, so that no addition saturates.
\<close>

theorem covering_answer_completes_window:
  assumes inv: "vp_inv v" and scrolled: "vp_view_offset v > 0" and n: "0 < n" "n \<le> 256"
    and decoded: "rsc_row_count r = int (length rs)" "decode_rows (rsc_payload r) (length rs) = Inr rs"
    and live: "0 \<le> absolute_row v 0" "absolute_row v 0 \<le> rsc_live_start_row r" "rsc_live_start_row r \<le> 2 ^ 62"
    and cover: "0 \<le> rsc_first_row r" "rsc_first_row r \<le> absolute_row v 0"
      "min (rsc_live_start_row r) (absolute_row v 0 + int n) \<le> rsc_first_row r + int (length rs)"
      "rsc_first_row r + int (length rs) \<le> 2 ^ 62"
  shows "let (res, v') = complete_fetch r n v; tp = absolute_row v 0
    in res = Inr () \<and> absolute_row v' 0 = tp \<and> fst (begin_fetch n v') = None \<and>
       compose v' b n = map (\<lambda>i. normalized_row
         (if tp + int i < rsc_live_start_row r then rs ! nat (tp + int i - rsc_first_row r)
          else case buffer_row b (nat (tp + int i - rsc_live_start_row r)) of Some cells \<Rightarrow> cells | None \<Rightarrow> [])
         (unat (gb_cols b))) [0..<n]"
proof -
  define tp where "tp = absolute_row v 0"
  let ?live = "rsc_live_start_row r" and ?first = "rsc_first_row r"
  let ?v = "v\<lparr>vp_in_flight := None\<rparr>"
  define h where "h = history_applied rs ?first ?live (rsc_total_rows r) (rsc_content_seq r) ?v"
  have anchor: "vp_anchor ?v = Some tp"
    using inv scrolled by (simp add: vp_inv_def tp_def absolute_row_0)
  note t = live [folded tp_def] and c = cover [folded tp_def]
  have h: "vp_view_offset h = ?live - tp" "vp_live_start_row h = ?live" "vp_queued h = None" "vp_in_flight h = None"
    "vp_cache h = cap_rows tp (insert_rows ?first rs (if vp_cache_seq v = Some (rsc_content_seq r) then vp_cache v else []))"
    using history_applied_pinned [OF anchor t h_def] by simp_all
  have ord: "in_key_order (if vp_cache_seq v = Some (rsc_content_seq r) then vp_cache v else [])"
    using inv by (simp add: vp_inv_def)
  have cached: "cached_row h k = Some (rs ! nat (k - ?first))" if "tp \<le> k" "k < min ?live (tp + int n)" for k
    using cached_after_answer [OF ord c(1,4), of tp k] that c n(2) by (simp add: cached_row_def h(5))
  have quiet: "queue_missing_window n h = h"
    using n t h cached by (intro complete_window_not_queued [of n tp ?live "?live - tp"]) auto
  have res: "complete_fetch r n v = (Inr (), h)"
    using decoded by (simp add: complete_fetch_def Let_def apply_history_eq quiet flip: h_def)
  have "window_row h b i = normalized_row
      (if tp + int i < ?live then rs ! nat (tp + int i - ?first)
       else case buffer_row b (nat (tp + int i - ?live)) of Some cells \<Rightarrow> cells | None \<Rightarrow> [])
      (unat (gb_cols b))" if "i < n" for i
    using window_row_pinned [OF h(1,2) t, of i b] cached [of "tp + int i"] that n(2) by auto
  moreover have "absolute_row h 0 = tp"
    using h(1,2) t by (simp add: absolute_row_0 saturating_sub_def i64_sat_id)
  ultimately show ?thesis
    using quiet h(3,4) by (simp add: res begin_fetch_def compose_def Let_def flip: tp_def)
qed


text \<open>A view scrolled back by one of two history rows, and an answer of three empty rows.\<close>

definition sample_view :: scrollback_viewport where
  "sample_view = run_machine viewport_step viewport_default [Geometry 2 2 7 2, ScrollBy 1 2]"

definition sample_answer :: read_scrollback_cells_result where
  "sample_answer = \<lparr>rsc_payload = [0, 0, 0, 0, 0, 0], rsc_first_row = 0, rsc_row_count = 3,
     rsc_total_rows = 3, rsc_live_start_row = 3, rsc_cols = 1, rsc_content_seq = 8\<rparr>"

lemma gb_cols_new: "gb_cols (buffer_new cs rs) = cs"
  by (simp add: buffer_new_def)

theorem covering_answer_completes_window_witness:
  "let (res, v') = complete_fetch sample_answer 2 sample_view
   in res = Inr () \<and> absolute_row v' 0 = 1 \<and> fst (begin_fetch 2 v') = None
      \<and> compose v' (buffer_new 1 2) 2 = [[BLANK], [BLANK]]"
proof -
  have view: "vp_inv sample_view"
    unfolding sample_view_def by (rule vp.run_inv) (simp add: vp_inv_def viewport_default_def)
  have facts: "vp_view_offset sample_view > 0" "absolute_row sample_view 0 = 1"
    by code_simp+
  have decoded: "rsc_row_count sample_answer = int (length [[] :: grid_cell list, [], []])"
    "decode_rows (rsc_payload sample_answer) (length [[] :: grid_cell list, [], []]) = Inr [[], [], []]"
    by code_simp+
  have "min (rsc_live_start_row sample_answer) (absolute_row sample_view 0 + int 2)
      \<le> rsc_first_row sample_answer + int (length [[] :: grid_cell list, [], []])"
    unfolding facts by code_simp
  then show ?thesis
    using covering_answer_completes_window [OF view facts(1) _ _ decoded, of 2 "buffer_new 1 2"] facts(2)
    by (simp add: sample_answer_def normalized_row_def upt_rec gb_cols_new)
qed

end
