(* ===== verification/Term_Find.thy ===== *)
theory Term_Find
  imports Term_Scrollback Model "HOL-Library.Product_Lexorder"
begin

text \<open>
  \<^verbatim>\<open>homie-term/src/find.rs\<close>: search in history and live grid. Queries are debounced and output triggers
  at most one pending rescan; an answer that belongs to an older query is dropped; matches are
  collected with a cap and navigated in a cycle. Lower-casing of characters is a parameter. Shown:
  the capped scan gives the first matches of a plain reference definition, matches are exactly the
  leftmost non-overlapping ones, stale answers change nothing, and stepping to a match brings it
  into the window. Stepping back from the first match is shown to miss the last one.
\<close>

section \<open>Data\<close>

definition SEARCH_DEBOUNCE :: nat where "SEARCH_DEBOUNCE = 200 * 10 ^ 6"
definition OUTPUT_RESCAN_DELAY :: nat where "OUTPUT_RESCAN_DELAY = 100 * 10 ^ 6"
definition MATCH_CAP :: nat where "MATCH_CAP = 500"
definition HISTORY_ANCHOR :: rat where "HISTORY_ANCHOR = f32_round (33 / 100)"

record find_match =
  fm_absolute_row :: int
  fm_start_col :: usize
  fm_end_col_exclusive :: usize
  fm_text :: str

record find_span =
  fsp_row :: usize
  fsp_start_col :: usize
  fsp_end_col_exclusive :: usize
  fsp_is_current :: bool

record find_snapshot =
  fs_lines :: "str list"
  fs_first_row :: int
  fs_visible_start_row :: int
  fs_cols :: int
  fs_rows :: int
  fs_content_seq :: u64
  fs_is_alt_screen :: bool

record search_request =
  sq_query :: str
  sq_is_rescan :: bool
  sq_generation :: u64

datatype navigation_target = Live | History int rat \<comment> \<open>absolute row, anchor\<close>

record terminal_find_model =
  tf_query :: str
  tf_matches :: "find_match list"
  tf_current_index :: usize
  tf_is_alt_screen :: bool
  tf_cached_visible_start_row :: "int option"
  tf_cached_rows :: usize
  tf_cached_content_seq :: "u64 option"
  tf_cached_cols :: "int option"
  tf_generation :: u64
  tf_search_due :: "nat option"
  tf_rescan_due :: "nat option"

definition find_model_default :: terminal_find_model where
  "find_model_default = \<lparr>tf_query = [], tf_matches = [], tf_current_index = 0, tf_is_alt_screen = False,
     tf_cached_visible_start_row = None, tf_cached_rows = 0, tf_cached_content_seq = None,
     tf_cached_cols = None, tf_generation = 0, tf_search_due = None, tf_rescan_due = None\<rparr>"

section \<open>Queries\<close>

definition set_query :: "str \<Rightarrow> nat \<Rightarrow> terminal_find_model \<Rightarrow> terminal_find_model" where
  "set_query query now m =
     (if query = tf_query m then m
      else let m = m\<lparr>tf_query := query, tf_generation := tf_generation m + 1, tf_rescan_due := None\<rparr> in
        if query = [] then m\<lparr>tf_matches := [], tf_current_index := 0, tf_search_due := None\<rparr>
        else m\<lparr>tf_search_due := Some (duration_add now SEARCH_DEBOUNCE)\<rparr>)"

definition on_output :: "nat \<Rightarrow> terminal_find_model \<Rightarrow> bool \<times> terminal_find_model" where
  "on_output now m =
     (if tf_query m = [] \<or> tf_rescan_due m \<noteq> None then (False, m)
      else (True, m\<lparr>tf_rescan_due := Some (duration_add now OUTPUT_RESCAN_DELAY)\<rparr>))"

definition due_by :: "nat \<Rightarrow> nat option \<Rightarrow> bool" where
  "due_by now d = (case d of Some due \<Rightarrow> due \<le> now | None \<Rightarrow> False)"

definition take_due_search :: "nat \<Rightarrow> terminal_find_model \<Rightarrow> search_request option \<times> terminal_find_model" where
  "take_due_search now m =
     (if due_by now (tf_search_due m)
      then (Some \<lparr>sq_query = tf_query m, sq_is_rescan = False, sq_generation = tf_generation m\<rparr>,
            m\<lparr>tf_search_due := None\<rparr>)
      else if due_by now (tf_rescan_due m)
      then (Some \<lparr>sq_query = tf_query m, sq_is_rescan = True, sq_generation = tf_generation m\<rparr>,
            m\<lparr>tf_rescan_due := None\<rparr>)
      else (None, m))"

section \<open>Matching\<close>

definition chars_equal_ci :: "(nat \<Rightarrow> nat list) \<Rightarrow> nat list \<Rightarrow> nat list \<Rightarrow> bool" where
  "chars_equal_ci lower haystack needle =
     list_all (\<lambda>(l, r). l = r \<or> lower l = lower r) (zip haystack needle)"

definition column_for :: "usize \<Rightarrow> usize list option \<Rightarrow> usize" where
  "column_for index columns =
     (case columns of
        None \<Rightarrow> index
      | Some cs \<Rightarrow> if index < length cs then cs ! index
                  else if cs \<noteq> [] then last cs + 1 else index)"

definition column_past_end :: "usize \<Rightarrow> usize list option \<Rightarrow> usize" where
  "column_past_end index columns = column_for index columns"

text \<open>The needle is never empty here: \<open>build_matches\<close> returns first. The guard is for termination.\<close>

function append_from :: "(nat \<Rightarrow> nat list) \<Rightarrow> str \<Rightarrow> usize list option \<Rightarrow> int \<Rightarrow> nat list \<Rightarrow> usize
    \<Rightarrow> find_match list \<Rightarrow> find_match list" where
  "append_from lower line columns row needle index output =
     (if needle \<noteq> [] \<and> index + length needle \<le> length line \<and> length output < MATCH_CAP
      then if chars_equal_ci lower (segment line index (index + length needle)) needle
           then append_from lower line columns row needle (index + length needle)
                  (output @ [\<lparr>fm_absolute_row = row, fm_start_col = column_for index columns,
                              fm_end_col_exclusive = column_past_end (index + length needle) columns,
                              fm_text = line\<rparr>])
           else append_from lower line columns row needle (index + 1) output
      else output)"
  by pat_completeness auto
termination
  by (relation "measure (\<lambda>(lower, line, columns, row, needle, index, output). length line - index)")
    (auto simp flip: length_greater_0_conv)

declare append_from.simps [simp del]

definition append_matches :: "(nat \<Rightarrow> nat list) \<Rightarrow> str \<Rightarrow> usize list option \<Rightarrow> int \<Rightarrow> nat list
    \<Rightarrow> find_match list \<Rightarrow> find_match list" where
  "append_matches lower line columns row needle output =
     (if length line < length needle then output
      else append_from lower line columns row needle 0 output)"

text \<open>A scan stops early, with the matches cut to the cap, once the cap is reached.\<close>

fun scan_lines :: "(nat \<Rightarrow> nat list) \<Rightarrow> nat list \<Rightarrow> (int \<times> str \<times> usize list option) list
    \<Rightarrow> find_match list \<Rightarrow> find_match list + find_match list" where
  "scan_lines lower needle [] output = Inr output"
| "scan_lines lower needle ((row, line, columns) # rest) output =
     (let output = append_matches lower line columns row needle output
      in if length output \<ge> MATCH_CAP then Inl (take MATCH_CAP output)
         else scan_lines lower needle rest output)"

definition history_lines :: "find_snapshot \<Rightarrow> (int \<times> str \<times> usize list option) list" where
  "history_lines snapshot =
     (if fs_is_alt_screen snapshot then []
      else filter (\<lambda>(row, _). row < fs_visible_start_row snapshot)
             (map (\<lambda>(index, line). (saturating_add (fs_first_row snapshot) (i64_of_usize index), line, None))
                (enumerate 0 (fs_lines snapshot))))"

definition live_lines :: "find_snapshot \<Rightarrow> grid_buffer \<Rightarrow> (int \<times> str \<times> usize list option) list" where
  "live_lines snapshot live =
     concat (map (\<lambda>row. case row_text_with_columns live row of
         None \<Rightarrow> []
       | Some (line, columns) \<Rightarrow>
           [(saturating_add (fs_visible_start_row snapshot) (i64_of_usize row), line, Some columns)])
       [0..<min (nat (max (fs_rows snapshot) 0)) (unat (gb_rows live))])"

definition build_matches :: "(nat \<Rightarrow> nat list) \<Rightarrow> str \<Rightarrow> find_snapshot \<Rightarrow> grid_buffer \<Rightarrow> find_match list" where
  "build_matches lower query snapshot live =
     (if query = [] then []
      else case scan_lines lower query (history_lines snapshot) [] of
        Inl matches \<Rightarrow> matches
      | Inr matches \<Rightarrow>
          (case scan_lines lower query (live_lines snapshot live) matches of
             Inl matches \<Rightarrow> matches
           | Inr matches \<Rightarrow>
               take MATCH_CAP (sort_key (\<lambda>m. (fm_absolute_row m, fm_start_col m)) matches)))"

definition apply_snapshot :: "(nat \<Rightarrow> nat list) \<Rightarrow> search_request \<Rightarrow> find_snapshot \<Rightarrow> grid_buffer
    \<Rightarrow> terminal_find_model \<times> scrollback_viewport \<Rightarrow> bool \<times> terminal_find_model \<times> scrollback_viewport" where
  "apply_snapshot lower request snapshot live mv =
     (let (m, viewport) = mv in
      if sq_generation request \<noteq> tf_generation m \<or> sq_query request \<noteq> tf_query m then (False, m, viewport)
      else let sequence_changed = (tf_cached_content_seq m \<noteq> Some (fs_content_seq snapshot)
                 \<or> tf_cached_cols m \<noteq> Some (fs_cols snapshot));
               m = m\<lparr>tf_matches := build_matches lower (sq_query request) snapshot live,
                     tf_is_alt_screen := fs_is_alt_screen snapshot,
                     tf_cached_visible_start_row := Some (fs_visible_start_row snapshot),
                     tf_cached_rows := nat (max (fs_rows snapshot) 0),
                     tf_cached_content_seq := Some (fs_content_seq snapshot),
                     tf_cached_cols := Some (fs_cols snapshot)\<rparr>;
               viewport = apply_geometry (fs_visible_start_row snapshot)
                 (max (fs_visible_start_row snapshot) 0) (fs_content_seq snapshot) (tf_cached_rows m) viewport;
               index = (if sq_is_rescan request \<and> \<not> sequence_changed
                 then min (tf_current_index m) (length (tf_matches m) - 1)
                 else let window_top = saturating_sub (fs_visible_start_row snapshot) (vp_view_offset viewport)
                      in case List.find (\<lambda>i. fm_absolute_row (tf_matches m ! i) \<ge> window_top)
                              [0..<length (tf_matches m)] of
                           Some i \<Rightarrow> i | None \<Rightarrow> 0)
           in (True, m\<lparr>tf_current_index := index\<rparr>, viewport))"

definition find_spans :: "scrollback_viewport \<Rightarrow> terminal_find_model \<Rightarrow> find_span list" where
  "find_spans viewport m =
     (case tf_cached_visible_start_row m of
        None \<Rightarrow> []
      | Some start \<Rightarrow>
          let window_top = saturating_sub start (vp_view_offset viewport) in
          List.map_filter (\<lambda>(index, item).
              let row = fm_absolute_row item - window_top in
              if row < i64_min \<or> row > i64_max then None
              else if row < 0 then None
              else if nat row < tf_cached_rows m
              then Some \<lparr>fsp_row = nat row, fsp_start_col = fm_start_col item,
                         fsp_end_col_exclusive = fm_end_col_exclusive item,
                         fsp_is_current = (index = tf_current_index m)\<rparr>
              else None)
            (enumerate 0 (tf_matches m)))"

text \<open>
  \<open>wrapping_add_signed\<close> on the 64-bit index, then the remainder by the number of matches.
\<close>

definition step_index :: "int \<Rightarrow> usize \<Rightarrow> usize \<Rightarrow> usize" where
  "step_index direction index len = nat ((int index + direction) mod 2 ^ 64 mod int len)"

definition find_advance :: "int \<Rightarrow> terminal_find_model \<times> scrollback_viewport
    \<Rightarrow> navigation_target option \<times> terminal_find_model \<times> scrollback_viewport" where
  "find_advance direction mv =
     (let (m, viewport) = mv in
      if tf_matches m = [] then (None, m, viewport)
      else let m = m\<lparr>tf_current_index := step_index direction (tf_current_index m) (length (tf_matches m))\<rparr>;
               item = tf_matches m ! tf_current_index m
           in case tf_cached_visible_start_row m of
                None \<Rightarrow> (None, m, viewport)
              | Some visible_start \<Rightarrow>
                  if fm_absolute_row item \<ge> visible_start
                  then (Some Live, m, snd (scroll_to_live (tf_cached_rows m) viewport))
                  else (Some (History (fm_absolute_row item) HISTORY_ANCHOR), m,
                        snd (scroll_to_absolute (fm_absolute_row item) HISTORY_ANCHOR (tf_cached_rows m) viewport)))"

definition find_next :: "terminal_find_model \<times> scrollback_viewport
    \<Rightarrow> navigation_target option \<times> terminal_find_model \<times> scrollback_viewport" where
  "find_next mv = find_advance 1 mv"

definition find_previous :: "terminal_find_model \<times> scrollback_viewport
    \<Rightarrow> navigation_target option \<times> terminal_find_model \<times> scrollback_viewport" where
  "find_previous mv = find_advance (- 1) mv"


section \<open>The reference definition\<close>

text \<open>The leftmost non-overlapping occurrences at or after an index, without a cap.\<close>

function occurrences :: "(nat \<Rightarrow> nat list) \<Rightarrow> nat list \<Rightarrow> str \<Rightarrow> usize \<Rightarrow> usize list" where
  "occurrences lower needle line index =
     (if needle \<noteq> [] \<and> index + length needle \<le> length line
      then if chars_equal_ci lower (segment line index (index + length needle)) needle
           then index # occurrences lower needle line (index + length needle)
           else occurrences lower needle line (index + 1)
      else [])"
  by pat_completeness auto
termination
  by (relation "measure (\<lambda>(lower, needle, line, index). length line - index)")
    (auto simp flip: length_greater_0_conv)

declare occurrences.simps [simp del]

definition line_matches :: "(nat \<Rightarrow> nat list) \<Rightarrow> nat list \<Rightarrow> int \<times> str \<times> usize list option \<Rightarrow> find_match list" where
  "line_matches lower needle l =
     (let (row, line, columns) = l in
      map (\<lambda>i. \<lparr>fm_absolute_row = row, fm_start_col = column_for i columns,
                fm_end_col_exclusive = column_for (i + length needle) columns, fm_text = line\<rparr>)
        (occurrences lower needle line 0))"

text \<open>An occurrence is an index at which the needle stands, up to case.\<close>

definition occurs_at :: "(nat \<Rightarrow> nat list) \<Rightarrow> nat list \<Rightarrow> str \<Rightarrow> usize \<Rightarrow> bool" where
  "occurs_at lower needle line i \<longleftrightarrow> i + length needle \<le> length line
     \<and> list_all2 (\<lambda>l r. l = r \<or> lower l = lower r) (take (length needle) (drop i line)) needle"

lemma chars_equal_occurs:
  "i + length needle \<le> length line \<Longrightarrow>
     chars_equal_ci lower (segment line i (i + length needle)) needle \<longleftrightarrow> occurs_at lower needle line i"
  by (simp add: chars_equal_ci_def occurs_at_def segment_def list_all2_iff list_all_iff)

lemma occurrences_sound:
  "needle \<noteq> [] \<Longrightarrow> i \<in> set (occurrences lower needle line index) \<Longrightarrow> index \<le> i \<and> occurs_at lower needle line i"
proof (induction lower needle line index rule: occurrences.induct)
  case (1 lower needle line index)
  show ?case
    using "1.prems" "1.IH" by (auto simp: occurrences.simps [of _ _ _ index] chars_equal_occurs split: if_splits)
qed

lemma occurrences_complete:
  "needle \<noteq> [] \<Longrightarrow> index \<le> i \<Longrightarrow> occurs_at lower needle line i \<Longrightarrow>
     \<exists>j \<in> set (occurrences lower needle line index). j \<le> i \<and> i < j + length needle"
proof (induction lower needle line index rule: occurrences.induct)
  case (1 lower needle line index)
  have b: "index + length needle \<le> length line"
    using "1.prems" by (auto simp: occurs_at_def)
  show ?case
  proof (cases "occurs_at lower needle line index")
    case True
    then show ?thesis
      using "1.IH"(1) "1.prems" b by (cases "i < index + length needle")
        (auto simp: occurrences.simps [of _ _ _ index] chars_equal_occurs)
  next
    case False
    then have "index + 1 \<le> i"
      using "1.prems" by (cases "index = i") auto
    then show ?thesis
      using "1.IH"(2) "1.prems" b False by (auto simp: occurrences.simps [of _ _ _ index] chars_equal_occurs)
  qed
qed

lemma occurrences_apart:
  "needle \<noteq> [] \<Longrightarrow> sorted_wrt (\<lambda>i j. i + length needle \<le> j) (occurrences lower needle line index)"
proof (induction lower needle line index rule: occurrences.induct)
  case (1 lower needle line index)
  show ?case
    using "1.IH" "1.prems" occurrences_sound [OF "1.prems", of _ lower line "index + length needle"]
    by (auto simp: occurrences.simps [of _ _ _ index])
qed

section \<open>The scan agrees with the reference\<close>

lemma append_from_eq:
  "needle \<noteq> [] \<Longrightarrow> length outs \<le> MATCH_CAP \<Longrightarrow>
     append_from lower line columns row needle index outs =
       take MATCH_CAP (outs @ map (\<lambda>i. \<lparr>fm_absolute_row = row, fm_start_col = column_for i columns,
                fm_end_col_exclusive = column_for (i + length needle) columns, fm_text = line\<rparr>)
        (occurrences lower needle line index))"
proof (induction lower line columns row needle index outs rule: append_from.induct)
  case (1 lower line columns row needle index outs)
  show ?case
  proof (cases "index + length needle \<le> length line \<and> length outs < MATCH_CAP")
    case True
    then show ?thesis
      using 1 by (simp add: append_from.simps [of lower line columns row needle index]
          occurrences.simps [of lower needle line index] column_past_end_def)
  next
    case False
    then show ?thesis
      using "1.prems" by (auto simp: append_from.simps [of lower line columns row needle index]
          occurrences.simps [of lower needle line index])
  qed
qed

lemma append_matches_eq:
  assumes "needle \<noteq> []" "length outs \<le> MATCH_CAP"
  shows "append_matches lower line columns row needle outs =
    take MATCH_CAP (outs @ line_matches lower needle (row, line, columns))"
proof (cases "length line < length needle")
  case True
  then have "occurrences lower needle line 0 = []"
    by (subst occurrences.simps) simp
  then show ?thesis
    using True assms by (simp add: append_matches_def line_matches_def)
next
  case False
  then show ?thesis
    using append_from_eq [OF assms] by (simp add: append_matches_def line_matches_def)
qed

lemma scan_lines_eq:
  assumes "needle \<noteq> []"
  shows "length outs < MATCH_CAP \<Longrightarrow>
    scan_lines lower needle ls outs =
      (let found = outs @ concat (map (line_matches lower needle) ls)
       in if length found \<ge> MATCH_CAP then Inl (take MATCH_CAP found) else Inr found)"
proof (induction ls arbitrary: outs)
  case (Cons l ls)
  obtain row line columns where l: "l = (row, line, columns)" by (cases l) auto
  let ?o = "outs @ line_matches lower needle l"
  have "append_matches lower line columns row needle outs = take MATCH_CAP ?o"
    using append_matches_eq [OF assms] Cons.prems l by simp
  then have a: "scan_lines lower needle (l # ls) outs =
      (if length (take MATCH_CAP ?o) \<ge> MATCH_CAP then Inl (take MATCH_CAP (take MATCH_CAP ?o))
       else scan_lines lower needle ls (take MATCH_CAP ?o))"
    using l by (simp only: scan_lines.simps Let_def)
  show ?case
  proof (cases "length ?o \<ge> MATCH_CAP")
    case True
    then have "length (take MATCH_CAP ?o) \<ge> MATCH_CAP"
      by (simp only: length_take)
    then show ?thesis
      unfolding a Let_def using True Cons.prems
      by (auto simp: min_absorb1 simp del: append_assoc simp flip: append_assoc)
  next
    case False
    then have "take MATCH_CAP ?o = ?o"
      by (intro take_all) linarith
    then show ?thesis
      unfolding a using False Cons.IH [of ?o] by simp
  qed
qed (simp add: Let_def)


text \<open>Matches come in reading order: by row, and in a row by column.\<close>

abbreviation reading_order :: "find_match \<Rightarrow> int \<times> usize" where
  "reading_order m \<equiv> (fm_absolute_row m, fm_start_col m)"

definition columns_rise :: "str \<Rightarrow> usize list option \<Rightarrow> bool" where
  "columns_rise line columns \<longleftrightarrow>
     (case columns of None \<Rightarrow> True | Some cs \<Rightarrow> sorted cs \<and> length cs = length line)"

lemma column_for_mono: "columns_rise line columns \<Longrightarrow> i \<le> j \<Longrightarrow> j < length line \<Longrightarrow>
    column_for i columns \<le> column_for j columns"
  by (auto simp: columns_rise_def column_for_def sorted_nth_mono split: option.splits)

lemma line_matches_rows: "m \<in> set (line_matches lower needle (row, line, columns)) \<Longrightarrow> fm_absolute_row m = row"
  by (auto simp: line_matches_def)

lemma line_matches_sorted:
  assumes "needle \<noteq> []" "columns_rise line columns"
  shows "sorted (map reading_order (line_matches lower needle (row, line, columns)))"
proof -
  let ?os = "occurrences lower needle line 0"
  have "sorted_wrt (\<lambda>i j. column_for i columns \<le> column_for j columns) ?os"
  proof (rule sorted_wrt_mono_rel [OF _ occurrences_apart [OF assms(1)]])
    fix i j assume "i \<in> set ?os" "j \<in> set ?os" "i + length needle \<le> j"
    moreover have "j < length line"
      using occurrences_sound [OF assms(1) \<open>j \<in> set ?os\<close>] assms(1)
      by (auto simp: occurs_at_def simp flip: length_greater_0_conv)
    ultimately show "column_for i columns \<le> column_for j columns"
      using column_for_mono [OF assms(2)] by simp
  qed
  then show ?thesis
    by (simp add: line_matches_def sorted_map less_eq_prod_def sorted_wrt_map o_def)
qed

lemma lines_sorted:
  assumes "needle \<noteq> []"
  shows "sorted_wrt (\<lambda>l l'. fst l < fst l') ls \<Longrightarrow> list_all (\<lambda>(row, line, columns). columns_rise line columns) ls \<Longrightarrow>
    sorted (map reading_order (concat (map (line_matches lower needle) ls)))"
proof (induction ls)
  case (Cons l ls)
  obtain row line columns where l: "l = (row, line, columns)" by (cases l) auto
  have "reading_order a \<le> reading_order b"
    if ab: "a \<in> set (line_matches lower needle l)" "b \<in> set (concat (map (line_matches lower needle) ls))" for a b
  proof -
    obtain l' where l': "l' \<in> set ls" "b \<in> set (line_matches lower needle l')"
      using ab(2) by auto
    have "fm_absolute_row a = fst l" "fm_absolute_row b = fst l'"
      using ab(1) l' l line_matches_rows by (cases l', fastforce)+
    then show ?thesis
      using Cons.prems(1) l'(1) by (auto simp: less_eq_prod_def)
  qed
  then show ?case
    using Cons line_matches_sorted [OF assms, of line columns lower row] l
    by (auto simp: sorted_append)
qed simp


lemma history_lines_ok:
  assumes "0 \<le> fs_first_row sn" "fs_first_row sn + int (length (fs_lines sn)) \<le> 2 ^ 62"
  shows "sorted_wrt (\<lambda>l l'. fst l < fst l') (history_lines sn)"
    "list_all (\<lambda>(row, line, columns). columns_rise line columns) (history_lines sn)"
    "l \<in> set (history_lines sn) \<Longrightarrow> fst l < fs_visible_start_row sn"
proof -
  have row: "saturating_add (fs_first_row sn) (i64_of_usize i) = fs_first_row sn + int i"
    if "i < length (fs_lines sn)" for i
    using assms that by (simp add: saturating_add_def i64_of_usize_def i64_max_def i64_sat_id)
  have "sorted_wrt (\<lambda>l l'. fst l < fst l')
      (map (\<lambda>(index, line). (saturating_add (fs_first_row sn) (i64_of_usize index), line, None :: usize list option))
        (enumerate 0 (fs_lines sn)))"
    by (auto simp: sorted_wrt_iff_nth_less nth_enumerate_eq row)
  then show "sorted_wrt (\<lambda>l l'. fst l < fst l') (history_lines sn)"
    by (simp add: history_lines_def sorted_wrt_filter)
qed (auto simp: history_lines_def columns_rise_def list_all_iff split: if_splits)

lemma row_text_columns_rise: "row_text_with_columns b row = Some (line, cs) \<Longrightarrow> columns_rise line (Some cs)"
proof -
  have "sorted (map fst (filter P (enumerate n xs)))" for P :: "nat \<times> grid_cell \<Rightarrow> bool" and n xs
    by (induction xs arbitrary: n) (auto simp: in_set_enumerate_eq)
  then show "row_text_with_columns b row = Some (line, cs) \<Longrightarrow> columns_rise line (Some cs)"
    by (auto simp: row_text_with_columns_def columns_rise_def Let_def)
qed

lemma sorted_wrt_concat_opt:
  "sorted_wrt P (map f is) \<Longrightarrow> (\<And>i l. l \<in> set (g i) \<Longrightarrow> g i = [l] \<and> key l = f i) \<Longrightarrow>
     sorted_wrt (\<lambda>l l'. P (key l) (key l')) (concat (map g is))"
proof (induction "is")
  case (Cons i "is")
  have gi: "sorted_wrt (\<lambda>l l'. P (key l) (key l')) (g i)"
  proof (cases "g i")
    case (Cons l ls)
    then have "g i = [l]" using Cons.prems(2) [of l i] by simp
    then show ?thesis by simp
  qed simp
  have "P (key l) (key l')" if l: "l \<in> set (g i)" "l' \<in> set (concat (map g is))" for l l'
  proof -
    obtain j where j: "j \<in> set is" "l' \<in> set (g j)" using l(2) by auto
    then have "key l = f i" "key l' = f j"
      using Cons.prems(2) l(1) by blast+
    then show ?thesis
      using Cons.prems(1) j(1) by simp
  qed
  moreover have "sorted_wrt (\<lambda>l l'. P (key l) (key l')) (concat (map g is))"
    using Cons.IH Cons.prems by simp
  ultimately show ?case
    using gi by (simp add: sorted_wrt_append)
qed simp

lemma live_lines_ok:
  assumes "0 \<le> fs_visible_start_row sn" "fs_visible_start_row sn \<le> 2 ^ 62"
  shows "sorted_wrt (\<lambda>l l'. fst l < fst l') (live_lines sn live)"
    "list_all (\<lambda>(row, line, columns). columns_rise line columns) (live_lines sn live)"
    "l \<in> set (live_lines sn live) \<Longrightarrow> fs_visible_start_row sn \<le> fst l"
proof -
  let ?n = "min (nat (max (fs_rows sn) 0)) (unat (gb_rows live))"
  have "unat (gb_rows live) < 2 ^ 16"
    using unsigned_less [of "gb_rows live"] by simp
  then have row: "saturating_add (fs_visible_start_row sn) (i64_of_usize i) = fs_visible_start_row sn + int i"
    if "i < ?n" for i
    using assms that by (simp add: saturating_add_def i64_of_usize_def i64_max_def i64_sat_id)
  have "sorted_wrt (<) (map (\<lambda>i. saturating_add (fs_visible_start_row sn) (i64_of_usize i)) [0..<?n])"
    by (auto simp: sorted_wrt_iff_nth_less row)
  then show "sorted_wrt (\<lambda>l l'. fst l < fst l') (live_lines sn live)"
    unfolding live_lines_def by (rule sorted_wrt_concat_opt)
      (auto split: option.splits simp: eq_commute [of "Some _" "row_text_with_columns _ _"])
  show "list_all (\<lambda>(row, line, columns). columns_rise line columns) (live_lines sn live)"
    by (auto simp: live_lines_def list_all_iff row_text_columns_rise split: option.splits)
  show "l \<in> set (live_lines sn live) \<Longrightarrow> fs_visible_start_row sn \<le> fst l"
    using row by (auto simp: live_lines_def split: option.splits)
qed

lemma sort_key_sorted: "sorted (map f xs) \<Longrightarrow> sort_key f xs = xs"
  by (induction xs) (auto simp: insort_is_Cons)

lemma build_matches_eq:
  assumes "query \<noteq> []"
    and "0 \<le> fs_first_row sn" "fs_first_row sn + int (length (fs_lines sn)) \<le> 2 ^ 62"
    and "0 \<le> fs_visible_start_row sn" "fs_visible_start_row sn \<le> 2 ^ 62"
  shows "build_matches lower query sn live =
    take MATCH_CAP (concat (map (line_matches lower query) (history_lines sn @ live_lines sn live)))"
proof -
  note hl = history_lines_ok [OF assms(2,3)] and ll = live_lines_ok [OF assms(4,5)]
  let ?h = "concat (map (line_matches lower query) (history_lines sn))"
  let ?l = "concat (map (line_matches lower query) (live_lines sn live))"
  have "sorted_wrt (\<lambda>l l'. fst l < fst l') (history_lines sn @ live_lines sn live)"
    using hl(1,3) ll(1,3) by (fastforce simp: sorted_wrt_append)
  then have "sorted (map reading_order (?h @ ?l))"
    using lines_sorted [OF assms(1), of "history_lines sn @ live_lines sn live" lower] hl(2) ll(2)
    by simp
  then have sorted: "sort_key reading_order (?h @ ?l) = ?h @ ?l"
    by (rule sort_key_sorted)
  have h: "scan_lines lower query (history_lines sn) [] =
      (if length ?h \<ge> MATCH_CAP then Inl (take MATCH_CAP ?h) else Inr ?h)"
    using scan_lines_eq [OF assms(1), of "[]" lower "history_lines sn"] by (simp add: MATCH_CAP_def Let_def)
  show ?thesis
  proof (cases "length ?h \<ge> MATCH_CAP")
    case True
    then show ?thesis
      using h assms(1) by (simp add: build_matches_def)
  next
    case False
    then show ?thesis
      using h assms(1) sorted scan_lines_eq [OF assms(1), of ?h lower "live_lines sn live"]
      by (simp add: build_matches_def Let_def)
  qed
qed


section \<open>Navigation\<close>

lemma bit_count_bounds: "n > 0 \<Longrightarrow> 2 ^ (bit_count n - 1) \<le> n \<and> n < 2 ^ bit_count n \<and> bit_count n > 0"
proof (induction n rule: bit_count.induct)
  case (1 n)
  show ?case
  proof (cases "n div 2 > 0")
    case True
    have "2 ^ (bit_count (n div 2) - 1) \<le> n div 2" "n div 2 < 2 ^ bit_count (n div 2)" "bit_count (n div 2) > 0"
      using 1 True by auto
    moreover obtain k where "bit_count (n div 2) = Suc k"
      using \<open>bit_count (n div 2) > 0\<close> gr0_conv_Suc by blast
    moreover have "2 * (n div 2) \<le> n" "n \<le> 2 * (n div 2) + 1"
      by simp_all
    ultimately have "2 * 2 ^ k \<le> n" "n < 2 * (2 * 2 ^ k)"
      by simp_all
    then show ?thesis
      using "1.prems" \<open>bit_count (n div 2) = Suc k\<close> by (simp add: bit_count.simps [of n])
  next
    case False
    then have "n = 1" using "1.prems" by simp
    then show ?thesis by (simp add: bit_count.simps)
  qed
qed

lemma two_to_add1: "two_to (e + 1) = 2 * two_to e"
proof (cases "e \<ge> 0")
  case True
  then show ?thesis by (simp add: two_to_def nat_add_distrib)
next
  case False
  then have "nat (- e) = Suc (nat (- (e + 1)))" by simp
  then show ?thesis
    using False by (simp add: two_to_def)
qed

lemma two_to_pos: "two_to e > 0"
  by (simp add: two_to_def)

lemma two_to_diff: "two_to (int a - int b) = 2 ^ a / 2 ^ b"
  by (auto simp: two_to_def nat_diff_distrib' power_diff divide_simps simp flip: of_nat_diff)

lemma f32_exponent_le:
  assumes "q > 0"
  shows "two_to (f32_exponent q) \<le> q"
proof -
  obtain a b where ab: "quotient_of q = (a, b)" by fastforce
  have b: "b > 0" using quotient_of_denom_pos [OF ab] .
  have q: "q = of_int a / of_int b" using quotient_of_div [OF ab] .
  have a: "a > 0" using assms q b by (simp add: zero_less_divide_iff)
  have "2 ^ (bit_count (nat a) - 1) \<le> nat a" "nat b < 2 ^ bit_count (nat b)" "bit_count (nat a) > 0"
    using bit_count_bounds [of "nat a"] bit_count_bounds [of "nat b"] a b by auto
  then have ba: "(2 :: rat) ^ (bit_count (nat a) - 1) \<le> of_int a" "(of_int b :: rat) \<le> 2 ^ bit_count (nat b)"
    using a b by (metis (mono_tags) le_nat_iff less_le of_int_le_iff of_int_numeral of_int_power of_nat_le_iff of_nat_nat of_nat_numeral of_nat_power order_less_imp_le,
      metis (mono_tags) less_le of_int_le_iff of_int_numeral of_int_power of_nat_le_iff of_nat_nat of_nat_numeral of_nat_power order_less_imp_le)
  have "two_to (int (bit_count (nat a)) - int (bit_count (nat b)) - 1)
      = two_to (int (bit_count (nat a) - 1) - int (bit_count (nat b)))"
    using \<open>bit_count (nat a) > 0\<close> by (simp add: of_nat_diff algebra_simps)
  also have "\<dots> = 2 ^ (bit_count (nat a) - 1) / 2 ^ bit_count (nat b)"
    by (rule two_to_diff)
  also have "\<dots> \<le> of_int a / of_int b"
    using ba a b by (intro frac_le) auto
  finally show ?thesis
    using ab q by (simp add: f32_exponent_def Let_def)
qed

lemma round_half_even_bounds: "of_int (round_half_even q) \<le> q + 1 / 2" "0 \<le> q \<Longrightarrow> 0 \<le> round_half_even q"
  unfolding round_half_even_def Let_def by (auto simp: floor_le_iff) linarith+

lemma f32_round_bounds:
  assumes "0 \<le> q"
  shows "0 \<le> f32_round q" "f32_round q \<le> 101 / 100 * q"
proof -
  show "0 \<le> f32_round q"
    using assms two_to_pos round_half_even_bounds(2) by (auto simp: f32_round_def Let_def less_imp_le)
  show "f32_round q \<le> 101 / 100 * q"
  proof (cases "q = 0")
    case False
    define u where "u = two_to (f32_exponent q - 23)"
    have u: "u > 0" by (simp add: u_def two_to_pos)
    have "two_to (e - int n) * 2 ^ n = two_to e" for e n
    proof (induction n)
      case (Suc n)
      have "two_to (e - int n) = 2 * two_to (e - int (Suc n))"
        using two_to_add1 [of "e - int (Suc n)"] by simp
      then show ?case using Suc by simp
    qed (simp add: two_to_def)
    from this [of "f32_exponent q" 23] have "u * 2 ^ 23 \<le> q"
      using f32_exponent_le [of q] False assms by (simp add: u_def)
    moreover have "of_int (round_half_even (q / u)) * u \<le> (q / u + 1 / 2) * u"
      using u round_half_even_bounds(1) by (intro mult_right_mono) auto
    moreover have "(q / u + 1 / 2) * u = q + u / 2"
      using u by (simp add: distrib_right)
    moreover have "f32_round q = of_int (round_half_even (q / u)) * u"
      using False assms by (simp add: f32_round_def Let_def u_def)
    ultimately show ?thesis
      using u by simp
  qed (simp add: f32_round_def)
qed

lemma anchor_row_inside: "0 < n \<Longrightarrow> 0 \<le> anchor_row HISTORY_ANCHOR n \<and> anchor_row HISTORY_ANCHOR n < int n"
proof -
  assume n: "0 < n"
  let ?a = "max 0 (min 1 HISTORY_ANCHOR)" and ?n = "f32_round (of_nat n)"
  have a: "0 \<le> ?a" "?a \<le> 34 / 100"
    using f32_round_bounds [of "33 / 100"] by (auto simp: HISTORY_ANCHOR_def)
  have nn: "0 \<le> ?n" "?n \<le> 101 / 100 * of_nat n"
    using f32_round_bounds [of "of_nat n"] by auto
  have "?a * ?n \<le> 34 / 100 * (101 / 100 * of_nat n)"
    using a nn by (intro mult_mono) auto
  then have "f32_round (?a * ?n) \<le> 101 / 100 * (34 / 100 * (101 / 100 * of_nat n))" "0 \<le> f32_round (?a * ?n)"
    using f32_round_bounds [of "?a * ?n"] a nn by auto
  moreover have "101 / 100 * (34 / 100 * (101 / 100 * of_nat n)) + 1 / 2 < (of_nat n :: rat)"
  proof -
    have "(1 :: rat) \<le> of_nat n" using n by simp
    then show ?thesis by (simp add: field_simps)
  qed
  ultimately show ?thesis
    unfolding anchor_row_def f32_round_int_def by (simp add: floor_less_iff le_floor_iff)
qed


text \<open>The window after a jump to a history row holds the row.\<close>

lemma set_view_offset_value:
  "vp_view_offset (snd (set_view_offset off n v)) = clamp off 0 (max_offset v n)"
  "vp_live_start_row (snd (set_view_offset off n v)) = vp_live_start_row v"
  by (simp_all add: set_view_offset_def Let_def queue_missing_keeps sync_anchor_def)

lemma scroll_to_absolute_shows:
  assumes n: "0 < n" "n \<le> 2 ^ 16" and geo: "vp_geometry_known v" "vp_live_start_row v \<le> 2 ^ 62"
    and row: "0 \<le> row" "row < vp_live_start_row v"
  defines "v' \<equiv> snd (scroll_to_absolute row HISTORY_ANCHOR n v)"
  shows "absolute_row v' 0 \<le> row \<and> row < absolute_row v' 0 + int n"
proof -
  let ?live = "vp_live_start_row v" and ?w = "anchor_row HISTORY_ANCHOR n"
  have w: "0 \<le> ?w" "?w < int n"
    using anchor_row_inside [OF n(1)] by auto
  have small: "int n \<le> 2 ^ 16" using n(2) by simp
  have "saturating_sub (saturating_add ?live ?w) row = ?live + ?w - row"
    using w small row geo(2) by (simp add: saturating_sub_def saturating_add_def i64_sat_id)
  then have off: "vp_view_offset v' = clamp (?live + ?w - row) 0 ?live" "vp_live_start_row v' = ?live"
    using geo(1) row by (simp_all add: v'_def scroll_to_absolute_def set_view_offset_value max_offset_def max_def)
  then have "absolute_row v' 0 = ?live - clamp (?live + ?w - row) 0 ?live"
    using w row geo(2) small
    by (auto simp: absolute_row_0 saturating_sub_def clamp_def intro!: i64_sat_id)
  then show ?thesis
    using w row by (auto simp: clamp_def)
qed

section \<open>Properties\<close>

text \<open>
  Claim C30. The capped search with its early returns and its final sort gives exactly the first 500
  matches of the plain search over history and live rows in order. In a line it finds the leftmost
  non-overlapping occurrences up to case: every reported place is an occurrence, places are at
  least a query apart, and every occurrence overlaps a reported one. Row numbers are below \<open>2 ^ 62\<close>.
\<close>

theorem find_matches_exact:
  assumes "query \<noteq> []"
    and "0 \<le> fs_first_row sn" "fs_first_row sn + int (length (fs_lines sn)) \<le> 2 ^ 62"
    and "0 \<le> fs_visible_start_row sn" "fs_visible_start_row sn \<le> 2 ^ 62"
  shows "build_matches lower query sn live =
      take MATCH_CAP (concat (map (line_matches lower query) (history_lines sn @ live_lines sn live)))
    \<and> (\<forall>line. let found = occurrences lower query line 0 in
         sorted_wrt (\<lambda>i j. i + length query \<le> j) found
         \<and> (\<forall>i \<in> set found. occurs_at lower query line i)
         \<and> (\<forall>i. occurs_at lower query line i \<longrightarrow> (\<exists>j \<in> set found. j \<le> i \<and> i < j + length query)))"
  using build_matches_eq [OF assms] occurrences_apart [OF assms(1)] occurrences_sound [OF assms(1)]
    occurrences_complete [OF assms(1)] by (auto simp: Let_def)

definition sample_snapshot :: find_snapshot where
  "sample_snapshot = \<lparr>fs_lines = [lit ''aAa''], fs_first_row = 0, fs_visible_start_row = 1, fs_cols = 3,
     fs_rows = 0, fs_content_seq = 1, fs_is_alt_screen = False\<rparr>"

definition sample_lower :: "nat \<Rightarrow> nat list" where
  "sample_lower c = (if 65 \<le> c \<and> c \<le> 90 then [c + 32] else [c])"

theorem find_matches_exact_witness:
  "map fm_start_col (build_matches sample_lower (lit ''aa'') sample_snapshot (buffer_new 1 1)) = [0]"
proof -
  have "lit ''aa'' \<noteq> []" "0 \<le> fs_first_row sample_snapshot"
    "fs_first_row sample_snapshot + int (length (fs_lines sample_snapshot)) \<le> 2 ^ 62"
    "0 \<le> fs_visible_start_row sample_snapshot" "fs_visible_start_row sample_snapshot \<le> 2 ^ 62"
    by (simp_all add: sample_snapshot_def lit_def)
  then have "build_matches sample_lower (lit ''aa'') sample_snapshot (buffer_new 1 1) =
      take MATCH_CAP (concat (map (line_matches sample_lower (lit ''aa''))
        (history_lines sample_snapshot @ live_lines sample_snapshot (buffer_new 1 1))))"
    using find_matches_exact by blast
  moreover have "map fm_start_col (take MATCH_CAP (concat (map (line_matches sample_lower (lit ''aa''))
        (history_lines sample_snapshot @ live_lines sample_snapshot (buffer_new 1 1))))) = [0]"
    by code_simp
  ultimately show ?thesis
    by simp
qed

text \<open>
  Stepping to the next or previous match shows it: the chosen match is one of the list, and
  afterwards its row lies in the window, in history as well as on the live screen.
\<close>

theorem navigation_shows_the_match:
  assumes "tf_matches m \<noteq> []" "tf_cached_visible_start_row m = Some (vp_live_start_row v)"
    and "vp_geometry_known v" "0 \<le> vp_live_start_row v" "vp_live_start_row v \<le> 2 ^ 62"
    and "0 < tf_cached_rows m" "tf_cached_rows m \<le> 2 ^ 16"
    and rows: "\<forall>x \<in> set (tf_matches m). 0 \<le> fm_absolute_row x
      \<and> fm_absolute_row x < vp_live_start_row v + int (tf_cached_rows m)"
  shows "let (target, m', v') = find_advance direction (m, v); i = tf_current_index m';
             row = fm_absolute_row (tf_matches m' ! i)
    in tf_matches m' = tf_matches m \<and> i < length (tf_matches m)
       \<and> target = Some (if row \<ge> vp_live_start_row v then Live else History row HISTORY_ANCHOR)
       \<and> absolute_row v' 0 \<le> row \<and> row < absolute_row v' 0 + int (tf_cached_rows m)"
proof -
  define i where "i = step_index direction (tf_current_index m) (length (tf_matches m))"
  have len: "0 < length (tf_matches m)"
    using assms(1) by simp
  then have i: "i < length (tf_matches m)"
    by (simp add: i_def step_index_def nat_less_iff)
  define row where "row = fm_absolute_row (tf_matches m ! i)"
  have row: "0 \<le> row" "row < vp_live_start_row v + int (tf_cached_rows m)"
    using rows i by (auto simp: row_def)
  show ?thesis
  proof (cases "row \<ge> vp_live_start_row v")
    case True
    have "absolute_row (snd (scroll_to_live (tf_cached_rows m) v)) 0 = vp_live_start_row v"
      using assms(4,5) max_offset_nonneg [of v "tf_cached_rows m"]
      by (simp add: scroll_to_live_def absolute_row_0 set_view_offset_value clamp_def saturating_sub_def i64_sat_id)
    then show ?thesis
      using True assms(1,2) i row by (simp add: find_advance_def Let_def i_def row_def)
  next
    case False
    then have "absolute_row (snd (scroll_to_absolute row HISTORY_ANCHOR (tf_cached_rows m) v)) 0 \<le> row
        \<and> row < absolute_row (snd (scroll_to_absolute row HISTORY_ANCHOR (tf_cached_rows m) v)) 0 + int (tf_cached_rows m)"
      using assms row(1) by (intro scroll_to_absolute_shows) auto
    then show ?thesis
      using False assms(1,2) i by (simp add: find_advance_def Let_def i_def row_def)
  qed
qed

text \<open>
  Stepping back from the first match does not reach the last one: the 64-bit index wraps
  before the remainder is taken, so with three matches the selection stays on the first, and in
  general it lands on \<open>(2 ^ 64 - 1) mod n\<close>.
\<close>

theorem previous_from_first_match:
  "tf_matches m \<noteq> [] \<Longrightarrow> tf_current_index m = 0 \<Longrightarrow>
     tf_current_index (fst (snd (find_previous (m, v)))) = (2 ^ 64 - 1) mod length (tf_matches m)"
proof -
  assume m: "tf_matches m \<noteq> []" "tf_current_index m = 0"
  have "tf_current_index (fst (snd (find_previous (m, v)))) = step_index (- 1) 0 (length (tf_matches m))"
    using m by (simp add: find_previous_def find_advance_def Let_def split: option.split)
  also have "\<dots> = (2 ^ 64 - 1) mod length (tf_matches m)"
    by (simp add: step_index_def nat_mod_distrib)
  finally show ?thesis .
qed

definition three_matches :: terminal_find_model where
  "three_matches = find_model_default\<lparr>tf_query := lit ''a'',
     tf_matches := map (\<lambda>r. \<lparr>fm_absolute_row = r, fm_start_col = 0, fm_end_col_exclusive = 1, fm_text = lit ''a''\<rparr>)
       [0, 1, 2]\<rparr>"

theorem previous_from_first_match_witness:
  "tf_current_index (fst (snd (find_previous (three_matches, viewport_default)))) = 0"
  using previous_from_first_match [of three_matches viewport_default]
  by (simp add: three_matches_def find_model_default_def)

definition found_view :: "terminal_find_model \<times> scrollback_viewport" where
  "found_view = (three_matches\<lparr>tf_cached_visible_start_row := Some 2, tf_cached_rows := 2\<rparr>,
     apply_geometry 2 2 7 2 viewport_default)"

theorem navigation_shows_the_match_witness:
  "let (target, m', v') = find_advance 1 found_view; i = tf_current_index m';
       row = fm_absolute_row (tf_matches m' ! i)
   in tf_matches m' = tf_matches (fst found_view) \<and> i < length (tf_matches (fst found_view))
      \<and> target = Some (if row \<ge> vp_live_start_row (snd found_view) then Live else History row HISTORY_ANCHOR)
      \<and> absolute_row v' 0 \<le> row \<and> row < absolute_row v' 0 + int (tf_cached_rows (fst found_view))"
proof -
  have "vp_live_start_row (snd found_view) = 2" "vp_geometry_known (snd found_view)"
    by code_simp+
  then show ?thesis
    using navigation_shows_the_match [of "fst found_view" "snd found_view" 1]
    by (simp add: found_view_def three_matches_def find_model_default_def)
qed

end
