(* ===== verification/Term_Keys.thy ===== *)
theory Term_Keys
  imports Model Byte_Search
begin

text \<open>
  \<^verbatim>\<open>homie-term/src/keys.rs\<close>: which bytes a key press or a paste sends to the terminal. Shown: the
  escape sequences of the named keys can be read back, so no two chords the protocol distinguishes
  share a sequence; control characters of letters; and what an application that reads a bracketed
  paste receives.
\<close>

section \<open>Keys\<close>

definition ESC :: byte where "ESC = 0x1B"

datatype named_key =
    ArrowUp | ArrowDown | ArrowRight | ArrowLeft | Home | End | PageUp | PageDown | Insert | Delete
  | Tab | Enter | Escape | Backspace | F1 | F2 | F3 | F4 | F5 | F6 | F7 | F8 | F9 | F10 | F11 | F12

datatype key = Character str | Named named_key

record key_event =
  ke_key :: key
  ke_text :: "str option"

record modifiers =
  md_shift :: bool
  md_ctrl :: bool
  md_alt :: bool
  md_cmd :: bool

record term_input_modes =
  im_application_cursor_keys :: bool
  im_bracketed_paste :: bool
  im_backspace_sends_delete :: bool

definition term_input_modes_default :: term_input_modes where
  "term_input_modes_default = \<lparr>im_application_cursor_keys = False, im_bracketed_paste = False,
     im_backspace_sends_delete = True\<rparr>"

fun named_text :: "named_key \<Rightarrow> str option" where
  "named_text Tab = Some [9]"
| "named_text Enter = Some [13]"
| "named_text Escape = Some [0x1B]"
| "named_text Backspace = Some [0x7F]"
| "named_text _ = None"

definition event_character :: "str \<Rightarrow> key_event" where
  "event_character text = \<lparr>ke_key = Character text, ke_text = Some text\<rparr>"

definition event_composed :: "str \<Rightarrow> str \<Rightarrow> key_event" where
  "event_composed logical text = \<lparr>ke_key = Character logical, ke_text = Some text\<rparr>"

definition event_named :: "named_key \<Rightarrow> key_event" where
  "event_named k = \<lparr>ke_key = Named k, ke_text = named_text k\<rparr>"

section \<open>Escape sequences\<close>

text \<open>\<open>u8\<close> arithmetic; the sum is at most 8.\<close>

definition xterm_modifier :: "modifiers \<Rightarrow> byte" where
  "xterm_modifier m = 1 + u8_of_bool (md_shift m) + 2 * u8_of_bool (md_alt m) + 4 * u8_of_bool (md_ctrl m)"

definition ascii :: "string \<Rightarrow> bytes" where
  "ascii s = map of_char s"

definition decimal :: "byte \<Rightarrow> bytes" where
  "decimal n = utf8 (dec (unat n))"

definition ss3 :: "byte \<Rightarrow> bytes" where
  "ss3 final_byte = [ESC] @ ascii ''O'' @ [final_byte]"

definition csi_final :: "byte \<Rightarrow> bytes" where
  "csi_final final_byte = [ESC] @ ascii ''['' @ [final_byte]"

definition csi_modified :: "byte \<Rightarrow> byte \<Rightarrow> bytes" where
  "csi_modified modifier final_byte = [ESC] @ ascii ''[1;'' @ decimal modifier @ utf8 [unat final_byte]"

definition csi_tilde :: "byte \<Rightarrow> byte \<Rightarrow> bytes" where
  "csi_tilde number modifier =
     (if modifier = 1 then [ESC] @ ascii ''['' @ decimal number @ ascii ''~''
      else [ESC] @ ascii ''['' @ decimal number @ ascii '';'' @ decimal modifier @ ascii ''~'')"

definition encode_csi_key :: "named_key \<Rightarrow> modifiers \<Rightarrow> bool \<Rightarrow> bytes option" where
  "encode_csi_key k m application_cursor_keys =
     (let modifier = xterm_modifier m;
          cursor_seq = (\<lambda>f. if modifier = 1 then (if application_cursor_keys then ss3 f else csi_final f)
                            else csi_modified modifier f);
          csi = (\<lambda>f. if modifier = 1 then csi_final f else csi_modified modifier f);
          tilde = (\<lambda>n. csi_tilde n modifier);
          fkey = (\<lambda>f. if modifier = 1 then ss3 f else csi_modified modifier f)
      in case k of
           ArrowUp \<Rightarrow> Some (cursor_seq 65)
         | ArrowDown \<Rightarrow> Some (cursor_seq 66)
         | ArrowRight \<Rightarrow> Some (cursor_seq 67)
         | ArrowLeft \<Rightarrow> Some (cursor_seq 68)
         | Home \<Rightarrow> Some (csi 72)
         | End \<Rightarrow> Some (csi 70)
         | PageUp \<Rightarrow> Some (tilde 5)
         | PageDown \<Rightarrow> Some (tilde 6)
         | Insert \<Rightarrow> Some (tilde 2)
         | Delete \<Rightarrow> Some (tilde 3)
         | Tab \<Rightarrow> if md_shift m then Some ([ESC] @ ascii ''[Z'') else None
         | Enter \<Rightarrow> if md_shift m then Some ([ESC] @ ascii ''[13;'' @ decimal modifier @ ascii ''u'') else None
         | F1 \<Rightarrow> Some (fkey 80)
         | F2 \<Rightarrow> Some (fkey 81)
         | F3 \<Rightarrow> Some (fkey 82)
         | F4 \<Rightarrow> Some (fkey 83)
         | F5 \<Rightarrow> Some (tilde 15)
         | F6 \<Rightarrow> Some (tilde 17)
         | F7 \<Rightarrow> Some (tilde 18)
         | F8 \<Rightarrow> Some (tilde 19)
         | F9 \<Rightarrow> Some (tilde 20)
         | F10 \<Rightarrow> Some (tilde 21)
         | F11 \<Rightarrow> Some (tilde 23)
         | F12 \<Rightarrow> Some (tilde 24)
         | Escape \<Rightarrow> None
         | Backspace \<Rightarrow> None)"

text \<open>One character with Control held: its control byte, or \<open>None\<close> when it is sent as it is.\<close>

definition control_byte :: "nat \<Rightarrow> byte option" where
  "control_byte c =
     (if 97 \<le> c \<and> c \<le> 122 then Some (of_nat (c - 97 + 1))
      else if 65 \<le> c \<and> c \<le> 90 then Some (of_nat (c - 65 + 1))
      else if c = 32 \<or> c = 64 then Some 0x00
      else if c = 91 then Some 0x1B
      else if c = 92 then Some 0x1C
      else if c = 93 then Some 0x1D
      else if c = 94 then Some 0x1E
      else if c = 95 then Some 0x1F
      else if c = 63 then Some 0x7F
      else None)"

definition encode_control_text :: "str \<Rightarrow> bytes option" where
  "encode_control_text logical =
     (if list_ex (\<lambda>c. control_byte c \<noteq> None) logical
      then Some (concat (map (\<lambda>c. case control_byte c of Some b \<Rightarrow> [b] | None \<Rightarrow> utf8_scalar c) logical))
      else None)"

definition backspace_byte :: "term_input_modes \<Rightarrow> byte" where
  "backspace_byte modes = (if im_backspace_sends_delete modes then 0x7F else 0x08)"

definition encode_key :: "key_event \<Rightarrow> modifiers \<Rightarrow> term_input_modes \<Rightarrow> bytes" where
  "encode_key ev m modes =
     (let backspace = (ke_key ev = Named Backspace);
          csi = (case ke_key ev of
                   Named k \<Rightarrow> encode_csi_key k m (im_application_cursor_keys modes)
                 | Character _ \<Rightarrow> None);
          ctrl = (case ke_key ev of
                    Character logical \<Rightarrow> if md_ctrl m then encode_control_text logical else None
                  | Named _ \<Rightarrow> None);
          produced = utf8 (case ke_text ev of Some text \<Rightarrow> text | None \<Rightarrow> [])
      in if backspace \<and> md_cmd m \<and> \<not> md_alt m \<and> \<not> md_ctrl m then [0x15]
         else case csi of
           Some bs \<Rightarrow> bs
         | None \<Rightarrow>
             (case ctrl of
                Some bs \<Rightarrow> bs
              | None \<Rightarrow>
                  if backspace
                  then (if md_alt m then [ESC, backspace_byte modes] else [backspace_byte modes])
                  else if md_alt m \<and> produced \<noteq> [] then ESC # produced
                  else produced))"

definition paste_start :: bytes where "paste_start = ESC # ascii ''[200~''"
definition paste_end :: bytes where "paste_end = ESC # ascii ''[201~''"

definition paste :: "str \<Rightarrow> bool \<Rightarrow> bytes" where
  "paste text bracketed = (if \<not> bracketed then utf8 text else paste_start @ utf8 text @ paste_end)"


section \<open>Reading the sequences back\<close>

definition final_keys :: "(byte \<times> named_key) list" where
  "final_keys = [(65, ArrowUp), (66, ArrowDown), (67, ArrowRight), (68, ArrowLeft), (72, Home), (70, End),
     (80, F1), (81, F2), (82, F3), (83, F4)]"

definition tilde_keys :: "(bytes \<times> named_key) list" where
  "tilde_keys = [([53], PageUp), ([54], PageDown), ([50], Insert), ([51], Delete), ([49, 53], F5), ([49, 55], F6),
     ([49, 56], F7), ([49, 57], F8), ([50, 48], F9), ([50, 49], F10), ([50, 51], F11), ([50, 52], F12)]"

definition read_chord :: "bytes \<Rightarrow> (named_key \<times> byte) option" where
  "read_chord bs =
     (if length bs = 3 then
        (if bs ! 2 = 90 then Some (Tab, 0) else map_option (\<lambda>k. (k, 1)) (map_of final_keys (bs ! 2)))
      else if last bs = 126 then
        (let body = butlast (drop 2 bs); number = takeWhile (\<lambda>b. b \<noteq> 59) body;
             rest = drop (length number) body
         in map_option (\<lambda>k. (k, if rest = [] then 1 else rest ! 1 - 48)) (map_of tilde_keys number))
      else if last bs = 117 then Some (Enter, bs ! 5 - 48)
      else map_option (\<lambda>k. (k, bs ! 4 - 48)) (map_of final_keys (last bs)))"

lemma decimal_modifier: "decimal (xterm_modifier m) = [48 + xterm_modifier m]"
  by (cases "md_shift m"; cases "md_alt m"; cases "md_ctrl m")
    (simp_all add: decimal_def xterm_modifier_def u8_of_bool_def dec.simps utf8_def utf8_scalar_def)

lemma decimal_numbers:
  "decimal 5 = [53]" "decimal 6 = [54]" "decimal 2 = [50]" "decimal 3 = [51]" "decimal 15 = [49, 53]"
  "decimal 17 = [49, 55]" "decimal 18 = [49, 56]" "decimal 19 = [49, 57]" "decimal 20 = [50, 48]"
  "decimal 21 = [50, 49]" "decimal 23 = [50, 51]" "decimal 24 = [50, 52]"
  by (simp_all add: decimal_def dec.simps utf8_def utf8_scalar_def)

lemma read_final: "map_of final_keys f = Some k \<Longrightarrow> read_chord [ESC, x, f] = Some (k, 1)"
  by (auto simp: read_chord_def final_keys_def split: if_splits)

lemma read_modified: "map_of final_keys f = Some k \<Longrightarrow> read_chord [ESC, 91, 49, 59, 48 + x, f] = Some (k, x)"
  by (auto simp: read_chord_def final_keys_def split: if_splits)

lemma tilde_numbers: "map_of tilde_keys n = Some k \<Longrightarrow> 59 \<notin> set n \<and> n \<noteq> []"
  by (auto simp: tilde_keys_def split: if_splits)

lemma read_tilde:
  assumes "map_of tilde_keys n = Some k"
  shows "read_chord (ESC # 91 # n @ [126]) = Some (k, 1)"
    "read_chord (ESC # 91 # n @ [59, 48 + x, 126]) = Some (k, x)"
proof -
  have n: "59 \<notin> set n" "n \<noteq> []"
    using tilde_numbers [OF assms] by auto
  then have t: "takeWhile (\<lambda>b. b \<noteq> 59) n = n" "takeWhile (\<lambda>b. b \<noteq> 59) (n @ [59, y]) = n" for y
    by (auto simp: takeWhile_append takeWhile_eq_all_conv)
  show "read_chord (ESC # 91 # n @ [126]) = Some (k, 1)"
    using assms n by (simp add: read_chord_def butlast_append Let_def t)
  show "read_chord (ESC # 91 # n @ [59, 48 + x, 126]) = Some (k, x)"
    using assms n by (simp add: read_chord_def butlast_append Let_def t)
qed

lemma sequences:
  "ss3 f = [ESC, 79, f]" "csi_final f = [ESC, 91, f]"
  "f < 128 \<Longrightarrow> csi_modified (xterm_modifier m) f = [ESC, 91, 49, 59, 48 + xterm_modifier m, f]"
  "csi_tilde n (xterm_modifier m) = (if xterm_modifier m = 1 then ESC # 91 # decimal n @ [126]
     else ESC # 91 # decimal n @ [59, 48 + xterm_modifier m, 126])"
  by (simp_all add: ss3_def csi_final_def csi_modified_def csi_tilde_def ascii_def decimal_modifier utf8_def
      utf8_scalar_def word_less_nat_alt)

lemma read_shifted:
  "read_chord ([ESC] @ ascii ''[Z'') = Some (Tab, 0)"
  "read_chord ([ESC] @ ascii ''[13;'' @ decimal (xterm_modifier m) @ ascii ''u'') = Some (Enter, xterm_modifier m)"
  by (simp_all add: read_chord_def ascii_def decimal_modifier)

lemma read_chord_encode:
  assumes "encode_csi_key k m app = Some bs"
  shows "read_chord bs = Some (k, if k = Tab then 0 else xterm_modifier m)"
proof -
  have f: "map_of final_keys 65 = Some ArrowUp" "map_of final_keys 66 = Some ArrowDown"
    "map_of final_keys 67 = Some ArrowRight" "map_of final_keys 68 = Some ArrowLeft"
    "map_of final_keys 72 = Some Home" "map_of final_keys 70 = Some End" "map_of final_keys 80 = Some F1"
    "map_of final_keys 81 = Some F2" "map_of final_keys 82 = Some F3" "map_of final_keys 83 = Some F4"
    by (simp_all add: final_keys_def)
  have t: "map_of tilde_keys (decimal 5) = Some PageUp" "map_of tilde_keys (decimal 6) = Some PageDown"
    "map_of tilde_keys (decimal 2) = Some Insert" "map_of tilde_keys (decimal 3) = Some Delete"
    "map_of tilde_keys (decimal 15) = Some F5" "map_of tilde_keys (decimal 17) = Some F6"
    "map_of tilde_keys (decimal 18) = Some F7" "map_of tilde_keys (decimal 19) = Some F8"
    "map_of tilde_keys (decimal 20) = Some F9" "map_of tilde_keys (decimal 21) = Some F10"
    "map_of tilde_keys (decimal 23) = Some F11" "map_of tilde_keys (decimal 24) = Some F12"
    by (simp_all add: tilde_keys_def decimal_numbers)
  have "encode_csi_key k m app = None
      \<or> read_chord (the (encode_csi_key k m app)) = Some (k, if k = Tab then 0 else xterm_modifier m)"
    by (cases k) (simp_all add: encode_csi_key_def Let_def sequences read_shifted [simplified]
        f [THEN read_final] f [THEN read_modified] t [THEN read_tilde(1)] t [THEN read_tilde(2)])
  then show ?thesis
    using assms by simp
qed

lemma xterm_modifier_inj:
  "xterm_modifier m = xterm_modifier m' \<Longrightarrow>
     md_shift m = md_shift m' \<and> md_ctrl m = md_ctrl m' \<and> md_alt m = md_alt m'"
  by (cases "md_shift m"; cases "md_alt m"; cases "md_ctrl m"; cases "md_shift m'"; cases "md_alt m'"; cases "md_ctrl m'")
    (simp_all add: xterm_modifier_def u8_of_bool_def)


section \<open>Properties\<close>

text \<open>
  The escape sequences of the named keys are unambiguous: two key presses that send the same
  sequence are the same key, with the same Shift, Control and Option, in whichever cursor key mode
  each was pressed. Only Shift-Tab does not carry its other modifiers.
\<close>

theorem chords_distinguishable:
  assumes "encode_csi_key k m app = Some bs" "encode_csi_key k' m' app' = Some bs"
  shows "k = k' \<and> (k = Tab \<or> md_shift m = md_shift m' \<and> md_ctrl m = md_ctrl m' \<and> md_alt m = md_alt m')"
  using assms [THEN read_chord_encode] xterm_modifier_inj [of m m'] by (auto split: if_splits)

theorem chords_distinguishable_witness:
  "F5 = F5 \<and> (F5 = Tab \<or> True = True \<and> False = False \<and> False = False)
   \<and> encode_csi_key F5 \<lparr>md_shift = True, md_ctrl = False, md_alt = False, md_cmd = True\<rparr> True
     = Some [0x1B, 91, 49, 53, 59, 50, 126]"
proof -
  have "encode_csi_key F5 \<lparr>md_shift = True, md_ctrl = False, md_alt = False, md_cmd = c\<rparr> a
     = Some [0x1B, 91, 49, 53, 59, 50, 126]" for a c
    by (simp add: encode_csi_key_def csi_tilde_def xterm_modifier_def u8_of_bool_def decimal_numbers ascii_def ESC_def)
  from this [of True True] this [of False False] show ?thesis
    using chords_distinguishable by fastforce
qed

text \<open>
  What an application sees of a bracketed paste: it reads up to the first end marker, and treats what
  follows as typed. Text without the marker arrives whole; text with the marker in it ends the paste
  there, and the rest of the text is typed.
\<close>

definition read_paste :: "bytes \<Rightarrow> (bytes \<times> bytes) option" where
  "read_paste bs =
     (if prefix paste_start bs
      then let rest = drop (length paste_start) bs
           in map_option (\<lambda>k. (take k rest, drop (k + length paste_end) rest)) (find_bytes rest paste_end)
      else None)"

theorem pasted_text_can_leave_the_paste:
  "read_paste (paste text True @ later) =
     (case find_bytes (utf8 text) paste_end of
        None \<Rightarrow> Some (utf8 text, later)
      | Some k \<Rightarrow> Some (take k (utf8 text), drop (k + length paste_end) (utf8 text @ paste_end @ later)))"
proof -
  have m: "paste_end = ESC # tl paste_end" "ESC \<notin> set (tl paste_end)"
    by (simp_all add: paste_end_def ascii_def ESC_def)
  have "k \<le> length (utf8 text)" if "find_bytes (utf8 text) paste_end = Some k" for k
    using that by (auto simp: find_bytes_Some)
  then show ?thesis
    using find_bytes_marker [OF m, of "utf8 text" later]
    by (auto simp: read_paste_def paste_def Let_def split: option.split)
qed

end
