(* ===== verification/Term_Selection.thy ===== *)
theory Term_Selection
  imports Term_Scrollback Model "HOL-Library.Product_Lexorder"
begin

text \<open>
  \<^verbatim>\<open>homie-term/src/selection.rs\<close>: a selection between two points in absolute rows, its highlighted
  spans, its text, and word selection. Points are compared in reading order, as the derived order of
  the source does. Which characters are alphanumeric is a parameter. Shown: a cell of the window is
  highlighted exactly when it lies between the ends of the selection in reading order, and a
  double-click selects the whole run of cells of one class around the cell, and nothing else.
\<close>

section \<open>Data\<close>

type_synonym selection_point = "int \<times> usize" \<comment> \<open>absolute row, column\<close>

record selection_range =
  sel_start :: selection_point
  sel_end :: selection_point

record selection_span =
  sp_row :: usize
  sp_start_col :: usize
  sp_end_col_exclusive :: usize

datatype word_class = Word | Whitespace | Punctuation

record terminal_selection =
  ts_anchor :: "selection_point option"
  ts_head :: "selection_point option"

definition selection_clear :: "terminal_selection \<Rightarrow> terminal_selection" where
  "selection_clear s = s\<lparr>ts_anchor := None, ts_head := None\<rparr>"

definition selection_begin :: "selection_point \<Rightarrow> terminal_selection \<Rightarrow> terminal_selection" where
  "selection_begin p s = s\<lparr>ts_anchor := Some p, ts_head := Some p\<rparr>"

definition drag_to :: "selection_point \<Rightarrow> terminal_selection \<Rightarrow> terminal_selection" where
  "drag_to p s = (if ts_anchor s \<noteq> None then s\<lparr>ts_head := Some p\<rparr> else s)"

definition set_from_window :: "scrollback_viewport \<Rightarrow> usize \<Rightarrow> usize \<Rightarrow> usize \<Rightarrow> usize
    \<Rightarrow> terminal_selection \<Rightarrow> terminal_selection" where
  "set_from_window v anchor_col anchor_at head_col head_at s =
     s\<lparr>ts_anchor := Some (absolute_row v anchor_at, anchor_col),
       ts_head := Some (absolute_row v head_at, head_col)\<rparr>"

definition cell_char :: "grid_cell \<Rightarrow> nat" where
  "cell_char cell = (if scalar cell = 0 then 32 else cell_text_char (scalar cell))"

definition word_class_of :: "(nat \<Rightarrow> bool) \<Rightarrow> grid_cell \<Rightarrow> word_class" where
  "word_class_of is_alphanumeric cell =
     (let ch = cell_char cell in
      if is_alphanumeric ch \<or> ch = 95 then Word
      else if is_whitespace ch then Whitespace
      else Punctuation)"

text \<open>The two loops of \<open>select_word\<close>.\<close>

fun run_start :: "(grid_cell \<Rightarrow> word_class) \<Rightarrow> grid_cell list \<Rightarrow> word_class \<Rightarrow> usize \<Rightarrow> usize" where
  "run_start wc row class 0 = 0"
| "run_start wc row class (Suc start) =
     (if wc (row ! start) = class then run_start wc row class start else Suc start)"

function run_end_at :: "(grid_cell \<Rightarrow> word_class) \<Rightarrow> grid_cell list \<Rightarrow> word_class \<Rightarrow> usize \<Rightarrow> usize" where
  "run_end_at wc row class end_at =
     (if end_at < length row \<and> wc (row ! end_at) = class then run_end_at wc row class (end_at + 1) else end_at)"
  by pat_completeness auto
termination
  by (relation "measure (\<lambda>(wc, row, class, end_at). length row - end_at)") auto

declare run_end_at.simps [simp del]

definition select_word :: "(nat \<Rightarrow> bool) \<Rightarrow> scrollback_viewport \<Rightarrow> grid_buffer \<Rightarrow> usize \<Rightarrow> usize
    \<Rightarrow> terminal_selection \<Rightarrow> terminal_selection" where
  "select_word is_alphanumeric v buffer row_at col s =
     (let row = window_row v buffer row_at; wc = word_class_of is_alphanumeric in
      if row = [] then selection_clear s
      else let col = min col (length row - 1);
               class = wc (row ! col);
               start = run_start wc row class col;
               end_at = run_end_at wc row class (col + 1);
               abs_row = absolute_row v row_at
           in s\<lparr>ts_anchor := Some (abs_row, start), ts_head := Some (abs_row, end_at)\<rparr>)"

definition selection_range_of :: "terminal_selection \<Rightarrow> selection_range option" where
  "selection_range_of s =
     (case (ts_anchor s, ts_head s) of
        (Some anchor, Some head) \<Rightarrow>
          if anchor = head then None
          else if anchor \<le> head then Some \<lparr>sel_start = anchor, sel_end = head\<rparr>
          else Some \<lparr>sel_start = head, sel_end = anchor\<rparr>
      | _ \<Rightarrow> None)"

definition columns_for_row :: "selection_range \<Rightarrow> int \<Rightarrow> usize \<Rightarrow> usize \<times> usize" where
  "columns_for_row r row ncols =
     (let start = (if row = fst (sel_start r) then snd (sel_start r) else 0);
          end_at = (if row = fst (sel_end r) then snd (sel_end r) else ncols)
      in (min start ncols, min end_at ncols))"

definition visible_spans :: "scrollback_viewport \<Rightarrow> usize \<Rightarrow> usize \<Rightarrow> terminal_selection \<Rightarrow> selection_span list" where
  "visible_spans v visible_rows ncols s =
     (case selection_range_of s of
        None \<Rightarrow> []
      | Some r \<Rightarrow>
          if ncols = 0 then []
          else let window_top = absolute_row v 0;
                   window_bottom = saturating_add window_top (i64_of_usize visible_rows);
                   first = max (fst (sel_start r)) window_top;
                   last_row = min (fst (sel_end r)) (saturating_sub window_bottom 1)
               in if first > last_row then []
                  else List.map_filter (\<lambda>row.
                      let (start_col, end_col) = columns_for_row r row ncols in
                      if start_col < end_col
                      then Some \<lparr>sp_row = nat (row - window_top), sp_start_col = start_col,
                                 sp_end_col_exclusive = end_col\<rparr>
                      else None) [first..last_row])"

text \<open>\<open>trim_end_matches(' ')\<close>.\<close>

definition trim_end_spaces :: "str \<Rightarrow> str" where
  "trim_end_spaces line = rev (dropWhile (\<lambda>c. c = 32) (rev line))"

definition selected_line :: "scrollback_viewport \<Rightarrow> grid_buffer \<Rightarrow> selection_range \<Rightarrow> int \<Rightarrow> str" where
  "selected_line v buffer r row =
     (let (start_col, end_col) = columns_for_row r row (unat (gb_cols buffer)) in
      if start_col \<ge> end_col then []
      else trim_end_spaces (map cell_char (segment (row_at_absolute v buffer row) start_col end_col)))"

definition selected_text :: "scrollback_viewport \<Rightarrow> grid_buffer \<Rightarrow> terminal_selection \<Rightarrow> str" where
  "selected_text v buffer s =
     (case selection_range_of s of
        None \<Rightarrow> []
      | Some r \<Rightarrow> join_lines (map (selected_line v buffer r) [fst (sel_start r)..fst (sel_end r)]))"

section \<open>Highlighted cells\<close>

lemma set_map_filter: "set (List.map_filter f xs) = {y. \<exists>x \<in> set xs. f x = Some y}"
  by (force simp: List.map_filter_def)

lemma selection_range_ordered:
  "selection_range_of s = Some r \<Longrightarrow> sel_start r < sel_end r"
  by (auto simp: selection_range_of_def split: option.splits if_splits)

lemma columns_for_row_cell:
  assumes "sel_start r < sel_end r" "x < ncols" "fst (sel_start r) \<le> y" "y \<le> fst (sel_end r)"
  shows "(case columns_for_row r y ncols of (a, b) \<Rightarrow> a \<le> x \<and> x < b) \<longleftrightarrow> sel_start r \<le> (y, x) \<and> (y, x) < sel_end r"
  using assms by (cases "sel_start r"; cases "sel_end r")
    (auto simp: columns_for_row_def Let_def less_eq_prod_def less_prod_def)

text \<open>
  A cell of the window is highlighted exactly when it lies in the selection: from the
  earlier end up to, and without, the later end in reading order. Rows are below \<open>2 ^ 62\<close> and the
  window is at most \<open>2 ^ 16\<close> rows high.
\<close>

theorem highlighted_cells_are_the_selection:
  assumes "selection_range_of s = Some r"
    and "\<bar>absolute_row v 0\<bar> \<le> 2 ^ 62" "n \<le> 2 ^ 16" "i < n" "x < ncols"
  shows "(\<exists>sp \<in> set (visible_spans v n ncols s). sp_row sp = i \<and> sp_start_col sp \<le> x \<and> x < sp_end_col_exclusive sp)
    \<longleftrightarrow> sel_start r \<le> (absolute_row v 0 + int i, x) \<and> (absolute_row v 0 + int i, x) < sel_end r"
proof -
  define tp where "tp = absolute_row v 0"
  have small: "int n \<le> 2 ^ 16" using assms(3) by simp
  have bottom: "saturating_sub (saturating_add tp (i64_of_usize n)) 1 = tp + int n - 1"
    using assms(2) small
    by (simp add: tp_def saturating_add_def saturating_sub_def i64_of_usize_def i64_max_def i64_sat_id abs_le_iff)
  let ?y = "tp + int i"
  let ?rows = "[max (fst (sel_start r)) tp..min (fst (sel_end r)) (tp + int n - 1)]"
  define span_of where "span_of row = (let (a, b) = columns_for_row r row ncols in
      if a < b then Some \<lparr>sp_row = nat (row - tp), sp_start_col = a, sp_end_col_exclusive = b\<rparr> else None)" for row
  have spans: "set (visible_spans v n ncols s) = set (List.map_filter span_of ?rows)"
    using assms(1,5) bottom by (simp add: visible_spans_def Let_def span_of_def [abs_def] flip: tp_def)
  have "(\<exists>sp \<in> set (visible_spans v n ncols s). sp_row sp = i \<and> sp_start_col sp \<le> x \<and> x < sp_end_col_exclusive sp)
      \<longleftrightarrow> ?y \<in> set ?rows \<and> (case columns_for_row r ?y ncols of (a, b) \<Rightarrow> a \<le> x \<and> x < b)" (is "?l \<longleftrightarrow> ?r")
  proof
    assume ?l
    then obtain sp row where sp: "row \<in> set ?rows" "span_of row = Some sp" "sp_row sp = i"
        "sp_start_col sp \<le> x" "x < sp_end_col_exclusive sp"
      unfolding spans set_map_filter by blast
    obtain a b where ab: "columns_for_row r row ncols = (a, b)"
      by fastforce
    then have row: "row \<in> set ?rows" "columns_for_row r row ncols = (a, b)" "nat (row - tp) = i" "a \<le> x" "x < b"
      using sp by (auto simp: span_of_def split: if_splits)
    then have "row = ?y" by auto
    then show ?r using row by simp
  next
    assume r: ?r
    obtain a b where ab: "columns_for_row r ?y ncols = (a, b)"
      by fastforce
    then have "span_of ?y = Some \<lparr>sp_row = i, sp_start_col = a, sp_end_col_exclusive = b\<rparr>" "a \<le> x" "x < b"
      using r by (auto simp: span_of_def)
    then show ?l
      unfolding spans set_map_filter using r by (intro bexI [of _ "\<lparr>sp_row = i, sp_start_col = a, sp_end_col_exclusive = b\<rparr>"]) auto
  qed
  also have "\<dots> \<longleftrightarrow> sel_start r \<le> (?y, x) \<and> (?y, x) < sel_end r"
  proof (cases "fst (sel_start r) \<le> ?y \<and> ?y \<le> fst (sel_end r)")
    case True
    then show ?thesis
      using columns_for_row_cell [OF selection_range_ordered [OF assms(1)] assms(5), of ?y] assms(4) by auto
  next
    case False
    then show ?thesis
      by (cases "sel_start r"; cases "sel_end r") (auto simp: less_eq_prod_def less_prod_def)
  qed
  finally show ?thesis
    by (simp add: tp_def)
qed


definition sample_selection :: terminal_selection where
  "sample_selection = \<lparr>ts_anchor = Some (1, 1), ts_head = Some (0, 2)\<rparr>"

theorem highlighted_cells_are_the_selection_witness:
  "(\<exists>sp \<in> set (visible_spans viewport_default 2 3 sample_selection).
      sp_row sp = 1 \<and> sp_start_col sp \<le> 0 \<and> 0 < sp_end_col_exclusive sp) = True"
proof -
  have "selection_range_of sample_selection = Some \<lparr>sel_start = (0, 2), sel_end = (1, 1)\<rparr>"
    by (simp add: selection_range_of_def sample_selection_def less_eq_prod_def)
  moreover have "absolute_row viewport_default 0 = 0"
    by (simp add: absolute_row_0 viewport_default_def saturating_sub_def i64_sat_id)
  ultimately show ?thesis
    using highlighted_cells_are_the_selection [of sample_selection _ viewport_default 2 1 0 3]
    by (simp add: less_eq_prod_def less_prod_def)
qed

section \<open>Word selection\<close>

lemma run_start_spec:
  "run_start wc row cls n \<le> n \<and> (\<forall>i. run_start wc row cls n \<le> i \<and> i < n \<longrightarrow> wc (row ! i) = cls)
   \<and> (run_start wc row cls n > 0 \<longrightarrow> wc (row ! (run_start wc row cls n - 1)) \<noteq> cls)"
  by (induction n) (auto simp: less_Suc_eq)

lemma run_end_at_spec:
  "e \<le> length row \<Longrightarrow>
     e \<le> run_end_at wc row cls e \<and> run_end_at wc row cls e \<le> length row
     \<and> (\<forall>i. e \<le> i \<and> i < run_end_at wc row cls e \<longrightarrow> wc (row ! i) = cls)
     \<and> (run_end_at wc row cls e < length row \<longrightarrow> wc (row ! run_end_at wc row cls e) \<noteq> cls)"
proof (induction wc row cls e rule: run_end_at.induct)
  case (1 wc row cls e)
  show ?case
  proof (cases "e < length row \<and> wc (row ! e) = cls")
    case True
    then have "i = e \<or> e + 1 \<le> i" if "e \<le> i" for i
      using that by auto
    then show ?thesis
      using 1 True by (auto simp: run_end_at.simps [of wc row cls e])
  next
    case False
    then show ?thesis
      using 1 by (auto simp: run_end_at.simps [of wc row cls e])
  qed
qed

text \<open>
  A double-click on a row that has cells selects, in that row, a range that contains the
  clicked column (or the last one), whose cells all have its class, and that cannot be extended:
  the cells just before and just after it have another class or do not exist.
\<close>

theorem select_word_selects_the_run:
  assumes "window_row v buffer y \<noteq> []"
  shows "let row = window_row v buffer y; c = min col (length row - 1); wc = word_class_of alnum;
             s' = select_word alnum v buffer y col s
    in \<exists>a b. ts_anchor s' = Some (absolute_row v y, a) \<and> ts_head s' = Some (absolute_row v y, b)
       \<and> a \<le> c \<and> c < b \<and> b \<le> length row
       \<and> list_all (\<lambda>cell. wc cell = wc (row ! c)) (segment row a b)
       \<and> (a = 0 \<or> wc (row ! (a - 1)) \<noteq> wc (row ! c)) \<and> (b = length row \<or> wc (row ! b) \<noteq> wc (row ! c))"
proof -
  define row where "row = window_row v buffer y"
  define c where "c = min col (length row - 1)"
  define wc where "wc = word_class_of alnum"
  define a where "a = run_start wc row (wc (row ! c)) c"
  define b where "b = run_end_at wc row (wc (row ! c)) (c + 1)"
  have "row \<noteq> []" using assms by (simp add: row_def)
  then have c: "c < length row" by (auto simp: c_def simp flip: length_greater_0_conv)
  have a: "a \<le> c" "\<And>i. a \<le> i \<Longrightarrow> i < c \<Longrightarrow> wc (row ! i) = wc (row ! c)"
    "a > 0 \<Longrightarrow> wc (row ! (a - 1)) \<noteq> wc (row ! c)"
    using run_start_spec [of wc row "wc (row ! c)" c] by (auto simp: a_def)
  have b: "c < b" "b \<le> length row" "\<And>i. c + 1 \<le> i \<Longrightarrow> i < b \<Longrightarrow> wc (row ! i) = wc (row ! c)"
    "b < length row \<Longrightarrow> wc (row ! b) \<noteq> wc (row ! c)"
    using run_end_at_spec [of "c + 1" row wc "wc (row ! c)"] c by (auto simp: b_def)
  have "wc (row ! i) = wc (row ! c)" if i: "a \<le> i" "i < b" for i
  proof -
    consider "i < c" | "i = c" | "c + 1 \<le> i" by linarith
    then show ?thesis
      by cases (use a(2) b(3) i in blast)+
  qed
  then have "list_all (\<lambda>cell. wc cell = wc (row ! c)) (segment row a b)"
    using b(2) by (auto simp: list_all_length segment_def)
  moreover have "select_word alnum v buffer y col s
      = s\<lparr>ts_anchor := Some (absolute_row v y, a), ts_head := Some (absolute_row v y, b)\<rparr>"
    using \<open>row \<noteq> []\<close> by (simp add: select_word_def Let_def a_def b_def c_def wc_def row_def)
  moreover have "a = 0 \<or> wc (row ! (a - 1)) \<noteq> wc (row ! c)" "b = length row \<or> wc (row ! b) \<noteq> wc (row ! c)"
    using a(3) b(2,4) by auto
  ultimately have "ts_anchor (select_word alnum v buffer y col s) = Some (absolute_row v y, a)
      \<and> ts_head (select_word alnum v buffer y col s) = Some (absolute_row v y, b)
      \<and> a \<le> c \<and> c < b \<and> b \<le> length row \<and> list_all (\<lambda>cell. wc cell = wc (row ! c)) (segment row a b)
      \<and> (a = 0 \<or> wc (row ! (a - 1)) \<noteq> wc (row ! c)) \<and> (b = length row \<or> wc (row ! b) \<noteq> wc (row ! c))"
    using a(1) b(1,2) by simp
  then show ?thesis
    unfolding Let_def row_def [symmetric] c_def [symmetric] wc_def [symmetric] by blast
qed

theorem select_word_selects_the_run_witness:
  "let row = window_row viewport_default (buffer_new 3 1) 0; c = min 1 (length row - 1);
       wc = word_class_of (\<lambda>c. False);
       s' = select_word (\<lambda>c. False) viewport_default (buffer_new 3 1) 0 1 sample_selection
    in \<exists>a b. ts_anchor s' = Some (absolute_row viewport_default 0, a) \<and> ts_head s' = Some (absolute_row viewport_default 0, b)
       \<and> a \<le> c \<and> c < b \<and> b \<le> length row
       \<and> list_all (\<lambda>cell. wc cell = wc (row ! c)) (segment row a b)
       \<and> (a = 0 \<or> wc (row ! (a - 1)) \<noteq> wc (row ! c)) \<and> (b = length row \<or> wc (row ! b) \<noteq> wc (row ! c))"
  by (rule select_word_selects_the_run)
    code_simp

end
