(* ===== verification/Term_Repaint.thy ===== *)
theory Term_Repaint
  imports Model
begin

text \<open>
  The repaint pacer (\<^verbatim>\<open>homie-term/src/repaint.rs\<close>) and the pane that drives it
  (\<^verbatim>\<open>homie-app/src/terminal_pane/events.rs\<close>, \<open>request_terminal_repaint\<close>). Damage is painted at once, or by
  one trailing timer. The step relation \<open>pane_step\<close> lets damage, key presses and the pane's timers
  occur in any order as time passes. Shown: unpainted damage always has a timer that will paint it
  within one interval, and paints that no key press asked for are an interval apart.
\<close>

section \<open>The pacer\<close>

datatype repaint_action = RepaintNow | Schedule duration | NoRepaint

record repaint_pacer =
  rp_minimum_interval :: duration
  rp_last_repaint :: "duration option"
  rp_scheduled_for :: "duration option"
  rp_interactive_damage_budget :: nat \<comment> \<open>u8, at most 2\<close>

definition INTERACTIVE_DAMAGE_BUDGET :: nat where "INTERACTIVE_DAMAGE_BUDGET = 2"

definition pacer_new :: "duration \<Rightarrow> repaint_pacer" where
  "pacer_new minimum_interval = \<lparr>rp_minimum_interval = minimum_interval, rp_last_repaint = None,
     rp_scheduled_for = None, rp_interactive_damage_budget = 0\<rparr>"

definition prioritize_interactive_damage :: "repaint_pacer \<Rightarrow> repaint_pacer" where
  "prioritize_interactive_damage p = p\<lparr>rp_interactive_damage_budget := INTERACTIVE_DAMAGE_BUDGET\<rparr>"

definition on_damage :: "duration \<Rightarrow> repaint_pacer \<Rightarrow> repaint_action \<times> repaint_pacer" where
  "on_damage now p =
     (if rp_interactive_damage_budget p > 0 then
        (RepaintNow, p\<lparr>rp_interactive_damage_budget := rp_interactive_damage_budget p - 1,
                       rp_last_repaint := Some now, rp_scheduled_for := None\<rparr>)
      else case rp_last_repaint p of
        None \<Rightarrow> (RepaintNow, p\<lparr>rp_last_repaint := Some now\<rparr>)
      | Some last_repaint \<Rightarrow>
          let next_repaint = duration_add last_repaint (rp_minimum_interval p) in
          if next_repaint \<le> now \<and> rp_scheduled_for p = None then
            (RepaintNow, p\<lparr>rp_last_repaint := Some now\<rparr>)
          else if rp_scheduled_for p \<noteq> None then (NoRepaint, p)
          else (Schedule (next_repaint - now), p\<lparr>rp_scheduled_for := Some next_repaint\<rparr>))"

definition on_timer :: "duration \<Rightarrow> repaint_pacer \<Rightarrow> bool \<times> repaint_pacer" where
  "on_timer now p =
     (case rp_scheduled_for p of
        None \<Rightarrow> (False, p)
      | Some scheduled_for \<Rightarrow>
          if now < scheduled_for then (False, p)
          else (True, p\<lparr>rp_scheduled_for := None, rp_last_repaint := Some now\<rparr>))"

section \<open>The pane\<close>

text \<open>
  The pane with its pacer, the deadlines of the timers it has armed, and, to state the properties,
  the time, since when damage is unpainted, and the paints so far, newest first, each with
  whether a key press asked for it.
\<close>

record pane =
  pn_pacer :: repaint_pacer
  pn_timers :: "duration list"
  pn_clock :: duration
  pn_unpainted_since :: "duration option"
  pn_paints :: "(duration \<times> bool) list"

definition pane_new :: "duration \<Rightarrow> pane" where
  "pane_new interval = \<lparr>pn_pacer = pacer_new interval, pn_timers = [], pn_clock = 0,
     pn_unpainted_since = None, pn_paints = []\<rparr>"

definition notify :: "duration \<Rightarrow> bool \<Rightarrow> pane \<Rightarrow> pane" where
  "notify now asked h = h\<lparr>pn_unpainted_since := None, pn_paints := (now, asked) # pn_paints h\<rparr>"

definition request_terminal_repaint :: "duration \<Rightarrow> pane \<Rightarrow> pane" where
  "request_terminal_repaint now h =
     (let asked = (rp_interactive_damage_budget (pn_pacer h) > 0);
          (act, p) = on_damage now (pn_pacer h);
          since = (case pn_unpainted_since h of Some t \<Rightarrow> Some t | None \<Rightarrow> Some now);
          h = h\<lparr>pn_pacer := p, pn_clock := now, pn_unpainted_since := since\<rparr>
      in case act of
           RepaintNow \<Rightarrow> notify now asked h
         | Schedule delay \<Rightarrow> h\<lparr>pn_timers := (now + delay) # pn_timers h\<rparr>
         | NoRepaint \<Rightarrow> h)"

definition timer_fired :: "duration \<Rightarrow> duration \<Rightarrow> pane \<Rightarrow> pane" where
  "timer_fired deadline now h =
     (let (paint, p) = on_timer now (pn_pacer h);
          h = h\<lparr>pn_pacer := p, pn_clock := now, pn_timers := remove1 deadline (pn_timers h)\<rparr>
      in if paint then notify now False h else h)"

inductive pane_step :: "pane \<Rightarrow> pane \<Rightarrow> bool" where
  damage: "pn_clock h \<le> now \<Longrightarrow> now \<le> duration_max \<Longrightarrow> pane_step h (request_terminal_repaint now h)"
| key: "pane_step h (h\<lparr>pn_pacer := prioritize_interactive_damage (pn_pacer h)\<rparr>)"
| timer: "deadline \<in> set (pn_timers h) \<Longrightarrow> deadline \<le> now \<Longrightarrow> pn_clock h \<le> now \<Longrightarrow> now \<le> duration_max
    \<Longrightarrow> pane_step h (timer_fired deadline now h)"

inductive_cases pane_stepE: "pane_step h h'"

text \<open>
  The invariant: a scheduled repaint is an interval after the last one and has a timer; there is one
  exactly while damage is unpainted, which the pacer then paints in time.
\<close>

definition pane_inv :: "duration \<Rightarrow> pane \<Rightarrow> bool" where
  "pane_inv interval h \<longleftrightarrow>
     rp_minimum_interval (pn_pacer h) = interval \<and> pn_clock h \<le> duration_max \<and>
     rp_last_repaint (pn_pacer h) = (case pn_paints h of [] \<Rightarrow> None | x # _ \<Rightarrow> Some (fst x)) \<and>
     (\<forall>l. rp_last_repaint (pn_pacer h) = Some l \<longrightarrow> l \<le> pn_clock h) \<and>
     (\<forall>s. rp_scheduled_for (pn_pacer h) = Some s \<longrightarrow>
        s \<in> set (pn_timers h) \<and> (\<exists>l. rp_last_repaint (pn_pacer h) = Some l \<and> s = duration_add l interval)) \<and>
     (\<forall>t. pn_unpainted_since h = Some t \<longrightarrow>
        rp_last_repaint (pn_pacer h) \<noteq> None \<and> the (rp_last_repaint (pn_pacer h)) \<le> t \<and> t \<le> pn_clock h \<and>
        rp_scheduled_for (pn_pacer h) \<noteq> None)"

fun spaced :: "duration \<Rightarrow> (duration \<times> bool) list \<Rightarrow> bool" where
  "spaced interval ((t, asked) # (t', asked') # ps) \<longleftrightarrow>
     (asked \<or> duration_add t' interval \<le> t) \<and> spaced interval ((t', asked') # ps)"
| "spaced interval _ \<longleftrightarrow> True"

lemma duration_add_mono: "a \<le> b \<Longrightarrow> duration_add a i \<le> duration_add b i"
  by (simp add: duration_add_def)

lemma notify_simps [simp]:
  "pn_pacer (notify now asked h) = pn_pacer h" "pn_timers (notify now asked h) = pn_timers h"
  "pn_clock (notify now asked h) = pn_clock h" "pn_unpainted_since (notify now asked h) = None"
  "pn_paints (notify now asked h) = (now, asked) # pn_paints h"
  by (simp_all add: notify_def)

lemma request_terminal_repaint_inv:
  assumes "pane_inv interval h" "pn_clock h \<le> now" "now \<le> duration_max"
  shows "pane_inv interval (request_terminal_repaint now h)"
  using assms
  by (auto simp: request_terminal_repaint_def on_damage_def pane_inv_def Let_def
      split: if_splits option.splits list.splits)

lemma timer_fired_inv:
  assumes "pane_inv interval h" "pn_clock h \<le> now" "now \<le> duration_max" "deadline \<le> now"
  shows "pane_inv interval (timer_fired deadline now h)"
  using assms
  by (auto simp: timer_fired_def on_timer_def pane_inv_def Let_def
      split: if_splits option.splits list.splits)

lemma pane_step_inv:
  assumes "pane_step h h'" "pane_inv interval h"
  shows "pane_inv interval h'"
  using assms(1)
proof cases
  case key
  then show ?thesis
    using assms(2) by (auto simp: pane_inv_def prioritize_interactive_damage_def)
qed (use assms(2) request_terminal_repaint_inv timer_fired_inv in auto)

lemma pane_new_inv: "pane_inv interval (pane_new interval)"
  by (simp add: pane_inv_def pane_new_def pacer_new_def)

lemma pane_reachable_inv:
  assumes "pane_step\<^sup>*\<^sup>* (pane_new interval) h"
  shows "pane_inv interval h"
  using assms by (induction rule: rtranclp_induct) (auto intro: pane_new_inv pane_step_inv)

lemma spaced_Cons:
  assumes "asked \<or> ps = [] \<or> duration_add (fst (hd ps)) interval \<le> t" "spaced interval ps"
  shows "spaced interval ((t, asked) # ps)"
  using assms by (cases ps) auto

lemma request_terminal_repaint_spaced:
  assumes "pane_inv interval h" "spaced interval (pn_paints h)"
  shows "spaced interval (pn_paints (request_terminal_repaint now h))"
  using assms
  by (auto simp: request_terminal_repaint_def on_damage_def pane_inv_def Let_def
      split: if_splits option.splits list.splits intro!: spaced_Cons)

lemma timer_fired_spaced:
  assumes "pane_inv interval h" "spaced interval (pn_paints h)"
  shows "spaced interval (pn_paints (timer_fired deadline now h))"
  using assms
  by (auto simp: timer_fired_def on_timer_def pane_inv_def Let_def
      split: if_splits option.splits list.splits intro!: spaced_Cons)

lemma pane_step_spaced:
  assumes "pane_step h h'" "pane_inv interval h" "spaced interval (pn_paints h)"
  shows "spaced interval (pn_paints h')"
  using assms(1)
  by (cases rule: pane_stepE)
    (use assms request_terminal_repaint_spaced timer_fired_spaced in auto)

section \<open>Properties\<close>

text \<open>
  No damage is forgotten. Whatever the order of damage, key presses and timers, while
  damage is unpainted the pane has armed a timer that is due within one interval of the oldest
  unpainted damage, and when that timer fires the pane paints.
\<close>

theorem damage_is_painted_in_time:
  assumes "pane_step\<^sup>*\<^sup>* (pane_new interval) h" and "pn_unpainted_since h = Some t"
  shows "\<exists>s \<in> set (pn_timers h). s \<le> duration_add t interval \<and>
    (\<forall>now. s \<le> now \<longrightarrow> pn_unpainted_since (timer_fired s now h) = None)"
proof -
  have inv: "pane_inv interval h"
    by (rule pane_reachable_inv [OF assms(1)])
  with assms(2) obtain s l where s: "rp_scheduled_for (pn_pacer h) = Some s" "s \<in> set (pn_timers h)"
    "rp_last_repaint (pn_pacer h) = Some l" "s = duration_add l interval" "l \<le> t"
    by (fastforce simp: pane_inv_def)
  then have "s \<le> duration_add t interval"
    by (simp add: duration_add_mono)
  moreover have "pn_unpainted_since (timer_fired s now h) = None" if "s \<le> now" for now
    using s(1) that by (simp add: timer_fired_def on_timer_def)
  ultimately show ?thesis
    using s(2) by blast
qed

definition damaged_twice :: pane where
  "damaged_twice = request_terminal_repaint 2 (request_terminal_repaint 0 (pane_new 16))"

lemma damaged_twice_reachable: "pane_step\<^sup>*\<^sup>* (pane_new 16) damaged_twice"
proof -
  have "pane_step (pane_new 16) (request_terminal_repaint 0 (pane_new 16))"
    by (rule pane_step.damage) (simp_all add: pane_new_def)
  moreover have "pane_step (request_terminal_repaint 0 (pane_new 16)) damaged_twice"
    unfolding damaged_twice_def
    by (rule pane_step.damage)
      (simp_all add: pane_new_def pacer_new_def request_terminal_repaint_def on_damage_def duration_max_def)
  ultimately show ?thesis
    by (metis rtranclp.simps)
qed

lemmas damaged_twice_simps = damaged_twice_def pane_new_def pacer_new_def request_terminal_repaint_def
  on_damage_def duration_add_def duration_max_def timer_fired_def on_timer_def notify_def

theorem damage_is_painted_in_time_witness:
  "pn_unpainted_since damaged_twice = Some 2 \<and> pn_timers damaged_twice = [16] \<and>
   pn_unpainted_since (timer_fired 16 16 damaged_twice) = None"
proof -
  have "pn_unpainted_since damaged_twice = Some 2" "pn_timers damaged_twice = [16]"
    by (simp_all add: damaged_twice_simps)
  then show ?thesis
    using damage_is_painted_in_time [OF damaged_twice_reachable, of 2] by auto
qed

text \<open>
  Painting is capped. Along every order of damage, key presses and timers, a paint that was
  not asked for by a key press comes at least one interval after the paint before it.
\<close>

theorem paints_are_paced:
  assumes "pane_step\<^sup>*\<^sup>* (pane_new interval) h"
  shows "spaced interval (pn_paints h)"
  using assms
proof (induction rule: rtranclp_induct)
  case base
  then show ?case
    by (simp add: pane_new_def)
next
  case (step h h')
  then show ?case
    using pane_reachable_inv pane_step_spaced by blast
qed

theorem paints_are_paced_witness:
  "pn_paints (timer_fired 16 20 damaged_twice) = [(20, False), (0, False)] \<and>
   spaced 16 (pn_paints (timer_fired 16 20 damaged_twice))"
proof -
  have "pane_step damaged_twice (timer_fired 16 20 damaged_twice)"
    by (rule pane_step.timer) (simp_all add: damaged_twice_simps)
  then have "pane_step\<^sup>*\<^sup>* (pane_new 16) (timer_fired 16 20 damaged_twice)"
    using damaged_twice_reachable by simp
  then show ?thesis
    using paints_are_paced by (simp add: damaged_twice_simps)
qed

end
