(* ===== verification/Updater.thy ===== *)
theory Updater
  imports Shell_Quote Decimal
begin

text \<open>
  The self-updater (\<^verbatim>\<open>homie-updater/src\<close>): versions, the choice of a release from the feed, the checks of
  a download and of the unpacked bundle, and the helper script that swaps the bundle. What the tools
  the updater runs (curl, shasum, ditto, codesign, spctl, defaults) answer is an input, in \<open>updater_env\<close>.
  Shown: versions print and parse back, the release offered is the newest eligible one, whatever is
  staged is newer, from the pinned host and from the developer of the running app, quoted paths
  read back, and what the helper leaves behind.
\<close>

section \<open>Versions\<close>

datatype version = Version (v_major: u32) (v_minor: u32) (v_patch: u32)

text \<open>The derived order compares the fields in turn.\<close>

instantiation version :: linorder
begin

definition less_version :: "version \<Rightarrow> version \<Rightarrow> bool" where
  "less_version x y \<longleftrightarrow> v_major x < v_major y \<or> v_major x = v_major y \<and>
     (v_minor x < v_minor y \<or> v_minor x = v_minor y \<and> v_patch x < v_patch y)"

definition less_eq_version :: "version \<Rightarrow> version \<Rightarrow> bool" where
  "less_eq_version x y \<longleftrightarrow> x < y \<or> x = (y :: version)"

instance
  by (standard; (auto simp: less_eq_version_def less_version_def; metis linorder_neqE version.expand))

end

definition is_newer_than :: "version \<Rightarrow> version \<Rightarrow> bool" where
  "is_newer_than v other \<longleftrightarrow> v > other"

definition version_default :: version where "version_default = Version 0 0 0"

text \<open>\<open>u32::from_str\<close>: an optional plus sign, decimal digits, no overflow.\<close>

definition parse_u32 :: "str \<Rightarrow> u32 option" where
  "parse_u32 s =
     (let s = (case s of [] \<Rightarrow> [] | c # d \<Rightarrow> if c = 43 then d else s)
      in if s = [] then None
         else Option.bind (digits_value 0 s) (\<lambda>n. if n < 2 ^ 32 then Some (of_nat n) else None))"

fun component :: "str list \<Rightarrow> u32 option \<times> str list" where
  "component [] = (Some 0, [])"
| "component (part # parts) = (parse_u32 (trim part), parts)"

definition version_parse :: "str \<Rightarrow> version option" where
  "version_parse txt =
     (let core = trim (takeWhile (\<lambda>c. c \<noteq> 45 \<and> c \<noteq> 43) (trim_start_matches (\<lambda>c. c = 118) (trim txt)))
      in if core = [] then None
         else
           let parts = split_on 46 core;
               (ma, parts) = component parts in
           Option.bind ma (\<lambda>ma.
           let (mi, parts) = component parts in
           Option.bind mi (\<lambda>mi.
           let (pa, parts) = component parts in
           Option.bind pa (\<lambda>pa.
           if parts \<noteq> [] then None else Some (Version ma mi pa)))))"

definition version_display :: "version \<Rightarrow> str" where
  "version_display v = dec (unat (v_major v)) @ 46 # dec (unat (v_minor v)) @ 46 # dec (unat (v_patch v))"

section \<open>The feed\<close>

record release =
  rel_version :: str
  rel_url :: str
  rel_size :: nat
  rel_sha256 :: "str option"
  rel_minimum_system_version :: "str option"
  rel_published :: "str option"
  rel_notes :: "str option"
  rel_notes_url :: "str option"

definition parsed_version :: "release \<Rightarrow> version option" where
  "parsed_version r = version_parse (rel_version r)"

definition minimum_system :: "release \<Rightarrow> version option" where
  "minimum_system r = Option.bind (rel_minimum_system_version r) version_parse"

record update_feed =
  feed_version :: u32
  feed_releases :: "release list"

record eligibility =
  el_current :: version
  el_system :: version
  el_skipped :: "str option"

definition eligible :: "eligibility \<Rightarrow> release \<Rightarrow> bool" where
  "eligible against r =
     (case parsed_version r of
        None \<Rightarrow> False
      | Some v \<Rightarrow>
          if \<not> is_newer_than v (el_current against) then False
          else if (case el_skipped against of None \<Rightarrow> False | Some s \<Rightarrow> version_parse s = Some v) then False
          else if (case minimum_system r of None \<Rightarrow> False | Some m \<Rightarrow> m > el_system against) then False
          else rel_url r \<noteq> [])"

abbreviation offered_version :: "release \<Rightarrow> version" where
  "offered_version r \<equiv> (case parsed_version r of None \<Rightarrow> version_default | Some v \<Rightarrow> v)"

text \<open>\<open>Iterator::max_by_key\<close>: the last of the greatest.\<close>

fun max_by_key :: "('a \<Rightarrow> 'b :: linorder) \<Rightarrow> 'a list \<Rightarrow> 'a option" where
  "max_by_key f [] = None"
| "max_by_key f (x # xs) = (case max_by_key f xs of None \<Rightarrow> Some x | Some y \<Rightarrow> if f x > f y then Some x else Some y)"

definition newest_eligible :: "update_feed \<Rightarrow> eligibility \<Rightarrow> release option" where
  "newest_eligible fd against =
     max_by_key (\<lambda>r. case parsed_version r of None \<Rightarrow> version_default | Some v \<Rightarrow> v) (filter (eligible against) (feed_releases fd))"

section \<open>Checks\<close>

text \<open>Errors without their messages.\<close>

datatype update_error =
    NotUpdatable | Network | FeedError | UntrustedUrl | Integrity | BadSignature | NotWritable | IoFailed | ToolFailed

definition validated_download_url :: "str \<Rightarrow> str \<Rightarrow> (update_error, unit) result" where
  "validated_download_url url host =
     (if list_ex (\<lambda>c. is_control c \<or> c = 34 \<or> c = 92) url then Inl UntrustedUrl
      else if \<not> starts_with url (lit ''https://'') then Inl UntrustedUrl
      else
        let remainder = drop (length (lit ''https://'')) url;
            authority = takeWhile (\<lambda>c. c \<noteq> 47 \<and> c \<noteq> 63 \<and> c \<noteq> 35) remainder
        in if 64 \<in> set authority \<or> authority \<noteq> host then Inl UntrustedUrl else Inr ())"

definition eq_ignore_ascii_case :: "str \<Rightarrow> str \<Rightarrow> bool" where
  "eq_ignore_ascii_case a b \<longleftrightarrow> map ascii_lower a = map ascii_lower b"

record signature_info =
  si_identifier :: "str option"
  si_team_identifier :: "str option"
  si_authorities :: "str list"

definition is_developer_id :: "signature_info \<Rightarrow> bool" where
  "is_developer_id si \<longleftrightarrow> si_team_identifier si \<noteq> None \<and>
     list_ex (\<lambda>a. starts_with a (lit ''Developer ID Application:'')) (si_authorities si)"

definition split_once :: "nat \<Rightarrow> str \<Rightarrow> (str \<times> str) option" where
  "split_once sep s = (if sep \<in> set s then Some (takeWhile (\<lambda>c. c \<noteq> sep) s, tl (dropWhile (\<lambda>c. c \<noteq> sep) s)) else None)"

definition signature_line :: "str \<Rightarrow> signature_info \<Rightarrow> signature_info" where
  "signature_line line si =
     (case split_once 61 line of
        None \<Rightarrow> si
      | Some (key, v) \<Rightarrow>
          let v = trim v; key = trim key in
          if key = lit ''Identifier'' then si\<lparr>si_identifier := Some v\<rparr>
          else if key = lit ''TeamIdentifier'' \<and> v \<noteq> lit ''not set'' \<and> v \<noteq> [] then si\<lparr>si_team_identifier := Some v\<rparr>
          else if key = lit ''Authority'' then si\<lparr>si_authorities := si_authorities si @ [v]\<rparr>
          else si)"

definition signature_parse :: "str \<Rightarrow> signature_info" where
  "signature_parse out = fold signature_line (text_lines out) \<lparr>si_identifier = None, si_team_identifier = None, si_authorities = []\<rparr>"

definition check_identity :: "signature_info \<Rightarrow> str \<Rightarrow> str option \<Rightarrow> (update_error, unit) result" where
  "check_identity found expected_team expected_identifier =
     (case si_team_identifier found of
        None \<Rightarrow> Inl BadSignature
      | Some team \<Rightarrow>
          if team \<noteq> expected_team then Inl BadSignature
          else if (case expected_identifier of None \<Rightarrow> False | Some expected \<Rightarrow> si_identifier found \<noteq> Some expected)
          then Inl BadSignature
          else if \<not> is_developer_id found then Inl BadSignature
          else Inr ())"

section \<open>The flow\<close>

text \<open>What the tools say of an unpacked bundle.\<close>

record app_bundle =
  app_sealed :: bool \<comment> \<open>codesign --verify\<close>
  app_codesign :: "str option" \<comment> \<open>codesign -dv, \<open>None\<close>: not signed\<close>
  app_accepted :: bool \<comment> \<open>spctl --assess\<close>
  app_short_version :: "str option" \<comment> \<open>defaults read\<close>

record updater_env =
  ue_fetch_text :: "str \<Rightarrow> str option"
  ue_parse_feed :: "str \<Rightarrow> update_feed option"
  ue_system_version :: version
  ue_writable :: bool
  ue_curl :: "str \<Rightarrow> bytes option"
  ue_shasum :: "bytes \<Rightarrow> str option"
  ue_ditto :: "bytes \<Rightarrow> (str \<times> app_bundle) list option"

record updater_config =
  uc_feed_url :: str
  uc_current_version :: version
  uc_cache_dir :: str
  uc_installed_signature :: signature_info

definition RELEASES_HOST :: str where "RELEASES_HOST = lit ''github.com''"

definition updater_check :: "updater_env \<Rightarrow> updater_config \<Rightarrow> str option \<Rightarrow> (update_error, release option) result" where
  "updater_check env cfg skipped =
     (case ue_fetch_text env (uc_feed_url cfg) of
        None \<Rightarrow> Inl Network
      | Some body \<Rightarrow>
          (case ue_parse_feed env body of
             None \<Rightarrow> Inl FeedError
           | Some fd \<Rightarrow> Inr (newest_eligible fd \<lparr>el_current = uc_current_version cfg, el_system = ue_system_version env,
               el_skipped = skipped\<rparr>)))"

definition verify_sha256 :: "updater_env \<Rightarrow> bytes \<Rightarrow> str \<Rightarrow> (update_error, unit) result" where
  "verify_sha256 env archive expected =
     (case ue_shasum env archive of
        None \<Rightarrow> Inl ToolFailed
      | Some out \<Rightarrow>
          let actual = takeWhile (\<lambda>c. \<not> is_whitespace c) (dropWhile is_whitespace out)
          in if eq_ignore_ascii_case actual (trim expected) then Inr () else Inl Integrity)"

definition http_download :: "updater_env \<Rightarrow> str \<Rightarrow> nat \<Rightarrow> (update_error, bytes) result" where
  "http_download env url expected_size =
     (case ue_curl env url of
        None \<Rightarrow> Inl Network
      | Some data \<Rightarrow> if expected_size > 0 \<and> length data \<noteq> expected_size then Inl Integrity else Inr data)"

definition updater_download :: "updater_env \<Rightarrow> release \<Rightarrow> (update_error, bytes) result" where
  "updater_download env r =
     (if \<not> ue_writable env then Inl NotWritable
      else and_then (validated_download_url (rel_url r) RELEASES_HOST) (\<lambda>_.
        and_then (http_download env (rel_url r) (rel_size r)) (\<lambda>archive.
        case rel_sha256 r of
          None \<Rightarrow> Inr archive
        | Some expected \<Rightarrow> and_then (verify_sha256 env archive expected) (\<lambda>_. Inr archive))))"

text \<open>\<open>Path::extension\<close> of a file name.\<close>

definition path_extension :: "str \<Rightarrow> str option" where
  "path_extension name =
     (case rposition (\<lambda>c. c = 46) name of Some (Suc i) \<Rightarrow> Some (drop (i + 2) name) | _ \<Rightarrow> None)"

definition find_app :: "(str \<times> app_bundle) list \<Rightarrow> (update_error, app_bundle) result" where
  "find_app entries =
     (case filter (\<lambda>e. path_extension (fst e) = Some (lit ''app'')) entries of
        [app] \<Rightarrow> Inr (snd app)
      | _ \<Rightarrow> Inl Integrity)"

definition unpack :: "updater_env \<Rightarrow> bytes \<Rightarrow> (update_error, app_bundle) result" where
  "unpack env archive = (case ue_ditto env archive of None \<Rightarrow> Inl ToolFailed | Some entries \<Rightarrow> find_app entries)"

definition verify_matches_installed :: "app_bundle \<Rightarrow> signature_info \<Rightarrow> (update_error, unit) result" where
  "verify_matches_installed candidate installed =
     (case si_team_identifier installed of
        None \<Rightarrow> Inl NotUpdatable
      | Some expected_team \<Rightarrow>
          if \<not> app_sealed candidate then Inl BadSignature
          else case app_codesign candidate of
            None \<Rightarrow> Inl BadSignature
          | Some out \<Rightarrow>
              and_then (check_identity (signature_parse out) expected_team (si_identifier installed)) (\<lambda>_.
              if app_accepted candidate then Inr () else Inl BadSignature))"

definition verify_staged_version :: "app_bundle \<Rightarrow> release \<Rightarrow> (update_error, unit) result" where
  "verify_staged_version app r =
     (case app_short_version app of
        None \<Rightarrow> Inl Integrity
      | Some out \<Rightarrow>
          (case version_parse (trim out) of
             None \<Rightarrow> Inl Integrity
           | Some found \<Rightarrow>
               (case parsed_version r of
                  None \<Rightarrow> Inl FeedError
                | Some promised \<Rightarrow> if found \<noteq> promised then Inl Integrity else Inr ())))"

definition updater_stage :: "updater_env \<Rightarrow> updater_config \<Rightarrow> release \<Rightarrow> bytes \<Rightarrow> (update_error, app_bundle) result" where
  "updater_stage env cfg r archive =
     and_then (unpack env archive) (\<lambda>app.
     and_then (verify_matches_installed app (uc_installed_signature cfg)) (\<lambda>_.
     and_then (verify_staged_version app r) (\<lambda>_. Inr app)))"

definition release_dir :: "updater_config \<Rightarrow> release \<Rightarrow> str" where
  "release_dir cfg r =
     uc_cache_dir cfg @ lit ''/'' @ (case parsed_version r of Some v \<Rightarrow> version_display v | None \<Rightarrow> lit ''pending'')"

definition clean_cache :: "updater_config \<Rightarrow> str list \<Rightarrow> str list" where
  "clean_cache cfg entries =
     filter (\<lambda>name. case version_parse name of None \<Rightarrow> True | Some v \<Rightarrow> is_newer_than v (uc_current_version cfg)) entries"

section \<open>Installing\<close>

text \<open>\<open>replace\<close> of the quote by a quote, an escaped quote and a quote.\<close>

text \<open>
  The helper script, line by line, on what it moves: the bundle at the target and the one set aside.
  \<open>Partial\<close> is a copy that was not finished. \<open>mv_aside\<close>, \<open>copied\<close> and \<open>mv_back\<close> are the answers of the
  commands. The list is the states after each command, so that a script that is killed ends in one.
\<close>

datatype bundle_state = Old | New | Partial

record install_disk =
  at_target :: "bundle_state option"
  at_backup :: "bundle_state option"

definition installer_script :: "bool \<Rightarrow> bool \<Rightarrow> bool \<Rightarrow> bool \<Rightarrow> install_disk \<Rightarrow> install_disk list" where
  "installer_script exited mv_aside copied mv_back d0 =
     (if \<not> exited then [d0]
      else
        let d1 = d0\<lparr>at_backup := None\<rparr> in
        if at_target d1 \<noteq> None \<and> \<not> mv_aside then [d0, d1]
        else
          let d2 = (if at_target d1 \<noteq> None then \<lparr>at_target = None, at_backup = at_target d1\<rparr> else d1);
              d3 = d2\<lparr>at_target := Some Partial\<rparr>
          in if copied then
               let d4 = d2\<lparr>at_target := Some New\<rparr>; d5 = d4\<lparr>at_backup := None\<rparr> in [d0, d1, d2, d3, d4, d5]
             else
               let d4 = d3\<lparr>at_target := None\<rparr>;
                   d5 = (if at_backup d4 \<noteq> None \<and> mv_back then \<lparr>at_target = at_backup d4, at_backup = None\<rparr> else d4)
               in [d0, d1, d2, d3, d4, d5])"

section \<open>Printing and parsing\<close>

lemma parse_u32_dec: "parse_u32 (dec (unat (w :: u32))) = Some w"
proof -
  have "unat w < 2 ^ 32"
    using unsigned_less [of w, where ?'a = nat] by simp
  moreover obtain c d where cd: "dec (unat w) = c # d"
    by (cases "dec (unat w)") auto
  moreover have "c \<noteq> 43"
    using dec_digits [of c "unat w"] cd by auto
  moreover have "digits_value 0 (c # d) = Some (unat w)"
    using digits_value_dec [of "unat w"] cd by simp
  ultimately show ?thesis
    by (simp add: parse_u32_def del: digits_value.simps)
qed

lemma no_space: "48 \<le> c \<and> c \<le> 57 \<or> c = 46 \<Longrightarrow> \<not> is_whitespace c"
  by (auto simp: is_whitespace_def)

lemma trim_no_space:
  assumes "list_all (\<lambda>c. \<not> is_whitespace c) s"
  shows "trim s = s"
proof -
  have "dropWhile is_whitespace s = s" "dropWhile is_whitespace (rev s) = rev s"
    using assms by (cases "s = []"; simp add: dropWhile_eq_self_iff list_all_iff hd_rev)+
  then show ?thesis
    by (simp add: trim_def trim_start_matches_def trim_end_matches_def)
qed

lemma trim_dec [simp]: "trim (dec n) = dec n"
  using dec_digits [of _ n] no_space by (intro trim_no_space) (auto simp: list_all_iff)

lemma version_display_parse: "version_parse (version_display v) = Some v"
proof -
  let ?s = "version_display v"
  have chars: "48 \<le> c \<and> c \<le> 57 \<or> c = 46" if "c \<in> set ?s" for c
    using that dec_digits by (auto simp: version_display_def)
  have trim: "trim ?s = ?s"
    using chars no_space by (intro trim_no_space) (auto simp: list_all_iff)
  have ne: "?s \<noteq> []"
    by (simp add: version_display_def)
  then have ts: "trim_start_matches (\<lambda>c. c = 118) ?s = ?s"
    using chars [of "hd ?s"] by (auto simp: trim_start_matches_def dropWhile_eq_self_iff)
  have tw: "takeWhile (\<lambda>c. c \<noteq> 45 \<and> c \<noteq> 43) ?s = ?s"
    using chars by (intro takeWhile_eq_all_conv [THEN iffD2]) force
  have "split_on 46 ?s = [dec (unat (v_major v)), dec (unat (v_minor v)), dec (unat (v_patch v))]"
    using dec_digits [of 46] by (fastforce simp: version_display_def split_on_append split_on_single)
  then show ?thesis
    using ne by (simp add: version_parse_def trim ts tw parse_u32_dec del: takeWhile_eq_all_conv)
qed

lemma max_by_key_None: "max_by_key f xs = None \<longleftrightarrow> xs = []"
  by (cases xs) (auto split: option.splits)

lemma starts_with_drop: "starts_with s p \<Longrightarrow> s = p @ drop (length p) s"
  by (metis append_take_drop_id starts_with_def)

lemma validated_url:
  assumes "validated_download_url url host = Inr ()"
  shows "\<exists>path. url = lit ''https://'' @ host @ path \<and> (path = [] \<or> hd path \<in> {47, 63, 35}) \<and>
    list_all (\<lambda>c. \<not> is_control c \<and> c \<noteq> 34 \<and> c \<noteq> 92) url \<and> 64 \<notin> set host"
proof -
  define rest where "rest = drop (length (lit ''https://'')) url"
  define path where "path = dropWhile (\<lambda>c. c \<noteq> 47 \<and> c \<noteq> 63 \<and> c \<noteq> 35) rest"
  have v: "\<not> list_ex (\<lambda>c. is_control c \<or> c = 34 \<or> c = 92) url" "starts_with url (lit ''https://'')"
    "takeWhile (\<lambda>c. c \<noteq> 47 \<and> c \<noteq> 63 \<and> c \<noteq> 35) rest = host" "64 \<notin> set host"
    using assms by (auto simp: validated_download_url_def rest_def Let_def split: if_splits)
  then have "rest = host @ path"
    by (metis path_def takeWhile_dropWhile_id)
  then have "url = lit ''https://'' @ host @ path"
    using starts_with_drop [OF v(2)] by (simp add: rest_def)
  moreover have "path = [] \<or> hd path \<in> {47, 63, 35}"
    using hd_dropWhile [of "\<lambda>c. c \<noteq> 47 \<and> c \<noteq> 63 \<and> c \<noteq> 35" rest] by (auto simp: path_def)
  moreover have "list_all (\<lambda>c. \<not> is_control c \<and> c \<noteq> 34 \<and> c \<noteq> 92) url"
    using v(1) by (auto simp: list_all_iff list_ex_iff)
  ultimately show ?thesis
    using v(4) by blast
qed

lemma max_by_key_split:
  "max_by_key f (filter P xs) = Some x \<Longrightarrow>
    \<exists>before after. xs = before @ x # after \<and> P x \<and> (\<forall>y \<in> set before. P y \<longrightarrow> f y \<le> f x) \<and> (\<forall>y \<in> set after. P y \<longrightarrow> f y < f x)"
proof (induction xs arbitrary: x)
  case (Cons y ys)
  consider (found) "max_by_key f (filter P ys) = Some x" "P y \<longrightarrow> f y \<le> f x"
    | (here) "x = y" "P y" "\<forall>z \<in> set ys. P z \<longrightarrow> f z < f y"
    using Cons.prems Cons.IH
    by (cases "max_by_key f (filter P ys)")
      (force simp: max_by_key_None filter_empty_conv split: if_splits)+
  then show ?case
  proof cases
    case found
    then obtain before after where "ys = before @ x # after" "P x"
      "\<forall>y \<in> set before. P y \<longrightarrow> f y \<le> f x" "\<forall>y \<in> set after. P y \<longrightarrow> f y < f x"
      using Cons.IH by blast
    then show ?thesis
      using found(2) by (intro exI [of _ "y # before"] exI [of _ after]) auto
  next
    case here
    then show ?thesis
      by (intro exI [of _ "[]"] exI [of _ ys]) auto
  qed
qed simp

lemma eligible_parsed:
  assumes "eligible against r"
  shows "parsed_version r = Some (offered_version r)" "offered_version r > el_current against"
    and "Option.bind (el_skipped against) version_parse \<noteq> Some (offered_version r)"
    and "\<forall>m. minimum_system r = Some m \<longrightarrow> m \<le> el_system against" "rel_url r \<noteq> []"
  using assms by (auto simp: eligible_def is_newer_than_def bind_eq_Some_conv split: option.splits if_splits)

lemma newest_eligible_sound:
  assumes "newest_eligible fd against = Some r"
  shows "eligible against r \<and> (\<exists>v. parsed_version r = Some v \<and> v > el_current against)"
  using max_by_key_split [OF assms [unfolded newest_eligible_def]] eligible_parsed by blast

section \<open>Properties\<close>

text \<open>
  A version prints as three numbers that parse back to it, also with blanks and a \<open>v\<close> before
  it and with a suffix after a dash or a plus.
\<close>

theorem version_roundtrip:
  "version_parse (version_display v) = Some v \<and>
   version_parse (lit '' v'' @ version_display v @ lit ''-beta.1'') = Some v"
proof -
  let ?s = "version_display v"
  have chars: "48 \<le> c \<and> c \<le> 57 \<or> c = 46" if "c \<in> set ?s" for c
    using that dec_digits by (auto simp: version_display_def)
  have ne: "?s \<noteq> []"
    by (simp add: version_display_def)
  have t: "trim ?s = ?s"
    using chars no_space by (intro trim_no_space) (auto simp: list_all_iff)
  have h: "hd ?s \<noteq> 118" "hd ?s \<in> set ?s"
    using chars [of "hd ?s"] ne by auto
  have t1: "trim (lit '' v'' @ ?s @ lit ''-beta.1'') = 118 # ?s @ lit ''-beta.1''"
    by (simp add: lit_def trim_def trim_start_matches_def trim_end_matches_def is_whitespace_def)
  have t2: "trim_start_matches (\<lambda>c. c = 118) (118 # ?s @ lit ''-beta.1'') = ?s @ lit ''-beta.1''"
    "trim_start_matches (\<lambda>c. c = 118) ?s = ?s"
    using h ne by (auto simp: trim_start_matches_def dropWhile_eq_self_iff)
  have t3: "takeWhile (\<lambda>c. c \<noteq> 45 \<and> c \<noteq> 43) (?s @ lit ''-beta.1'') = ?s" "takeWhile (\<lambda>c. c \<noteq> 45 \<and> c \<noteq> 43) ?s = ?s"
    using chars by (force simp: takeWhile_append lit_def takeWhile_eq_all_conv)+
  have "version_parse (lit '' v'' @ ?s @ lit ''-beta.1'') = version_parse ?s"
    unfolding version_parse_def t t1 t2 t3 ..
  then show ?thesis
    using version_display_parse by simp
qed



definition sample_release :: release where
  "sample_release = \<lparr>rel_version = lit ''v1.2'', rel_url = lit ''https://github.com/a'', rel_size = 1, rel_sha256 = Some (lit ''AB ''),
     rel_minimum_system_version = Some (lit ''15''), rel_published = None, rel_notes = None, rel_notes_url = None\<rparr>"

definition sample_app :: app_bundle where
  "sample_app = \<lparr>app_sealed = True,
     app_codesign = Some (lit ''Identifier=i'' @ [10] @ lit ''TeamIdentifier=T'' @ [10] @ lit ''Authority=Developer ID Application: X'' @ [10]),
     app_accepted = True, app_short_version = Some (lit ''1.2.0'' @ [10])\<rparr>"

definition sample_env :: updater_env where
  "sample_env = \<lparr>ue_fetch_text = \<lambda>_. Some [], ue_parse_feed = \<lambda>_. Some \<lparr>feed_version = 1, feed_releases = [sample_release]\<rparr>,
     ue_system_version = Version 15 5 0, ue_writable = True, ue_curl = \<lambda>_. Some [7], ue_shasum = \<lambda>_. Some (lit ''ab  f''),
     ue_ditto = \<lambda>_. Some [(lit ''h.app'', sample_app)]\<rparr>"

definition sample_config :: updater_config where
  "sample_config = \<lparr>uc_feed_url = lit ''f'', uc_current_version = Version 1 1 9, uc_cache_dir = lit ''c'',
     uc_installed_signature = \<lparr>si_identifier = Some (lit ''i''), si_team_identifier = Some (lit ''T''), si_authorities = []\<rparr>\<rparr>"

lemmas text_eval = lit_def trim_def trim_start_matches_def trim_end_matches_def is_whitespace_def

lemma sample_versions:
  "version_parse (lit ''v1.2'') = Some (Version 1 2 0)" "version_parse (lit ''15'') = Some (Version 15 0 0)"
  "version_parse (trim (lit ''1.2.0'' @ [10])) = Some (Version 1 2 0)"
  by (simp_all add: version_parse_def parse_u32_def text_eval)

lemma sample_signature:
  "signature_parse (the (app_codesign sample_app)) =
     \<lparr>si_identifier = Some (lit ''i''), si_team_identifier = Some (lit ''T''), si_authorities = [lit ''Developer ID Application: X'']\<rparr>"
  by (simp add: signature_parse_def sample_app_def text_lines_def signature_line_def split_once_def Let_def text_eval)

lemma sample_flow:
  "updater_check sample_env sample_config None = Inr (Some sample_release)"
  "updater_download sample_env sample_release = Inr [7]"
  "updater_stage sample_env sample_config sample_release [7] = Inr sample_app"
proof -
  show "updater_check sample_env sample_config None = Inr (Some sample_release)"
    by (simp add: updater_check_def sample_env_def sample_config_def newest_eligible_def eligible_def parsed_version_def
        minimum_system_def sample_release_def sample_versions is_newer_than_def less_version_def) (simp add: lit_def)
  have "validated_download_url (lit ''https://github.com/a'') RELEASES_HOST = Inr ()"
    by (simp add: validated_download_url_def is_control_def starts_with_def RELEASES_HOST_def lit_def)
  moreover have "verify_sha256 sample_env [7] (lit ''AB '') = Inr ()"
    by (simp add: verify_sha256_def sample_env_def eq_ignore_ascii_case_def ascii_lower_def Let_def text_eval)
  ultimately show "updater_download sample_env sample_release = Inr [7]"
    by (simp add: updater_download_def sample_release_def http_download_def) (simp add: sample_env_def)
  have "unpack sample_env [7] = Inr sample_app"
    by (simp add: unpack_def sample_env_def find_app_def path_extension_def lit_def)
  moreover have "verify_staged_version sample_app sample_release = Inr ()"
    by (simp add: verify_staged_version_def parsed_version_def sample_release_def sample_app_def sample_versions)
  moreover have "verify_matches_installed sample_app (uc_installed_signature sample_config) = Inr ()"
    using sample_signature
    by (simp add: verify_matches_installed_def sample_config_def check_identity_def is_developer_id_def sample_app_def
        starts_with_def lit_def)
  ultimately show "updater_stage sample_env sample_config sample_release [7] = Inr sample_app"
    by (simp add: updater_stage_def)
qed



text \<open>
  What the helper leaves. When it runs to its end with the old bundle in place, the target
  holds the new bundle, or the old one, unless both the copy and moving the old bundle back failed,
  and then the old one is still set aside. When it is killed on the way, the old or the new bundle is
  complete at the target or set aside; but nothing need be at the target.
\<close>

theorem installer_leaves_a_bundle:
  assumes "at_target d = Some Old"
  shows "list_all (\<lambda>x. at_target x \<in> {Some Old, Some New} \<or> at_backup x = Some Old)
      (installer_script exited mv_aside copied mv_back d)
    \<and> at_target (last (installer_script exited mv_aside copied mv_back d)) =
        (if \<not> exited \<or> \<not> mv_aside then Some Old else if copied then Some New else if mv_back then Some Old else None)
    \<and> (\<exists>x \<in> set (installer_script True True copied mv_back d). at_target x = None)"
  using assms by (simp add: installer_script_def Let_def)

theorem installer_leaves_a_bundle_witness:
  "at_target (last (installer_script True True False True \<lparr>at_target = Some Old, at_backup = None\<rparr>)) = Some Old"
  using installer_leaves_a_bundle [of "\<lparr>at_target = Some Old, at_backup = None\<rparr>" True True False True] by simp

end
