(* ===== verification/Gateway.thy ===== *)
theory Gateway
  imports Events Hex
begin

text \<open>
  The model gateway (\<^verbatim>\<open>homie-gateway/src\<close>): virtual keys, authentication, the rate limit and the daily
  quota, forwarding to the provider and recording usage. The tables of the database are lists; whether
  each statement succeeds is an input, in \<open>gateway_io\<close>, as are the clock, the hash and random bytes, and
  what the provider answers. \<open>gw_forwarded\<close> records what was sent to the provider, which the code
  does not keep. Shown: the comparison of secrets is equality, the rate limit lets through exactly the
  first requests of each minute, keys are accepted from their creation to their deletion, and
  nothing reaches the provider without passing the checks.
\<close>

unbundle bit_operations_syntax

section \<open>Keys\<close>

datatype caller = VirtualKey str | Master

record api_key =
  ak_id :: str
  ak_label :: "str option"
  ak_key_hash :: str
  ak_created_at :: int
  ak_last_used_at :: "int option"

definition byte_at :: "bytes \<Rightarrow> nat \<Rightarrow> byte" where
  "byte_at bs i = (if i < length bs then bs ! i else 0)"

fun constant_time_loop :: "bytes \<Rightarrow> bytes \<Rightarrow> nat \<Rightarrow> nat \<Rightarrow> usize \<Rightarrow> usize" where
  "constant_time_loop l r i 0 diff = diff"
| "constant_time_loop l r i (Suc n) diff =
     constant_time_loop l r (i + 1) n (diff OR unat (byte_at l i XOR byte_at r i))"

definition constant_time_eq :: "bytes \<Rightarrow> bytes \<Rightarrow> bool" where
  "constant_time_eq l r \<longleftrightarrow> constant_time_loop l r 0 (max (length l) (length r)) (length l XOR length r) = 0"

record usage_row =
  us_key_id :: str
  us_model :: str
  us_occurred_at :: int
  us_input_tokens :: int
  us_output_tokens :: int

record gateway =
  gw_api_keys :: "api_key list"
  gw_usage :: "usage_row list"
  gw_audit :: "(str \<times> str \<times> int) list"
  gw_windows :: "str \<rightharpoonup> int \<times> u32"
  gw_forwarded :: "(str \<times> str \<times> bytes) list" \<comment> \<open>address, credential and body\<close>

text \<open>\<open>create\<close> with the random bytes it draws; the table refuses a second key with the same id or hash.\<close>

definition key_create :: "(bytes \<Rightarrow> bytes) \<Rightarrow> str option \<Rightarrow> bytes \<Rightarrow> bytes \<Rightarrow> bytes \<Rightarrow> int \<Rightarrow> gateway \<Rightarrow> (str \<times> str) option \<times> gateway" where
  "key_create sha label r1 r2 r3 now g =
     (let kid = hex_encode r1;
          key = lit ''sk-'' @ hex_encode r2 @ hex_encode r3;
          hash = hex_encode (sha (utf8 key))
      in if list_ex (\<lambda>k. ak_id k = kid \<or> ak_key_hash k = hash) (gw_api_keys g) then (None, g)
         else (Some (kid, key), g\<lparr>gw_api_keys := gw_api_keys g @
           [\<lparr>ak_id = kid, ak_label = label, ak_key_hash = hash, ak_created_at = now, ak_last_used_at = None\<rparr>]\<rparr>))"

definition key_delete :: "str \<Rightarrow> gateway \<Rightarrow> bool \<times> gateway" where
  "key_delete kid g =
     (let rest = filter (\<lambda>k. ak_id k \<noteq> kid) (gw_api_keys g)
      in (length rest < length (gw_api_keys g), g\<lparr>gw_api_keys := rest\<rparr>))"

definition key_list :: "gateway \<Rightarrow> (str \<times> str option \<times> int \<times> int option) list" where
  "key_list g = map (\<lambda>k. (ak_id k, ak_label k, ak_created_at k, ak_last_used_at k)) (sort_key ak_created_at (gw_api_keys g))"

text \<open>Which statements of a request succeed.\<close>

record gateway_io =
  io_lookup :: bool
  io_touch :: bool
  io_sum :: bool
  io_audit :: bool
  io_record :: bool

definition key_accept :: "(bytes \<Rightarrow> bytes) \<Rightarrow> gateway_io \<Rightarrow> str \<Rightarrow> int \<Rightarrow> gateway \<Rightarrow> str option \<times> gateway" where
  "key_accept sha io key now g =
     (let hash = hex_encode (sha (utf8 key)) in
      case (if io_lookup io then find (\<lambda>k. ak_key_hash k = hash) (gw_api_keys g) else None) of
        None \<Rightarrow> (None, g)
      | Some k \<Rightarrow>
          (Some (ak_id k),
           if io_touch io
           then g\<lparr>gw_api_keys := map (\<lambda>x. if ak_id x = ak_id k then x\<lparr>ak_last_used_at := Some now\<rparr> else x) (gw_api_keys g)\<rparr>
           else g))"

text \<open>The two headers, when they are text.\<close>

record gateway_request =
  rq_authorization :: "str option"
  rq_x_api_key :: "str option"
  rq_body :: bytes

definition extract_key :: "gateway_request \<Rightarrow> str option" where
  "extract_key rq =
     (case rq_authorization rq of
        Some v \<Rightarrow> if starts_with v (lit ''Bearer '') then Some (drop (length (lit ''Bearer '')) v) else rq_x_api_key rq
      | None \<Rightarrow> rq_x_api_key rq)"

definition resolve_caller :: "(bytes \<Rightarrow> bytes) \<Rightarrow> gateway_io \<Rightarrow> str option \<Rightarrow> gateway_request \<Rightarrow> int \<Rightarrow> gateway
    \<Rightarrow> caller option \<times> gateway" where
  "resolve_caller sha io master_key rq now g =
     (case extract_key rq of
        None \<Rightarrow> (None, g)
      | Some key \<Rightarrow>
          if (case master_key of None \<Rightarrow> False | Some master \<Rightarrow> constant_time_eq (utf8 master) (utf8 key))
          then (Some Master, g)
          else case key_accept sha io key now g of (kid, g) \<Rightarrow> (map_option VirtualKey kid, g))"

section \<open>Policy\<close>

definition rate_allow :: "str \<Rightarrow> u32 \<Rightarrow> int \<Rightarrow> (str \<rightharpoonup> int \<times> u32) \<Rightarrow> bool \<times> (str \<rightharpoonup> int \<times> u32)" where
  "rate_allow key requests_per_minute now windows =
     (if requests_per_minute = 0 then (True, windows)
      else
        let window = now div 60 in
        case windows key of
          Some (start, count) \<Rightarrow>
            if start = window then
              if count \<ge> requests_per_minute then (False, windows)
              else (True, windows(key \<mapsto> (start, count + 1)))
            else (True, windows(key \<mapsto> (window, 1)))
        | None \<Rightarrow> (True, windows(key \<mapsto> (window, 1))))"

definition i64 :: "int \<Rightarrow> bool" where
  "i64 n \<longleftrightarrow> - (2 ^ 63) \<le> n \<and> n < 2 ^ 63"

text \<open>A sum that does not fit is an error of the database.\<close>

definition sum_tokens_since :: "gateway_io \<Rightarrow> str \<Rightarrow> int \<Rightarrow> gateway \<Rightarrow> int option" where
  "sum_tokens_since io kid since g =
     (let s = sum_list (map (\<lambda>u. us_input_tokens u + us_output_tokens u)
          (filter (\<lambda>u. us_key_id u = kid \<and> us_occurred_at u \<ge> since) (gw_usage g)))
      in if io_sum io \<and> i64 s then Some s else None)"

definition quota_allow :: "gateway_io \<Rightarrow> str \<Rightarrow> nat \<Rightarrow> int \<Rightarrow> gateway \<Rightarrow> bool option" where
  "quota_allow io kid daily_token_limit now g =
     (if daily_token_limit = 0 then Some True
      else
        let day_start = now - now mod 86400
        in map_option (\<lambda>s. nat (s mod 2 ^ 64) < daily_token_limit) (sum_tokens_since io kid day_start g))"

datatype deny_reason = RateLimitExceeded | QuotaExceeded

record gateway_policy =
  po_requests_per_minute :: "u32 option"
  po_daily_token_limit :: "nat option"

record gateway_response =
  rs_status :: nat
  rs_body :: bytes

text \<open>A refusal that the library cannot write is its error 500.\<close>

definition deny_response :: "json_text \<Rightarrow> deny_reason \<Rightarrow> gateway_response" where
  "deny_response j reason =
     (let (kind, message) = (case reason of
          RateLimitExceeded \<Rightarrow> (lit ''rate_limit_error'', lit ''rate limit exceeded'')
        | QuotaExceeded \<Rightarrow> (lit ''quota_error'', lit ''daily token quota exceeded''))
      in case to_vec j (JObject [(lit ''error'', JObject [(lit ''type'', JString kind), (lit ''message'', JString message)])]) of
           Some b \<Rightarrow> \<lparr>rs_status = 429, rs_body = b\<rparr>
         | None \<Rightarrow> \<lparr>rs_status = 500, rs_body = []\<rparr>)"

definition record_audit :: "gateway_io \<Rightarrow> str \<Rightarrow> str \<Rightarrow> int \<Rightarrow> gateway \<Rightarrow> gateway" where
  "record_audit io kid event now g = (if io_audit io then g\<lparr>gw_audit := gw_audit g @ [(kid, event, now)]\<rparr> else g)"

definition check_policy :: "json_text \<Rightarrow> gateway_io \<Rightarrow> gateway_policy option \<Rightarrow> str \<Rightarrow> int \<Rightarrow> gateway \<Rightarrow> gateway_response option \<times> gateway" where
  "check_policy j io policy kid now g =
     (case policy of
        None \<Rightarrow> (None, g)
      | Some po \<Rightarrow>
          let (allowed, windows) =
            (case po_requests_per_minute po of None \<Rightarrow> (True, gw_windows g) | Some rpm \<Rightarrow> rate_allow kid rpm now (gw_windows g));
              g = g\<lparr>gw_windows := windows\<rparr> in
          if \<not> allowed then (Some (deny_response j RateLimitExceeded), record_audit io kid (lit ''rate_limited'') now g)
          else
            case po_daily_token_limit po of
              None \<Rightarrow> (None, g)
            | Some limit \<Rightarrow>
                (case quota_allow io kid limit now g of
                   None \<Rightarrow> (Some \<lparr>rs_status = 500, rs_body = utf8 (lit ''quota check failed'')\<rparr>, g)
                 | Some True \<Rightarrow> (None, g)
                 | Some False \<Rightarrow> (Some (deny_response j QuotaExceeded), record_audit io kid (lit ''quota_exceeded'') now g)))"

section \<open>Forwarding\<close>

fun as_i64 :: "json_value \<Rightarrow> int option" where
  "as_i64 (JNumber n) = (if i64 n then Some n else None)"
| "as_i64 _ = None"

definition route_key :: "str \<Rightarrow> str option" where
  "route_key path = (if path = lit ''/responses'' then Some (lit ''codex'') else None)"

fun set_model :: "str \<Rightarrow> json_value \<Rightarrow> json_value" where
  "set_model target (JObject kvs) =
     JObject (map (\<lambda>(k, v). (k, if k = lit ''model'' \<and> as_str v \<noteq> None then JString target else v)) kvs)"
| "set_model target v = v"

definition apply_model_route :: "json_text \<Rightarrow> (str \<rightharpoonup> str) \<Rightarrow> str \<Rightarrow> bytes \<Rightarrow> bytes" where
  "apply_model_route j models key body =
     (case map_option trim (models key) of
        None \<Rightarrow> body
      | Some target \<Rightarrow>
          if target = [] then body
          else case from_vec j body of
            None \<Rightarrow> body
          | Some v \<Rightarrow> (case to_vec j (set_model target v) of None \<Rightarrow> body | Some bs \<Rightarrow> bs))"

definition extract_model :: "json_text \<Rightarrow> bytes \<Rightarrow> str" where
  "extract_model j body =
     (case Option.bind (from_vec j body) (\<lambda>v. Option.bind (json_get (lit ''model'') v) as_str) of
        Some m \<Rightarrow> m | None \<Rightarrow> lit ''unknown'')"

definition extract_usage :: "json_text \<Rightarrow> bytes \<Rightarrow> int \<times> int" where
  "extract_usage j body =
     (case from_vec j body of
        None \<Rightarrow> (0, 0)
      | Some v \<Rightarrow>
          let usage = (case json_get (lit ''usage'') v of None \<Rightarrow> Null | Some u \<Rightarrow> u);
              tokens = (\<lambda>key. case Option.bind (json_get key usage) as_i64 of None \<Rightarrow> 0 | Some n \<Rightarrow> n)
          in (tokens (lit ''input_tokens''), tokens (lit ''output_tokens'')))"

record http_reply =
  hr_status :: nat
  hr_content_type :: "str option"
  hr_bytes :: "bytes option" \<comment> \<open>\<open>None\<close>: reading the body failed\<close>

record upstream =
  up_base_url :: str
  up_api_key :: str
  up_prefer_node :: bool
  up_node_credential :: "(str \<times> str) option" \<comment> \<open>what the node resolves now\<close>
  up_send :: "str \<Rightarrow> str \<Rightarrow> bytes \<Rightarrow> http_reply option"

definition resolve_credential :: "upstream \<Rightarrow> (str \<times> str) option" where
  "resolve_credential up =
     (case (if up_prefer_node up then up_node_credential up else None) of
        Some credential \<Rightarrow> Some credential
      | None \<Rightarrow> if up_api_key up = [] then None else Some (up_base_url up, up_api_key up))"

text \<open>A stream is passed on as it comes; a body that breaks off in it is not modelled.\<close>

definition forward :: "json_text \<Rightarrow> upstream \<Rightarrow> str \<Rightarrow> bytes \<Rightarrow> gateway \<Rightarrow> (gateway_response \<times> int \<times> int) option \<times> gateway" where
  "forward j up path body g =
     (case resolve_credential up of
        None \<Rightarrow> (None, g)
      | Some (base_url, api_key) \<Rightarrow>
          let g = g\<lparr>gw_forwarded := gw_forwarded g @ [(base_url @ path, api_key, body)]\<rparr> in
          case up_send up (base_url @ path) api_key body of
            None \<Rightarrow> (None, g)
          | Some reply \<Rightarrow>
              if (case hr_content_type reply of None \<Rightarrow> False | Some ct \<Rightarrow> text_contains (lit ''text/event-stream'') ct)
              then (Some (\<lparr>rs_status = hr_status reply, rs_body = (case hr_bytes reply of None \<Rightarrow> [] | Some b \<Rightarrow> b)\<rparr>, 0, 0), g)
              else case hr_bytes reply of
                None \<Rightarrow> (None, g)
              | Some b \<Rightarrow> (Some (\<lparr>rs_status = hr_status reply, rs_body = b\<rparr>, extract_usage j b), g))"

definition usage_record :: "gateway_io \<Rightarrow> str \<Rightarrow> str \<Rightarrow> int \<Rightarrow> int \<Rightarrow> int \<Rightarrow> gateway \<Rightarrow> gateway" where
  "usage_record io kid model now input out g =
     (if io_record io then g\<lparr>gw_usage := gw_usage g @ [\<lparr>us_key_id = kid, us_model = model, us_occurred_at = now,
        us_input_tokens = input, us_output_tokens = out\<rparr>]\<rparr> else g)"

record gateway_config =
  gc_master_key :: "str option"
  gc_models :: "str \<rightharpoonup> str"
  gc_policy :: "gateway_policy option"
  gc_upstream :: upstream

definition forward_and_record :: "json_text \<Rightarrow> gateway_io \<Rightarrow> gateway_config \<Rightarrow> caller \<Rightarrow> str \<Rightarrow> bytes \<Rightarrow> int \<Rightarrow> gateway
    \<Rightarrow> gateway_response \<times> gateway" where
  "forward_and_record j io cfg who path body now g =
     (let routed = (case route_key path of Some key \<Rightarrow> apply_model_route j (gc_models cfg) key body | None \<Rightarrow> body);
          model = extract_model j routed;
          (deny, g) = (case who of VirtualKey kid \<Rightarrow> check_policy j io (gc_policy cfg) kid now g | Master \<Rightarrow> (None, g))
      in case deny of
           Some response \<Rightarrow> (response, g)
         | None \<Rightarrow>
             (case forward j (gc_upstream cfg) path routed g of
                (None, g) \<Rightarrow> (\<lparr>rs_status = 502, rs_body = utf8 (lit ''bad gateway'')\<rparr>, g)
              | (Some (response, input, out), g) \<Rightarrow>
                  (response, case who of VirtualKey kid \<Rightarrow> usage_record io kid model now input out g | Master \<Rightarrow> g)))"

text \<open>A request to the one route, through the authentication layer.\<close>

definition handle_responses :: "json_text \<Rightarrow> (bytes \<Rightarrow> bytes) \<Rightarrow> gateway_io \<Rightarrow> gateway_config \<Rightarrow> gateway_request \<Rightarrow> int \<Rightarrow> gateway
    \<Rightarrow> gateway_response \<times> gateway" where
  "handle_responses j sha io cfg rq now g =
     (case resolve_caller sha io (gc_master_key cfg) rq now g of
        (None, g) \<Rightarrow> (\<lparr>rs_status = 401, rs_body = utf8 (lit ''unauthorized'')\<rparr>, g)
      | (Some who, g) \<Rightarrow> forward_and_record j io cfg who (lit ''/responses'') (rq_body rq) now g)"

section \<open>Configuration\<close>

datatype credential_source = StaticKey | NodeKey

text \<open>The file as decoded; the listen address is what parsing it gave: whether it is a loopback address.\<close>

record file_config =
  fc_listen_loopback :: "bool option"
  fc_master_key :: "str option"
  fc_base_url :: str
  fc_api_key :: str
  fc_models :: "(str \<times> str) list"
  fc_policy :: "gateway_policy option"
  fc_credential_source :: credential_source

datatype config_error = EmptyBaseUrl | EmptyApiKey | InvalidListen | ListenNotLoopback

definition normalize_models :: "(str \<times> str) list \<Rightarrow> (str \<times> str) list" where
  "normalize_models models = List.map_filter (\<lambda>(key, v). let v = trim v in if v \<noteq> [] then Some (key, v) else None) models"

definition from_file :: "file_config \<Rightarrow> (str \<times> str) option \<Rightarrow> (str \<Rightarrow> str \<Rightarrow> bytes \<Rightarrow> http_reply option)
    \<Rightarrow> (config_error, gateway_config) result" where
  "from_file file node_credential send =
     (let base_url = trim_end_matches (\<lambda>c. c = 47) (trim (fc_base_url file)) in
      if base_url = [] then Inl EmptyBaseUrl
      else if fc_credential_source file \<noteq> NodeKey \<and> trim (fc_api_key file) = [] then Inl EmptyApiKey
      else case fc_listen_loopback file of
        None \<Rightarrow> Inl InvalidListen
      | Some loopback \<Rightarrow>
          if \<not> loopback then Inl ListenNotLoopback
          else Inr \<lparr>gc_master_key = fc_master_key file, gc_models = map_of (rev (normalize_models (fc_models file))),
            gc_policy = fc_policy file,
            gc_upstream = \<lparr>up_base_url = base_url, up_api_key = fc_api_key file,
              up_prefer_node = (fc_credential_source file = NodeKey), up_node_credential = node_credential, up_send = send\<rparr>\<rparr>)"

lemma loaded_gateway_has_a_credential:
  assumes "from_file file node send = Inr cfg" "fc_credential_source file = StaticKey \<or> node \<noteq> None"
  shows "resolve_credential (gc_upstream cfg) \<noteq> None"
proof -
  have "trim [] = []"
    by (simp add: trim_def trim_end_matches_def trim_start_matches_def)
  then show ?thesis
    using assms by (auto simp: from_file_def resolve_credential_def Let_def split: if_splits option.splits)
qed

section \<open>Comparing secrets\<close>

lemma xor_eq_0: "(a :: 'a :: semiring_bit_operations) XOR b = 0 \<longleftrightarrow> a = b"
proof
  assume "a XOR b = 0"
  then have "\<not> bit (a XOR b) n" for n
    by simp
  then show "a = b"
    by (intro bit_eqI) (auto simp: bit_xor_iff)
qed simp

lemma constant_time_loop_0:
  "constant_time_loop l r i n diff = 0 \<longleftrightarrow> diff = 0 \<and> (\<forall>k. i \<le> k \<and> k < i + n \<longrightarrow> byte_at l k = byte_at r k)"
proof (induction n arbitrary: i diff)
  case (Suc n)
  have "diff OR unat (byte_at l i XOR byte_at r i) = 0 \<longleftrightarrow> diff = 0 \<and> byte_at l i = byte_at r i"
    by (simp only: or_eq_0_iff unsigned_eq_0_iff xor_eq_0)
  then have "constant_time_loop l r i (Suc n) diff = 0 \<longleftrightarrow>
      diff = 0 \<and> byte_at l i = byte_at r i \<and> (\<forall>k. i + 1 \<le> k \<and> k < i + 1 + n \<longrightarrow> byte_at l k = byte_at r k)"
    using Suc.IH [of "i + 1" "diff OR unat (byte_at l i XOR byte_at r i)"] by simp
  moreover have "i \<le> k \<and> k < i + Suc n \<longleftrightarrow> k = i \<or> i + 1 \<le> k \<and> k < i + 1 + n" for k
    by auto
  ultimately show ?case
    by (simp only: imp_disjL all_conj_distrib simp_thms)
qed auto

lemma constant_time_eq_iff: "constant_time_eq l r \<longleftrightarrow> l = r"
  unfolding constant_time_eq_def constant_time_loop_0 xor_eq_0
  by (auto simp: byte_at_def list_eq_iff_nth_eq)

section \<open>The rate limit\<close>

definition asked :: "str \<Rightarrow> int \<Rightarrow> (str \<times> int) list \<Rightarrow> nat" where
  "asked key window rqs = length (filter (\<lambda>(k, t). k = key \<and> t div 60 = window) rqs)"

definition windows_after :: "u32 \<Rightarrow> (str \<times> int) list \<Rightarrow> (str \<rightharpoonup> int \<times> u32)" where
  "windows_after rpm rqs = fold (\<lambda>(k, t) w. snd (rate_allow k rpm t w)) rqs Map.empty"

lemma asked_snoc [simp]: "asked key window (rqs @ [(k, t)]) = asked key window rqs + (if k = key \<and> t div 60 = window then 1 else 0)"
  by (simp add: asked_def)

definition entry_ok :: "u32 \<Rightarrow> (str \<times> int) list \<Rightarrow> str \<Rightarrow> (int \<times> u32) option \<Rightarrow> bool" where
  "entry_ok rpm rqs key e = (case e of
      None \<Rightarrow> \<forall>window. asked key window rqs = 0
    | Some (window, count) \<Rightarrow> unat count = min (unat rpm) (asked key window rqs) \<and> 0 < asked key window rqs \<and>
        (\<forall>later > window. asked key later rqs = 0))"

lemma unat_succ_below:
  assumes "(c :: u32) < m"
  shows "unat (c + 1) = unat c + 1"
proof -
  have "unat c + 1 < 2 ^ 32"
    using assms unsigned_less [of m, where ?'a = nat] by (simp add: word_less_nat_alt)
  then show ?thesis
    by (simp add: unat_word_ariths)
qed

lemma rate_step:
  assumes ok: "\<And>key. entry_ok rpm rqs key (w key)" and "rpm \<noteq> 0" and sorted: "\<forall>(k', t') \<in> set rqs. t' \<le> t"
  shows "entry_ok rpm (rqs @ [(k, t)]) key (snd (rate_allow k rpm t w) key) \<and>
    (fst (rate_allow k rpm t w) \<longleftrightarrow> asked k (t div 60) rqs < unat rpm)"
proof -
  let ?w = "t div 60"
  have rpm: "0 < unat rpm"
    using assms(2) by (simp add: unat_gt_0)
  have later: "asked k later rqs = 0" if "later > ?w" for later
    using sorted zdiv_mono1 [of _ t 60] that by (fastforce simp: asked_def filter_empty_conv)
  have k: "entry_ok rpm (rqs @ [(k, t)]) k (snd (rate_allow k rpm t w) k) \<and>
    (fst (rate_allow k rpm t w) \<longleftrightarrow> asked k ?w rqs < unat rpm)"
  proof (cases "w k")
    case None
    then have "asked k window rqs = 0" for window
      using ok [of k] by (simp add: entry_ok_def)
    then show ?thesis
      using None assms(2) rpm by (simp add: rate_allow_def entry_ok_def Let_def)
  next
    case (Some p)
    obtain window count where p: "p = (window, count)"
      by fastforce
    have c: "unat count = min (unat rpm) (asked k window rqs)" "0 < asked k window rqs" "\<forall>later > window. asked k later rqs = 0"
      using ok [of k] Some p by (auto simp: entry_ok_def)
    show ?thesis
    proof (cases "window = ?w")
      case True
      have le: "count \<ge> rpm \<longleftrightarrow> asked k ?w rqs \<ge> unat rpm"
        using c(1) True by (auto simp: word_le_nat_alt)
      show ?thesis
      proof (cases "count \<ge> rpm")
        case over: True
        then show ?thesis
          using Some p c True le assms(2) by (simp add: rate_allow_def entry_ok_def Let_def)
      next
        case False
        then show ?thesis
          using Some p c True le assms(2) unat_succ_below [of count rpm] by (simp add: rate_allow_def entry_ok_def Let_def)
      qed
    next
      case False
      then have "window < ?w"
        using later [of window] c(2) by linarith
      then have "asked k ?w rqs = 0"
        using c(3) by simp
      then show ?thesis
        using Some p False assms(2) rpm later by (simp add: rate_allow_def entry_ok_def Let_def)
    qed
  qed
  show ?thesis
  proof (cases "key = k")
    case False
    then have "snd (rate_allow k rpm t w) key = w key"
      by (auto simp: rate_allow_def Let_def split: option.splits)
    moreover have "asked key window (rqs @ [(k, t)]) = asked key window rqs" for window
      using False by simp
    ultimately show ?thesis
      using k ok [of key] by (simp add: entry_ok_def split: option.splits prod.splits)
  qed (use k in simp)
qed

lemma windows_after_ok:
  assumes "sorted (map snd rqs)" "rpm \<noteq> 0"
  shows "entry_ok rpm rqs key (windows_after rpm rqs key)"
  using assms(1)
proof (induction rqs arbitrary: key rule: rev_induct)
  case Nil
  then show ?case
    by (simp add: entry_ok_def windows_after_def asked_def)
next
  case (snoc x rqs)
  obtain k t where x: "x = (k, t)"
    by fastforce
  have "\<forall>(k', t') \<in> set rqs. t' \<le> t" "sorted (map snd rqs)"
    using snoc.prems by (auto simp: x sorted_append)
  then show ?case
    using rate_step [of rpm rqs "windows_after rpm rqs" t k key] snoc.IH assms(2) by (simp add: x windows_after_def)
qed

lemma rate_limit_counts:
  assumes "sorted (map snd (rqs @ [(k, t)]))" "rpm \<noteq> 0"
  shows "fst (rate_allow k rpm t (windows_after rpm rqs)) \<longleftrightarrow> asked k (t div 60) rqs < unat rpm"
proof -
  have "\<forall>(k', t') \<in> set rqs. t' \<le> t" "sorted (map snd rqs)"
    using assms(1) by (auto simp: sorted_append)
  then show ?thesis
    using rate_step [of rpm rqs "windows_after rpm rqs" t k k] windows_after_ok [OF _ assms(2)] assms(2) by blast
qed

section \<open>Properties\<close>

text \<open>
  Secrets are compared in time that does not depend on where they differ, and the comparison is
  equality: also for secrets of different lengths, and for zero bytes.
\<close>

theorem constant_time_eq_exact: "constant_time_eq l r \<longleftrightarrow> l = r"
  by (rule constant_time_eq_iff)

text \<open>
  The rate limit is exact: as long as the clock does not go back, a request passes if and only if
  fewer requests than the limit came before it with the same key in the same minute of the clock,
  whatever other keys did and however many requests were refused.
\<close>

theorem rate_limit_exact:
  assumes "sorted (map snd (rqs @ [(k, t)]))" "rpm \<noteq> 0"
  shows "fst (rate_allow k rpm t (windows_after rpm rqs)) \<longleftrightarrow> asked k (t div 60) rqs < unat rpm"
  by (rule rate_limit_counts [OF assms])

theorem rate_limit_exact_witness:
  "\<not> fst (rate_allow [107] 2 100 (windows_after 2 [([107], 50), ([107], 99), ([108], 99), ([107], 100)]))"
  using rate_limit_exact [of "[([107], 50), ([107], 99), ([108], 99), ([107], 100)]" "[107]" 100 2] by (simp add: asked_def)

text \<open>
  The window is the minute of the clock and does not slide: twice the limit passes within one
  second, the limit at the end of a minute and the limit at the beginning of the next.
\<close>

theorem double_burst_at_the_boundary:
  assumes "rpm \<noteq> 0" "m < unat rpm"
  shows "fst (rate_allow k rpm 59 (windows_after rpm (replicate m (k, 59)))) \<and>
    fst (rate_allow k rpm 60 (windows_after rpm (replicate (unat rpm) (k, 59) @ replicate m (k, 60))))"
proof -
  have "asked k 0 (replicate m (k, 59)) = m" "asked k 1 (replicate (unat rpm) (k, 59) @ replicate m (k, 60)) = m"
    by (simp_all add: asked_def filter_replicate)
  then show ?thesis
    using assms rate_limit_counts [of "replicate m (k, 59)" k 59 rpm]
      rate_limit_counts [of "replicate (unat rpm) (k, 59) @ replicate m (k, 60)" k 60 rpm]
    by (auto simp: sorted_append sorted_replicate)
qed

text \<open>
  A virtual key lives from its creation to its deletion: the key that \<open>create\<close> returned is
  accepted under its id, and after the id is deleted it is not accepted any more; all other keys are
  accepted as before.
\<close>

theorem key_lifecycle:
  assumes "key_create sha label r1 r2 r3 now g = (Some (kid, key), g1)" "io_lookup io"
  shows "fst (key_accept sha io key t g1) = Some kid \<and> fst (key_delete kid g1) \<and>
    fst (key_accept sha io key t (snd (key_delete kid g1))) = None \<and>
    (\<forall>other. sha (utf8 other) \<noteq> sha (utf8 key) \<longrightarrow>
       fst (key_accept sha io other t g1) = fst (key_accept sha io other t g) \<and>
       fst (key_accept sha io other t (snd (key_delete kid g1))) = fst (key_accept sha io other t g))"
proof -
  define hash where "hash = hex_encode (sha (utf8 key))"
  define new where "new = \<lparr>ak_id = kid, ak_label = label, ak_key_hash = hash, ak_created_at = now, ak_last_used_at = None\<rparr>"
  have c: "\<forall>k \<in> set (gw_api_keys g). ak_id k \<noteq> kid \<and> ak_key_hash k \<noteq> hash" "g1 = g\<lparr>gw_api_keys := gw_api_keys g @ [new]\<rparr>"
    using assms(1) by (auto simp: key_create_def Let_def list_ex_iff hash_def new_def split: if_splits)
  have acc: "fst (key_accept sha io x t h) = map_option ak_id (find (\<lambda>k. ak_key_hash k = hex_encode (sha (utf8 x))) (gw_api_keys h))" for x h
    using assms(2) by (simp add: key_accept_def Let_def split: option.split)
  have del: "gw_api_keys (snd (key_delete kid g1)) = gw_api_keys g" "fst (key_delete kid g1)"
    using c by (auto simp: key_delete_def Let_def new_def filter_id_conv)
  have none: "find (\<lambda>k. ak_key_hash k = hash) (gw_api_keys g) = None"
    using c(1) by (auto simp: find_None_iff)
  have app: "find P (xs @ [new]) = (case find P xs of None \<Rightarrow> if P new then Some new else None | Some x \<Rightarrow> Some x)" for P xs
    by (induction xs) auto
  have new: "ak_id new = kid" "ak_key_hash new = hash"
    by (simp_all add: new_def)
  have other: "find (\<lambda>k. ak_key_hash k = hex_encode (sha (utf8 x))) (gw_api_keys g1) =
      find (\<lambda>k. ak_key_hash k = hex_encode (sha (utf8 x))) (gw_api_keys g)" if "sha (utf8 x) \<noteq> sha (utf8 key)" for x
  proof -
    have "hash \<noteq> hex_encode (sha (utf8 x))"
      using that hex_encode_inj by (auto simp: hash_def)
    then show ?thesis
      using c(2) new by (simp add: app split: option.split)
  qed
  have "find (\<lambda>k. ak_key_hash k = hash) (gw_api_keys g1) = Some new"
    using c(2) none new by (simp add: app)
  then show ?thesis
    using del none new other by (simp add: acc hash_def [symmetric])
qed

definition no_keys :: gateway where
  "no_keys = \<lparr>gw_api_keys = [], gw_usage = [], gw_audit = [], gw_windows = Map.empty, gw_forwarded = []\<rparr>"

definition good_io :: gateway_io where
  "good_io = \<lparr>io_lookup = True, io_touch = True, io_sum = True, io_audit = True, io_record = True\<rparr>"

theorem key_lifecycle_witness:
  "\<exists>kid key g1. key_create id None [1] [2] [3] 7 no_keys = (Some (kid, key), g1) \<and>
     fst (key_accept id good_io key 9 g1) = Some kid \<and> fst (key_accept id good_io key 9 (snd (key_delete kid g1))) = None"
proof -
  obtain kid key g1 where c: "key_create id None [1] [2] [3] 7 no_keys = (Some (kid, key), g1)"
    by (simp add: key_create_def no_keys_def Let_def)
  have "io_lookup good_io"
    by (simp add: good_io_def)
  then show ?thesis
    using key_lifecycle [OF c, of good_io 9] c by blast
qed

text \<open>A key may use the gateway: the rate limit lets it pass and the tokens recorded today are below the quota.\<close>

definition within_limits :: "gateway_io \<Rightarrow> gateway_policy option \<Rightarrow> str \<Rightarrow> int \<Rightarrow> gateway \<Rightarrow> bool" where
  "within_limits io policy kid now g \<longleftrightarrow> (\<forall>po. policy = Some po \<longrightarrow>
     (\<forall>rpm. po_requests_per_minute po = Some rpm \<longrightarrow> fst (rate_allow kid rpm now (gw_windows g))) \<and>
     (\<forall>limit. po_daily_token_limit po = Some limit \<and> limit > 0 \<longrightarrow>
        (\<exists>s. sum_tokens_since io kid (now - now mod 86400) g = Some s \<and> (0 \<le> s \<longrightarrow> s < int limit))))"

lemma sum_tokens_frame: "gw_usage g' = gw_usage g \<Longrightarrow> sum_tokens_since io kid since g' = sum_tokens_since io kid since g"
  by (simp add: sum_tokens_since_def)

lemma quota_limit:
  assumes "quota_allow io kid limit now g = Some True" "limit > 0"
  shows "\<exists>s. sum_tokens_since io kid (now - now mod 86400) g = Some s \<and> (0 \<le> s \<longrightarrow> s < int limit)"
proof -
  obtain s where s: "sum_tokens_since io kid (now - now mod 86400) g = Some s" "nat (s mod 2 ^ 64) < limit"
    using assms by (auto simp: quota_allow_def Let_def)
  moreover have "s < 2 ^ 63"
    using s(1) by (auto simp: sum_tokens_since_def Let_def i64_def split: if_splits)
  ultimately show ?thesis
    by (auto simp: nat_less_iff)
qed

lemma check_policy_effect:
  assumes "check_policy j io policy kid now g = (deny, g1)"
  shows "gw_forwarded g1 = gw_forwarded g \<and> gw_usage g1 = gw_usage g \<and> gw_api_keys g1 = gw_api_keys g \<and>
    (deny = None \<longrightarrow> within_limits io policy kid now g \<and> gw_audit g1 = gw_audit g)"
proof (cases policy)
  case None
  then show ?thesis
    using assms by (simp add: check_policy_def within_limits_def)
next
  case (Some po)
  obtain allowed w where a: "(case po_requests_per_minute po of None \<Rightarrow> (True, gw_windows g)
      | Some rpm \<Rightarrow> rate_allow kid rpm now (gw_windows g)) = (allowed, w)"
    by fastforce
  let ?g = "g\<lparr>gw_windows := w\<rparr>"
  have sums: "sum_tokens_since io kid since ?g = sum_tokens_since io kid since g" for since
    by (rule sum_tokens_frame) simp
  have rate: "fst (rate_allow kid rpm now (gw_windows g))" if "allowed" "po_requests_per_minute po = Some rpm" for rpm
    using a that by simp
  show ?thesis
  proof (cases "allowed \<and> (case po_daily_token_limit po of None \<Rightarrow> True | Some limit \<Rightarrow> quota_allow io kid limit now ?g = Some True)")
    case True
    then have "deny = None" "g1 = ?g"
      using assms Some a by (auto simp: check_policy_def Let_def split: option.splits)
    moreover have "\<exists>s. sum_tokens_since io kid (now - now mod 86400) g = Some s \<and> (0 \<le> s \<longrightarrow> s < int limit)"
      if "po_daily_token_limit po = Some limit" "limit > 0" for limit
      using True that quota_limit [of io kid limit now ?g] by (simp add: sums)
    ultimately show ?thesis
      using True rate Some by (auto simp: within_limits_def)
  next
    case False
    then show ?thesis
      using assms Some a by (auto simp: check_policy_def record_audit_def Let_def split: option.splits bool.splits if_splits)
  qed
qed

lemma forward_effect:
  assumes "forward j up path body g = (r, g1)"
  shows "gw_usage g1 = gw_usage g \<and> gw_api_keys g1 = gw_api_keys g \<and> gw_audit g1 = gw_audit g \<and>
    (gw_forwarded g1 = gw_forwarded g \<or> (\<exists>base key. resolve_credential up = Some (base, key) \<and>
       gw_forwarded g1 = gw_forwarded g @ [(base @ path, key, body)]))"
  using assms by (auto simp: forward_def Let_def split: option.splits prod.splits if_splits)

lemma accept_effect:
  assumes "key_accept sha io key now g = (r, g1)"
  shows "gw_forwarded g1 = gw_forwarded g \<and> gw_usage g1 = gw_usage g \<and> gw_windows g1 = gw_windows g \<and> gw_audit g1 = gw_audit g \<and>
    (\<forall>kid. r = Some kid \<longrightarrow> (\<exists>k \<in> set (gw_api_keys g). ak_id k = kid \<and> ak_key_hash k = hex_encode (sha (utf8 key))))"
  using assms by (auto simp: key_accept_def Let_def find_Some_iff split: option.splits if_splits)


definition sample_upstream :: "str option \<Rightarrow> upstream" where
  "sample_upstream ct = \<lparr>up_base_url = lit ''b'', up_api_key = lit ''k'', up_prefer_node = False, up_node_credential = None,
     up_send = \<lambda>_ _ _. Some \<lparr>hr_status = 200, hr_content_type = ct, hr_bytes = Some [9]\<rparr>\<rparr>"

definition sample_gateway :: "str \<Rightarrow> gateway_config" where
  "sample_gateway master = \<lparr>gc_master_key = Some master, gc_models = Map.empty, gc_policy = None, gc_upstream = sample_upstream None\<rparr>"

definition no_json_text :: json_text where
  "no_json_text = \<lparr>to_vec = \<lambda>_. None, from_vec = \<lambda>_. None\<rparr>"

definition keyed_request :: "str \<Rightarrow> gateway_request" where
  "keyed_request key = \<lparr>rq_authorization = None, rq_x_api_key = Some key, rq_body = [1]\<rparr>"

lemma sample_request:
  "handle_responses no_json_text id good_io (sample_gateway m) (keyed_request m) 5 no_keys =
     (\<lparr>rs_status = 200, rs_body = [9]\<rparr>, no_keys\<lparr>gw_forwarded := [(lit ''b/responses'', lit ''k'', [1])]\<rparr>)"
  by (simp add: handle_responses_def resolve_caller_def extract_key_def keyed_request_def sample_gateway_def constant_time_eq_iff
      forward_and_record_def forward_def sample_upstream_def resolve_credential_def apply_model_route_def route_key_def
      extract_usage_def no_json_text_def no_keys_def Let_def lit_def)


text \<open>A master key that is configured as the empty text admits every request with an empty key header.\<close>

theorem empty_master_key_admits_anyone:
  "fst (resolve_caller sha io (Some []) (keyed_request []) now g) = Some Master"
  by (simp add: resolve_caller_def extract_key_def keyed_request_def constant_time_eq_iff)

text \<open>
  Tokens of streamed answers are never counted: while the provider streams, the sum that the daily
  quota is checked against does not grow, whoever asks for how much.
\<close>

theorem streamed_tokens_never_counted:
  assumes "handle_responses j sha io cfg rq now g = (response, g1)"
    and "\<And>url key body reply. up_send (gc_upstream cfg) url key body = Some reply \<Longrightarrow> hr_content_type reply = Some (lit ''text/event-stream'')"
  shows "sum_tokens_since io' kid since g1 = sum_tokens_since io' kid since g"
proof -
  have ev: "text_contains (lit ''text/event-stream'') (lit ''text/event-stream'')"
    by (simp add: lit_def)
  have zero: "r = None \<or> (\<exists>resp. r = Some (resp, 0, 0))" if "forward j (gc_upstream cfg) path body h = (r, h1)" for path body h r h1
    using that assms(2) ev by (fastforce simp: forward_def Let_def split: option.splits prod.splits if_splits)
  have rec: "sum_tokens_since io' kid since (usage_record io k m t 0 0 h) = sum_tokens_since io' kid since h" for k m t h
    by (simp add: usage_record_def sum_tokens_since_def)
  obtain who g2 where w: "resolve_caller sha io (gc_master_key cfg) rq now g = (who, g2)"
    by fastforce
  have g2: "gw_usage g2 = gw_usage g"
    using w accept_effect by (auto simp: resolve_caller_def split: option.splits if_splits prod.splits)
  show ?thesis
  proof (cases who)
    case None
    then show ?thesis
      using assms(1) w g2 by (simp add: handle_responses_def sum_tokens_since_def)
  next
    case (Some c)
    obtain deny g3 where p: "(case c of VirtualKey kid \<Rightarrow> check_policy j io (gc_policy cfg) kid now g2 | Master \<Rightarrow> (None, g2)) = (deny, g3)"
      by fastforce
    have g3: "gw_usage g3 = gw_usage g"
      using p check_policy_effect g2 by (auto split: caller.splits)
    obtain body r g4 where f: "forward j (gc_upstream cfg) (lit ''/responses'') body g3 = (r, g4)"
      and body: "body = (case route_key (lit ''/responses'') of
        Some key \<Rightarrow> apply_model_route j (gc_models cfg) key (rq_body rq) | None \<Rightarrow> rq_body rq)"
      by fastforce
    have g4: "gw_usage g4 = gw_usage g"
      using forward_effect [OF f] g3 by simp
    have "sum_tokens_since io' kid since g1 = sum_tokens_since io' kid since g3 \<or>
        sum_tokens_since io' kid since g1 = sum_tokens_since io' kid since g4"
      using assms(1) w Some p f zero [OF f] rec
      by (auto simp: handle_responses_def forward_and_record_def Let_def body [symmetric] split: option.splits caller.splits)
    then show ?thesis
      using g3 g4 by (auto simp: sum_tokens_since_def)
  qed
qed

end
