(* ===== verification/Checkpoint.thy ===== *)
theory Checkpoint
  imports Hex "HOL-Library.AList" "HOL-Library.List_Lexorder"
begin

text \<open>
  The node's checkpoint store (\<^verbatim>\<open>homie-node/src/checkpoint.rs\<close>): snapshots of a workspace as content-addressed
  blobs with a manifest, their transfer in chunks, staging on another node, and the record of the
  move. The files of the store are maps; what the store writes as JSON is kept as the value. SHA-256 is
  the parameter \<open>sha\<close>; which system calls fail is the input \<open>node_io\<close>. A workspace is the tree \<open>node_entry\<close>.
  Making the store's own directories and reading files that exist are taken to succeed; temporary copies are not kept.
\<close>

section \<open>Data\<close>

datatype node_error = BadRequest | NodeNotFound | Conflict | NodeIo | Protocol

datatype provider_kind = Claude | Codex
datatype transfer_mode = Move | Fork
datatype move_phase = Prepared | Transferring | Staged | TargetReady | Committed | Aborted

record checkpoint_file =
  cf_path :: str
  cf_digest :: str
  cf_size :: nat
  cf_unix_mode :: "nat option"

record checkpoint_manifest =
  cm_version :: nat
  cm_checkpoint_id :: str
  cm_source_node_id :: str
  cm_session_id :: str
  cm_provider :: provider_kind
  cm_profile_id :: str
  cm_workspace_root :: str
  cm_provider_session_id :: "str option"
  cm_mode :: transfer_mode
  cm_created_at :: int
  cm_files :: "checkpoint_file list"
  cm_provider_state :: "checkpoint_file option"
  cm_excluded :: "str list"

record move_record =
  mr_checkpoint_id :: str
  mr_session_id :: str
  mr_source_node_id :: str
  mr_target_node_id :: "str option"
  mr_phase :: move_phase
  mr_lease_id :: "str option"
  mr_reason :: "str option"
  mr_updated_at :: int

record prepare_params =
  pp_session_id :: str
  pp_provider :: provider_kind
  pp_profile_id :: str
  pp_workspace_root :: str
  pp_provider_session_id :: "str option"
  pp_mode :: transfer_mode

definition CHECKPOINT_VERSION :: nat where "CHECKPOINT_VERSION = 1"
definition MAX_FILES :: nat where "MAX_FILES = 100000"
definition MAX_FILE_BYTES :: nat where "MAX_FILE_BYTES = 256 * 1024 * 1024"
definition MAX_TOTAL_BYTES :: nat where "MAX_TOTAL_BYTES = 8 * 1024 * 1024 * 1024"
definition DEFAULT_CHUNK_BYTES :: nat where "DEFAULT_CHUNK_BYTES = 512 * 1024"
definition MAX_CHUNK_BYTES :: nat where "MAX_CHUNK_BYTES = 1024 * 1024"

text \<open>A restored directory: contents and mode by the components of the path.\<close>

type_synonym file_tree = "(str list \<times> bytes \<times> nat option) list"

record node_store =
  ns_node_id :: str
  ns_blobs :: "str \<rightharpoonup> bytes"
  ns_partials :: "str \<rightharpoonup> bytes"
  ns_manifests :: "str \<rightharpoonup> checkpoint_manifest"
  ns_moves :: "str \<rightharpoonup> move_record"
  ns_staging :: "str \<rightharpoonup> file_tree"
  ns_restores :: "str \<rightharpoonup> file_tree"
  ns_provider :: "str \<rightharpoonup> bytes" \<comment> \<open>transcripts in the provider's home\<close>

record node_io =
  ni_now :: int
  ni_manifest_written :: bool
  ni_move_written :: bool
  ni_appended :: "nat option" \<comment> \<open>how much of a chunk was written when writing failed\<close>
  ni_renamed :: bool
  ni_restored :: "str list \<Rightarrow> bool"
  ni_activated :: bool

definition digest_of :: "(bytes \<Rightarrow> bytes) \<Rightarrow> bytes \<Rightarrow> str" where
  "digest_of sha bs = hex_encode (sha bs)"

section \<open>Checks\<close>

definition is_hexdigit :: "nat \<Rightarrow> bool" where
  "is_hexdigit c \<longleftrightarrow> hex_digit c \<noteq> None"

definition validate_checkpoint_id :: "str \<Rightarrow> (node_error, unit) result" where
  "validate_checkpoint_id cid =
     (if starts_with cid (lit ''cp-'') \<and> length (utf8 cid) = 35 \<and> list_all is_hexdigit (drop 3 cid) then Inr () else Inl BadRequest)"

definition validate_digest :: "str \<Rightarrow> (node_error, unit) result" where
  "validate_digest d = (if length (utf8 d) = 64 \<and> list_all is_hexdigit d then Inr () else Inl BadRequest)"

text \<open>
  \<open>Path::components\<close> of a relative path: empty components and dots go, but not a dot at the start, which, like two dots
  anywhere, is not a normal component.
\<close>

definition path_components :: "str \<Rightarrow> str list" where
  "path_components p = filter (\<lambda>c. c \<noteq> [] \<and> c \<noteq> lit ''.'') (split_on 47 p)"

definition validate_relative_path :: "str \<Rightarrow> (node_error, unit) result" where
  "validate_relative_path p =
     (if p = [] \<or> path_is_absolute p \<or> hd (split_on 47 p) = lit ''.'' \<or> lit ''..'' \<in> set (split_on 47 p) then Inl BadRequest else Inr ())"

fun validate_entries :: "checkpoint_file list \<Rightarrow> nat \<Rightarrow> (node_error, nat) result" where
  "validate_entries [] acc = Inr acc"
| "validate_entries (e # es) acc =
     and_then (validate_relative_path (cf_path e)) (\<lambda>_.
     and_then (validate_digest (cf_digest e)) (\<lambda>_.
       if cf_size e > MAX_FILE_BYTES then Inl BadRequest else validate_entries es (min (acc + cf_size e) (2 ^ 64 - 1))))"

definition manifest_entries :: "checkpoint_manifest \<Rightarrow> checkpoint_file list" where
  "manifest_entries m = cm_files m @ (case cm_provider_state m of None \<Rightarrow> [] | Some e \<Rightarrow> [e])"

definition validate_manifest :: "checkpoint_manifest \<Rightarrow> (node_error, unit) result" where
  "validate_manifest m =
     (if cm_version m \<noteq> CHECKPOINT_VERSION then Inl Protocol
      else and_then (validate_checkpoint_id (cm_checkpoint_id m)) (\<lambda>_.
        if length (cm_files m) > MAX_FILES then Inl BadRequest
        else and_then (validate_entries (manifest_entries m) 0) (\<lambda>acc. if acc > MAX_TOTAL_BYTES then Inl BadRequest else Inr ())))"

definition excluded_directories :: "str list" where
  "excluded_directories = map lit [''.git'', ''.ssh'', ''.codex'', ''.claude'', ''node_modules'', ''target'', ''.build'']"

definition secret_files :: "str list" where
  "secret_files = map lit [''auth.json'', ''.credentials.json'', ''credentials.json'', ''id_rsa'', ''id_ed25519'']"

definition should_exclude :: "str \<Rightarrow> bool \<Rightarrow> bool" where
  "should_exclude name directory \<longleftrightarrow>
     directory \<and> name \<in> set excluded_directories \<or> name = lit ''.env'' \<or> starts_with name (lit ''.env.'') \<or> name \<in> set secret_files"

section \<open>Taking a checkpoint\<close>

datatype node_entry = Directory "(str \<times> node_entry) list" | RegularFile bytes nat | SymbolicLink | Special

record walk_state =
  ws_files :: "checkpoint_file list"
  ws_excluded :: "str list"
  ws_total :: nat
  ws_blobs :: "str \<rightharpoonup> bytes"

text \<open>\<open>copy_of\<close>: what copying the file of a path reads, which differs from what was hashed when the file changes meanwhile.\<close>

definition store_file :: "(bytes \<Rightarrow> bytes) \<Rightarrow> (str \<Rightarrow> bytes \<Rightarrow> bytes) \<Rightarrow> str \<Rightarrow> bytes \<Rightarrow> nat \<Rightarrow> (str \<rightharpoonup> bytes)
    \<Rightarrow> (node_error, checkpoint_file) result \<times> (str \<rightharpoonup> bytes)" where
  "store_file sha copy_of relative bs mode blobs =
     (case validate_relative_path relative of
        Inl e \<Rightarrow> (Inl e, blobs)
      | Inr _ \<Rightarrow>
          let digest = digest_of sha bs;
              entry = \<lparr>cf_path = relative, cf_digest = digest, cf_size = length bs, cf_unix_mode = Some (mode mod 512)\<rparr>
          in if blobs digest \<noteq> None then (Inr entry, blobs)
             else let copied = copy_of relative bs
               in if digest_of sha copied \<noteq> digest then (Inl Conflict, blobs)
                  else (Inr entry, blobs(digest \<mapsto> copied)))"

definition exclude :: "str \<Rightarrow> walk_state \<Rightarrow> walk_state" where
  "exclude relative s = s\<lparr>ws_excluded := ws_excluded s @ [relative]\<rparr>"

definition walk_file :: "(bytes \<Rightarrow> bytes) \<Rightarrow> (str \<Rightarrow> bytes \<Rightarrow> bytes) \<Rightarrow> str \<Rightarrow> bytes \<Rightarrow> nat \<Rightarrow> walk_state \<Rightarrow> (node_error, unit) result \<times> walk_state" where
  "walk_file sha copy_of relative bs mode s =
     (if length (ws_files s) \<ge> MAX_FILES then (Inl BadRequest, s)
      else if length bs > MAX_FILE_BYTES then (Inr (), exclude relative s)
      else let s = s\<lparr>ws_total := min (ws_total s + length bs) (2 ^ 64 - 1)\<rparr>
        in if ws_total s > MAX_TOTAL_BYTES then (Inl BadRequest, s)
           else case store_file sha copy_of relative bs mode (ws_blobs s) of
               (Inl e, blobs) \<Rightarrow> (Inl e, s\<lparr>ws_blobs := blobs\<rparr>)
             | (Inr entry, blobs) \<Rightarrow> (Inr (), s\<lparr>ws_blobs := blobs, ws_files := ws_files s @ [entry]\<rparr>))"

definition below :: "str \<Rightarrow> str \<Rightarrow> str" where
  "below rel name = (if rel = [] then name else rel @ 47 # name)"

lemma size_list_insort: "size_list f (insort_key k x xs) = size_list f (x # xs)"
  by (induction xs) auto

lemma size_list_sort [simp]: "size_list f (sort_key k xs) = size_list f xs"
  by (induction xs) (simp_all add: size_list_insort)

function walk_workspace :: "(bytes \<Rightarrow> bytes) \<Rightarrow> (str \<Rightarrow> bytes \<Rightarrow> bytes) \<Rightarrow> str \<Rightarrow> (str \<times> node_entry) list \<Rightarrow> walk_state
    \<Rightarrow> (node_error, unit) result \<times> walk_state" where
  "walk_workspace sha copy_of rel [] s = (Inr (), s)"
| "walk_workspace sha copy_of rel ((name, Directory children) # es) s =
     (if should_exclude name True then walk_workspace sha copy_of rel es (exclude (below rel name) s)
      else case walk_workspace sha copy_of (below rel name) (sort_key fst children) s of
          (Inl e, s) \<Rightarrow> (Inl e, s)
        | (Inr _, s) \<Rightarrow> walk_workspace sha copy_of rel es s)"
| "walk_workspace sha copy_of rel ((name, RegularFile bs mode) # es) s =
     (if should_exclude name False then walk_workspace sha copy_of rel es (exclude (below rel name) s)
      else case walk_file sha copy_of (below rel name) bs mode s of
          (Inl e, s) \<Rightarrow> (Inl e, s)
        | (Inr _, s) \<Rightarrow> walk_workspace sha copy_of rel es s)"
| "walk_workspace sha copy_of rel ((name, SymbolicLink) # es) s = walk_workspace sha copy_of rel es (exclude (below rel name) s)"
| "walk_workspace sha copy_of rel ((name, Special) # es) s = walk_workspace sha copy_of rel es (exclude (below rel name) s)"
  by pat_completeness auto

termination walk_workspace
  by (relation "measure (\<lambda>(sha, copy_of, rel, es, s). size_list (size_prod (\<lambda>_. 0) size) es)") auto

definition save_manifest :: "node_io \<Rightarrow> checkpoint_manifest \<Rightarrow> node_store \<Rightarrow> (node_error, unit) result \<times> node_store" where
  "save_manifest io m n =
     (case validate_manifest m of
        Inl e \<Rightarrow> (Inl e, n)
      | Inr _ \<Rightarrow> if ni_manifest_written io then (Inr (), n\<lparr>ns_manifests := (ns_manifests n)(cm_checkpoint_id m \<mapsto> m)\<rparr>) else (Inl NodeIo, n))"

definition load_manifest :: "str \<Rightarrow> node_store \<Rightarrow> (node_error, checkpoint_manifest) result" where
  "load_manifest cid n =
     and_then (validate_checkpoint_id cid) (\<lambda>_.
       case ns_manifests n cid of
         None \<Rightarrow> Inl NodeNotFound
       | Some m \<Rightarrow> and_then (validate_manifest m) (\<lambda>_. Inr m))"

definition save_move :: "node_io \<Rightarrow> move_record \<Rightarrow> node_store \<Rightarrow> (node_error, unit) result \<times> node_store" where
  "save_move io r n =
     (if ni_move_written io then (Inr (), n\<lparr>ns_moves := (ns_moves n)(mr_checkpoint_id r \<mapsto> r)\<rparr>) else (Inl NodeIo, n))"

definition load_move :: "str \<Rightarrow> node_store \<Rightarrow> (node_error, move_record) result" where
  "load_move cid n =
     and_then (validate_checkpoint_id cid) (\<lambda>_. case ns_moves n cid of None \<Rightarrow> Inl NodeNotFound | Some r \<Rightarrow> Inr r)"

subsection \<open>The transcript of the session\<close>

text \<open>A name with the extension \<open>jsonl\<close> whose stem has the session's identifier in it.\<close>

definition jsonl_match :: "str \<Rightarrow> str \<Rightarrow> bool" where
  "jsonl_match sid name \<longleftrightarrow>
     (let stem = length name - 6 in stem > 0 \<and> drop stem name = lit ''.jsonl'' \<and> text_contains sid (take stem name))"

fun find_matching_jsonl :: "str \<Rightarrow> str list \<Rightarrow> (str \<times> node_entry) list \<Rightarrow> (str list \<times> bytes \<times> nat) list" where
  "find_matching_jsonl sid dir [] = []"
| "find_matching_jsonl sid dir ((name, Directory children) # es) =
     find_matching_jsonl sid (dir @ [name]) children @ find_matching_jsonl sid dir es"
| "find_matching_jsonl sid dir ((name, RegularFile bs mode) # es) =
     (if jsonl_match sid name then (dir @ [name], bs, mode) # find_matching_jsonl sid dir es else find_matching_jsonl sid dir es)"
| "find_matching_jsonl sid dir ((name, SymbolicLink) # es) = find_matching_jsonl sid dir es"
| "find_matching_jsonl sid dir ((name, Special) # es) = find_matching_jsonl sid dir es"

text \<open>\<open>Iterator::max_by_key\<close> on keys that may be missing: the last of the greatest.\<close>

fun time_le :: "int option \<Rightarrow> int option \<Rightarrow> bool" where
  "time_le None _ = True"
| "time_le (Some _) None = False"
| "time_le (Some a) (Some b) = (a \<le> b)"

fun max_by_time :: "('a \<Rightarrow> int option) \<Rightarrow> 'a \<Rightarrow> 'a list \<Rightarrow> 'a" where
  "max_by_time key best [] = best"
| "max_by_time key best (x # xs) = max_by_time key (if time_le (key best) (key x) then x else best) xs"

text \<open>\<open>home\<close>: what lies below the directory of transcripts of a provider; \<open>modified\<close>: the time of a file there, when it can be read.\<close>

definition find_provider_state :: "(provider_kind \<Rightarrow> (str \<times> node_entry) list) \<Rightarrow> (str list \<Rightarrow> int option) \<Rightarrow> provider_kind \<Rightarrow> str
    \<Rightarrow> (bytes \<times> nat) option" where
  "find_provider_state home modified provider sid =
     (if sid = [] \<or> 47 \<in> set sid \<or> 92 \<in> set sid then None
      else case find_matching_jsonl sid [] (home provider) of
          [] \<Rightarrow> None
        | c # cs \<Rightarrow> Some (snd (max_by_time (\<lambda>c. modified (fst c)) c cs)))"

subsection \<open>The checkpoint\<close>

text \<open>\<open>workspace\<close>: the canonical path and the entries of the directory, when it is one; \<open>random\<close>: the sixteen bytes drawn.\<close>

record prepare_world =
  pw_copy_of :: "str \<Rightarrow> bytes \<Rightarrow> bytes"
  pw_workspace :: "(str \<times> (str \<times> node_entry) list) option"
  pw_random :: "bytes option"
  pw_home :: "provider_kind \<Rightarrow> (str \<times> node_entry) list"
  pw_modified :: "str list \<Rightarrow> int option"

definition prepare_provider_state :: "(bytes \<Rightarrow> bytes) \<Rightarrow> prepare_world \<Rightarrow> prepare_params \<Rightarrow> (str \<rightharpoonup> bytes)
    \<Rightarrow> checkpoint_file option \<times> (str \<rightharpoonup> bytes)" where
  "prepare_provider_state sha w params blobs =
     (case pp_provider_session_id params of
        None \<Rightarrow> (None, blobs)
      | Some sid \<Rightarrow>
          (case find_provider_state (pw_home w) (pw_modified w) (pp_provider params) sid of
             None \<Rightarrow> (None, blobs)
           | Some (bs, mode) \<Rightarrow>
               (case store_file sha (pw_copy_of w) (lit ''provider/session.jsonl'') bs mode blobs of
                  (Inl _, blobs) \<Rightarrow> (None, blobs)
                | (Inr e, blobs) \<Rightarrow> (Some e, blobs))))"

definition prepare :: "(bytes \<Rightarrow> bytes) \<Rightarrow> prepare_world \<Rightarrow> prepare_params \<Rightarrow> node_io \<Rightarrow> node_store
    \<Rightarrow> (node_error, checkpoint_manifest) result \<times> node_store" where
  "prepare sha w params io n =
     (case (pw_workspace w, pw_random w) of
        (None, _) \<Rightarrow> (Inl BadRequest, n)
      | (_, None) \<Rightarrow> (Inl NodeIo, n)
      | (Some (path, entries), Some drawn) \<Rightarrow>
          (case walk_workspace sha (pw_copy_of w) [] (sort_key fst entries)
              \<lparr>ws_files = [], ws_excluded = [], ws_total = 0, ws_blobs = ns_blobs n\<rparr> of
             (Inl e, s) \<Rightarrow> (Inl e, n\<lparr>ns_blobs := ws_blobs s\<rparr>)
           | (Inr _, s) \<Rightarrow>
               let (ps, blobs) = prepare_provider_state sha w params (ws_blobs s);
                   n = n\<lparr>ns_blobs := blobs\<rparr>;
                   cid = lit ''cp-'' @ hex_encode drawn;
                   m = \<lparr>cm_version = CHECKPOINT_VERSION, cm_checkpoint_id = cid, cm_source_node_id = ns_node_id n,
                     cm_session_id = pp_session_id params, cm_provider = pp_provider params, cm_profile_id = pp_profile_id params,
                     cm_workspace_root = path, cm_provider_session_id = pp_provider_session_id params, cm_mode = pp_mode params,
                     cm_created_at = ni_now io, cm_files = ws_files s, cm_provider_state = ps, cm_excluded = ws_excluded s\<rparr>
               in case save_manifest io m n of
                    (Inl e, n) \<Rightarrow> (Inl e, n)
                  | (Inr _, n) \<Rightarrow>
                      (case save_move io \<lparr>mr_checkpoint_id = cid, mr_session_id = pp_session_id params, mr_source_node_id = ns_node_id n,
                           mr_target_node_id = None, mr_phase = Prepared, mr_lease_id = None, mr_reason = None, mr_updated_at = ni_now io\<rparr> n of
                         (Inl e, n) \<Rightarrow> (Inl e, n)
                       | (Inr _, n) \<Rightarrow> (Inr m, n))))"

definition put_manifest :: "node_io \<Rightarrow> checkpoint_manifest \<Rightarrow> node_store \<Rightarrow> (node_error, unit) result \<times> node_store" where
  "put_manifest io m n =
     (case validate_manifest m of
        Inl e \<Rightarrow> (Inl e, n)
      | Inr _ \<Rightarrow>
          if cm_source_node_id m = ns_node_id n then (Inl Conflict, n)
          else case save_manifest io m n of
              (Inl e, n) \<Rightarrow> (Inl e, n)
            | (Inr _, n) \<Rightarrow>
                save_move io \<lparr>mr_checkpoint_id = cm_checkpoint_id m, mr_session_id = cm_session_id m, mr_source_node_id = cm_source_node_id m,
                  mr_target_node_id = Some (ns_node_id n), mr_phase = Transferring, mr_lease_id = None, mr_reason = None,
                  mr_updated_at = ni_now io\<rparr> n)"

section \<open>Blobs\<close>

fun missing_blobs :: "str list \<Rightarrow> node_store \<Rightarrow> (node_error, str list) result" where
  "missing_blobs [] n = Inr []"
| "missing_blobs (d # ds) n =
     and_then (validate_digest d) (\<lambda>_.
     and_then (missing_blobs ds n) (\<lambda>missing. Inr (if ns_blobs n d = None then d # missing else missing)))"

record blob_chunk =
  bc_digest :: str
  bc_offset :: nat
  bc_hex :: str
  bc_eof :: bool

definition read_blob :: "str \<Rightarrow> nat \<Rightarrow> nat \<Rightarrow> node_store \<Rightarrow> (node_error, blob_chunk) result" where
  "read_blob d offset max_bytes n =
     and_then (validate_digest d) (\<lambda>_.
       case ns_blobs n d of
         None \<Rightarrow> Inl NodeNotFound
       | Some bs \<Rightarrow>
           if offset > length bs then Inl BadRequest
           else
             let requested = (if max_bytes = 0 then DEFAULT_CHUNK_BYTES else min max_bytes MAX_CHUNK_BYTES);
                 count = min requested (length bs - offset)
             in Inr \<lparr>bc_digest = d, bc_offset = offset, bc_hex = hex_encode (take count (drop offset bs)), bc_eof = (offset + count = length bs)\<rparr>)"

definition put_blob :: "(bytes \<Rightarrow> bytes) \<Rightarrow> node_io \<Rightarrow> blob_chunk \<Rightarrow> node_store \<Rightarrow> (node_error, bool) result \<times> node_store" where
  "put_blob sha io c n =
     (case validate_digest (bc_digest c) of
        Inl e \<Rightarrow> (Inl e, n)
      | Inr _ \<Rightarrow>
          (case hex_decode (bc_hex c) of
             None \<Rightarrow> (Inl BadRequest, n)
           | Some bs \<Rightarrow>
               if length bs > MAX_CHUNK_BYTES then (Inl BadRequest, n)
               else if ns_blobs n (bc_digest c) \<noteq> None then (Inr True, n)
               else
                 let partial = (case ns_partials n (bc_digest c) of None \<Rightarrow> [] | Some p \<Rightarrow> p)
                 in if length partial \<noteq> bc_offset c then (Inl Conflict, n)
                    else case ni_appended io of
                        Some k \<Rightarrow> (Inl NodeIo, n\<lparr>ns_partials := (ns_partials n)(bc_digest c \<mapsto> partial @ take k bs)\<rparr>)
                      | None \<Rightarrow>
                          let whole = partial @ bs;
                              n = n\<lparr>ns_partials := (ns_partials n)(bc_digest c \<mapsto> whole)\<rparr>
                          in if \<not> bc_eof c then (Inr False, n)
                             else if digest_of sha whole \<noteq> bc_digest c then (Inl BadRequest, n)
                             else if \<not> ni_renamed io then (Inl NodeIo, n)
                             else (Inr True, n\<lparr>ns_partials := (ns_partials n)(bc_digest c := None), ns_blobs := (ns_blobs n)(bc_digest c \<mapsto> whole)\<rparr>)))"

section \<open>Staging\<close>

text \<open>A path cannot be a file when it is a directory on the way to another, or lies below a file.\<close>

definition tree_clash :: "str list \<Rightarrow> file_tree \<Rightarrow> bool" where
  "tree_clash p t \<longleftrightarrow> p = [] \<or> list_ex (\<lambda>q. length q < length p \<and> take (length q) p = q \<or> length p < length q \<and> take (length p) q = p) (map fst t)"

definition restore_file :: "(bytes \<Rightarrow> bytes) \<Rightarrow> node_io \<Rightarrow> str list \<Rightarrow> checkpoint_file \<Rightarrow> (str \<rightharpoonup> bytes) \<Rightarrow> file_tree
    \<Rightarrow> (node_error, unit) result \<times> file_tree" where
  "restore_file sha io base e blobs t =
     (case and_then (validate_relative_path (cf_path e)) (\<lambda>_. validate_digest (cf_digest e)) of
        Inl err \<Rightarrow> (Inl err, t)
      | Inr _ \<Rightarrow>
          (case blobs (cf_digest e) of
             None \<Rightarrow> (Inl Conflict, t)
           | Some bs \<Rightarrow>
               if digest_of sha bs \<noteq> cf_digest e then (Inl Conflict, t)
               else let p = base @ path_components (cf_path e)
                 in if tree_clash p t \<or> \<not> ni_restored io p then (Inl NodeIo, t)
                    else (Inr (), AList.update p (bs, cf_unix_mode e) t)))"

fun restore_files :: "(bytes \<Rightarrow> bytes) \<Rightarrow> node_io \<Rightarrow> str list \<Rightarrow> checkpoint_file list \<Rightarrow> (str \<rightharpoonup> bytes) \<Rightarrow> file_tree
    \<Rightarrow> (node_error, unit) result \<times> file_tree" where
  "restore_files sha io base [] blobs t = (Inr (), t)"
| "restore_files sha io base (e # es) blobs t =
     (case restore_file sha io base e blobs t of
        (Inl err, t) \<Rightarrow> (Inl err, t)
      | (Inr _, t) \<Rightarrow> restore_files sha io base es blobs t)"

definition restore_manifest :: "(bytes \<Rightarrow> bytes) \<Rightarrow> node_io \<Rightarrow> checkpoint_manifest \<Rightarrow> (str \<rightharpoonup> bytes) \<Rightarrow> (node_error, unit) result \<times> file_tree" where
  "restore_manifest sha io m blobs =
     (case restore_files sha io [] (cm_files m) blobs [] of
        (Inl e, t) \<Rightarrow> (Inl e, t)
      | (Inr _, t) \<Rightarrow> restore_files sha io [lit ''.homie''] (case cm_provider_state m of None \<Rightarrow> [] | Some e \<Rightarrow> [e]) blobs t)"

definition provider_state_destination :: "checkpoint_manifest \<Rightarrow> str \<Rightarrow> (node_error, str option) result" where
  "provider_state_destination m home =
     (case cm_provider_session_id m of
        None \<Rightarrow> Inr None
      | Some sid \<Rightarrow>
          if sid = [] \<or> 47 \<in> set sid \<or> 92 \<in> set sid then Inl BadRequest
          else Inr (Some (case cm_provider m of
              Claude \<Rightarrow> home @ lit ''/projects/-homie-imports/'' @ sid @ lit ''.jsonl''
            | Codex \<Rightarrow> home @ lit ''/sessions/homie-imports/rollout-homie-'' @ sid @ lit ''.jsonl'')))"

definition activate_provider_state :: "(bytes \<Rightarrow> bytes) \<Rightarrow> node_io \<Rightarrow> checkpoint_manifest \<Rightarrow> str \<Rightarrow> node_store \<Rightarrow> (node_error, unit) result \<times> node_store" where
  "activate_provider_state sha io m home n =
     (case cm_provider_state m of
        None \<Rightarrow> (Inr (), n)
      | Some st \<Rightarrow>
          (case provider_state_destination m home of
             Inl e \<Rightarrow> (Inl e, n)
           | Inr None \<Rightarrow> (Inl Protocol, n)
           | Inr (Some dest) \<Rightarrow>
               (case ns_provider n dest of
                  Some bs \<Rightarrow> if digest_of sha bs = cf_digest st then (Inr (), n) else (Inl Conflict, n)
                | None \<Rightarrow>
                    (case ns_blobs n (cf_digest st) of
                       None \<Rightarrow> (Inl NodeIo, n)
                     | Some bs \<Rightarrow>
                         if digest_of sha bs \<noteq> cf_digest st then (Inl Conflict, n)
                         else if \<not> ni_activated io then (Inl NodeIo, n)
                         else (Inr (), n\<lparr>ns_provider := (ns_provider n)(dest \<mapsto> bs)\<rparr>)))))"

definition stage :: "(bytes \<Rightarrow> bytes) \<Rightarrow> node_io \<Rightarrow> str \<Rightarrow> str \<Rightarrow> node_store \<Rightarrow> (node_error, unit) result \<times> node_store" where
  "stage sha io cid home n =
     (case load_manifest cid n of
        Inl e \<Rightarrow> (Inl e, n)
      | Inr m \<Rightarrow>
          if ns_restores n cid \<noteq> None then activate_provider_state sha io m home n
          else if ns_staging n cid \<noteq> None then (Inl Conflict, n)
          else
            (case restore_manifest sha io m (ns_blobs n) of
               (Inl e, t) \<Rightarrow> (Inl e, n\<lparr>ns_staging := (ns_staging n)(cid \<mapsto> t)\<rparr>)
             | (Inr _, t) \<Rightarrow>
                 if \<not> ni_renamed io then (Inl NodeIo, n\<lparr>ns_staging := (ns_staging n)(cid \<mapsto> t)\<rparr>)
                 else
                   (case activate_provider_state sha io m home (n\<lparr>ns_restores := (ns_restores n)(cid \<mapsto> t)\<rparr>) of
                      (Inl e, n) \<Rightarrow> (Inl e, n)
                    | (Inr _, n) \<Rightarrow>
                        (case load_move cid n of
                           Inl e \<Rightarrow> (Inl e, n)
                         | Inr r \<Rightarrow> save_move io (r\<lparr>mr_phase := Staged, mr_updated_at := ni_now io\<rparr>) n))))"

section \<open>Ending a move\<close>

definition commit_move :: "node_io \<Rightarrow> str \<Rightarrow> str \<Rightarrow> str \<Rightarrow> node_store \<Rightarrow> (node_error, move_record) result \<times> node_store" where
  "commit_move io cid target lease n =
     (if trim lease = [] then (Inl BadRequest, n)
      else case load_move cid n of
          Inl e \<Rightarrow> (Inl e, n)
        | Inr r \<Rightarrow>
            if mr_phase r = Aborted then (Inl Conflict, n)
            else if mr_phase r = Committed then (if mr_lease_id r = Some lease then Inr r else Inl Conflict, n)
            else
              let r = r\<lparr>mr_phase := Committed, mr_target_node_id := Some target, mr_lease_id := Some lease, mr_updated_at := ni_now io\<rparr>
              in case save_move io r n of (Inl e, n) \<Rightarrow> (Inl e, n) | (Inr _, n) \<Rightarrow> (Inr r, n))"

definition abort_move :: "node_io \<Rightarrow> str \<Rightarrow> str \<Rightarrow> node_store \<Rightarrow> (node_error, move_record) result \<times> node_store" where
  "abort_move io cid reason n =
     (case load_move cid n of
        Inl e \<Rightarrow> (Inl e, n)
      | Inr r \<Rightarrow>
          if mr_phase r = Committed then (Inl Conflict, n)
          else
            let r = r\<lparr>mr_phase := Aborted, mr_reason := Some reason, mr_updated_at := ni_now io\<rparr>
            in case save_move io r n of (Inl e, n) \<Rightarrow> (Inl e, n) | (Inr _, n) \<Rightarrow> (Inr r, n))"

definition rollback_provider_state :: "(bytes \<Rightarrow> bytes) \<Rightarrow> checkpoint_manifest \<Rightarrow> str \<Rightarrow> node_store \<Rightarrow> (node_error, unit) result \<times> node_store" where
  "rollback_provider_state sha m home n =
     (case (cm_provider_state m, provider_state_destination m home) of
        (None, _) \<Rightarrow> (Inr (), n)
      | (Some st, Inl e) \<Rightarrow> (Inl e, n)
      | (Some st, Inr None) \<Rightarrow> (Inr (), n)
      | (Some st, Inr (Some dest)) \<Rightarrow>
          (case ns_provider n dest of
             Some bs \<Rightarrow> if digest_of sha bs = cf_digest st then (Inr (), n\<lparr>ns_provider := (ns_provider n)(dest := None)\<rparr>) else (Inr (), n)
           | None \<Rightarrow> (Inr (), n)))"

section \<open>What a checkpoint carries\<close>

text \<open>
  The files a checkpoint is meant to have, as paths of names: a file is carried when no directory on the way to it and not the file
  itself is excluded, and it is not too large.
\<close>

inductive carried :: "(str \<times> node_entry) list \<Rightarrow> str list \<Rightarrow> bytes \<Rightarrow> nat \<Rightarrow> bool" where
  carried_file: "(name, RegularFile bs mode) \<in> set es \<Longrightarrow> \<not> should_exclude name False \<Longrightarrow> length bs \<le> MAX_FILE_BYTES
    \<Longrightarrow> carried es [name] bs mode"
| carried_below: "(name, Directory children) \<in> set es \<Longrightarrow> \<not> should_exclude name True \<Longrightarrow> carried children names bs mode
    \<Longrightarrow> carried es (name # names) bs mode"

lemma carried_Nil_names [simp]: "\<not> carried es [] bs mode"
  by (simp add: carried.simps [of es "[]"])

lemma carried_step:
  "carried es (name # names) bs mode \<longleftrightarrow>
     names = [] \<and> (name, RegularFile bs mode) \<in> set es \<and> \<not> should_exclude name False \<and> length bs \<le> MAX_FILE_BYTES
     \<or> (\<exists>children. (name, Directory children) \<in> set es \<and> \<not> should_exclude name True \<and> carried children names bs mode)"
  by (subst carried.simps) blast

lemma carried_iff:
  "carried es names bs mode \<longleftrightarrow> (\<exists>name rest. names = name # rest \<and> carried es (name # rest) bs mode)"
  by (cases names) simp_all

definition path_text :: "str \<Rightarrow> str list \<Rightarrow> str" where
  "path_text rel names = foldl below rel names"

lemma path_text_Cons: "path_text rel (name # names) = path_text (below rel name) names"
  by (simp add: path_text_def)

definition file_entry :: "(bytes \<Rightarrow> bytes) \<Rightarrow> str \<Rightarrow> bytes \<Rightarrow> nat \<Rightarrow> checkpoint_file" where
  "file_entry sha path bs mode = \<lparr>cf_path = path, cf_digest = digest_of sha bs, cf_size = length bs, cf_unix_mode = Some (mode mod 512)\<rparr>"

definition carried_entries :: "(bytes \<Rightarrow> bytes) \<Rightarrow> str \<Rightarrow> (str \<times> node_entry) list \<Rightarrow> checkpoint_file set" where
  "carried_entries sha rel es = {file_entry sha (path_text rel names) bs mode |names bs mode. carried es names bs mode}"

lemma carried_cong: "set es = set es' \<Longrightarrow> carried es names bs mode = carried es' names bs mode"
  by (cases names) (simp_all add: carried_step)

lemma carried_entries_sort [simp]: "carried_entries sha rel (sort_key k es) = carried_entries sha rel es"
  unfolding carried_entries_def by (simp add: carried_cong [of "sort_key k es" es])

lemma carried_Nil [simp]: "\<not> carried [] names bs mode"
  by (cases names) (simp_all add: carried_step)

lemma carried_Cons: "carried (e # es) names bs mode \<longleftrightarrow> carried [e] names bs mode \<or> carried es names bs mode"
  by (cases names) (simp_all add: carried_step, blast)

lemma carried_single_Directory:
  "carried [(name, Directory ch)] names bs mode
     \<longleftrightarrow> \<not> should_exclude name True \<and> (\<exists>rest. names = name # rest \<and> carried ch rest bs mode)"
  by (cases names) (auto simp: carried_step)

lemma carried_single_file:
  "carried [(name, RegularFile c md)] names bs mode
     \<longleftrightarrow> \<not> should_exclude name False \<and> length c \<le> MAX_FILE_BYTES \<and> names = [name] \<and> bs = c \<and> mode = md"
  by (cases names) (auto simp: carried_step)

lemma carried_single_other: "\<not> carried [(name, SymbolicLink)] names bs mode" "\<not> carried [(name, Special)] names bs mode"
  by (cases names; simp add: carried_step)+

lemmas carried_single = carried_single_Directory carried_single_file carried_single_other

lemma carried_entries_Nil [simp]: "carried_entries sha rel [] = {}"
  by (simp add: carried_entries_def)

lemma carried_entries_Cons:
  "carried_entries sha rel (e # es) = carried_entries sha rel [e] \<union> carried_entries sha rel es"
  unfolding carried_entries_def carried_Cons [of e es] by blast

lemma carried_entries_Directory [simp]:
  "carried_entries sha rel ((name, Directory ch) # es) =
     (if should_exclude name True then {} else carried_entries sha (below rel name) ch) \<union> carried_entries sha rel es"
proof -
  have "carried_entries sha rel [(name, Directory ch)] = (if should_exclude name True then {} else carried_entries sha (below rel name) ch)"
    unfolding carried_entries_def carried_single
    by (cases "should_exclude name True") (simp_all, intro Collect_cong, metis path_text_Cons)
  then show ?thesis
    by (subst carried_entries_Cons) simp
qed

lemma carried_entries_file [simp]:
  "carried_entries sha rel ((name, RegularFile bs mode) # es) =
     (if should_exclude name False \<or> length bs > MAX_FILE_BYTES then {} else {file_entry sha (below rel name) bs mode}) \<union> carried_entries sha rel es"
  by (subst carried_entries_Cons) (auto simp: carried_entries_def carried_single path_text_def)

lemma carried_entries_other [simp]:
  "carried_entries sha rel ((name, SymbolicLink) # es) = carried_entries sha rel es"
  "carried_entries sha rel ((name, Special) # es) = carried_entries sha rel es"
  by (subst carried_entries_Cons, simp add: carried_entries_def carried_single)+

subsection \<open>Blobs are what they are called\<close>

definition blobs_ok :: "(bytes \<Rightarrow> bytes) \<Rightarrow> (str \<rightharpoonup> bytes) \<Rightarrow> bool" where
  "blobs_ok sha blobs \<longleftrightarrow> (\<forall>d bs. blobs d = Some bs \<longrightarrow> digest_of sha bs = d)"

lemma store_file_effect:
  assumes "store_file sha copy_of relative bs mode blobs = (r, blobs')"
  shows store_file_ok: "blobs_ok sha blobs \<Longrightarrow> blobs_ok sha blobs'"
    and store_file_grows: "blobs \<subseteq>\<^sub>m blobs'"
    and store_file_entry: "r = Inr e \<Longrightarrow> e = file_entry sha relative bs mode \<and> blobs' (cf_digest e) \<noteq> None"
  using assms
  by (auto simp: store_file_def blobs_ok_def map_le_def file_entry_def Let_def split: sum.splits if_splits)

lemma walk_file_effect:
  assumes "walk_file sha copy_of relative bs mode s = (r, s')"
  shows walk_file_ok: "blobs_ok sha (ws_blobs s) \<Longrightarrow> blobs_ok sha (ws_blobs s')"
    and walk_file_grows: "ws_blobs s \<subseteq>\<^sub>m ws_blobs s'"
    and walk_file_entry: "r = Inr u \<Longrightarrow> \<exists>added. ws_files s' = ws_files s @ added
       \<and> set added = (if length bs > MAX_FILE_BYTES then {} else {file_entry sha relative bs mode})
       \<and> (\<forall>e \<in> set added. ws_blobs s' (cf_digest e) \<noteq> None)"
proof -
  obtain r1 b1 where store: "store_file sha copy_of relative bs mode (ws_blobs s) = (r1, b1)"
    by fastforce
  note eff = store_file_effect [OF store]
  show "blobs_ok sha (ws_blobs s) \<Longrightarrow> blobs_ok sha (ws_blobs s')" "ws_blobs s \<subseteq>\<^sub>m ws_blobs s'"
    using assms eff(1,2) by (auto simp: walk_file_def exclude_def Let_def store split: if_splits sum.splits)
  show "r = Inr u \<Longrightarrow> \<exists>added. ws_files s' = ws_files s @ added
       \<and> set added = (if length bs > MAX_FILE_BYTES then {} else {file_entry sha relative bs mode})
       \<and> (\<forall>e \<in> set added. ws_blobs s' (cf_digest e) \<noteq> None)"
    using assms eff(3) by (auto simp: walk_file_def exclude_def Let_def store split: if_splits sum.splits)
qed

lemma map_le_not_None: "m \<subseteq>\<^sub>m m' \<Longrightarrow> \<forall>e \<in> A. m (f e) \<noteq> None \<Longrightarrow> \<forall>e \<in> A. m' (f e) \<noteq> None"
  by (metis domIff map_le_def)

lemma walk_workspace_blobs:
  assumes "walk_workspace sha copy_of rel es s = (r, s')"
  shows "(blobs_ok sha (ws_blobs s) \<longrightarrow> blobs_ok sha (ws_blobs s')) \<and> ws_blobs s \<subseteq>\<^sub>m ws_blobs s'"
  using assms
proof (induction sha copy_of rel es s arbitrary: r s' rule: walk_workspace.induct)
  case (2 sha copy_of rel name children es s)
  show ?case
  proof (cases "should_exclude name True")
    case False
    obtain r1 s1 where "walk_workspace sha copy_of (below rel name) (sort_key fst children) s = (r1, s1)"
      by fastforce
    with 2 False show ?thesis
      by (auto split: sum.splits intro: map_le_trans)
  qed (use 2 in \<open>simp add: exclude_def\<close>)
next
  case (3 sha copy_of rel name bs mode es s)
  show ?case
  proof (cases "should_exclude name False")
    case False
    obtain r1 s1 where w: "walk_file sha copy_of (below rel name) bs mode s = (r1, s1)"
      by fastforce
    with 3 False walk_file_ok [OF w] walk_file_grows [OF w] show ?thesis
      by (auto split: sum.splits intro: map_le_trans)
  qed (use 3 in \<open>simp add: exclude_def\<close>)
qed (simp_all add: exclude_def)

lemma walk_workspace_files:
  assumes "walk_workspace sha copy_of rel es s = (Inr u, s')"
  shows "\<exists>added. ws_files s' = ws_files s @ added \<and> set added = carried_entries sha rel es
    \<and> (\<forall>e \<in> set added. ws_blobs s' (cf_digest e) \<noteq> None)"
  using assms
proof (induction sha copy_of rel es s arbitrary: u s' rule: walk_workspace.induct)
  case (2 sha copy_of rel name children es s)
  show ?case
  proof (cases "should_exclude name True")
    case False
    then obtain s1 where s1: "walk_workspace sha copy_of (below rel name) (sort_key fst children) s = (Inr (), s1)"
      and rest: "walk_workspace sha copy_of rel es s1 = (Inr u, s')"
      using 2(4) by (auto split: prod.splits sum.splits)
    from 2(2) [OF False s1] obtain a where a: "ws_files s1 = ws_files s @ a" "set a = carried_entries sha (below rel name) children"
      "\<forall>e \<in> set a. ws_blobs s1 (cf_digest e) \<noteq> None"
      by auto
    from 2(3) [OF False s1 [symmetric] _ rest] obtain b where b: "ws_files s' = ws_files s1 @ b" "set b = carried_entries sha rel es"
      "\<forall>e \<in> set b. ws_blobs s' (cf_digest e) \<noteq> None"
      by auto
    have "\<forall>e \<in> set a. ws_blobs s' (cf_digest e) \<noteq> None"
      by (rule map_le_not_None [of "ws_blobs s1" _ _ cf_digest, OF _ a(3)]) (use walk_workspace_blobs [OF rest] in simp)
    with a(1,2) b False show ?thesis
      by (intro exI [of _ "a @ b"]) auto
  qed (use 2 in \<open>simp add: exclude_def\<close>)
next
  case (3 sha copy_of rel name bs mode es s)
  show ?case
  proof (cases "should_exclude name False")
    case False
    then obtain s1 where s1: "walk_file sha copy_of (below rel name) bs mode s = (Inr (), s1)"
      and rest: "walk_workspace sha copy_of rel es s1 = (Inr u, s')"
      using 3(3) by (auto split: prod.splits sum.splits)
    from walk_file_entry [OF s1 refl] obtain a where a: "ws_files s1 = ws_files s @ a"
      "set a = (if length bs > MAX_FILE_BYTES then {} else {file_entry sha (below rel name) bs mode})"
      "\<forall>e \<in> set a. ws_blobs s1 (cf_digest e) \<noteq> None"
      by auto
    from 3(2) [OF False s1 [symmetric] _ rest] obtain b where b: "ws_files s' = ws_files s1 @ b" "set b = carried_entries sha rel es"
      "\<forall>e \<in> set b. ws_blobs s' (cf_digest e) \<noteq> None"
      by auto
    have "\<forall>e \<in> set a. ws_blobs s' (cf_digest e) \<noteq> None"
      by (rule map_le_not_None [of "ws_blobs s1" _ _ cf_digest, OF _ a(3)]) (use walk_workspace_blobs [OF rest] in simp)
    with a(1,2) b False show ?thesis
      by (intro exI [of _ "a @ b"]) auto
  qed (use 3 in \<open>simp add: exclude_def\<close>)
qed (simp_all add: exclude_def)

text \<open>Whatever the outcome, only carried files are stored.\<close>

lemma store_file_dom: "store_file sha copy_of relative bs mode blobs = (r, blobs') \<Longrightarrow> dom blobs' \<subseteq> dom blobs \<union> {digest_of sha bs}"
  by (auto simp: store_file_def Let_def split: sum.splits if_splits)

lemma walk_file_dom:
  assumes "walk_file sha copy_of relative bs mode s = (r, s')"
  shows "dom (ws_blobs s') \<subseteq> dom (ws_blobs s) \<union> (if length bs > MAX_FILE_BYTES then {} else {digest_of sha bs})"
proof -
  obtain r1 b1 where store: "store_file sha copy_of relative bs mode (ws_blobs s) = (r1, b1)"
    by fastforce
  have "ws_blobs s' = ws_blobs s \<or> \<not> length bs > MAX_FILE_BYTES \<and> ws_blobs s' = b1"
    using assms by (auto simp: walk_file_def exclude_def Let_def store split: if_splits sum.splits)
  then show ?thesis
    using store_file_dom [OF store] by (elim disjE) simp_all
qed

lemma walk_workspace_dom:
  assumes "walk_workspace sha copy_of rel es s = (r, s')"
  shows "dom (ws_blobs s') \<subseteq> dom (ws_blobs s) \<union> cf_digest ` carried_entries sha rel es"
  using assms
proof (induction sha copy_of rel es s arbitrary: r s' rule: walk_workspace.induct)
  case (2 sha copy_of rel name children es s)
  show ?case
  proof (cases "should_exclude name True")
    case False
    obtain r1 s1 where s1: "walk_workspace sha copy_of (below rel name) (sort_key fst children) s = (r1, s1)"
      by fastforce
    have first: "dom (ws_blobs s1) \<subseteq> dom (ws_blobs s) \<union> cf_digest ` carried_entries sha (below rel name) children"
      using 2(2) [OF False s1] by simp
    show ?thesis
    proof (cases r1)
      case (Inl e)
      then show ?thesis
        using first 2(4) False s1 by (simp add: image_Un) blast
    next
      case (Inr u)
      then have "dom (ws_blobs s') \<subseteq> dom (ws_blobs s1) \<union> cf_digest ` carried_entries sha rel es"
        using 2(3) [OF False s1 [symmetric] Inr] 2(4) False s1 by simp
      then show ?thesis
        using first False by (simp add: image_Un) blast
    qed
  qed (use 2 in \<open>simp add: exclude_def\<close>)
next
  case (3 sha copy_of rel name bs mode es s)
  show ?case
  proof (cases "should_exclude name False")
    case False
    obtain r1 s1 where w: "walk_file sha copy_of (below rel name) bs mode s = (r1, s1)"
      by fastforce
    have first: "dom (ws_blobs s1) \<subseteq> dom (ws_blobs s) \<union> cf_digest ` carried_entries sha rel ((name, RegularFile bs mode) # es)"
      using False walk_file_dom [OF w] by (simp add: file_entry_def split: if_splits) blast+
    show ?thesis
    proof (cases r1)
      case (Inl e)
      then show ?thesis
        using first 3(3) False w by simp
    next
      case (Inr u)
      then have "dom (ws_blobs s') \<subseteq> dom (ws_blobs s1) \<union> cf_digest ` carried_entries sha rel es"
        using 3(2) [OF False w [symmetric] Inr] 3(3) False w by simp
      moreover have "cf_digest ` carried_entries sha rel es \<subseteq> cf_digest ` carried_entries sha rel ((name, RegularFile bs mode) # es)"
        using carried_entries_Cons [of sha rel "(name, RegularFile bs mode)" es] by blast
      ultimately show ?thesis
        using first by blast
    qed
  qed (use 3 in \<open>simp add: exclude_def\<close>)
qed (simp_all add: exclude_def)

lemma prepare_provider_state_effect:
  assumes "prepare_provider_state sha w params blobs = (ps, blobs')"
  shows "blobs_ok sha blobs \<Longrightarrow> blobs_ok sha blobs'" "blobs \<subseteq>\<^sub>m blobs'"
    "ps = Some e \<Longrightarrow> blobs' (cf_digest e) \<noteq> None \<and> cf_path e = lit ''provider/session.jsonl''"
    "ps = None \<Longrightarrow> blobs' = blobs" "ps = Some e \<Longrightarrow> dom blobs' \<subseteq> insert (cf_digest e) (dom blobs)"
proof -
  have err: "blobs' = blobs" if "store_file sha copy_of rel bs mode blobs = (Inl err, blobs')" for copy_of rel bs mode err blobs'
    using that by (auto simp: store_file_def Let_def split: sum.splits if_splits)
  note cases = assms [unfolded prepare_provider_state_def] err
  show "blobs_ok sha blobs \<Longrightarrow> blobs_ok sha blobs'"
    using cases(1) by (auto split: option.splits sum.splits prod.splits dest: store_file_ok)
  show "blobs \<subseteq>\<^sub>m blobs'"
    using cases(1) by (auto split: option.splits sum.splits prod.splits dest: store_file_grows)
  show "ps = Some e \<Longrightarrow> blobs' (cf_digest e) \<noteq> None \<and> cf_path e = lit ''provider/session.jsonl''"
    using cases(1) store_file_entry by (fastforce simp: file_entry_def split: option.splits sum.splits prod.splits)
  show "ps = None \<Longrightarrow> blobs' = blobs"
    using cases(1) by (auto split: option.splits sum.splits prod.splits dest: err)
  show "ps = Some e \<Longrightarrow> dom blobs' \<subseteq> insert (cf_digest e) (dom blobs)"
    using cases(1) store_file_entry store_file_dom by (fastforce simp: file_entry_def split: option.splits sum.splits prod.splits)
qed

end
