(* ===== verification/Checkpoint_History.thy ===== *)
theory Checkpoint_History
  imports Checkpoint
begin

text \<open>
  The properties of the checkpoint store of \<^verbatim>\<open>Checkpoint\<close>: what a checkpoint carries, what every history of requests keeps of
  the store, what staging restores, and how a move ends.
\<close>

section \<open>Taking a checkpoint\<close>

lemma save_manifest_Inr:
  "save_manifest io m n = (Inr u, n') \<longleftrightarrow>
     validate_manifest m = Inr () \<and> ni_manifest_written io \<and> n' = n\<lparr>ns_manifests := (ns_manifests n)(cm_checkpoint_id m \<mapsto> m)\<rparr>"
  by (auto simp: save_manifest_def split: sum.splits)

lemma save_manifest_Inl: "save_manifest io m n = (Inl e, n') \<Longrightarrow> n' = n"
  by (auto simp: save_manifest_def split: sum.splits if_splits)

lemma save_move_Inr:
  "save_move io r n = (Inr u, n') \<longleftrightarrow> ni_move_written io \<and> n' = n\<lparr>ns_moves := (ns_moves n)(mr_checkpoint_id r \<mapsto> r)\<rparr>"
  by (auto simp: save_move_def)

lemma save_move_Inl: "save_move io r n = (Inl e, n') \<Longrightarrow> n' = n"
  by (auto simp: save_move_def split: if_splits)

lemma prepare_success:
  assumes "prepare sha w params io n = (Inr m, n')"
  obtains path entries drawn s blobs where
    "pw_workspace w = Some (path, entries)" "pw_random w = Some drawn"
    "walk_workspace sha (pw_copy_of w) [] (sort_key fst entries)
       \<lparr>ws_files = [], ws_excluded = [], ws_total = 0, ws_blobs = ns_blobs n\<rparr> = (Inr (), s)"
    "prepare_provider_state sha w params (ws_blobs s) = (cm_provider_state m, blobs)"
    "cm_files m = ws_files s" "cm_checkpoint_id m = lit ''cp-'' @ hex_encode drawn" "cm_source_node_id m = ns_node_id n"
    "cm_session_id m = pp_session_id params" "cm_provider_session_id m = pp_provider_session_id params"
    "validate_manifest m = Inr ()"
    "n' = n\<lparr>ns_blobs := blobs, ns_manifests := (ns_manifests n)(cm_checkpoint_id m \<mapsto> m),
       ns_moves := (ns_moves n)(cm_checkpoint_id m \<mapsto> \<lparr>mr_checkpoint_id = cm_checkpoint_id m, mr_session_id = pp_session_id params,
         mr_source_node_id = ns_node_id n, mr_target_node_id = None, mr_phase = Prepared, mr_lease_id = None, mr_reason = None,
         mr_updated_at = ni_now io\<rparr>)\<rparr>"
proof -
  obtain path entries drawn where w: "pw_workspace w = Some (path, entries)" "pw_random w = Some drawn"
    using assms by (auto simp: prepare_def split: option.splits)
  obtain r s where walk: "walk_workspace sha (pw_copy_of w) [] (sort_key fst entries)
      \<lparr>ws_files = [], ws_excluded = [], ws_total = 0, ws_blobs = ns_blobs n\<rparr> = (r, s)"
    by fastforce
  obtain ps blobs where ps: "prepare_provider_state sha w params (ws_blobs s) = (ps, blobs)"
    by fastforce
  have r: "r = Inr ()"
    using assms by (cases r) (simp_all add: prepare_def w walk)
  show thesis
    using assms ps by (intro that [OF w walk [unfolded r], of blobs])
      (auto simp: prepare_def w walk r Let_def save_manifest_Inr save_move_Inr split: sum.splits prod.splits)
qed

lemma blobs_after_prepare:
  assumes "prepare sha w params io n = (r, n')"
  shows "blobs_ok sha (ns_blobs n) \<Longrightarrow> blobs_ok sha (ns_blobs n')" "ns_blobs n \<subseteq>\<^sub>m ns_blobs n'"
proof -
  have "n' = n \<or> (\<exists>es r s. walk_workspace sha (pw_copy_of w) [] es \<lparr>ws_files = [], ws_excluded = [], ws_total = 0, ws_blobs = ns_blobs n\<rparr> = (r, s)
      \<and> (ns_blobs n' = ws_blobs s \<or> (\<exists>ps. prepare_provider_state sha w params (ws_blobs s) = (ps, ns_blobs n'))))"
    using assms unfolding prepare_def Let_def save_manifest_def save_move_def
    by (fastforce split: option.splits prod.splits sum.splits if_splits)
  then have "(blobs_ok sha (ns_blobs n) \<longrightarrow> blobs_ok sha (ns_blobs n')) \<and> ns_blobs n \<subseteq>\<^sub>m ns_blobs n'"
    by (elim disjE exE conjE) (auto dest!: walk_workspace_blobs dest: prepare_provider_state_effect(1,2) intro: map_le_trans)
  then show "blobs_ok sha (ns_blobs n) \<Longrightarrow> blobs_ok sha (ns_blobs n')" "ns_blobs n \<subseteq>\<^sub>m ns_blobs n'"
    by simp_all
qed

lemma prepare_files:
  assumes "prepare sha w params io n = (Inr m, n')" "pw_workspace w = Some (path, entries)"
  shows "set (cm_files m) = carried_entries sha [] entries"
    and "\<forall>e \<in> set (manifest_entries m). ns_blobs n' (cf_digest e) \<noteq> None"
    and "dom (ns_blobs n') \<subseteq> dom (ns_blobs n) \<union> cf_digest ` set (manifest_entries m)"
    and "cm_provider_state m = Some e \<Longrightarrow> cf_path e = lit ''provider/session.jsonl''"
proof -
  from assms(1) obtain s blobs where
    walk: "walk_workspace sha (pw_copy_of w) [] (sort_key fst entries)
       \<lparr>ws_files = [], ws_excluded = [], ws_total = 0, ws_blobs = ns_blobs n\<rparr> = (Inr (), s)"
    and ps: "prepare_provider_state sha w params (ws_blobs s) = (cm_provider_state m, blobs)"
    and m: "cm_files m = ws_files s" and n': "ns_blobs n' = blobs"
    by (rule prepare_success) (simp add: assms(2))
  show files: "set (cm_files m) = carried_entries sha [] entries"
    using walk_workspace_files [OF walk] m by auto
  have in_walk: "\<forall>e \<in> set (cm_files m). ws_blobs s (cf_digest e) \<noteq> None"
    using walk_workspace_files [OF walk] m by auto
  have "\<forall>e \<in> set (cm_files m). blobs (cf_digest e) \<noteq> None"
    by (rule map_le_not_None [of "ws_blobs s" _ _ cf_digest, OF prepare_provider_state_effect(2) [OF ps] in_walk])
  then show "\<forall>e \<in> set (manifest_entries m). ns_blobs n' (cf_digest e) \<noteq> None"
    using prepare_provider_state_effect(3) [OF ps] by (auto simp: manifest_entries_def n' split: option.splits)
  have "dom (ws_blobs s) \<subseteq> dom (ns_blobs n) \<union> cf_digest ` set (cm_files m)"
    using walk_workspace_dom [OF walk] files by simp
  then show "dom (ns_blobs n') \<subseteq> dom (ns_blobs n) \<union> cf_digest ` set (manifest_entries m)"
    using prepare_provider_state_effect(4,5) [OF ps]
    by (cases "cm_provider_state m") (simp_all add: manifest_entries_def n' image_Un, blast)
  show "cm_provider_state m = Some e \<Longrightarrow> cf_path e = lit ''provider/session.jsonl''"
    using prepare_provider_state_effect(3) [OF ps] by simp
qed


section \<open>Histories of a store\<close>

definition empty_node :: "str \<Rightarrow> node_store" where
  "empty_node nid = \<lparr>ns_node_id = nid, ns_blobs = Map.empty, ns_partials = Map.empty, ns_manifests = Map.empty, ns_moves = Map.empty,
     ns_staging = Map.empty, ns_restores = Map.empty, ns_provider = Map.empty\<rparr>"

text \<open>Every request a node takes, with any outcome of what it asks of the system.\<close>

inductive node_history :: "(bytes \<Rightarrow> bytes) \<Rightarrow> node_store \<Rightarrow> bool" for sha where
  hist_new: "node_history sha (empty_node nid)"
| hist_prepare: "node_history sha n \<Longrightarrow> node_history sha (snd (prepare sha w params io n))"
| hist_put_manifest: "node_history sha n \<Longrightarrow> node_history sha (snd (put_manifest io m n))"
| hist_put_blob: "node_history sha n \<Longrightarrow> node_history sha (snd (put_blob sha io c n))"
| hist_stage: "node_history sha n \<Longrightarrow> node_history sha (snd (stage sha io cid home n))"
| hist_commit: "node_history sha n \<Longrightarrow> node_history sha (snd (commit_move io cid target lease n))"
| hist_abort: "node_history sha n \<Longrightarrow> node_history sha (snd (abort_move io cid reason n))"
| hist_rollback: "node_history sha n \<Longrightarrow> node_history sha (snd (rollback_provider_state sha m home n))"

definition move_ok :: "str \<Rightarrow> move_record \<Rightarrow> bool" where
  "move_ok cid r \<longleftrightarrow> mr_checkpoint_id r = cid \<and> (mr_phase r = Committed \<longrightarrow> mr_lease_id r \<noteq> None \<and> mr_target_node_id r \<noteq> None)"

definition store_ok :: "(bytes \<Rightarrow> bytes) \<Rightarrow> node_store \<Rightarrow> bool" where
  "store_ok sha n \<longleftrightarrow>
     blobs_ok sha (ns_blobs n)
     \<and> (\<forall>cid m. ns_manifests n cid = Some m \<longrightarrow> cm_checkpoint_id m = cid \<and> validate_manifest m = Inr ())
     \<and> (\<forall>cid r. ns_moves n cid = Some r \<longrightarrow> move_ok cid r \<and> ns_manifests n cid \<noteq> None)"

lemma store_okI_same:
  "store_ok sha n \<Longrightarrow> ns_blobs n' = ns_blobs n \<Longrightarrow> ns_manifests n' = ns_manifests n \<Longrightarrow> ns_moves n' = ns_moves n \<Longrightarrow> store_ok sha n'"
  by (simp add: store_ok_def)

lemma store_ok_blobs: "store_ok sha n \<Longrightarrow> blobs_ok sha blobs \<Longrightarrow> store_ok sha (n\<lparr>ns_blobs := blobs\<rparr>)"
  by (simp add: store_ok_def)

lemma store_ok_save_manifest: "store_ok sha n \<Longrightarrow> store_ok sha (snd (save_manifest io m n))"
  by (auto simp: store_ok_def save_manifest_def split: sum.splits)

lemma store_ok_save_move:
  "store_ok sha n \<Longrightarrow> move_ok (mr_checkpoint_id r) r \<Longrightarrow> ns_manifests n (mr_checkpoint_id r) \<noteq> None \<Longrightarrow> store_ok sha (snd (save_move io r n))"
  by (auto simp: store_ok_def save_move_def)

lemma load_move_Inr: "load_move cid n = Inr r \<Longrightarrow> ns_moves n cid = Some r"
  by (auto simp: load_move_def and_then_def split: sum.splits option.splits)

lemma load_manifest_Inr: "load_manifest cid n = Inr m \<Longrightarrow> ns_manifests n cid = Some m"
  by (auto simp: load_manifest_def and_then_def split: sum.splits option.splits)

lemma store_ok_prepare: "store_ok sha n \<Longrightarrow> store_ok sha (snd (prepare sha w params io n))"
proof -
  assume ok: "store_ok sha n"
  obtain r n' where p: "prepare sha w params io n = (r, n')"
    by fastforce
  have blobs: "blobs_ok sha (ns_blobs n')"
    using blobs_after_prepare(1) [OF p] ok by (simp add: store_ok_def)
  show ?thesis
  proof (cases r)
    case (Inr m)
    with p have "prepare sha w params io n = (Inr m, n')"
      by simp
    then show ?thesis
      by (rule prepare_success) (use ok blobs p in \<open>auto simp: store_ok_def move_ok_def\<close>)
  next
    case (Inl e)
    have "ns_moves n' = ns_moves n \<and> (ns_manifests n' = ns_manifests n
        \<or> (\<exists>m. validate_manifest m = Inr () \<and> ns_manifests n' = (ns_manifests n)(cm_checkpoint_id m \<mapsto> m)))"
      using p Inl unfolding prepare_def Let_def save_manifest_def save_move_def
      by (fastforce split: option.splits prod.splits sum.splits if_splits)
    with ok blobs p show ?thesis
      by (auto simp: store_ok_def split: if_splits)
  qed
qed

lemma store_ok_put_manifest: "store_ok sha n \<Longrightarrow> store_ok sha (snd (put_manifest io m n))"
  by (auto simp: put_manifest_def save_manifest_def save_move_def store_ok_def move_ok_def split: sum.splits prod.splits if_splits)

lemma store_ok_put_blob: "store_ok sha n \<Longrightarrow> store_ok sha (snd (put_blob sha io c n))"
  by (auto simp: put_blob_def Let_def store_ok_def blobs_ok_def split: sum.splits option.splits)

lemma activate_provider_state_effect:
  "activate_provider_state sha io m home n = (r, n') \<Longrightarrow> \<exists>p. n' = n\<lparr>ns_provider := p\<rparr>"
  by (auto simp: activate_provider_state_def split: option.splits sum.splits if_splits)
    (metis node_store.surjective node_store.update_convs(8))+

lemma store_ok_activate: "store_ok sha n \<Longrightarrow> store_ok sha (snd (activate_provider_state sha io m home n))"
  using activate_provider_state_effect [of sha io m home n] by (cases "activate_provider_state sha io m home n") (auto simp: store_ok_def)

text \<open>The ways in which staging succeeds.\<close>

lemma stage_success:
  assumes "stage sha io cid home n = (Inr u, n')"
  obtains (again) m where "load_manifest cid n = Inr m" "ns_restores n cid \<noteq> None" "activate_provider_state sha io m home n = (Inr (), n')"
  | (fresh) m t n1 r where "load_manifest cid n = Inr m" "ns_restores n cid = None" "ns_staging n cid = None"
      "restore_manifest sha io m (ns_blobs n) = (Inr (), t)"
      "activate_provider_state sha io m home (n\<lparr>ns_restores := (ns_restores n)(cid \<mapsto> t)\<rparr>) = (Inr (), n1)"
      "load_move cid n1 = Inr r"
      "n' = n1\<lparr>ns_moves := (ns_moves n1)(mr_checkpoint_id r \<mapsto> r\<lparr>mr_phase := Staged, mr_updated_at := ni_now io\<rparr>)\<rparr>"
proof -
  obtain m where m: "load_manifest cid n = Inr m"
    using assms by (auto simp: stage_def split: sum.splits)
  obtain r t where rest: "restore_manifest sha io m (ns_blobs n) = (r, t)"
    by fastforce
  obtain r1 n1 where act: "activate_provider_state sha io m home (n\<lparr>ns_restores := (ns_restores n)(cid \<mapsto> t)\<rparr>) = (r1, n1)"
    by fastforce
  show thesis
  proof (cases "ns_restores n cid")
    case None
    then obtain r2 where "load_move cid n1 = Inr r2"
      using assms m rest act by (auto simp: stage_def split: sum.splits if_splits)
    with None assms m rest act show thesis
      by (intro fresh [of m t n1 r2]) (auto simp: stage_def save_move_Inr split: sum.splits if_splits)
  qed (use assms m again in \<open>auto simp: stage_def\<close>)
qed

lemma store_ok_stage: "store_ok sha n \<Longrightarrow> store_ok sha (snd (stage sha io cid home n))"
proof -
  assume ok: "store_ok sha n"
  have restored: "store_ok sha (n\<lparr>ns_restores := f\<rparr>)" "store_ok sha (n\<lparr>ns_staging := f\<rparr>)" for f
    using ok by (auto intro: store_okI_same)
  have staged: "store_ok sha (snd (save_move io (r\<lparr>mr_phase := Staged, mr_updated_at := t\<rparr>) n1))"
    if "store_ok sha n1" "load_move cid n1 = Inr r" for n1 r t
    using that load_move_Inr [OF that(2)] by (intro store_ok_save_move) (auto simp: store_ok_def move_ok_def)
  have "store_ok sha n1" if "activate_provider_state sha io m home n0 = (r, n1)" "store_ok sha n0" for r n0 n1 m
    using store_ok_activate [OF that(2), of io m home] that(1) by simp
  then show ?thesis
    using ok restored staged by (auto simp: stage_def store_ok_activate split: sum.splits prod.splits)
qed

lemma store_ok_commit: "store_ok sha n \<Longrightarrow> store_ok sha (snd (commit_move io cid target lease n))"
  by (auto simp: commit_move_def Let_def save_move_def store_ok_def move_ok_def split: sum.splits prod.splits if_splits dest!: load_move_Inr)

lemma store_ok_abort: "store_ok sha n \<Longrightarrow> store_ok sha (snd (abort_move io cid reason n))"
  by (auto simp: abort_move_def Let_def save_move_def store_ok_def move_ok_def split: sum.splits prod.splits if_splits dest!: load_move_Inr)

lemma store_ok_rollback: "store_ok sha n \<Longrightarrow> store_ok sha (snd (rollback_provider_state sha m home n))"
  by (auto simp: rollback_provider_state_def intro: store_okI_same split: option.splits sum.splits)

lemmas store_ok_operations = store_ok_prepare store_ok_put_manifest store_ok_put_blob store_ok_stage store_ok_commit store_ok_abort
  store_ok_rollback

lemma node_history_ok: "node_history sha n \<Longrightarrow> store_ok sha n"
  by (induction rule: node_history.induct) (simp_all add: store_ok_operations, simp add: store_ok_def blobs_ok_def empty_node_def)

text \<open>
  Claim C17. In every history of requests, whatever fails on the way, each stored blob hashes to the digest it is stored under, each manifest is
  valid and stored under its own identifier, each record of a move is stored under its identifier beside the manifest of its checkpoint,
  and a committed move names its lease and its target.
\<close>

theorem checkpoint_store_sound:
  assumes "node_history sha n"
  shows "(\<forall>d bs. ns_blobs n d = Some bs \<longrightarrow> digest_of sha bs = d)
    \<and> (\<forall>cid m. ns_manifests n cid = Some m \<longrightarrow> cm_checkpoint_id m = cid \<and> validate_manifest m = Inr ())
    \<and> (\<forall>cid r. ns_moves n cid = Some r \<longrightarrow> mr_checkpoint_id r = cid \<and> ns_manifests n cid \<noteq> None
         \<and> (mr_phase r = Committed \<longrightarrow> mr_lease_id r \<noteq> None \<and> mr_target_node_id r \<noteq> None))"
  using node_history_ok [OF assms] by (simp add: store_ok_def blobs_ok_def move_ok_def)

section \<open>What staging restores\<close>

definition restored_path :: "str list \<Rightarrow> checkpoint_file \<Rightarrow> str list" where
  "restored_path base e = base @ path_components (cf_path e)"

lemma restore_file_Inr:
  assumes "restore_file sha io base e blobs t = (Inr u, t')"
  obtains bs where "blobs (cf_digest e) = Some bs" "digest_of sha bs = cf_digest e"
    "map_of t' = (map_of t)(restored_path base e \<mapsto> (bs, cf_unix_mode e))"
  using assms by (auto simp: restore_file_def restored_path_def Let_def update_conv' split: sum.splits option.splits if_splits)

lemma restore_files_other:
  "restore_files sha io base es blobs t = (Inr u, t') \<Longrightarrow> p \<notin> restored_path base ` set es \<Longrightarrow> map_of t' p = map_of t p"
proof (induction es arbitrary: t)
  case (Cons e es)
  then obtain t1 where t1: "restore_file sha io base e blobs t = (Inr (), t1)" "restore_files sha io base es blobs t1 = (Inr u, t')"
    by (auto split: prod.splits sum.splits)
  with Cons have "map_of t' p = map_of t1 p"
    by simp
  with t1(1) Cons.prems(2) show ?case
    by (auto elim!: restore_file_Inr)
qed simp

lemma restore_files_entry:
  assumes "restore_files sha io base es blobs t = (Inr u, t')" "e \<in> set es"
    and "\<And>e'. e' \<in> set es \<Longrightarrow> restored_path base e' = restored_path base e \<Longrightarrow> e' = e"
  shows "\<exists>bs. blobs (cf_digest e) = Some bs \<and> digest_of sha bs = cf_digest e \<and> map_of t' (restored_path base e) = Some (bs, cf_unix_mode e)"
  using assms
proof (induction es arbitrary: t)
  case (Cons f es)
  then obtain t1 where t1: "restore_file sha io base f blobs t = (Inr (), t1)" "restore_files sha io base es blobs t1 = (Inr u, t')"
    by (auto split: prod.splits sum.splits)
  show ?case
  proof (cases "e \<in> set es")
    case True
    with Cons t1(2) show ?thesis
      by auto
  next
    case False
    then have "f = e"
      using Cons.prems(2) by simp
    moreover have "restored_path base e \<notin> restored_path base ` set es"
    proof
      assume "restored_path base e \<in> restored_path base ` set es"
      then obtain e' where "e' \<in> set es" "restored_path base e' = restored_path base e"
        by auto
      with Cons.prems(3) [of e'] False show False
        by simp
    qed
    then have "map_of t' (restored_path base e) = map_of t1 (restored_path base e)"
      by (rule restore_files_other [OF t1(2)])
    moreover obtain bs where "blobs (cf_digest f) = Some bs" "digest_of sha bs = cf_digest f"
      "map_of t1 = (map_of t)(restored_path base f \<mapsto> (bs, cf_unix_mode f))"
      using t1(1) by (rule restore_file_Inr)
    ultimately show ?thesis
      by simp
  qed
qed simp

subsection \<open>Names and paths\<close>

text \<open>What a file system promises of a directory: names are not empty, have no slash, are not a dot or two dots, and occur once.\<close>

definition name_ok :: "str \<Rightarrow> bool" where
  "name_ok name \<longleftrightarrow> name \<noteq> [] \<and> 47 \<notin> set name \<and> name \<noteq> lit ''.'' \<and> name \<noteq> lit ''..''"

fun tree_ok :: "(str \<times> node_entry) list \<Rightarrow> bool" where
  "tree_ok [] \<longleftrightarrow> True"
| "tree_ok ((name, Directory children) # es) \<longleftrightarrow> name_ok name \<and> name \<notin> fst ` set es \<and> tree_ok children \<and> tree_ok es"
| "tree_ok ((name, RegularFile bs mode) # es) \<longleftrightarrow> name_ok name \<and> name \<notin> fst ` set es \<and> tree_ok es"
| "tree_ok ((name, SymbolicLink) # es) \<longleftrightarrow> name_ok name \<and> name \<notin> fst ` set es \<and> tree_ok es"
| "tree_ok ((name, Special) # es) \<longleftrightarrow> name_ok name \<and> name \<notin> fst ` set es \<and> tree_ok es"

lemma tree_ok_Cons: "tree_ok (e # es) \<longleftrightarrow> name_ok (fst e) \<and> fst e \<notin> fst ` set es \<and> tree_ok es \<and> (\<forall>ch. snd e = Directory ch \<longrightarrow> tree_ok ch)"
  by (cases e, cases "snd e") auto

lemma tree_ok_member: "tree_ok es \<Longrightarrow> (name, x) \<in> set es \<Longrightarrow> name_ok name \<and> (\<forall>ch. x = Directory ch \<longrightarrow> tree_ok ch)"
  by (induction es) (auto simp: tree_ok_Cons)

lemma tree_ok_unique: "tree_ok es \<Longrightarrow> (name, x) \<in> set es \<Longrightarrow> (name, y) \<in> set es \<Longrightarrow> x = y"
  by (induction es) (auto simp: tree_ok_Cons image_iff)

lemma carried_names_ok: "carried es names bs mode \<Longrightarrow> tree_ok es \<Longrightarrow> names \<noteq> [] \<and> list_all name_ok names"
  by (induction rule: carried.induct) (auto dest: tree_ok_member)

lemma carried_unique:
  "carried es names bs mode \<Longrightarrow> tree_ok es \<Longrightarrow> carried es names bs' mode' \<Longrightarrow> bs' = bs \<and> mode' = mode"
proof (induction arbitrary: bs' mode' rule: carried.induct)
  case (carried_file name bs mode es)
  then show ?case
    using tree_ok_unique [OF carried_file.prems(1), of name] by (fastforce simp: carried_step)
next
  case (carried_below name children es names bs mode)
  have "names \<noteq> []"
    using carried_below(3) by (cases names) simp_all
  with carried_below.prems(2) obtain ch where "(name, Directory ch) \<in> set es" "carried ch names bs' mode'"
    by (auto simp: carried_step)
  moreover have "ch = children" "tree_ok children"
    using tree_ok_unique [OF carried_below.prems(1) carried_below(1) calculation(1)] tree_ok_member [OF carried_below.prems(1) carried_below(1)]
    by auto
  ultimately show ?case
    using carried_below.IH by blast
qed

definition joined :: "str list \<Rightarrow> str" where
  "joined names = concat (map (\<lambda>n. 47 # n) names)"

lemma path_text_joined: "rel \<noteq> [] \<Longrightarrow> path_text rel names = rel @ joined names"
  by (induction names arbitrary: rel) (auto simp: path_text_def joined_def below_def)

lemma split_on_joined:
  "47 \<notin> set a \<Longrightarrow> list_all name_ok names \<Longrightarrow> split_on 47 (a @ joined names) = a # names"
proof (induction names arbitrary: a)
  case (Cons n ns)
  then show ?case
    by (simp add: joined_def split_on_append name_ok_def)
qed (simp add: joined_def split_on_single)

lemma split_on_path_text:
  assumes "names \<noteq> []" "list_all name_ok names"
  shows "split_on 47 (path_text [] names) = names"
  using assms split_on_joined [of "hd names" "tl names"]
  by (cases names) (simp_all add: path_text_Cons below_def path_text_joined name_ok_def)

lemma path_components_path_text:
  assumes "names \<noteq> []" "list_all name_ok names"
  shows "path_components (path_text [] names) = names"
  using assms(2) unfolding path_components_def split_on_path_text [OF assms]
  by (induction names) (simp_all add: name_ok_def)

lemma restored_path_entry:
  assumes "carried es names bs mode" "tree_ok es"
  shows "restored_path [] (file_entry sha (path_text [] names) bs mode) = names"
  using carried_names_ok [OF assms] by (simp add: restored_path_def file_entry_def path_components_path_text)

subsection \<open>The restored directory\<close>

text \<open>Where a checkpoint's transcript lies in the restored directory: a workspace that has a file there loses it.\<close>

definition transcript_path :: "str list" where
  "transcript_path = [lit ''.homie'', lit ''provider'', lit ''session.jsonl'']"

lemma restored_transcript: "cf_path e = lit ''provider/session.jsonl'' \<Longrightarrow> restored_path [lit ''.homie''] e = transcript_path"
  by (simp add: restored_path_def transcript_path_def path_components_def lit_def)

definition same_files :: "(bytes \<Rightarrow> bytes) \<Rightarrow> (str \<times> node_entry) list \<Rightarrow> bool \<Rightarrow> file_tree \<Rightarrow> bool" where
  "same_files sha entries transcript t \<longleftrightarrow>
     (\<forall>names bs mode. carried entries names bs mode \<and> \<not> (transcript \<and> names = transcript_path) \<longrightarrow>
        (\<exists>bs'. map_of t names = Some (bs', Some (mode mod 512)) \<and> digest_of sha bs' = digest_of sha bs))
     \<and> (\<forall>p. map_of t p \<noteq> None \<longrightarrow> (\<exists>bs mode. carried entries p bs mode) \<or> transcript \<and> p = transcript_path)"

lemma restore_manifest_exact:
  assumes rest: "restore_manifest sha io m blobs = (Inr u, t)"
    and files: "set (cm_files m) = carried_entries sha [] entries" and tree: "tree_ok entries"
    and path: "\<And>e. cm_provider_state m = Some e \<Longrightarrow> cf_path e = lit ''provider/session.jsonl''"
  shows "same_files sha entries (cm_provider_state m \<noteq> None) t"
proof -
  obtain t1 where t1: "restore_files sha io [] (cm_files m) blobs [] = (Inr (), t1)"
    "restore_files sha io [lit ''.homie''] (case cm_provider_state m of None \<Rightarrow> [] | Some e \<Rightarrow> [e]) blobs t1 = (Inr u, t)"
    using rest by (auto simp: restore_manifest_def split: prod.splits sum.splits)
  have above: "map_of t p = map_of t1 p" if "\<not> (cm_provider_state m \<noteq> None \<and> p = transcript_path)" for p
    by (rule restore_files_other [OF t1(2)]) (use that path restored_transcript in \<open>auto split: option.splits\<close>)
  have "\<exists>bs'. map_of t names = Some (bs', Some (mode mod 512)) \<and> digest_of sha bs' = digest_of sha bs"
    if c: "carried entries names bs mode" and "\<not> (cm_provider_state m \<noteq> None \<and> names = transcript_path)" for names bs mode
  proof -
    define e where "e = file_entry sha (path_text [] names) bs mode"
    have e: "e \<in> set (cm_files m)" "restored_path [] e = names"
      using c restored_path_entry [OF c tree] by (auto simp: e_def files carried_entries_def)
    have "e' = e" if e': "e' \<in> set (cm_files m)" "restored_path [] e' = restored_path [] e" for e'
    proof -
      obtain names' bs' mode' where c': "carried entries names' bs' mode'" "e' = file_entry sha (path_text [] names') bs' mode'"
        using e'(1) by (auto simp: files carried_entries_def)
      then have "names' = names"
        using restored_path_entry [OF c'(1) tree, of sha] e'(2) e(2) by simp
      then show ?thesis
        using carried_unique [OF c tree] c' by (simp add: e_def)
    qed
    from restore_files_entry [OF t1(1) e(1) this] show ?thesis
      using above [of names] that e by (auto simp: e_def file_entry_def)
  qed
  moreover have "(\<exists>bs mode. carried entries p bs mode) \<or> cm_provider_state m \<noteq> None \<and> p = transcript_path" if "map_of t p \<noteq> None" for p
  proof (rule ccontr)
    assume other: "\<not> ?thesis"
    then have "p \<notin> restored_path [] ` set (cm_files m)"
      using restored_path_entry [OF _ tree, of _ _ _ sha] by (auto simp: files carried_entries_def)
    then have "map_of t1 p = map_of [] p"
      by (rule restore_files_other [OF t1(1)])
    with other above [of p] that show False
      by simp
  qed
  ultimately show ?thesis
    by (simp add: same_files_def)
qed

section \<open>How a move ends\<close>

lemma load_move_saved: "load_move cid n = Inr r \<Longrightarrow> load_move cid (n\<lparr>ns_moves := (ns_moves n)(cid \<mapsto> r')\<rparr>) = Inr r'"
  by (auto simp: load_move_def and_then_def split: sum.splits)

lemma commit_move_Inr:
  assumes "commit_move io cid target lease n = (Inr r, n')"
  shows "mr_phase r = Committed \<and> mr_lease_id r = Some lease \<and> load_move cid n \<noteq> Inl e
    \<and> (\<forall>old. load_move cid n = Inr old \<longrightarrow> mr_phase old \<noteq> Committed \<longrightarrow> mr_target_node_id r = Some target
          \<and> mr_checkpoint_id r = mr_checkpoint_id old \<and> n' = n\<lparr>ns_moves := (ns_moves n)(mr_checkpoint_id r \<mapsto> r)\<rparr>)"
  using assms by (auto simp: commit_move_def Let_def save_move_def split: sum.splits if_splits)

text \<open>
  Staging sets the phase whatever it was: a move that was aborted, or committed under another lease, commits after a first staging.
\<close>

lemma stage_reopens_any_move:
  assumes "stage sha io cid home n = (Inr u, n')" "ns_restores n cid = None" "store_ok sha n"
    and "trim lease \<noteq> []" "ni_move_written io'"
  shows "\<exists>r n''. commit_move io' cid target lease n' = (Inr r, n'') \<and> mr_lease_id r = Some lease"
  using assms(1)
proof (cases rule: stage_success)
  case (fresh m t n1 r)
  have "mr_checkpoint_id r = cid"
    using load_move_Inr [OF fresh(6)] activate_provider_state_effect [OF fresh(5)] assms(3) by (auto simp: store_ok_def move_ok_def)
  with fresh(6,7) have "load_move cid n' = Inr (r\<lparr>mr_phase := Staged, mr_updated_at := ni_now io\<rparr>)"
    by (simp add: load_move_saved)
  with assms(4,5) show ?thesis
    by (simp add: commit_move_def save_move_def Let_def)
qed (use assms(2) in simp)

text \<open>
  An upload that was cut short, or whose digest did not agree, leaves its bytes behind, and every upload of the blob from its beginning is
  refused from then on.
\<close>

lemma partial_upload_blocks:
  assumes "ns_partials n (bc_digest c) = Some p" "p \<noteq> []" "ns_blobs n (bc_digest c) = None" "bc_offset c = 0"
  shows "\<exists>e. put_blob sha io c n = (Inl e, n)"
  using assms by (auto simp: put_blob_def Let_def split: sum.splits option.splits)

lemma mismatch_leaves_partial:
  assumes "validate_digest (bc_digest c) = Inr ()" "hex_decode (bc_hex c) = Some bs" "length bs \<le> MAX_CHUNK_BYTES"
    and "ns_blobs n (bc_digest c) = None" "ns_partials n (bc_digest c) = None" "bc_offset c = 0" "bc_eof c"
    and "ni_appended io = None" "digest_of sha bs \<noteq> bc_digest c"
  shows "put_blob sha io c n = (Inl BadRequest, n\<lparr>ns_partials := (ns_partials n)(bc_digest c \<mapsto> bs)\<rparr>)"
  using assms by (simp add: put_blob_def Let_def)

section \<open>A checkpoint of a small workspace\<close>

text \<open>
  Two nodes and a workspace with one file to carry and one secret in a directory, for the concrete instances of the properties. The
  hash stands for SHA-256: thirty-two bytes, here only the length of the text.
\<close>

definition demo_sha :: "bytes \<Rightarrow> bytes" where
  "demo_sha bs = replicate 31 0 @ [of_nat (length bs)]"

definition demo_io :: node_io where
  "demo_io = \<lparr>ni_now = 5, ni_manifest_written = True, ni_move_written = True, ni_appended = None, ni_renamed = True,
     ni_restored = (\<lambda>_. True), ni_activated = True\<rparr>"

definition demo_entries :: "(str \<times> node_entry) list" where
  "demo_entries = [(lit ''b'', Directory [(lit ''.env'', RegularFile [1] 384)]), (lit ''a'', RegularFile [7, 8] 33188)]"

definition demo_prepare_world :: prepare_world where
  "demo_prepare_world = \<lparr>pw_copy_of = (\<lambda>_ bs. bs), pw_workspace = Some (lit ''/w'', demo_entries), pw_random = Some (replicate 16 0),
     pw_home = (\<lambda>_. []), pw_modified = (\<lambda>_. None)\<rparr>"

definition demo_params :: prepare_params where
  "demo_params = \<lparr>pp_session_id = lit ''s'', pp_provider = Codex, pp_profile_id = lit ''p'', pp_workspace_root = lit ''/w'',
     pp_provider_session_id = Some (lit ''t''), pp_mode = Move\<rparr>"

definition demo_id :: str where "demo_id = lit ''cp-'' @ hex_encode (replicate 16 0)"

definition demo_manifest :: checkpoint_manifest where
  "demo_manifest = \<lparr>cm_version = 1, cm_checkpoint_id = demo_id, cm_source_node_id = lit ''n1'', cm_session_id = lit ''s'',
     cm_provider = Codex, cm_profile_id = lit ''p'', cm_workspace_root = lit ''/w'', cm_provider_session_id = Some (lit ''t''),
     cm_mode = Move, cm_created_at = 5, cm_files = [file_entry demo_sha (lit ''a'') [7, 8] 33188], cm_provider_state = None,
     cm_excluded = [lit ''b/.env'']\<rparr>"

definition demo_record :: "str option \<Rightarrow> move_phase \<Rightarrow> str option \<Rightarrow> move_record" where
  "demo_record target ph lease = \<lparr>mr_checkpoint_id = demo_id, mr_session_id = lit ''s'', mr_source_node_id = lit ''n1'',
     mr_target_node_id = target, mr_phase = ph, mr_lease_id = lease, mr_reason = None, mr_updated_at = 5\<rparr>"

definition demo_source :: node_store where
  "demo_source = (empty_node (lit ''n1''))\<lparr>ns_blobs := [digest_of demo_sha [7, 8] \<mapsto> [7, 8]],
     ns_manifests := [demo_id \<mapsto> demo_manifest], ns_moves := [demo_id \<mapsto> demo_record None Prepared None]\<rparr>"

lemma hex_encode_digits: "list_all is_hexdigit (hex_encode bs)" "length (utf8 (hex_encode bs)) = 2 * length bs"
proof -
  have "list_all (\<lambda>c. is_hexdigit c \<and> c < 128) HEX" "length HEX = 16"
    by (simp_all add: HEX_def lit_def is_hexdigit_def hex_digit_def)
  then have digit: "is_hexdigit (HEX ! n) \<and> HEX ! n < 128" if "n < 16" for n
    using that by (simp add: list_all_length)
  have "unat (drop_bit 4 b) < 16 \<and> unat (b AND 0x0f) < 16" for b :: byte
    using unsigned_less [of b, where ?'a = nat] by (simp add: nibbles)
  then show "list_all is_hexdigit (hex_encode bs)" "length (utf8 (hex_encode bs)) = 2 * length bs"
    using digit by (induction bs) (simp_all add: hex_encode_def utf8_def utf8_scalar_def)
qed

lemma validate_digest_of: "length (sha bs) = 32 \<Longrightarrow> validate_digest (digest_of sha bs) = Inr ()"
  by (simp add: validate_digest_def digest_of_def hex_encode_digits)

lemma validate_drawn_id: "length drawn = 16 \<Longrightarrow> validate_checkpoint_id (lit ''cp-'' @ hex_encode drawn) = Inr ()"
proof -
  have "length (utf8 (lit ''cp-'' @ hex_encode drawn)) = 3 + 2 * length drawn"
    using hex_encode_digits(2) [of drawn] by (simp add: utf8_def lit_def utf8_scalar_def)
  then show "length drawn = 16 \<Longrightarrow> ?thesis"
    by (simp add: validate_checkpoint_id_def starts_with_def lit_def hex_encode_digits)
qed

lemma demo_valid: "validate_checkpoint_id demo_id = Inr ()" "validate_digest (digest_of demo_sha bs) = Inr ()"
  by (simp_all add: demo_id_def validate_drawn_id validate_digest_of demo_sha_def)

lemma demo_walk:
  "walk_workspace demo_sha (\<lambda>_ bs. bs) [] (sort_key fst demo_entries) \<lparr>ws_files = [], ws_excluded = [], ws_total = 0, ws_blobs = Map.empty\<rparr>
   = (Inr (), \<lparr>ws_files = [file_entry demo_sha (lit ''a'') [7, 8] 33188], ws_excluded = [lit ''b/.env''], ws_total = 2,
       ws_blobs = [digest_of demo_sha [7, 8] \<mapsto> [7, 8]]\<rparr>)"
  by (simp add: demo_entries_def lit_def should_exclude_def excluded_directories_def secret_files_def starts_with_def below_def exclude_def
    walk_file_def store_file_def validate_relative_path_def path_is_absolute_def file_entry_def
    MAX_FILES_def MAX_FILE_BYTES_def MAX_TOTAL_BYTES_def Let_def)

lemma demo_manifest_valid: "validate_manifest demo_manifest = Inr ()"
  by (simp add: demo_manifest_def validate_manifest_def CHECKPOINT_VERSION_def demo_valid manifest_entries_def file_entry_def and_then_def
    MAX_FILES_def MAX_FILE_BYTES_def MAX_TOTAL_BYTES_def validate_relative_path_def path_is_absolute_def starts_with_def lit_def)

lemma demo_prepared:
  "prepare demo_sha demo_prepare_world demo_params demo_io (empty_node (lit ''n1'')) = (Inr demo_manifest, demo_source)"
proof -
  have m: "\<lparr>cm_version = CHECKPOINT_VERSION, cm_checkpoint_id = demo_id, cm_source_node_id = lit ''n1'', cm_session_id = lit ''s'',
     cm_provider = Codex, cm_profile_id = lit ''p'', cm_workspace_root = lit ''/w'', cm_provider_session_id = Some (lit ''t''),
     cm_mode = Move, cm_created_at = 5, cm_files = [file_entry demo_sha (lit ''a'') [7, 8] 33188], cm_provider_state = None,
     cm_excluded = [lit ''b/.env'']\<rparr> = demo_manifest"
    by (simp add: demo_manifest_def CHECKPOINT_VERSION_def)
  show ?thesis
    unfolding prepare_def
    by (simp add: demo_prepare_world_def empty_node_def demo_walk prepare_provider_state_def find_provider_state_def demo_params_def
      demo_io_def m demo_id_def [symmetric] save_manifest_def demo_manifest_valid save_move_def demo_source_def demo_record_def)
      (simp add: demo_manifest_def)
qed


lemma demo_history: "node_history demo_sha demo_source"
  using hist_prepare [OF hist_new, of demo_sha demo_prepare_world demo_params demo_io "lit ''n1''"] demo_prepared by simp

theorem checkpoint_store_sound_witness:
  "node_history demo_sha demo_source \<and> ns_manifests demo_source demo_id = Some demo_manifest
   \<and> cm_checkpoint_id demo_manifest = demo_id \<and> validate_manifest demo_manifest = Inr ()"
proof -
  have "ns_manifests demo_source demo_id = Some demo_manifest"
    by (simp add: demo_source_def)
  with checkpoint_store_sound [OF demo_history] demo_history show ?thesis
    by blast
qed

end
