(* ===== verification/Handoff.thy ===== *)
theory Handoff
  imports Checkpoint_History
begin

text \<open>
  Moving a session from one node to another (\<^verbatim>\<open>NodeClient::handoff\<close> in \<^verbatim>\<open>homie-client/src/node_client.rs\<close>, over the methods of
  \<^verbatim>\<open>homie-node/src/service.rs\<close>): the client takes a checkpoint on the source, copies what the target lacks, stages it there, and commits
  the move on both. Every request can be lost, or be carried out with its answer lost, which is also what a timeout
  amounts to; that is the input \<open>ho_fate\<close>, by the number of the request.
\<close>

section \<open>Requests\<close>

datatype fate = Delivered | Lost | AnswerLost

datatype client_error = NoAnswer | Refused node_error | NotReady | LocalFailure

record handoff_state =
  hs_source :: node_store
  hs_target :: node_store
  hs_requests :: nat

record handoff_world =
  ho_fate :: "nat \<Rightarrow> fate"
  ho_io :: "nat \<Rightarrow> node_io"
  ho_sha :: "bytes \<Rightarrow> bytes"
  ho_prepare :: prepare_world
  ho_source_profile :: "(provider_kind \<times> str) option" \<comment> \<open>provider and home of the profile, when the node has it\<close>
  ho_target_profile :: "(provider_kind \<times> str) option"
  ho_signed_in :: bool \<comment> \<open>the target answers, and the account is ready there\<close>
  ho_resumes :: bool \<comment> \<open>the provider on the target resumes the session\<close>
  ho_lease :: "bytes option"

type_synonym 'a handoff = "handoff_state \<Rightarrow> (client_error, 'a) result \<times> handoff_state"

definition request :: "fate \<Rightarrow> ('n \<Rightarrow> (node_error, 'a) result \<times> 'n) \<Rightarrow> 'n \<Rightarrow> (client_error, 'a) result \<times> 'n" where
  "request ft f n =
     (case ft of
        Lost \<Rightarrow> (Inl NoAnswer, n)
      | AnswerLost \<Rightarrow> (Inl NoAnswer, snd (f n))
      | Delivered \<Rightarrow> (map_err Refused (fst (f n)), snd (f n)))"

definition ask_source :: "handoff_world \<Rightarrow> (node_io \<Rightarrow> node_store \<Rightarrow> (node_error, 'a) result \<times> node_store) \<Rightarrow> 'a handoff" where
  "ask_source w f s =
     (case request (ho_fate w (hs_requests s)) (f (ho_io w (hs_requests s))) (hs_source s) of
        (r, n) \<Rightarrow> (r, s\<lparr>hs_source := n, hs_requests := Suc (hs_requests s)\<rparr>))"

definition ask_target :: "handoff_world \<Rightarrow> (node_io \<Rightarrow> node_store \<Rightarrow> (node_error, 'a) result \<times> node_store) \<Rightarrow> 'a handoff" where
  "ask_target w f s =
     (case request (ho_fate w (hs_requests s)) (f (ho_io w (hs_requests s))) (hs_target s) of
        (r, n) \<Rightarrow> (r, s\<lparr>hs_target := n, hs_requests := Suc (hs_requests s)\<rparr>))"

definition proceed :: "'a handoff \<Rightarrow> ('a \<Rightarrow> 'b handoff) \<Rightarrow> 'b handoff" where
  "proceed m f s = (case m s of (Inl e, s) \<Rightarrow> (Inl e, s) | (Inr x, s) \<Rightarrow> f x s)"

definition reading :: "(node_store \<Rightarrow> (node_error, 'a) result) \<Rightarrow> node_io \<Rightarrow> node_store \<Rightarrow> (node_error, 'a) result \<times> node_store" where
  "reading f io n = (f n, n)"

section \<open>The node's methods\<close>

text \<open>The last three are given the profile the request is about, as the node's accounts have it.\<close>

definition service_prepare :: "(bytes \<Rightarrow> bytes) \<Rightarrow> prepare_world \<Rightarrow> (provider_kind \<times> str) option \<Rightarrow> prepare_params \<Rightarrow> node_io \<Rightarrow> node_store
    \<Rightarrow> (node_error, checkpoint_manifest) result \<times> node_store" where
  "service_prepare sha w profile params io n =
     (case profile of
        None \<Rightarrow> (Inl NodeNotFound, n)
      | Some (provider, _) \<Rightarrow> if provider \<noteq> pp_provider params then (Inl BadRequest, n) else prepare sha w params io n)"

definition service_stage :: "(bytes \<Rightarrow> bytes) \<Rightarrow> (provider_kind \<times> str) option \<Rightarrow> str \<Rightarrow> node_io \<Rightarrow> node_store \<Rightarrow> (node_error, unit) result \<times> node_store" where
  "service_stage sha profile cid io n =
     (case load_manifest cid n of
        Inl e \<Rightarrow> (Inl e, n)
      | Inr m \<Rightarrow>
          (case profile of
             None \<Rightarrow> (Inl NodeNotFound, n)
           | Some (provider, home) \<Rightarrow> if provider \<noteq> cm_provider m then (Inl Conflict, n) else stage sha io cid home n))"

definition service_abort :: "(bytes \<Rightarrow> bytes) \<Rightarrow> (provider_kind \<times> str) option \<Rightarrow> str \<Rightarrow> str \<Rightarrow> node_io \<Rightarrow> node_store
    \<Rightarrow> (node_error, move_record) result \<times> node_store" where
  "service_abort sha profile cid reason io n =
     (case load_manifest cid n of
        Inl e \<Rightarrow> (Inl e, n)
      | Inr m \<Rightarrow>
          (case abort_move io cid reason n of
             (Inl e, n) \<Rightarrow> (Inl e, n)
           | (Inr r, n) \<Rightarrow>
               if cm_source_node_id m \<noteq> ns_node_id n
               then (case profile of
                   None \<Rightarrow> (Inr r, n)
                 | Some (_, home) \<Rightarrow> (case rollback_provider_state sha m home n of (Inl e, n) \<Rightarrow> (Inl e, n) | (Inr _, n) \<Rightarrow> (Inr r, n)))
               else (Inr r, n)))"

section \<open>The client\<close>

definition TRANSFER_BYTES :: nat where "TRANSFER_BYTES = 512 * 1024"

text \<open>The loop of \<open>transfer_blob\<close>, with fuel; \<open>LocalFailure\<close> when it runs out, or when the target does not finish the blob.\<close>

fun transfer_blob :: "handoff_world \<Rightarrow> str \<Rightarrow> nat \<Rightarrow> nat \<Rightarrow> unit handoff" where
  "transfer_blob w d offset 0 = (\<lambda>s. (Inl LocalFailure, s))"
| "transfer_blob w d offset (Suc fuel) =
     proceed (ask_source w (reading (read_blob d offset TRANSFER_BYTES))) (\<lambda>c.
     proceed (ask_target w (\<lambda>io. put_blob (ho_sha w) io \<lparr>bc_digest = d, bc_offset = offset, bc_hex = bc_hex c, bc_eof = bc_eof c\<rparr>)) (\<lambda>complete.
       if bc_eof c then (\<lambda>s. (if complete then Inr () else Inl LocalFailure, s))
       else transfer_blob w d (offset + length (bc_hex c) div 2) fuel))"

fun transfer_blobs :: "handoff_world \<Rightarrow> nat \<Rightarrow> str list \<Rightarrow> unit handoff" where
  "transfer_blobs w fuel [] = (\<lambda>s. (Inr (), s))"
| "transfer_blobs w fuel (d # ds) = proceed (transfer_blob w d 0 fuel) (\<lambda>_. transfer_blobs w fuel ds)"

definition random_lease_id :: "bytes \<Rightarrow> str" where
  "random_lease_id drawn = lit ''lease-'' @ hex_encode drawn"

text \<open>What happens under the timeout, from the manifest to the second commit.\<close>

definition operation :: "handoff_world \<Rightarrow> nat \<Rightarrow> str \<Rightarrow> checkpoint_manifest \<Rightarrow> (move_record \<times> move_record) handoff" where
  "operation w fuel target_id m =
     proceed (ask_target w (\<lambda>io. put_manifest io m)) (\<lambda>_.
     proceed (ask_target w (reading (missing_blobs (map cf_digest (manifest_entries m))))) (\<lambda>missing.
     proceed (transfer_blobs w fuel missing) (\<lambda>_.
     proceed (ask_target w (service_stage (ho_sha w) (ho_target_profile w) (cm_checkpoint_id m))) (\<lambda>_.
     proceed (\<lambda>s. (if ho_resumes w then Inr () else Inl NoAnswer, s)) (\<lambda>_.
     proceed (\<lambda>s. (case ho_lease w of None \<Rightarrow> Inl LocalFailure | Some drawn \<Rightarrow> Inr (random_lease_id drawn), s)) (\<lambda>lease.
     proceed (ask_target w (\<lambda>io. commit_move io (cm_checkpoint_id m) target_id lease)) (\<lambda>target_commit.
     proceed (ask_source w (\<lambda>io. commit_move io (cm_checkpoint_id m) target_id lease)) (\<lambda>source_commit s.
       (Inr (target_commit, source_commit), s)))))))))"

definition abort_best_effort :: "handoff_world \<Rightarrow> str \<Rightarrow> str \<Rightarrow> handoff_state \<Rightarrow> handoff_state" where
  "abort_best_effort w cid reason s =
     snd (ask_source w (service_abort (ho_sha w) (ho_source_profile w) cid (take 500 reason))
       (snd (ask_target w (service_abort (ho_sha w) (ho_target_profile w) cid (take 500 reason)) s)))"

definition handoff :: "handoff_world \<Rightarrow> nat \<Rightarrow> str \<Rightarrow> prepare_params
    \<Rightarrow> (checkpoint_manifest \<times> move_record \<times> move_record) handoff" where
  "handoff w fuel reason params s =
     (if \<not> ho_signed_in w then (Inl NotReady, s)
      else proceed (ask_source w (service_prepare (ho_sha w) (ho_prepare w) (ho_source_profile w) params)) (\<lambda>m s.
        if cm_provider_session_id m = None then (Inl NotReady, s)
        else case operation w fuel (ns_node_id (hs_target s)) m s of
            (Inr (target_commit, source_commit), s) \<Rightarrow> (Inr (m, target_commit, source_commit), s)
          | (Inl e, s) \<Rightarrow> (Inl e, abort_best_effort w (cm_checkpoint_id m) reason s)) s)"

section \<open>Reasoning about requests\<close>

text \<open>What holds after a program that starts where \<open>P\<close> does: \<open>Q\<close> of its result, or \<open>E\<close> when it fails.\<close>

definition triple :: "(handoff_state \<Rightarrow> bool) \<Rightarrow> 'a handoff \<Rightarrow> ('a \<Rightarrow> handoff_state \<Rightarrow> bool) \<Rightarrow> (handoff_state \<Rightarrow> bool) \<Rightarrow> bool" where
  "triple P m Q E \<longleftrightarrow> (\<forall>s. P s \<longrightarrow> (case m s of (Inl _, s') \<Rightarrow> E s' | (Inr x, s') \<Rightarrow> Q x s'))"

lemma triple_proceed:
  "triple P m R E \<Longrightarrow> (\<And>x. triple (R x) (f x) Q E) \<Longrightarrow> triple P (proceed m f) Q E"
  unfolding triple_def proceed_def by (fastforce split: prod.splits sum.splits)

lemma triple_ask_target:
  assumes "\<And>s r n io. P s \<Longrightarrow> f io (hs_target s) = (r, n) \<Longrightarrow> E (s\<lparr>hs_target := n, hs_requests := Suc (hs_requests s)\<rparr>)
      \<and> (\<forall>x. r = Inr x \<longrightarrow> Q x (s\<lparr>hs_target := n, hs_requests := Suc (hs_requests s)\<rparr>))"
    and "\<And>s. P s \<Longrightarrow> E (s\<lparr>hs_requests := Suc (hs_requests s)\<rparr>)"
  shows "triple P (ask_target w f) Q E"
  unfolding triple_def
proof (intro allI impI)
  fix s
  assume P: "P s"
  obtain r n where f: "f (ho_io w (hs_requests s)) (hs_target s) = (r, n)"
    by fastforce
  show "case ask_target w f s of (Inl _, s') \<Rightarrow> E s' | (Inr x, s') \<Rightarrow> Q x s'"
    using assms(1) [OF P f] assms(2) [OF P] f
    by (cases "ho_fate w (hs_requests s)"; cases r) (simp_all add: ask_target_def request_def map_err_def)
qed

lemma triple_ask_source:
  assumes "\<And>s r n io. P s \<Longrightarrow> f io (hs_source s) = (r, n) \<Longrightarrow> E (s\<lparr>hs_source := n, hs_requests := Suc (hs_requests s)\<rparr>)
      \<and> (\<forall>x. r = Inr x \<longrightarrow> Q x (s\<lparr>hs_source := n, hs_requests := Suc (hs_requests s)\<rparr>))"
    and "\<And>s. P s \<Longrightarrow> E (s\<lparr>hs_requests := Suc (hs_requests s)\<rparr>)"
  shows "triple P (ask_source w f) Q E"
  unfolding triple_def
proof (intro allI impI)
  fix s
  assume P: "P s"
  obtain r n where f: "f (ho_io w (hs_requests s)) (hs_source s) = (r, n)"
    by fastforce
  show "case ask_source w f s of (Inl _, s') \<Rightarrow> E s' | (Inr x, s') \<Rightarrow> Q x s'"
    using assms(1) [OF P f] assms(2) [OF P] f
    by (cases "ho_fate w (hs_requests s)"; cases r) (simp_all add: ask_source_def request_def map_err_def)
qed

lemma triple_local: "(\<And>s. P s \<Longrightarrow> E s \<and> (\<forall>x. r = Inr x \<longrightarrow> Q x s)) \<Longrightarrow> triple P (\<lambda>s. (r, s)) Q E"
  by (auto simp: triple_def split: sum.splits)

lemma triple_weaken: "triple P m Q E \<Longrightarrow> (\<And>x s. Q x s \<Longrightarrow> Q' x s) \<Longrightarrow> (\<And>s. E s \<Longrightarrow> E' s) \<Longrightarrow> triple P m Q' E'"
  by (fastforce simp: triple_def split: prod.splits sum.splits)

lemma triple_transfer_blob:
  assumes put: "\<And>s r n io c. P s \<Longrightarrow> put_blob (ho_sha w) io c (hs_target s) = (r, n) \<Longrightarrow> P (s\<lparr>hs_target := n, hs_requests := Suc (hs_requests s)\<rparr>)"
    and asked: "\<And>s. P s \<Longrightarrow> P (s\<lparr>hs_requests := Suc (hs_requests s)\<rparr>)"
  shows "triple P (transfer_blob w d offset fuel) (\<lambda>_. P) P"
proof (induction fuel arbitrary: offset)
  case (Suc fuel)
  have last: "triple P (\<lambda>s. (if complete then Inr () else Inl LocalFailure, s)) (\<lambda>_. P) P" for complete
    by (rule triple_local) simp
  have "triple P (ask_source w (reading (read_blob d offset TRANSFER_BYTES))) (\<lambda>_. P) P"
    by (rule triple_ask_source) (auto simp: reading_def intro: asked)
  moreover have "triple P (ask_target w (\<lambda>io. put_blob (ho_sha w) io c)) (\<lambda>_. P) P" for c
    by (rule triple_ask_target) (auto intro: put asked)
  ultimately show ?case
    unfolding transfer_blob.simps using Suc last by (intro triple_proceed [where R = "\<lambda>_. P"]) simp_all
qed (simp add: triple_def)

lemma triple_transfer_blobs:
  assumes "\<And>s r n io c. P s \<Longrightarrow> put_blob (ho_sha w) io c (hs_target s) = (r, n) \<Longrightarrow> P (s\<lparr>hs_target := n, hs_requests := Suc (hs_requests s)\<rparr>)"
    and "\<And>s. P s \<Longrightarrow> P (s\<lparr>hs_requests := Suc (hs_requests s)\<rparr>)"
  shows "triple P (transfer_blobs w fuel ds) (\<lambda>_. P) P"
  by (induction ds) (auto simp: triple_def [of _ "\<lambda>s. (Inr (), s)"] intro: triple_proceed triple_transfer_blob assms)

section \<open>Who owns the session\<close>

definition committed :: "str \<Rightarrow> str \<Rightarrow> node_store \<Rightarrow> bool" where
  "committed cid lease n \<longleftrightarrow> (\<exists>r. ns_moves n cid = Some r \<and> mr_phase r = Committed \<and> mr_lease_id r = Some lease)"

definition both_ok :: "(bytes \<Rightarrow> bytes) \<Rightarrow> handoff_state \<Rightarrow> bool" where
  "both_ok sha s \<longleftrightarrow> store_ok sha (hs_source s) \<and> store_ok sha (hs_target s)"

text \<open>Of the source's moves, those that are committed were already in \<open>before\<close>, or are committed on the target under the same lease.\<close>

definition yielded :: "(str \<rightharpoonup> move_record) \<Rightarrow> handoff_state \<Rightarrow> bool" where
  "yielded before s \<longleftrightarrow> (\<forall>cid r. ns_moves (hs_source s) cid = Some r \<and> mr_phase r = Committed \<longrightarrow>
     before cid = Some r \<or> (\<exists>lease. mr_lease_id r = Some lease \<and> committed cid lease (hs_target s)))"

lemma commit_move_committed:
  assumes "commit_move io cid target lease n = (Inr r, n')" "store_ok sha n"
  shows "committed cid lease n'"
  using assms by (auto simp: commit_move_def Let_def save_move_def committed_def store_ok_def move_ok_def split: sum.splits if_splits dest!: load_move_Inr)

lemma commit_move_moves:
  assumes "commit_move io cid target lease n = (x, n')" "store_ok sha n" "ns_moves n' c = Some r" "mr_phase r = Committed"
  shows "ns_moves n c = Some r \<or> c = cid \<and> mr_lease_id r = Some lease"
  using assms by (auto simp: commit_move_def Let_def save_move_def store_ok_def move_ok_def split: sum.splits if_splits dest!: load_move_Inr)

lemma abort_move_moves:
  assumes "abort_move io cid reason n = (x, n')" "store_ok sha n" "mr_phase r = Committed"
  shows "ns_moves n' c = Some r \<longleftrightarrow> ns_moves n c = Some r"
  using assms by (auto simp: abort_move_def Let_def save_move_def store_ok_def move_ok_def split: sum.splits if_splits dest!: load_move_Inr)

lemma rollback_moves: "rollback_provider_state sha m home n = (x, n') \<Longrightarrow> ns_moves n' = ns_moves n"
  by (auto simp: rollback_provider_state_def split: option.splits sum.splits if_splits)

lemma service_abort_moves:
  assumes "service_abort sha profile cid reason io n = (x, n')" "store_ok sha n"
  shows "store_ok sha n' \<and> (\<forall>c r. mr_phase r = Committed \<longrightarrow> (ns_moves n' c = Some r \<longleftrightarrow> ns_moves n c = Some r))"
proof -
  obtain x1 n1 where a: "abort_move io cid reason n = (x1, n1)"
    by fastforce
  have n1: "store_ok sha n1" "mr_phase r = Committed \<Longrightarrow> ns_moves n1 c = Some r \<longleftrightarrow> ns_moves n c = Some r" for c r
    using store_ok_abort [OF assms(2), of io cid reason] abort_move_moves [OF a assms(2)] a by auto
  have roll: "store_ok sha n2 \<and> ns_moves n2 = ns_moves n1" if "rollback_provider_state sha m home n1 = (x2, n2)" for m home x2 n2
    using store_ok_rollback [OF n1(1), of m home] rollback_moves [OF that] that by simp
  have "n' = n \<or> n' = n1 \<or> (\<exists>m home x2. rollback_provider_state sha m home n1 = (x2, n'))"
    using assms(1) a by (auto simp: service_abort_def split: sum.splits option.splits prod.splits if_splits)
  then show ?thesis
    using n1 roll assms(2) by auto
qed

lemma service_stage_ok: "service_stage sha profile cid io n = (r, n') \<Longrightarrow> store_ok sha n \<Longrightarrow> store_ok sha n'"
  using store_ok_stage [of sha n io cid]
  by (auto simp: service_stage_def split: sum.splits option.splits prod.splits if_splits) (metis snd_conv)+

text \<open>Until the target has committed the source is as it was.\<close>

definition untouched :: "(bytes \<Rightarrow> bytes) \<Rightarrow> node_store \<Rightarrow> handoff_state \<Rightarrow> bool" where
  "untouched sha source s \<longleftrightarrow> hs_source s = source \<and> store_ok sha source \<and> store_ok sha (hs_target s)"

definition settled :: "(bytes \<Rightarrow> bytes) \<Rightarrow> node_store \<Rightarrow> handoff_state \<Rightarrow> bool" where
  "settled sha source s \<longleftrightarrow> both_ok sha s \<and> yielded (ns_moves source) s"

lemma untouched_settled: "untouched sha source s \<Longrightarrow> settled sha source s"
  by (simp add: untouched_def settled_def both_ok_def yielded_def)

lemma untouched_target:
  "untouched sha source s \<Longrightarrow> store_ok sha n \<Longrightarrow> untouched sha source (s\<lparr>hs_target := n, hs_requests := k\<rparr>)"
  by (simp add: untouched_def)

lemma untouched_requests: "untouched sha source s \<Longrightarrow> untouched sha source (s\<lparr>hs_requests := k\<rparr>)"
  by (simp add: untouched_def)

lemma untouched_ask_target:
  assumes "\<And>n io. store_ok sha n \<Longrightarrow> store_ok sha (snd (f io n))"
  shows "triple (untouched sha source) (ask_target w f) (\<lambda>_. untouched sha source) (settled sha source)"
proof (rule triple_ask_target)
  fix s r n io
  assume u: "untouched sha source s" and f: "f io (hs_target s) = (r, n)"
  have "store_ok sha n"
    using assms [of "hs_target s" io] u f by (simp add: untouched_def)
  then show "settled sha source (s\<lparr>hs_target := n, hs_requests := Suc (hs_requests s)\<rparr>)
      \<and> (\<forall>x. r = Inr x \<longrightarrow> untouched sha source (s\<lparr>hs_target := n, hs_requests := Suc (hs_requests s)\<rparr>))"
    using untouched_target [OF u] untouched_settled by blast
qed (simp add: untouched_settled untouched_requests)

lemma untouched_local: "triple (untouched sha source) (\<lambda>s. (r, s)) (\<lambda>_. untouched sha source) (settled sha source)"
  by (rule triple_local) (simp add: untouched_settled)

lemma untouched_transfer:
  "triple (untouched (ho_sha w) source) (transfer_blobs w fuel ds) (\<lambda>_. untouched (ho_sha w) source) (settled (ho_sha w) source)"
proof (rule triple_weaken [OF triple_transfer_blobs [where P = "untouched (ho_sha w) source"]])
  fix s r n io c
  assume u: "untouched (ho_sha w) source s" and p: "put_blob (ho_sha w) io c (hs_target s) = (r, n)"
  have "store_ok (ho_sha w) n"
    using store_ok_put_blob [of "ho_sha w" "hs_target s" io c] u p by (simp add: untouched_def)
  then show "untouched (ho_sha w) source (s\<lparr>hs_target := n, hs_requests := Suc (hs_requests s)\<rparr>)"
    by (rule untouched_target [OF u])
qed (simp_all add: untouched_requests untouched_settled)

lemma target_commits_first:
  "triple (untouched sha source) (ask_target w (\<lambda>io. commit_move io cid tid lease))
     (\<lambda>_ s. untouched sha source s \<and> committed cid lease (hs_target s)) (settled sha source)"
proof (rule triple_ask_target)
  fix s r n io
  assume u: "untouched sha source s" and c: "commit_move io cid tid lease (hs_target s) = (r, n)"
  have ok: "store_ok sha (hs_target s)" "store_ok sha n"
    using u store_ok_commit [of sha "hs_target s" io cid tid lease] c by (simp_all add: untouched_def)
  have "untouched sha source (s\<lparr>hs_target := n, hs_requests := Suc (hs_requests s)\<rparr>)"
    by (rule untouched_target [OF u ok(2)])
  then show "settled sha source (s\<lparr>hs_target := n, hs_requests := Suc (hs_requests s)\<rparr>)
      \<and> (\<forall>x. r = Inr x \<longrightarrow> untouched sha source (s\<lparr>hs_target := n, hs_requests := Suc (hs_requests s)\<rparr>)
        \<and> committed cid lease (hs_target (s\<lparr>hs_target := n, hs_requests := Suc (hs_requests s)\<rparr>)))"
    using c commit_move_committed [OF _ ok(1)] untouched_settled by auto
qed (simp add: untouched_settled untouched_requests)

lemma source_commits_last:
  "triple (\<lambda>s. untouched sha source s \<and> committed cid lease (hs_target s)) (ask_source w (\<lambda>io. commit_move io cid tid lease))
     (\<lambda>_. settled sha source) (settled sha source)"
proof (rule triple_ask_source)
  fix s r n io
  assume u: "untouched sha source s \<and> committed cid lease (hs_target s)" and c: "commit_move io cid tid lease (hs_source s) = (r, n)"
  have ok: "store_ok sha (hs_source s)" "store_ok sha n"
    using u store_ok_commit [of sha "hs_source s" io cid tid lease] c by (simp_all add: untouched_def)
  have "yielded (ns_moves source) (s\<lparr>hs_source := n, hs_requests := Suc (hs_requests s)\<rparr>)"
    using u commit_move_moves [OF c ok(1)] by (auto simp: yielded_def untouched_def)
  then show "settled sha source (s\<lparr>hs_source := n, hs_requests := Suc (hs_requests s)\<rparr>)
      \<and> (\<forall>x. r = Inr x \<longrightarrow> settled sha source (s\<lparr>hs_source := n, hs_requests := Suc (hs_requests s)\<rparr>))"
    using u ok(2) by (simp add: untouched_def both_ok_def settled_def)
qed (simp add: untouched_settled untouched_requests)

lemma operation_settles:
  "triple (untouched (ho_sha w) source) (operation w fuel tid m) (\<lambda>_. settled (ho_sha w) source) (settled (ho_sha w) source)"
proof -
  let ?sha = "ho_sha w"
  have put: "triple (untouched ?sha source) (ask_target w (\<lambda>io. put_manifest io m)) (\<lambda>_. untouched ?sha source) (settled ?sha source)"
    by (rule untouched_ask_target) (rule store_ok_put_manifest)
  have asked: "triple (untouched ?sha source) (ask_target w (reading f)) (\<lambda>_. untouched ?sha source) (settled ?sha source)"
    for f :: "node_store \<Rightarrow> (node_error, str list) result"
    by (rule untouched_ask_target) (simp add: reading_def)
  have staged: "triple (untouched ?sha source) (ask_target w (service_stage ?sha p cid)) (\<lambda>_. untouched ?sha source) (settled ?sha source)" for p cid
    by (rule untouched_ask_target) (metis service_stage_ok prod.collapse)
  show ?thesis
    unfolding operation_def
    by (intro triple_proceed [OF put] triple_proceed [OF asked] triple_proceed [OF untouched_transfer] triple_proceed [OF staged]
      triple_proceed [OF untouched_local] triple_proceed [OF untouched_local] triple_proceed [OF target_commits_first] triple_proceed [OF source_commits_last])
      (simp add: triple_def)
qed

lemma ask_target_cases:
  obtains "snd (ask_target w f s) = s\<lparr>hs_requests := Suc (hs_requests s)\<rparr>"
  | "snd (ask_target w f s) = s\<lparr>hs_target := snd (f (ho_io w (hs_requests s)) (hs_target s)), hs_requests := Suc (hs_requests s)\<rparr>"
  by (cases "ho_fate w (hs_requests s)") (simp_all add: ask_target_def request_def)

lemma ask_source_cases:
  obtains "snd (ask_source w f s) = s\<lparr>hs_requests := Suc (hs_requests s)\<rparr>"
  | "snd (ask_source w f s) = s\<lparr>hs_source := snd (f (ho_io w (hs_requests s)) (hs_source s)), hs_requests := Suc (hs_requests s)\<rparr>"
  by (cases "ho_fate w (hs_requests s)") (simp_all add: ask_source_def request_def)

lemma settled_requests: "settled sha source s \<Longrightarrow> settled sha source (s\<lparr>hs_requests := k\<rparr>)"
  by (simp add: settled_def both_ok_def yielded_def)

lemma abort_keeps_settled:
  assumes "settled (ho_sha w) source s"
  shows "settled (ho_sha w) source (abort_best_effort w cid reason s)"
proof -
  have target: "settled (ho_sha w) source (snd (ask_target w (service_abort (ho_sha w) p cid reason) s))"
    if "settled (ho_sha w) source s" for p cid reason s
  proof (rule ask_target_cases [of w "service_abort (ho_sha w) p cid reason" s])
    obtain r n where a: "service_abort (ho_sha w) p cid reason (ho_io w (hs_requests s)) (hs_target s) = (r, n)"
      by fastforce
    assume "snd (ask_target w (service_abort (ho_sha w) p cid reason) s)
      = s\<lparr>hs_target := snd (service_abort (ho_sha w) p cid reason (ho_io w (hs_requests s)) (hs_target s)), hs_requests := Suc (hs_requests s)\<rparr>"
    with that service_abort_moves [OF a] a show ?thesis
      by (auto simp: settled_def both_ok_def yielded_def committed_def) metis
  qed (use that in \<open>simp add: settled_requests\<close>)
  have source: "settled (ho_sha w) source (snd (ask_source w (service_abort (ho_sha w) p cid reason) s))"
    if "settled (ho_sha w) source s" for p cid reason s
  proof (rule ask_source_cases [of w "service_abort (ho_sha w) p cid reason" s])
    obtain r n where a: "service_abort (ho_sha w) p cid reason (ho_io w (hs_requests s)) (hs_source s) = (r, n)"
      by fastforce
    assume "snd (ask_source w (service_abort (ho_sha w) p cid reason) s)
      = s\<lparr>hs_source := snd (service_abort (ho_sha w) p cid reason (ho_io w (hs_requests s)) (hs_source s)), hs_requests := Suc (hs_requests s)\<rparr>"
    with that service_abort_moves [OF a] a show ?thesis
      by (auto simp: settled_def both_ok_def yielded_def)
  qed (use that in \<open>simp add: settled_requests\<close>)
  show ?thesis
    unfolding abort_best_effort_def by (intro source target assms)
qed

lemma service_prepare_moves:
  assumes "service_prepare sha w profile params io n = (x, n')" "store_ok sha n"
  shows "store_ok sha n'" "ns_moves n' c = Some r \<Longrightarrow> mr_phase r = Committed \<Longrightarrow> ns_moves n c = Some r"
proof -
  have cases: "n' = n \<or> prepare sha w params io n = (x, n')"
    using assms(1) by (auto simp: service_prepare_def split: option.splits if_splits)
  then show "store_ok sha n'"
    using store_ok_prepare [OF assms(2), of w params io] assms(2) by auto
  have "ns_moves n c = Some r" if "prepare sha w params io n = (x, n')" "ns_moves n' c = Some r" "mr_phase r = Committed"
    using that unfolding prepare_def Let_def save_manifest_def save_move_def
    by (fastforce split: option.splits prod.splits sum.splits if_splits)
  with cases show "ns_moves n' c = Some r \<Longrightarrow> mr_phase r = Committed \<Longrightarrow> ns_moves n c = Some r"
    by blast
qed

lemma ask_prepare:
  fixes w s params
  defines "s1 \<equiv> snd (ask_source w (service_prepare (ho_sha w) (ho_prepare w) (ho_source_profile w) params) s)"
  assumes "store_ok (ho_sha w) (hs_source s)" "store_ok (ho_sha w) (hs_target s)"
  shows "untouched (ho_sha w) (hs_source s1) s1"
    "ns_moves (hs_source s1) c = Some r \<Longrightarrow> mr_phase r = Committed \<Longrightarrow> ns_moves (hs_source s) c = Some r"
proof -
  let ?f = "service_prepare (ho_sha w) (ho_prepare w) (ho_source_profile w) params"
  obtain x n where p: "?f (ho_io w (hs_requests s)) (hs_source s) = (x, n)"
    by fastforce
  have "hs_target s1 = hs_target s \<and> (hs_source s1 = hs_source s \<or> hs_source s1 = n)"
    using p by (cases rule: ask_source_cases [of w ?f s]) (simp_all add: s1_def)
  with service_prepare_moves [OF p assms(2)] assms(2,3)
  show "untouched (ho_sha w) (hs_source s1) s1"
    "ns_moves (hs_source s1) c = Some r \<Longrightarrow> mr_phase r = Committed \<Longrightarrow> ns_moves (hs_source s) c = Some r"
    by (auto simp: untouched_def)
qed

lemma handoff_settles:
  assumes "handoff w fuel reason params s = (result, s')" "ho_signed_in w"
    and "ask_source w (service_prepare (ho_sha w) (ho_prepare w) (ho_source_profile w) params) s = (x, s1)"
    and "untouched (ho_sha w) (hs_source s1) s1"
  shows "settled (ho_sha w) (hs_source s1) s'"
proof -
  have "s' = s1 \<or> (\<exists>m tid r s2. operation w fuel tid m s1 = (r, s2) \<and> (s' = s2 \<or> s' = abort_best_effort w (cm_checkpoint_id m) reason s2))"
    using assms(1-3) by (fastforce simp: handoff_def proceed_def split: sum.splits prod.splits if_splits)
  moreover have "settled (ho_sha w) (hs_source s1) s2" if "operation w fuel tid m s1 = (r, s2)" for tid m r s2
    using operation_settles [of w "hs_source s1" fuel tid m] assms(4) that by (cases r) (auto simp: triple_def)
  ultimately show ?thesis
    using abort_keeps_settled untouched_settled [OF assms(4)] by auto
qed

text \<open>
  Claim C14. However a hand-off ends and whichever of its requests are lost, or carried out with their answer lost, a move that is committed on
  the source afterwards was so before, or is committed on the target too, under the same lease: the source gives a session up
  only when the target has it.
\<close>

theorem source_yields_only_to_the_target:
  assumes "node_history (ho_sha w) (hs_source s)" "node_history (ho_sha w) (hs_target s)"
    and "handoff w fuel reason params s = (result, s')"
    and "ns_moves (hs_source s') cid = Some r" "mr_phase r = Committed"
  shows "ns_moves (hs_source s) cid = Some r
    \<or> (\<exists>r'. ns_moves (hs_target s') cid = Some r' \<and> mr_phase r' = Committed \<and> mr_lease_id r' = mr_lease_id r)"
proof (cases "ho_signed_in w")
  case True
  obtain x s1 where s1: "ask_source w (service_prepare (ho_sha w) (ho_prepare w) (ho_source_profile w) params) s = (x, s1)"
    by fastforce
  have ok: "store_ok (ho_sha w) (hs_source s)" "store_ok (ho_sha w) (hs_target s)"
    using assms(1,2) by (simp_all add: node_history_ok)
  have "settled (ho_sha w) (hs_source s1) s'"
    using handoff_settles [OF assms(3) True s1] ask_prepare(1) [OF ok, of params] s1 by simp
  then have "ns_moves (hs_source s1) cid = Some r \<or> (\<exists>lease. mr_lease_id r = Some lease \<and> committed cid lease (hs_target s'))"
    using assms(4,5) by (simp add: settled_def yielded_def)
  then show ?thesis
    using ask_prepare(2) [OF ok, of params cid r] s1 assms(5) by (auto simp: committed_def)
qed (use assms in \<open>simp add: handoff_def\<close>)

section \<open>What a hand-off delivers\<close>

definition sent :: "(bytes \<Rightarrow> bytes) \<Rightarrow> node_store \<Rightarrow> checkpoint_manifest \<Rightarrow> handoff_state \<Rightarrow> bool" where
  "sent sha source m s \<longleftrightarrow> hs_source s = source \<and> store_ok sha (hs_target s) \<and> ns_restores (hs_target s) (cm_checkpoint_id m) = None
     \<and> ns_manifests (hs_target s) (cm_checkpoint_id m) = Some m"

definition arrived :: "(bytes \<Rightarrow> bytes) \<Rightarrow> node_store \<Rightarrow> checkpoint_manifest \<Rightarrow> (str \<times> node_entry) list \<Rightarrow> (move_record \<Rightarrow> bool) \<Rightarrow> handoff_state \<Rightarrow> bool" where
  "arrived sha source m entries R s \<longleftrightarrow> hs_source s = source \<and> store_ok sha (hs_target s)
     \<and> (\<exists>t. ns_restores (hs_target s) (cm_checkpoint_id m) = Some t \<and> same_files sha entries (cm_provider_state m \<noteq> None) t)
     \<and> (\<exists>r. ns_moves (hs_target s) (cm_checkpoint_id m) = Some r \<and> R r)"

lemma put_manifest_Inr:
  "put_manifest io m n = (Inr u, n') \<Longrightarrow> ns_manifests n' = (ns_manifests n)(cm_checkpoint_id m \<mapsto> m) \<and> ns_restores n' = ns_restores n"
  by (auto simp: put_manifest_def save_manifest_def save_move_def split: sum.splits prod.splits if_splits)

lemma put_blob_keeps: "put_blob sha io c n = (r, n') \<Longrightarrow> ns_manifests n' = ns_manifests n \<and> ns_restores n' = ns_restores n"
  by (auto simp: put_blob_def Let_def split: sum.splits option.splits if_splits)

lemma stage_arrives:
  assumes "stage sha io cid home n = (Inr u, n')" "store_ok sha n" "ns_restores n cid = None" "ns_manifests n cid = Some m"
    and "set (cm_files m) = carried_entries sha [] entries" "tree_ok entries"
    and "\<And>e. cm_provider_state m = Some e \<Longrightarrow> cf_path e = lit ''provider/session.jsonl''"
  shows "\<exists>t r. ns_restores n' cid = Some t \<and> same_files sha entries (cm_provider_state m \<noteq> None) t
    \<and> ns_moves n' cid = Some r \<and> mr_phase r = Staged"
  using assms(1)
proof (cases rule: stage_success)
  case (fresh m' t n1 r)
  have m': "m' = m"
    using load_manifest_Inr [OF fresh(1)] assms(4) by simp
  obtain p where n1: "n1 = n\<lparr>ns_restores := (ns_restores n)(cid \<mapsto> t), ns_provider := p\<rparr>"
    using activate_provider_state_effect [OF fresh(5)] by auto
  have "mr_checkpoint_id r = cid"
    using load_move_Inr [OF fresh(6)] n1 assms(2) by (simp add: store_ok_def move_ok_def)
  with fresh(7) n1 restore_manifest_exact [OF fresh(4) [unfolded m'] assms(5-7)] show ?thesis
    by simp
qed (use assms(3) in simp)

text \<open>Only what follows a success matters here: failures need not be described.\<close>

lemma success_ask_target:
  assumes "\<And>s x n io. P s \<Longrightarrow> f io (hs_target s) = (Inr x, n) \<Longrightarrow> Q x (s\<lparr>hs_target := n, hs_requests := Suc (hs_requests s)\<rparr>)"
  shows "triple P (ask_target w f) Q (\<lambda>_. True)"
  by (rule triple_ask_target) (use assms in auto)

lemma sent_transfer: "triple (sent (ho_sha w) source m) (transfer_blobs w fuel ds) (\<lambda>_. sent (ho_sha w) source m) (\<lambda>_. True)"
proof (rule triple_weaken [OF triple_transfer_blobs [where P = "sent (ho_sha w) source m"]])
  fix s r n io c
  assume "sent (ho_sha w) source m s" "put_blob (ho_sha w) io c (hs_target s) = (r, n)"
  then show "sent (ho_sha w) source m (s\<lparr>hs_target := n, hs_requests := Suc (hs_requests s)\<rparr>)"
    using store_ok_put_blob [of "ho_sha w" "hs_target s" io c] put_blob_keeps [of "ho_sha w" io c "hs_target s" r n] by (simp add: sent_def)
qed (simp_all add: sent_def)

lemma arrived_commit:
  "triple (arrived sha source m entries (\<lambda>r. mr_phase r = Staged)) (ask_target w (\<lambda>io. commit_move io (cm_checkpoint_id m) tid lease))
     (\<lambda>tc. arrived sha source m entries (\<lambda>r. r = tc \<and> mr_phase r = Committed \<and> mr_lease_id r = Some lease \<and> mr_target_node_id r = Some tid))
     (\<lambda>_. True)"
proof (rule success_ask_target)
  fix s tc n io
  assume a: "arrived sha source m entries (\<lambda>r. mr_phase r = Staged) s"
    and c: "commit_move io (cm_checkpoint_id m) tid lease (hs_target s) = (Inr tc, n)"
  then have ok: "store_ok sha (hs_target s)" "store_ok sha n"
    using store_ok_commit [of sha "hs_target s" io "cm_checkpoint_id m" tid lease] by (simp_all add: arrived_def)
  from c a ok(1) have "mr_phase tc = Committed \<and> mr_lease_id tc = Some lease \<and> mr_target_node_id tc = Some tid
      \<and> ns_moves n (cm_checkpoint_id m) = Some tc \<and> ns_restores n = ns_restores (hs_target s)"
    by (auto simp: commit_move_def Let_def save_move_def arrived_def store_ok_def move_ok_def split: sum.splits if_splits dest!: load_move_Inr)
  with a ok(2) show "arrived sha source m entries (\<lambda>r. r = tc \<and> mr_phase r = Committed \<and> mr_lease_id r = Some lease \<and> mr_target_node_id r = Some tid)
      (s\<lparr>hs_target := n, hs_requests := Suc (hs_requests s)\<rparr>)"
    by (auto simp: arrived_def)
qed

definition handed_over :: "(bytes \<Rightarrow> bytes) \<Rightarrow> checkpoint_manifest \<Rightarrow> (str \<times> node_entry) list \<Rightarrow> str \<Rightarrow> move_record \<Rightarrow> move_record \<Rightarrow> handoff_state \<Rightarrow> bool" where
  "handed_over sha m entries tid tc sc s \<longleftrightarrow>
     (\<exists>t. ns_restores (hs_target s) (cm_checkpoint_id m) = Some t \<and> same_files sha entries (cm_provider_state m \<noteq> None) t)
     \<and> ns_moves (hs_target s) (cm_checkpoint_id m) = Some tc \<and> ns_moves (hs_source s) (cm_checkpoint_id m) = Some sc
     \<and> mr_phase tc = Committed \<and> mr_phase sc = Committed \<and> mr_lease_id tc \<noteq> None \<and> mr_lease_id sc = mr_lease_id tc
     \<and> mr_target_node_id tc = Some tid \<and> mr_target_node_id sc = Some tid"

lemma source_commit_hands_over:
  assumes "ns_moves source (cm_checkpoint_id m) = Some r0" "mr_phase r0 = Prepared" "mr_checkpoint_id r0 = cm_checkpoint_id m"
  shows "triple (arrived sha source m entries (\<lambda>r. r = tc \<and> mr_phase r = Committed \<and> mr_lease_id r = Some lease \<and> mr_target_node_id r = Some tid))
     (ask_source w (\<lambda>io. commit_move io (cm_checkpoint_id m) tid lease)) (\<lambda>sc. handed_over sha m entries tid tc sc) (\<lambda>_. True)"
proof (rule triple_ask_source)
  fix s r n io
  assume a: "arrived sha source m entries (\<lambda>r. r = tc \<and> mr_phase r = Committed \<and> mr_lease_id r = Some lease \<and> mr_target_node_id r = Some tid) s"
    and c: "commit_move io (cm_checkpoint_id m) tid lease (hs_source s) = (r, n)"
  have "mr_phase sc = Committed \<and> mr_lease_id sc = Some lease \<and> mr_target_node_id sc = Some tid
      \<and> ns_moves n (cm_checkpoint_id m) = Some sc" if "r = Inr sc" for sc
    using c a that assms by (auto simp: commit_move_def Let_def save_move_def arrived_def split: sum.splits if_splits dest!: load_move_Inr)
  with a show "True \<and> (\<forall>sc. r = Inr sc \<longrightarrow> handed_over sha m entries tid tc sc (s\<lparr>hs_source := n, hs_requests := Suc (hs_requests s)\<rparr>))"
    by (auto simp: arrived_def handed_over_def)
qed simp

definition fresh_for :: "(bytes \<Rightarrow> bytes) \<Rightarrow> node_store \<Rightarrow> str \<Rightarrow> handoff_state \<Rightarrow> bool" where
  "fresh_for sha source cid s \<longleftrightarrow> hs_source s = source \<and> store_ok sha (hs_target s) \<and> ns_restores (hs_target s) cid = None"

lemma manifest_sent:
  "triple (fresh_for sha source (cm_checkpoint_id m)) (ask_target w (\<lambda>io. put_manifest io m)) (\<lambda>_. sent sha source m) (\<lambda>_. True)"
proof (rule success_ask_target)
  fix s :: handoff_state and x n io
  assume s: "fresh_for sha source (cm_checkpoint_id m) s" and p: "put_manifest io m (hs_target s) = (Inr x, n)"
  then show "sent sha source m (s\<lparr>hs_target := n, hs_requests := Suc (hs_requests s)\<rparr>)"
    using put_manifest_Inr [OF p] store_ok_put_manifest [of sha "hs_target s" io m] by (simp add: sent_def fresh_for_def)
qed

lemma sent_asked:
  "triple (sent sha source m) (ask_target w (reading f)) (\<lambda>_. sent sha source m) (\<lambda>_. True)"
  by (rule success_ask_target) (simp add: reading_def sent_def)

lemma sent_staged:
  assumes "set (cm_files m) = carried_entries sha [] entries" "tree_ok entries"
    and "\<And>e. cm_provider_state m = Some e \<Longrightarrow> cf_path e = lit ''provider/session.jsonl''"
  shows "triple (sent sha source m) (ask_target w (service_stage sha profile (cm_checkpoint_id m)))
    (\<lambda>_. arrived sha source m entries (\<lambda>r. mr_phase r = Staged)) (\<lambda>_. True)"
proof (rule success_ask_target)
  fix s :: handoff_state and x n io
  assume s: "sent sha source m s" and st: "service_stage sha profile (cm_checkpoint_id m) io (hs_target s) = (Inr x, n)"
  then obtain home where "stage sha io (cm_checkpoint_id m) home (hs_target s) = (Inr x, n)"
    by (auto simp: service_stage_def split: sum.splits option.splits if_splits)
  then have "\<exists>t r. ns_restores n (cm_checkpoint_id m) = Some t \<and> same_files sha entries (cm_provider_state m \<noteq> None) t
      \<and> ns_moves n (cm_checkpoint_id m) = Some r \<and> mr_phase r = Staged"
    using s assms by (intro stage_arrives) (auto simp: sent_def)
  with s service_stage_ok [OF st]
  show "arrived sha source m entries (\<lambda>r. mr_phase r = Staged) (s\<lparr>hs_target := n, hs_requests := Suc (hs_requests s)\<rparr>)"
    by (auto simp: sent_def arrived_def)
qed

lemma triple_stay: "triple P (\<lambda>s. (r, s)) (\<lambda>_. P) (\<lambda>_. True)"
  by (rule triple_local) simp

lemma operation_hands_over:
  assumes "set (cm_files m) = carried_entries (ho_sha w) [] entries" "tree_ok entries"
    and "\<And>e. cm_provider_state m = Some e \<Longrightarrow> cf_path e = lit ''provider/session.jsonl''"
    and "ns_moves source (cm_checkpoint_id m) = Some r0" "mr_phase r0 = Prepared" "mr_checkpoint_id r0 = cm_checkpoint_id m"
  shows "triple (fresh_for (ho_sha w) source (cm_checkpoint_id m)) (operation w fuel tid m)
    (\<lambda>(tc, sc). handed_over (ho_sha w) m entries tid tc sc) (\<lambda>_. True)"
  unfolding operation_def
  by (intro triple_proceed [OF manifest_sent] triple_proceed [OF sent_asked] triple_proceed [OF sent_transfer]
    triple_proceed [OF sent_staged [OF assms(1-3)]] triple_proceed [OF triple_stay] triple_proceed [OF triple_stay] triple_proceed [OF arrived_commit]
    triple_proceed [OF source_commit_hands_over [OF assms(4-6)]]) (simp_all add: triple_def)


section \<open>Copying a blob\<close>

definition smooth :: "handoff_world \<Rightarrow> bool" where
  "smooth w \<longleftrightarrow> (\<forall>i. ho_fate w i = Delivered \<and> ni_appended (ho_io w i) = None \<and> ni_renamed (ho_io w i))"

definition uploaded :: "node_store \<Rightarrow> str \<Rightarrow> bytes" where
  "uploaded n d = (case ns_partials n d of None \<Rightarrow> [] | Some p \<Rightarrow> p)"

definition chunk_of :: "bytes \<Rightarrow> str \<Rightarrow> nat \<Rightarrow> blob_chunk" where
  "chunk_of bs d offset = \<lparr>bc_digest = d, bc_offset = offset, bc_hex = hex_encode (take TRANSFER_BYTES (drop offset bs)),
     bc_eof = (length bs - offset \<le> TRANSFER_BYTES)\<rparr>"

lemma chunk_of_again: "\<lparr>bc_digest = d, bc_offset = offset, bc_hex = bc_hex (chunk_of bs d offset), bc_eof = bc_eof (chunk_of bs d offset)\<rparr> = chunk_of bs d offset"
  by (simp add: chunk_of_def)

lemma bc_eof_chunk: "bc_eof (chunk_of bs d offset) \<longleftrightarrow> length bs - offset \<le> TRANSFER_BYTES"
  by (simp add: chunk_of_def)

lemma bc_hex_chunk: "length (bc_hex (chunk_of bs d offset)) div 2 = min (length bs - offset) TRANSFER_BYTES"
  by (simp add: chunk_of_def length_hex_encode)

lemma read_chunk:
  assumes "ns_blobs n d = Some bs" "validate_digest d = Inr ()" "offset \<le> length bs"
  shows "read_blob d offset TRANSFER_BYTES n = Inr (chunk_of bs d offset)"
  using assms by (auto simp: read_blob_def and_then_def TRANSFER_BYTES_def MAX_CHUNK_BYTES_def Let_def min_def chunk_of_def)

lemma put_chunk:
  assumes "ns_blobs n d = None" "validate_digest d = Inr ()" "uploaded n d = take offset bs" "offset \<le> length bs"
    and "ni_appended io = None" "ni_renamed io" "digest_of sha bs = d"
  shows "put_blob sha io (chunk_of bs d offset) n =
    (if length bs - offset \<le> TRANSFER_BYTES
     then (Inr True, n\<lparr>ns_partials := (ns_partials n)(d := None), ns_blobs := (ns_blobs n)(d \<mapsto> bs)\<rparr>)
     else (Inr False, n\<lparr>ns_partials := (ns_partials n)(d \<mapsto> take (offset + TRANSFER_BYTES) bs)\<rparr>))"
proof -
  have whole: "take offset bs @ take TRANSFER_BYTES (drop offset bs) = take (offset + TRANSFER_BYTES) bs"
    by (simp add: take_add)
  have small: "\<not> MAX_CHUNK_BYTES < length (take TRANSFER_BYTES (drop offset bs))"
    by (simp add: TRANSFER_BYTES_def MAX_CHUNK_BYTES_def)
  have "length bs - offset \<le> TRANSFER_BYTES \<Longrightarrow> take (offset + TRANSFER_BYTES) bs = bs"
    by simp
  moreover have "length (take offset bs) = offset"
    using assms(4) by simp
  ultimately show ?thesis
    using assms whole small by (simp add: put_blob_def chunk_of_def hex_decode_encode Let_def uploaded_def [symmetric] min_def del: length_take take_append)
qed

lemma ask_source_smooth:
  "smooth w \<Longrightarrow> ask_source w f s =
     (map_err Refused (fst (f (ho_io w (hs_requests s)) (hs_source s))),
      s\<lparr>hs_source := snd (f (ho_io w (hs_requests s)) (hs_source s)), hs_requests := Suc (hs_requests s)\<rparr>)"
  by (simp add: ask_source_def request_def smooth_def)

lemma ask_target_smooth:
  "smooth w \<Longrightarrow> ask_target w f s =
     (map_err Refused (fst (f (ho_io w (hs_requests s)) (hs_target s))),
      s\<lparr>hs_target := snd (f (ho_io w (hs_requests s)) (hs_target s)), hs_requests := Suc (hs_requests s)\<rparr>)"
  by (simp add: ask_target_def request_def smooth_def)

lemma transfer_rest:
  assumes "smooth w" "validate_digest d = Inr ()" "digest_of (ho_sha w) bs = d"
    and "ns_blobs (hs_source s) d = Some bs" "ns_blobs (hs_target s) d = None" "uploaded (hs_target s) d = take offset bs"
    and "offset \<le> length bs" "(length bs - offset) div TRANSFER_BYTES < fuel"
  shows "\<exists>s'. transfer_blob w d offset fuel s = (Inr (), s') \<and> ns_blobs (hs_target s') d = Some bs \<and> hs_source s' = hs_source s"
  using assms(4-)
proof (induction fuel arbitrary: offset s)
  case (Suc fuel)
  let ?s1 = "s\<lparr>hs_requests := Suc (hs_requests s)\<rparr>" and ?last = "length bs - offset \<le> TRANSFER_BYTES"
  define n where "n = (if ?last then (hs_target s)\<lparr>ns_partials := (ns_partials (hs_target s))(d := None), ns_blobs := (ns_blobs (hs_target s))(d \<mapsto> bs)\<rparr>
    else (hs_target s)\<lparr>ns_partials := (ns_partials (hs_target s))(d \<mapsto> take (offset + TRANSFER_BYTES) bs)\<rparr>)"
  have io: "ni_appended (ho_io w i) = None" "ni_renamed (ho_io w i)" for i
    using assms(1) by (simp_all add: smooth_def)
  have source: "ask_source w (reading (read_blob d offset TRANSFER_BYTES)) s = (Inr (chunk_of bs d offset), ?s1)"
    by (simp add: ask_source_smooth [OF assms(1)] reading_def read_chunk [OF Suc.prems(1) assms(2) Suc.prems(4)] map_err_def)
  have target: "ask_target w (\<lambda>io. put_blob (ho_sha w) io (chunk_of bs d offset)) ?s1
      = (Inr ?last, s\<lparr>hs_target := n, hs_requests := Suc (Suc (hs_requests s))\<rparr>)"
    using put_chunk [OF Suc.prems(2) assms(2) Suc.prems(3,4) io assms(3)]
    by (simp add: ask_target_smooth [OF assms(1)] map_err_def n_def)
  have step: "transfer_blob w d offset (Suc fuel) s = (if ?last then (\<lambda>s. (Inr (), s))
      else transfer_blob w d (offset + min (length bs - offset) TRANSFER_BYTES) fuel) (s\<lparr>hs_target := n, hs_requests := Suc (Suc (hs_requests s))\<rparr>)"
    by (simp only: transfer_blob.simps proceed_def source target prod.case sum.case chunk_of_again)
      (simp only: bc_eof_chunk bc_hex_chunk if_True cong: if_cong)
  show ?case
  proof (cases ?last)
    case True
    then show ?thesis
      by (simp add: step n_def del: transfer_blob.simps)
  next
    case False
    then have "(length bs - (offset + TRANSFER_BYTES)) div TRANSFER_BYTES < fuel"
      using Suc.prems(5) by (simp add: le_div_geq TRANSFER_BYTES_def)
    then have "\<exists>s'. transfer_blob w d (offset + TRANSFER_BYTES) fuel (s\<lparr>hs_target := n, hs_requests := Suc (Suc (hs_requests s))\<rparr>) = (Inr (), s')
        \<and> ns_blobs (hs_target s') d = Some bs \<and> hs_source s' = hs_source s"
      using Suc.IH [of "s\<lparr>hs_target := n, hs_requests := Suc (Suc (hs_requests s))\<rparr>" "offset + TRANSFER_BYTES"] False Suc.prems(1-4)
      by (simp add: n_def uploaded_def)
    moreover have "min (length bs - offset) TRANSFER_BYTES = TRANSFER_BYTES"
      using False by simp
    ultimately show ?thesis
      using False by (simp add: step del: transfer_blob.simps)
  qed
qed simp

text \<open>
  When no request is lost and the target can write, a blob that the source has and the target has no part of is copied whole,
  in as many rounds as it has chunks of half a mebibyte, the last one included.
\<close>

theorem blob_transfer_completes:
  assumes "smooth w" "validate_digest d = Inr ()" "digest_of (ho_sha w) bs = d" "ns_blobs (hs_source s) d = Some bs"
    and "ns_blobs (hs_target s) d = None" "ns_partials (hs_target s) d = None" "length bs div TRANSFER_BYTES < fuel"
  shows "\<exists>s'. transfer_blob w d 0 fuel s = (Inr (), s') \<and> ns_blobs (hs_target s') d = Some bs"
  using transfer_rest [OF assms(1-5), of 0] assms(6,7) by (auto simp: uploaded_def)

section \<open>What a failed hand-off leaves behind\<close>

text \<open>After an upload that was cut short no hand-off brings the blob over, whatever the world does.\<close>

theorem interrupted_upload_blocks_transfers:
  assumes "ns_partials (hs_target s) d = Some p" "p \<noteq> []" "ns_blobs (hs_target s) d = None"
  shows "\<exists>e s'. transfer_blob w d 0 fuel s = (Inl e, s') \<and> hs_target s' = hs_target s"
proof (cases fuel)
  case (Suc k)
  obtain r s1 where s1: "ask_source w (reading (read_blob d 0 TRANSFER_BYTES)) s = (r, s1)"
    by fastforce
  then have same: "hs_target s1 = hs_target s"
    by (auto simp: ask_source_def split: prod.splits)
  show ?thesis
  proof (cases r)
    case (Inr c)
    let ?c = "\<lparr>bc_digest = d, bc_offset = 0, bc_hex = bc_hex c, bc_eof = bc_eof c\<rparr>"
    obtain e where "put_blob (ho_sha w) (ho_io w (hs_requests s1)) ?c (hs_target s1) = (Inl e, hs_target s1)"
      using partial_upload_blocks [of "hs_target s1" ?c p "ho_sha w" "ho_io w (hs_requests s1)"] assms same by auto
    then have "\<exists>e s2. ask_target w (\<lambda>io. put_blob (ho_sha w) io ?c) s1 = (Inl e, s2) \<and> hs_target s2 = hs_target s1"
      by (cases "ho_fate w (hs_requests s1)") (simp_all add: ask_target_def request_def map_err_def)
    with Suc s1 Inr same show ?thesis
      by (auto simp: proceed_def)
  qed (use Suc s1 same in \<open>simp add: proceed_def\<close>)
qed simp

text \<open>
  When the target has committed and the request to the source was lost, the clean-up aborts the move on the source only: the target owns the
  session, and the source has an aborted move.
\<close>

theorem lost_commit_splits_ownership:
  assumes "store_ok (ho_sha w) (hs_source s)" "store_ok (ho_sha w) (hs_target s)" "committed cid lease (hs_target s)"
    and "load_manifest cid (hs_source s) = Inr m" "cm_source_node_id m = ns_node_id (hs_source s)"
    and "ns_moves (hs_source s) cid = Some r" "mr_phase r \<noteq> Committed"
    and "ho_fate w (Suc (hs_requests s)) = Delivered" "ni_move_written (ho_io w (Suc (hs_requests s)))"
    and "s' = abort_best_effort w cid reason s"
  shows "committed cid lease (hs_target s') \<and> (\<exists>r'. ns_moves (hs_source s') cid = Some r' \<and> mr_phase r' = Aborted)"
proof -
  let ?f = "service_abort (ho_sha w) (ho_target_profile w) cid (take 500 reason)"
  obtain x n where f: "?f (ho_io w (hs_requests s)) (hs_target s) = (x, n)"
    by fastforce
  obtain s1 where s1: "snd (ask_target w ?f s) = s1" "hs_source s1 = hs_source s" "hs_requests s1 = Suc (hs_requests s)"
    "hs_target s1 = hs_target s \<or> hs_target s1 = n"
    using f by (cases rule: ask_target_cases [of w ?f s]) simp_all
  have target: "committed cid lease (hs_target s1)"
    using s1(4) assms(3) service_abort_moves [OF f assms(2)] by (auto simp: committed_def)
  have load: "load_move cid (hs_source s) = Inr r" "mr_checkpoint_id r = cid"
    using assms(1,4,6) by (auto simp: load_move_def load_manifest_def and_then_def store_ok_def move_ok_def split: sum.splits)
  show ?thesis
    using target load assms(4,5,7-9) unfolding assms(10) abort_best_effort_def s1(1)
    by (simp add: ask_source_def request_def s1(2,3) service_abort_def abort_move_def save_move_def Let_def map_err_def)
qed

section \<open>A hand-off of a small workspace\<close>

definition demo_world :: handoff_world where
  "demo_world = \<lparr>ho_fate = (\<lambda>_. Delivered), ho_io = (\<lambda>_. demo_io), ho_sha = demo_sha, ho_prepare = demo_prepare_world,
     ho_source_profile = Some (Codex, lit ''/h''), ho_target_profile = Some (Codex, lit ''/h''), ho_signed_in = True, ho_resumes = True,
     ho_lease = Some (replicate 16 1)\<rparr>"

definition demo_state :: handoff_state where
  "demo_state = \<lparr>hs_source = empty_node (lit ''n1''), hs_target = empty_node (lit ''n2''), hs_requests = 0\<rparr>"

abbreviation demo_d :: str where
  "demo_d \<equiv> digest_of demo_sha [7, 8]"

definition demo_received :: node_store where
  "demo_received = (empty_node (lit ''n2''))\<lparr>ns_manifests := [demo_id \<mapsto> demo_manifest],
     ns_moves := [demo_id \<mapsto> demo_record (Some (lit ''n2'')) Transferring None]\<rparr>"

definition demo_target :: "move_record \<Rightarrow> node_store" where
  "demo_target r = demo_received\<lparr>ns_partials := Map.empty, ns_blobs := [demo_d \<mapsto> [7, 8]], ns_restores := [demo_id \<mapsto> [([lit ''a''], [7, 8], Some 420)]],
     ns_moves := [demo_id \<mapsto> r]\<rparr>"

abbreviation demo_lease :: str where
  "demo_lease \<equiv> random_lease_id (replicate 16 1)"

definition demo_copied :: node_store where
  "demo_copied = demo_received\<lparr>ns_partials := Map.empty, ns_blobs := [demo_d \<mapsto> [7, 8]]\<rparr>"

lemma lease_not_blank: "trim (random_lease_id drawn) \<noteq> []"
proof
  let ?s = "random_lease_id drawn"
  have start: "dropWhile is_whitespace ?s = ?s"
    by (simp add: random_lease_id_def lit_def is_whitespace_def)
  assume "trim ?s = []"
  then have "list_all is_whitespace ?s"
    by (simp add: trim_def trim_start_matches_def trim_end_matches_def start list_all_iff)
  then show False
    by (simp add: random_lease_id_def lit_def is_whitespace_def)
qed

lemma demo_io_sel: "ni_now demo_io = 5" "ni_manifest_written demo_io" "ni_move_written demo_io" "ni_renamed demo_io"
  by (simp_all add: demo_io_def)

lemma demo_manifest_sel: "cm_checkpoint_id demo_manifest = demo_id" "cm_provider demo_manifest = Codex" "cm_provider_state demo_manifest = None"
  "cm_provider_session_id demo_manifest = Some (lit ''t'')"
  by (simp_all add: demo_manifest_def)

lemma demo_world_sel: "ho_io demo_world i = demo_io" "ho_sha demo_world = demo_sha" "ho_prepare demo_world = demo_prepare_world"
  "ho_source_profile demo_world = Some (Codex, lit ''/h'')" "ho_target_profile demo_world = Some (Codex, lit ''/h'')"
  "ho_signed_in demo_world" "ho_resumes demo_world" "ho_lease demo_world = Some (replicate 16 1)"
  by (simp_all add: demo_world_def)

lemma smooth_demo: "smooth demo_world"
  by (simp add: smooth_def demo_world_def demo_io_def)

lemma demo_put_manifest: "put_manifest demo_io demo_manifest (empty_node (lit ''n2'')) = (Inr (), demo_received)"
  by (simp add: put_manifest_def demo_manifest_valid save_manifest_def save_move_def demo_io_def demo_received_def empty_node_def demo_record_def)
    (simp add: demo_manifest_def lit_def)

lemma demo_missing: "missing_blobs (map cf_digest (manifest_entries demo_manifest)) demo_received = Inr [demo_d]"
  by (simp add: demo_manifest_def manifest_entries_def file_entry_def demo_valid and_then_def demo_received_def empty_node_def)

lemma demo_read: "read_blob demo_d 0 TRANSFER_BYTES demo_source = Inr (chunk_of [7, 8] demo_d 0)"
  by (rule read_chunk) (simp_all add: demo_source_def demo_valid)

lemma demo_put: "put_blob demo_sha demo_io (chunk_of [7, 8] demo_d 0) demo_received = (Inr True, demo_copied)"
  by (subst put_chunk) (simp_all add: demo_valid uploaded_def demo_copied_def demo_received_def empty_node_def demo_io_def TRANSFER_BYTES_def)

lemma demo_stage: "service_stage demo_sha (Some (Codex, lit ''/h'')) demo_id demo_io demo_copied
    = (Inr (), demo_target (demo_record (Some (lit ''n2'')) Staged None))"
proof -
  have man: "load_manifest demo_id n = Inr demo_manifest" if "ns_manifests n demo_id = Some demo_manifest" for n
    using that by (simp add: load_manifest_def demo_valid demo_manifest_valid and_then_def)
  have mv: "load_move demo_id n = Inr r" if "ns_moves n demo_id = Some r" for n r
    using that by (simp add: load_move_def demo_valid and_then_def)
  have "restore_manifest demo_sha demo_io demo_manifest [demo_d \<mapsto> [7, 8]] = (Inr (), [([lit ''a''], [7, 8], Some 420)])"
    by (simp add: restore_manifest_def demo_manifest_def restore_file_def file_entry_def demo_valid and_then_def demo_io_def tree_clash_def
      validate_relative_path_def path_is_absolute_def starts_with_def path_components_def lit_def)
  then show ?thesis
    by (simp add: service_stage_def man mv stage_def demo_copied_def demo_received_def empty_node_def activate_provider_state_def
      demo_io_sel demo_manifest_sel save_move_def demo_target_def demo_record_def)
qed

lemma demo_commit_target: "commit_move demo_io demo_id (lit ''n2'') demo_lease (demo_target (demo_record (Some (lit ''n2'')) Staged None))
    = (Inr (demo_record (Some (lit ''n2'')) Committed (Some demo_lease)), demo_target (demo_record (Some (lit ''n2'')) Committed (Some demo_lease)))"
  by (simp add: commit_move_def load_move_def demo_valid and_then_def demo_target_def demo_record_def save_move_def demo_io_def lease_not_blank Let_def)

lemma demo_commit_source: "\<exists>n. commit_move demo_io demo_id (lit ''n2'') demo_lease demo_source
    = (Inr (demo_record (Some (lit ''n2'')) Committed (Some demo_lease)), n)
    \<and> ns_moves n demo_id = Some (demo_record (Some (lit ''n2'')) Committed (Some demo_lease))"
  by (simp add: commit_move_def load_move_def demo_valid and_then_def demo_source_def demo_record_def save_move_def demo_io_def lease_not_blank Let_def)

lemma demo_transfer:
  "transfer_blobs demo_world 1 [demo_d] \<lparr>hs_source = demo_source, hs_target = demo_received, hs_requests = k\<rparr>
     = (Inr (), \<lparr>hs_source = demo_source, hs_target = demo_copied, hs_requests = Suc (Suc k)\<rparr>)"
proof -
  have source: "ask_source demo_world (reading (read_blob demo_d 0 TRANSFER_BYTES)) \<lparr>hs_source = demo_source, hs_target = demo_received, hs_requests = k\<rparr>
      = (Inr (chunk_of [7, 8] demo_d 0), \<lparr>hs_source = demo_source, hs_target = demo_received, hs_requests = Suc k\<rparr>)"
    by (simp add: ask_source_smooth [OF smooth_demo] reading_def demo_read map_err_def)
  have target: "ask_target demo_world (\<lambda>io. put_blob demo_sha io (chunk_of [7, 8] demo_d 0)) \<lparr>hs_source = demo_source, hs_target = demo_received, hs_requests = Suc k\<rparr>
      = (Inr True, \<lparr>hs_source = demo_source, hs_target = demo_copied, hs_requests = Suc (Suc k)\<rparr>)"
    by (simp add: ask_target_smooth [OF smooth_demo] demo_world_sel demo_put map_err_def)
  show ?thesis
    unfolding transfer_blobs.simps One_nat_def transfer_blob.simps proceed_def demo_world_sel source target prod.case sum.case chunk_of_again
    by (simp add: bc_eof_chunk TRANSFER_BYTES_def target)
qed

lemma demo_operation:
  "\<exists>s'. operation demo_world 1 (lit ''n2'') demo_manifest \<lparr>hs_source = demo_source, hs_target = empty_node (lit ''n2''), hs_requests = k\<rparr>
     = (Inr (demo_record (Some (lit ''n2'')) Committed (Some demo_lease), demo_record (Some (lit ''n2'')) Committed (Some demo_lease)), s')
     \<and> ns_moves (hs_source s') demo_id = Some (demo_record (Some (lit ''n2'')) Committed (Some demo_lease))"
  using demo_commit_source
  by (auto simp: operation_def proceed_def ask_target_smooth [OF smooth_demo] ask_source_smooth [OF smooth_demo] reading_def map_err_def
    demo_world_sel demo_put_manifest demo_missing demo_manifest_sel demo_stage demo_commit_target demo_transfer [unfolded One_nat_def]
    simp del: transfer_blobs.simps)

lemma demo_provider: "pp_provider demo_params = Codex"
  by (simp add: demo_params_def)

lemma demo_handoff:
  "\<exists>s'. handoff demo_world 1 [] demo_params demo_state
     = (Inr (demo_manifest, demo_record (Some (lit ''n2'')) Committed (Some demo_lease), demo_record (Some (lit ''n2'')) Committed (Some demo_lease)), s')
     \<and> ns_moves (hs_source s') demo_id = Some (demo_record (Some (lit ''n2'')) Committed (Some demo_lease))"
proof -
  have prep: "ask_source demo_world (service_prepare (ho_sha demo_world) (ho_prepare demo_world) (ho_source_profile demo_world) demo_params) demo_state
      = (Inr demo_manifest, \<lparr>hs_source = demo_source, hs_target = empty_node (lit ''n2''), hs_requests = Suc 0\<rparr>)"
    using demo_prepared
    by (simp add: ask_source_smooth [OF smooth_demo] demo_world_sel service_prepare_def demo_provider demo_state_def map_err_def)
  have "ns_node_id (empty_node (lit ''n2'')) = lit ''n2''"
    by (simp add: empty_node_def)
  with demo_operation [of "Suc 0", unfolded One_nat_def] show ?thesis
    by (auto simp: handoff_def proceed_def prep [unfolded demo_world_sel] demo_manifest_sel demo_world_sel)
qed

lemma demo_tree: "tree_ok demo_entries"
  by (simp add: demo_entries_def name_ok_def lit_def)

lemma demo_state_histories: "node_history (ho_sha demo_world) (hs_source demo_state)" "node_history (ho_sha demo_world) (hs_target demo_state)"
  by (simp_all add: demo_state_def hist_new)

theorem source_yields_only_to_the_target_witness:
  "\<exists>r s' r'. handoff demo_world 1 [] demo_params demo_state = (r, s') \<and> ns_moves (hs_source s') demo_id \<noteq> None
     \<and> ns_moves (hs_target s') demo_id = Some r' \<and> mr_phase r' = Committed \<and> mr_lease_id r' = Some demo_lease"
proof -
  obtain r s' where h: "handoff demo_world 1 [] demo_params demo_state = (r, s')"
    and m: "ns_moves (hs_source s') demo_id = Some (demo_record (Some (lit ''n2'')) Committed (Some demo_lease))"
    using demo_handoff by blast
  have "ns_moves (hs_source demo_state) demo_id = None"
    by (simp add: demo_state_def empty_node_def)
  with source_yields_only_to_the_target [OF demo_state_histories h m] h m show ?thesis
    by (simp add: demo_record_def)
qed


end
