(* ===== verification/Spec2Isabelle.thy ===== *)
theory Spec2Isabelle
  imports Prelude Grid Frames Model Decimal Hex Shell_Quote Status Status_Properties Agent
    Remote_Types Remote_Codec Offset_Log Output_Log Output_Log_Sync Remote_Log Events
    Event_Bus Byte_Search Holder_Protocol Process_Tree Held_Pump Detect Session_Record
    Registry Registry_Persist Registry_Store Registry_History Governor Grid_Mirror
    Screen_Diff Remote_Holder Holder_Stream Holder_History Term_Buffer Term_Scrollback
    Term_Find Term_Keys Term_Selection Term_Repaint Updater Gateway Checkpoint
    Checkpoint_History Handoff
begin

text \<open>
  Homie runs coding agents in terminals that outlive the application showing them. An engine
  process keeps the sessions; each session's terminal is owned by a holder process, on this
  machine or on a remote one; clients attach to the engine over a socket, receive the terminal
  as grid updates and send input; the engine judges from hooks, screens and output what an agent
  is doing and publishes events. The Rust sources are under \<^verbatim>\<open>src/homie/crates\<close>; this library models
  the parts whose correctness the others rely on.

  \<^bold>\<open>Theories and sources.\<close>
  \<^item> \<open>Prelude\<close>: Rust's integers, results and big-endian bytes; the interfaces
    \<open>stream_decoder\<close>, \<open>indexed_decoder\<close> and \<open>chunk_feeder\<close> (incremental decoders) and \<open>state_machine\<close>.
  \<^item> \<open>Grid\<close>: \<^verbatim>\<open>homie-proto/src/grid.rs\<close>. Colours, cells, the run-length row codec (\<open>append_row\<close>,
    \<open>read_row_from_cursor\<close>), \<open>grid_encode\<close>, \<open>grid_decode\<close>, and \<open>grid_apply\<close>, which patches a client's buffer;
    its \<open>None\<close> is the panic of an out-of-range slice. Shown: round trips, every truncation is detected,
    which updates fail to encode, and what each cell shows after an update.
  \<^item> \<open>Frames\<close>: \<^verbatim>\<open>homie-proto/src/frames.rs\<close>. Typed frames and the incremental \<open>feed\<close>. Shown: any chunking of
    a stream gives the frames sent, or the same error; the buffer is bounded.
  \<^item> \<open>Model\<close>: text, time and the session data of \<^verbatim>\<open>homie-proto/src/model.rs\<close> that the others use.
  \<^item> \<open>Status\<close>, \<open>Status_Properties\<close>: \<^verbatim>\<open>homie-engine/src/status/mod.rs\<close> and \<^verbatim>\<open>risk.rs\<close>. \<open>reduce\<close> folds one signal
    into the reducer; the pair \<open>reducing\<close> is the reducer with the outcome under construction, which the
    source mutates side by side. Shown for single signals and for all runs: exits are final, subagents
    do not touch their parent, turns complete at most once, counters are bounded.
  \<^item> \<open>Remote_Types\<close>, \<open>Remote_Codec\<close>: \<^verbatim>\<open>homie-proto/src/remote_pty.rs\<close>. The messages between engine and remote
    holder, their checks, \<open>encode_into\<close> with its rollback and the incremental \<open>remote_feed\<close>. Shown: stream
    round trip, atomic encoding, what the checks let through, and that only checked messages come out.
  \<^item> \<open>Offset_Log\<close>: the contract of an offset-addressed log and the client that catches up with it;
    \<open>Output_Log\<close>, \<open>Output_Log_Sync\<close>: \<^verbatim>\<open>homie-engine/src/log.rs\<close>; \<open>Remote_Log\<close>: \<^verbatim>\<open>homie-remote/src/output_log.rs\<close>.
    Both logs are shown to keep the contract along every history of appends and restarts without disk
    faults; the engine's replay start is the newest screen reset. With disk faults and with lagging
    readers the engine's log breaks its promises in three ways, each shown.
  \<^item> \<open>Events\<close>, \<open>Event_Bus\<close>: \<^verbatim>\<open>homie-engine/src/events.rs\<close>. Filters, subscriber queues, the replay ring, and the
    interleavings of publishers as the step relation \<open>bus_step\<close>. Shown: accounting of losses, bounds, gapless
    resumption; and two ways in which a subscriber can miss an event unnoticed.
  \<^item> \<open>Detect\<close>: \<^verbatim>\<open>homie-engine/src/detect\<close>. The manifests that say how an agent's screen shows its state: reading
    predicates, regions of the screen, catalogs of manifests, and the evaluation of the rules. Shown: the
    verdict is that of the matching rule of highest priority, later catalogs override earlier ones, and
    the prompt box is the bottom one.
  \<^item> \<open>Shell_Quote\<close>, \<open>Agent\<close>: \<^verbatim>\<open>homie-engine/src/agent.rs\<close>. The command line and the environment an agent is
    launched with. Shown: quoted words are read back by the shell, the login shell runs the agent with its
    arguments, and the environment is exact.
  \<^item> \<open>Session_Record\<close>, \<open>Registry\<close>, \<open>Registry_Persist\<close>, \<open>Registry_History\<close>: \<^verbatim>\<open>homie-engine/src/registry.rs\<close>
    and \<^verbatim>\<open>registry/\<close>. The records, titles, projects and closed tabs, hibernation and waking, the state
    file and restart; all operations as the step relation \<open>registry_step\<close>. Shown: the tables stay
    consistent along every history, input typed into a frozen session arrives in order when it wakes, the
    file is never torn, a restart restores the records and claims to run only what runs.
  \<^item> \<open>Registry_Store\<close>: \<^verbatim>\<open>registry/store.rs\<close> and \<^verbatim>\<open>registry/migrate.rs\<close>. The trait of a persistence store as the locale
    \<open>session_store\<close>, interpreted for the one state file and for one file per session. Shown: both load
    exactly what they acknowledged, whichever writes failed, and a migration copies everything.
  \<^item> \<open>Decimal\<close>, \<open>Process_Tree\<close>: \<^verbatim>\<open>homie-engine/src/holder/process_tree.rs\<close>. Finding and signalling the
    processes under a session's child, on an arbitrary sequence of answers of the system. Shown: the walk
    ends and is exact, killing is safe and thorough; and stopping can hit a stranger.
  \<^item> \<open>Governor\<close>: \<^verbatim>\<open>homie-engine/src/governor.rs\<close>, a client of the registry and of the process tree. Shown for a
    registry that other threads change meanwhile: only sessions listed as idle are stopped, the budget
    freezes just enough; and that a session which starts to work during the sweep is stopped.

  \<^item> \<open>Byte_Search\<close>, \<open>Holder_Protocol\<close>, \<open>Held_Pump\<close>: \<^verbatim>\<open>homie-engine/src/holder/protocol.rs\<close> and the chunk loop of
    \<^verbatim>\<open>session/pump.rs\<close>. Exit markers in the output of a local holder. Shown: the marker is taken out of the
    stream however it is cut, and only a marker above the floor ends a session.
  \<^item> \<open>Grid_Mirror\<close>, \<open>Screen_Diff\<close>: \<^verbatim>\<open>homie-terminal-state/src/mirror.rs\<close> and \<^verbatim>\<open>screen.rs\<close>. The receiving and the
    sending end of the grid stream. Shown: a mirror is always the screen of its sequence number, deltas
    are exact after a snapshot that matches the baseline, and one that does not match leaves stale rows.
  \<^item> \<open>Remote_Holder\<close>, \<open>Holder_Stream\<close>, \<open>Holder_History\<close>: \<^verbatim>\<open>homie-remote/src/holder.rs\<close>. The handlers of the remote
    holder, the invariant of its connections, and its event loop as the step relation \<open>holder_step\<close>. Shown for
    every history: a controller's stream is whole messages which its mirror takes, replay fills the gap
    after a reconnect, and neither a revoked controller nor an unauthenticated peer acts on the agent.
  \<^item> \<open>Term_Buffer\<close>, \<open>Term_Scrollback\<close>, \<open>Term_Find\<close>, \<open>Term_Keys\<close>, \<open>Term_Selection\<close>, \<open>Term_Repaint\<close>: the files of \<^verbatim>\<open>homie-term/src\<close>.
    The widget's cells and row cache, the scrollback viewport, search, key encoding, selection and
    repaint pacing. Shown: what is painted is what was received, the viewport is consistent and
    completes, search is exact, selection highlights what it copies, no damage is forgotten.
  \<^item> \<open>Updater\<close>: \<^verbatim>\<open>homie-updater\<close>. Versions, the choice of a release, download, signature and installation. Shown:
    the newest eligible release is offered, what is staged can be trusted, what the installer leaves.
  \<^item> \<open>Gateway\<close>: \<^verbatim>\<open>homie-gateway\<close>. Keys, rate and token limits and forwarding. Shown: only admitted requests
    are forwarded, the rate limit is exact; and three ways around the limits.
  \<^item> \<open>Checkpoint\<close>, \<open>Checkpoint_History\<close>: \<^verbatim>\<open>homie-node/src/checkpoint.rs\<close>. Snapshots of a workspace as content-addressed blobs
    with a manifest, staging and the record of a move. Shown: what a checkpoint carries, exactly; blobs, manifests and
    moves stay sound along every history of requests; what staging restores; and that staging reopens any move.
  \<^item> \<open>Handoff\<close>: \<^verbatim>\<open>homie-client/src/node_client.rs\<close> and the methods of \<^verbatim>\<open>homie-node/src/service.rs\<close>. Moving a session between two nodes
    over requests that can be lost or lose their answer, with a small calculus of \<open>triple\<close>s. Shown: the source yields
    only to a target that has committed; success restores the workspace; a blob is copied in as many rounds as it has
    chunks (the fuel of \<open>transfer_blob\<close>); two ways in which a failed hand-off leaves the nodes stuck or split.
    \<open>Hex\<close>: the hexadecimal text of gateway and node.

  \<^bold>\<open>How the model relates to the code.\<close> A method that mutates its receiver is a function from the old record
  to the new one, with its result first. Early returns with an error are \<open>Inl\<close>; a panic is \<open>None\<close>.
  Loops are recursive functions with a measure, so all of them terminate and no fuel is needed; the only
  fuel is that of \<open>catch_up\<close>, the reading loop of a client, and the length of the stream plus one is
  shown to be enough. Machine words are words where their width matters (wire fields, flags, colours, checks);
  lengths, indices, offsets and sequence numbers are natural numbers. Time is passed in, as in the source.

  \<^bold>\<open>Parameters.\<close> Code of other packages is a parameter: JSON (\<open>remote_json\<close>, \<open>json_text\<close>), of which only \<open>a written
  value reads back\<close> is assumed where needed, and redaction and lower-casing (\<open>text_fns\<close>), of which
  nothing is assumed; base64 and JSON of exit markers (\<open>marker_fns\<close>); the preparation of a drawn row;
  lower-casing and alphanumeric characters; and what the terminal emulator shows (\<open>term_view\<close>), of
  which only that the cursor is on the screen is assumed. So are regular expressions
  (\<open>regex_fns\<close>), the state file's JSON (\<open>state_json\<close>), the hash and the store of the gateway
  (\<open>gateway_io\<close>), the tools the updater runs (\<open>updater_env\<close>), and SHA-256. Answers of the operating system are inputs
  (\<open>log_io\<close>, \<open>holder_env\<close>, \<open>os_world\<close>, \<open>gov_world\<close>, \<open>node_io\<close>). Dates and other 64-bit floats are reals. Scroll amounts, 32-bit floats
  in the source, are rational numbers rounded to 24 bits after each operation.

  \<^bold>\<open>Not modelled.\<close> Processes, sockets, pseudo-terminals and HTTP as such, threads other than those
  interleaved in \<open>Event_Bus\<close> and \<open>Governor\<close>, drawing and the views of the application, the rest of the client library
  and of the node service. Of the modelled files: texts of errors except where they become part of another value, serde
  implementations, blocking with a timeout, and the macOS variants of reading the process table.

  \<^bold>\<open>Plan.\<close> Left, in order: the attach hub and the remote session of the engine, the node's usage
  and accounts, the client library's reconnection.
\<close>

end
